(* ===== verification/Prelude.thy ===== *)
theory Prelude
  imports Main "HOL-Library.Word" "HOL-Library.Multiset" "HOL-Library.Char_ord"
    "HOL-Library.List_Lexorder" "HOL-Library.Product_Lexorder"
begin

text \<open>
  What every component shares: machine-integer abbreviations, the parts of the Rust standard
  library on text that the sources call, sorting with an unspecified order of ties, and the
  generic lemmas and collections the component proofs use.

  Text. A Rust \<open>str\<close> is a sequence of Unicode scalar values. Here it is a \<open>string\<close> whose
  characters are the scalars U+0000 to U+00FF, on which every classification below
  (whitespace, alphanumeric, case folding, UTF-8 width) is the standard library's, including
  the non-ASCII half of the block. Scalars above U+00FF are outside the model.
\<close>

named_theorems str_defs "definitions of the text operations"

type_synonym u8 = "8 word"
type_synonym u16 = "16 word"
type_synonym u32 = "32 word"
type_synonym u64 = "64 word"
type_synonym str = string

section \<open>Saturating arithmetic\<close>

definition saturating_sub :: "'a::len word \<Rightarrow> 'a word \<Rightarrow> 'a word" where
  "saturating_sub a b = (if b \<le> a then a - b else 0)"

definition saturating_add :: "'a::len word \<Rightarrow> 'a word \<Rightarrow> 'a word" where
  "saturating_add a b = (if unat a + unat b < 2 ^ LENGTH('a) then a + b else - 1)"

lemma unat_saturating_sub [simp]: "unat (saturating_sub a b) = unat a - unat b"
proof (cases "b \<le> a")
  case True
  then show ?thesis by (simp add: saturating_sub_def unat_sub)
next
  case False
  then have "unat a < unat b" by (simp add: word_le_nat_alt)
  with False show ?thesis by (simp add: saturating_sub_def)
qed

lemma unat_saturating_add:
  "unat (saturating_add (a :: 'a::len word) b) = min (unat a + unat b) (2 ^ LENGTH('a) - 1)"
proof (cases "unat a + unat b < 2 ^ LENGTH('a)")
  case True
  then show ?thesis by (simp add: saturating_add_def unat_word_ariths)
next
  case False
  then show ?thesis by (simp add: saturating_add_def unsigned_minus_1_eq_mask mask_eq_exp_minus_1)
qed

section \<open>Characters\<close>

definition code :: "char \<Rightarrow> nat" where
  "code c = of_char c"

definition char_is_whitespace :: "char \<Rightarrow> bool" where
  "char_is_whitespace c \<longleftrightarrow>
     (let n = code c in (9 \<le> n \<and> n \<le> 13) \<or> n = 32 \<or> n = 133 \<or> n = 160)"

lemma space_is_whitespace: "char_is_whitespace (CHR '' '')"
  by (simp add: char_is_whitespace_def code_def)

definition char_is_ascii_uppercase :: "char \<Rightarrow> bool" where
  "char_is_ascii_uppercase c \<longleftrightarrow> (let n = code c in 65 \<le> n \<and> n \<le> 90)"

definition char_is_ascii_alphanumeric :: "char \<Rightarrow> bool" where
  "char_is_ascii_alphanumeric c \<longleftrightarrow>
     (let n = code c in (48 \<le> n \<and> n \<le> 57) \<or> (65 \<le> n \<and> n \<le> 90) \<or> (97 \<le> n \<and> n \<le> 122))"

definition char_is_alphanumeric :: "char \<Rightarrow> bool" where
  "char_is_alphanumeric c \<longleftrightarrow>
     (let n = code c in char_is_ascii_alphanumeric c
        \<or> n \<in> {170, 178, 179, 181, 185, 186, 188, 189, 190}
        \<or> (192 \<le> n \<and> n \<noteq> 215 \<and> n \<noteq> 247))"

definition char_to_ascii_lowercase :: "char \<Rightarrow> char" where
  "char_to_ascii_lowercase c = (if char_is_ascii_uppercase c then char_of (code c + 32) else c)"

definition char_to_lowercase :: "char \<Rightarrow> char" where
  "char_to_lowercase c =
     (let n = code c in
      if char_is_ascii_uppercase c \<or> (192 \<le> n \<and> n \<le> 222 \<and> n \<noteq> 215) then char_of (n + 32)
      else c)"

definition utf8_width :: "char \<Rightarrow> nat" where
  "utf8_width c = (if code c < 128 then 1 else 2)"

lemma utf8_width_pos [simp]: "0 < utf8_width c" "utf8_width c \<noteq> 0"
  by (simp_all add: utf8_width_def)

section \<open>Text\<close>

text \<open>Prefix and suffix operations do not depend on the element type.\<close>

definition to_ascii_lowercase :: "str \<Rightarrow> str" where
  "to_ascii_lowercase = map char_to_ascii_lowercase"

definition to_lowercase :: "str \<Rightarrow> str" where
  "to_lowercase = map char_to_lowercase"

text \<open>\<open>str::len\<close>: bytes, not characters.\<close>

definition str_len :: "str \<Rightarrow> nat" where
  "str_len s = sum_list (map utf8_width s)"

definition starts_with :: "'a list \<Rightarrow> 'a list \<Rightarrow> bool" where
  "starts_with s p \<longleftrightarrow> take (length p) s = p"

definition ends_with :: "'a list \<Rightarrow> 'a list \<Rightarrow> bool" where
  "ends_with s p \<longleftrightarrow> length p \<le> length s \<and> drop (length s - length p) s = p"

definition strip_prefix :: "'a list \<Rightarrow> 'a list \<Rightarrow> 'a list option" where
  "strip_prefix s p = (if starts_with s p then Some (drop (length p) s) else None)"

definition strip_suffix :: "'a list \<Rightarrow> 'a list \<Rightarrow> 'a list option" where
  "strip_suffix s p = (if ends_with s p then Some (take (length s - length p) s) else None)"

definition trim_start_matches :: "(char \<Rightarrow> bool) \<Rightarrow> str \<Rightarrow> str" where
  "trim_start_matches P = dropWhile P"

definition trim_end_matches :: "(char \<Rightarrow> bool) \<Rightarrow> str \<Rightarrow> str" where
  "trim_end_matches P s = rev (dropWhile P (rev s))"

definition trim :: "str \<Rightarrow> str" where
  "trim s = trim_end_matches char_is_whitespace (trim_start_matches char_is_whitespace s)"

definition trim_end :: "str \<Rightarrow> str" where
  "trim_end = trim_end_matches char_is_whitespace"

definition replace_char :: "char \<Rightarrow> char \<Rightarrow> str \<Rightarrow> str" where
  "replace_char a b = map (\<lambda>c. if c = a then b else c)"

text \<open>\<open>str::split\<close> with a character predicate: one more piece than there are separators.\<close>

fun split_on :: "(char \<Rightarrow> bool) \<Rightarrow> str \<Rightarrow> str list" where
  "split_on P [] = [[]]"
| "split_on P (c # cs) =
     (if P c then [] # split_on P cs
      else (case split_on P cs of [] \<Rightarrow> [[c]] | x # xs \<Rightarrow> (c # x) # xs))"

fun join :: "str \<Rightarrow> str list \<Rightarrow> str" where
  "join sep [] = []"
| "join sep [x] = x"
| "join sep (x # y # zs) = x @ sep @ join sep (y # zs)"

definition newline :: char where
  "newline = CHR 0x0A"

definition carriage_return :: char where
  "carriage_return = CHR 0x0D"

definition backslash :: char where
  "backslash = CHR 0x5C"

definition slash :: char where
  "slash = CHR 0x2F"

text \<open>
  \<open>str::lines\<close>: the pieces between newlines; a carriage return is dropped only where a
  newline follows it, and an empty last piece is no line.
\<close>

definition strip_cr :: "str \<Rightarrow> str" where
  "strip_cr s = (if s \<noteq> [] \<and> last s = carriage_return then butlast s else s)"

fun lines_of_pieces :: "str list \<Rightarrow> str list" where
  "lines_of_pieces [] = []"
| "lines_of_pieces [p] = (if p = [] then [] else [p])"
| "lines_of_pieces (p # q # ps) = strip_cr p # lines_of_pieces (q # ps)"

definition str_lines :: "str \<Rightarrow> str list" where
  "str_lines s = lines_of_pieces (split_on (\<lambda>c. c = newline) s)"

text \<open>\<open>str::find\<close> and \<open>str::contains\<close> of a substring; positions count characters.\<close>

fun find_str :: "'a list \<Rightarrow> 'a list \<Rightarrow> nat option" where
  "find_str [] p = (if p = [] then Some 0 else None)"
| "find_str (c # cs) p =
     (if starts_with (c # cs) p then Some 0 else map_option Suc (find_str cs p))"

definition contains_str :: "'a list \<Rightarrow> 'a list \<Rightarrow> bool" where
  "contains_str s p \<longleftrightarrow> find_str s p \<noteq> None"

text \<open>\<open>str::replace\<close> of a non-empty pattern: left to right, without overlaps.\<close>

fun replace_str :: "str \<Rightarrow> str \<Rightarrow> str \<Rightarrow> str" where
  "replace_str p r [] = []"
| "replace_str p r (c # cs) =
     (if p \<noteq> [] \<and> starts_with (c # cs) p then r @ replace_str p r (drop (length p - 1) cs)
      else c # replace_str p r cs)"

text \<open>\<open>str::rsplit_once\<close> at a character: around its last occurrence.\<close>

fun rsplit_once :: "char \<Rightarrow> str \<Rightarrow> (str \<times> str) option" where
  "rsplit_once d [] = None"
| "rsplit_once d (c # cs) =
     (case rsplit_once d cs of
        Some (a, b) \<Rightarrow> Some (c # a, b)
      | None \<Rightarrow> if c = d then Some ([], cs) else None)"

definition eq_ignore_ascii_case :: "str \<Rightarrow> str \<Rightarrow> bool" where
  "eq_ignore_ascii_case a b \<longleftrightarrow> to_ascii_lowercase a = to_ascii_lowercase b"

text \<open>
  Slicing at a byte offset: \<open>None\<close> where the offset is past the end or inside a character,
  where the Rust slice panics and \<open>is_char_boundary\<close> is false.
\<close>

fun split_bytes :: "nat \<Rightarrow> str \<Rightarrow> (str \<times> str) option" where
  "split_bytes 0 s = Some ([], s)"
| "split_bytes (Suc n) [] = None"
| "split_bytes (Suc n) (c # cs) =
     (if utf8_width c \<le> Suc n
      then map_option (\<lambda>(a, b). (c # a, b)) (split_bytes (Suc n - utf8_width c) cs)
      else None)"

text \<open>\<open>chunks\<close> and \<open>par_chunks\<close>: pieces of \<open>d\<close> values, the last one maybe shorter.\<close>

function chunks_of :: "nat \<Rightarrow> 'a list \<Rightarrow> 'a list list" where
  "chunks_of d xs = (if d = 0 \<or> xs = [] then [] else take d xs # chunks_of d (drop d xs))"
  by pat_completeness auto
termination
  by (relation "measure (\<lambda>(d, xs). length xs)") auto

declare chunks_of.simps [simp del]

lemma concat_chunks_of: "0 < d \<Longrightarrow> concat (chunks_of d xs) = xs"
  by (induction d xs rule: chunks_of.induct) (subst chunks_of.simps, simp)

text \<open>\<open>Iterator::find_map\<close>.\<close>

fun find_map :: "('a \<Rightarrow> 'b option) \<Rightarrow> 'a list \<Rightarrow> 'b option" where
  "find_map f [] = None"
| "find_map f (x # xs) = (case f x of Some y \<Rightarrow> Some y | None \<Rightarrow> find_map f xs)"

lemma find_map_Some: "find_map f xs = Some y \<Longrightarrow> \<exists>x \<in> set xs. f x = Some y"
  by (induction xs) (auto split: option.splits)

lemma find_map_None: "find_map f xs = None \<longleftrightarrow> (\<forall>x \<in> set xs. f x = None)"
  by (induction xs) (auto split: option.split)

text \<open>\<open>Path::join\<close> with \<open>/\<close> as the separator.\<close>

definition path_join :: "str \<Rightarrow> str \<Rightarrow> str" where
  "path_join a b =
     (if starts_with b [slash] then b
      else if a = [] \<or> ends_with a [slash] then a @ b
      else a @ [slash] @ b)"

text \<open>Decimal numbers, as \<open>to_string\<close> and \<open>format!\<close> print them.\<close>

fun show_nat :: "nat \<Rightarrow> str" where
  "show_nat n = (if n < 10 then [char_of (48 + n)] else show_nat (n div 10) @ [char_of (48 + n mod 10)])"

declare show_nat.simps [simp del]

declare char_is_whitespace_def [str_defs] starts_with_def [str_defs] ends_with_def [str_defs]
  strip_prefix_def [str_defs] strip_suffix_def [str_defs] trim_start_matches_def [str_defs]
  trim_end_matches_def [str_defs] trim_def [str_defs] trim_end_def [str_defs]
  replace_char_def [str_defs] str_lines_def [str_defs] strip_cr_def [str_defs]
  contains_str_def [str_defs] newline_def [str_defs] carriage_return_def [str_defs]
  backslash_def [str_defs] slash_def [str_defs] to_lowercase_def [str_defs]
  to_ascii_lowercase_def [str_defs] char_to_lowercase_def [str_defs]
  char_to_ascii_lowercase_def [str_defs] char_is_ascii_uppercase_def [str_defs]
  code_def [str_defs] str_len_def [str_defs] utf8_width_def [str_defs]
  char_is_alphanumeric_def [str_defs] char_is_ascii_alphanumeric_def [str_defs]

section \<open>Lemmas on text\<close>

lemma starts_with_append [simp]: "starts_with (p @ s) p"
  by (simp add: starts_with_def)

lemma starts_with_iff: "starts_with s p \<longleftrightarrow> (\<exists>r. s = p @ r)"
  by (auto simp: starts_with_def) (metis append_take_drop_id)

lemma ends_with_iff: "ends_with s p \<longleftrightarrow> (\<exists>r. s = r @ p)"
  by (auto simp: ends_with_def) (metis append_take_drop_id)

lemma strip_prefix_Some: "strip_prefix s p = Some r \<longleftrightarrow> s = p @ r"
  by (auto simp: strip_prefix_def starts_with_iff)

lemma strip_suffix_Some: "strip_suffix s p = Some r \<longleftrightarrow> s = r @ p"
  by (auto simp: strip_suffix_def ends_with_iff)

lemma strip_prefix_None: "strip_prefix s p = None \<longleftrightarrow> (\<nexists>r. s = p @ r)"
  by (auto simp: strip_prefix_def starts_with_iff)

lemma strip_suffix_None: "strip_suffix s p = None \<longleftrightarrow> (\<nexists>r. s = r @ p)"
  by (auto simp: strip_suffix_def ends_with_iff)

lemma trim_end_matches_idem [simp]:
  "trim_end_matches P (trim_end_matches P s) = trim_end_matches P s"
  by (simp add: trim_end_matches_def)

lemma trim_end_matches_last:
  "trim_end_matches P s \<noteq> [] \<Longrightarrow> \<not> P (last (trim_end_matches P s))"
  unfolding trim_end_matches_def by (metis hd_dropWhile last_rev rev_is_Nil_conv)

lemma trim_end_matches_Nil_iff: "trim_end_matches P s = [] \<longleftrightarrow> (\<forall>c \<in> set s. P c)"
  by (simp add: trim_end_matches_def dropWhile_eq_Nil_conv)

lemma trim_end_matches_decomp: "\<exists>t. s = trim_end_matches P s @ t \<and> (\<forall>c \<in> set t. P c)"
proof -
  have "rev s = takeWhile P (rev s) @ dropWhile P (rev s)" by simp
  then have "s = trim_end_matches P s @ rev (takeWhile P (rev s))"
    unfolding trim_end_matches_def by (metis rev_append rev_rev_ident)
  moreover have "\<forall>c \<in> set (rev (takeWhile P (rev s))). P c"
    by (auto dest: set_takeWhileD)
  ultimately show ?thesis by blast
qed

lemma trim_Nil_iff: "trim s = [] \<longleftrightarrow> (\<forall>c \<in> set s. char_is_whitespace c)"
proof -
  have "(\<forall>c \<in> set (dropWhile P s). P c) \<longleftrightarrow> (\<forall>c \<in> set s. P c)" for P :: "char \<Rightarrow> bool"
    by (induction s) auto
  then show ?thesis by (simp add: trim_def trim_start_matches_def trim_end_matches_Nil_iff)
qed

lemma split_on_not_Nil [simp]: "split_on P s \<noteq> []"
  by (cases s) (auto split: list.splits)

lemma split_on_pieces: "x \<in> set (split_on P s) \<Longrightarrow> c \<in> set x \<Longrightarrow> \<not> P c"
proof (induction s arbitrary: x)
  case Nil
  then show ?case by simp
next
  case (Cons d s)
  obtain y ys where "split_on P s = y # ys" by (cases "split_on P s") auto
  with Cons show ?case by (fastforce split: if_splits)
qed

lemma join_Cons: "xs \<noteq> [] \<Longrightarrow> join sep (x # xs) = x @ sep @ join sep xs"
  by (cases xs) auto

lemma join_split_on: "join [d] (split_on (\<lambda>c. c = d) s) = s"
proof (induction s)
  case Nil
  then show ?case by simp
next
  case (Cons c s)
  obtain x xs where sp: "split_on (\<lambda>c. c = d) s = x # xs"
    by (cases "split_on (\<lambda>c. c = d) s") auto
  with Cons show ?case by (cases xs) auto
qed

lemma replace_char_idem [simp]: "replace_char a b (replace_char a b s) = replace_char a b s"
  by (simp add: replace_char_def)

lemma replace_char_notin: "a \<noteq> b \<Longrightarrow> a \<notin> set (replace_char a b s)"
  by (auto simp: replace_char_def)

lemma length_replace_char [simp]: "length (replace_char a b s) = length s"
  by (simp add: replace_char_def)

lemma rsplit_once_Some: "rsplit_once d s = Some (a, b) \<Longrightarrow> s = a @ d # b \<and> d \<notin> set b"
proof (induction s arbitrary: a)
  case Nil
  then show ?case by simp
next
  case (Cons c cs)
  show ?case
  proof (cases "rsplit_once d cs")
    case None
    have "d \<notin> set cs" using None
      by (induction cs) (auto split: option.splits if_splits)
    with None Cons.prems show ?thesis by (auto split: if_splits)
  next
    case (Some p)
    with Cons show ?thesis by (cases p) auto
  qed
qed

lemma split_bytes_Some:
  "split_bytes n s = Some (a, b) \<Longrightarrow> s = a @ b \<and> str_len a = n"
proof (induction n s arbitrary: a rule: split_bytes.induct)
  case (3 n c cs)
  then show ?case by (auto simp: str_len_def split: if_splits)
qed (auto simp: str_len_def)

lemma str_len_Nil [simp]: "str_len [] = 0"
  by (simp add: str_len_def)

lemma str_len_append [simp]: "str_len (a @ b) = str_len a + str_len b"
  by (simp add: str_len_def)

lemma str_len_Cons [simp]: "str_len (c # s) = utf8_width c + str_len s"
  by (simp add: str_len_def)

lemma str_len_eq_0 [simp]: "str_len s = 0 \<longleftrightarrow> s = []"
  by (cases s) simp_all

lemma split_bytes_append: "split_bytes (str_len a) (a @ b) = Some (a, b)"
proof (induction a)
  case Nil
  then show ?case by simp
next
  case (Cons c a)
  obtain n where n: "utf8_width c + str_len a = Suc n"
    using utf8_width_pos(1) [of c] by (metis add_gr_0 gr0_implies_Suc)
  have "Suc n - utf8_width c = str_len a" "utf8_width c \<le> Suc n" using n by auto
  with n Cons show ?case by (simp del: utf8_width_pos)
qed

text \<open>Lower-casing is idempotent, checked on all 256 characters.\<close>

lemma all_chars: "(\<forall>c. P c) \<longleftrightarrow> (\<forall>n < 256. P (char_of (n :: nat)))"
proof
  assume *: "\<forall>n < 256. P (char_of (n :: nat))"
  show "\<forall>c. P c"
  proof
    fix c
    have "(of_char c :: nat) < 256" by (rule nat_of_char_less_256)
    with * have "P (char_of (of_char c :: nat))" by blast
    then show "P c" by simp
  qed
qed simp

lemma char_to_lowercase_idem [simp]: "char_to_lowercase (char_to_lowercase c) = char_to_lowercase c"
proof -
  have lt: "code c < 256" by (simp add: code_def nat_of_char_less_256)
  show ?thesis
  proof (cases "char_is_ascii_uppercase c \<or> (192 \<le> code c \<and> code c \<le> 222 \<and> code c \<noteq> 215)")
    case True
    then have le: "code c + 32 < 256" by (auto simp: char_is_ascii_uppercase_def Let_def)
    then have cd: "code (char_of (code c + 32)) = code c + 32" by (simp add: code_def)
    have "\<not> char_is_ascii_uppercase (char_of (code c + 32))"
      "\<not> (192 \<le> code c + 32 \<and> code c + 32 \<le> 222)"
      using True cd by (auto simp: char_is_ascii_uppercase_def Let_def)
    then have "char_to_lowercase (char_of (code c + 32)) = char_of (code c + 32)"
      unfolding char_to_lowercase_def [of "char_of (code c + 32)"] Let_def cd
      by (intro if_not_P) blast
    moreover have "char_to_lowercase c = char_of (code c + 32)"
      unfolding char_to_lowercase_def [of c] Let_def using True by (rule if_P)
    ultimately show ?thesis by metis
  next
    case False
    then have "char_to_lowercase c = c"
      unfolding char_to_lowercase_def [of c] Let_def by (intro if_not_P)
    then show ?thesis by metis
  qed
qed

lemma to_lowercase_idem [simp]: "to_lowercase (to_lowercase s) = to_lowercase s"
  by (simp add: to_lowercase_def)

section \<open>Sorting with an unspecified order of ties\<close>

text \<open>
  \<open>sort_unstable_by\<close> promises a permutation of its input that is in order whenever the
  comparison is a total preorder on it; the order of ties is not specified. The components
  that sort take the sort as an argument \<open>srt\<close> (first argument: "not greater") and their
  lemmas are proved under this contract. Where a hash map is iterated before the sort, the
  iteration order is one more permutation, which the contract absorbs.
\<close>

definition total_preorder_on :: "('a \<Rightarrow> 'a \<Rightarrow> bool) \<Rightarrow> 'a set \<Rightarrow> bool" where
  "total_preorder_on le A \<longleftrightarrow>
     (\<forall>x\<in>A. \<forall>y\<in>A. le x y \<or> le y x) \<and>
     (\<forall>x\<in>A. \<forall>y\<in>A. \<forall>z\<in>A. le x y \<longrightarrow> le y z \<longrightarrow> le x z)"

locale unstable_sort =
  fixes srt :: "('a \<Rightarrow> 'a \<Rightarrow> bool) \<Rightarrow> 'a list \<Rightarrow> 'a list"
  assumes srt_mset: "mset (srt le xs) = mset xs"
    and srt_sorted: "total_preorder_on le (set xs) \<Longrightarrow> sorted_wrt le (srt le xs)"
begin

lemma srt_set: "set (srt le xs) = set xs"
  by (metis srt_mset set_mset_mset)

lemma srt_length: "length (srt le xs) = length xs"
  by (metis srt_mset size_mset)

lemma srt_distinct: "distinct (srt le xs) \<longleftrightarrow> distinct xs"
  by (metis srt_mset mset_eq_imp_distinct_iff)

lemma srt_Nil: "srt le [] = []"
  using srt_length [of le "[]"] by simp

lemma srt_sum_list: "sum_list (map (f :: 'a \<Rightarrow> nat) (srt le xs)) = sum_list (map f xs)"
  by (metis srt_mset mset_map sum_mset_sum_list)

lemma srt_filter_length: "length (filter P (srt le xs)) = length (filter P xs)"
  by (metis srt_mset mset_filter size_mset)

end

text \<open>Insertion sort, which keeps ties in place: one sort that meets the contract.\<close>

fun insert_by :: "('a \<Rightarrow> 'a \<Rightarrow> bool) \<Rightarrow> 'a \<Rightarrow> 'a list \<Rightarrow> 'a list" where
  "insert_by le x [] = [x]"
| "insert_by le x (y # ys) = (if le x y then x # y # ys else y # insert_by le x ys)"

fun sort_by :: "('a \<Rightarrow> 'a \<Rightarrow> bool) \<Rightarrow> 'a list \<Rightarrow> 'a list" where
  "sort_by le [] = []"
| "sort_by le (x # xs) = insert_by le x (sort_by le xs)"

lemma mset_insert_by: "mset (insert_by le x xs) = add_mset x (mset xs)"
  by (induction xs) auto

lemma mset_sort_by: "mset (sort_by le xs) = mset xs"
  by (induction xs) (auto simp: mset_insert_by)

lemma set_insert_by: "set (insert_by le x xs) = insert x (set xs)"
  by (induction xs) auto

lemma set_sort_by [simp]: "set (sort_by le xs) = set xs"
  by (induction xs) (auto simp: set_insert_by)

lemma length_sort_by [simp]: "length (sort_by le xs) = length xs"
  by (metis mset_sort_by size_mset)

lemma total_preorder_on_subset:
  "total_preorder_on le A \<Longrightarrow> B \<subseteq> A \<Longrightarrow> total_preorder_on le B"
  unfolding total_preorder_on_def by blast

lemma sorted_insert_by:
  assumes "total_preorder_on le (insert x (set xs))" "sorted_wrt le xs"
  shows "sorted_wrt le (insert_by le x xs)"
  using assms
proof (induction xs)
  case Nil
  then show ?case by simp
next
  case (Cons y ys)
  show ?case
  proof (cases "le x y")
    case True
    have trans: "le a b \<Longrightarrow> le b c \<Longrightarrow> le a c"
      if "{a, b, c} \<subseteq> insert x (set (y # ys))" for a b c
      using that Cons.prems(1) unfolding total_preorder_on_def by (meson insert_subset)
    have "le x z" if "z \<in> set ys" for z
      using trans [of x y z] True that Cons.prems(2) by auto
    with True Cons.prems show ?thesis by auto
  next
    case False
    then have "le y x" using Cons.prems(1) unfolding total_preorder_on_def by auto
    moreover have "sorted_wrt le (insert_by le x ys)"
      using Cons.IH Cons.prems total_preorder_on_subset [OF Cons.prems(1), of "insert x (set ys)"]
      by auto
    ultimately show ?thesis using False Cons.prems by (auto simp: set_insert_by)
  qed
qed

lemma sorted_sort_by: "total_preorder_on le (set xs) \<Longrightarrow> sorted_wrt le (sort_by le xs)"
proof (induction xs)
  case Nil
  then show ?case by simp
next
  case (Cons x xs)
  then have "sorted_wrt le (sort_by le xs)"
    using total_preorder_on_subset [OF Cons.prems, of "set xs"] by auto
  with Cons.prems show ?case by (simp add: sorted_insert_by)
qed

interpretation stable: unstable_sort sort_by
  by unfold_locales (simp_all add: mset_sort_by sorted_sort_by)

lemma unstable_sort_sort_by: "unstable_sort sort_by"
  by (rule stable.unstable_sort_axioms)

text \<open>A key into a linear order gives a total preorder.\<close>

lemma total_preorder_key: "total_preorder_on (\<lambda>x y. (f x :: 'b::linorder) \<le> f y) A"
  unfolding total_preorder_on_def by auto

section \<open>Lists and options\<close>

text \<open>\<open>min_by_key\<close>: the first element with the least key.\<close>

fun first_min_by :: "('a \<Rightarrow> 'b::linorder) \<Rightarrow> 'a list \<Rightarrow> 'a option" where
  "first_min_by k [] = None"
| "first_min_by k (x # xs) =
     (case first_min_by k xs of None \<Rightarrow> Some x | Some y \<Rightarrow> if k y < k x then Some y else Some x)"

lemma first_min_by_Some:
  "first_min_by k xs = Some y \<Longrightarrow> y \<in> set xs \<and> (\<forall>x \<in> set xs. k y \<le> k x)"
proof (induction xs arbitrary: y)
  case Nil
  then show ?case by simp
next
  case (Cons a xs)
  show ?case
  proof (cases "first_min_by k xs")
    case None
    then have "xs = []" by (cases xs) (auto split: option.splits if_splits)
    with Cons.prems show ?thesis by simp
  next
    case (Some z)
    then have "z \<in> set xs" "\<forall>x \<in> set xs. k z \<le> k x" using Cons.IH by blast+
    with Some Cons.prems show ?thesis
      by (auto split: if_splits intro: order_trans less_imp_le)
  qed
qed

lemma first_min_by_None: "first_min_by k xs = None \<longleftrightarrow> xs = []"
  by (cases xs) (auto split: option.splits if_splits)

lemma sorted_wrt_take: "sorted_wrt R xs \<Longrightarrow> sorted_wrt R (take n xs)"
  by (induction xs arbitrary: n) (auto simp: take_Cons' dest: in_set_takeD)

text \<open>The last entry of an association list under construction: \<open>HashMap::insert\<close>.\<close>

lemma map_upd_dom_card:
  "finite (dom m) \<Longrightarrow> card (dom (m(k \<mapsto> v))) \<le> Suc (card (dom m))"
  by (simp add: card_insert_if)

end
