(* ===== verification/Symbols.thy ===== *)
theory Symbols
  imports Prelude
begin

text \<open>
  Symbols and edges as the parser hands them on: \<open>src/parsing/symbols.rs\<close> and
  \<open>src/parsing/relations.rs\<close>.
\<close>

datatype symbol_kind =
  Function | Method | Struct | Trait | Impl | Class | Module | Interface | Enum | Extension

record qualified_symbol =
  qs_file :: str
  scope_path :: "str list"
  qs_name :: str

definition fqn :: "qualified_symbol \<Rightarrow> str" where
  "fqn q = join ''::'' (qs_file q # scope_path q @ [qs_name q])"

record symbol =
  sym_qualified :: qualified_symbol
  sym_kind :: symbol_kind
  sym_line_start :: nat
  sym_line_end :: nat
  sym_signature :: "str option"
  sym_parent_fqn :: "str option"

datatype edge_target =
    Resolved qualified_symbol
  | Unresolved str "str option" "str option"

datatype edge_kind = Calls | Uses | Imports | Contains | Implements

record raw_edge =
  edge_from :: qualified_symbol
  edge_to :: edge_target
  edge_kind_of :: edge_kind
  edge_line :: nat

lemma fqn_file_prefix: "\<exists>rest. fqn q = qs_file q @ ''::'' @ rest"
  by (cases "scope_path q @ [qs_name q]") (simp_all add: fqn_def)

lemma join_snoc: "xs \<noteq> [] \<Longrightarrow> join sep (xs @ [y]) = join sep xs @ sep @ y"
  by (induction sep xs rule: join.induct) auto

lemma fqn_name_suffix: "\<exists>pre. fqn q = pre @ ''::'' @ qs_name q"
  using join_snoc [of "qs_file q # scope_path q" "''::''" "qs_name q"] by (auto simp: fqn_def)

end
