(* ===== verification/Chunker.thy ===== *)
theory Chunker
  imports Symbols
begin

text \<open>
  The chunker (\<open>src/parsing/chunker.rs\<close>): the non-whitespace prefix sums and the line table,
  the recursive split over the syntax tree and its merge pass, the tree-free line windows,
  the deepest-enclosing symbol of a chunk, and the conversion of byte spans to chunks.
  Offsets and counts are natural numbers (a source is shorter than \<open>2 ^ 32\<close> bytes). A
  tree-sitter tree is read only through its byte ranges and named children.
\<close>

definition MAX_CHUNK_NONWS :: nat where
  "MAX_CHUNK_NONWS = 1500"

definition RECURSION_DEPTH_CAP :: nat where
  "RECURSION_DEPTH_CAP = 6400"

record chunk =
  ch_file :: str
  ch_line_start :: nat
  ch_line_end :: nat
  ch_content :: str
  symbol_ref :: "str option"

section \<open>Tables over the source\<close>

text \<open>Counts indexed by byte; the inner byte of a two-byte character stays 0.\<close>

fun nonws_prefix_from :: "nat \<Rightarrow> str \<Rightarrow> nat list" where
  "nonws_prefix_from k [] = [k]"
| "nonws_prefix_from k (c # cs) =
     (k # replicate (utf8_width c - 1) 0)
       @ nonws_prefix_from (if char_is_whitespace c then k else k + 1) cs"

definition build_nonws_prefix :: "str \<Rightarrow> nat list" where
  "build_nonws_prefix source = nonws_prefix_from 0 source"

definition nonws :: "nat list \<Rightarrow> nat \<Rightarrow> nat \<Rightarrow> nat" where
  "nonws prefix a b = prefix ! b - prefix ! a"

fun line_starts_from :: "nat \<Rightarrow> str \<Rightarrow> nat list" where
  "line_starts_from off [] = []"
| "line_starts_from off (c # cs) =
     (if c = newline then [off + 1] else []) @ line_starts_from (off + utf8_width c) cs"

definition build_line_starts :: "str \<Rightarrow> nat list" where
  "build_line_starts source = 0 # line_starts_from 0 source"

text \<open>\<open>partition_point\<close> on the ascending table.\<close>

definition line_of :: "nat list \<Rightarrow> nat \<Rightarrow> nat" where
  "line_of line_starts off = length (takeWhile (\<lambda>ls. ls \<le> off) line_starts)"

section \<open>Splitting along the tree\<close>

record span =
  sp_start :: nat
  sp_end :: nat

datatype node = Node (start_byte: nat) (end_byte: nat) (named_children: "node list")

definition mk_span :: "nat \<Rightarrow> nat \<Rightarrow> span" where
  "mk_span a b = \<lparr>sp_start = a, sp_end = b\<rparr>"

text \<open>
  \<open>split_children\<close> is the loop over the named children with its accumulator and its cursor,
  followed by the final flush. \<open>depth\<close> is the recursion guard's counter.
\<close>

fun split_node :: "nat \<Rightarrow> nat \<Rightarrow> nat list \<Rightarrow> node \<Rightarrow> span list"
  and split_children ::
    "nat \<Rightarrow> nat \<Rightarrow> nat list \<Rightarrow> nat \<Rightarrow> node list \<Rightarrow> span option \<Rightarrow> nat \<Rightarrow> span list" where
  "split_node depth source_len prefix (Node s e children) =
     (if RECURSION_DEPTH_CAP \<le> depth then []
      else
        (let node_end = min e source_len in
         if node_end \<le> s then []
         else if nonws prefix s node_end \<le> MAX_CHUNK_NONWS \<or> children = [] then [mk_span s node_end]
         else split_children (Suc depth) source_len prefix node_end children None s))"
| "split_children depth source_len prefix node_end [] acc cursor_pos =
     (case acc of
        Some a \<Rightarrow> [mk_span (sp_start a) (max node_end (sp_end a))]
      | None \<Rightarrow> if cursor_pos < node_end then [mk_span cursor_pos node_end] else [])"
| "split_children depth source_len prefix node_end (child # rest) acc cursor_pos =
     (let c_start = start_byte child; c_end = min (end_byte child) source_len in
      if c_end \<le> c_start then split_children depth source_len prefix node_end rest acc cursor_pos
      else
        (let seg_start = min cursor_pos c_start in
         if MAX_CHUNK_NONWS < nonws prefix c_start c_end then
           (case acc of
              Some a \<Rightarrow> [mk_span (sp_start a) (min (max seg_start (sp_end a)) c_start)]
            | None \<Rightarrow> if seg_start < c_start then [mk_span seg_start c_start] else [])
           @ split_node depth source_len prefix child
           @ split_children depth source_len prefix node_end rest None c_end
         else
           (case acc of
              None \<Rightarrow> split_children depth source_len prefix node_end rest
                        (Some (mk_span seg_start c_end)) c_end
            | Some a \<Rightarrow>
                if nonws prefix (sp_start a) c_end \<le> MAX_CHUNK_NONWS
                then split_children depth source_len prefix node_end rest
                       (Some (mk_span (sp_start a) c_end)) c_end
                else a # split_children depth source_len prefix node_end rest
                       (Some (mk_span (sp_end a) c_end)) c_end)))"

section \<open>Merging\<close>

fun merge_spans_from :: "nat list \<Rightarrow> span \<Rightarrow> span list \<Rightarrow> span list" where
  "merge_spans_from prefix cur [] = [cur]"
| "merge_spans_from prefix cur (s # ss) =
     (if sp_end cur \<le> sp_start s \<and> nonws prefix (sp_start cur) (sp_end s) \<le> MAX_CHUNK_NONWS
      then merge_spans_from prefix (cur\<lparr>sp_end := sp_end s\<rparr>) ss
      else cur # merge_spans_from prefix
             (mk_span (max (sp_end cur) (sp_start s)) (max (sp_end s) (sp_end cur))) ss)"

definition merge_spans ::
  "((span \<Rightarrow> span \<Rightarrow> bool) \<Rightarrow> span list \<Rightarrow> span list) \<Rightarrow> nat list \<Rightarrow> span list \<Rightarrow> span list" where
  "merge_spans srt prefix spans =
     (case srt (\<lambda>a b. sp_start a \<le> sp_start b) spans of
        [] \<Rightarrow> []
      | cur # ss \<Rightarrow> merge_spans_from prefix cur ss)"

section \<open>The symbol of a chunk\<close>

definition symbol_ref_for :: "nat \<Rightarrow> nat \<Rightarrow> symbol list \<Rightarrow> str option" where
  "symbol_ref_for ls le symbols =
     map_option (\<lambda>s. fqn (sym_qualified s))
       (first_min_by (\<lambda>s. (sym_line_end s - sym_line_start s, 2 ^ 32 - 1 - sym_line_start s))
          (filter (\<lambda>s. sym_line_start s \<le> ls \<and> le \<le> sym_line_end s) symbols))"

section \<open>Chunks\<close>

text \<open>A slice at two byte offsets; \<open>None\<close> where the Rust slice panics.\<close>

definition slice_bytes :: "str \<Rightarrow> nat \<Rightarrow> nat \<Rightarrow> str option" where
  "slice_bytes s a b =
     (case split_bytes a s of
        None \<Rightarrow> None
      | Some (_, rest) \<Rightarrow> (if b < a then None else map_option fst (split_bytes (b - a) rest)))"

fun spans_to_chunks ::
  "str \<Rightarrow> str \<Rightarrow> nat list \<Rightarrow> span list \<Rightarrow> symbol list \<Rightarrow> chunk list option" where
  "spans_to_chunks file source line_starts [] symbols = Some []"
| "spans_to_chunks file source line_starts (sp # sps) symbols =
     (let start = min (sp_start sp) (str_len source); stop = min (sp_end sp) (str_len source) in
      if stop \<le> start then spans_to_chunks file source line_starts sps symbols
      else
        (case slice_bytes source start stop of
           None \<Rightarrow> None
         | Some content \<Rightarrow>
             if trim content = [] then spans_to_chunks file source line_starts sps symbols
             else
               (let line_start = line_of line_starts start;
                    line_end = line_of line_starts (stop - 1)
                in map_option (Cons
                     \<lparr>ch_file = file, ch_line_start = line_start, ch_line_end = line_end,
                       ch_content = content,
                       symbol_ref = symbol_ref_for line_start line_end symbols\<rparr>)
                   (spans_to_chunks file source line_starts sps symbols))))"

definition chunk_file_ast ::
  "((span \<Rightarrow> span \<Rightarrow> bool) \<Rightarrow> span list \<Rightarrow> span list) \<Rightarrow> str \<Rightarrow> str \<Rightarrow> node \<Rightarrow> symbol list
     \<Rightarrow> chunk list option" where
  "chunk_file_ast srt file source root symbols =
     (if source = [] then Some []
      else
        (let prefix = build_nonws_prefix source;
             line_starts = build_line_starts source;
             spans = merge_spans srt prefix (split_node 0 (str_len source) prefix root)
         in spans_to_chunks file source line_starts spans symbols))"

text \<open>The window loop: \<open>extend_window\<close> is the inner loop, \<open>line_windows\<close> the outer one.\<close>

function extend_window :: "nat list \<Rightarrow> nat list \<Rightarrow> nat \<Rightarrow> nat \<Rightarrow> nat \<Rightarrow> nat" where
  "extend_window prefix line_starts span_start i j =
     (if j + 1 < length line_starts then
        (if MAX_CHUNK_NONWS < nonws prefix span_start (line_starts ! (j + 1)) \<and> i < j then j
         else extend_window prefix line_starts span_start i (j + 1))
      else j)"
  by pat_completeness auto
termination
  by (relation "measure (\<lambda>(p, ls, s, i, j). length ls - j)") auto

declare extend_window.simps [simp del]

lemma extend_window_ge: "j \<le> extend_window prefix ls s i j"
proof (induction prefix ls s i j rule: extend_window.induct)
  case (1 prefix ls s i j)
  then show ?case by (subst extend_window.simps) (auto intro: Suc_leD)
qed

lemma extend_window_less: "j < length ls \<Longrightarrow> extend_window prefix ls s i j < length ls"
proof (induction prefix ls s i j rule: extend_window.induct)
  case (1 prefix ls s i j)
  then show ?case by (subst extend_window.simps) auto
qed

function line_windows :: "nat list \<Rightarrow> nat \<Rightarrow> nat list \<Rightarrow> nat \<Rightarrow> span list" where
  "line_windows prefix source_len line_starts i =
     (if i < length line_starts then
        (let span_start = line_starts ! i;
             j = extend_window prefix line_starts span_start i i;
             span_end = (if j + 1 < length line_starts then line_starts ! (j + 1) else source_len)
         in mk_span span_start span_end # line_windows prefix source_len line_starts (j + 1))
      else [])"
  by pat_completeness auto
termination
proof (relation "measure (\<lambda>(p, n, ls, i). length ls - i)")
  fix prefix :: "nat list" and source_len :: nat and line_starts :: "nat list" and i x xa xb :: nat
  assume "i < length line_starts" "x = line_starts ! i"
    "xa = extend_window prefix line_starts x i i"
  then show "((prefix, source_len, line_starts, xa + 1), prefix, source_len, line_starts, i)
      \<in> measure (\<lambda>(p, n, ls, i). length ls - i)"
    using extend_window_ge [of i prefix line_starts x i] by simp
qed simp

declare line_windows.simps [simp del]

definition chunk_file :: "str \<Rightarrow> str \<Rightarrow> symbol list \<Rightarrow> chunk list option" where
  "chunk_file file source symbols =
     (if source = [] then Some []
      else
        (let prefix = build_nonws_prefix source;
             line_starts = build_line_starts source;
             spans = line_windows prefix (str_len source) line_starts 0
         in spans_to_chunks file source line_starts spans symbols))"

section \<open>The line table\<close>

lemma line_starts_from_boundary:
  "x \<in> set (line_starts_from off s) \<Longrightarrow> \<exists>a b. s = a @ b \<and> a \<noteq> [] \<and> x = off + str_len a"
proof (induction off s rule: line_starts_from.induct)
  case (1 off)
  then show ?case by simp
next
  case (2 off c cs)
  have nl: "c = newline \<Longrightarrow> utf8_width c = 1" by (simp add: newline_def utf8_width_def code_def)
  consider "c = newline" "x = off + 1" | "x \<in> set (line_starts_from (off + utf8_width c) cs)"
    using "2.prems" by (auto split: if_splits)
  then show ?case
  proof cases
    case 1
    then show ?thesis using nl by (intro exI [of _ "[c]"] exI [of _ cs]) simp
  next
    case 2
    then obtain a b where "cs = a @ b" "x = off + utf8_width c + str_len a" using "2.IH" by blast
    then show ?thesis by (intro exI [of _ "c # a"] exI [of _ b]) simp
  qed
qed

lemma line_starts_from_sorted:
  "sorted_wrt (<) (line_starts_from off s) \<and> (\<forall>x \<in> set (line_starts_from off s). off < x)"
proof (induction off s rule: line_starts_from.induct)
  case (2 off c cs)
  have nl: "c = newline \<Longrightarrow> utf8_width c = 1" by (simp add: newline_def utf8_width_def code_def)
  have "off < off + utf8_width c" by simp
  with "2.IH" nl show ?case by (auto intro: less_trans)
qed simp

lemma build_line_starts_sorted: "sorted_wrt (<) (build_line_starts s)"
  using line_starts_from_sorted [of 0 s] by (simp add: build_line_starts_def)

definition boundary :: "str \<Rightarrow> nat \<Rightarrow> bool" where
  "boundary s k \<longleftrightarrow> (\<exists>a b. s = a @ b \<and> k = str_len a)"

lemma boundary_0 [simp]: "boundary s 0"
  by (auto simp: boundary_def intro: exI [of _ "[]"])

lemma boundary_len [simp]: "boundary s (str_len s)"
  by (auto simp: boundary_def intro: exI [of _ s])

lemma boundary_line_start: "x \<in> set (build_line_starts s) \<Longrightarrow> boundary s x"
proof -
  assume "x \<in> set (build_line_starts s)"
  then consider "x = 0" | "x \<in> set (line_starts_from 0 s)" by (auto simp: build_line_starts_def)
  then show ?thesis
    using line_starts_from_boundary [of x 0 s] by cases (auto simp: boundary_def)
qed

lemma boundary_le: "boundary s k \<Longrightarrow> k \<le> str_len s"
  by (auto simp: boundary_def)

lemma str_len_append_eq:
  "a @ b = c @ d \<Longrightarrow> str_len a \<le> str_len c \<Longrightarrow> \<exists>m. c = a @ m \<and> b = m @ d"
proof (induction a arbitrary: c)
  case Nil
  then show ?case by simp
next
  case (Cons x a)
  then show ?case by (cases c) auto
qed

lemma slice_bytes_boundary:
  assumes "boundary s a" "boundary s b" "a \<le> b"
  shows "\<exists>p m q. s = p @ m @ q \<and> str_len p = a \<and> str_len (p @ m) = b \<and> slice_bytes s a b = Some m"
proof -
  obtain p r where p: "s = p @ r" "a = str_len p" using assms(1) by (auto simp: boundary_def)
  obtain p' q where p': "s = p' @ q" "b = str_len p'" using assms(2) by (auto simp: boundary_def)
  obtain m where m: "p' = p @ m" "r = m @ q"
    using str_len_append_eq [of p r p' q] p p' assms(3) by auto
  have "split_bytes a s = Some (p, r)" using p by (simp add: split_bytes_append)
  moreover have "split_bytes (b - a) r = Some (m, q)"
    using m p(2) p'(2) by (simp add: split_bytes_append)
  ultimately have "slice_bytes s a b = Some m" using assms(3) by (simp add: slice_bytes_def)
  then show ?thesis using p p' m by (intro exI [of _ p] exI [of _ m] exI [of _ q]) simp
qed

section \<open>Windows cover the source\<close>

text \<open>Consecutive spans at character boundaries from \<open>a\<close> to \<open>b\<close>.\<close>

fun chain :: "str \<Rightarrow> nat \<Rightarrow> span list \<Rightarrow> nat \<Rightarrow> bool" where
  "chain s a [] b = (a = b)"
| "chain s a (x # xs) b =
     (sp_start x = a \<and> a \<le> sp_end x \<and> boundary s a \<and> boundary s (sp_end x) \<and> chain s (sp_end x) xs b)"

lemma sorted_wrt_nth_le:
  "sorted_wrt (<) (ls :: nat list) \<Longrightarrow> i \<le> j \<Longrightarrow> j < length ls \<Longrightarrow> ls ! i \<le> ls ! j"
  by (cases "i = j") (auto simp: sorted_wrt_nth_less intro: less_imp_le)

lemma line_windows_chain:
  assumes "ls = build_line_starts s" "i < length ls"
  shows "chain s (ls ! i) (line_windows prefix (str_len s) ls i) (str_len s)"
  using assms
proof (induction prefix "str_len s" ls i rule: line_windows.induct)
  case (1 prefix ls i)
  let ?j = "extend_window prefix ls (ls ! i) i i"
  have bnd: "boundary s (ls ! k)" if "k < length ls" for k
    using that "1.prems"(1) boundary_line_start nth_mem by blast
  have srt: "sorted_wrt (<) ls" using "1.prems"(1) by (simp add: build_line_starts_sorted)
  have ij: "i \<le> ?j" "?j < length ls"
    using extend_window_ge extend_window_less "1.prems"(2) by blast+
  show ?case
  proof (cases "?j + 1 < length ls")
    case True
    have "chain s (ls ! (?j + 1)) (line_windows prefix (str_len s) ls (?j + 1)) (str_len s)"
      using "1.hyps" [of "ls ! i" ?j "ls ! (?j + 1)"] "1.prems" True by simp
    moreover have "ls ! i \<le> ls ! (?j + 1)"
      using sorted_wrt_nth_le [OF srt, of i "?j + 1"] ij True by linarith
    ultimately show ?thesis
      using True "1.prems"(2) bnd [of i] bnd [of "?j + 1"]
      by (subst line_windows.simps) (simp add: Let_def mk_span_def)
  next
    case False
    have "ls ! i \<le> str_len s" using bnd [OF "1.prems"(2)] boundary_le by blast
    moreover have "line_windows prefix (str_len s) ls (?j + 1) = []"
      using False by (subst line_windows.simps) simp
    ultimately show ?thesis
      using False "1.prems"(2) bnd [of i]
      by (subst line_windows.simps) (simp add: Let_def mk_span_def)
  qed
qed

definition visible :: "str \<Rightarrow> str" where
  "visible s = filter (\<lambda>c. \<not> char_is_whitespace c) s"

lemma visible_append: "visible (a @ b) = visible a @ visible b"
  by (simp add: visible_def)

lemma visible_trim_Nil: "trim s = [] \<Longrightarrow> visible s = []"
  by (simp add: trim_Nil_iff visible_def filter_empty_conv)

text \<open>
  Chunks from consecutive spans: none fails, and their contents, in order, hold every visible
  character from the first span's start exactly once.
\<close>

lemma spans_to_chunks_chain:
  assumes "chain s a sps (str_len s)" "s = p @ r" "a = str_len p"
  shows "\<exists>cs. spans_to_chunks file s lst sps syms = Some cs
    \<and> concat (map (\<lambda>c. visible (ch_content c)) cs) = visible r"
  using assms
proof (induction sps arbitrary: a p r)
  case Nil
  then have "str_len r = 0" by simp
  then show ?case by (simp add: visible_def)
next
  case (Cons x xs)
  let ?e = "sp_end x"
  have ch: "chain s ?e xs (str_len s)" "sp_start x = a" "a \<le> ?e" "boundary s a" "boundary s ?e"
    using Cons.prems(1) by auto
  obtain p' m q where sl: "s = p' @ m @ q" "str_len p' = a" "str_len (p' @ m) = ?e"
    "slice_bytes s a ?e = Some m"
    using slice_bytes_boundary [OF ch(4,5,3)] by blast
  have "p' = p" "r = m @ q"
    using str_len_append_eq [of p r p' "m @ q"] str_len_append_eq [of p' "m @ q" p r]
      sl(1,2) Cons.prems(2,3) by auto
  have le: "a \<le> str_len s" "?e \<le> str_len s" using ch(4,5) boundary_le by blast+
  obtain cs where cs: "spans_to_chunks file s lst xs syms = Some cs"
    "concat (map (\<lambda>c. visible (ch_content c)) cs) = visible q"
    using Cons.IH [OF ch(1), of "p' @ m" q] sl by auto
  have vr: "visible r = visible m @ visible q" using \<open>r = m @ q\<close> by (simp add: visible_append)
  consider "?e \<le> a" | "a < ?e" "trim m = []" | "a < ?e" "trim m \<noteq> []" by linarith
  then show ?case
  proof cases
    case 1
    then have "str_len m \<le> 0" using sl(2,3) by (simp only: str_len_append)
    then have "m = []" by simp
    with 1 cs vr ch le show ?thesis by (simp add: Let_def visible_def)
  next
    case 2
    with cs vr ch le sl(4) show ?thesis by (simp add: Let_def visible_trim_Nil)
  next
    case 3
    with cs vr ch le sl(4) show ?thesis by (simp add: Let_def)
  qed
qed

lemma chunk_file_total:
  "\<exists>cs. chunk_file file s syms = Some cs
    \<and> concat (map (\<lambda>c. visible (ch_content c)) cs) = visible s"
proof (cases "s = []")
  case True
  then show ?thesis by (simp add: chunk_file_def visible_def)
next
  case False
  let ?ls = "build_line_starts s"
  have "chain s (?ls ! 0) (line_windows (build_nonws_prefix s) (str_len s) ?ls 0) (str_len s)"
    by (rule line_windows_chain) (simp_all add: build_line_starts_def)
  then have "chain s 0 (line_windows (build_nonws_prefix s) (str_len s) ?ls 0) (str_len s)"
    by (simp add: build_line_starts_def)
  then have "\<exists>cs. spans_to_chunks file s ?ls
        (line_windows (build_nonws_prefix s) (str_len s) ?ls 0) syms = Some cs
      \<and> concat (map (\<lambda>c. visible (ch_content c)) cs) = visible s"
    by (rule spans_to_chunks_chain [where p = "[]"]) simp_all
  with False show ?thesis by (simp add: chunk_file_def Let_def)
qed

section \<open>The tree split is ordered and never overlaps\<close>

text \<open>What the split relies on: children lie in their parent, in order.\<close>

fun wf_node :: "node \<Rightarrow> bool"
  and wf_children :: "nat \<Rightarrow> nat \<Rightarrow> node list \<Rightarrow> bool" where
  "wf_node (Node s e cs) = wf_children s e cs"
| "wf_children lo hi [] = (lo \<le> hi)"
| "wf_children lo hi (c # cs) =
     (lo \<le> start_byte c \<and> start_byte c \<le> end_byte c \<and> wf_node c \<and> wf_children (end_byte c) hi cs)"

fun span_seq :: "nat \<Rightarrow> span list \<Rightarrow> nat \<Rightarrow> bool" where
  "span_seq lo [] hi = (lo \<le> hi)"
| "span_seq lo (x # xs) hi = (lo \<le> sp_start x \<and> sp_start x < sp_end x \<and> span_seq (sp_end x) xs hi)"

lemma span_seq_le: "span_seq lo xs hi \<Longrightarrow> lo \<le> hi"
  by (induction lo xs hi rule: span_seq.induct) auto

lemma span_seq_weaken: "span_seq lo xs hi \<Longrightarrow> lo' \<le> lo \<Longrightarrow> span_seq lo' xs hi"
  by (cases xs) auto

lemma span_seq_append: "span_seq lo xs mid \<Longrightarrow> span_seq mid ys hi \<Longrightarrow> span_seq lo (xs @ ys) hi"
  by (induction lo xs mid rule: span_seq.induct) (auto intro: span_seq_weaken)

lemma wf_children_le: "wf_children lo hi cs \<Longrightarrow> lo \<le> hi"
  by (induction cs arbitrary: lo) force+

definition acc_ok :: "nat \<Rightarrow> span option \<Rightarrow> nat \<Rightarrow> bool" where
  "acc_ok lo acc cursor = (case acc of None \<Rightarrow> lo \<le> cursor
     | Some a \<Rightarrow> lo \<le> sp_start a \<and> sp_start a < sp_end a \<and> sp_end a = cursor)"

lemma split_span_seq:
  "wf_node n \<Longrightarrow> end_byte n \<le> source_len \<Longrightarrow>
     span_seq (start_byte n) (split_node depth source_len prefix n) (end_byte n)"
  "wf_children cursor node_end cs \<Longrightarrow> node_end \<le> source_len \<Longrightarrow> acc_ok lo acc cursor \<Longrightarrow>
     span_seq lo (split_children depth source_len prefix node_end cs acc cursor) node_end"
proof (induction depth source_len prefix n and depth source_len prefix node_end cs acc cursor
    arbitrary: and lo rule: split_node_split_children.induct)
  case (1 depth source_len prefix s e children)
  have le: "s \<le> e" using "1.prems"(1) wf_children_le by auto
  have m: "min e source_len = e" using "1.prems"(2) by simp
  show ?case
  proof (cases "RECURSION_DEPTH_CAP \<le> depth \<or> e \<le> s \<or> nonws prefix s e \<le> MAX_CHUNK_NONWS \<or> children = []")
    case True
    then show ?thesis using le m by (auto simp: Let_def mk_span_def)
  next
    case False
    then have "span_seq s (split_children (Suc depth) source_len prefix e children None s) e"
      using "1.IH" [of e s] "1.prems" m by (simp add: acc_ok_def)
    with False m show ?thesis by (simp add: Let_def)
  qed
next
  case (2 depth source_len prefix node_end acc cursor)
  then show ?case by (auto simp: acc_ok_def mk_span_def split: option.splits)
next
  case (3 depth source_len prefix node_end child rest acc cursor)
  let ?cs = "start_byte child" and ?ce = "end_byte child"
  have w: "cursor \<le> ?cs" "?cs \<le> ?ce" "wf_node child" "wf_children ?ce node_end rest"
    using "3.prems"(1) by auto
  have hi: "?ce \<le> source_len" using wf_children_le [OF w(4)] "3.prems"(2) by linarith
  then have m: "min ?ce source_len = ?ce" "min cursor ?cs = cursor" using w(1) by auto
  show ?case
  proof (cases "?ce \<le> ?cs")
    case True
    with w have "wf_children cursor node_end rest" by (cases rest) auto
    then show ?thesis using "3.IH"(1) [OF refl refl] True m "3.prems"(2,3) by (simp add: Let_def)
  next
    case lt: False
    show ?thesis
    proof (cases "MAX_CHUNK_NONWS < nonws prefix ?cs ?ce")
      case True
      have "span_seq ?cs (split_node depth source_len prefix child) ?ce"
        using "3.IH"(2) [OF refl refl] lt True m w(3) hi by simp
      moreover have "span_seq ?ce (split_children depth source_len prefix node_end rest None ?ce) node_end"
        using "3.IH"(3) [OF refl refl] lt True m w(4) "3.prems"(2) by (simp add: acc_ok_def)
      ultimately have tl: "span_seq ?cs (split_node depth source_len prefix child
          @ split_children depth source_len prefix node_end rest None ?ce) node_end"
        by (rule span_seq_append)
      show ?thesis
      proof (cases acc)
        case None
        with "3.prems"(3) have "lo \<le> cursor" by (simp add: acc_ok_def)
        with None tl lt True m w(1) show ?thesis
          by (auto simp: Let_def mk_span_def intro: span_seq_weaken)
      next
        case (Some a)
        with "3.prems"(3) have a: "lo \<le> sp_start a" "sp_start a < sp_end a" "sp_end a = cursor"
          by (auto simp: acc_ok_def)
        with Some tl lt True m w(1) show ?thesis
          by (auto simp: Let_def mk_span_def intro: span_seq_weaken)
      qed
    next
      case small: False
      show ?thesis
      proof (cases acc)
        case None
        with "3.prems"(3) have "acc_ok lo (Some (mk_span cursor ?ce)) ?ce"
          using lt w(1) by (simp add: acc_ok_def mk_span_def)
        then show ?thesis
          using "3.IH"(4) [OF refl refl] None lt small m w(4) "3.prems"(2) by (simp add: Let_def)
      next
        case (Some a)
        with "3.prems"(3) have a: "lo \<le> sp_start a" "sp_start a < sp_end a" "sp_end a = cursor"
          by (auto simp: acc_ok_def)
        show ?thesis
        proof (cases "nonws prefix (sp_start a) ?ce \<le> MAX_CHUNK_NONWS")
          case True
          have "acc_ok lo (Some (mk_span (sp_start a) ?ce)) ?ce"
            using a lt w(1) by (simp add: acc_ok_def mk_span_def)
          then show ?thesis
            using "3.IH"(5) [OF refl refl] Some True lt small m w(4) "3.prems"(2) by (simp add: Let_def)
        next
          case False
          have "acc_ok (sp_end a) (Some (mk_span (sp_end a) ?ce)) ?ce"
            using a lt w(1) by (simp add: acc_ok_def mk_span_def)
          then have "span_seq (sp_end a) (split_children depth source_len prefix node_end rest
              (Some (mk_span (sp_end a) ?ce)) ?ce) node_end"
            using "3.IH"(6) [OF refl refl] Some False lt small m w(4) "3.prems"(2) by simp
          with a Some False lt small m show ?thesis by (simp add: Let_def)
        qed
      qed
    qed
  qed
qed

lemma merge_spans_from_seq:
  "span_seq lo (cur # ss) hi \<Longrightarrow> span_seq lo (merge_spans_from prefix cur ss) hi"
proof (induction prefix cur ss arbitrary: lo rule: merge_spans_from.induct)
  case (1 prefix cur)
  then show ?case by simp
next
  case (2 prefix cur s ss)
  have b: "lo \<le> sp_start cur" "sp_start cur < sp_end cur" "sp_end cur \<le> sp_start s"
    "sp_start s < sp_end s" "span_seq (sp_end s) ss hi" using "2.prems" by auto
  show ?case
  proof (cases "nonws prefix (sp_start cur) (sp_end s) \<le> MAX_CHUNK_NONWS")
    case True
    with b show ?thesis using "2.IH"(1) [of lo] by simp
  next
    case False
    have "span_seq (sp_end cur) (mk_span (max (sp_end cur) (sp_start s)) (max (sp_end s) (sp_end cur)) # ss) hi"
      using b by (simp add: mk_span_def max_def)
    then show ?thesis using False b "2.IH"(2) by simp
  qed
qed

lemma span_seq_sorted:
  "span_seq lo xs hi \<Longrightarrow> sorted_wrt (\<lambda>a b. sp_start a < sp_start b) xs \<and> (\<forall>x \<in> set xs. lo \<le> sp_start x)"
  by (induction lo xs hi rule: span_seq.induct) (auto intro: order_trans less_le_trans)

lemma sort_span_seq:
  assumes "unstable_sort srt" "span_seq lo xs hi"
  shows "srt (\<lambda>a b. sp_start a \<le> sp_start b) xs = xs"
proof -
  let ?ys = "srt (\<lambda>a b. sp_start a \<le> sp_start b) xs"
  have st: "sorted_wrt (\<lambda>a b. sp_start a < sp_start b) xs" using span_seq_sorted [OF assms(2)] by blast
  then have "sorted_wrt (<) (map sp_start xs)" by (simp add: sorted_wrt_map)
  then have d: "sorted (map sp_start xs)" "distinct (map sp_start xs)"
    by (simp_all add: strict_sorted_iff)
  have m: "mset ?ys = mset xs" using assms(1) by (rule unstable_sort.srt_mset)
  then have "mset (map sp_start ?ys) = mset (map sp_start xs)" by simp
  then have dy: "distinct (map sp_start ?ys)" using d(2) by (metis mset_eq_imp_distinct_iff)
  have "sorted_wrt (\<lambda>a b. sp_start a \<le> sp_start b) ?ys"
    using assms(1) by (rule unstable_sort.srt_sorted) (rule total_preorder_key)
  then have sy: "sorted (map sp_start ?ys)" by (simp add: sorted_wrt_map)
  have "set ?ys = set xs" using m by (rule mset_eq_setD)
  moreover have "inj_on sp_start (set ?ys \<union> set xs)"
    using d(2) calculation by (simp add: distinct_map)
  ultimately show ?thesis using map_sorted_distinct_set_unique [of sp_start ?ys xs] sy dy d by blast
qed

lemma merge_spans_seq:
  assumes "unstable_sort srt" "span_seq lo xs hi"
  shows "span_seq lo (merge_spans srt prefix xs) hi"
  using assms sort_span_seq [OF assms]
  by (cases xs) (auto simp: merge_spans_def intro: merge_spans_from_seq)

section \<open>Chunks of a tree\<close>

text \<open>Every byte range of the tree begins and ends between characters.\<close>

fun node_boundaries :: "str \<Rightarrow> node \<Rightarrow> bool" where
  "node_boundaries src (Node s e cs) =
     (boundary src s \<and> boundary src e \<and> list_all (node_boundaries src) cs)"

definition tree_of :: "str \<Rightarrow> node \<Rightarrow> bool" where
  "tree_of src root \<longleftrightarrow> wf_node root \<and> node_boundaries src root"

definition span_bounds :: "str \<Rightarrow> span list \<Rightarrow> bool" where
  "span_bounds src sps \<longleftrightarrow> (\<forall>sp \<in> set sps. boundary src (sp_start sp) \<and> boundary src (sp_end sp))"

lemma node_boundaries_fields:
  "node_boundaries src n \<Longrightarrow> boundary src (start_byte n) \<and> boundary src (end_byte n)"
  by (cases n) auto

lemma boundary_min: "boundary src a \<Longrightarrow> boundary src b \<Longrightarrow> boundary src (min a b)"
  by (simp add: min_def)

lemma boundary_max: "boundary src a \<Longrightarrow> boundary src b \<Longrightarrow> boundary src (max a b)"
  by (simp add: max_def)

lemma split_bounds:
  "node_boundaries src n \<Longrightarrow> source_len = str_len src \<Longrightarrow>
     span_bounds src (split_node depth source_len prefix n)"
  "list_all (node_boundaries src) cs \<Longrightarrow> source_len = str_len src \<Longrightarrow> boundary src node_end \<Longrightarrow>
     boundary src cursor \<Longrightarrow> (\<And>a. acc = Some a \<Longrightarrow> boundary src (sp_start a) \<and> boundary src (sp_end a)) \<Longrightarrow>
     span_bounds src (split_children depth source_len prefix node_end cs acc cursor)"
proof (induction depth source_len prefix n and depth source_len prefix node_end cs acc cursor
    rule: split_node_split_children.induct)
  case (1 depth source_len prefix s e children)
  have b: "boundary src s" "boundary src (min e source_len)" "list_all (node_boundaries src) children"
    using "1.prems" by (auto intro: boundary_min)
  show ?case
  proof (cases "RECURSION_DEPTH_CAP \<le> depth \<or> min e source_len \<le> s
      \<or> nonws prefix s (min e source_len) \<le> MAX_CHUNK_NONWS \<or> children = []")
    case True
    then show ?thesis using b by (auto simp: Let_def mk_span_def span_bounds_def)
  next
    case False
    then have "span_bounds src
        (split_children (Suc depth) source_len prefix (min e source_len) children None s)"
      using "1.IH" [OF _ refl] b "1.prems"(2) by simp
    with False show ?thesis by (simp add: Let_def)
  qed
next
  case (2 depth source_len prefix node_end acc cursor)
  then show ?case
    by (auto simp: span_bounds_def mk_span_def boundary_max split: option.splits)
next
  case (3 depth source_len prefix node_end child rest acc cursor)
  let ?cs = "start_byte child" and ?ce = "min (end_byte child) source_len"
  have c: "boundary src ?cs" "boundary src ?ce" "node_boundaries src child"
    "list_all (node_boundaries src) rest" "boundary src (min cursor ?cs)"
    using "3.prems" node_boundaries_fields [of src child] by (auto intro: boundary_min)
  show ?case
  proof (cases "?ce \<le> ?cs")
    case True
    then show ?thesis using "3.IH"(1) [OF refl refl] "3.prems" c by (simp add: Let_def)
  next
    case lt: False
    show ?thesis
    proof (cases "MAX_CHUNK_NONWS < nonws prefix ?cs ?ce")
      case True
      have "span_bounds src (split_node depth source_len prefix child)"
        using "3.IH"(2) [OF refl refl] lt True c "3.prems"(2) by simp
      moreover have "span_bounds src (split_children depth source_len prefix node_end rest None ?ce)"
        using "3.IH"(3) [OF refl refl] lt True c "3.prems"(2,3) by simp
      moreover have "boundary src (min (max (min cursor ?cs) (sp_end a)) ?cs)" if "acc = Some a" for a
        using boundary_min [OF boundary_max [OF c(5)] c(1)] "3.prems"(5) [OF that] by blast
      ultimately show ?thesis using lt True c "3.prems"(5)
        by (auto simp: Let_def span_bounds_def mk_span_def split: option.splits)
    next
      case small: False
      show ?thesis
      proof (cases acc)
        case None
        have "span_bounds src (split_children depth source_len prefix node_end rest
            (Some (mk_span (min cursor ?cs) ?ce)) ?ce)"
          using "3.IH"(4) [OF refl refl] None lt small c "3.prems"(2,3) by (simp add: mk_span_def)
        then show ?thesis using None lt small by (simp add: Let_def)
      next
        case (Some a)
        note a = "3.prems"(5) [OF Some]
        show ?thesis
        proof (cases "nonws prefix (sp_start a) ?ce \<le> MAX_CHUNK_NONWS")
          case True
          have "span_bounds src (split_children depth source_len prefix node_end rest
              (Some (mk_span (sp_start a) ?ce)) ?ce)"
            using "3.IH"(5) [OF refl refl] Some True lt small c a "3.prems"(2,3) by (simp add: mk_span_def)
          then show ?thesis using Some True lt small by (simp add: Let_def)
        next
          case False
          have "span_bounds src (split_children depth source_len prefix node_end rest
              (Some (mk_span (sp_end a) ?ce)) ?ce)"
            using "3.IH"(6) [OF refl refl] Some False lt small c a "3.prems"(2,3) by (simp add: mk_span_def)
          then show ?thesis using Some False lt small a by (simp add: Let_def span_bounds_def)
        qed
      qed
    qed
  qed
qed

lemma merge_spans_from_bounds:
  "span_bounds src (cur # ss) \<Longrightarrow> span_bounds src (merge_spans_from prefix cur ss)"
proof (induction prefix cur ss rule: merge_spans_from.induct)
  case (1 prefix cur)
  then show ?case by simp
next
  case (2 prefix cur s ss)
  then show ?case by (auto simp: span_bounds_def mk_span_def boundary_max)
qed

lemma merge_spans_bounds:
  assumes "unstable_sort srt" "span_bounds src xs"
  shows "span_bounds src (merge_spans srt prefix xs)"
proof -
  have "span_bounds src (srt (\<lambda>a b. sp_start a \<le> sp_start b) xs)"
    using assms unstable_sort.srt_set [OF assms(1)] by (simp add: span_bounds_def)
  then show ?thesis
    by (auto simp: merge_spans_def span_bounds_def [of src "[]"] intro: merge_spans_from_bounds
        split: list.splits)
qed

text \<open>The texts occur in the source in this order and do not overlap.\<close>

fun in_order_in :: "str list \<Rightarrow> str \<Rightarrow> bool" where
  "in_order_in [] s = True"
| "in_order_in (c # cs) s = (\<exists>p r. s = p @ c @ r \<and> in_order_in cs r)"

lemma in_order_in_prefix: "in_order_in cs s \<Longrightarrow> in_order_in cs (p @ s)"
  by (cases cs) (auto, metis append.assoc)

lemma spans_to_chunks_ordered:
  assumes "span_seq lo sps hi" "span_bounds s sps" "s = p @ r" "str_len p = lo"
  shows "\<exists>cs. spans_to_chunks file s lst sps syms = Some cs \<and> in_order_in (map ch_content cs) r"
  using assms
proof (induction sps arbitrary: lo p r)
  case Nil
  then show ?case by simp
next
  case (Cons x xs)
  have b: "lo \<le> sp_start x" "sp_start x < sp_end x" "span_seq (sp_end x) xs hi"
    "boundary s (sp_start x)" "boundary s (sp_end x)" "span_bounds s xs"
    using Cons.prems by (auto simp: span_bounds_def)
  obtain p' m q where sl: "s = p' @ m @ q" "str_len p' = sp_start x" "str_len (p' @ m) = sp_end x"
    "slice_bytes s (sp_start x) (sp_end x) = Some m"
    using slice_bytes_boundary [OF b(4,5)] b(2) by auto
  obtain g where g: "p' = p @ g" "r = g @ m @ q"
    using str_len_append_eq [of p r p' "m @ q"] sl(1,2) Cons.prems(3,4) b(1) by auto
  obtain cs where cs: "spans_to_chunks file s lst xs syms = Some cs" "in_order_in (map ch_content cs) q"
    using Cons.IH [OF b(3,6), of "p' @ m" q] sl by auto
  have le: "sp_start x \<le> str_len s" "sp_end x \<le> str_len s" using b(4,5) boundary_le by blast+
  have skip: "in_order_in (map ch_content cs) r"
    using in_order_in_prefix [OF cs(2), of "g @ m"] g(2) by simp
  show ?case
  proof (cases "trim m = []")
    case True
    with cs(1) skip le sl(4) b(2) show ?thesis by (simp add: Let_def)
  next
    case False
    with cs g le sl(4) b(2) show ?thesis by (auto simp: Let_def)
  qed
qed

lemma chunk_file_ast_ordered:
  assumes "unstable_sort srt" "tree_of s root"
  shows "\<exists>cs. chunk_file_ast srt file s root syms = Some cs \<and> in_order_in (map ch_content cs) s"
proof (cases "s = []")
  case True
  then show ?thesis by (simp add: chunk_file_ast_def)
next
  case False
  let ?p = "build_nonws_prefix s"
  let ?sp = "split_node 0 (str_len s) ?p root"
  have nb: "wf_node root" "node_boundaries s root" using assms(2) by (auto simp: tree_of_def)
  then have "end_byte root \<le> str_len s" using node_boundaries_fields boundary_le by blast
  then have "span_seq (start_byte root) ?sp (end_byte root)" using split_span_seq(1) nb by blast
  then have "span_seq 0 ?sp (end_byte root)" by (rule span_seq_weaken) simp
  then have "span_seq 0 (merge_spans srt ?p ?sp) (end_byte root)" by (rule merge_spans_seq [OF assms(1)])
  moreover have "span_bounds s (merge_spans srt ?p ?sp)"
    using merge_spans_bounds [OF assms(1)] split_bounds(1) [OF nb(2) refl] by blast
  ultimately have "\<exists>cs. spans_to_chunks file s (build_line_starts s) (merge_spans srt ?p ?sp) syms = Some cs
      \<and> in_order_in (map ch_content cs) s"
    by (rule spans_to_chunks_ordered [where p = "[]"]) simp_all
  with False show ?thesis by (simp add: chunk_file_ast_def Let_def)
qed

section \<open>The symbol of a chunk is the smallest that holds it\<close>

lemma symbol_ref_for_Some:
  assumes "symbol_ref_for ls le syms = Some f"
  shows "\<exists>s \<in> set syms. f = fqn (sym_qualified s) \<and> sym_line_start s \<le> ls \<and> le \<le> sym_line_end s
    \<and> (\<forall>t \<in> set syms. sym_line_start t \<le> ls \<longrightarrow> le \<le> sym_line_end t \<longrightarrow>
         sym_line_end s - sym_line_start s \<le> sym_line_end t - sym_line_start t)"
proof -
  let ?k = "\<lambda>s. (sym_line_end s - sym_line_start s, 2 ^ 32 - 1 - sym_line_start s)"
  obtain s where s: "first_min_by ?k (filter (\<lambda>s. sym_line_start s \<le> ls \<and> le \<le> sym_line_end s) syms) = Some s"
    "f = fqn (sym_qualified s)"
    using assms by (auto simp: symbol_ref_for_def)
  have "s \<in> set syms \<and> sym_line_start s \<le> ls \<and> le \<le> sym_line_end s"
    "\<forall>t \<in> set syms. sym_line_start t \<le> ls \<longrightarrow> le \<le> sym_line_end t \<longrightarrow> ?k s \<le> ?k t"
    using first_min_by_Some [OF s(1)] by auto
  moreover have "?k s \<le> ?k t \<Longrightarrow> fst (?k s) \<le> fst (?k t)" for t by auto
  ultimately show ?thesis using s(2) by (intro bexI [of _ s]) (fastforce, blast)
qed

lemma symbol_ref_for_None:
  "symbol_ref_for ls le syms = None \<longleftrightarrow>
     (\<forall>s \<in> set syms. \<not> (sym_line_start s \<le> ls \<and> le \<le> sym_line_end s))"
  by (simp add: symbol_ref_for_def first_min_by_None filter_empty_conv)

section \<open>Where the code falls short of its comments\<close>

lemma nonws_prefix_replicate:
  "i \<le> n \<Longrightarrow> nonws_prefix_from k (replicate n (CHR ''x'')) ! i = k + i"
proof (induction n arbitrary: k i)
  case 0
  then show ?case by simp
next
  case (Suc n)
  have "utf8_width CHR ''x'' = 1" "\<not> char_is_whitespace CHR ''x''" by (simp_all add: str_defs Let_def)
  with Suc show ?case by (cases i) simp_all
qed

lemma nonws_replicate:
  "a \<le> n \<Longrightarrow> b \<le> n \<Longrightarrow> nonws (build_nonws_prefix (replicate n (CHR ''x''))) a b = b - a"
  by (simp add: nonws_def build_nonws_prefix_def nonws_prefix_replicate)

text \<open>
  The text between a small child and an oversized one is dropped: the accumulator is flushed
  at the end of the last small child, although the comment says the gap is included. Here a
  tree covers 1603 characters, none of them blank, and the character at offset 1 is in no span.
\<close>

definition gap_source :: str where
  "gap_source = replicate 1603 (CHR ''x'')"

definition gap_tree :: node where
  "gap_tree = Node 0 1603 [Node 0 1 [], Node 2 1603 []]"

lemma str_len_replicate: "str_len (replicate n (CHR ''x'')) = n"
  by (induction n) (simp_all add: utf8_width_def code_def)

lemma boundary_gap_source: "k \<le> 1603 \<Longrightarrow> boundary gap_source k"
proof -
  assume "k \<le> 1603"
  then have "gap_source = replicate k (CHR ''x'') @ replicate (1603 - k) (CHR ''x'')"
    by (simp add: gap_source_def replicate_add [symmetric])
  then show ?thesis unfolding boundary_def by (metis str_len_replicate)
qed

lemma gap_tree_of: "tree_of gap_source gap_tree"
  by (simp add: tree_of_def gap_tree_def boundary_gap_source)

lemma gap_tree_spans:
  "merge_spans sort_by (build_nonws_prefix gap_source)
     (split_node 0 (str_len gap_source) (build_nonws_prefix gap_source) gap_tree)
   = [mk_span 0 1, mk_span 2 1603]"
  by (simp add: gap_tree_def gap_source_def str_len_replicate nonws_replicate MAX_CHUNK_NONWS_def
      RECURSION_DEPTH_CAP_def mk_span_def merge_spans_def)

text \<open>
  Two symbols with the same range: the comment says the inner one, extracted last, is chosen;
  \<open>min_by_key\<close> returns the first.
\<close>

lemma symbol_ref_for_tie:
  "sym_line_start a = sym_line_start b \<Longrightarrow> sym_line_end a = sym_line_end b \<Longrightarrow>
   sym_line_start a \<le> ls \<Longrightarrow> le \<le> sym_line_end a \<Longrightarrow>
   symbol_ref_for ls le [a, b] = Some (fqn (sym_qualified a))"
  by (simp add: symbol_ref_for_def)

text \<open>
  A window takes the line that breaks the budget: the check looks at the line already taken.
  What holds is that the window without its last line fits, or that it has two lines.
\<close>

lemma extend_window_budget:
  assumes "i < extend_window prefix ls s i j" "i \<le> j"
    "i < j \<Longrightarrow> nonws prefix s (ls ! j) \<le> MAX_CHUNK_NONWS \<or> j = i + 1"
  shows "nonws prefix s (ls ! (extend_window prefix ls s i j)) \<le> MAX_CHUNK_NONWS
    \<or> extend_window prefix ls s i j = i + 1"
  using assms
proof (induction prefix ls s i j rule: extend_window.induct)
  case (1 prefix ls s i j)
  show ?case
  proof (cases "j + 1 < length ls \<and> \<not> (MAX_CHUNK_NONWS < nonws prefix s (ls ! (j + 1)) \<and> i < j)")
    case True
    have e: "extend_window prefix ls s i j = extend_window prefix ls s i (j + 1)"
      using True by (subst extend_window.simps) auto
    have "nonws prefix s (ls ! (j + 1)) \<le> MAX_CHUNK_NONWS \<or> j + 1 = i + 1"
      using True "1.prems"(2) by auto
    then show ?thesis using "1.IH" True "1.prems" e by auto
  next
    case False
    then have "extend_window prefix ls s i j = j" by (subst extend_window.simps) auto
    with "1.prems" show ?thesis by auto
  qed
qed

section \<open>Properties\<close>

text \<open>C13: Tree-free chunking never fails and loses nothing: the visible characters of the
  chunks, concatenated in order, are the visible characters of the source, each exactly once,
  for every source text and every symbol table.\<close>

theorem chunk_file_covers_source:
  "\<exists>cs. chunk_file fl src syms = Some cs
     \<and> concat (map (\<lambda>c. visible (ch_content c)) cs) = visible src"
  by (rule chunk_file_total)

text \<open>C14: Chunking along a syntax tree whose ranges nest and begin and end between characters
  never slices inside a character, and the chunks' texts occur in the source in the order of
  the chunks without overlapping, whatever order the unstable sort gives to ties.\<close>

theorem chunk_file_ast_no_overlap:
  assumes "unstable_sort srt" "tree_of src root"
  shows "\<exists>cs. chunk_file_ast srt fl src root syms = Some cs \<and> in_order_in (map ch_content cs) src"
  using assms by (rule chunk_file_ast_ordered)

theorem chunk_file_ast_no_overlap_witness:
  "\<exists>cs. chunk_file_ast sort_by ''a.rs'' gap_source gap_tree [] = Some cs
     \<and> in_order_in (map ch_content cs) gap_source"
  by (rule chunk_file_ast_no_overlap [OF unstable_sort_sort_by gap_tree_of])

text \<open>A chunk's symbol is a symbol whose lines hold the whole chunk, and no other symbol
  holding the chunk spans fewer lines.\<close>

theorem symbol_ref_for_deepest:
  assumes "symbol_ref_for ls le syms = Some f"
  shows "\<exists>s \<in> set syms. f = fqn (sym_qualified s) \<and> sym_line_start s \<le> ls \<and> le \<le> sym_line_end s
    \<and> (\<forall>t \<in> set syms. sym_line_start t \<le> ls \<longrightarrow> le \<le> sym_line_end t \<longrightarrow>
         sym_line_end s - sym_line_start s \<le> sym_line_end t - sym_line_start t)"
  using assms by (rule symbol_ref_for_Some)

definition demo_symbol :: "str \<Rightarrow> nat \<Rightarrow> nat \<Rightarrow> symbol" where
  "demo_symbol n a b = \<lparr>sym_qualified = \<lparr>qs_file = ''a.rs'', scope_path = [], qs_name = n\<rparr>,
     sym_kind = Function, sym_line_start = a, sym_line_end = b, sym_signature = None,
     sym_parent_fqn = None\<rparr>"

theorem symbol_ref_for_deepest_witness:
  "\<exists>s \<in> set [demo_symbol ''C'' 1 50, demo_symbol ''m'' 5 20].
     ''a.rs::m'' = fqn (sym_qualified s) \<and> sym_line_start s \<le> 6 \<and> 9 \<le> sym_line_end s
    \<and> (\<forall>t \<in> set [demo_symbol ''C'' 1 50, demo_symbol ''m'' 5 20].
         sym_line_start t \<le> 6 \<longrightarrow> 9 \<le> sym_line_end t \<longrightarrow>
         sym_line_end s - sym_line_start s \<le> sym_line_end t - sym_line_start t)"
proof -
  have "symbol_ref_for 6 9 [demo_symbol ''C'' 1 50, demo_symbol ''m'' 5 20] = Some ''a.rs::m''"
    by (simp add: symbol_ref_for_def demo_symbol_def fqn_def less_prod_def)
  then show ?thesis by (rule symbol_ref_for_deepest)
qed

end
