(* ===== verification/F32.thy ===== *)
theory F32
  imports Prelude
begin

text \<open>
  The \<open>f32\<close> of the sources, as its IEEE 754 bit pattern in a 32-bit word: the comparisons
  (\<open>partial_cmp\<close>, \<open><\<close>, \<open>>=\<close>), \<open>max\<close>, \<open>min\<close>, and the arithmetic the scores and the vector
  index use, correctly rounded (nearest, ties to even) from an exact significand and
  exponent. A result that is not a number is the quiet pattern 0x7FC00000. Sign of zero in
  \<open>max\<close>/\<open>min\<close> follows the first argument.
\<close>

type_synonym f32 = "32 word"

section \<open>Fields of the pattern\<close>

definition f32_neg :: "f32 \<Rightarrow> bool" where
  "f32_neg x \<longleftrightarrow> 0x80000000 \<le> uint x"

definition f32_mag :: "f32 \<Rightarrow> int" where
  "f32_mag x = uint x mod 0x80000000"

definition f32_exp :: "f32 \<Rightarrow> int" where
  "f32_exp x = f32_mag x div 0x800000"

definition f32_man :: "f32 \<Rightarrow> int" where
  "f32_man x = f32_mag x mod 0x800000"

definition f32_nan :: "f32 \<Rightarrow> bool" where
  "f32_nan x \<longleftrightarrow> 0x7F800000 < f32_mag x"

definition f32_inf :: "f32 \<Rightarrow> bool" where
  "f32_inf x \<longleftrightarrow> f32_mag x = 0x7F800000"

definition f32_zero :: "f32 \<Rightarrow> bool" where
  "f32_zero x \<longleftrightarrow> f32_mag x = 0"

text \<open>A finite value is \<open>\<plusminus> f32_sig x * 2 ^ f32_pow x\<close>.\<close>

definition f32_sig :: "f32 \<Rightarrow> int" where
  "f32_sig x = (if f32_exp x = 0 then f32_man x else f32_man x + 0x800000)"

definition f32_pow :: "f32 \<Rightarrow> int" where
  "f32_pow x = max 1 (f32_exp x) - 150"

section \<open>Comparison\<close>

definition f32_key :: "f32 \<Rightarrow> int" where
  "f32_key x = (if f32_neg x then - f32_mag x else f32_mag x)"

definition f32_lt :: "f32 \<Rightarrow> f32 \<Rightarrow> bool" where
  "f32_lt a b \<longleftrightarrow> \<not> f32_nan a \<and> \<not> f32_nan b \<and> f32_key a < f32_key b"

definition f32_le :: "f32 \<Rightarrow> f32 \<Rightarrow> bool" where
  "f32_le a b \<longleftrightarrow> \<not> f32_nan a \<and> \<not> f32_nan b \<and> f32_key a \<le> f32_key b"

datatype ordering = Less | Equal | Greater

definition ord_of :: "'a::linorder \<Rightarrow> 'a \<Rightarrow> ordering" where
  "ord_of a b = (if a < b then Less else if a = b then Equal else Greater)"

definition ord_then :: "ordering \<Rightarrow> ordering \<Rightarrow> ordering" where
  "ord_then o1 o2 = (if o1 = Equal then o2 else o1)"

definition f32_partial_cmp :: "f32 \<Rightarrow> f32 \<Rightarrow> ordering option" where
  "f32_partial_cmp a b =
     (if f32_nan a \<or> f32_nan b then None else Some (ord_of (f32_key a) (f32_key b)))"

definition f32_max :: "f32 \<Rightarrow> f32 \<Rightarrow> f32" where
  "f32_max a b =
     (if f32_nan a then b else if f32_nan b then a
      else if f32_key a < f32_key b then b else a)"

definition f32_min :: "f32 \<Rightarrow> f32 \<Rightarrow> f32" where
  "f32_min a b =
     (if f32_nan a then b else if f32_nan b then a
      else if f32_key b < f32_key a then b else a)"

section \<open>Rounding\<close>

definition f32_quiet_nan :: f32 where
  "f32_quiet_nan = 0x7FC00000"

definition f32_infinity :: f32 where
  "f32_infinity = 0x7F800000"

definition f32_with_sign :: "bool \<Rightarrow> int \<Rightarrow> f32" where
  "f32_with_sign s mag = word_of_int (if s then 0x80000000 + mag else mag)"

function bit_length :: "int \<Rightarrow> int" where
  "bit_length n = (if n \<le> 0 then 0 else 1 + bit_length (n div 2))"
  by pat_completeness auto
termination
  by (relation "measure nat") auto

declare bit_length.simps [simp del]

text \<open>
  \<open>f32_round s m e sticky\<close>: the value \<open>m * 2 ^ e\<close>, plus something below one unit of \<open>m\<close>
  when \<open>sticky\<close>, with sign \<open>s\<close>. The last place kept is \<open>q\<close>; \<open>up\<close> is the rounding. The
  pattern \<open>(q + 149) * 2 ^ 23 + m'\<close> is right for subnormal and normal results alike, and a
  carry out of the significand moves to the next exponent by itself.
\<close>

definition f32_round :: "bool \<Rightarrow> int \<Rightarrow> int \<Rightarrow> bool \<Rightarrow> f32" where
  "f32_round s m e sticky =
     (let q = max (e + bit_length m - 24) (- 149);
          unit = 2 ^ nat (q - e);
          m' = (if q \<le> e then m * 2 ^ nat (e - q) else m div unit);
          r = (if q \<le> e then 0 else m mod unit);
          up = (unit < 2 * r \<or> (0 < r \<and> unit = 2 * r \<and> (sticky \<or> odd m')));
          pat = (q + 149) * 0x800000 + (if up then m' + 1 else m')
      in f32_with_sign s (min pat 0x7F800000))"

section \<open>Arithmetic\<close>

definition f32_mul :: "f32 \<Rightarrow> f32 \<Rightarrow> f32" where
  "f32_mul a b =
     (let s = (f32_neg a \<noteq> f32_neg b) in
      if f32_nan a \<or> f32_nan b then f32_quiet_nan
      else if f32_inf a \<or> f32_inf b then
        (if f32_zero a \<or> f32_zero b then f32_quiet_nan else f32_with_sign s (0x7F800000))
      else if f32_zero a \<or> f32_zero b then f32_with_sign s 0
      else f32_round s (f32_sig a * f32_sig b) (f32_pow a + f32_pow b) False)"

definition f32_add :: "f32 \<Rightarrow> f32 \<Rightarrow> f32" where
  "f32_add a b =
     (if f32_nan a \<or> f32_nan b then f32_quiet_nan
      else if f32_inf a then (if f32_inf b \<and> f32_neg a \<noteq> f32_neg b then f32_quiet_nan else a)
      else if f32_inf b then b
      else
        (let e = min (f32_pow a) (f32_pow b);
             va = f32_sig a * 2 ^ nat (f32_pow a - e);
             vb = f32_sig b * 2 ^ nat (f32_pow b - e);
             v = (if f32_neg a then - va else va) + (if f32_neg b then - vb else vb)
         in if v = 0 then f32_with_sign (f32_neg a \<and> f32_neg b) 0
            else f32_round (v < 0) \<bar>v\<bar> e False))"

definition f32_div :: "f32 \<Rightarrow> f32 \<Rightarrow> f32" where
  "f32_div a b =
     (let s = (f32_neg a \<noteq> f32_neg b) in
      if f32_nan a \<or> f32_nan b \<or> (f32_inf a \<and> f32_inf b) \<or> (f32_zero a \<and> f32_zero b)
      then f32_quiet_nan
      else if f32_inf a \<or> f32_zero b then f32_with_sign s (0x7F800000)
      else if f32_inf b \<or> f32_zero a then f32_with_sign s 0
      else
        (let n = f32_sig a * 2 ^ 60
         in f32_round s (n div f32_sig b) (f32_pow a - f32_pow b - 60) (n mod f32_sig b \<noteq> 0)))"

function isqrt :: "int \<Rightarrow> int" where
  "isqrt n =
     (if n \<le> 0 then 0
      else let r = 2 * isqrt (n div 4) in if (r + 1) * (r + 1) \<le> n then r + 1 else r)"
  by pat_completeness auto
termination
  by (relation "measure nat") auto

declare isqrt.simps [simp del]

definition f32_sqrt :: "f32 \<Rightarrow> f32" where
  "f32_sqrt a =
     (if f32_nan a then f32_quiet_nan
      else if f32_zero a then a
      else if f32_neg a then f32_quiet_nan
      else if f32_inf a then a
      else
        (let e = f32_pow a;
             m = (if even e then f32_sig a else 2 * f32_sig a) * 2 ^ 60;
             e' = (if even e then e else e - 1) - 60;
             r = isqrt m
         in f32_round False r (e' div 2) (r * r \<noteq> m)))"

text \<open>\<open>Iterator::sum\<close> starts from negative zero.\<close>

definition f32_sum :: "f32 list \<Rightarrow> f32" where
  "f32_sum xs = foldl f32_add 0x80000000 xs"

text \<open>The literals of the sources.\<close>

definition f32_one :: f32 where
  "f32_one = 0x3F800000"

section \<open>Order\<close>

lemma f32_lt_not_le: "\<not> f32_nan a \<Longrightarrow> \<not> f32_nan b \<Longrightarrow> f32_lt a b \<longleftrightarrow> \<not> f32_le b a"
  by (auto simp: f32_lt_def f32_le_def)

lemma f32_le_refl: "\<not> f32_nan a \<Longrightarrow> f32_le a a"
  by (simp add: f32_le_def)

lemma f32_le_trans: "f32_le a b \<Longrightarrow> f32_le b c \<Longrightarrow> f32_le a c"
  by (auto simp: f32_le_def)

lemma f32_le_total: "\<not> f32_nan a \<Longrightarrow> \<not> f32_nan b \<Longrightarrow> f32_le a b \<or> f32_le b a"
  by (auto simp: f32_le_def)

lemma f32_max_not_nan: "\<not> f32_nan a \<or> \<not> f32_nan b \<Longrightarrow> \<not> f32_nan (f32_max a b)"
  by (auto simp: f32_max_def)

lemma f32_min_not_nan: "\<not> f32_nan a \<or> \<not> f32_nan b \<Longrightarrow> \<not> f32_nan (f32_min a b)"
  by (auto simp: f32_min_def)

lemma f32_max_ge:
  "\<not> f32_nan a \<Longrightarrow> \<not> f32_nan b \<Longrightarrow> f32_le a (f32_max a b) \<and> f32_le b (f32_max a b)"
  by (auto simp: f32_max_def f32_le_def)

lemma f32_max_in: "f32_max a b \<in> {a, b}"
  by (auto simp: f32_max_def)

lemma f32_min_in: "f32_min a b \<in> {a, b}"
  by (auto simp: f32_min_def)

section \<open>Multiplication by one\<close>

lemma f32_mag_bounds: "0 \<le> f32_mag x \<and> f32_mag x < 0x80000000"
  by (simp add: f32_mag_def)

lemma f32_with_sign_neg_mag: "f32_with_sign (f32_neg x) (f32_mag x) = x"
proof -
  have "uint x < 0x100000000" using uint_range_size [of x] by (simp add: word_size)
  then have "uint x = (if f32_neg x then 0x80000000 else 0) + f32_mag x"
    unfolding f32_neg_def f32_mag_def
    by (smt (verit) minus_mod_self2 mod_pos_pos_trivial uint_ge_0)
  then have "x = word_of_int ((if f32_neg x then 0x80000000 else 0) + f32_mag x)"
    by (metis word_of_int_uint)
  then show ?thesis by (simp add: f32_with_sign_def split: if_splits)
qed

lemma bit_length_between: "2 ^ k \<le> n \<Longrightarrow> n < 2 ^ Suc k \<Longrightarrow> bit_length n = int k + 1"
proof (induction k arbitrary: n)
  case 0
  then have "n = 1" by simp
  then show ?case by (simp add: bit_length.simps [of 1] bit_length.simps [of 0])
next
  case (Suc k)
  have pos: "0 < n" using Suc.prems(1) by (smt (verit) zero_less_power)
  have "2 ^ k \<le> n div 2" "n div 2 < 2 ^ Suc k" using Suc.prems by auto
  then have "bit_length (n div 2) = int k + 1" by (rule Suc.IH)
  with pos show ?case by (simp add: bit_length.simps [of n])
qed

lemma bit_length_double: "0 < n \<Longrightarrow> bit_length (n * 2 ^ k) = bit_length n + int k"
proof (induction k)
  case 0
  then show ?case by simp
next
  case (Suc k)
  have "bit_length (n * 2 ^ Suc k) = 1 + bit_length (n * 2 ^ k)"
  proof -
    have "0 < n * 2 ^ k" using Suc.prems by simp
    then show ?thesis by (subst bit_length.simps) simp
  qed
  with Suc show ?case by simp
qed

lemma bit_length_le: "0 \<le> n \<Longrightarrow> n < 2 ^ k \<Longrightarrow> bit_length n \<le> int k"
proof (induction k arbitrary: n)
  case 0
  then show ?case by (simp add: bit_length.simps)
next
  case (Suc k)
  show ?case
  proof (cases "n = 0")
    case True
    then show ?thesis by (simp add: bit_length.simps)
  next
    case False
    have "bit_length (n div 2) \<le> int k" using Suc.prems by (intro Suc.IH) auto
    with False Suc.prems show ?thesis by (simp add: bit_length.simps [of n])
  qed
qed

lemma f32_fields_one: "f32_sig f32_one = 2 ^ 23" "f32_pow f32_one = - 23" "\<not> f32_neg f32_one"
  "\<not> f32_nan f32_one" "\<not> f32_inf f32_one" "\<not> f32_zero f32_one"
  by (simp_all add: f32_one_def f32_sig_def f32_pow_def f32_neg_def f32_nan_def f32_inf_def
      f32_zero_def f32_exp_def f32_man_def f32_mag_def)

text \<open>The last place of a product with one is the last place of the other factor.\<close>

lemma f32_last_place:
  assumes "\<not> f32_nan x" "\<not> f32_inf x" "\<not> f32_zero x"
  shows "max (f32_pow x - 23 + bit_length (f32_sig x * 2 ^ 23) - 24) (- 149) = f32_pow x"
proof (cases "f32_exp x = 0")
  case True
  have "0 < f32_sig x" using True f32_mag_bounds [of x] assms(3)
    by (auto simp: f32_sig_def f32_man_def f32_exp_def f32_zero_def)
  moreover have "bit_length (f32_sig x) \<le> 23"
    using True bit_length_le [of "f32_sig x" 23] by (simp add: f32_sig_def f32_man_def)
  ultimately show ?thesis
    using True bit_length_double [of "f32_sig x" 23] by (simp add: f32_pow_def)
next
  case False
  have "bit_length (f32_sig x) = int 23 + 1"
    using False by (intro bit_length_between) (auto simp: f32_sig_def f32_man_def)
  moreover have "0 < f32_sig x" using False by (simp add: f32_sig_def f32_man_def add_nonneg_pos)
  moreover have "1 \<le> f32_exp x"
    using False f32_mag_bounds [of x] by (simp add: f32_exp_def) linarith
  ultimately show ?thesis
    using bit_length_double [of "f32_sig x" 23] by (simp add: f32_pow_def)
qed

lemma f32_pattern:
  "\<not> f32_nan x \<Longrightarrow> \<not> f32_inf x \<Longrightarrow> (f32_pow x + 149) * 0x800000 + f32_sig x = f32_mag x"
proof -
  have "f32_mag x = f32_exp x * 0x800000 + f32_man x" by (simp add: f32_exp_def f32_man_def)
  moreover have "0 \<le> f32_exp x"
    using f32_mag_bounds [of x] by (simp add: f32_exp_def pos_imp_zdiv_nonneg_iff)
  ultimately show ?thesis by (cases "f32_exp x = 0") (auto simp: f32_sig_def f32_pow_def)
qed

theorem f32_mul_one: "\<not> f32_nan x \<Longrightarrow> f32_mul x f32_one = x"
proof -
  assume nn: "\<not> f32_nan x"
  consider "f32_inf x" | "f32_zero x" | "\<not> f32_inf x" "\<not> f32_zero x" by blast
  then show ?thesis
  proof cases
    case 1
    with nn f32_with_sign_neg_mag [of x] show ?thesis
      using f32_fields_one by (simp add: f32_mul_def f32_inf_def f32_zero_def)
  next
    case 2
    with nn f32_with_sign_neg_mag [of x] show ?thesis
      using f32_fields_one by (simp add: f32_mul_def f32_inf_def f32_zero_def)
  next
    case 3
    have "f32_round (f32_neg x) (f32_sig x * 2 ^ 23) (f32_pow x - 23) False
        = f32_with_sign (f32_neg x) (min (f32_mag x) 0x7F800000)"
      using f32_last_place [OF nn 3] f32_pattern [OF nn 3(1)]
      by (simp add: f32_round_def Let_def)
    moreover have "min (f32_mag x) 0x7F800000 = f32_mag x"
      using nn by (simp add: f32_nan_def)
    ultimately show ?thesis
      using nn 3 f32_fields_one f32_with_sign_neg_mag [of x] by (simp add: f32_mul_def)
  qed
qed

lemma f32_not_nan_finite: "f32_nan x \<Longrightarrow> \<not> f32_lt x y \<and> \<not> f32_lt y x \<and> \<not> f32_le x y \<and> \<not> f32_le y x"
  by (simp add: f32_lt_def f32_le_def)

section \<open>Ranking by score\<close>

text \<open>
  \<open>b.partial_cmp(&a).unwrap_or(Equal)\<close> as "a ranks no later than b": descending, with
  everything equal to a NaN. Without NaN it is a total preorder.
\<close>

definition f32_desc :: "f32 \<Rightarrow> f32 \<Rightarrow> bool" where
  "f32_desc a b = (case f32_partial_cmp b a of None \<Rightarrow> True | Some ord \<Rightarrow> ord \<noteq> Greater)"

lemma f32_desc_le: "\<not> f32_nan a \<Longrightarrow> \<not> f32_nan b \<Longrightarrow> f32_desc a b \<longleftrightarrow> f32_le b a"
  by (auto simp: f32_desc_def f32_partial_cmp_def f32_le_def ord_of_def)

lemma f32_desc_preorder:
  "\<forall>x \<in> A. \<not> f32_nan (f x) \<Longrightarrow> total_preorder_on (\<lambda>x y. f32_desc (f x) (f y)) A"
  unfolding total_preorder_on_def
  by (auto simp: f32_desc_le dest: f32_le_trans) (meson f32_le_total f32_le_trans)+

end
