(* ===== verification/Scope.thy ===== *)
theory Scope
  imports Prelude
begin

text \<open>
  Code/docs classification (\<open>src/vector/scope.rs\<close>): the extension key of a path, the interned
  extension table of a shard with its overflow sentinel, and the per-query filter.
\<close>

datatype scope = Code | Docs

definition scope_as_str :: "scope \<Rightarrow> str" where
  "scope_as_str s = (case s of Code \<Rightarrow> ''code'' | Docs \<Rightarrow> ''docs'')"

definition scope_parse :: "str \<Rightarrow> scope option" where
  "scope_parse s =
     (let t = to_ascii_lowercase (trim s) in
      if t = ''code'' then Some Code else if t = ''docs'' then Some Docs else None)"

definition scope_opposite :: "scope \<Rightarrow> scope" where
  "scope_opposite s = (case s of Code \<Rightarrow> Docs | Docs \<Rightarrow> Code)"

definition normalize_ext :: "str \<Rightarrow> str" where
  "normalize_ext raw = to_lowercase (trim_start_matches (\<lambda>c. c = CHR ''.'') (trim raw))"

definition is_path_sep :: "char \<Rightarrow> bool" where
  "is_path_sep c \<longleftrightarrow> c = slash \<or> c = backslash"

definition ext_key :: "str \<Rightarrow> str" where
  "ext_key path =
     (let name = last (split_on is_path_sep path);
          key = (case rsplit_once CHR ''.'' name of
                   Some (stem, ext) \<Rightarrow> if stem \<noteq> [] \<and> ext \<noteq> [] then ext else name
                 | None \<Rightarrow> name)
      in if list_ex (\<lambda>c. char_is_ascii_uppercase c \<or> 128 \<le> code c) key then to_lowercase key else key)"

definition EXT_SENTINEL :: u16 where
  "EXT_SENTINEL = 65535"

record ext_table =
  tbl_names :: "str list"
  tbl_ids :: "str \<rightharpoonup> u16"

definition ext_table_default :: ext_table where
  "ext_table_default = \<lparr>tbl_names = [], tbl_ids = Map.empty\<rparr>"

definition intern :: "str \<Rightarrow> ext_table \<Rightarrow> u16 \<times> ext_table" where
  "intern key t =
     (case tbl_ids t key of
        Some i \<Rightarrow> (i, t)
      | None \<Rightarrow>
          if unat EXT_SENTINEL \<le> length (tbl_names t) then (EXT_SENTINEL, t)
          else
            (let i = of_nat (length (tbl_names t)) in
             (i, t\<lparr>tbl_names := tbl_names t @ [key], tbl_ids := (tbl_ids t)(key \<mapsto> i)\<rparr>)))"

definition intern_path :: "str \<Rightarrow> ext_table \<Rightarrow> u16 \<times> ext_table" where
  "intern_path path t = intern (ext_key path) t"

record scope_filter =
  sf_scope :: scope
  sf_docs :: "str set"

definition scope_filter_new :: "scope \<Rightarrow> str list \<Rightarrow> scope_filter" where
  "scope_filter_new s docs_extensions =
     \<lparr>sf_scope = s, sf_docs = set (filter (\<lambda>e. e \<noteq> []) (map normalize_ext docs_extensions))\<rparr>"

definition filter_opposite :: "scope_filter \<Rightarrow> scope_filter" where
  "filter_opposite f = f\<lparr>sf_scope := scope_opposite (sf_scope f)\<rparr>"

definition keeps :: "scope_filter \<Rightarrow> bool \<Rightarrow> bool" where
  "keeps f is_docs = (is_docs = (sf_scope f = Docs))"

definition keep_table :: "scope_filter \<Rightarrow> ext_table \<Rightarrow> bool list" where
  "keep_table f t = map (\<lambda>n. keeps f (n \<in> sf_docs f)) (tbl_names t)"

definition keeps_unknown :: "scope_filter \<Rightarrow> bool" where
  "keeps_unknown f = keeps f False"

section \<open>The table\<close>

lemma ext_key_lowercase: "to_lowercase (ext_key p) = ext_key p"
proof -
  have low: "to_lowercase k = k" if "\<not> list_ex (\<lambda>c. char_is_ascii_uppercase c \<or> 128 \<le> code c) k" for k
    using that by (induction k)
      (auto simp: to_lowercase_def char_to_lowercase_def Let_def)
  have "\<exists>k. ext_key p = (if list_ex (\<lambda>c. char_is_ascii_uppercase c \<or> 128 \<le> code c) k
      then to_lowercase k else k)"
    by (auto simp: ext_key_def Let_def)
  with low show ?thesis by (auto split: if_splits)
qed

text \<open>Names are distinct, at most 65535, and the map is the inverse of the list.\<close>

definition ext_table_ok :: "ext_table \<Rightarrow> bool" where
  "ext_table_ok t \<longleftrightarrow> distinct (tbl_names t) \<and> length (tbl_names t) \<le> 65535
     \<and> (\<forall>k i. tbl_ids t k = Some i \<longleftrightarrow> unat i < length (tbl_names t) \<and> tbl_names t ! unat i = k)"

definition table_full :: "ext_table \<Rightarrow> bool" where
  "table_full t \<longleftrightarrow> length (tbl_names t) = 65535"

text \<open>What an id stored in a row means.\<close>

definition id_right :: "ext_table \<Rightarrow> str \<Rightarrow> u16 \<Rightarrow> bool" where
  "id_right t key i \<longleftrightarrow>
     (if unat i < length (tbl_names t) then tbl_names t ! unat i = key
      else i = EXT_SENTINEL \<and> table_full t)"

definition grows :: "ext_table \<Rightarrow> ext_table \<Rightarrow> bool" where
  "grows t t' \<longleftrightarrow> (\<exists>more. tbl_names t' = tbl_names t @ more)"

lemma grows_refl [simp]: "grows t t"
  by (simp add: grows_def)

lemma grows_trans: "grows t t' \<Longrightarrow> grows t' t'' \<Longrightarrow> grows t t''"
  by (auto simp: grows_def)

lemma ext_table_default_ok [simp]: "ext_table_ok ext_table_default"
  by (simp add: ext_table_ok_def ext_table_default_def)

lemma id_right_grows: "id_right t k i \<Longrightarrow> grows t t' \<Longrightarrow> ext_table_ok t' \<Longrightarrow> id_right t' k i"
  by (auto simp: id_right_def grows_def ext_table_ok_def table_full_def nth_append EXT_SENTINEL_def
      split: if_splits)

lemma unat_sentinel [simp]: "unat EXT_SENTINEL = 65535"
  by (simp add: EXT_SENTINEL_def)

lemma intern_spec:
  assumes "ext_table_ok t" "intern key t = (i, t')"
  shows "ext_table_ok t' \<and> grows t t' \<and> id_right t' key i"
proof (cases "tbl_ids t key")
  case (Some j)
  with assms show ?thesis by (auto simp: intern_def ext_table_ok_def id_right_def)
next
  case None
  show ?thesis
  proof (cases "65535 \<le> length (tbl_names t)")
    case True
    with None assms show ?thesis
      by (auto simp: intern_def ext_table_ok_def id_right_def table_full_def)
  next
    case False
    let ?n = "length (tbl_names t)"
    have n: "unat (of_nat ?n :: u16) = ?n" using False by (simp add: unat_of_nat)
    have fresh: "key \<notin> set (tbl_names t)"
    proof
      assume "key \<in> set (tbl_names t)"
      then obtain j where "j < ?n" "tbl_names t ! j = key" by (auto simp: in_set_conv_nth)
      moreover have "unat (of_nat j :: u16) = j" using calculation False by (simp add: unat_of_nat)
      ultimately show False using assms(1) None unfolding ext_table_ok_def
        by (metis option.distinct(1))
    qed
    have eq: "i = of_nat ?n" "t' = t\<lparr>tbl_names := tbl_names t @ [key], tbl_ids := (tbl_ids t)(key \<mapsto> of_nat ?n)\<rparr>"
      using None False assms(2) by (auto simp: intern_def Let_def)
    have inv: "(tbl_ids t') k = Some j \<longleftrightarrow> unat j < length (tbl_names t') \<and> tbl_names t' ! unat j = k" for k j
    proof (cases "unat j < ?n")
      case True
      then have "tbl_names t ! unat j \<noteq> key" using fresh by (metis nth_mem)
      with True n assms(1) show ?thesis
        unfolding eq ext_table_ok_def by (auto simp: nth_append)
    next
      case ge: False
      have "tbl_ids t k \<noteq> Some j" using ge assms(1) unfolding ext_table_ok_def by blast
      moreover have "unat j = ?n \<longleftrightarrow> j = of_nat ?n" using n by (auto simp: word_unat_eq_iff)
      ultimately show ?thesis using ge unfolding eq by (auto simp: nth_append)
    qed
    then have "ext_table_ok t'" using fresh assms(1) False unfolding ext_table_ok_def
      by (simp add: eq)
    moreover have "grows t t'" by (simp add: grows_def eq)
    moreover have "id_right t' key i" using n by (simp add: id_right_def eq)
    ultimately show ?thesis by blast
  qed
qed

lemmas intern_ok = intern_spec [THEN conjunct1]
lemmas intern_grows = intern_spec [THEN conjunct2, THEN conjunct1]
lemmas intern_right = intern_spec [THEN conjunct2, THEN conjunct2]

text \<open>The verdict of a row's id: the key's class while the table has room, else code.\<close>

definition verdict :: "scope_filter \<Rightarrow> ext_table \<Rightarrow> u16 \<Rightarrow> bool" where
  "verdict f t i =
     (if unat i < length (keep_table f t) then keep_table f t ! unat i else keeps_unknown f)"

lemma verdict_right:
  assumes "id_right t key i"
  shows "verdict f t i \<longleftrightarrow>
    (if unat i < length (tbl_names t) then (key \<in> sf_docs f) = (sf_scope f = Docs) else sf_scope f = Code)"
  using assms
  by (cases "sf_scope f") (auto simp: verdict_def keep_table_def keeps_def keeps_unknown_def id_right_def)

lemma verdict_exact:
  "id_right t key i \<Longrightarrow> \<not> table_full t \<Longrightarrow> verdict f t i \<longleftrightarrow> (key \<in> sf_docs f) = (sf_scope f = Docs)"
  by (auto simp: verdict_right id_right_def split: if_splits)

text \<open>Exactly one of a filter and its opposite keeps a row.\<close>

lemma verdict_opposite: "verdict (filter_opposite f) t i = (\<not> verdict f t i)"
  by (cases "sf_scope f")
    (auto simp: verdict_def keep_table_def keeps_def keeps_unknown_def filter_opposite_def
      scope_opposite_def)

end
