(* ===== verification/Topk.thy ===== *)
theory Topk
  imports Prelude
begin

text \<open>
  Ranking: what "the best \<open>k\<close>" means when ties are unspecified, the contract of
  \<open>select_nth_unstable_by\<close>, and the fact that makes sharding transparent: the best \<open>k\<close> of the
  shards' best \<open>k\<close> are a best \<open>k\<close> of everything. \<open>le x y\<close> reads "x ranks no later than y".
\<close>

definition top_k :: "('a \<Rightarrow> 'a \<Rightarrow> bool) \<Rightarrow> nat \<Rightarrow> 'a list \<Rightarrow> 'a list \<Rightarrow> bool" where
  "top_k le k xs ys \<longleftrightarrow>
     sorted_wrt le ys \<and> mset ys \<subseteq># mset xs \<and> length ys = min k (length xs)
     \<and> (\<forall>x \<in># mset xs - mset ys. \<forall>y \<in> set ys. le y x)"

text \<open>\<open>ys\<close> has, for everything of \<open>xs\<close> it leaves out, \<open>k\<close> elements that rank no later.\<close>

definition enough :: "('a \<Rightarrow> 'a \<Rightarrow> bool) \<Rightarrow> nat \<Rightarrow> 'a multiset \<Rightarrow> 'a multiset \<Rightarrow> bool" where
  "enough le k X Y \<longleftrightarrow>
     Y \<subseteq># X \<and> (\<forall>x \<in># X - Y. k \<le> size (filter_mset (\<lambda>y. le y x) Y))"

lemma enough_empty: "enough le k {#} {#}"
  by (simp add: enough_def)

lemma enough_union:
  assumes "enough le k X Y" "enough le k X' Y'"
  shows "enough le k (X + X') (Y + Y')"
proof -
  have sub: "Y \<subseteq># X" "Y' \<subseteq># X'" using assms by (auto simp: enough_def)
  then obtain A A' where A: "X = Y + A" "X' = Y' + A'" by (metis subset_mset.le_iff_add)
  then have "X + X' = (Y + Y') + (A + A')" by (simp add: ac_simps)
  then have diff: "(X + X') - (Y + Y') = (X - Y) + (X' - Y')" using A by simp
  have "k \<le> size (filter_mset (\<lambda>y. le y x) (Y + Y'))" if "x \<in># (X - Y) + (X' - Y')" for x
  proof -
    consider "x \<in># X - Y" | "x \<in># X' - Y'" using \<open>x \<in># (X - Y) + (X' - Y')\<close> by auto
    then show ?thesis
    proof cases
      case 1
      then have "k \<le> size (filter_mset (\<lambda>y. le y x) Y)" using assms(1) by (auto simp: enough_def)
      then show ?thesis by simp
    next
      case 2
      then have "k \<le> size (filter_mset (\<lambda>y. le y x) Y')" using assms(2) by (auto simp: enough_def)
      then show ?thesis by simp
    qed
  qed
  with sub diff show ?thesis by (simp add: enough_def subset_mset.add_mono)
qed

lemma enough_trans:
  assumes XY: "enough le k X Y" and YZ: "enough le k Y Z"
    and pre: "total_preorder_on le (set_mset X)"
  shows "enough le k X Z"
proof -
  have sub: "Y \<subseteq># X" "Z \<subseteq># Y" using assms by (auto simp: enough_def)
  have tr: "le a c" if "le a b" "le b c" "a \<in># X" "b \<in># X" "c \<in># X" for a b c
    using pre that unfolding total_preorder_on_def by blast
  have "k \<le> size (filter_mset (\<lambda>y. le y x) Z)" if "x \<in># X - Z" for x
  proof -
    have xX: "x \<in># X" using that by (rule in_diffD)
    obtain A B where A: "X = Y + A" "Y = Z + B" using sub by (metis subset_mset.le_iff_add)
    then have "X = Z + (A + B)" by (simp add: ac_simps)
    then have "X - Z = (X - Y) + (Y - Z)" using A by simp
    with that consider "x \<in># X - Y" | "x \<in># Y - Z" by auto
    then show ?thesis
    proof cases
      case 1
      then have k: "k \<le> size (filter_mset (\<lambda>y. le y x) Y)" using XY by (auto simp: enough_def)
      show ?thesis
      proof (cases "filter_mset (\<lambda>y. le y x) (Y - Z) = {#}")
        case True
        have "Y - Z = B" using A(2) by simp
        with True have "filter_mset (\<lambda>y. le y x) B = {#}" by simp
        then have "filter_mset (\<lambda>y. le y x) Y = filter_mset (\<lambda>y. le y x) Z"
          unfolding A(2) by simp
        with k show ?thesis by simp
      next
        case False
        then obtain y where "y \<in># filter_mset (\<lambda>y. le y x) (Y - Z)" by blast
        then have y: "y \<in># Y - Z" "le y x" unfolding set_mset_filter by blast+
        have "k \<le> size (filter_mset (\<lambda>z. le z y) Z)" using YZ y by (auto simp: enough_def)
        also have "\<dots> \<le> size (filter_mset (\<lambda>z. le z x) Z)"
        proof (rule size_mset_mono)
          have "y \<in># X" using y sub by (meson in_diffD mset_subset_eqD)
          moreover have "z \<in># Z \<Longrightarrow> z \<in># X" for z using sub by (meson mset_subset_eqD)
          ultimately have "z \<in># Z \<Longrightarrow> le z y \<Longrightarrow> le z x" for z using tr y xX by blast
          then show "filter_mset (\<lambda>z. le z y) Z \<subseteq># filter_mset (\<lambda>z. le z x) Z"
            by (intro filter_mset_mono_strong) auto
        qed
        finally show ?thesis .
      qed
    next
      case 2
      then show ?thesis using YZ by (auto simp: enough_def)
    qed
  qed
  with sub show ?thesis by (simp add: enough_def)
qed

lemma top_k_enough:
  assumes "top_k le k xs ys"
  shows "enough le k (mset xs) (mset ys)"
proof -
  have t: "mset ys \<subseteq># mset xs" "length ys = min k (length xs)"
    "\<forall>x \<in># mset xs - mset ys. \<forall>y \<in> set ys. le y x" using assms by (auto simp: top_k_def)
  have "k \<le> size (filter_mset (\<lambda>y. le y x) (mset ys))" if "x \<in># mset xs - mset ys" for x
  proof -
    have "filter_mset (\<lambda>y. le y x) (mset ys) = mset ys"
      using t(3) that by (auto simp: filter_mset_eq_conv)
    moreover have "length ys \<noteq> length xs"
    proof
      assume "length ys = length xs"
      then have "mset ys = mset xs" using t(1)
        by (metis mset_subset_size size_mset subset_mset.le_imp_less_or_eq less_irrefl)
      with that show False by simp
    qed
    ultimately show ?thesis using t(2) by simp
  qed
  with t show ?thesis by (simp add: enough_def)
qed

lemma enough_top_k:
  assumes en: "enough le k (mset xs) (mset ys)" and so: "sorted_wrt le ys" and le: "length ys \<le> k"
  shows "top_k le k xs ys"
proof -
  have sub: "mset ys \<subseteq># mset xs" using en by (simp add: enough_def)
  have all: "\<forall>y \<in> set ys. le y x" and len: "length ys = k" if "x \<in># mset xs - mset ys" for x
  proof -
    have k: "k \<le> size (filter_mset (\<lambda>y. le y x) (mset ys))" using en that by (simp add: enough_def)
    also have "\<dots> \<le> length ys" by (metis size_filter_mset_lesseq size_mset)
    finally show "length ys = k" using le by simp
    with k have "size (filter_mset (\<lambda>y. le y x) (mset ys)) = size (mset ys)"
      by (metis le_antisym size_filter_mset_lesseq size_mset)
    then have "filter_mset (\<lambda>y. le y x) (mset ys) = mset ys"
      by (metis multiset_filter_subset mset_subset_size nless_le subset_mset.le_imp_less_or_eq)
    then show "\<forall>y \<in> set ys. le y x" by (auto simp: filter_mset_eq_conv)
  qed
  have "length ys = min k (length xs)"
  proof (cases "mset xs - mset ys = {#}")
    case True
    then have "mset xs = mset ys" using sub by (metis subset_mset.diff_add add_0)
    then show ?thesis using le by (metis min.absorb2 size_mset)
  next
    case False
    then have "length ys = k" using len by blast
    moreover have "length ys \<le> length xs" using sub by (metis size_mset size_mset_mono)
    ultimately show ?thesis by simp
  qed
  with so sub all show ?thesis by (auto simp: top_k_def)
qed

lemma mset_take_diff: "mset xs - mset (take k xs) = mset (drop k xs)"
  by (metis add_diff_cancel_left' append_take_drop_id mset_append)

lemma sorted_take_top_k:
  assumes "sorted_wrt le xs"
  shows "top_k le k xs (take k xs)"
proof -
  have "sorted_wrt le (take k xs @ drop k xs)" using assms by simp
  then have "\<forall>y \<in> set (take k xs). \<forall>x \<in> set (drop k xs). le y x"
    by (auto simp only: sorted_wrt_append)
  moreover have "mset (take k xs) \<subseteq># mset xs"
    by (metis append_take_drop_id mset_append mset_subset_eq_add_left)
  ultimately show ?thesis using assms
    by (simp add: top_k_def mset_take_diff sorted_wrt_take min.commute)
qed

lemma top_k_mset: "mset xs = mset xs' \<Longrightarrow> top_k le k xs ys \<Longrightarrow> top_k le k xs' ys"
  unfolding top_k_def by (metis size_mset)

lemma top_k_map:
  assumes "top_k (\<lambda>a b. le (f a) (f b)) k xs ys"
  shows "top_k le k (map f xs) (map f ys)"
proof -
  obtain D where D: "mset xs = mset ys + D" using assms by (metis subset_mset.le_iff_add top_k_def)
  have "mset (map f xs) = mset (map f ys) + image_mset f D" unfolding mset_map D by simp
  then have "mset (map f ys) \<subseteq># mset (map f xs)" "mset (map f xs) - mset (map f ys) = image_mset f D"
    by simp_all
  moreover have "mset xs - mset ys = D" using D by simp
  ultimately show ?thesis using assms by (auto simp: top_k_def sorted_wrt_map)
qed

lemma top_k_0 [simp]: "top_k le 0 xs []"
  by (simp add: top_k_def)

lemma top_k_Nil [simp]: "top_k le k [] []"
  by (simp add: top_k_def)

context unstable_sort
begin

lemma take_srt_top_k: "total_preorder_on le (set xs) \<Longrightarrow> top_k le k xs (take k (srt le xs))"
  using sorted_take_top_k [of le "srt le xs" k] srt_sorted [of le xs] srt_mset [of le xs] top_k_mset
  by blast

text \<open>The merge of partial rankings.\<close>

lemma merge_top_k:
  assumes parts: "list_all2 (top_k le k) xss yss" and pre: "total_preorder_on le (set (concat xss))"
  shows "top_k le k (concat xss) (take k (srt le (concat yss)))"
proof -
  have en: "enough le k (mset (concat xss)) (mset (concat yss))"
    using parts by (induction rule: list_all2_induct)
      (auto simp: enough_empty intro!: enough_union top_k_enough)
  then have sub: "set (concat yss) \<subseteq> set (concat xss)"
    by (metis enough_def set_mset_mono set_mset_mset)
  then have "top_k le k (concat yss) (take k (srt le (concat yss)))"
    using pre total_preorder_on_subset take_srt_top_k by blast
  then have "enough le k (mset (concat xss)) (mset (take k (srt le (concat yss))))"
    using en enough_trans pre top_k_enough by (metis set_mset_mset)
  moreover have "sorted_wrt le (take k (srt le (concat yss)))"
    using pre sub total_preorder_on_subset srt_sorted sorted_wrt_take by metis
  ultimately show ?thesis by (rule enough_top_k) simp
qed

end

section \<open>Selection\<close>

text \<open>
  \<open>select_nth_unstable_by(n)\<close>: a permutation whose first \<open>n + 1\<close> elements rank no later than
  the others, when the comparison is a total preorder.
\<close>

locale unstable_select =
  fixes sel :: "('a \<Rightarrow> 'a \<Rightarrow> bool) \<Rightarrow> nat \<Rightarrow> 'a list \<Rightarrow> 'a list"
  assumes sel_mset: "mset (sel le n xs) = mset xs"
    and sel_split: "total_preorder_on le (set xs) \<Longrightarrow> n < length xs \<Longrightarrow>
      x \<in> set (take (Suc n) (sel le n xs)) \<Longrightarrow> y \<in> set (drop (Suc n) (sel le n xs)) \<Longrightarrow> le x y"
begin

lemma sel_set: "set (sel le n xs) = set xs"
  by (metis sel_mset set_mset_mset)

lemma sel_length: "length (sel le n xs) = length xs"
  by (metis sel_mset size_mset)

text \<open>Selecting, truncating and sorting the rest is a top-k.\<close>

lemma select_sort_top_k:
  assumes srt: "unstable_sort srt" and pre: "total_preorder_on le (set xs)" and k: "0 < k" "k \<le> length xs"
  shows "top_k le k xs (srt le (take k (sel le (k - 1) xs)))"
proof -
  let ?t = "take k (sel le (k - 1) xs)"
  let ?d = "drop k (sel le (k - 1) xs)"
  have m: "mset xs = mset ?t + mset ?d"
    by (metis sel_mset union_code append_take_drop_id mset_append)
  have sub: "set ?t \<subseteq> set xs" using sel_set [of le "k - 1" xs] by (auto dest: in_set_takeD)
  have s: "mset (srt le ?t) = mset ?t" using srt by (rule unstable_sort.srt_mset)
  have "sorted_wrt le (srt le ?t)"
    using unstable_sort.srt_sorted [OF srt] total_preorder_on_subset [OF pre sub] by blast
  moreover have "\<forall>x \<in># mset xs - mset (srt le ?t). \<forall>y \<in> set (srt le ?t). le y x"
  proof (intro ballI)
    fix x y assume x: "x \<in># mset xs - mset (srt le ?t)" and y: "y \<in> set (srt le ?t)"
    have "mset xs - mset (srt le ?t) = mset ?d" unfolding m s by simp
    with x have "x \<in> set ?d" by simp
    moreover have "y \<in> set ?t" using y s by (metis set_mset_mset)
    moreover have "Suc (k - 1) = k" "k - 1 < length xs" using k by auto
    ultimately show "le y x" using sel_split [OF pre, of "k - 1" y x] by simp
  qed
  moreover have "mset (srt le ?t) \<subseteq># mset xs" using m s by simp
  moreover have "length (srt le ?t) = length ?t" using s by (metis size_mset)
  then have "length (srt le ?t) = min k (length xs)" by (simp add: sel_length min.commute)
  ultimately show ?thesis unfolding top_k_def by blast
qed

end

definition sort_select :: "('a \<Rightarrow> 'a \<Rightarrow> bool) \<Rightarrow> nat \<Rightarrow> 'a list \<Rightarrow> 'a list" where
  "sort_select le n xs = sort_by le xs"

interpretation sorted_select: unstable_select sort_select
proof unfold_locales
  fix le :: "'a \<Rightarrow> 'a \<Rightarrow> bool" and n and xs :: "'a list" and x y
  show "mset (sort_select le n xs) = mset xs" by (simp add: sort_select_def mset_sort_by)
  assume "total_preorder_on le (set xs)"
    "x \<in> set (take (Suc n) (sort_select le n xs))" "y \<in> set (drop (Suc n) (sort_select le n xs))"
  moreover have "sorted_wrt le (take (Suc n) (sort_by le xs) @ drop (Suc n) (sort_by le xs))"
    using sorted_sort_by calculation(1) by simp
  ultimately show "le x y" unfolding sorted_wrt_append sort_select_def by blast
qed

lemma unstable_select_sort_select: "unstable_select sort_select"
  by (rule sorted_select.unstable_select_axioms)

end
