(* ===== verification/Paths.thy ===== *)
theory Paths
  imports Prelude
begin

text \<open>
  Paths: repository membership (\<open>src/lib.rs\<close>), the canonical repository key and the database
  directory (\<open>src/store/mod.rs\<close>), test-file detection and repository-relative paths
  (\<open>src/parsing/test_paths.rs\<close>) and generated-file detection (\<open>src/parsing/generated.rs\<close>).
  \<open>windows\<close> stands for \<open>cfg!(windows)\<close>, fixed at build time.
\<close>

section \<open>Repository membership\<close>

definition is_sep :: "char \<Rightarrow> bool" where
  "is_sep c \<longleftrightarrow> c = slash \<or> c = backslash"

text \<open>Strip at most one trailing separator.\<close>

definition strip_one_sep :: "str \<Rightarrow> str" where
  "strip_one_sep repo =
     (case strip_suffix repo [slash] of
        Some r \<Rightarrow> r
      | None \<Rightarrow> (case strip_suffix repo [backslash] of Some r \<Rightarrow> r | None \<Rightarrow> repo))"

definition path_in_repo :: "str \<Rightarrow> str \<Rightarrow> bool" where
  "path_in_repo file repo =
     (let r = strip_one_sep repo in
      if file = r then True
      else (case strip_prefix file r of
              Some rest \<Rightarrow> (case rest of c # _ \<Rightarrow> is_sep c | [] \<Rightarrow> False)
            | None \<Rightarrow> False))"

lemma path_in_repo_iff:
  "path_in_repo file repo \<longleftrightarrow>
     file = strip_one_sep repo \<or> (\<exists>c rest. is_sep c \<and> file = strip_one_sep repo @ c # rest)"
proof (cases "strip_prefix file (strip_one_sep repo)")
  case None
  moreover from None have "\<nexists>r. file = strip_one_sep repo @ r" by (simp add: strip_prefix_None)
  ultimately show ?thesis by (auto simp: path_in_repo_def Let_def)
next
  case (Some rest)
  then have "file = strip_one_sep repo @ rest" by (simp add: strip_prefix_Some)
  with Some show ?thesis by (cases rest) (auto simp: path_in_repo_def Let_def)
qed

lemma strip_one_sep_append: "is_sep c \<Longrightarrow> strip_one_sep (r @ [c]) = r"
  by (auto simp: strip_one_sep_def is_sep_def strip_suffix_def ends_with_def)

lemma strip_one_sep_id: "r = [] \<or> \<not> is_sep (last r) \<Longrightarrow> strip_one_sep r = r"
  by (auto simp: strip_one_sep_def is_sep_def strip_suffix_def ends_with_iff)

section \<open>Repository keys\<close>

definition normalize_repo_path :: "bool \<Rightarrow> str \<Rightarrow> str" where
  "normalize_repo_path windows repo =
     (let s = (if windows then to_lowercase (replace_char slash backslash repo)
               else replace_char backslash slash repo)
      in trim_end_matches is_sep s)"

lemma lowercase_sep: "char_to_lowercase slash = slash" "char_to_lowercase backslash = backslash"
  by (simp_all add: slash_def backslash_def str_defs Let_def)

lemma lowercase_not_sep: "char_to_lowercase c = slash \<longleftrightarrow> c = slash"
proof
  assume l: "char_to_lowercase c = slash"
  have "code slash = 47" by (simp add: slash_def code_def)
  moreover have "code (char_to_lowercase c) = code c
      \<or> (code (char_to_lowercase c) = code c + 32 \<and> 65 \<le> code c)"
    by (auto simp: char_to_lowercase_def Let_def char_is_ascii_uppercase_def code_def)
  ultimately have "code c = code slash" using l by auto
  then show "c = slash" by (simp add: code_def)
qed (simp add: lowercase_sep)

lemma to_lowercase_replace:
  "to_lowercase (replace_char slash backslash s) = replace_char slash backslash (to_lowercase s)"
  by (auto simp: to_lowercase_def replace_char_def lowercase_sep lowercase_not_sep)

lemma trim_end_matches_map_id:
  "map f s = s \<Longrightarrow> map f (trim_end_matches P s) = trim_end_matches P s"
proof -
  assume "map f s = s"
  moreover obtain t where "s = trim_end_matches P s @ t"
    using trim_end_matches_decomp [of s P] by blast
  ultimately show ?thesis by (metis (no_types) append_eq_append_conv length_map map_append)
qed

lemma normalize_repo_path_no_sep_last:
  "normalize_repo_path w repo \<noteq> [] \<Longrightarrow> \<not> is_sep (last (normalize_repo_path w repo))"
  by (simp add: normalize_repo_path_def Let_def trim_end_matches_last)

lemma normalize_repo_path_idem [simp]:
  "normalize_repo_path w (normalize_repo_path w repo) = normalize_repo_path w repo"
proof (cases w)
  case True
  let ?s = "to_lowercase (replace_char slash backslash repo)"
  have "replace_char slash backslash ?s = ?s" "to_lowercase ?s = ?s"
    by (metis replace_char_idem to_lowercase_replace) simp
  then have "replace_char slash backslash (trim_end_matches is_sep ?s) = trim_end_matches is_sep ?s"
    "to_lowercase (trim_end_matches is_sep ?s) = trim_end_matches is_sep ?s"
    unfolding replace_char_def to_lowercase_def by (simp_all add: trim_end_matches_map_id)
  with True show ?thesis by (simp add: normalize_repo_path_def Let_def)
next
  case False
  have "replace_char backslash slash (replace_char backslash slash repo)
      = replace_char backslash slash repo" by simp
  then have "replace_char backslash slash (trim_end_matches is_sep (replace_char backslash slash repo))
      = trim_end_matches is_sep (replace_char backslash slash repo)"
    unfolding replace_char_def by (rule trim_end_matches_map_id)
  with False show ?thesis by (simp add: normalize_repo_path_def Let_def)
qed

text \<open>Spelling does not matter: the other separator, letter case on Windows, trailing separators.\<close>

lemma normalize_repo_path_trailing: "is_sep c \<Longrightarrow> normalize_repo_path w (r @ [c]) = normalize_repo_path w r"
proof -
  assume c: "is_sep c"
  then have "is_sep (char_to_lowercase (if c = slash then backslash else c))"
    "is_sep (if c = backslash then slash else c)"
    by (auto simp: is_sep_def lowercase_sep)
  then show ?thesis
    by (simp add: normalize_repo_path_def Let_def trim_end_matches_def replace_char_def to_lowercase_def)
qed

lemma normalize_repo_path_replace:
  "normalize_repo_path w (replace_char backslash slash r) = normalize_repo_path w r"
proof -
  have "slash \<noteq> backslash" by (simp add: slash_def backslash_def)
  then have "replace_char slash backslash (replace_char backslash slash r) = replace_char slash backslash r"
    by (simp add: replace_char_def comp_def)
  then show ?thesis by (simp add: normalize_repo_path_def Let_def)
qed

section \<open>Database directory\<close>

text \<open>
  The name keeps its last 64 bytes. The slice is at a byte offset, so it panics (\<open>None\<close>)
  when the cut falls inside a character: alphanumeric characters outside ASCII are kept.
\<close>

definition trimmed_repo_name :: "str \<Rightarrow> str" where
  "trimmed_repo_name repo_path =
     (let sanitized = map (\<lambda>c. if char_is_alphanumeric c then c else CHR ''_'') repo_path;
          us = (\<lambda>c. c = CHR ''_'')
      in trim_end_matches us (trim_start_matches us sanitized))"

definition sanitize_repo_name :: "str \<Rightarrow> str option" where
  "sanitize_repo_name repo_path =
     (let trimmed = trimmed_repo_name repo_path in
      if 64 < str_len trimmed
      then map_option snd (split_bytes (str_len trimmed - 64) trimmed)
      else Some trimmed)"

definition db_path :: "str \<Rightarrow> str \<Rightarrow> nat \<Rightarrow> str option" where
  "db_path data_dir repo_path generation =
     (case sanitize_repo_name repo_path of
        None \<Rightarrow> None
      | Some name \<Rightarrow>
          (let base = path_join data_dir ''rocksdb'' in
           if generation = 0 then Some (path_join base name)
           else Some (path_join (path_join base (show_nat generation)) name)))"

definition sanitized_char :: "char \<Rightarrow> bool" where
  "sanitized_char c \<longleftrightarrow> char_is_alphanumeric c \<or> c = CHR ''_''"

lemma sanitized_not_sep: "sanitized_char c \<Longrightarrow> c \<noteq> slash \<and> c \<noteq> backslash \<and> c \<noteq> CHR ''.''"
  by (auto simp: sanitized_char_def slash_def backslash_def str_defs Let_def)

lemma set_trim: "set (trim_end_matches P (trim_start_matches Q s)) \<subseteq> set s"
  unfolding trim_end_matches_def trim_start_matches_def
  by (auto dest!: set_dropWhileD)

lemma trimmed_repo_name_chars: "c \<in> set (trimmed_repo_name p) \<Longrightarrow> sanitized_char c"
proof -
  assume "c \<in> set (trimmed_repo_name p)"
  then have "c \<in> set (map (\<lambda>c. if char_is_alphanumeric c then c else CHR ''_'') p)"
    unfolding trimmed_repo_name_def Let_def using set_trim by blast
  then show ?thesis by (auto simp: sanitized_char_def)
qed

lemma sanitize_repo_name_suffix:
  assumes "sanitize_repo_name p = Some n"
  shows "\<exists>a. trimmed_repo_name p = a @ n \<and> str_len a = str_len (trimmed_repo_name p) - 64"
proof (cases "64 < str_len (trimmed_repo_name p)")
  case True
  with assms obtain a where
    "split_bytes (str_len (trimmed_repo_name p) - 64) (trimmed_repo_name p) = Some (a, n)"
    by (auto simp: sanitize_repo_name_def Let_def)
  then show ?thesis using split_bytes_Some by blast
next
  case False
  with assms have "n = trimmed_repo_name p" by (simp add: sanitize_repo_name_def Let_def)
  with False show ?thesis by (intro exI [of _ "[]"]) simp
qed

lemma sanitize_repo_name_chars:
  assumes "sanitize_repo_name p = Some n" "c \<in> set n"
  shows "sanitized_char c"
proof -
  obtain a where "trimmed_repo_name p = a @ n" using sanitize_repo_name_suffix [OF assms(1)] by blast
  with assms(2) have "c \<in> set (trimmed_repo_name p)" by simp
  then show ?thesis by (rule trimmed_repo_name_chars)
qed

lemma sanitize_repo_name_len:
  assumes "sanitize_repo_name p = Some n"
  shows "str_len n \<le> 64"
proof -
  obtain a where a: "trimmed_repo_name p = a @ n" "str_len a = str_len (trimmed_repo_name p) - 64"
    using sanitize_repo_name_suffix [OF assms] by blast
  from a(1) have "str_len (trimmed_repo_name p) = str_len a + str_len n" by simp
  with a(2) show ?thesis by linarith
qed

text \<open>The cut never falls inside a character of an all-ASCII path.\<close>

lemma split_bytes_ascii:
  "\<forall>c \<in> set s. utf8_width c = 1 \<Longrightarrow> n \<le> length s \<Longrightarrow> split_bytes n s = Some (take n s, drop n s)"
  by (induction n s rule: split_bytes.induct) auto

lemma str_len_ascii: "\<forall>c \<in> set s. utf8_width c = 1 \<Longrightarrow> str_len s = length s"
  by (induction s) auto

lemma sanitize_repo_name_ascii:
  assumes "\<forall>c \<in> set p. utf8_width c = 1"
  shows "sanitize_repo_name p \<noteq> None"
proof -
  have us: "utf8_width CHR ''_'' = 1" by (simp add: utf8_width_def code_def)
  have "\<forall>c \<in> set (map (\<lambda>c. if char_is_alphanumeric c then c else CHR ''_'') p). utf8_width c = 1"
    using assms us by auto
  then have a: "\<forall>c \<in> set (trimmed_repo_name p). utf8_width c = 1"
    unfolding trimmed_repo_name_def Let_def using set_trim by blast
  then have "split_bytes (str_len (trimmed_repo_name p) - 64) (trimmed_repo_name p) \<noteq> None"
    by (simp add: split_bytes_ascii str_len_ascii)
  then show ?thesis by (auto simp: sanitize_repo_name_def Let_def)
qed

section \<open>Properties\<close>

lemma common_prefix_nested:
  assumes "f = a @ x" "f = b @ y" "x = [] \<or> is_sep (hd x)" "length a \<le> length b"
  shows "\<exists>z. b = a @ z \<and> (z = [] \<or> is_sep (hd z))"
proof -
  from assms(1,2,4) obtain z where z: "b = a @ z"
    by (metis append_eq_append_conv_if append_take_drop_id)
  with assms(1,2) have "x = z @ y" by simp
  with assms(3) have "z = [] \<or> is_sep (hd z)" by (cases z) auto
  with z show ?thesis by blast
qed

lemma path_in_repo_iff_hd:
  "path_in_repo f repo \<longleftrightarrow> (\<exists>x. f = strip_one_sep repo @ x \<and> (x = [] \<or> is_sep (hd x)))"
proof
  assume "path_in_repo f repo"
  then show "\<exists>x. f = strip_one_sep repo @ x \<and> (x = [] \<or> is_sep (hd x))"
    unfolding path_in_repo_iff by (metis append_Nil2 list.sel(1))
next
  assume "\<exists>x. f = strip_one_sep repo @ x \<and> (x = [] \<or> is_sep (hd x))"
  then obtain x where "f = strip_one_sep repo @ x" "x = [] \<or> is_sep (hd x)" by blast
  then show "path_in_repo f repo" unfolding path_in_repo_iff by (cases x) auto
qed

text \<open>Membership respects path boundaries: a file can belong to two repositories only when
  one of the two roots lies inside the other, never because one root's name is a prefix of the
  other's.\<close>

theorem shared_file_nested_repos:
  assumes "path_in_repo f a" "path_in_repo f b"
  shows "path_in_repo (strip_one_sep a) b \<or> path_in_repo (strip_one_sep b) a"
proof -
  obtain x y where "f = strip_one_sep a @ x" "x = [] \<or> is_sep (hd x)"
    "f = strip_one_sep b @ y" "y = [] \<or> is_sep (hd y)"
    using assms unfolding path_in_repo_iff_hd by blast
  then show ?thesis
    unfolding path_in_repo_iff_hd
    using common_prefix_nested [of f "strip_one_sep a" x "strip_one_sep b" y]
      common_prefix_nested [of f "strip_one_sep b" y "strip_one_sep a" x]
    by (meson linear)
qed

theorem shared_file_nested_repos_witness:
  "path_in_repo (strip_one_sep ''/w/app'') ''/w/'' \<or> path_in_repo (strip_one_sep ''/w/'') ''/w/app''"
  by (rule shared_file_nested_repos [of "''/w/app/m.rs''"])
    (simp_all add: path_in_repo_def strip_one_sep_def is_sep_def str_defs)

lemma path_in_repo_sibling: "\<not> path_in_repo ''/w/app-old/m.rs'' ''/w/app''"
  by (simp add: path_in_repo_def strip_one_sep_def is_sep_def str_defs)

text \<open>The repository key is canonical: computing it again, a trailing separator of either
  kind, or writing the path with the other separator does not change it.\<close>

theorem repo_key_canonical:
  "normalize_repo_path w (normalize_repo_path w r) = normalize_repo_path w r
   \<and> normalize_repo_path w (r @ [slash]) = normalize_repo_path w r
   \<and> normalize_repo_path w (r @ [backslash]) = normalize_repo_path w r
   \<and> normalize_repo_path w (replace_char backslash slash r) = normalize_repo_path w r"
  by (simp add: normalize_repo_path_trailing normalize_repo_path_replace is_sep_def)

text \<open>For every ASCII repository path the directory name of its database exists (the tail
  slice does not panic), takes at most 64 bytes, and holds no separator and no dot, so it can
  not leave the database root.\<close>

theorem sanitize_repo_name_safe:
  assumes "\<forall>c \<in> set p. utf8_width c = 1"
  shows "\<exists>n. sanitize_repo_name p = Some n \<and> str_len n \<le> 64
    \<and> slash \<notin> set n \<and> backslash \<notin> set n \<and> CHR ''.'' \<notin> set n"
proof -
  obtain n where n: "sanitize_repo_name p = Some n" using sanitize_repo_name_ascii [OF assms] by blast
  then have "c \<in> set n \<Longrightarrow> c \<noteq> slash \<and> c \<noteq> backslash \<and> c \<noteq> CHR ''.''" for c
    using sanitize_repo_name_chars sanitized_not_sep by blast
  with n show ?thesis using sanitize_repo_name_len by blast
qed

theorem sanitize_repo_name_safe_witness:
  "\<exists>n. sanitize_repo_name ''/home/../etc'' = Some n \<and> str_len n \<le> 64
    \<and> slash \<notin> set n \<and> backslash \<notin> set n \<and> CHR ''.'' \<notin> set n"
  by (rule sanitize_repo_name_safe) (simp add: utf8_width_def code_def)

text \<open>
  Outside ASCII the slice can fall inside a character, and two repositories can share a name.
\<close>

definition accented_path :: str where
  "accented_path = CHR 0xE9 # replicate 63 CHR ''a''"

lemma sanitize_repo_name_panics: "sanitize_repo_name accented_path = None"
  by code_simp

lemma sanitize_repo_name_collides:
  "sanitize_repo_name ''/w/my-app'' = sanitize_repo_name ''/w/my_app''"
  by code_simp

end
