(* ===== verification/Encoding.thy ===== *)
theory Encoding
  imports Prelude
begin

text \<open>
  Byte encodings of the on-disk formats: little-endian integers, UTF-8 of the modelled
  characters, decimal text, and the \<open>codec\<close> interface under which the component formats are
  proved to read back what they wrote.
\<close>

section \<open>Little-endian integers\<close>

text \<open>\<open>to_le_bytes\<close> and \<open>from_le_bytes\<close> for an integer of \<open>k\<close> bytes.\<close>

fun le_bytes :: "nat \<Rightarrow> nat \<Rightarrow> u8 list" where
  "le_bytes 0 n = []"
| "le_bytes (Suc k) n = of_nat (n mod 256) # le_bytes k (n div 256)"

fun from_le :: "u8 list \<Rightarrow> nat" where
  "from_le [] = 0"
| "from_le (b # bs) = unat b + 256 * from_le bs"

lemma length_le_bytes [simp]: "length (le_bytes k n) = k"
  by (induction k arbitrary: n) auto

lemma unat_u8: "n < 256 \<Longrightarrow> unat (of_nat n :: u8) = n"
  by (simp add: unat_of_nat)

lemma unat_byte: "unat (of_nat (n mod 256) :: u8) = n mod 256"
  by (simp add: unat_of_nat)

lemma from_le_bytes: "from_le (le_bytes k n) = n mod 256 ^ k"
proof (induction k arbitrary: n)
  case 0
  then show ?case by simp
next
  case (Suc k)
  have "n mod (256 * 256 ^ k) = 256 * (n div 256 mod 256 ^ k) + n mod 256"
    by (rule mod_mult2_eq)
  with Suc show ?case by (simp add: unat_byte)
qed

lemma from_le_bytes_less: "n < 256 ^ k \<Longrightarrow> from_le (le_bytes k n) = n"
  by (simp add: from_le_bytes)

lemma from_le_less: "from_le bs < 256 ^ length bs"
proof (induction bs)
  case (Cons b bs)
  have "unat b < 256" using unsigned_less [of b] by simp
  with Cons show ?case by simp
qed simp

lemma le_bytes_from: "le_bytes (length bs) (from_le bs) = bs"
proof (induction bs)
  case (Cons b bs)
  have b: "unat b < 256" using unsigned_less [of b] by simp
  then have "(unat b + 256 * from_le bs) mod 256 = unat b" "(unat b + 256 * from_le bs) div 256 = from_le bs"
    by simp_all
  with Cons show ?case by simp
qed simp

definition u32_le :: "u32 \<Rightarrow> u8 list" where
  "u32_le w = le_bytes 4 (unat w)"

definition u32_from_le :: "u8 list \<Rightarrow> u32" where
  "u32_from_le bs = of_nat (from_le bs)"

lemma length_u32_le [simp]: "length (u32_le w) = 4"
  by (simp add: u32_le_def)

lemma u32_from_u32_le [simp]: "u32_from_le (u32_le w) = w"
proof -
  have "unat w < 256 ^ 4" using unsigned_less [of w] by simp
  then show ?thesis by (simp add: u32_from_le_def u32_le_def from_le_bytes_less)
qed

text \<open>\<open>bytemuck::cast_slice\<close> between 32-bit patterns and bytes on a little-endian machine.\<close>

fun words_of_bytes :: "u8 list \<Rightarrow> u32 list" where
  "words_of_bytes (a # b # c # d # r) = u32_from_le [a, b, c, d] # words_of_bytes r"
| "words_of_bytes _ = []"

definition bytes_of_words :: "u32 list \<Rightarrow> u8 list" where
  "bytes_of_words ws = concat (map u32_le ws)"

lemma length_bytes_of_words [simp]: "length (bytes_of_words ws) = 4 * length ws"
  by (induction ws) (auto simp: bytes_of_words_def)

lemma words_of_u32_le: "words_of_bytes (u32_le w @ r) = w # words_of_bytes r"
proof -
  have "(4 :: nat) = Suc (Suc (Suc (Suc 0)))" by simp
  then obtain a b c d where e: "u32_le w = [a, b, c, d]"
    unfolding u32_le_def by (simp only: le_bytes.simps)
  then have "u32_from_le [a, b, c, d] = w" by (metis u32_from_u32_le)
  with e show ?thesis by simp
qed

lemma words_of_bytes_of_words [simp]: "words_of_bytes (bytes_of_words ws) = ws"
  by (induction ws) (auto simp: bytes_of_words_def words_of_u32_le)

lemma length_words_of_bytes [simp]: "length (words_of_bytes bs) = length bs div 4"
  by (induction bs rule: words_of_bytes.induct) auto

section \<open>UTF-8\<close>

definition utf8_char :: "char \<Rightarrow> u8 list" where
  "utf8_char c =
     (let n = code c in
      if n < 128 then [of_nat n] else [of_nat (192 + n div 64), of_nat (128 + n mod 64)])"

definition as_bytes :: "str \<Rightarrow> u8 list" where
  "as_bytes s = concat (map utf8_char s)"

text \<open>
  \<open>String::from_utf8\<close> on the modelled characters; \<open>None\<close> for an error (and for the
  well-formed sequences of characters outside the model).
\<close>

fun from_utf8 :: "u8 list \<Rightarrow> str option" where
  "from_utf8 [] = Some []"
| "from_utf8 (b # bs) =
     (if b < 128 then map_option (Cons (char_of (unat b))) (from_utf8 bs)
      else
        (case bs of
           [] \<Rightarrow> None
         | b2 # bs' \<Rightarrow>
             if (b = 194 \<or> b = 195) \<and> 128 \<le> b2 \<and> b2 < 192
             then map_option (Cons (char_of ((unat b - 192) * 64 + (unat b2 - 128)))) (from_utf8 bs')
             else None))"

lemma code_less: "code c < 256"
  by (simp add: code_def)

lemma char_of_code [simp]: "char_of (code c) = c"
  by (simp add: code_def)

lemma from_utf8_char: "from_utf8 (utf8_char c @ r) = map_option (Cons c) (from_utf8 r)"
proof (cases "code c < 128")
  case True
  then have "unat (of_nat (code c) :: u8) = code c" by (simp add: unat_of_nat)
  moreover from this True have "(of_nat (code c) :: u8) < 128" by (simp add: word_less_nat_alt)
  ultimately show ?thesis using True by (simp add: utf8_char_def Let_def)
next
  case False
  let ?n = "code c"
  have n: "128 \<le> ?n" "?n < 256" using False code_less [of c] by auto
  then have "?n div 64 = 2 \<or> ?n div 64 = 3" by linarith
  then have d: "(of_nat (192 + ?n div 64) :: u8) = 194 \<or> (of_nat (192 + ?n div 64) :: u8) = 195" by auto
  have u: "unat (of_nat (192 + ?n div 64) :: u8) = 192 + ?n div 64" by (rule unat_u8) (use n in linarith)
  have v: "unat (of_nat (128 + ?n mod 64) :: u8) = 128 + ?n mod 64" by (rule unat_u8) linarith
  have l: "\<not> (of_nat (192 + ?n div 64) :: u8) < 128"
    using u by (simp only: word_less_nat_alt) simp
  have m: "128 \<le> (of_nat (128 + ?n mod 64) :: u8)" "(of_nat (128 + ?n mod 64) :: u8) < 192"
    using v by (simp_all only: word_less_nat_alt word_le_nat_alt) simp_all
  have "(192 + ?n div 64 - 192) * 64 + (128 + ?n mod 64 - 128) = ?n" by simp
  then have "char_of ((unat (of_nat (192 + ?n div 64) :: u8) - 192) * 64
      + (unat (of_nat (128 + ?n mod 64) :: u8) - 128)) = c"
    by (simp only: u v char_of_code)
  then show ?thesis using False d l m
    by (simp only: utf8_char_def Let_def append_Cons append_Nil from_utf8.simps if_False if_True
        list.case simp_thms)
qed

lemma from_utf8_as_bytes [simp]: "from_utf8 (as_bytes s) = Some s"
  by (induction s) (auto simp: as_bytes_def from_utf8_char)

lemma length_as_bytes [simp]: "length (as_bytes s) = str_len s"
  by (induction s) (auto simp: as_bytes_def utf8_char_def utf8_width_def Let_def)

section \<open>Decimal text\<close>

definition digit_of :: "char \<Rightarrow> nat option" where
  "digit_of c = (if 48 \<le> code c \<and> code c \<le> 57 then Some (code c - 48) else None)"

fun digits_value :: "nat \<Rightarrow> str \<Rightarrow> nat option" where
  "digits_value acc [] = Some acc"
| "digits_value acc (c # cs) =
     (case digit_of c of None \<Rightarrow> None | Some d \<Rightarrow> digits_value (10 * acc + d) cs)"

text \<open>\<open>str::parse::<u64>\<close>: an optional plus sign, at least one digit, no overflow.\<close>

definition parse_u64 :: "str \<Rightarrow> nat option" where
  "parse_u64 s =
     (let ds = (case strip_prefix s ''+'' of Some r \<Rightarrow> r | None \<Rightarrow> s) in
      if ds = [] then None
      else (case digits_value 0 ds of
              Some n \<Rightarrow> if n < 2 ^ 64 then Some n else None
            | None \<Rightarrow> None))"

lemma digits_value_append:
  "digits_value acc (a @ b) = (case digits_value acc a of None \<Rightarrow> None | Some n \<Rightarrow> digits_value n b)"
  by (induction acc a rule: digits_value.induct) (auto split: option.splits)

lemma code_digit: "d < 10 \<Longrightarrow> code (char_of (48 + d)) = 48 + d"
  by (simp add: code_def)

lemma digits_value_show_nat: "digits_value 0 (show_nat n) = Some n"
proof (induction n rule: show_nat.induct)
  case (1 n)
  show ?case
  proof (cases "n < 10")
    case True
    then show ?thesis by (subst show_nat.simps) (simp add: digit_of_def code_digit)
  next
    case False
    have "digits_value (n div 10) [char_of (48 + n mod 10)] = Some n"
      by (simp add: digit_of_def code_digit)
    with False 1 show ?thesis by (subst show_nat.simps) (simp add: digits_value_append)
  qed
qed

lemma show_nat_digits: "c \<in> set (show_nat n) \<Longrightarrow> 48 \<le> code c \<and> code c \<le> 57"
proof (induction n rule: show_nat.induct)
  case (1 n)
  have a: "\<And>d :: nat. d < 10 \<Longrightarrow> 48 \<le> code (char_of (48 + d)) \<and> code (char_of (48 + d)) \<le> 57"
    by (simp add: code_digit)
  show ?case
  proof (cases "n < 10")
    case True
    with "1.prems" a [of n] show ?thesis by (subst (asm) show_nat.simps) simp
  next
    case False
    with "1.prems" have "c \<in> set (show_nat (n div 10)) \<or> c = char_of (48 + n mod 10)"
      by (subst (asm) show_nat.simps) auto
    then show ?thesis using "1.IH" False a [of "n mod 10"] by auto
  qed
qed

lemma show_nat_not_Nil [simp]: "show_nat n \<noteq> []"
  by (subst show_nat.simps) simp

lemma parse_show_nat: "n < 2 ^ 64 \<Longrightarrow> parse_u64 (show_nat n) = Some n"
proof -
  assume n: "n < 2 ^ 64"
  have "CHR ''+'' \<notin> set (show_nat n)" using show_nat_digits [of "CHR ''+''" n] by (auto simp: code_def)
  then have "strip_prefix (show_nat n) ''+'' = None"
    by (auto simp: strip_prefix_None)
  with n show ?thesis by (simp add: parse_u64_def digits_value_show_nat)
qed

lemma trim_show_nat [simp]: "trim (show_nat n) = show_nat n"
proof -
  have ws: "c \<in> set (show_nat n) \<Longrightarrow> \<not> char_is_whitespace c" for c
    using show_nat_digits [of c n] by (auto simp: char_is_whitespace_def Let_def)
  have id: "\<forall>c \<in> set s. \<not> P c \<Longrightarrow> dropWhile P s = s" for P :: "char \<Rightarrow> bool" and s
    by (cases s) auto
  have "dropWhile char_is_whitespace (show_nat n) = show_nat n"
    "dropWhile char_is_whitespace (rev (show_nat n)) = rev (show_nat n)"
    using ws by (auto intro!: id)
  then show ?thesis by (simp add: trim_def trim_start_matches_def trim_end_matches_def)
qed

section \<open>Self-delimiting encodings\<close>

text \<open>
  The contract of a record format: decoding reads back one encoded value and leaves the rest of
  the buffer. A sequence of records written one after the other then reads back too.
\<close>

fun decode_n :: "(u8 list \<Rightarrow> ('a \<times> u8 list) option) \<Rightarrow> nat \<Rightarrow> u8 list \<Rightarrow> 'a list option" where
  "decode_n dec 0 buf = Some []"
| "decode_n dec (Suc n) buf =
     (case dec buf of
        None \<Rightarrow> None
      | Some (x, rest) \<Rightarrow> map_option (Cons x) (decode_n dec n rest))"

locale codec =
  fixes enc :: "'a \<Rightarrow> u8 list"
    and dec :: "u8 list \<Rightarrow> ('a \<times> u8 list) option"
    and representable :: "'a \<Rightarrow> bool"
  assumes dec_enc: "representable x \<Longrightarrow> dec (enc x @ rest) = Some (x, rest)"
begin

lemma decode_all:
  "\<forall>x \<in> set xs. representable x \<Longrightarrow>
     decode_n dec (length xs) (concat (map enc xs) @ rest) = Some xs"
  by (induction xs) (auto simp: dec_enc)

lemma enc_inj: "representable x \<Longrightarrow> representable y \<Longrightarrow> enc x = enc y \<Longrightarrow> x = y"
  using dec_enc [of x "[]"] dec_enc [of y "[]"] by simp

end

end
