(* ===== verification/Vector_Index.thy ===== *)
theory Vector_Index
  imports F32 Scope Topk Paths Encoding
begin

text \<open>
  One vector shard (\<open>src/vector/mod.rs\<close>): flat row-major storage on the heap or in a mapped
  file, the parallel arrays of chunk ids and extension ids, insertion, the three removals,
  merging, and the scoped search. The sort and the selection of the standard library are
  arguments of the search.
\<close>

record chunk_id =
  ci_file :: str
  ci_line_start :: u32
  ci_line_end :: u32

record search_result =
  sr_chunk_id :: chunk_id
  sr_score :: f32

datatype embedding_store = Ram "f32 list" | Mmap "u8 list" nat nat

text \<open>The map's payload is cast from bytes; the offset and the length are in bounds (\<open>wf\<close>).\<close>

fun as_slice :: "embedding_store \<Rightarrow> f32 list" where
  "as_slice (Ram v) = v"
| "as_slice (Mmap m f32_off f32_len) = words_of_bytes (take (f32_len * 4) (drop f32_off m))"

text \<open>\<open>ram_mut\<close>: a mapped store is copied to the heap before it is changed.\<close>

definition ram_mut :: "embedding_store \<Rightarrow> f32 list" where
  "ram_mut s = as_slice s"

record vindex =
  store :: embedding_store
  chunk_ids :: "chunk_id list"
  ext_ids :: "u16 list"
  exts :: ext_table
  dim :: nat

definition vindex_new :: vindex where
  "vindex_new = \<lparr>store = Ram [], chunk_ids = [], ext_ids = [], exts = ext_table_default, dim = 0\<rparr>"

definition vindex_len :: "vindex \<Rightarrow> nat" where
  "vindex_len vi = length (chunk_ids vi)"

definition vindex_is_empty :: "vindex \<Rightarrow> bool" where
  "vindex_is_empty vi = (chunk_ids vi = [])"

section \<open>Vectors\<close>

definition dot_product :: "f32 list \<Rightarrow> f32 list \<Rightarrow> f32" where
  "dot_product a b = f32_sum (map (\<lambda>(x, y). f32_mul x y) (zip a b))"

definition l2_normalize :: "f32 list \<Rightarrow> f32 list" where
  "l2_normalize v =
     (let mag = f32_sqrt (f32_sum (map (\<lambda>x. f32_mul x x) v)) in
      if f32_zero mag then v else map (\<lambda>x. f32_div x mag) v)"

lemma length_l2_normalize [simp]: "length (l2_normalize v) = length v"
  by (simp add: l2_normalize_def Let_def)

section \<open>Insertion\<close>

definition insert_one :: "vindex \<Rightarrow> chunk_id \<times> f32 list \<Rightarrow> vindex" where
  "insert_one vi c =
     (let i = fst c; raw_emb = snd c in
      if raw_emb = [] then vi
      else if dim vi \<noteq> 0 \<and> dim vi \<noteq> length raw_emb then vi
      else
        (let e = intern_path (ci_file i) (exts vi)
         in vi\<lparr>store := Ram (ram_mut (store vi) @ l2_normalize raw_emb),
               chunk_ids := chunk_ids vi @ [i],
               ext_ids := ext_ids vi @ [fst e],
               exts := snd e,
               dim := length raw_emb\<rparr>))"

definition vindex_insert :: "vindex \<Rightarrow> (chunk_id \<times> f32 list) list \<Rightarrow> vindex" where
  "vindex_insert vi chunks = foldl insert_one vi chunks"

section \<open>Removal\<close>

text \<open>\<open>copy_within(a..b, d)\<close> on a slice; \<open>swap\<close> and \<open>swap_remove\<close> of a vector.\<close>

definition copy_within :: "'a list \<Rightarrow> nat \<Rightarrow> nat \<Rightarrow> nat \<Rightarrow> 'a list" where
  "copy_within xs a b d = take d xs @ take (b - a) (drop a xs) @ drop (d + (b - a)) xs"

definition swap :: "'a list \<Rightarrow> nat \<Rightarrow> nat \<Rightarrow> 'a list" where
  "swap xs i j = xs[i := xs ! j, j := xs ! i]"

definition swap_remove :: "'a list \<Rightarrow> nat \<Rightarrow> 'a list" where
  "swap_remove xs i = butlast (xs[i := last xs])"

text \<open>The compaction loop over the read positions; the result is the final write position and
  the three arrays.\<close>

fun compact ::
  "(str \<Rightarrow> bool) \<Rightarrow> nat \<Rightarrow> nat list \<Rightarrow> nat \<times> f32 list \<times> chunk_id list \<times> u16 list
     \<Rightarrow> nat \<times> f32 list \<times> chunk_id list \<times> u16 list" where
  "compact drop_file d [] st = st"
| "compact drop_file d (read # reads) (write, emb, cids, eids) =
     (if drop_file (ci_file (cids ! read)) then compact drop_file d reads (write, emb, cids, eids)
      else if write \<noteq> read then
        compact drop_file d reads
          (write + 1, copy_within emb (read * d) ((read + 1) * d) (write * d),
           swap cids write read, swap eids write read)
      else compact drop_file d reads (write + 1, emb, cids, eids))"

definition remove_files :: "vindex \<Rightarrow> str set \<Rightarrow> vindex" where
  "remove_files vi files =
     (if files = {} \<or> \<not> list_ex (\<lambda>c. ci_file c \<in> files) (chunk_ids vi) then vi
      else
        (case compact (\<lambda>f. f \<in> files) (dim vi) [0..<length (chunk_ids vi)]
                (0, ram_mut (store vi), chunk_ids vi, ext_ids vi) of
           (write, emb, cids, eids) \<Rightarrow>
             vi\<lparr>store := Ram (take (write * dim vi) emb),
                chunk_ids := take write cids,
                ext_ids := take write eids,
                dim := (if take write cids = [] then 0 else dim vi)\<rparr>))"

text \<open>The swap-remove loop of \<open>remove_file\<close> and \<open>remove_repo\<close>.\<close>

function remove_loop ::
  "(str \<Rightarrow> bool) \<Rightarrow> nat \<Rightarrow> nat \<Rightarrow> f32 list \<times> chunk_id list \<times> u16 list
     \<Rightarrow> f32 list \<times> chunk_id list \<times> u16 list" where
  "remove_loop drop_file d i (emb, cids, eids) =
     (if i < length cids then
        (if drop_file (ci_file (cids ! i)) then
           (let cids' = swap_remove cids i;
                lst = length cids';
                emb' = (if i < lst then copy_within emb (lst * d) (lst * d + d) (i * d) else emb)
            in remove_loop drop_file d i (take (lst * d) emb', cids', swap_remove eids i))
         else remove_loop drop_file d (i + 1) (emb, cids, eids))
      else (emb, cids, eids))"
  by pat_completeness auto
termination
  by (relation "measure (\<lambda>(_, _, i, (_, cids, _)). length cids - i)") (auto simp: swap_remove_def)

declare remove_loop.simps [simp del]

definition remove_where :: "vindex \<Rightarrow> (str \<Rightarrow> bool) \<Rightarrow> vindex" where
  "remove_where vi drop_file =
     (case remove_loop drop_file (dim vi) 0 (ram_mut (store vi), chunk_ids vi, ext_ids vi) of
        (emb, cids, eids) \<Rightarrow>
          vi\<lparr>store := Ram emb, chunk_ids := cids, ext_ids := eids,
             dim := (if cids = [] then 0 else dim vi)\<rparr>)"

definition remove_file :: "vindex \<Rightarrow> str \<Rightarrow> vindex" where
  "remove_file vi fl = remove_where vi (\<lambda>f. f = fl)"

definition remove_repo :: "vindex \<Rightarrow> str \<Rightarrow> vindex" where
  "remove_repo vi repo = remove_where vi (\<lambda>f. path_in_repo f repo)"

section \<open>Merging\<close>

fun intern_all :: "str list \<Rightarrow> ext_table \<Rightarrow> u16 list \<times> ext_table" where
  "intern_all [] t = ([], t)"
| "intern_all (n # ns) t =
     (let e = intern n t; r = intern_all ns (snd e) in (fst e # fst r, snd r))"

definition merge :: "vindex \<Rightarrow> vindex \<Rightarrow> vindex" where
  "merge vi other =
     (if vindex_is_empty other then vi
      else if dim vi \<noteq> 0 \<and> dim vi \<noteq> dim other then vi
      else
        (let r = intern_all (tbl_names (exts other)) (exts vi);
             remap = fst r;
             lookup = (\<lambda>i. if unat i < length remap then remap ! unat i else EXT_SENTINEL)
         in vi\<lparr>store := Ram (ram_mut (store vi) @ as_slice (store other)),
               ext_ids := ext_ids vi @ map lookup (ext_ids other),
               exts := snd r,
               chunk_ids := chunk_ids vi @ chunk_ids other,
               dim := dim other\<rparr>))"

section \<open>Search\<close>

definition scored_rows :: "vindex \<Rightarrow> f32 list \<Rightarrow> scope_filter option \<Rightarrow> (nat \<times> f32) list" where
  "scored_rows vi q_norm sf =
     (let rows = enumerate 0 (chunks_of (dim vi) (as_slice (store vi))) in
      case sf of
        None \<Rightarrow> map (\<lambda>(i, row). (i, dot_product q_norm row)) rows
      | Some f \<Rightarrow>
          (let keep = keep_table f (exts vi); unknown = keeps_unknown f in
           List.map_filter
             (\<lambda>(i, row).
                let e = unat (ext_ids vi ! i)
                in if (if e < length keep then keep ! e else unknown)
                   then Some (i, dot_product q_norm row) else None) rows))"

definition search_filtered ::
  "((nat \<times> f32 \<Rightarrow> nat \<times> f32 \<Rightarrow> bool) \<Rightarrow> nat \<Rightarrow> (nat \<times> f32) list \<Rightarrow> (nat \<times> f32) list) \<Rightarrow>
   ((nat \<times> f32 \<Rightarrow> nat \<times> f32 \<Rightarrow> bool) \<Rightarrow> (nat \<times> f32) list \<Rightarrow> (nat \<times> f32) list) \<Rightarrow>
   vindex \<Rightarrow> f32 list \<Rightarrow> nat \<Rightarrow> scope_filter option \<Rightarrow> search_result list" where
  "search_filtered sel srt vi query topk sf =
     (if vindex_is_empty vi \<or> query = [] \<or> topk = 0 \<or> dim vi = 0 then []
      else
        (let scored = scored_rows vi (l2_normalize query) sf;
             le = (\<lambda>a b. f32_desc (snd a) (snd b))
         in if scored = [] then []
            else
              (let k = min topk (length scored)
               in map (\<lambda>(i, score). \<lparr>sr_chunk_id = chunk_ids vi ! i, sr_score = score\<rparr>)
                    (srt le (take k (sel le (k - 1) scored))))))"

definition vindex_clear :: "vindex \<Rightarrow> vindex" where
  "vindex_clear vi = vindex_new"

definition byte_size :: "vindex \<Rightarrow> nat" where
  "byte_size vi =
     (case store vi of
        Ram v \<Rightarrow> length v * 4
      | Mmap m off len \<Rightarrow>
          sum_list (map (\<lambda>c. str_len (ci_file c) + 32) (chunk_ids vi)) + length (ext_ids vi) * 2)"

definition raw_parts :: "vindex \<Rightarrow> f32 list \<times> chunk_id list \<times> nat" where
  "raw_parts vi = (as_slice (store vi), chunk_ids vi, dim vi)"

definition from_mmap :: "u8 list \<Rightarrow> nat \<Rightarrow> nat \<Rightarrow> nat \<Rightarrow> chunk_id list \<Rightarrow> vindex" where
  "from_mmap m f32_off f32_len d cids =
     (let r = intern_all (map (\<lambda>c. ext_key (ci_file c)) cids) ext_table_default
      in \<lparr>store = Mmap m f32_off f32_len, chunk_ids = cids, ext_ids = fst r, exts = snd r, dim = d\<rparr>)"

definition is_mmap :: "vindex \<Rightarrow> bool" where
  "is_mmap vi = (case store vi of Mmap _ _ _ \<Rightarrow> True | Ram _ \<Rightarrow> False)"

section \<open>Rows\<close>

text \<open>The abstract content of a shard: its rows in order.\<close>

type_synonym row = "chunk_id \<times> u16 \<times> f32 list"

definition rows :: "vindex \<Rightarrow> row list" where
  "rows vi = zip (chunk_ids vi) (zip (ext_ids vi) (chunks_of (dim vi) (as_slice (store vi))))"

definition row_right :: "ext_table \<Rightarrow> row \<Rightarrow> bool" where
  "row_right t r \<longleftrightarrow> id_right t (ext_key (ci_file (fst r))) (fst (snd r))"

text \<open>The three arrays in lockstep, whole rows, a dimension exactly when there are rows, and
  every extension id the one of its file.\<close>

definition vindex_ok :: "vindex \<Rightarrow> bool" where
  "vindex_ok vi \<longleftrightarrow>
     length (ext_ids vi) = length (chunk_ids vi)
     \<and> length (as_slice (store vi)) = length (chunk_ids vi) * dim vi
     \<and> (dim vi = 0 \<longleftrightarrow> chunk_ids vi = [])
     \<and> ext_table_ok (exts vi)
     \<and> (\<forall>r \<in> set (rows vi). row_right (exts vi) r)"

lemma chunks_of_concat:
  "0 < d \<Longrightarrow> \<forall>r \<in> set R. length r = d \<Longrightarrow> chunks_of d (concat R) = R"
proof (induction R)
  case Nil
  then show ?case by (subst chunks_of.simps) simp
next
  case (Cons r R)
  then have "r @ concat R \<noteq> []" by auto
  with Cons show ?case by (subst chunks_of.simps) simp
qed

lemma chunks_of_rows: "length xs = n * d \<Longrightarrow> 0 < d \<Longrightarrow> r \<in> set (chunks_of d xs) \<Longrightarrow> length r = d"
proof (induction n arbitrary: xs)
  case 0
  then show ?case by (subst (asm) chunks_of.simps) simp
next
  case (Suc n)
  have "r = take d xs \<or> r \<in> set (chunks_of d (drop d xs))"
    using Suc.prems(3) by (subst (asm) chunks_of.simps) (auto split: if_splits)
  moreover have "length (drop d xs) = n * d" "length (take d xs) = d" using Suc.prems by auto
  ultimately show ?case using Suc.IH Suc.prems(2) by blast
qed

lemma length_concat_rows: "\<forall>r \<in> set R. length r = d \<Longrightarrow> length (concat R) = length R * d"
  by (induction R) auto

lemma length_chunks_of: "length xs = n * d \<Longrightarrow> 0 < d \<Longrightarrow> length (chunks_of d xs) = n"
proof -
  assume l: "length xs = n * d" and d: "0 < d"
  have "length (concat (chunks_of d xs)) = length (chunks_of d xs) * d"
    by (rule length_concat_rows) (use chunks_of_rows [OF l d] in blast)
  then show ?thesis using l d by (simp add: concat_chunks_of)
qed

text \<open>\<open>shaped d R\<close>: the storage is the rows \<open>R\<close>, one after the other.\<close>

definition shaped :: "nat \<Rightarrow> 'a list list \<Rightarrow> bool" where
  "shaped d R \<longleftrightarrow> (\<forall>r \<in> set R. length r = d)"

lemma take_concat: "shaped d R \<Longrightarrow> take (k * d) (concat R) = concat (take k R)"
proof (induction R arbitrary: k)
  case (Cons r R)
  then show ?case by (cases k) (auto simp: shaped_def)
qed simp

lemma drop_concat: "shaped d R \<Longrightarrow> drop (k * d) (concat R) = concat (drop k R)"
proof (induction R arbitrary: k)
  case (Cons r R)
  then show ?case by (cases k) (auto simp: shaped_def)
qed simp

lemma copy_within_rows:
  assumes "shaped d R" "r < length R" "w < length R"
  shows "copy_within (concat R) (r * d) (r * d + d) (w * d) = concat (R[w := R ! r])"
proof -
  have "take d (drop (r * d) (concat R)) = R ! r"
  proof -
    have "drop r R = R ! r # drop (Suc r) R" using assms(2) by (simp add: Cons_nth_drop_Suc)
    moreover have "length (R ! r) = d" using assms by (simp add: shaped_def)
    ultimately show ?thesis using assms(1) by (simp add: drop_concat)
  qed
  moreover have "drop (w * d + d) (concat R) = concat (drop (Suc w) R)"
    using drop_concat [OF assms(1), of "Suc w"] by (simp add: add.commute)
  ultimately show ?thesis using assms
    by (simp add: copy_within_def take_concat upd_conv_take_nth_drop)
qed

lemma shaped_update: "shaped d R \<Longrightarrow> r < length R \<Longrightarrow> shaped d (R[w := R ! r])"
  unfolding shaped_def by (metis in_set_conv_nth length_list_update nth_list_update nth_list_update_neq)

text \<open>A shard as its three row lists.\<close>

definition repr :: "vindex \<Rightarrow> f32 list list \<Rightarrow> bool" where
  "repr vi R \<longleftrightarrow> as_slice (store vi) = concat R \<and> shaped (dim vi) R
     \<and> length R = length (chunk_ids vi) \<and> length (ext_ids vi) = length (chunk_ids vi)
     \<and> (dim vi = 0 \<longleftrightarrow> chunk_ids vi = [])"

lemma repr_rows: "repr vi R \<Longrightarrow> rows vi = zip (chunk_ids vi) (zip (ext_ids vi) R)"
proof (cases "dim vi = 0")
  case True
  assume "repr vi R"
  with True show ?thesis by (simp add: repr_def rows_def)
next
  case False
  assume "repr vi R"
  with False show ?thesis by (simp add: repr_def rows_def shaped_def chunks_of_concat)
qed

lemma repr_ok:
  "repr vi R \<Longrightarrow> ext_table_ok (exts vi) \<Longrightarrow>
   (\<forall>r \<in> set (zip (chunk_ids vi) (zip (ext_ids vi) R)). row_right (exts vi) r) \<Longrightarrow> vindex_ok vi"
proof -
  assume r: "repr vi R" "ext_table_ok (exts vi)"
    "\<forall>r \<in> set (zip (chunk_ids vi) (zip (ext_ids vi) R)). row_right (exts vi) r"
  then have "length (concat R) = length R * dim vi"
    by (intro length_concat_rows) (simp add: repr_def shaped_def)
  moreover have "\<forall>r \<in> set (rows vi). row_right (exts vi) r" using r by (simp only: repr_rows [OF r(1)])
  ultimately show ?thesis using r(1,2) by (simp add: vindex_ok_def repr_def)
qed

lemma repr_ok_rows:
  "repr vi R \<Longrightarrow> ext_table_ok (exts vi) \<Longrightarrow> (\<forall>r \<in> set (rows vi). row_right (exts vi) r) \<Longrightarrow> vindex_ok vi"
  using repr_ok by (simp add: repr_rows)

lemma ok_repr:
  assumes "vindex_ok vi"
  shows "repr vi (chunks_of (dim vi) (as_slice (store vi)))"
proof (cases "dim vi = 0")
  case True
  with assms show ?thesis by (simp add: repr_def vindex_ok_def shaped_def chunks_of.simps)
next
  case False
  with assms have l: "length (as_slice (store vi)) = length (chunk_ids vi) * dim vi"
    by (simp add: vindex_ok_def)
  with False assms show ?thesis
    using chunks_of_rows [OF l] length_chunks_of [OF l]
    by (auto simp: repr_def vindex_ok_def shaped_def concat_chunks_of)
qed

lemma vindex_new_ok [simp]: "vindex_ok vindex_new"
  by (simp add: vindex_ok_def vindex_new_def rows_def)

lemma rows_new [simp]: "rows vindex_new = []"
  by (simp add: rows_def vindex_new_def)

lemma rows_Nil_iff: "vindex_ok vi \<Longrightarrow> rows vi = [] \<longleftrightarrow> vindex_is_empty vi"
proof -
  assume "vindex_ok vi"
  note r = ok_repr [OF this]
  then show ?thesis unfolding repr_rows [OF r] by (auto simp: vindex_is_empty_def repr_def)
qed

lemma length_rows: "vindex_ok vi \<Longrightarrow> length (rows vi) = vindex_len vi"
proof -
  assume "vindex_ok vi"
  note r = ok_repr [OF this]
  then show ?thesis unfolding repr_rows [OF r] by (simp add: vindex_len_def repr_def)
qed

section \<open>Insertion appends rows\<close>

text \<open>What insertion adds: the non-empty vectors of the shard's dimension, normalized.\<close>

definition accepted :: "nat \<Rightarrow> chunk_id \<times> f32 list \<Rightarrow> bool" where
  "accepted d c \<longleftrightarrow> snd c \<noteq> [] \<and> (d = 0 \<or> length (snd c) = d)"

lemma insert_one_rejected: "\<not> accepted (dim vi) c \<Longrightarrow> insert_one vi c = vi"
  by (auto simp: insert_one_def accepted_def Let_def)

lemma row_right_grows: "row_right t r \<Longrightarrow> grows t t' \<Longrightarrow> ext_table_ok t' \<Longrightarrow> row_right t' r"
  unfolding row_right_def by (rule id_right_grows)

lemma insert_one_accepted:
  assumes ok: "vindex_ok vi" and acc: "accepted (dim vi) c"
  shows "vindex_ok (insert_one vi c)
    \<and> (\<exists>e. rows (insert_one vi c) = rows vi @ [(fst c, e, l2_normalize (snd c))])
    \<and> grows (exts vi) (exts (insert_one vi c)) \<and> dim (insert_one vi c) = length (snd c)"
proof -
  obtain i raw where c: "c = (i, raw)" by (cases c)
  obtain e t where it: "intern_path (ci_file i) (exts vi) = (e, t)"
    by (cases "intern_path (ci_file i) (exts vi)")
  define R where "R = chunks_of (dim vi) (as_slice (store vi))"
  have r: "repr vi R" unfolding R_def by (rule ok_repr [OF ok])
  have raw: "raw \<noteq> []" "dim vi = 0 \<or> dim vi = length raw" using acc c by (auto simp: accepted_def)
  define vi' where "vi' = insert_one vi c"
  have vi': "vi' = vi\<lparr>store := Ram (as_slice (store vi) @ l2_normalize raw),
      chunk_ids := chunk_ids vi @ [i], ext_ids := ext_ids vi @ [e], exts := t, dim := length raw\<rparr>"
    using raw it c by (auto simp: vi'_def insert_one_def Let_def ram_mut_def)
  have t: "ext_table_ok t" "grows (exts vi) t" "id_right t (ext_key (ci_file i)) e"
    using ok it intern_spec [of "exts vi" "ext_key (ci_file i)" e t]
    by (auto simp: vindex_ok_def intern_path_def)
  have R0: "dim vi = 0 \<Longrightarrow> R = []" using r by (auto simp: repr_def)
  have r': "repr vi' (R @ [l2_normalize raw])"
    using r raw R0 by (auto simp: repr_def vi' shaped_def)
  have z: "zip (chunk_ids vi') (zip (ext_ids vi') (R @ [l2_normalize raw]))
      = zip (chunk_ids vi) (zip (ext_ids vi) R) @ [(i, e, l2_normalize raw)]"
    using r by (simp add: vi' repr_def)
  have "\<forall>x \<in> set (rows vi). row_right t x"
    using ok t row_right_grows unfolding vindex_ok_def by blast
  then have "vindex_ok vi'"
    using r' t z repr_rows [OF r]
    by (intro repr_ok [OF r']) (auto simp: vi' row_right_def)
  moreover have "rows vi' = rows vi @ [(i, e, l2_normalize raw)]"
    using repr_rows [OF r'] repr_rows [OF r] z by simp
  moreover have "exts vi' = t" "dim vi' = length raw" by (simp_all add: vi')
  ultimately show ?thesis using t(2) c unfolding vi'_def by auto
qed

lemma insert_one_ok: "vindex_ok vi \<Longrightarrow> vindex_ok (insert_one vi c)"
  using insert_one_accepted insert_one_rejected by metis

lemma vindex_insert_ok: "vindex_ok vi \<Longrightarrow> vindex_ok (vindex_insert vi cs)"
  unfolding vindex_insert_def by (induction cs arbitrary: vi) (auto simp: insert_one_ok)

text \<open>Ids and vectors of the rows, without the extension ids.\<close>

definition content :: "vindex \<Rightarrow> (chunk_id \<times> f32 list) list" where
  "content vi = map (\<lambda>(i, e, r). (i, r)) (rows vi)"

lemma content_insert_fixed:
  assumes "vindex_ok vi" "dim vi = d" "0 < d"
  shows "content (vindex_insert vi cs)
      = content vi @ map (\<lambda>(i, v). (i, l2_normalize v)) (filter (accepted d) cs)
    \<and> dim (vindex_insert vi cs) = d"
  using assms
proof (induction cs arbitrary: vi)
  case Nil
  then show ?case by (simp add: vindex_insert_def)
next
  case (Cons c cs)
  show ?case
  proof (cases "accepted d c")
    case True
    then have a: "accepted (dim vi) c" using Cons.prems by simp
    obtain i v where c: "c = (i, v)" by (cases c)
    have "dim (insert_one vi c) = d" "content (insert_one vi c) = content vi @ [(i, l2_normalize v)]"
      using insert_one_accepted [OF Cons.prems(1) a] True Cons.prems c
      by (auto simp: content_def accepted_def)
    with Cons True c show ?thesis
      using insert_one_ok [OF Cons.prems(1), of c] by (simp add: vindex_insert_def)
  next
    case False
    with Cons show ?thesis by (simp add: vindex_insert_def insert_one_rejected)
  qed
qed

section \<open>Compaction is a filter\<close>

text \<open>One array of the compaction: the first \<open>w\<close> entries are those of the kept positions
  \<open>K\<close>, and from \<open>r\<close> on nothing has moved.\<close>

definition progress :: "'a list \<Rightarrow> 'a list \<Rightarrow> nat \<Rightarrow> nat \<Rightarrow> nat list \<Rightarrow> bool" where
  "progress X0 X w r K \<longleftrightarrow>
     length X = length X0 \<and> take w X = map (nth X0) K \<and> drop r X = drop r X0"

definition moved :: "'a list \<Rightarrow> 'a list \<Rightarrow> nat \<Rightarrow> nat \<Rightarrow> bool" where
  "moved X X' w r \<longleftrightarrow>
     length X' = length X \<and> take w X' = take w X \<and> X' ! w = X ! r \<and> drop (Suc r) X' = drop (Suc r) X"

lemma moved_swap: "w < r \<Longrightarrow> r < length X \<Longrightarrow> moved X (swap X w r) w r"
  by (simp add: moved_def swap_def nth_list_update)

lemma moved_copy: "w < r \<Longrightarrow> r < length X \<Longrightarrow> moved X (X[w := X ! r]) w r"
  by (simp add: moved_def)

lemma moved_refl: "moved X X r r"
  by (simp add: moved_def)

lemma progress_nth: "progress X0 X w r K \<Longrightarrow> r < length X0 \<Longrightarrow> X ! r = X0 ! r"
  unfolding progress_def by (metis hd_drop_conv_nth)

lemma progress_skip: "progress X0 X w r K \<Longrightarrow> progress X0 X w (Suc r) K"
  unfolding progress_def by (metis drop_Suc tl_drop)

lemma progress_step:
  assumes p: "progress X0 X w r K" and m: "moved X X' w r" and r: "w \<le> r" "r < length X0"
  shows "progress X0 X' (Suc w) (Suc r) (K @ [r])"
proof -
  have "length X' = length X0" "take w X' = map (nth X0) K" "drop (Suc r) X' = drop (Suc r) X0"
    using p m progress_skip [OF p] by (auto simp: progress_def moved_def)
  moreover have "X' ! w = X0 ! r" using m progress_nth [OF p r(2)] by (simp add: moved_def)
  ultimately show ?thesis using r by (simp add: progress_def take_Suc_conv_app_nth)
qed

lemma compact_progress:
  assumes "progress R0 R w r K" "progress C0 C w r K" "progress E0 E w r K"
    "length R0 = n" "length C0 = n" "length E0 = n" "shaped d R" "r \<le> n" "w \<le> r"
    "w = length K" "K = filter (\<lambda>i. \<not> P (ci_file (C0 ! i))) [0..<r]"
  shows "\<exists>R' C' E' K'. compact P d [r..<n] (w, concat R, C, E) = (length K', concat R', C', E')
    \<and> K' = filter (\<lambda>i. \<not> P (ci_file (C0 ! i))) [0..<n]
    \<and> progress R0 R' (length K') n K' \<and> progress C0 C' (length K') n K'
    \<and> progress E0 E' (length K') n K' \<and> shaped d R'"
  using assms
proof (induction "n - r" arbitrary: r w R C E K)
  case 0
  then have "r = n" by simp
  with 0 show ?case by auto
next
  case (Suc m)
  then have r: "r < n" by simp
  then have up: "[r..<n] = r # [Suc r..<n]" by (simp add: upt_conv_Cons)
  have Cr: "C ! r = C0 ! r" using progress_nth Suc.prems r by metis
  show ?case
  proof (cases "P (ci_file (C0 ! r))")
    case True
    have eq: "compact P d [r..<n] (w, concat R, C, E) = compact P d [Suc r..<n] (w, concat R, C, E)"
      using True Cr by (simp add: up)
    have K: "K = filter (\<lambda>i. \<not> P (ci_file (C0 ! i))) [0..<Suc r]"
      using Suc.prems(11) True by simp
    note pr = Suc.prems(1,2,3) [THEN progress_skip]
    show ?thesis unfolding eq
      by (rule Suc.hyps(1) [OF _ pr])
        (use Suc.hyps(2) Suc.prems(4-10) K r in \<open>simp_all add: le_Suc_eq\<close>)
  next
    case False
    define R1 C1 E1 where "R1 = (if w = r then R else R[w := R ! r])"
      "C1 = (if w = r then C else swap C w r)" "E1 = (if w = r then E else swap E w r)"
    have lens: "length R = n" "length C = n" "length E = n"
      using Suc.prems by (auto simp: progress_def)
    have mv: "moved R R1 w r" "moved C C1 w r" "moved E E1 w r"
      using Suc.prems(9) r lens
      by (auto simp: R1_C1_E1_def moved_refl intro!: moved_swap moved_copy)
    have "copy_within (concat R) (r * d) (r * d + d) (w * d) = concat (R[w := R ! r])"
      using copy_within_rows [of d R r w] Suc.prems(7,9) r lens by simp
    then have eq: "compact P d [r..<n] (w, concat R, C, E)
        = compact P d [Suc r..<n] (Suc w, concat R1, C1, E1)"
      using False Cr by (simp add: up R1_C1_E1_def add.commute)
    have sh: "shaped d R1" using Suc.prems(7) r lens by (simp add: R1_C1_E1_def shaped_update)
    have K: "K @ [r] = filter (\<lambda>i. \<not> P (ci_file (C0 ! i))) [0..<Suc r]"
      using Suc.prems(11) False by simp
    have pr: "progress R0 R1 (Suc w) (Suc r) (K @ [r])" "progress C0 C1 (Suc w) (Suc r) (K @ [r])"
      "progress E0 E1 (Suc w) (Suc r) (K @ [r])"
      using mv Suc.prems r by (auto intro!: progress_step)
    show ?thesis unfolding eq
    proof (rule Suc.hyps(1) [OF _ pr])
      show "K @ [r] = filter (\<lambda>i. \<not> P (ci_file (C0 ! i))) [0..<Suc r]" by (rule K)
      show "Suc w = length (K @ [r])" using Suc.prems(10) by simp
      show "shaped d R1" by (rule sh)
    qed (use Suc.hyps(2) Suc.prems(4-6,9) r in simp_all)
  qed
qed

lemma zip_maps: "zip (map f K) (map g K) = map (\<lambda>i. (f i, g i)) K"
  by (induction K) auto

lemma filter_by_index:
  assumes "length C = n" "length D = n"
  shows "filter (\<lambda>x. Q (fst x)) (zip C D)
      = zip (map (nth C) (filter (\<lambda>i. Q (C ! i)) [0..<n])) (map (nth D) (filter (\<lambda>i. Q (C ! i)) [0..<n]))"
proof -
  have "zip C D = map (\<lambda>i. (C ! i, D ! i)) [0..<n]"
    using assms by (intro nth_equalityI) auto
  then show ?thesis by (simp add: filter_map comp_def zip_maps)
qed

lemma remove_files_rows:
  assumes ok: "vindex_ok vi"
  shows "vindex_ok (remove_files vi files)
    \<and> rows (remove_files vi files) = filter (\<lambda>r. ci_file (fst r) \<notin> files) (rows vi)
    \<and> exts (remove_files vi files) = exts vi"
proof (cases "files = {} \<or> \<not> list_ex (\<lambda>c. ci_file c \<in> files) (chunk_ids vi)")
  case True
  have "fst r \<in> set (chunk_ids vi)" if "r \<in> set (rows vi)" for r
    using that unfolding rows_def by (metis prod.collapse set_zip_leftD)
  then have "filter (\<lambda>r. ci_file (fst r) \<notin> files) (rows vi) = rows vi"
    using True by (auto simp: filter_id_conv list_ex_iff)
  with True ok show ?thesis by (auto simp: remove_files_def)
next
  case False
  define n where "n = length (chunk_ids vi)"
  define R where "R = chunks_of (dim vi) (as_slice (store vi))"
  have r: "repr vi R" unfolding R_def by (rule ok_repr [OF ok])
  define K where "K = filter (\<lambda>i. ci_file (chunk_ids vi ! i) \<notin> files) [0..<n]"
  have p0: "progress X X 0 0 []" for X :: "'z list" by (simp add: progress_def)
  have "\<exists>R' C' E' K'. compact (\<lambda>f. f \<in> files) (dim vi) [0..<n] (0, concat R, chunk_ids vi, ext_ids vi)
      = (length K', concat R', C', E')
    \<and> K' = K \<and> progress R R' (length K') n K' \<and> progress (chunk_ids vi) C' (length K') n K'
    \<and> progress (ext_ids vi) E' (length K') n K' \<and> shaped (dim vi) R'"
    unfolding K_def by (rule compact_progress [OF p0 p0 p0]) (use r in \<open>simp_all add: repr_def n_def K_def\<close>)
  then obtain R' C' E' where c: "compact (\<lambda>f. f \<in> files) (dim vi) [0..<n]
        (0, concat R, chunk_ids vi, ext_ids vi) = (length K, concat R', C', E')"
    and p: "progress R R' (length K) n K" "progress (chunk_ids vi) C' (length K) n K"
      "progress (ext_ids vi) E' (length K) n K" "shaped (dim vi) R'"
    by blast
  define vi' where "vi' = remove_files vi files"
  have st: "as_slice (store vi) = concat R" using r by (simp add: repr_def)
  have vi': "vi' = vi\<lparr>store := Ram (concat (take (length K) R')), chunk_ids := map (nth (chunk_ids vi)) K,
      ext_ids := map (nth (ext_ids vi)) K,
      dim := (if map (nth (chunk_ids vi)) K = [] then 0 else dim vi)\<rparr>"
  proof -
    have "take (length K) C' = map (nth (chunk_ids vi)) K" "take (length K) E' = map (nth (ext_ids vi)) K"
      "take (length K * dim vi) (concat R') = concat (take (length K) R')"
      using p by (auto simp: progress_def take_concat)
    then show ?thesis unfolding vi'_def remove_files_def ram_mut_def st n_def [symmetric] c
      by (simp only: if_not_P [OF False] prod.case)
  qed
  have R': "take (length K) R' = map (nth R) K" using p by (simp add: progress_def)
  have len: "length R = n" "length (ext_ids vi) = n" using r by (auto simp: repr_def n_def)
  have sh: "shaped (dim vi) (map (nth R) K)"
    using r len by (auto simp: repr_def shaped_def K_def)
  have d0: "dim vi = 0 \<longleftrightarrow> chunk_ids vi = []" using r by (simp add: repr_def)
  have r': "repr vi' (map (nth R) K)"
  proof -
    have "K \<noteq> [] \<Longrightarrow> chunk_ids vi \<noteq> []" by (auto simp: K_def n_def)
    with sh d0 show ?thesis by (cases "K = []") (auto simp: repr_def vi' R' shaped_def)
  qed
  have z: "zip (chunk_ids vi') (zip (ext_ids vi') (map (nth R) K))
      = filter (\<lambda>x. ci_file (fst x) \<notin> files) (zip (chunk_ids vi) (zip (ext_ids vi) R))"
  proof -
    have "map (nth (zip (ext_ids vi) R)) K = zip (map (nth (ext_ids vi)) K) (map (nth R) K)"
      unfolding zip_maps using len by (intro map_cong) (auto simp: K_def)
    then show ?thesis
      using filter_by_index [of "chunk_ids vi" n "zip (ext_ids vi) R" "\<lambda>c. ci_file c \<notin> files"] len
      by (simp add: vi' K_def [symmetric] n_def [symmetric])
  qed
  have rows': "rows vi' = filter (\<lambda>x. ci_file (fst x) \<notin> files) (rows vi)"
    unfolding repr_rows [OF r'] repr_rows [OF r] by (rule z)
  moreover have "exts vi' = exts vi" by (simp add: vi')
  moreover have "vindex_ok vi'"
    using ok rows' \<open>exts vi' = exts vi\<close>
    by (intro repr_ok_rows [OF r']) (simp_all add: vindex_ok_def)
  ultimately show ?thesis unfolding vi'_def by blast
qed

section \<open>The swap-remove loop removes exactly the matching rows\<close>

lemma length_swap_remove [simp]: "length (swap_remove xs i) = length xs - 1"
  by (simp add: swap_remove_def)

lemma nth_swap_remove: "j < i \<Longrightarrow> i < length xs \<Longrightarrow> swap_remove xs i ! j = xs ! j"
  by (simp add: swap_remove_def nth_butlast)

lemma last_update_last: "xs \<noteq> [] \<Longrightarrow> last (xs[i := last xs]) = last xs"
  by (cases "i = length xs - 1") (simp_all add: last_conv_nth)

lemma mset_swap_remove:
  assumes "i < length xs"
  shows "mset (swap_remove xs i) = mset xs - {#xs ! i#}"
proof -
  have ne: "xs \<noteq> []" using assms by auto
  then have "mset (xs[i := last xs]) = add_mset (last xs) (mset (swap_remove xs i))"
    using append_butlast_last_id [of "xs[i := last xs]"] last_update_last [OF ne, of i]
    by (metis list_update_nonempty mset.simps(2) mset_append swap_remove_def union_mset_add_mset_right
        add.right_neutral mset.simps(1))
  moreover have "mset (xs[i := last xs]) = add_mset (last xs) (mset xs - {#xs ! i#})"
    using assms by (rule mset_update)
  ultimately show ?thesis by simp
qed

lemma zip_swap_remove:
  assumes "length xs = length ys" "i < length xs"
  shows "zip (swap_remove xs i) (swap_remove ys i) = swap_remove (zip xs ys) i"
proof (rule nth_equalityI)
  show "length (zip (swap_remove xs i) (swap_remove ys i)) = length (swap_remove (zip xs ys) i)"
    using assms by simp
  fix j assume "j < length (zip (swap_remove xs i) (swap_remove ys i))"
  then have j: "j < length xs - 1" using assms by simp
  have "xs \<noteq> []" "ys \<noteq> []" "zip xs ys \<noteq> []" using assms by auto
  with j assms show "zip (swap_remove xs i) (swap_remove ys i) ! j = swap_remove (zip xs ys) i ! j"
    by (simp add: swap_remove_def nth_butlast nth_list_update last_conv_nth)
qed

lemma swap_remove_storage:
  assumes "shaped d R" "i < length R"
  shows "take ((length R - 1) * d)
      (if i < length R - 1 then copy_within (concat R) ((length R - 1) * d) ((length R - 1) * d + d) (i * d)
       else concat R) = concat (swap_remove R i)
    \<and> shaped d (swap_remove R i)"
proof -
  let ?l = "length R - 1"
  have l: "?l < length R" and ne: "R \<noteq> []" using assms(2) by auto
  have sh: "shaped d (R[i := R ! ?l])" by (rule shaped_update [OF assms(1) l])
  have lst: "R ! ?l = last R" using ne by (simp add: last_conv_nth)
  have rm: "take ?l (R[i := R ! ?l]) = swap_remove R i"
    unfolding lst by (simp add: swap_remove_def butlast_conv_take)
  have "(if i < ?l then copy_within (concat R) (?l * d) (?l * d + d) (i * d) else concat R)
      = concat (R[i := R ! ?l])"
  proof (cases "i < ?l")
    case True
    then show ?thesis using copy_within_rows [OF assms(1) l assms(2)] by simp
  next
    case False
    then have "i = ?l" using assms(2) by simp
    then show ?thesis by simp
  qed
  then have "take (?l * d) (if i < ?l then copy_within (concat R) (?l * d) (?l * d + d) (i * d) else concat R)
      = concat (swap_remove R i)"
    using take_concat [OF sh, of ?l] rm by simp
  moreover have "shaped d (swap_remove R i)"
    using sh rm unfolding shaped_def by (metis in_set_takeD)
  ultimately show ?thesis by blast
qed

lemma remove_loop_spec:
  assumes "shaped d R" "length R = length cids" "length eids = length cids" "i \<le> length cids"
    "\<forall>j < i. \<not> P (ci_file (cids ! j))"
  shows "\<exists>R' C' E'. remove_loop P d i (concat R, cids, eids) = (concat R', C', E')
    \<and> shaped d R' \<and> length R' = length C' \<and> length E' = length C'
    \<and> mset (zip C' (zip E' R')) = filter_mset (\<lambda>r. \<not> P (ci_file (fst r))) (mset (zip cids (zip eids R)))"
  using assms
proof (induction "length cids - i" arbitrary: i R cids eids rule: less_induct)
  case less
  let ?keep = "\<lambda>r. \<not> P (ci_file (fst r))"
  show ?case
  proof (cases "i < length cids")
    case False
    then have "i = length cids" using less.prems by simp
    then have "\<forall>r \<in> set (zip cids (zip eids R)). ?keep r"
      using less.prems(5) by (auto simp: in_set_zip)
    then have "filter_mset ?keep (mset (zip cids (zip eids R))) = mset (zip cids (zip eids R))"
      by (simp add: filter_mset_eq_conv)
    moreover have "remove_loop P d i (concat R, cids, eids) = (concat R, cids, eids)"
      using False by (subst remove_loop.simps) simp
    ultimately show ?thesis using less.prems by (intro exI [of _ R] exI [of _ cids] exI [of _ eids]) simp
  next
    case i: True
    show ?thesis
    proof (cases "P (ci_file (cids ! i))")
      case False
      then have eq: "remove_loop P d i (concat R, cids, eids) = remove_loop P d (Suc i) (concat R, cids, eids)"
        using i by (subst remove_loop.simps) simp
      show ?thesis unfolding eq
        by (rule less.hyps) (use i less.prems False in \<open>auto simp: less_Suc_eq\<close>)
    next
      case True
      have len: "length R - 1 = length cids - 1" "i < length R" using less.prems i by auto
      note st = swap_remove_storage [OF less.prems(1) len(2)]
      have "remove_loop P d i (concat R, cids, eids)
          = remove_loop P d i (take ((length R - 1) * d)
              (if i < length R - 1
               then copy_within (concat R) ((length R - 1) * d) ((length R - 1) * d + d) (i * d)
               else concat R), swap_remove cids i, swap_remove eids i)"
        using i True len by (subst remove_loop.simps) (simp add: Let_def)
      then have eq: "remove_loop P d i (concat R, cids, eids)
          = remove_loop P d i (concat (swap_remove R i), swap_remove cids i, swap_remove eids i)"
        using st by simp
      have z: "zip (swap_remove cids i) (zip (swap_remove eids i) (swap_remove R i))
          = swap_remove (zip cids (zip eids R)) i"
        using less.prems i by (simp add: zip_swap_remove)
      have "mset (swap_remove (zip cids (zip eids R)) i)
          = mset (zip cids (zip eids R)) - {#zip cids (zip eids R) ! i#}"
        using less.prems i by (intro mset_swap_remove) simp
      moreover have "filter_mset ?keep {#zip cids (zip eids R) ! i#} = {#}"
        using less.prems i True by simp
      ultimately have m: "filter_mset ?keep (mset (swap_remove (zip cids (zip eids R)) i))
          = filter_mset ?keep (mset (zip cids (zip eids R)))"
        by (simp only: filter_diff_mset) simp
      have "\<forall>j < i. \<not> P (ci_file (swap_remove cids i ! j))"
        using less.prems(5) i by (simp add: nth_swap_remove)
      moreover have "length (swap_remove cids i) - i < length cids - i" using i by simp
      ultimately show ?thesis unfolding eq m [symmetric] z [symmetric]
        using st less.prems i by (intro less.hyps) auto
    qed
  qed
qed

lemma remove_where_rows:
  assumes ok: "vindex_ok vi"
  shows "vindex_ok (remove_where vi P)
    \<and> mset (rows (remove_where vi P)) = filter_mset (\<lambda>r. \<not> P (ci_file (fst r))) (mset (rows vi))
    \<and> exts (remove_where vi P) = exts vi"
proof -
  define R where "R = chunks_of (dim vi) (as_slice (store vi))"
  have r: "repr vi R" unfolding R_def by (rule ok_repr [OF ok])
  obtain R' C' E' where l: "remove_loop P (dim vi) 0 (concat R, chunk_ids vi, ext_ids vi) = (concat R', C', E')"
    and R': "shaped (dim vi) R'" "length R' = length C'" "length E' = length C'"
    and m: "mset (zip C' (zip E' R')) = filter_mset (\<lambda>r. \<not> P (ci_file (fst r)))
        (mset (zip (chunk_ids vi) (zip (ext_ids vi) R)))"
    using remove_loop_spec [of "dim vi" R "chunk_ids vi" "ext_ids vi" 0 P] r by (auto simp: repr_def)
  define vi' where "vi' = remove_where vi P"
  have vi': "vi' = vi\<lparr>store := Ram (concat R'), chunk_ids := C', ext_ids := E',
      dim := (if C' = [] then 0 else dim vi)\<rparr>"
    using l r by (simp add: vi'_def remove_where_def ram_mut_def repr_def)
  have "C' \<noteq> [] \<Longrightarrow> chunk_ids vi \<noteq> []"
  proof
    assume "C' \<noteq> []" "chunk_ids vi = []"
    then have "zip C' (zip E' R') = []" using m by simp
    with R' \<open>C' \<noteq> []\<close> show False by (cases C'; cases E'; cases R') auto
  qed
  then have r': "repr vi' R'" using R' r by (cases "C' = []") (auto simp: repr_def vi' shaped_def)
  have mr: "mset (rows vi') = filter_mset (\<lambda>r. \<not> P (ci_file (fst r))) (mset (rows vi))"
    unfolding repr_rows [OF r'] repr_rows [OF r] using m by (simp add: vi')
  then have "set (rows vi') \<subseteq> set (rows vi)"
    by (metis multiset_filter_subset set_mset_mono set_mset_mset)
  moreover have "exts vi' = exts vi" by (simp add: vi')
  ultimately have "vindex_ok vi'"
    using ok by (intro repr_ok_rows [OF r']) (auto simp: vindex_ok_def)
  with mr \<open>exts vi' = exts vi\<close> show ?thesis unfolding vi'_def by blast
qed

section \<open>Merging appends rows\<close>

lemma intern_all_spec:
  "ext_table_ok t \<Longrightarrow> intern_all ns t = (is, t') \<Longrightarrow>
   ext_table_ok t' \<and> grows t t' \<and> length is = length ns
   \<and> (\<forall>j < length ns. id_right t' (ns ! j) (is ! j))"
proof (induction ns arbitrary: t t' "is")
  case Nil
  then show ?case by simp
next
  case (Cons n ns)
  obtain e u where e: "intern n t = (e, u)" by (cases "intern n t")
  obtain js v where v: "intern_all ns u = (js, v)" by (cases "intern_all ns u")
  have eq: "is = e # js" "t' = v" using Cons.prems(2) e v by (simp_all add: Let_def)
  have u: "ext_table_ok u" "grows t u" "id_right u n e" using intern_spec [OF Cons.prems(1) e] by auto
  have IH: "ext_table_ok v" "grows u v" "length js = length ns"
    "\<forall>j < length ns. id_right v (ns ! j) (js ! j)" using Cons.IH [OF u(1) v] by auto
  have "id_right v n e" by (rule id_right_grows [OF u(3) IH(2) IH(1)])
  then show ?case using u IH grows_trans unfolding eq
    by (auto simp: nth_Cons split: nat.splits)
qed

lemma full_after:
  assumes "ext_table_ok t" "ext_table_ok t'" "table_full t"
    "\<forall>j < length (tbl_names t). id_right t' (tbl_names t ! j) (is ! j)"
  shows "table_full t'"
proof (rule ccontr)
  assume nf: "\<not> table_full t'"
  have "set (tbl_names t) \<subseteq> set (tbl_names t')"
  proof
    fix k assume "k \<in> set (tbl_names t)"
    then obtain j where "j < length (tbl_names t)" "tbl_names t ! j = k" by (auto simp: in_set_conv_nth)
    then have "id_right t' k (is ! j)" using assms(4) by auto
    with nf show "k \<in> set (tbl_names t')" by (auto simp: id_right_def split: if_splits)
  qed
  then have "card (set (tbl_names t)) \<le> card (set (tbl_names t'))" by (simp add: card_mono)
  with assms(1,2,3) nf show False
    by (simp add: ext_table_ok_def table_full_def distinct_card)
qed

lemma merge_content:
  assumes ok: "vindex_ok vi" "vindex_ok other" and d: "dim vi = 0 \<or> dim vi = dim other"
  shows "vindex_ok (merge vi other) \<and> content (merge vi other) = content vi @ content other"
proof (cases "vindex_is_empty other")
  case True
  then have "rows other = []" using rows_Nil_iff [OF ok(2)] by simp
  with True ok show ?thesis by (simp add: merge_def content_def)
next
  case False
  obtain remap t where it: "intern_all (tbl_names (exts other)) (exts vi) = (remap, t)"
    by (cases "intern_all (tbl_names (exts other)) (exts vi)")
  have oks: "ext_table_ok (exts vi)" "ext_table_ok (exts other)" using ok by (auto simp: vindex_ok_def)
  have t: "ext_table_ok t" "grows (exts vi) t" "length remap = length (tbl_names (exts other))"
    "\<forall>j < length (tbl_names (exts other)). id_right t (tbl_names (exts other) ! j) (remap ! j)"
    using intern_all_spec [OF oks(1) it] by auto
  define lookup where "lookup i = (if unat i < length remap then remap ! unat i else EXT_SENTINEL)" for i :: u16
  define R where "R = chunks_of (dim vi) (as_slice (store vi))"
  define S where "S = chunks_of (dim other) (as_slice (store other))"
  have r: "repr vi R" "repr other S" unfolding R_def S_def by (rule ok_repr, rule ok)+
  define vi' where "vi' = merge vi other"
  have vi': "vi' = vi\<lparr>store := Ram (as_slice (store vi) @ as_slice (store other)),
      ext_ids := ext_ids vi @ map lookup (ext_ids other), exts := t,
      chunk_ids := chunk_ids vi @ chunk_ids other, dim := dim other\<rparr>"
    using False d it by (auto simp: vi'_def merge_def ram_mut_def Let_def lookup_def [abs_def])
  have "dim vi = 0 \<Longrightarrow> R = []" using r(1) by (auto simp: repr_def)
  then have r': "repr vi' (R @ S)" using r d False
    by (auto simp: repr_def vi' shaped_def vindex_is_empty_def)
  have rows': "rows vi' = rows vi @ map (\<lambda>(c, e, v). (c, lookup e, v)) (rows other)"
    unfolding repr_rows [OF r'] repr_rows [OF r(1)] repr_rows [OF r(2)]
    using r by (simp add: vi' repr_def zip_map1 zip_map2 case_prod_unfold)
  have right: "id_right t k (lookup e)" if "id_right (exts other) k e" for k e
  proof (cases "unat e < length (tbl_names (exts other))")
    case True
    with that t show ?thesis by (auto simp: lookup_def id_right_def)
  next
    case False
    with that have "table_full (exts other)" by (simp add: id_right_def)
    then have "table_full t" using full_after [OF oks(2) t(1)] t(4) by blast
    with False t show ?thesis by (simp add: lookup_def id_right_def table_full_def)
  qed
  have "\<forall>x \<in> set (rows vi'). row_right t x"
  proof
    fix x assume "x \<in> set (rows vi')"
    then consider "x \<in> set (rows vi)"
      | c e v where "(c, e, v) \<in> set (rows other)" "x = (c, lookup e, v)"
      using rows' by auto
    then show "row_right t x"
    proof cases
      case 1
      with ok(1) t show ?thesis unfolding vindex_ok_def using row_right_grows by blast
    next
      case 2
      then have "row_right (exts other) (c, e, v)" using ok(2) by (simp add: vindex_ok_def)
      then show ?thesis using right 2 by (simp add: row_right_def)
    qed
  qed
  then have "vindex_ok vi'" using t by (intro repr_ok_rows [OF r']) (simp_all add: vi')
  moreover have "content vi' = content vi @ content other"
    unfolding content_def rows' by (simp add: case_prod_unfold comp_def)
  ultimately show ?thesis unfolding vi'_def by blast
qed

section \<open>Search ranks the rows of the class\<close>

text \<open>What a search may return: the rows whose class the filter keeps, with their scores.\<close>

definition in_class :: "scope_filter option \<Rightarrow> str \<Rightarrow> bool" where
  "in_class sf fl =
     (case sf of None \<Rightarrow> True | Some f \<Rightarrow> (ext_key fl \<in> sf_docs f) = (sf_scope f = Docs))"

definition candidates :: "vindex \<Rightarrow> f32 list \<Rightarrow> scope_filter option \<Rightarrow> search_result list" where
  "candidates vi query sf =
     map (\<lambda>(c, v). \<lparr>sr_chunk_id = c, sr_score = dot_product (l2_normalize query) v\<rparr>)
       (filter (\<lambda>(c, v). in_class sf (ci_file c)) (content vi))"

lemma content_nth:
  assumes "repr vi R"
  shows "content vi = map (\<lambda>i. (chunk_ids vi ! i, R ! i)) [0..<length (chunk_ids vi)]"
  unfolding content_def repr_rows [OF assms]
  using assms by (intro nth_equalityI) (auto simp: repr_def)

lemma map_filter_if: "List.map_filter (\<lambda>x. if P x then Some (g x) else None) xs = map g (filter P xs)"
  by (induction xs) (simp_all add: map_filter_simps)

lemma map_filter_map: "List.map_filter f (map g xs) = List.map_filter (\<lambda>x. f (g x)) xs"
  by (induction xs) (simp_all add: map_filter_simps split: option.split)

lemma scored_rows_content:
  assumes ok: "vindex_ok vi" and room: "\<not> table_full (exts vi)"
  shows "scored_rows vi q sf = map (\<lambda>(i, c, v). (i, dot_product q v))
    (filter (\<lambda>(i, c, v). in_class sf (ci_file c)) (enumerate 0 (content vi)))"
proof -
  define R where "R = chunks_of (dim vi) (as_slice (store vi))"
  have r: "repr vi R" unfolding R_def by (rule ok_repr [OF ok])
  let ?n = "length (chunk_ids vi)"
  have lR: "length R = ?n" using r by (simp add: repr_def)
  have en: "enumerate 0 R = map (\<lambda>i. (i, R ! i)) [0..<?n]"
    by (rule nth_equalityI) (simp_all add: nth_enumerate_eq lR)
  have en': "enumerate 0 (content vi) = map (\<lambda>i. (i, chunk_ids vi ! i, R ! i)) [0..<?n]"
    unfolding content_nth [OF r] by (rule nth_equalityI) (simp_all add: nth_enumerate_eq)
  have right: "id_right (exts vi) (ext_key (ci_file (chunk_ids vi ! i))) (ext_ids vi ! i)" if "i < ?n" for i
  proof -
    have "(chunk_ids vi ! i, ext_ids vi ! i, R ! i) \<in> set (rows vi)"
      unfolding repr_rows [OF r] using r that by (auto simp: repr_def set_zip intro!: exI [of _ i])
    then show ?thesis using ok by (force simp: vindex_ok_def row_right_def)
  qed
  show ?thesis
  proof (cases sf)
    case None
    then show ?thesis
      by (simp add: scored_rows_def R_def [symmetric] en en' in_class_def comp_def case_prod_unfold)
  next
    case (Some f)
    let ?V = "\<lambda>i. verdict f (exts vi) (ext_ids vi ! i)"
    have "scored_rows vi q sf
        = List.map_filter (\<lambda>i. if ?V i then Some (i, dot_product q (R ! i)) else None) [0..<?n]"
      by (simp add: Some scored_rows_def R_def [symmetric] en map_filter_map Let_def verdict_def)
    also have "\<dots> = map (\<lambda>i. (i, dot_product q (R ! i))) (filter ?V [0..<?n])"
      by (rule map_filter_if)
    also have "filter ?V [0..<?n] = filter (\<lambda>i. in_class sf (ci_file (chunk_ids vi ! i))) [0..<?n]"
      using verdict_exact [OF right room, of _ f] by (intro filter_cong) (simp_all add: Some in_class_def)
    finally show ?thesis by (simp add: en' filter_map comp_def)
  qed
qed

lemma candidates_scored:
  assumes ok: "vindex_ok vi" and room: "\<not> table_full (exts vi)"
  shows "candidates vi query sf
    = map (\<lambda>(i, s). \<lparr>sr_chunk_id = chunk_ids vi ! i, sr_score = s\<rparr>)
        (scored_rows vi (l2_normalize query) sf)"
proof -
  define R where "R = chunks_of (dim vi) (as_slice (store vi))"
  have r: "repr vi R" unfolding R_def by (rule ok_repr [OF ok])
  have en: "enumerate 0 (content vi)
      = map (\<lambda>i. (i, chunk_ids vi ! i, R ! i)) [0..<length (chunk_ids vi)]"
    unfolding content_nth [OF r] by (rule nth_equalityI) (simp_all add: nth_enumerate_eq)
  show ?thesis
    unfolding scored_rows_content [OF ok room] candidates_def en unfolding content_nth [OF r]
    by (simp add: filter_map comp_def)
qed

lemma search_filtered_top_k:
  assumes sel: "unstable_select sel" and srt: "unstable_sort srt"
    and ok: "vindex_ok vi" and room: "\<not> table_full (exts vi)"
    and q: "query \<noteq> []" and nan: "\<forall>c \<in> set (candidates vi query sf). \<not> f32_nan (sr_score c)"
  shows "top_k (\<lambda>a b. f32_desc (sr_score a) (sr_score b)) topk (candidates vi query sf)
    (search_filtered sel srt vi query topk sf)"
proof (cases "vindex_is_empty vi \<or> topk = 0 \<or> scored_rows vi (l2_normalize query) sf = []")
  case True
  have "vindex_is_empty vi \<Longrightarrow> candidates vi query sf = []"
    using rows_Nil_iff [OF ok] by (simp add: candidates_def content_def)
  with True candidates_scored [OF ok room, of query sf] q show ?thesis
    by (auto simp: search_filtered_def Let_def)
next
  case False
  let ?sc = "scored_rows vi (l2_normalize query) sf"
  define f where "f p = \<lparr>sr_chunk_id = chunk_ids vi ! fst p, sr_score = snd p\<rparr>" for p :: "nat \<times> f32"
  have f: "(\<lambda>(i, s). \<lparr>sr_chunk_id = chunk_ids vi ! i, sr_score = s\<rparr>) = f"
    by (rule ext) (simp add: f_def case_prod_unfold)
  define le where "le = (\<lambda>(a :: nat \<times> f32) (b :: nat \<times> f32). f32_desc (snd a) (snd b))"
  have le: "le = (\<lambda>a b. f32_desc (sr_score (f a)) (sr_score (f b)))"
    by (simp add: le_def f_def)
  define k where "k = min topk (length ?sc)"
  have cs: "candidates vi query sf = map f ?sc" unfolding candidates_scored [OF ok room] f ..
  have "\<forall>x \<in> set ?sc. \<not> f32_nan (snd x)" using nan by (auto simp: cs f_def)
  then have pre: "total_preorder_on le (set ?sc)" unfolding le_def by (rule f32_desc_preorder)
  have d: "dim vi \<noteq> 0" using ok False by (simp add: vindex_ok_def vindex_is_empty_def)
  have "top_k le k ?sc (srt le (take k (sel le (k - 1) ?sc)))"
    by (rule unstable_select.select_sort_top_k [OF sel srt pre]) (use False in \<open>auto simp: k_def\<close>)
  then have "top_k le topk ?sc (srt le (take k (sel le (k - 1) ?sc)))"
    by (simp add: top_k_def k_def)
  then have t: "top_k (\<lambda>a b. f32_desc (sr_score a) (sr_score b)) topk (map f ?sc)
      (map f (srt le (take k (sel le (k - 1) ?sc))))"
    unfolding le by (rule top_k_map)
  have "search_filtered sel srt vi query topk sf = map f (srt le (take k (sel le (k - 1) ?sc)))"
    using False q d unfolding search_filtered_def Let_def f k_def le_def by simp
  with t cs show ?thesis by simp
qed

text \<open>Two shards with the same content answer every query alike, whatever the storage.\<close>

lemma search_filtered_content:
  assumes "vindex_ok a" "vindex_ok b" "\<not> table_full (exts a)" "\<not> table_full (exts b)"
    "content a = content b"
  shows "search_filtered sel srt a query topk sf = search_filtered sel srt b query topk sf"
proof -
  have "map fst (content x) = chunk_ids x" if "vindex_ok x" for x
    using content_nth [OF ok_repr [OF that]] by (simp add: comp_def map_nth)
  then have "chunk_ids a = chunk_ids b" using assms by metis
  moreover from this have "dim a = 0 \<longleftrightarrow> dim b = 0" using assms(1,2) by (simp add: vindex_ok_def)
  moreover have "scored_rows a q sf = scored_rows b q sf" for q
    by (simp add: scored_rows_content assms)
  ultimately show ?thesis by (simp add: search_filtered_def vindex_is_empty_def Let_def)
qed

section \<open>Opening a mapped shard\<close>

lemma from_mmap_ok:
  assumes pay: "take (n * 4) (drop off m) = bytes_of_words (concat R)" and sh: "shaped d R"
    and len: "length R = length cids" and d: "d \<noteq> 0" "cids \<noteq> []"
  shows "vindex_ok (from_mmap m off n d cids) \<and> content (from_mmap m off n d cids) = zip cids R"
proof -
  obtain es t where it: "intern_all (map (\<lambda>c. ext_key (ci_file c)) cids) ext_table_default = (es, t)"
    by (cases "intern_all (map (\<lambda>c. ext_key (ci_file c)) cids) ext_table_default")
  have t: "ext_table_ok t" "length es = length cids"
    "\<forall>j < length cids. id_right t (ext_key (ci_file (cids ! j))) (es ! j)"
    using intern_all_spec [OF ext_table_default_ok it] by auto
  define vi where "vi = from_mmap m off n d cids"
  have vi: "store vi = Mmap m off n" "chunk_ids vi = cids" "ext_ids vi = es" "exts vi = t" "dim vi = d"
    using it by (simp_all add: vi_def from_mmap_def Let_def)
  have r: "repr vi R" using pay sh len d t by (simp add: repr_def vi)
  have "\<forall>x \<in> set (rows vi). row_right t x"
    unfolding repr_rows [OF r] using t len by (auto simp: vi in_set_zip row_right_def)
  then have "vindex_ok vi" using t by (intro repr_ok_rows [OF r]) (simp_all add: vi)
  moreover have "content vi = zip cids R"
    unfolding content_nth [OF r] using len by (intro nth_equalityI) (simp_all add: vi)
  ultimately show ?thesis unfolding vi_def by blast
qed

lemma content_zip:
  assumes "vindex_ok vi"
  shows "content vi = zip (chunk_ids vi) (chunks_of (dim vi) (as_slice (store vi)))"
  using content_nth [OF ok_repr [OF assms]] ok_repr [OF assms]
  by (auto simp: repr_def intro!: nth_equalityI)

section \<open>Properties\<close>

text \<open>Removing files keeps exactly the rows of the other files, in their order, each chunk
  id still next to its own vector, and keeps the shard well formed: the three arrays stay in
  lockstep, and the dimension is released when nothing is left.\<close>

theorem remove_files_exact:
  assumes "vindex_ok vi"
  shows "vindex_ok (remove_files vi files)
    \<and> rows (remove_files vi files) = filter (\<lambda>r. ci_file (fst r) \<notin> files) (rows vi)"
  using remove_files_rows [OF assms] by blast

definition demo_cid :: "str \<Rightarrow> chunk_id" where
  "demo_cid f = \<lparr>ci_file = f, ci_line_start = 1, ci_line_end = 2\<rparr>"

definition demo_index :: vindex where
  "demo_index = vindex_insert vindex_new
     [(demo_cid ''/r/a.rs'', [f32_one]), (demo_cid ''/r/README.md'', [f32_one]),
      (demo_cid ''/r/b.rs'', [f32_one])]"

lemma demo_index_ok: "vindex_ok demo_index"
  unfolding demo_index_def by (rule vindex_insert_ok) simp

theorem remove_files_exact_witness:
  "vindex_ok (remove_files demo_index {''/r/a.rs''})
    \<and> rows (remove_files demo_index {''/r/a.rs''})
      = filter (\<lambda>r. ci_file (fst r) \<notin> {''/r/a.rs''}) (rows demo_index)"
  by (rule remove_files_exact [OF demo_index_ok])

text \<open>Removing a repository removes the rows of the files inside it and no others: what is
  left is the same rows, possibly in another order, and the shard stays well formed.\<close>

theorem remove_repo_exact:
  assumes "vindex_ok vi"
  shows "vindex_ok (remove_repo vi repo)
    \<and> mset (rows (remove_repo vi repo))
      = filter_mset (\<lambda>r. \<not> path_in_repo (ci_file (fst r)) repo) (mset (rows vi))"
  using remove_where_rows [OF assms, of "\<lambda>f. path_in_repo f repo"] unfolding remove_repo_def by blast

theorem remove_repo_exact_witness:
  "vindex_ok (remove_repo demo_index ''/r/'')
    \<and> mset (rows (remove_repo demo_index ''/r/''))
      = filter_mset (\<lambda>r. \<not> path_in_repo (ci_file (fst r)) ''/r/'') (mset (rows demo_index))"
  by (rule remove_repo_exact [OF demo_index_ok])

text \<open>C11: A scoped search returns a best \<open>k\<close> of the rows of the requested class (code or
  docs), sorted by descending score: every row of the class that is left out scores no higher
  than anything returned, so rows of the other class never crowd results out.\<close>

theorem scoped_search_best:
  assumes "unstable_select sel" "unstable_sort srt" "vindex_ok vi" "\<not> table_full (exts vi)"
    "query \<noteq> []" "\<forall>c \<in> set (candidates vi query sf). \<not> f32_nan (sr_score c)"
  shows "top_k (\<lambda>a b. f32_desc (sr_score a) (sr_score b)) k (candidates vi query sf)
    (search_filtered sel srt vi query k sf)"
  using assms by (rule search_filtered_top_k)

text \<open>Merging two shards of one dimension appends the rows of the second to those of the
  first and keeps every row's extension right, although the shards number extensions apart.\<close>

theorem merge_appends:
  assumes "vindex_ok vi" "vindex_ok other" "dim vi = 0 \<or> dim vi = dim other"
  shows "vindex_ok (merge vi other) \<and> content (merge vi other) = content vi @ content other"
  using assms by (rule merge_content)

theorem merge_appends_witness:
  "vindex_ok (merge demo_index demo_index)
    \<and> content (merge demo_index demo_index) = content demo_index @ content demo_index"
  by (rule merge_appends [OF demo_index_ok demo_index_ok]) simp

lemma content_insert_subset:
  "vindex_ok vi \<Longrightarrow>
   set (content (vindex_insert vi cs)) \<subseteq> set (content vi) \<union> (\<lambda>(i, v). (i, l2_normalize v)) ` set cs"
proof (induction cs arbitrary: vi)
  case Nil
  then show ?case by (simp add: vindex_insert_def)
next
  case (Cons c cs)
  have "set (content (insert_one vi c)) \<subseteq> set (content vi) \<union> {(fst c, l2_normalize (snd c))}"
  proof (cases "accepted (dim vi) c")
    case True
    then obtain e where "rows (insert_one vi c) = rows vi @ [(fst c, e, l2_normalize (snd c))]"
      using insert_one_accepted [OF Cons.prems True] by blast
    then show ?thesis by (simp add: content_def)
  next
    case False
    then show ?thesis by (auto simp: insert_one_rejected)
  qed
  moreover have "set (content (vindex_insert vi (c # cs)))
      \<subseteq> set (content (insert_one vi c)) \<union> (\<lambda>(i, v). (i, l2_normalize v)) ` set cs"
    using Cons.IH [OF insert_one_ok [OF Cons.prems]] by (simp add: vindex_insert_def)
  ultimately show ?case by (cases c) auto
qed

lemma unit_vector: "l2_normalize [f32_one] = [f32_one]" "dot_product [f32_one] [f32_one] = f32_one"
  "f32_nan f32_one = False"
  by code_simp+

lemma demo_scores: "c \<in> set (candidates demo_index [f32_one] sf) \<Longrightarrow> sr_score c = f32_one"
  using content_insert_subset [OF vindex_new_ok, of "[(demo_cid ''/r/a.rs'', [f32_one]),
      (demo_cid ''/r/README.md'', [f32_one]), (demo_cid ''/r/b.rs'', [f32_one])]"]
  by (auto simp: candidates_def demo_index_def [symmetric] content_def unit_vector)

lemma insert_one_names: "length (tbl_names (exts (insert_one vi c))) \<le> Suc (length (tbl_names (exts vi)))"
  by (auto simp: insert_one_def intern_path_def intern_def Let_def split: option.splits)

lemma vindex_insert_names:
  "length (tbl_names (exts (vindex_insert vi cs))) \<le> length (tbl_names (exts vi)) + length cs"
proof (induction cs arbitrary: vi)
  case (Cons c cs)
  show ?case using Cons [of "insert_one vi c"] insert_one_names [of vi c]
    by (simp add: vindex_insert_def)
qed (simp add: vindex_insert_def)

lemma demo_room: "\<not> table_full (exts demo_index)"
  using vindex_insert_names [of vindex_new "[(demo_cid ''/r/a.rs'', [f32_one]),
      (demo_cid ''/r/README.md'', [f32_one]), (demo_cid ''/r/b.rs'', [f32_one])]"]
  by (simp add: demo_index_def table_full_def vindex_new_def ext_table_default_def)

theorem scoped_search_best_witness:
  "top_k (\<lambda>a b. f32_desc (sr_score a) (sr_score b)) 2
    (candidates demo_index [f32_one] (Some (scope_filter_new Code [''md''])))
    (search_filtered sort_select sort_by demo_index [f32_one] 2 (Some (scope_filter_new Code [''md''])))"
  by (rule scoped_search_best [OF unstable_select_sort_select unstable_sort_sort_by demo_index_ok demo_room])
    (use demo_scores unit_vector in auto)


end
