(* ===== verification/Hash_Map.thy ===== *)
theory Hash_Map
  imports Prelude
begin

text \<open>
  \<open>HashMap\<close> as an association list with distinct keys: the list's order is the iteration
  order, which nothing may depend on, so the states range over all orders. On it, the eviction
  loop that the shard map (\<open>src/vector/sharded.rs\<close>) and the session store
  (\<open>src/mcp_session_store.rs\<close>) share: remove the entry with the lowest stamp while over budget.
\<close>

type_synonym ('k, 'v) hmap = "('k \<times> 'v) list"

definition hm_get :: "'k \<Rightarrow> ('k, 'v) hmap \<Rightarrow> 'v option" where
  "hm_get k m = map_of m k"

definition hm_contains :: "'k \<Rightarrow> ('k, 'v) hmap \<Rightarrow> bool" where
  "hm_contains k m = (k \<in> set (map fst m))"

definition hm_remove :: "'k \<Rightarrow> ('k, 'v) hmap \<Rightarrow> ('k, 'v) hmap" where
  "hm_remove k m = filter (\<lambda>e. fst e \<noteq> k) m"

definition hm_insert :: "'k \<Rightarrow> 'v \<Rightarrow> ('k, 'v) hmap \<Rightarrow> ('k, 'v) hmap" where
  "hm_insert k v m = (k, v) # hm_remove k m"

definition hm_keys :: "('k, 'v) hmap \<Rightarrow> 'k list" where
  "hm_keys m = map fst m"

definition hm_ok :: "('k, 'v) hmap \<Rightarrow> bool" where
  "hm_ok m \<longleftrightarrow> distinct (hm_keys m)"

section \<open>The interface\<close>

text \<open>What the components rely on: reading after an update, and one entry per key.\<close>

locale hash_map =
  fixes get :: "'k \<Rightarrow> 'm \<Rightarrow> 'v option"
    and ins :: "'k \<Rightarrow> 'v \<Rightarrow> 'm \<Rightarrow> 'm"
    and rem :: "'k \<Rightarrow> 'm \<Rightarrow> 'm"
    and ok :: "'m \<Rightarrow> bool"
  assumes get_ins: "get j (ins k v m) = (if j = k then Some v else get j m)"
    and get_rem: "get j (rem k m) = (if j = k then None else get j m)"
    and ok_ins: "ok m \<Longrightarrow> ok (ins k v m)"
    and ok_rem: "ok m \<Longrightarrow> ok (rem k m)"
begin

lemma get_ins_same: "get k (ins k v m) = Some v"
  by (simp add: get_ins)

lemma get_rem_same: "get k (rem k m) = None"
  by (simp add: get_rem)

lemma get_rem_ins: "get j (rem k (ins k v m)) = get j (rem k m)"
  by (simp add: get_ins get_rem)

lemma get_ins_ins: "get j (ins k v (ins k w m)) = get j (ins k v m)"
  by (simp add: get_ins)

end

lemma hm_get_remove: "hm_get j (hm_remove k m) = (if j = k then None else hm_get j m)"
  by (induction m) (auto simp: hm_get_def hm_remove_def)

lemma hm_ok_remove: "hm_ok m \<Longrightarrow> hm_ok (hm_remove k m)"
  by (auto simp: hm_ok_def hm_remove_def hm_keys_def distinct_map inj_on_def)

interpretation hm: hash_map hm_get hm_insert hm_remove hm_ok
proof unfold_locales
  fix j k :: 'k and v :: 'v and m :: "('k, 'v) hmap"
  show "hm_get j (hm_remove k m) = (if j = k then None else hm_get j m)" by (rule hm_get_remove)
  then show "hm_get j (hm_insert k v m) = (if j = k then Some v else hm_get j m)"
    by (simp add: hm_insert_def hm_get_def)
  show "hm_ok m \<Longrightarrow> hm_ok (hm_remove k m)" by (rule hm_ok_remove)
  then show "hm_ok m \<Longrightarrow> hm_ok (hm_insert k v m)"
    by (auto simp: hm_ok_def hm_insert_def hm_keys_def hm_remove_def)
qed

lemmas hm_simps [simp] = hm.get_ins hm.get_rem hm.ok_ins hm.ok_rem

lemma hm_ok_Nil [simp]: "hm_ok []"
  by (simp add: hm_ok_def hm_keys_def)

lemma hm_get_Nil [simp]: "hm_get k [] = None"
  by (simp add: hm_get_def)

lemma hm_contains_iff: "hm_contains k m \<longleftrightarrow> hm_get k m \<noteq> None"
  by (auto simp: hm_contains_def hm_get_def map_of_eq_None_iff)

lemma hm_mem_iff: "hm_ok m \<Longrightarrow> (k, v) \<in> set m \<longleftrightarrow> hm_get k m = Some v"
  by (simp add: hm_ok_def hm_keys_def hm_get_def)

lemma hm_get_mem: "hm_get k m = Some v \<Longrightarrow> (k, v) \<in> set m"
  by (simp add: hm_get_def map_of_SomeD)

lemma set_hm_remove: "set (hm_remove k m) = {e \<in> set m. fst e \<noteq> k}"
  by (auto simp: hm_remove_def)

lemma set_hm_insert: "set (hm_insert k v m) = insert (k, v) {e \<in> set m. fst e \<noteq> k}"
  by (auto simp: hm_insert_def set_hm_remove)

lemma length_hm_remove_le [simp]: "length (hm_remove k m) \<le> length m"
  by (simp add: hm_remove_def)

lemma length_hm_remove: "k \<in> fst ` set m \<Longrightarrow> length (hm_remove k m) < length m"
  by (auto simp: hm_remove_def intro!: length_filter_less)

lemma length_hm_insert: "length (hm_insert k v m) \<le> Suc (length m)"
  by (simp add: hm_insert_def)

text \<open>Update in place: \<open>get_mut\<close> and an assignment; the order does not change.\<close>

definition hm_update :: "'k \<Rightarrow> ('v \<Rightarrow> 'v) \<Rightarrow> ('k, 'v) hmap \<Rightarrow> ('k, 'v) hmap" where
  "hm_update k f m = map (\<lambda>(j, v). (j, if j = k then f v else v)) m"

lemma hm_get_update [simp]:
  "hm_get j (hm_update k f m) = (if j = k then map_option f (hm_get k m) else hm_get j m)"
  by (induction m) (auto simp: hm_get_def hm_update_def)

lemma hm_keys_update [simp]: "hm_keys (hm_update k f m) = hm_keys m"
  by (induction m) (auto simp: hm_keys_def hm_update_def)

lemma hm_ok_update [simp]: "hm_ok (hm_update k f m) = hm_ok m"
  by (simp add: hm_ok_def)

lemma length_hm_update [simp]: "length (hm_update k f m) = length m"
  by (simp add: hm_update_def)

section \<open>Eviction of the least recently used\<close>

text \<open>The result is the map left and the keys removed, in order.\<close>

function evict_lru ::
  "(('k, 'v) hmap \<Rightarrow> bool) \<Rightarrow> ('k \<Rightarrow> bool) \<Rightarrow> ('v \<Rightarrow> nat) \<Rightarrow> ('k, 'v) hmap
     \<Rightarrow> ('k, 'v) hmap \<times> 'k list" where
  "evict_lru over evictable stamp m =
     (if over m then
        (case first_min_by (\<lambda>e. stamp (snd e)) (filter (\<lambda>e. evictable (fst e)) m) of
           None \<Rightarrow> (m, [])
         | Some e \<Rightarrow>
             (let r = evict_lru over evictable stamp (hm_remove (fst e) m)
              in (fst r, fst e # snd r)))
      else (m, []))"
  by pat_completeness auto
termination
proof (relation "measure (\<lambda>(over, evictable, stamp, m). length m)")
  fix over evictable and stamp :: "'v \<Rightarrow> nat" and m :: "('k, 'v) hmap" and e
  assume "first_min_by (\<lambda>e. stamp (snd e)) (filter (\<lambda>e. evictable (fst e)) m) = Some e"
  then have "e \<in> set m" using first_min_by_Some [of _ "filter (\<lambda>e. evictable (fst e)) m" e] by auto
  then show "((over, evictable, stamp, hm_remove (fst e) m), over, evictable, stamp, m)
      \<in> measure (\<lambda>(over, evictable, stamp, m). length m)"
    by (auto intro!: length_hm_remove)
qed simp

declare evict_lru.simps [simp del]

lemma evict_lru_idle: "\<not> over m \<Longrightarrow> evict_lru over evictable stamp m = (m, [])"
  by (subst evict_lru.simps) simp

text \<open>Nothing but evictable entries goes, and the loop stops only within budget or with nothing
  left to evict.\<close>

lemma evict_lru_spec:
  "fst (evict_lru over evictable stamp m) = filter (\<lambda>e. fst e \<notin> set (snd (evict_lru over evictable stamp m))) m
   \<and> (\<forall>k \<in> set (snd (evict_lru over evictable stamp m)). evictable k \<and> k \<in> fst ` set m)
   \<and> (over (fst (evict_lru over evictable stamp m)) \<longrightarrow>
        (\<forall>e \<in> set (fst (evict_lru over evictable stamp m)). \<not> evictable (fst e)))"
proof (induction over evictable stamp m rule: evict_lru.induct)
  case (1 over evictable stamp m)
  let ?min = "first_min_by (\<lambda>e. stamp (snd e)) (filter (\<lambda>e. evictable (fst e)) m)"
  show ?case
  proof (cases "over m")
    case False
    then show ?thesis by (simp add: evict_lru_idle)
  next
    case True
    show ?thesis
    proof (cases ?min)
      case None
      then have e: "evict_lru over evictable stamp m = (m, [])"
        using True by (subst evict_lru.simps) simp
      have "filter (\<lambda>e. evictable (fst e)) m = []" using None by (simp only: first_min_by_None)
      then show ?thesis by (auto simp: e filter_empty_conv)
    next
      case (Some e)
      let ?r = "evict_lru over evictable stamp (hm_remove (fst e) m)"
      have eq: "evict_lru over evictable stamp m = (fst ?r, fst e # snd ?r)"
        using True Some by (subst evict_lru.simps) (simp add: Let_def)
      have e: "e \<in> set m" "evictable (fst e)" using first_min_by_Some [OF Some] by auto
      note IH = "1.IH" [OF True Some]
      have f: "fst ?r = filter (\<lambda>x. fst x \<notin> set (snd ?r)) (hm_remove (fst e) m)" using IH by blast
      have "fst ?r = filter (\<lambda>x. fst x \<notin> set (fst e # snd ?r)) m"
        by (subst f) (simp add: hm_remove_def conj_commute)
      moreover have "\<forall>k \<in> set (snd ?r). evictable k \<and> k \<in> fst ` set m"
        using IH by (auto simp: hm_remove_def)
      ultimately show ?thesis unfolding eq using IH e by auto
    qed
  qed
qed

lemma evict_lru_ok: "hm_ok m \<Longrightarrow> hm_ok (fst (evict_lru over evictable stamp m))"
  using evict_lru_spec [of over evictable stamp m]
  by (auto simp: hm_ok_def hm_keys_def distinct_map inj_on_def)

lemma evict_lru_subset: "set (fst (evict_lru over evictable stamp m)) \<subseteq> set m"
  using evict_lru_spec [of over evictable stamp m] by (metis filter_is_subset)

lemma evict_lru_keeps:
  "\<not> evictable k \<Longrightarrow> hm_get k (fst (evict_lru over evictable stamp m)) = hm_get k m"
proof (induction over evictable stamp m rule: evict_lru.induct)
  case (1 over evictable stamp m)
  show ?case
  proof (cases "over m")
    case True
    show ?thesis
    proof (cases "first_min_by (\<lambda>e. stamp (snd e)) (filter (\<lambda>e. evictable (fst e)) m)")
      case None
      with True show ?thesis by (subst evict_lru.simps) simp
    next
      case (Some e)
      then have "evictable (fst e)" using first_min_by_Some [OF Some] by auto
      with 1 True Some show ?thesis by (subst evict_lru.simps) (auto simp: Let_def)
    qed
  qed (simp add: evict_lru_idle)
qed

text \<open>Order of eviction: an evicted entry's stamp is at most that of every evictable entry kept.\<close>

lemma evict_lru_least:
  "e \<in> set m \<Longrightarrow> fst e \<in> set (snd (evict_lru over evictable stamp m)) \<Longrightarrow>
   x \<in> set (fst (evict_lru over evictable stamp m)) \<Longrightarrow> evictable (fst x) \<Longrightarrow> hm_ok m \<Longrightarrow>
   stamp (snd e) \<le> stamp (snd x)"
proof (induction over evictable stamp m rule: evict_lru.induct)
  case (1 over evictable stamp m)
  show ?case
  proof (cases "over m")
    case False
    with "1.prems"(2) show ?thesis by (simp add: evict_lru_idle)
  next
    case True
    show ?thesis
    proof (cases "first_min_by (\<lambda>e. stamp (snd e)) (filter (\<lambda>e. evictable (fst e)) m)")
      case None
      with True "1.prems"(2) show ?thesis by (subst (asm) evict_lru.simps) simp
    next
      case (Some d)
      let ?r = "evict_lru over evictable stamp (hm_remove (fst d) m)"
      have eq: "evict_lru over evictable stamp m = (fst ?r, fst d # snd ?r)"
        using True Some by (subst evict_lru.simps) (simp add: Let_def)
      have x: "x \<in> set (fst ?r)" "x \<in> set m"
        using "1.prems"(3) eq evict_lru_subset [of over evictable stamp "hm_remove (fst d) m"]
        by (auto simp: set_hm_remove)
      have least: "stamp (snd d) \<le> stamp (snd x)" and d: "d \<in> set m"
        using first_min_by_Some [OF Some] x "1.prems"(4) by (cases x, auto)+
      show ?thesis
      proof (cases "fst e = fst d")
        case same: True
        then have "e = d" using d "1.prems"(1,5)
          by (metis hm_mem_iff option.inject prod.collapse)
        with least show ?thesis by simp
      next
        case False
        with "1.prems"(1,2) eq have "e \<in> set (hm_remove (fst d) m)" "fst e \<in> set (snd ?r)"
          by (auto simp: set_hm_remove)
        with "1.IH" [OF True Some] x "1.prems"(4,5) show ?thesis by simp
      qed
    qed
  qed
qed

end
