(* ===== verification/Shard_File.thy ===== *)
theory Shard_File
  imports Vector_Index Hash_Map
begin

text \<open>
  Persisted shards (\<open>src/vector/shard_file.rs\<close>): the header, the payload and the id sidecar of a
  generation, the \<open>CURRENT\<close> pointer, writing a generation as the sequence of its visible
  file-system effects, opening, the rollback fence and the reaping of old generations.

  A root is one repository's directory: the text of \<open>CURRENT\<close> and the generation directories
  whose names are numbers. A temporary file is invisible until it is renamed, so writing,
  syncing and renaming one file is one effect; a failure or a crash between two effects leaves
  a prefix of them. Reading errors of existing files are outside the model, and generation
  numbers do not reach \<open>2 ^ 64\<close>.
\<close>

definition MAGIC :: nat where
  "MAGIC = 0x31465356"

definition FORMAT_VERSION :: nat where
  "FORMAT_VERSION = 1"

definition HEADER_BYTES :: nat where
  "HEADER_BYTES = 64"

record gen_dir =
  gd_f32 :: "u8 list option"
  gd_ids :: "u8 list option"
  gd_identity :: "str option"

record shard_root =
  rt_current :: "str option"
  rt_gens :: "(nat, gen_dir) hmap"

definition repo_shard_root :: "str \<Rightarrow> str \<Rightarrow> str option" where
  "repo_shard_root data_dir repo =
     map_option (path_join (path_join data_dir ''vector_shards'')) (sanitize_repo_name repo)"

definition read_current_gen :: "shard_root \<Rightarrow> nat option" where
  "read_current_gen root =
     (case rt_current root of None \<Rightarrow> None | Some s \<Rightarrow> parse_u64 (trim s))"

definition invalidate_current_if_generation :: "shard_root \<Rightarrow> nat option \<Rightarrow> shard_root \<times> bool" where
  "invalidate_current_if_generation root expected =
     (if read_current_gen root \<noteq> expected then (root, False)
      else if rt_current root = None then (root, False)
      else (root\<lparr>rt_current := None\<rparr>, True))"

text \<open>\<open>Option::max\<close>: \<open>None\<close> is least.\<close>

definition option_max :: "nat option \<Rightarrow> nat option \<Rightarrow> nat option" where
  "option_max a b =
     (case a of None \<Rightarrow> b | Some x \<Rightarrow> (case b of None \<Rightarrow> a | Some y \<Rightarrow> Some (max x y)))"

definition next_generation :: "shard_root \<Rightarrow> nat" where
  "next_generation root =
     (let newest_dir = fold (\<lambda>g m. option_max m (Some g)) (hm_keys (rt_gens root)) None in
      case option_max newest_dir (read_current_gen root) of None \<Rightarrow> 0 | Some g \<Rightarrow> g + 1)"

section \<open>Writing a generation\<close>

definition shard_header :: "nat \<Rightarrow> nat \<Rightarrow> nat \<Rightarrow> u8 list" where
  "shard_header d cnt content_stamp =
     le_bytes 4 MAGIC @ le_bytes 2 FORMAT_VERSION @ le_bytes 2 d @ le_bytes 8 cnt
       @ [1] @ replicate 7 0 @ le_bytes 8 content_stamp @ replicate 32 0"

definition encode_id :: "chunk_id \<Rightarrow> u8 list" where
  "encode_id i =
     (let fb = as_bytes (ci_file i) in
      le_bytes 4 (length fb) @ fb @ u32_le (ci_line_start i) @ u32_le (ci_line_end i))"

definition encode_ids :: "chunk_id list \<Rightarrow> u8 list" where
  "encode_ids cids = le_bytes 8 (length cids) @ concat (map encode_id cids)"

datatype fs_effect =
    CreateGen nat
  | RenameF32 nat "u8 list"
  | RenameIds nat "u8 list"
  | WriteIdentity nat str
  | RenameCurrent str

definition empty_gen :: gen_dir where
  "empty_gen = \<lparr>gd_f32 = None, gd_ids = None, gd_identity = None\<rparr>"

fun fs_apply :: "fs_effect \<Rightarrow> shard_root \<Rightarrow> shard_root" where
  "fs_apply (CreateGen g) root =
     (if hm_contains g (rt_gens root) then root
      else root\<lparr>rt_gens := hm_insert g empty_gen (rt_gens root)\<rparr>)"
| "fs_apply (RenameF32 g bytes) root =
     root\<lparr>rt_gens := hm_update g (\<lambda>d. d\<lparr>gd_f32 := Some bytes\<rparr>) (rt_gens root)\<rparr>"
| "fs_apply (RenameIds g bytes) root =
     root\<lparr>rt_gens := hm_update g (\<lambda>d. d\<lparr>gd_ids := Some bytes\<rparr>) (rt_gens root)\<rparr>"
| "fs_apply (WriteIdentity g s) root =
     root\<lparr>rt_gens := hm_update g (\<lambda>d. d\<lparr>gd_identity := Some s\<rparr>) (rt_gens root)\<rparr>"
| "fs_apply (RenameCurrent s) root = root\<lparr>rt_current := Some s\<rparr>"

definition write_current_gen :: "nat \<Rightarrow> fs_effect" where
  "write_current_gen generation = RenameCurrent (show_nat generation)"

definition write_effects :: "shard_root \<Rightarrow> vindex \<Rightarrow> nat \<Rightarrow> str \<Rightarrow> fs_effect list" where
  "write_effects root index content_stamp identity =
     (let nxt = next_generation root in
      case raw_parts index of
        (emb, cids, d) \<Rightarrow>
          [CreateGen nxt,
           RenameF32 nxt (shard_header d (length cids) content_stamp @ bytes_of_words emb),
           RenameIds nxt (encode_ids cids),
           WriteIdentity nxt identity,
           write_current_gen nxt])"

text \<open>The root after the first \<open>k\<close> effects; all five when nothing fails.\<close>

definition write_prefix :: "nat \<Rightarrow> shard_root \<Rightarrow> vindex \<Rightarrow> nat \<Rightarrow> str \<Rightarrow> shard_root" where
  "write_prefix k root index content_stamp identity =
     fold fs_apply (take k (write_effects root index content_stamp identity)) root"

definition write_new_generation ::
  "shard_root \<Rightarrow> vindex \<Rightarrow> nat \<Rightarrow> str \<Rightarrow> shard_root \<times> nat" where
  "write_new_generation root index content_stamp identity =
     (fold fs_apply (write_effects root index content_stamp identity) root, next_generation root)"

section \<open>Opening\<close>

definition decode_id :: "u8 list \<Rightarrow> (chunk_id \<times> u8 list) option" where
  "decode_id buf =
     (if length buf < 4 then None
      else
        (let flen = from_le (take 4 buf); b1 = drop 4 buf in
         if length b1 < flen + 8 then None
         else
           (case from_utf8 (take flen b1) of
              None \<Rightarrow> None
            | Some f \<Rightarrow>
                (let b2 = drop flen b1 in
                 Some (\<lparr>ci_file = f, ci_line_start = u32_from_le (take 4 b2),
                        ci_line_end = u32_from_le (take 4 (drop 4 b2))\<rparr>,
                       drop 8 b2)))))"

definition decode_ids :: "u8 list \<Rightarrow> nat \<Rightarrow> chunk_id list option" where
  "decode_ids buf expect_count =
     (if length buf < 8 then None
      else
        (let cnt = from_le (take 8 buf) in
         if cnt \<noteq> expect_count then None else decode_n decode_id cnt (drop 8 buf)))"

text \<open>Sizes are computed in 64 bits and wrap.\<close>

definition usize :: "nat \<Rightarrow> nat" where
  "usize n = n mod 2 ^ 64"

definition open_current_checked ::
  "shard_root \<Rightarrow> nat \<Rightarrow> nat option \<Rightarrow> (vindex \<times> nat) option" where
  "open_current_checked root expected_dim expected_stamp =
     (case read_current_gen root of
        None \<Rightarrow> None
      | Some generation \<Rightarrow>
          (case hm_get generation (rt_gens root) of
             None \<Rightarrow> None
           | Some gd \<Rightarrow>
               (case (gd_f32 gd, gd_ids gd) of
                  (Some m, Some ids_bytes) \<Rightarrow>
                    (if length m < HEADER_BYTES then None
                     else
                       (let magic = from_le (take 4 m);
                            version = from_le (take 2 (drop 4 m));
                            d = from_le (take 2 (drop 6 m));
                            cnt = from_le (take 8 (drop 8 m));
                            stamp = from_le (take 8 (drop 24 m));
                            f32_len = usize (cnt * d)
                        in if magic \<noteq> MAGIC \<or> version \<noteq> FORMAT_VERSION then None
                           else if expected_dim \<noteq> 0 \<and> d \<noteq> expected_dim then None
                           else if d = 0 then None
                           else if length m \<noteq> usize (HEADER_BYTES + usize (f32_len * 4)) then None
                           else if (case expected_stamp of None \<Rightarrow> False | Some e \<Rightarrow> stamp \<noteq> e) then None
                           else
                             (case decode_ids ids_bytes cnt of
                                None \<Rightarrow> None
                              | Some cids \<Rightarrow> Some (from_mmap m HEADER_BYTES f32_len d cids, generation))))
                | _ \<Rightarrow> None)))"

definition open_current :: "shard_root \<Rightarrow> nat \<Rightarrow> nat \<Rightarrow> (vindex \<times> nat) option" where
  "open_current root expected_dim expected_stamp =
     open_current_checked root expected_dim (Some expected_stamp)"

definition open_current_stale :: "shard_root \<Rightarrow> str \<Rightarrow> vindex option" where
  "open_current_stale root identity =
     (case read_current_gen root of
        None \<Rightarrow> None
      | Some generation \<Rightarrow>
          (let stored = (case hm_get generation (rt_gens root) of None \<Rightarrow> None | Some gd \<Rightarrow> gd_identity gd) in
           if stored \<noteq> Some identity then None
           else map_option fst (open_current_checked root 0 None)))"

definition reap_stale_generations :: "shard_root \<Rightarrow> nat list \<Rightarrow> shard_root" where
  "reap_stale_generations root keep =
     (let current = read_current_gen root in
      root\<lparr>rt_gens := filter (\<lambda>e. Some (fst e) = current \<or> fst e \<in> set keep) (rt_gens root)\<rparr>)"

section \<open>The id format reads back\<close>

interpretation chunk_ids: codec encode_id decode_id "\<lambda>i. str_len (ci_file i) < 2 ^ 32"
proof unfold_locales
  fix i :: chunk_id and rest
  assume f: "str_len (ci_file i) < 2 ^ 32"
  let ?fb = "as_bytes (ci_file i)"
  have "from_le (le_bytes 4 (length ?fb)) = length ?fb"
    by (rule from_le_bytes_less) (use f in simp)
  then show "decode_id (encode_id i @ rest) = Some (i, rest)"
    by (simp add: decode_id_def encode_id_def Let_def)
qed

lemma decode_encode_ids:
  assumes "\<forall>i \<in> set cids. str_len (ci_file i) < 2 ^ 32" "length cids < 2 ^ 64"
  shows "decode_ids (encode_ids cids) (length cids) = Some cids"
proof -
  have "from_le (le_bytes 8 (length cids)) = length cids"
    by (rule from_le_bytes_less) (use assms(2) in simp)
  then show ?thesis using chunk_ids.decode_all [OF assms(1), of "[]"]
    by (simp add: decode_ids_def encode_ids_def Let_def)
qed

section \<open>Generations\<close>

lemma fold_option_max:
  "fold (\<lambda>g m. option_max m (Some g)) gs (Some a) = Some (fold max gs a)"
  by (induction gs arbitrary: a) (simp_all add: option_max_def max.commute)

lemma fold_max_ge: "a \<le> fold max gs (a :: nat) \<and> (\<forall>g \<in> set gs. g \<le> fold max gs a)"
proof (induction gs arbitrary: a)
  case (Cons g gs)
  have "max g a \<le> fold max gs (max g a)" "\<forall>h \<in> set gs. h \<le> fold max gs (max g a)"
    using Cons [of "max g a"] by auto
  then show ?case by auto
qed simp

lemma fold_option_max_ge:
  assumes "g \<in> set gs"
  shows "\<exists>n. fold (\<lambda>g m. option_max m (Some g)) gs None = Some n \<and> g \<le> n"
proof (cases gs)
  case Nil
  with assms show ?thesis by simp
next
  case (Cons a as)
  then have "fold (\<lambda>g m. option_max m (Some g)) gs None = Some (fold max as a)"
    using fold_option_max [of as a] by (simp add: option_max_def [of None])
  with assms Cons fold_max_ge [of a as] show ?thesis by auto
qed

lemma next_generation_fresh: "g \<in> set (hm_keys (rt_gens root)) \<Longrightarrow> g < next_generation root"
  using fold_option_max_ge [of g "hm_keys (rt_gens root)"]
  by (auto simp: next_generation_def option_max_def Let_def split: option.splits)

lemma next_generation_current: "read_current_gen root = Some g \<Longrightarrow> g < next_generation root"
  by (auto simp: next_generation_def option_max_def Let_def split: option.splits)

lemma next_generation_not_key: "hm_get (next_generation root) (rt_gens root) = None"
proof -
  have "next_generation root \<notin> set (hm_keys (rt_gens root))"
    using next_generation_fresh less_irrefl by blast
  then show ?thesis by (auto simp: hm_get_def hm_keys_def map_of_eq_None_iff)
qed

text \<open>Effects on the fresh generation do not change what another generation holds.\<close>

lemma fs_apply_other:
  "eff \<in> {CreateGen n, RenameF32 n b, RenameIds n b', WriteIdentity n s} \<Longrightarrow> g \<noteq> n \<Longrightarrow>
   rt_current (fs_apply eff root) = rt_current root
   \<and> hm_get g (rt_gens (fs_apply eff root)) = hm_get g (rt_gens root)"
  by auto

lemma open_current_cong:
  "rt_current a = rt_current b \<Longrightarrow>
   (\<And>g. read_current_gen b = Some g \<Longrightarrow> hm_get g (rt_gens a) = hm_get g (rt_gens b)) \<Longrightarrow>
   open_current_checked a d st = open_current_checked b d st
   \<and> open_current_stale a i = open_current_stale b i"
proof -
  assume c: "rt_current a = rt_current b"
    and g: "\<And>g. read_current_gen b = Some g \<Longrightarrow> hm_get g (rt_gens a) = hm_get g (rt_gens b)"
  have r: "read_current_gen a = read_current_gen b" using c by (simp add: read_current_gen_def)
  have "open_current_checked a d st = open_current_checked b d st" for d st
    using g by (cases "read_current_gen b") (simp_all add: open_current_checked_def r)
  then show ?thesis using g by (cases "read_current_gen b") (simp_all add: open_current_stale_def r Let_def)
qed

lemma fold_fs_other:
  "\<forall>eff \<in> set effs. eff \<in> {CreateGen n, RenameF32 n b, RenameIds n b', WriteIdentity n s} \<Longrightarrow> g \<noteq> n \<Longrightarrow>
   rt_current (fold fs_apply effs root) = rt_current root
   \<and> hm_get g (rt_gens (fold fs_apply effs root)) = hm_get g (rt_gens root)"
proof (induction effs arbitrary: root)
  case (Cons e effs)
  then show ?case using fs_apply_other [of e n b b' s g root] by (metis fold_simps(2) list.set_intros(1,2))
qed simp

lemma write_effects_prefix:
  assumes "k < 5"
  shows "\<exists>b b' s. \<forall>eff \<in> set (take k (write_effects root vi st ident)).
    eff \<in> {CreateGen (next_generation root), RenameF32 (next_generation root) b,
           RenameIds (next_generation root) b', WriteIdentity (next_generation root) s}"
proof -
  have "take k (write_effects root vi st ident) = take k (take 4 (write_effects root vi st ident))"
    using assms by (simp add: min_def)
  moreover have "\<exists>b b' s. set (take 4 (write_effects root vi st ident))
      = {CreateGen (next_generation root), RenameF32 (next_generation root) b,
         RenameIds (next_generation root) b', WriteIdentity (next_generation root) s}"
    by (auto simp: write_effects_def Let_def raw_parts_def numeral_eq_Suc)
  ultimately show ?thesis using set_take_subset by (metis subset_iff)
qed

lemma write_prefix_invisible:
  assumes "k < 5"
  shows "open_current_checked (write_prefix k root vi st ident) d es = open_current_checked root d es
    \<and> open_current_stale (write_prefix k root vi st ident) i = open_current_stale root i"
proof -
  let ?n = "next_generation root"
  obtain b b' s where effs: "\<forall>eff \<in> set (take k (write_effects root vi st ident)).
      eff \<in> {CreateGen ?n, RenameF32 ?n b, RenameIds ?n b', WriteIdentity ?n s}"
    using write_effects_prefix [OF assms] by blast
  note o = fold_fs_other [OF effs, of _ root]
  have "rt_current (write_prefix k root vi st ident) = rt_current root"
    unfolding write_prefix_def using o [of "Suc ?n"] by simp
  moreover have "read_current_gen root = Some g \<Longrightarrow>
      hm_get g (rt_gens (write_prefix k root vi st ident)) = hm_get g (rt_gens root)" for g
    unfolding write_prefix_def using o [of g] next_generation_current [of root g] by simp
  ultimately show ?thesis by (rule open_current_cong)
qed

section \<open>Reading back a generation\<close>

lemma write_new_generation_root:
  "rt_current (fst (write_new_generation root vi st ident)) = Some (show_nat (next_generation root))
   \<and> hm_get (next_generation root) (rt_gens (fst (write_new_generation root vi st ident)))
     = Some \<lparr>gd_f32 = Some (shard_header (dim vi) (length (chunk_ids vi)) st
                 @ bytes_of_words (as_slice (store vi))),
             gd_ids = Some (encode_ids (chunk_ids vi)), gd_identity = Some ident\<rparr>"
  using next_generation_not_key [of root]
  by (simp add: write_new_generation_def write_effects_def raw_parts_def write_current_gen_def
      hm_contains_iff empty_gen_def Let_def)

lemma header_fields:
  fixes rest :: "u8 list"
  assumes "d < 2 ^ 16" "cnt < 2 ^ 64" "st < 2 ^ 64"
  defines "h \<equiv> shard_header d cnt st @ rest"
  shows "from_le (take 4 h) = MAGIC" "from_le (take 2 (drop 4 h)) = FORMAT_VERSION"
    "from_le (take 2 (drop 6 h)) = d" "from_le (take 8 (drop 8 h)) = cnt"
    "from_le (take 8 (drop 24 h)) = st" "drop 64 h = rest" "length h = 64 + length rest"
  using assms(1-3)
  by (simp_all add: h_def shard_header_def from_le_bytes MAGIC_def FORMAT_VERSION_def)

lemma write_open:
  assumes ok: "vindex_ok vi" and ne: "chunk_ids vi \<noteq> []"
    and d: "dim vi < 2 ^ 16" and st: "st < 2 ^ 64" and gen: "next_generation root < 2 ^ 64"
    and size: "64 + length (chunk_ids vi) * dim vi * 4 < 2 ^ 64"
    and fl: "\<forall>i \<in> set (chunk_ids vi). str_len (ci_file i) < 2 ^ 32"
    and es: "es = None \<or> es = Some st" and ed: "ed = 0 \<or> ed = dim vi"
  shows "\<exists>vi'. open_current_checked (fst (write_new_generation root vi st ident)) ed es
      = Some (vi', next_generation root)
    \<and> vindex_ok vi' \<and> content vi' = content vi \<and> is_mmap vi' \<and> dim vi' = dim vi
    \<and> vi' = from_mmap (shard_header (dim vi) (length (chunk_ids vi)) st @ bytes_of_words (as_slice (store vi)))
        64 (length (chunk_ids vi) * dim vi) (dim vi) (chunk_ids vi)"
proof -
  let ?n = "length (chunk_ids vi)"
  let ?emb = "bytes_of_words (as_slice (store vi))"
  let ?m = "shard_header (dim vi) ?n st @ ?emb"
  define R where "R = chunks_of (dim vi) (as_slice (store vi))"
  have r: "repr vi R" unfolding R_def by (rule ok_repr [OF ok])
  have d0: "dim vi \<noteq> 0" using ok ne by (simp add: vindex_ok_def)
  have "?n \<le> ?n * dim vi" using d0 by simp
  then have cnt: "?n < 2 ^ 64" "?n * dim vi < 2 ^ 64" using size by linarith+
  note h = header_fields [OF d cnt(1) st, of ?emb]
  have emb: "length (as_slice (store vi)) = ?n * dim vi" using ok by (simp add: vindex_ok_def)
  have len: "length ?m = 64 + ?n * dim vi * 4" using h(7) emb by simp
  have us: "usize (?n * dim vi) = ?n * dim vi" "usize (?n * dim vi * 4) = ?n * dim vi * 4"
    "usize (64 + ?n * dim vi * 4) = 64 + ?n * dim vi * 4"
    using size cnt by (simp_all add: usize_def)
  let ?root = "fst (write_new_generation root vi st ident)"
  have cur: "read_current_gen ?root = Some (next_generation root)"
    using write_new_generation_root [of root vi st ident] parse_show_nat [OF gen]
    by (simp add: read_current_gen_def)
  have gd: "hm_get (next_generation root) (rt_gens ?root)
      = Some \<lparr>gd_f32 = Some ?m, gd_ids = Some (encode_ids (chunk_ids vi)), gd_identity = Some ident\<rparr>"
    using write_new_generation_root by blast
  let ?vi' = "from_mmap ?m 64 (?n * dim vi) (dim vi) (chunk_ids vi)"
  have op: "open_current_checked ?root ed es = Some (?vi', next_generation root)"
  proof -
    define m where "m = ?m"
    note h' = h(1-5) [folded m_def]
    have l: "length m = 64 + ?n * dim vi * 4" using len by (simp add: m_def)
    have e: "\<not> (ed \<noteq> 0 \<and> dim vi \<noteq> ed)" "\<not> (case es of None \<Rightarrow> False | Some e \<Rightarrow> st \<noteq> e)"
      using ed es by auto
    have dec: "decode_ids (encode_ids (chunk_ids vi)) ?n = Some (chunk_ids vi)"
      by (rule decode_encode_ids [OF fl cnt(1)])
    show ?thesis
      unfolding open_current_checked_def cur option.case gd m_def [symmetric] gen_dir.simps prod.case
        HEADER_BYTES_def Let_def h' us
      using d0 e dec by (simp add: l us)
  qed
  have "take (?n * dim vi * 4) (drop 64 ?m) = bytes_of_words (concat R)"
    using r h(6) emb by (simp add: repr_def)
  from from_mmap_ok [OF this] have ok': "vindex_ok ?vi' \<and> content ?vi' = zip (chunk_ids vi) R"
    using r d0 ne by (simp add: repr_def)
  moreover have "zip (chunk_ids vi) R = content vi" using content_zip [OF ok] by (simp add: R_def)
  moreover have "is_mmap ?vi'" "dim ?vi' = dim vi" by (simp_all add: is_mmap_def from_mmap_def Let_def)
  ultimately show ?thesis using op ok' by auto
qed

text \<open>The reopened shard numbers no more extensions than the one that was written.\<close>

lemma intern_names: "intern k t = (i, t') \<Longrightarrow> set (tbl_names t') \<subseteq> insert k (set (tbl_names t))"
  by (auto simp: intern_def Let_def split: option.splits if_splits)

lemma intern_all_names:
  "intern_all ks t = (is, t') \<Longrightarrow> set (tbl_names t') \<subseteq> set ks \<union> set (tbl_names t)"
proof (induction ks arbitrary: t "is" t')
  case (Cons k ks)
  obtain e u where e: "intern k t = (e, u)" by (cases "intern k t")
  obtain js v where v: "intern_all ks u = (js, v)" by (cases "intern_all ks u")
  have "t' = v" using Cons.prems e v by (simp add: Let_def)
  with Cons.IH [OF v] intern_names [OF e] show ?case by auto
qed simp

lemma from_mmap_room:
  assumes ok: "vindex_ok vi" and room: "\<not> table_full (exts vi)"
    and ok': "vindex_ok (from_mmap m off n d (chunk_ids vi))"
  shows "\<not> table_full (exts (from_mmap m off n d (chunk_ids vi)))"
proof -
  let ?ks = "map (\<lambda>c. ext_key (ci_file c)) (chunk_ids vi)"
  obtain es t where it: "intern_all ?ks ext_table_default = (es, t)"
    by (cases "intern_all ?ks ext_table_default")
  have "set (tbl_names t) \<subseteq> set ?ks"
    using intern_all_names [OF it] by (simp add: ext_table_default_def)
  also have "set ?ks \<subseteq> set (tbl_names (exts vi))"
  proof
    fix k assume "k \<in> set ?ks"
    then obtain j where j: "j < length (chunk_ids vi)" "k = ext_key (ci_file (chunk_ids vi ! j))"
      by (auto simp: in_set_conv_nth)
    note r = ok_repr [OF ok]
    have "(chunk_ids vi ! j, ext_ids vi ! j, chunks_of (dim vi) (as_slice (store vi)) ! j) \<in> set (rows vi)"
      unfolding repr_rows [OF r] using r j by (auto simp: repr_def set_zip intro!: exI [of _ j])
    then have "id_right (exts vi) k (ext_ids vi ! j)"
      using ok j by (force simp: vindex_ok_def row_right_def)
    with room show "k \<in> set (tbl_names (exts vi))" by (auto simp: id_right_def split: if_splits)
  qed
  finally have "card (set (tbl_names t)) \<le> card (set (tbl_names (exts vi)))" by (simp add: card_mono)
  moreover have "exts (from_mmap m off n d (chunk_ids vi)) = t" by (simp add: from_mmap_def it)
  ultimately show ?thesis using ok ok' room
    by (simp add: vindex_ok_def ext_table_ok_def table_full_def distinct_card)
qed

section \<open>Properties\<close>

text \<open>C12: Writing a shard and opening it gives back the same chunk ids next to bit-identical
  vectors, memory-mapped, and every search on the reopened shard returns exactly what it
  returned before, scoped searches included, although the extension ids are not stored.\<close>

theorem shard_file_round_trip:
  assumes "vindex_ok vi" "chunk_ids vi \<noteq> []" "\<not> table_full (exts vi)"
    "dim vi < 2 ^ 16" "st < 2 ^ 64" "next_generation root < 2 ^ 64"
    "64 + length (chunk_ids vi) * dim vi * 4 < 2 ^ 64"
    "\<forall>i \<in> set (chunk_ids vi). str_len (ci_file i) < 2 ^ 32"
  shows "\<exists>vi'. open_current (fst (write_new_generation root vi st ident)) (dim vi) st
      = Some (vi', snd (write_new_generation root vi st ident))
    \<and> content vi' = content vi \<and> is_mmap vi'
    \<and> search_filtered sel srt vi' query k sf = search_filtered sel srt vi query k sf"
proof -
  obtain vi' where o: "open_current_checked (fst (write_new_generation root vi st ident)) (dim vi) (Some st)
      = Some (vi', next_generation root)"
    and ok': "vindex_ok vi'" "content vi' = content vi" "is_mmap vi'"
    and vi': "vi' = from_mmap (shard_header (dim vi) (length (chunk_ids vi)) st
        @ bytes_of_words (as_slice (store vi))) 64 (length (chunk_ids vi) * dim vi) (dim vi) (chunk_ids vi)"
    using write_open [OF assms(1,2,4-8), of "Some st" "dim vi" ident] by blast
  have "\<not> table_full (exts vi')" using from_mmap_room [OF assms(1,3)] ok'(1) unfolding vi' by blast
  then have "search_filtered sel srt vi' query k sf = search_filtered sel srt vi query k sf"
    using search_filtered_content ok' assms(1,3) by blast
  with o ok' show ?thesis by (auto simp: open_current_def write_new_generation_def)
qed

definition empty_root :: shard_root where
  "empty_root = \<lparr>rt_current = None, rt_gens = []\<rparr>"

lemma demo_index_shape: "chunk_ids demo_index = [demo_cid ''/r/a.rs'', demo_cid ''/r/README.md'', demo_cid ''/r/b.rs'']"
  "dim demo_index = 1"
  by (simp_all add: demo_index_def vindex_insert_def insert_one_def vindex_new_def Let_def)

theorem shard_file_round_trip_witness:
  "\<exists>vi'. open_current (fst (write_new_generation empty_root demo_index 7 ''m'')) (dim demo_index) 7
      = Some (vi', snd (write_new_generation empty_root demo_index 7 ''m''))
    \<and> content vi' = content demo_index \<and> is_mmap vi'
    \<and> search_filtered sort_select sort_by vi' [f32_one] 2 None
      = search_filtered sort_select sort_by demo_index [f32_one] 2 None"
  by (rule shard_file_round_trip [OF demo_index_ok _ demo_room])
    (simp_all add: demo_index_shape demo_cid_def str_len_def utf8_width_def code_def
      next_generation_def empty_root_def read_current_gen_def option_max_def hm_keys_def)

text \<open>C8: Writing a generation is crash-safe: whatever number of its effects took place,
  opening (fresh or stale, with any expectation) answers as before the write began, or as after
  it completed, never anything else.\<close>

theorem shard_write_atomic:
  "(open_current_checked (write_prefix k root vi st ident) d es = open_current_checked root d es
      \<and> open_current_stale (write_prefix k root vi st ident) i = open_current_stale root i)
   \<or> write_prefix k root vi st ident = fst (write_new_generation root vi st ident)"
proof (cases "k < 5")
  case True
  then show ?thesis using write_prefix_invisible by blast
next
  case False
  then have "take k (write_effects root vi st ident) = write_effects root vi st ident"
    by (simp add: write_effects_def Let_def raw_parts_def)
  then show ?thesis by (simp add: write_prefix_def write_new_generation_def)
qed

text \<open>A generation number is never reused: the number written is above every generation on
  disk and above the one \<open>CURRENT\<close> named, so a rollback that remembered the earlier pointer
  does not remove the new one, and the directories other readers have mapped do not change.\<close>

theorem generation_never_reused:
  assumes "next_generation root < 2 ^ 64"
  shows "(\<forall>g \<in> set (hm_keys (rt_gens root)). g < snd (write_new_generation root vi st ident)
        \<and> hm_get g (rt_gens (fst (write_new_generation root vi st ident))) = hm_get g (rt_gens root))
    \<and> invalidate_current_if_generation (fst (write_new_generation root vi st ident)) (read_current_gen root)
      = (fst (write_new_generation root vi st ident), False)"
proof -
  let ?root = "fst (write_new_generation root vi st ident)"
  have cur: "read_current_gen ?root = Some (next_generation root)"
    using write_new_generation_root [of root vi st ident] parse_show_nat [OF assms]
    by (simp add: read_current_gen_def)
  then have "read_current_gen ?root \<noteq> read_current_gen root"
    using next_generation_current less_irrefl by metis
  moreover have "hm_get g (rt_gens ?root) = hm_get g (rt_gens root)"
    if "g \<in> set (hm_keys (rt_gens root))" for g
    using next_generation_fresh [OF that]
    by (simp add: write_new_generation_def write_effects_def raw_parts_def write_current_gen_def
        next_generation_not_key hm_contains_iff Let_def)
  ultimately show ?thesis using next_generation_fresh
    by (simp add: invalidate_current_if_generation_def write_new_generation_def)
qed

definition one_gen_root :: shard_root where
  "one_gen_root = \<lparr>rt_current = Some (show_nat 0), rt_gens = [(0, empty_gen)]\<rparr>"

theorem generation_never_reused_witness:
  "(\<exists>g \<in> set (hm_keys (rt_gens one_gen_root)). g < snd (write_new_generation one_gen_root demo_index 7 ''m''))
    \<and> invalidate_current_if_generation (fst (write_new_generation one_gen_root demo_index 7 ''m''))
        (read_current_gen one_gen_root)
      = (fst (write_new_generation one_gen_root demo_index 7 ''m''), False)"
proof -
  have n: "next_generation one_gen_root < 2 ^ 64"
    by (simp add: next_generation_def one_gen_root_def read_current_gen_def parse_show_nat
        hm_keys_def option_max_def)
  have z: "0 \<in> set (hm_keys (rt_gens one_gen_root))" by (simp add: one_gen_root_def hm_keys_def)
  note g = generation_never_reused [OF n, of demo_index 7 "''m''"]
  show ?thesis
  proof (rule conjI)
    show "\<exists>g \<in> set (hm_keys (rt_gens one_gen_root)). g < snd (write_new_generation one_gen_root demo_index 7 ''m'')"
    proof (rule bexI)
      show "0 < snd (write_new_generation one_gen_root demo_index 7 ''m'')"
        by (rule g [THEN conjunct1, THEN bspec, OF z, THEN conjunct1])
    qed (rule z)
  qed (rule g [THEN conjunct2])
qed

end
