(* ===== verification/Sharded.thy ===== *)
theory Sharded
  imports Vector_Index Hash_Map
begin

text \<open>
  The sharded vector index (\<open>src/vector/sharded.rs\<close>): one shard per repository, the mutation
  fence around destructive updates, epochs, hidden incremental bases and stale snapshots, the
  identity fence of every search, and eviction of the least recently used shards down to the
  resident cap.

  The structure lives behind one lock, so its life is a sequence of whole operations. \<open>win\<close> is
  \<open>cfg!(windows)\<close>; \<open>sel\<close> and \<open>srt\<close> are the library's selection and sort. The logical clock and
  the epochs only count up by one and are natural numbers.
\<close>

record shard =
  sh_index :: vindex
  sh_identity :: str
  last_touched :: nat

definition shard_new :: "vindex \<Rightarrow> str \<Rightarrow> nat \<Rightarrow> shard" where
  "shard_new index identity stamp = \<lparr>sh_index = index, sh_identity = identity, last_touched = stamp\<rparr>"

record sharded_search =
  ss_results :: "search_result list"
  ss_cold_repos :: "str list"

datatype scoped_search = Hit sharded_search | IdentityMismatch str | Cold

record scoped_all =
  sa_results :: "search_result list"
  sa_cold_repos :: "str list"
  sa_mismatch_repos :: "(str \<times> str) list"

datatype shard_match = MatchHit | MatchMismatch str | MatchCold

record sharded =
  shards :: "(str, shard) hmap"
  mutating_repos :: "str set"
  pending_incremental :: "(str, shard) hmap"
  stale :: "(str, shard) hmap"
  incremental_identity :: "(str, str) hmap"
  epochs :: "str \<rightharpoonup> nat"
  clock :: nat
  cap_bytes :: nat

definition sharded_new :: "nat \<Rightarrow> sharded" where
  "sharded_new cap =
     \<lparr>shards = [], mutating_repos = {}, pending_incremental = [], stale = [],
      incremental_identity = [], epochs = Map.empty, clock = 0, cap_bytes = cap\<rparr>"

definition sharded_is_empty :: "sharded \<Rightarrow> bool" where
  "sharded_is_empty s = list_all (\<lambda>e. vindex_is_empty (sh_index (snd e))) (shards s)"

definition shards_bytes :: "(str, shard) hmap \<Rightarrow> nat" where
  "shards_bytes m = sum_list (map (\<lambda>e. byte_size (sh_index (snd e))) m)"

definition resident_bytes :: "sharded \<Rightarrow> nat" where
  "resident_bytes s = shards_bytes (shards s)"

definition repo_key :: "bool \<Rightarrow> str \<Rightarrow> str" where
  "repo_key win repo = normalize_repo_path win repo"

definition repo_keys :: "bool \<Rightarrow> str list \<Rightarrow> str list" where
  "repo_keys win repos = map (repo_key win) repos"

definition is_resident :: "bool \<Rightarrow> sharded \<Rightarrow> str \<Rightarrow> bool" where
  "is_resident win s repo =
     (let r = repo_key win repo in r \<notin> mutating_repos s \<and> hm_contains r (shards s))"

definition is_mutating :: "bool \<Rightarrow> sharded \<Rightarrow> str \<Rightarrow> bool" where
  "is_mutating win s repo = (repo_key win repo \<in> mutating_repos s)"

definition mutation_epoch :: "bool \<Rightarrow> sharded \<Rightarrow> str \<Rightarrow> nat" where
  "mutation_epoch win s repo = (case epochs s (repo_key win repo) of None \<Rightarrow> 0 | Some e \<Rightarrow> e)"

definition bump_epoch :: "str \<Rightarrow> sharded \<Rightarrow> sharded" where
  "bump_epoch key s =
     s\<lparr>epochs := (epochs s)(key \<mapsto> (case epochs s key of None \<Rightarrow> 0 | Some e \<Rightarrow> e) + 1)\<rparr>"

text \<open>\<open>next_stamp\<close>: the new value of the clock.\<close>

definition tick :: "sharded \<Rightarrow> nat \<times> sharded" where
  "tick s = (clock s + 1, s\<lparr>clock := clock s + 1\<rparr>)"

section \<open>Updates\<close>

definition or_else :: "'a option \<Rightarrow> 'a option \<Rightarrow> 'a option" where
  "or_else a b = (case a of None \<Rightarrow> b | Some _ \<Rightarrow> a)"

definition retain_stale :: "str \<Rightarrow> shard option \<Rightarrow> sharded \<Rightarrow> sharded" where
  "retain_stale repo shard s =
     (case shard of None \<Rightarrow> s | Some sh \<Rightarrow> s\<lparr>stale := hm_insert repo sh (stale s)\<rparr>)"

definition begin_full_update :: "bool \<Rightarrow> str \<Rightarrow> sharded \<Rightarrow> sharded" where
  "begin_full_update win repo0 s0 =
     (let repo = repo_key win repo0;
          s1 = bump_epoch repo s0;
          old = hm_get repo (shards s1);
          s2 = s1\<lparr>shards := hm_remove repo (shards s1)\<rparr>;
          pend = hm_get repo (pending_incremental s2);
          s3 = s2\<lparr>pending_incremental := hm_remove repo (pending_incremental s2)\<rparr>;
          s4 = retain_stale repo (or_else old pend) s3
      in s4\<lparr>incremental_identity := hm_remove repo (incremental_identity s4),
            mutating_repos := insert repo (mutating_repos s4)\<rparr>)"

definition note_incremental_identity :: "bool \<Rightarrow> str \<Rightarrow> str \<Rightarrow> sharded \<Rightarrow> sharded" where
  "note_incremental_identity win repo0 identity s =
     (let repo = repo_key win repo0 in
      if repo \<in> mutating_repos s
      then s\<lparr>incremental_identity := hm_insert repo identity (incremental_identity s)\<rparr>
      else s)"

definition get_incremental_identity :: "bool \<Rightarrow> sharded \<Rightarrow> str \<Rightarrow> str option" where
  "get_incremental_identity win s repo = hm_get (repo_key win repo) (incremental_identity s)"

definition has_stale :: "bool \<Rightarrow> sharded \<Rightarrow> str \<Rightarrow> bool" where
  "has_stale win s repo0 =
     (let repo = repo_key win repo0 in
      hm_contains repo (pending_incremental s) \<or> hm_contains repo (stale s))"

definition begin_incremental_update :: "bool \<Rightarrow> str \<Rightarrow> sharded \<Rightarrow> sharded" where
  "begin_incremental_update win repo0 s0 =
     (let repo = repo_key win repo0;
          s1 = bump_epoch repo s0;
          s2 = s1\<lparr>pending_incremental := hm_remove repo (pending_incremental s1)\<rparr>;
          s3 = (case hm_get repo (shards s2) of
                  None \<Rightarrow> s2
                | Some sh \<Rightarrow> s2\<lparr>shards := hm_remove repo (shards s2),
                                 pending_incremental := hm_insert repo sh (pending_incremental s2)\<rparr>)
      in s3\<lparr>mutating_repos := insert repo (mutating_repos s3)\<rparr>)"

section \<open>Installation and eviction\<close>

text \<open>\<open>evict_to_cap\<close>; the second result is the keys evicted, in order.\<close>

definition evict_shards ::
  "bool \<Rightarrow> nat \<Rightarrow> str \<Rightarrow> str list \<Rightarrow> (str, shard) hmap \<Rightarrow> (str, shard) hmap \<times> str list" where
  "evict_shards win cap protected active m =
     (if cap = 0 then (m, [])
      else evict_lru (\<lambda>m. cap < shards_bytes m)
             (\<lambda>r. r \<noteq> repo_key win protected \<and> r \<notin> set (repo_keys win active)) last_touched m)"

definition evict_to_cap :: "bool \<Rightarrow> str \<Rightarrow> str list \<Rightarrow> sharded \<Rightarrow> sharded" where
  "evict_to_cap win protected active s =
     s\<lparr>shards := fst (evict_shards win (cap_bytes s) protected active (shards s))\<rparr>"

definition install_shard :: "bool \<Rightarrow> str \<Rightarrow> vindex \<Rightarrow> str \<Rightarrow> str list \<Rightarrow> sharded \<Rightarrow> sharded" where
  "install_shard win repo0 index identity active s =
     (let repo = repo_key win repo0 in
      if vindex_is_empty index then s\<lparr>shards := hm_remove repo (shards s)\<rparr>
      else
        (let t = tick s
         in evict_to_cap win repo active
              ((snd t)\<lparr>shards := hm_insert repo (shard_new index identity (fst t)) (shards s)\<rparr>)))"

definition evict_repo :: "bool \<Rightarrow> str \<Rightarrow> sharded \<Rightarrow> sharded" where
  "evict_repo win repo s = s\<lparr>shards := hm_remove (repo_key win repo) (shards s)\<rparr>"

definition apply_incremental ::
  "bool \<Rightarrow> str \<Rightarrow> str list \<Rightarrow> (chunk_id \<times> f32 list) list \<Rightarrow> str \<Rightarrow> str list \<Rightarrow> sharded \<Rightarrow> sharded" where
  "apply_incremental win repo0 removed_files new_vectors identity active s0 =
     (let repo = repo_key win repo0;
          t = tick (bump_epoch repo s0);
          s = snd t
      in case hm_get repo (shards s) of
           None \<Rightarrow> s
         | Some sh \<Rightarrow>
             (let index = vindex_insert (remove_files (sh_index sh) (set removed_files)) new_vectors;
                  s' = s\<lparr>shards := hm_update repo (\<lambda>_. shard_new index identity (fst t)) (shards s)\<rparr>
              in if vindex_is_empty index then evict_repo win repo s'
                 else evict_to_cap win repo active s'))"

definition replace_repo ::
  "bool \<Rightarrow> str \<Rightarrow> (chunk_id \<times> f32 list) list \<Rightarrow> str \<Rightarrow> str list \<Rightarrow> sharded \<Rightarrow> sharded" where
  "replace_repo win repo0 new_vectors identity active s =
     (let repo = repo_key win repo0
      in install_shard win repo (vindex_insert vindex_new new_vectors) identity active
           (s\<lparr>shards := hm_remove repo (shards s)\<rparr>))"

definition install_shard_if_not_mutating ::
  "bool \<Rightarrow> str \<Rightarrow> vindex \<Rightarrow> str \<Rightarrow> str list \<Rightarrow> nat \<Rightarrow> sharded \<Rightarrow> sharded \<times> bool" where
  "install_shard_if_not_mutating win repo0 index identity active scan_epoch s =
     (let repo = repo_key win repo0 in
      if repo \<in> mutating_repos s \<or> mutation_epoch win s repo \<noteq> scan_epoch then (s, False)
      else (install_shard win repo index identity active s, True))"

definition publish_full_update ::
  "bool \<Rightarrow> str \<Rightarrow> (chunk_id \<times> f32 list) list \<Rightarrow> str \<Rightarrow> str list \<Rightarrow> sharded \<Rightarrow> sharded" where
  "publish_full_update win repo0 new_vectors identity active s0 =
     (let repo = repo_key win repo0;
          s1 = bump_epoch repo s0;
          s2 = s1\<lparr>pending_incremental := hm_remove repo (pending_incremental s1),
                  stale := hm_remove repo (stale s1),
                  incremental_identity := hm_remove repo (incremental_identity s1)\<rparr>;
          s3 = replace_repo win repo new_vectors identity active s2
      in s3\<lparr>mutating_repos := mutating_repos s3 - {repo}\<rparr>)"

definition publish_incremental_update ::
  "bool \<Rightarrow> str \<Rightarrow> str list \<Rightarrow> (chunk_id \<times> f32 list) list \<Rightarrow> str \<Rightarrow> str list \<Rightarrow> sharded \<Rightarrow> sharded" where
  "publish_incremental_update win repo0 removed_files new_vectors identity active s0 =
     (let repo = repo_key win repo0;
          s1 = (case hm_get repo (pending_incremental s0) of
                  None \<Rightarrow> s0
                | Some sh \<Rightarrow>
                    apply_incremental win repo removed_files new_vectors identity active
                      (s0\<lparr>pending_incremental := hm_remove repo (pending_incremental s0),
                          shards := hm_insert repo sh (shards s0)\<rparr>));
          s2 = bump_epoch repo
                 (s1\<lparr>stale := hm_remove repo (stale s1),
                     incremental_identity := hm_remove repo (incremental_identity s1)\<rparr>)
      in s2\<lparr>mutating_repos := mutating_repos s2 - {repo}\<rparr>)"

definition abort_update_fail_closed :: "bool \<Rightarrow> str \<Rightarrow> sharded \<Rightarrow> sharded" where
  "abort_update_fail_closed win repo0 s0 =
     (let repo = repo_key win repo0;
          s1 = bump_epoch repo s0;
          live = hm_get repo (shards s1);
          pend = hm_get repo (pending_incremental s1);
          s2 = s1\<lparr>shards := hm_remove repo (shards s1),
                  pending_incremental := hm_remove repo (pending_incremental s1)\<rparr>;
          s3 = retain_stale repo (or_else live pend) s2
      in s3\<lparr>incremental_identity := hm_remove repo (incremental_identity s3),
            mutating_repos := insert repo (mutating_repos s3)\<rparr>)"

definition install_stale :: "bool \<Rightarrow> str \<Rightarrow> vindex \<Rightarrow> str \<Rightarrow> sharded \<Rightarrow> sharded \<times> bool" where
  "install_stale win repo0 index identity s =
     (let repo = repo_key win repo0 in
      if vindex_is_empty index \<or> repo \<notin> mutating_repos s
         \<or> hm_contains repo (pending_incremental s) \<or> hm_contains repo (stale s)
      then (s, False)
      else
        (let t = tick s
         in ((snd t)\<lparr>stale := hm_insert repo (shard_new index identity (fst t)) (stale s)\<rparr>, True)))"

definition evict_if_identity :: "bool \<Rightarrow> str \<Rightarrow> str \<Rightarrow> sharded \<Rightarrow> sharded \<times> bool" where
  "evict_if_identity win repo0 stale_identity s =
     (let repo = repo_key win repo0 in
      case hm_get repo (shards s) of
        Some sh \<Rightarrow>
          if sh_identity sh = stale_identity
          then (s\<lparr>shards := hm_remove repo (shards s)\<rparr>, True) else (s, False)
      | None \<Rightarrow> (s, False))"

definition sharded_remove_repo :: "bool \<Rightarrow> str \<Rightarrow> sharded \<Rightarrow> sharded" where
  "sharded_remove_repo win repo0 s =
     (let repo = repo_key win repo0 in
      s\<lparr>shards := map (\<lambda>(k, sh). (k, sh\<lparr>sh_index := remove_repo (sh_index sh) repo\<rparr>))
                    (hm_remove repo (shards s)),
        pending_incremental := hm_remove repo (pending_incremental s),
        stale := hm_remove repo (stale s),
        incremental_identity := hm_remove repo (incremental_identity s)\<rparr>)"

section \<open>Search\<close>

type_synonym sel_fn =
  "(nat \<times> f32 \<Rightarrow> nat \<times> f32 \<Rightarrow> bool) \<Rightarrow> nat \<Rightarrow> (nat \<times> f32) list \<Rightarrow> (nat \<times> f32) list"

type_synonym row_sort_fn =
  "(nat \<times> f32 \<Rightarrow> nat \<times> f32 \<Rightarrow> bool) \<Rightarrow> (nat \<times> f32) list \<Rightarrow> (nat \<times> f32) list"

type_synonym result_sort_fn =
  "(search_result \<Rightarrow> search_result \<Rightarrow> bool) \<Rightarrow> search_result list \<Rightarrow> search_result list"

definition by_score :: "search_result \<Rightarrow> search_result \<Rightarrow> bool" where
  "by_score a b = f32_desc (sr_score a) (sr_score b)"

definition touch :: "str \<Rightarrow> sharded \<Rightarrow> sharded" where
  "touch repo s =
     (if hm_contains repo (shards s) then
        (let t = tick s
         in (snd t)\<lparr>shards := hm_update repo (\<lambda>sh. sh\<lparr>last_touched := fst t\<rparr>) (shards s)\<rparr>)
      else s)"

definition shard_match :: "bool \<Rightarrow> sharded \<Rightarrow> str \<Rightarrow> str \<Rightarrow> shard_match" where
  "shard_match win s repo0 expected_identity =
     (let repo = repo_key win repo0 in
      if repo \<in> mutating_repos s then MatchCold
      else
        (case hm_get repo (shards s) of
           None \<Rightarrow> MatchCold
         | Some sh \<Rightarrow>
             if sh_identity sh \<noteq> expected_identity then MatchMismatch (sh_identity sh) else MatchHit))"

definition resident_identity :: "bool \<Rightarrow> sharded \<Rightarrow> str \<Rightarrow> str option" where
  "resident_identity win s repo0 =
     (let repo = repo_key win repo0 in
      if repo \<in> mutating_repos s then None else map_option sh_identity (hm_get repo (shards s)))"

text \<open>A matched shard exists; the source's \<open>expect\<close> on the lookup is the empty branch.\<close>

definition search_scoped_with ::
  "sel_fn \<Rightarrow> row_sort_fn \<Rightarrow> bool \<Rightarrow> f32 list \<Rightarrow> nat \<Rightarrow> str \<Rightarrow> str \<Rightarrow> scope_filter option
     \<Rightarrow> sharded \<Rightarrow> scoped_search \<times> sharded" where
  "search_scoped_with sel srt win query topk repo0 expected_identity scope s =
     (let repo = repo_key win repo0 in
      case shard_match win s repo expected_identity of
        MatchCold \<Rightarrow> (Cold, s)
      | MatchMismatch identity \<Rightarrow> (IdentityMismatch identity, s)
      | MatchHit \<Rightarrow>
          (case hm_get repo (shards s) of
             None \<Rightarrow> (Cold, s)
           | Some sh \<Rightarrow>
               (Hit \<lparr>ss_results = search_filtered sel srt (sh_index sh) query topk scope,
                     ss_cold_repos = []\<rparr>,
                touch repo s)))"

definition search_stale_with ::
  "sel_fn \<Rightarrow> row_sort_fn \<Rightarrow> bool \<Rightarrow> f32 list \<Rightarrow> nat \<Rightarrow> str \<Rightarrow> str \<Rightarrow> scope_filter option
     \<Rightarrow> sharded \<Rightarrow> scoped_search" where
  "search_stale_with sel srt win query topk repo0 expected_identity scope s =
     (let repo = repo_key win repo0 in
      case or_else (hm_get repo (pending_incremental s)) (hm_get repo (stale s)) of
        None \<Rightarrow> Cold
      | Some sh \<Rightarrow>
          if sh_identity sh \<noteq> expected_identity then IdentityMismatch (sh_identity sh)
          else Hit \<lparr>ss_results = search_filtered sel srt (sh_index sh) query topk scope,
                    ss_cold_repos = []\<rparr>)"

fun collect_scoped ::
  "sel_fn \<Rightarrow> row_sort_fn \<Rightarrow> bool \<Rightarrow> f32 list \<Rightarrow> nat \<Rightarrow> str list \<Rightarrow> str \<Rightarrow> scope_filter option
     \<Rightarrow> scoped_all \<times> sharded \<Rightarrow> scoped_all \<times> sharded" where
  "collect_scoped sel srt win query topk [] expected_identity cls st = st"
| "collect_scoped sel srt win query topk (repo # repos) expected_identity cls (out, s) =
     (let key = repo_key win repo in
      collect_scoped sel srt win query topk repos expected_identity cls
        (case shard_match win s key expected_identity of
           MatchCold \<Rightarrow> (out\<lparr>sa_cold_repos := sa_cold_repos out @ [repo]\<rparr>, s)
         | MatchMismatch identity \<Rightarrow>
             (out\<lparr>sa_mismatch_repos := sa_mismatch_repos out @ [(repo, identity)]\<rparr>, s)
         | MatchHit \<Rightarrow>
             (case hm_get key (shards s) of
                None \<Rightarrow> (out, s)
              | Some sh \<Rightarrow>
                  (out\<lparr>sa_results := sa_results out
                         @ search_filtered sel srt (sh_index sh) query topk cls\<rparr>,
                   touch key s))))"

definition scoped_all_default :: scoped_all where
  "scoped_all_default = \<lparr>sa_results = [], sa_cold_repos = [], sa_mismatch_repos = []\<rparr>"

definition search_all_scoped_with ::
  "sel_fn \<Rightarrow> row_sort_fn \<Rightarrow> result_sort_fn \<Rightarrow> bool \<Rightarrow> f32 list \<Rightarrow> nat \<Rightarrow> str list \<Rightarrow> str
     \<Rightarrow> scope_filter option \<Rightarrow> sharded \<Rightarrow> scoped_all \<times> sharded" where
  "search_all_scoped_with sel srt rsrt win query topk repos expected_identity cls s =
     (let r = collect_scoped sel srt win query topk repos expected_identity cls (scoped_all_default, s)
      in ((fst r)\<lparr>sa_results := take topk (rsrt by_score (sa_results (fst r)))\<rparr>, snd r))"

text \<open>The unscoped search.\<close>

definition search_one ::
  "sel_fn \<Rightarrow> row_sort_fn \<Rightarrow> f32 list \<Rightarrow> nat \<Rightarrow> str \<Rightarrow> search_result list \<times> sharded
     \<Rightarrow> search_result list \<times> sharded" where
  "search_one sel srt query topk repo st =
     (case hm_get repo (shards (snd st)) of
        None \<Rightarrow> st
      | Some sh \<Rightarrow>
          if vindex_is_empty (sh_index sh) then st
          else (fst st @ search_filtered sel srt (sh_index sh) query topk None, touch repo (snd st)))"

definition sharded_search ::
  "sel_fn \<Rightarrow> row_sort_fn \<Rightarrow> result_sort_fn \<Rightarrow> bool \<Rightarrow> f32 list \<Rightarrow> nat \<Rightarrow> str option \<Rightarrow> str list
     \<Rightarrow> sharded \<Rightarrow> sharded_search \<times> sharded" where
  "sharded_search sel srt rsrt win query topk repo_filter scope s =
     (let r = (case repo_filter of
                 Some repo \<Rightarrow>
                   (let key = repo_key win repo in
                    case hm_get key (shards s) of
                      Some sh \<Rightarrow>
                        ((search_filtered sel srt (sh_index sh) query topk None, touch key s), [])
                    | None \<Rightarrow> (([], s), [repo]))
               | None \<Rightarrow>
                   (fold (search_one sel srt query topk) (hm_keys (shards s)) ([], s),
                    filter (\<lambda>repo. \<not> hm_contains (repo_key win repo) (shards s)) scope))
      in (\<lparr>ss_results = take topk (rsrt by_score (fst (fst r))), ss_cold_repos = snd r\<rparr>,
          snd (fst r)))"

section \<open>The life of the structure\<close>

datatype operation =
    BeginFull str
  | NoteIdentity str str
  | BeginIncremental str
  | InstallIfNotMutating str vindex str "str list" nat
  | PublishFull str "(chunk_id \<times> f32 list) list" str "str list"
  | PublishIncremental str "str list" "(chunk_id \<times> f32 list) list" str "str list"
  | Abort str
  | InstallStale str vindex str
  | EvictRepo str
  | EvictIfIdentity str str
  | ApplyIncremental str "str list" "(chunk_id \<times> f32 list) list" str "str list"
  | RemoveRepo str
  | Search "f32 list" nat str str "scope_filter option"
  | SearchAll "f32 list" nat "str list" str "scope_filter option"

fun exec :: "sel_fn \<Rightarrow> row_sort_fn \<Rightarrow> result_sort_fn \<Rightarrow> bool \<Rightarrow> operation \<Rightarrow> sharded \<Rightarrow> sharded" where
  "exec sel srt rsrt win (BeginFull r) s = begin_full_update win r s"
| "exec sel srt rsrt win (NoteIdentity r i) s = note_incremental_identity win r i s"
| "exec sel srt rsrt win (BeginIncremental r) s = begin_incremental_update win r s"
| "exec sel srt rsrt win (InstallIfNotMutating r vi i active e) s =
     fst (install_shard_if_not_mutating win r vi i active e s)"
| "exec sel srt rsrt win (PublishFull r vs i active) s = publish_full_update win r vs i active s"
| "exec sel srt rsrt win (PublishIncremental r fs vs i active) s =
     publish_incremental_update win r fs vs i active s"
| "exec sel srt rsrt win (Abort r) s = abort_update_fail_closed win r s"
| "exec sel srt rsrt win (InstallStale r vi i) s = fst (install_stale win r vi i s)"
| "exec sel srt rsrt win (EvictRepo r) s = evict_repo win r s"
| "exec sel srt rsrt win (EvictIfIdentity r i) s = fst (evict_if_identity win r i s)"
| "exec sel srt rsrt win (ApplyIncremental r fs vs i active) s = apply_incremental win r fs vs i active s"
| "exec sel srt rsrt win (RemoveRepo r) s = sharded_remove_repo win r s"
| "exec sel srt rsrt win (Search q k r i sf) s = snd (search_scoped_with sel srt win q k r i sf s)"
| "exec sel srt rsrt win (SearchAll q k rs i sf) s =
     snd (search_all_scoped_with sel srt rsrt win q k rs i sf s)"

inductive reachable ::
  "sel_fn \<Rightarrow> row_sort_fn \<Rightarrow> result_sort_fn \<Rightarrow> bool \<Rightarrow> nat \<Rightarrow> sharded \<Rightarrow> bool"
  for sel srt rsrt win cap where
  reach_new: "reachable sel srt rsrt win cap (sharded_new cap)"
| reach_exec: "reachable sel srt rsrt win cap s \<Longrightarrow>
    reachable sel srt rsrt win cap (exec sel srt rsrt win op s)"

text \<open>The fence: no live shard of a repository under update; hidden bases, stale snapshots and
  identities only for repositories under update; canonical keys.\<close>

definition live_ok :: "bool \<Rightarrow> str set \<Rightarrow> (str, shard) hmap \<Rightarrow> bool" where
  "live_ok win M m \<longleftrightarrow>
     hm_ok m \<and> (\<forall>k. hm_get k m \<noteq> None \<longrightarrow> k \<notin> M \<and> repo_key win k = k)"

definition within :: "str set \<Rightarrow> (str, 'v) hmap \<Rightarrow> bool" where
  "within M m \<longleftrightarrow> hm_ok m \<and> (\<forall>k. hm_get k m \<noteq> None \<longrightarrow> k \<in> M)"

definition fence_ok :: "bool \<Rightarrow> sharded \<Rightarrow> bool" where
  "fence_ok win s \<longleftrightarrow>
     live_ok win (mutating_repos s) (shards s)
     \<and> within (mutating_repos s) (pending_incremental s)
     \<and> within (mutating_repos s) (stale s)
     \<and> within (mutating_repos s) (incremental_identity s)
     \<and> (\<forall>k \<in> mutating_repos s. repo_key win k = k)"

lemma repo_key_idem [simp]: "repo_key win (repo_key win r) = repo_key win r"
  by (simp add: repo_key_def)

lemma live_Nil [simp]: "live_ok win M []"
  by (simp add: live_ok_def)

lemma live_remove [intro]: "live_ok win M m \<Longrightarrow> live_ok win M (hm_remove k m)"
  by (simp add: live_ok_def)

lemma live_remove_insert [intro]: "live_ok win M m \<Longrightarrow> live_ok win (insert k M) (hm_remove k m)"
  by (simp add: live_ok_def)

lemma live_insert_minus [intro]:
  "live_ok win M m \<Longrightarrow> live_ok win (M - {repo_key win r}) (hm_insert (repo_key win r) v m)"
  by (simp add: live_ok_def)

lemma live_insert [intro]:
  "live_ok win M m \<Longrightarrow> repo_key win r \<notin> M \<Longrightarrow> live_ok win M (hm_insert (repo_key win r) v m)"
  by (simp add: live_ok_def)

lemma live_update [intro]: "live_ok win M m \<Longrightarrow> live_ok win M (hm_update k f m)"
  by (simp add: live_ok_def)

lemma live_minus [intro]: "live_ok win M m \<Longrightarrow> live_ok win (M - X) m"
  by (auto simp: live_ok_def)

lemma within_Nil [simp]: "within M []"
  by (simp add: within_def)

lemma within_remove [intro]: "within M m \<Longrightarrow> within M (hm_remove k m)"
  by (simp add: within_def)

lemma within_remove_minus [intro]: "within M m \<Longrightarrow> within (M - {k}) (hm_remove k m)"
  by (simp add: within_def)

lemma within_minus [intro]: "within M m \<Longrightarrow> hm_get k m = None \<Longrightarrow> within (M - {k}) m"
  by (auto simp: within_def)

lemma within_insert [intro]: "within M m \<Longrightarrow> within (insert k M) (hm_insert k v m)"
  by (simp add: within_def)

lemma within_insert_mem [intro]: "within M m \<Longrightarrow> k \<in> M \<Longrightarrow> within M (hm_insert k v m)"
  by (simp add: within_def)

lemma within_mono [intro]: "within M m \<Longrightarrow> within (insert k M) m"
  by (simp add: within_def)

lemma evict_shards_ok: "hm_ok m \<Longrightarrow> hm_ok (fst (evict_shards win cap p a m))"
  by (simp add: evict_shards_def evict_lru_ok)

lemma evict_shards_subset: "set (fst (evict_shards win cap p a m)) \<subseteq> set m"
  by (cases "cap = 0") (simp_all add: evict_shards_def evict_lru_subset)

lemma evict_shards_get:
  assumes "hm_ok m" "hm_get k (fst (evict_shards win cap p a m)) = Some v"
  shows "hm_get k m = Some v"
proof -
  have "(k, v) \<in> set (fst (evict_shards win cap p a m))" using assms(2) by (rule hm_get_mem)
  then have "(k, v) \<in> set m" using evict_shards_subset by blast
  with assms(1) show ?thesis by (simp add: hm_mem_iff)
qed

lemma evict_shards_keeps:
  "k = repo_key win p \<or> k \<in> set (repo_keys win a) \<Longrightarrow>
   hm_get k (fst (evict_shards win cap p a m)) = hm_get k m"
  by (auto simp: evict_shards_def intro!: evict_lru_keeps)

lemma live_evict [intro]: "live_ok win M m \<Longrightarrow> live_ok win M (fst (evict_shards win' cap p a m))"
proof -
  assume l: "live_ok win M m"
  then have ok: "hm_ok m" by (simp add: live_ok_def)
  have "hm_get k (fst (evict_shards win' cap p a m)) \<noteq> None \<Longrightarrow> hm_get k m \<noteq> None" for k
    using evict_shards_get [OF ok] by (cases "hm_get k (fst (evict_shards win' cap p a m))") auto
  with l show ?thesis using evict_shards_ok [OF ok] by (simp add: live_ok_def)
qed

text \<open>Installation and deltas touch the live shards, the clock and the epochs only.\<close>

definition same_hidden :: "sharded \<Rightarrow> sharded \<Rightarrow> bool" where
  "same_hidden s s' \<longleftrightarrow>
     mutating_repos s' = mutating_repos s \<and> pending_incremental s' = pending_incremental s
     \<and> stale s' = stale s \<and> incremental_identity s' = incremental_identity s \<and> cap_bytes s' = cap_bytes s"

lemma evict_to_cap_simps [simp]:
  "shards (evict_to_cap win p a s) = fst (evict_shards win (cap_bytes s) p a (shards s))"
  "mutating_repos (evict_to_cap win p a s) = mutating_repos s"
  "pending_incremental (evict_to_cap win p a s) = pending_incremental s"
  "stale (evict_to_cap win p a s) = stale s"
  "incremental_identity (evict_to_cap win p a s) = incremental_identity s"
  "epochs (evict_to_cap win p a s) = epochs s"
  "cap_bytes (evict_to_cap win p a s) = cap_bytes s"
  by (simp_all add: evict_to_cap_def)

lemma install_hidden: "same_hidden s (install_shard win r vi i active s)"
  by (simp add: same_hidden_def install_shard_def tick_def Let_def)

lemma install_epochs [simp]: "epochs (install_shard win r vi i active s) = epochs s"
  by (simp add: install_shard_def tick_def Let_def)

lemma install_live:
  assumes "live_ok win M (shards s)" "repo_key win r \<notin> M"
  shows "live_ok win M (shards (install_shard win r vi i active s))"
proof (cases "vindex_is_empty vi")
  case True
  with assms show ?thesis by (auto simp: install_shard_def)
next
  case False
  with assms show ?thesis by (auto simp: install_shard_def tick_def Let_def)
qed

lemma apply_incremental_cases:
  "apply_incremental win r fs vs i active s =
     (let k = repo_key win r; s' = snd (tick (bump_epoch k s)) in
      case hm_get k (shards s) of
        None \<Rightarrow> s'
      | Some sh \<Rightarrow>
          (let index = vindex_insert (remove_files (sh_index sh) (set fs)) vs;
               s'' = s'\<lparr>shards := hm_update k (\<lambda>_. shard_new index i (clock s + 1)) (shards s)\<rparr>
           in if vindex_is_empty index then evict_repo win k s'' else evict_to_cap win k active s''))"
  by (simp add: apply_incremental_def tick_def bump_epoch_def Let_def split: option.split)

lemma apply_incremental_hidden: "same_hidden s (apply_incremental win r fs vs i active s)"
  unfolding apply_incremental_cases
  by (simp add: same_hidden_def tick_def bump_epoch_def evict_repo_def Let_def split: option.split)

lemma apply_incremental_live:
  assumes "live_ok win M (shards s)"
  shows "live_ok win M (shards (apply_incremental win r fs vs i active s))"
  using assms unfolding apply_incremental_cases
  by (auto simp: tick_def bump_epoch_def evict_repo_def Let_def split: option.split)

lemma publish_full_fence:
  assumes "fence_ok win s"
  shows "fence_ok win (publish_full_update win r vs i active s)"
proof -
  let ?k = "repo_key win r"
  let ?s2 = "(bump_epoch ?k s)\<lparr>pending_incremental := hm_remove ?k (pending_incremental s),
      stale := hm_remove ?k (stale s), incremental_identity := hm_remove ?k (incremental_identity s),
      shards := hm_remove ?k (shards s)\<rparr>"
  let ?s3 = "install_shard win ?k (vindex_insert vindex_new vs) i active ?s2"
  have eq: "publish_full_update win r vs i active s = ?s3\<lparr>mutating_repos := mutating_repos ?s3 - {?k}\<rparr>"
    by (simp add: publish_full_update_def replace_repo_def Let_def bump_epoch_def)
  have h: "same_hidden ?s2 ?s3" by (rule install_hidden)
  have "live_ok win (mutating_repos s - {?k}) (shards ?s2)"
    using assms by (auto simp: fence_ok_def)
  then have "live_ok win (mutating_repos s - {?k}) (shards ?s3)"
    by (rule install_live) simp
  with h assms show ?thesis unfolding eq
    by (auto simp: fence_ok_def same_hidden_def bump_epoch_def)
qed

lemma publish_incremental_fence:
  assumes "fence_ok win s"
  shows "fence_ok win (publish_incremental_update win r fs vs i active s)"
proof -
  let ?k = "repo_key win r"
  let ?s0 = "\<lambda>sh. s\<lparr>pending_incremental := hm_remove ?k (pending_incremental s),
      shards := hm_insert ?k sh (shards s)\<rparr>"
  define s1 where "s1 = (case hm_get ?k (pending_incremental s) of None \<Rightarrow> s
      | Some sh \<Rightarrow> apply_incremental win ?k fs vs i active (?s0 sh))"
  have m: "mutating_repos s1 = mutating_repos s" "stale s1 = stale s"
    "incremental_identity s1 = incremental_identity s"
    using apply_incremental_hidden [of "?s0 _" win ?k fs vs i active]
    by (auto simp: s1_def same_hidden_def split: option.split)
  have p: "within (mutating_repos s - {?k}) (pending_incremental s1)"
    using assms apply_incremental_hidden [of "?s0 _" win ?k fs vs i active]
    by (auto simp: s1_def fence_ok_def same_hidden_def split: option.split)
  have l: "live_ok win (mutating_repos s - {?k}) (shards s1)"
    using assms by (auto simp: s1_def fence_ok_def split: option.split intro!: apply_incremental_live)
  have "publish_incremental_update win r fs vs i active s
      = (bump_epoch ?k (s1\<lparr>stale := hm_remove ?k (stale s1),
           incremental_identity := hm_remove ?k (incremental_identity s1)\<rparr>))
         \<lparr>mutating_repos := mutating_repos s1 - {?k}\<rparr>"
    by (simp add: publish_incremental_update_def Let_def s1_def bump_epoch_def)
  then show ?thesis using assms m p l by (auto simp: fence_ok_def bump_epoch_def)
qed


lemma begin_full_fence: "fence_ok win s \<Longrightarrow> fence_ok win (begin_full_update win r s)"
  by (auto simp: fence_ok_def begin_full_update_def retain_stale_def bump_epoch_def Let_def
      split: option.split)

lemma begin_incremental_fence: "fence_ok win s \<Longrightarrow> fence_ok win (begin_incremental_update win r s)"
proof -
  assume f: "fence_ok win s"
  show ?thesis
  proof (cases "hm_get (repo_key win r) (shards s)")
    case None
    with f show ?thesis
      by (auto simp: fence_ok_def begin_incremental_update_def bump_epoch_def Let_def live_ok_def
          intro!: within_mono)
  next
    case (Some sh)
    with f show ?thesis
      by (auto simp: fence_ok_def begin_incremental_update_def bump_epoch_def Let_def)
  qed
qed

lemma abort_fence: "fence_ok win s \<Longrightarrow> fence_ok win (abort_update_fail_closed win r s)"
  by (auto simp: fence_ok_def abort_update_fail_closed_def retain_stale_def bump_epoch_def Let_def
      split: option.split)

lemma touch_fence: "fence_ok win s \<Longrightarrow> fence_ok win (touch k s)"
  by (auto simp: fence_ok_def touch_def tick_def)

lemma collect_fence:
  "fence_ok win s \<Longrightarrow> fence_ok win (snd (collect_scoped sel srt win q k repos i cls (out, s)))"
proof (induction repos arbitrary: out s)
  case (Cons r rs)
  show ?case
    using Cons touch_fence
    by (auto simp: Let_def split: shard_match.split option.split)
qed simp

lemma hm_get_map: "hm_get k (map (\<lambda>(j, v). (j, f v)) m) = map_option f (hm_get k m)"
  by (induction m) (auto simp: hm_get_def)

lemma hm_ok_map: "hm_ok (map (\<lambda>(j, v). (j, f v)) m) = hm_ok m"
  by (simp add: hm_ok_def hm_keys_def comp_def case_prod_unfold)

lemma live_map: "live_ok win M m \<Longrightarrow> live_ok win M (map (\<lambda>(j, v). (j, f v)) m)"
  by (simp add: live_ok_def hm_get_map hm_ok_map)

lemma remove_repo_fence: "fence_ok win s \<Longrightarrow> fence_ok win (sharded_remove_repo win r s)"
  by (auto simp: fence_ok_def sharded_remove_repo_def Let_def intro!: live_map)

lemma exec_fence: "fence_ok win s \<Longrightarrow> fence_ok win (exec sel srt rsrt win op s)"
proof (cases op)
  case (InstallIfNotMutating r vi i active e)
  assume f: "fence_ok win s"
  have h: "same_hidden s (install_shard win (repo_key win r) vi i active s)" by (rule install_hidden)
  show ?thesis
    using f h install_live [of win "mutating_repos s" s "repo_key win r" vi i active]
    by (auto simp: InstallIfNotMutating install_shard_if_not_mutating_def Let_def fence_ok_def same_hidden_def)
next
  case (ApplyIncremental r fs vs i active)
  assume f: "fence_ok win s"
  have "same_hidden s (apply_incremental win r fs vs i active s)" by (rule apply_incremental_hidden)
  with f show ?thesis
    by (auto simp: ApplyIncremental fence_ok_def same_hidden_def intro!: apply_incremental_live)
next
  case (NoteIdentity r i)
  assume "fence_ok win s"
  then show ?thesis by (auto simp: NoteIdentity fence_ok_def note_incremental_identity_def Let_def)
next
  case (InstallStale r vi i)
  assume "fence_ok win s"
  then show ?thesis by (auto simp: InstallStale fence_ok_def install_stale_def tick_def Let_def)
next
  case (EvictRepo r)
  assume "fence_ok win s"
  then show ?thesis by (auto simp: EvictRepo fence_ok_def evict_repo_def)
next
  case (EvictIfIdentity r i)
  assume "fence_ok win s"
  then show ?thesis
    by (auto simp: EvictIfIdentity fence_ok_def evict_if_identity_def Let_def split: option.split)
next
  case (Search q k r i sf)
  assume "fence_ok win s"
  then show ?thesis using touch_fence
    by (auto simp: Search search_scoped_with_def Let_def split: shard_match.split option.split)
next
  case (SearchAll q k rs i sf)
  assume "fence_ok win s"
  then show ?thesis using collect_fence by (simp add: SearchAll search_all_scoped_with_def Let_def)
qed (simp_all add: begin_full_fence begin_incremental_fence publish_full_fence
      publish_incremental_fence abort_fence remove_repo_fence)

lemma reachable_fence: "reachable sel srt rsrt win cap s \<Longrightarrow> fence_ok win s"
proof (induction rule: reachable.induct)
  case reach_new
  show ?case by (simp add: fence_ok_def sharded_new_def)
next
  case (reach_exec s op)
  then show ?case by (intro exec_fence)
qed

section \<open>Epochs\<close>

text \<open>Whether an operation changes the vectors of a repository (a removal of the whole
  repository aside, see below).\<close>

fun changes_vectors :: "bool \<Rightarrow> str \<Rightarrow> operation \<Rightarrow> bool" where
  "changes_vectors win r (BeginFull r') = (repo_key win r' = repo_key win r)"
| "changes_vectors win r (BeginIncremental r') = (repo_key win r' = repo_key win r)"
| "changes_vectors win r (PublishFull r' _ _ _) = (repo_key win r' = repo_key win r)"
| "changes_vectors win r (PublishIncremental r' _ _ _ _) = (repo_key win r' = repo_key win r)"
| "changes_vectors win r (Abort r') = (repo_key win r' = repo_key win r)"
| "changes_vectors win r (ApplyIncremental r' _ _ _ _) = (repo_key win r' = repo_key win r)"
| "changes_vectors win r _ = False"

lemma epoch_bump:
  "mutation_epoch win (bump_epoch k s) r = mutation_epoch win s r + (if repo_key win r = k then 1 else 0)"
  by (simp add: mutation_epoch_def bump_epoch_def)

lemma epoch_cong: "epochs s' = epochs s \<Longrightarrow> mutation_epoch win s' r = mutation_epoch win s r"
  by (simp add: mutation_epoch_def)

lemma apply_incremental_epochs:
  "epochs (apply_incremental win r fs vs i active s) = epochs (bump_epoch (repo_key win r) s)"
  unfolding apply_incremental_cases
  by (simp add: tick_def evict_repo_def bump_epoch_def Let_def split: option.split)

lemma touch_epochs: "epochs (touch k s) = epochs s"
  by (simp add: touch_def tick_def)

lemma collect_epochs: "epochs (snd (collect_scoped sel srt win q k repos i cls (out, s))) = epochs s"
proof (induction repos arbitrary: out s)
  case (Cons r rs)
  show ?case
    by (auto simp: Let_def Cons touch_epochs split: shard_match.split option.split)
qed simp

lemma exec_epoch:
  "mutation_epoch win s r \<le> mutation_epoch win (exec sel srt rsrt win op s) r
   \<and> (changes_vectors win r op \<longrightarrow> mutation_epoch win s r < mutation_epoch win (exec sel srt rsrt win op s) r)"
proof (cases op)
  case (BeginFull r')
  have "epochs (exec sel srt rsrt win op s) = epochs (bump_epoch (repo_key win r') s)"
    by (simp add: BeginFull begin_full_update_def retain_stale_def Let_def split: option.split)
  then have "mutation_epoch win (exec sel srt rsrt win op s) r = mutation_epoch win (bump_epoch (repo_key win r') s) r"
    by (rule epoch_cong)
  then show ?thesis by (simp add: epoch_bump BeginFull)
next
  case (BeginIncremental r')
  have "epochs (exec sel srt rsrt win op s) = epochs (bump_epoch (repo_key win r') s)"
    by (simp add: BeginIncremental begin_incremental_update_def Let_def split: option.split)
  then have "mutation_epoch win (exec sel srt rsrt win op s) r = mutation_epoch win (bump_epoch (repo_key win r') s) r"
    by (rule epoch_cong)
  then show ?thesis by (simp add: epoch_bump BeginIncremental)
next
  case (Abort r')
  have "epochs (exec sel srt rsrt win op s) = epochs (bump_epoch (repo_key win r') s)"
    by (simp add: Abort abort_update_fail_closed_def retain_stale_def Let_def split: option.split)
  then have "mutation_epoch win (exec sel srt rsrt win op s) r = mutation_epoch win (bump_epoch (repo_key win r') s) r"
    by (rule epoch_cong)
  then show ?thesis by (simp add: epoch_bump Abort)
next
  case (PublishFull r' vs i active)
  have "epochs (exec sel srt rsrt win op s) = epochs (bump_epoch (repo_key win r') s)"
    by (simp add: PublishFull publish_full_update_def replace_repo_def Let_def)
  then have "mutation_epoch win (exec sel srt rsrt win op s) r = mutation_epoch win (bump_epoch (repo_key win r') s) r"
    by (rule epoch_cong)
  then show ?thesis by (simp add: epoch_bump PublishFull)
next
  case (PublishIncremental r' fs vs i active)
  have "\<exists>x. (epochs x = epochs s \<or> epochs x = epochs (bump_epoch (repo_key win r') s))
      \<and> epochs (exec sel srt rsrt win op s) = epochs (bump_epoch (repo_key win r') x)"
    by (cases "hm_get (repo_key win r') (pending_incremental s)")
      (auto simp: PublishIncremental publish_incremental_update_def Let_def apply_incremental_epochs
        bump_epoch_def intro: exI [of _ s]
        exI [of _ "bump_epoch (repo_key win r') s"])
  then obtain x where "epochs x = epochs s \<or> epochs x = epochs (bump_epoch (repo_key win r') s)"
    and e: "mutation_epoch win (exec sel srt rsrt win op s) r = mutation_epoch win (bump_epoch (repo_key win r') x) r"
    using epoch_cong by blast
  then have "mutation_epoch win s r \<le> mutation_epoch win x r"
    using epoch_cong [of x s win r] epoch_cong [of x "bump_epoch (repo_key win r') s" win r]
    by (auto simp: epoch_bump)
  with e show ?thesis by (simp add: epoch_bump PublishIncremental)
next
  case (ApplyIncremental r' fs vs i active)
  have "mutation_epoch win (exec sel srt rsrt win op s) r = mutation_epoch win (bump_epoch (repo_key win r') s) r"
    unfolding ApplyIncremental exec.simps by (rule epoch_cong) (rule apply_incremental_epochs)
  then show ?thesis by (simp add: epoch_bump ApplyIncremental)
next
  case (SearchAll q k rs i sf)
  then show ?thesis
    using epoch_cong [of "snd (collect_scoped sel srt win q k rs i sf (scoped_all_default, s))" s win r,
        OF collect_epochs]
    by (simp add: search_all_scoped_with_def Let_def)
qed (auto simp: note_incremental_identity_def install_shard_if_not_mutating_def install_stale_def
      evict_repo_def evict_if_identity_def sharded_remove_repo_def search_scoped_with_def tick_def
      Let_def mutation_epoch_def touch_epochs split: option.split shard_match.split)

lemma run_epoch:
  "mutation_epoch win s r \<le> mutation_epoch win (fold (exec sel srt rsrt win) ops s) r
   \<and> ((\<exists>op \<in> set ops. changes_vectors win r op) \<longrightarrow>
        mutation_epoch win s r < mutation_epoch win (fold (exec sel srt rsrt win) ops s) r)"
proof (induction ops arbitrary: s)
  case (Cons op ops)
  show ?case using Cons [of "exec sel srt rsrt win op s"] exec_epoch [of win s r sel srt rsrt op]
    by (auto intro: le_less_trans less_le_trans order_trans)
qed simp


section \<open>Search over all shards\<close>

text \<open>What a search under an identity owes each repository, from the sets of the index alone: a
  repository has a resident live shard when no destructive update fences it and a live shard is resident;
  its rows count when that shard was built under the identity asked for.\<close>

definition resident_live :: "bool \<Rightarrow> sharded \<Rightarrow> str \<Rightarrow> shard option" where
  "resident_live win s r =
     (if repo_key win r \<in> mutating_repos s then None else hm_get (repo_key win r) (shards s))"

definition matching :: "bool \<Rightarrow> sharded \<Rightarrow> str \<Rightarrow> str \<Rightarrow> vindex list" where
  "matching win s identity r =
     (case resident_live win s r of
        None \<Rightarrow> []
      | Some sh \<Rightarrow> if sh_identity sh = identity then [sh_index sh] else [])"

definition mismatched :: "bool \<Rightarrow> sharded \<Rightarrow> str \<Rightarrow> str \<Rightarrow> (str \<times> str) list" where
  "mismatched win s identity r =
     (case resident_live win s r of
        None \<Rightarrow> []
      | Some sh \<Rightarrow> if sh_identity sh = identity then [] else [(r, sh_identity sh)])"

lemma shard_match_resident_live:
  "shard_match win s r i = (case resident_live win s r of None \<Rightarrow> MatchCold
     | Some sh \<Rightarrow> if sh_identity sh = i then MatchHit else MatchMismatch (sh_identity sh))"
  by (simp add: shard_match_def resident_live_def Let_def split: option.split)

lemma resident_live_key [simp]: "resident_live win s (repo_key win r) = resident_live win s r"
  by (simp add: resident_live_def)

lemma resident_live_shard: "resident_live win s r = Some sh \<Longrightarrow> hm_get (repo_key win r) (shards s) = Some sh"
  by (simp add: resident_live_def split: if_splits)

lemma shard_match_key [simp]: "shard_match win s (repo_key win r) i = shard_match win s r i"
  by (simp add: shard_match_def)

lemma matching_touch: "matching win (touch k s) i r = matching win s i r"
  by (auto simp: matching_def resident_live_def touch_def tick_def Let_def split: option.split)

lemma mismatched_touch: "mismatched win (touch k s) i r = mismatched win s i r"
  by (auto simp: mismatched_def resident_live_def touch_def tick_def Let_def split: option.split)

lemma resident_live_touch: "resident_live win (touch k s) r = None \<longleftrightarrow> resident_live win s r = None"
  by (auto simp: resident_live_def touch_def tick_def Let_def split: option.split)

lemma collect_results:
  "sa_results (fst (collect_scoped sel srt win q k repos i cls (out, s)))
     = sa_results out @ concat (map (\<lambda>vi. search_filtered sel srt vi q k cls)
         (concat (map (matching win s i) repos)))"
proof (induction repos arbitrary: out s)
  case (Cons r rs)
  show ?case
    by (auto simp: Let_def Cons matching_touch matching_def [of win s i r] shard_match_resident_live
        dest: resident_live_shard split: shard_match.split option.split)
qed simp

lemma collect_cold:
  "sa_cold_repos (fst (collect_scoped sel srt win q k repos i cls (out, s)))
     = sa_cold_repos out @ filter (\<lambda>r. resident_live win s r = None) repos"
proof (induction repos arbitrary: out s)
  case (Cons r rs)
  show ?case
    by (auto simp: Let_def Cons resident_live_touch shard_match_resident_live
        dest: resident_live_shard split: shard_match.split option.split)
qed simp

lemma collect_mismatch:
  "sa_mismatch_repos (fst (collect_scoped sel srt win q k repos i cls (out, s)))
     = sa_mismatch_repos out @ concat (map (mismatched win s i) repos)"
proof (induction repos arbitrary: out s)
  case (Cons r rs)
  show ?case
    by (auto simp: Let_def Cons mismatched_touch mismatched_def [of win s i r] shard_match_resident_live
        dest: resident_live_shard split: shard_match.split option.split)
qed simp

lemma search_all_top_k:
  assumes sel: "unstable_select sel" and srt: "unstable_sort srt" and rsrt: "unstable_sort rsrt"
    and ok: "\<forall>r \<in> set repos. \<forall>vi \<in> set (matching win s i r). vindex_ok vi \<and> \<not> table_full (exts vi)
        \<and> (\<forall>c \<in> set (candidates vi q cls). \<not> f32_nan (sr_score c))"
    and q: "q \<noteq> []"
  shows "top_k by_score k
    (concat (map (\<lambda>vi. candidates vi q cls) (concat (map (matching win s i) repos))))
    (sa_results (fst (search_all_scoped_with sel srt rsrt win q k repos i cls s)))"
proof -
  let ?vis = "concat (map (matching win s i) repos)"
  have vi: "vindex_ok vi" "\<not> table_full (exts vi)" "\<forall>c \<in> set (candidates vi q cls). \<not> f32_nan (sr_score c)"
    if "vi \<in> set ?vis" for vi
    using ok that by auto
  have each: "top_k by_score k (candidates vi q cls) (search_filtered sel srt vi q k cls)"
    if "vi \<in> set ?vis" for vi
    unfolding by_score_def by (rule search_filtered_top_k [OF sel srt vi(1,2) [OF that] q vi(3) [OF that]])
  have "list_all2 (top_k by_score k) (map (\<lambda>vi. candidates vi q cls) ?vis)
      (map (\<lambda>vi. search_filtered sel srt vi q k cls) ?vis)"
    unfolding list_all2_conv_all_nth
  proof (intro conjI allI impI)
    fix j assume "j < length (map (\<lambda>vi. candidates vi q cls) ?vis)"
    then have j: "j < length ?vis" by simp
    then show "top_k by_score k (map (\<lambda>vi. candidates vi q cls) ?vis ! j)
        (map (\<lambda>vi. search_filtered sel srt vi q k cls) ?vis ! j)"
      using each [OF nth_mem [OF j]] by simp
  qed simp
  moreover have "total_preorder_on by_score (set (concat (map (\<lambda>vi. candidates vi q cls) ?vis)))"
    unfolding by_score_def by (rule f32_desc_preorder) (use vi(3) in auto)
  ultimately have "top_k by_score k (concat (map (\<lambda>vi. candidates vi q cls) ?vis))
      (take k (rsrt by_score (concat (map (\<lambda>vi. search_filtered sel srt vi q k cls) ?vis))))"
    by (rule unstable_sort.merge_top_k [OF rsrt])
  then show ?thesis
    by (simp add: search_all_scoped_with_def Let_def collect_results scoped_all_default_def)
qed

section \<open>Failed runs\<close>

definition begin_run :: "bool \<Rightarrow> str \<Rightarrow> bool \<Rightarrow> sharded \<Rightarrow> sharded" where
  "begin_run win r full s = (if full then begin_full_update win r s else begin_incremental_update win r s)"

definition failed_run :: "bool \<Rightarrow> str \<Rightarrow> bool \<Rightarrow> sharded \<Rightarrow> sharded" where
  "failed_run win r full s = abort_update_fail_closed win r (begin_run win r full s)"

definition retired :: "bool \<Rightarrow> str \<Rightarrow> shard \<Rightarrow> sharded \<Rightarrow> bool" where
  "retired win r sh s \<longleftrightarrow>
     hm_get (repo_key win r) (shards s) = None \<and> hm_get (repo_key win r) (pending_incremental s) = None
     \<and> hm_get (repo_key win r) (stale s) = Some sh"

definition sole_live :: "bool \<Rightarrow> str \<Rightarrow> shard \<Rightarrow> sharded \<Rightarrow> bool" where
  "sole_live win r sh s \<longleftrightarrow>
     hm_get (repo_key win r) (shards s) = Some sh \<and> hm_get (repo_key win r) (pending_incremental s) = None"

lemma failed_run_retires:
  "sole_live win r sh s \<or> retired win r sh s \<Longrightarrow> retired win r sh (failed_run win r full s)"
  by (cases full)
    (auto simp: sole_live_def retired_def failed_run_def begin_run_def begin_full_update_def
      begin_incremental_update_def abort_update_fail_closed_def retain_stale_def or_else_def
      bump_epoch_def Let_def)

lemma begun_run_serves:
  "sole_live win r sh s \<or> retired win r sh s \<Longrightarrow>
   or_else (hm_get (repo_key win r) (pending_incremental (begin_run win r full s)))
     (hm_get (repo_key win r) (stale (begin_run win r full s))) = Some sh"
  by (cases full)
    (auto simp: sole_live_def retired_def begin_run_def begin_full_update_def
      begin_incremental_update_def retain_stale_def or_else_def bump_epoch_def Let_def)

lemma failed_runs_retire:
  "sole_live win r sh s \<or> retired win r sh s \<Longrightarrow>
   sole_live win r sh (fold (failed_run win r) runs s) \<or> retired win r sh (fold (failed_run win r) runs s)"
  by (induction runs arbitrary: s) (auto simp: failed_run_retires)

text \<open>The keys an installation never evicts, and the map before its evictions.\<close>

definition safe_key :: "bool \<Rightarrow> str \<Rightarrow> str list \<Rightarrow> str \<Rightarrow> bool" where
  "safe_key win r active k \<longleftrightarrow> k = repo_key win r \<or> k \<in> set (repo_keys win active)"

definition installed :: "bool \<Rightarrow> str \<Rightarrow> vindex \<Rightarrow> str \<Rightarrow> sharded \<Rightarrow> (str, shard) hmap" where
  "installed win r vi i s = hm_insert (repo_key win r) (shard_new vi i (clock s + 1)) (shards s)"

lemma install_within_cap_aux:
  assumes "fence_ok win s" "\<not> vindex_is_empty vi" "cap_bytes s \<noteq> 0"
  shows "(resident_bytes (install_shard win r vi i active s) \<le> cap_bytes s
      \<or> (\<forall>e \<in> set (shards (install_shard win r vi i active s)). safe_key win r active (fst e)))
    \<and> (\<forall>k. safe_key win r active k \<longrightarrow>
         hm_get k (shards (install_shard win r vi i active s)) = hm_get k (installed win r vi i s))
    \<and> (\<forall>e \<in> set (installed win r vi i s). \<forall>x \<in> set (shards (install_shard win r vi i active s)).
         e \<notin> set (shards (install_shard win r vi i active s)) \<longrightarrow> \<not> safe_key win r active (fst x) \<longrightarrow>
         last_touched (snd e) \<le> last_touched (snd x))"
proof -
  define before where "before = installed win r vi i s"
  define s' where "s' = install_shard win r vi i active s"
  let ?safe = "safe_key win r active"
  let ?ev = "evict_lru (\<lambda>m. cap_bytes s < shards_bytes m) (\<lambda>k. \<not> ?safe k) last_touched before"
  have ok: "hm_ok before" using assms(1) by (simp add: before_def installed_def fence_ok_def live_ok_def)
  have sh: "shards s' = fst ?ev"
    using assms(2,3)
    by (simp add: s'_def install_shard_def tick_def Let_def evict_shards_def before_def installed_def
        safe_key_def)
  note spec = evict_lru_spec [of "\<lambda>m. cap_bytes s < shards_bytes m" "\<lambda>k. \<not> ?safe k" last_touched before]
  have "resident_bytes s' \<le> cap_bytes s \<or> (\<forall>e \<in> set (shards s'). ?safe (fst e))"
    using spec unfolding resident_bytes_def sh by (meson not_less)
  moreover have "\<forall>k. ?safe k \<longrightarrow> hm_get k (shards s') = hm_get k before"
    unfolding sh by (simp add: evict_lru_keeps)
  moreover have "last_touched (snd e) \<le> last_touched (snd x)"
    if e: "e \<in> set before" "e \<notin> set (shards s')" and x: "x \<in> set (shards s')" "\<not> ?safe (fst x)" for e x
  proof (rule evict_lru_least [OF e(1) _ _ _ ok])
    have "fst ?ev = filter (\<lambda>e. fst e \<notin> set (snd ?ev)) before" using spec by blast
    then have "set (shards s') = {e \<in> set before. fst e \<notin> set (snd ?ev)}"
      unfolding sh by (metis set_filter)
    then show "fst e \<in> set (snd ?ev)" using e by blast
    show "x \<in> set (fst ?ev)" using x sh by simp
    show "\<not> ?safe (fst x)" by (rule x)
  qed
  ultimately show ?thesis unfolding before_def s'_def by blast
qed

section \<open>Properties\<close>

text \<open>C1: In every reachable state a repository under a destructive update has no live shard:
  its scoped search is cold, and even the unscoped search, which does not look at the fence,
  returns nothing from it, however the repository's path is spelled.\<close>

theorem mutation_fence:
  assumes "reachable sel srt rsrt win cap s" "is_mutating win s r" "unstable_sort rsrt"
  shows "\<not> is_resident win s r
    \<and> fst (search_scoped_with sel srt win q k r i sf s) = Cold
    \<and> ss_results (fst (sharded_search sel srt rsrt win q k (Some r) scope s)) = []"
proof -
  have "fence_ok win s" using assms(1) by (rule reachable_fence)
  then have n: "hm_get (repo_key win r) (shards s) = None"
    using assms(2) unfolding fence_ok_def live_ok_def is_mutating_def by blast
  then show ?thesis using assms(2) unstable_sort.srt_Nil [OF assms(3)]
    by (simp add: is_resident_def is_mutating_def hm_contains_iff search_scoped_with_def
        shard_match_def sharded_search_def Let_def)
qed

theorem mutation_fence_witness:
  "\<not> is_resident False (begin_full_update False ''/w/app/'' (sharded_new 0)) ''/w/app''
    \<and> fst (search_scoped_with sort_select sort_by False [] 5 ''/w/app'' ''m'' None
        (begin_full_update False ''/w/app/'' (sharded_new 0))) = Cold
    \<and> ss_results (fst (sharded_search sort_select sort_by sort_by False [] 5 (Some ''/w/app'') []
        (begin_full_update False ''/w/app/'' (sharded_new 0)))) = []"
proof (rule mutation_fence [OF _ _ unstable_sort_sort_by])
  show "reachable sort_select sort_by sort_by False 0 (begin_full_update False ''/w/app/'' (sharded_new 0))"
    using reach_exec [OF reach_new, of sort_select sort_by sort_by False 0 "BeginFull ''/w/app/''"] by simp
  show "is_mutating False (begin_full_update False ''/w/app/'' (sharded_new 0)) ''/w/app''"
    using normalize_repo_path_trailing [of slash False "''/w/app''"]
    by (simp add: is_mutating_def begin_full_update_def Let_def repo_key_def is_sep_def slash_def)
qed

text \<open>C6: A warm whose database scan raced an update installs nothing: if the install succeeds
  with the epoch captured before the scan, then no operation in between began, published,
  aborted or applied a change to that repository, even one that began and finished inside the
  scan.\<close>

theorem raced_scan_rejected:
  assumes "snd (install_shard_if_not_mutating win r vi i active (mutation_epoch win s r)
      (fold (exec sel srt rsrt win) ops s))"
    "op \<in> set ops"
  shows "\<not> changes_vectors win r op"
proof
  assume "changes_vectors win r op"
  then have "mutation_epoch win s r < mutation_epoch win (fold (exec sel srt rsrt win) ops s) r"
    using run_epoch assms(2) by blast
  with assms(1) show False
    by (simp add: install_shard_if_not_mutating_def Let_def mutation_epoch_def split: if_splits)
qed

theorem raced_scan_rejected_witness:
  "\<not> changes_vectors False ''/w/app'' (EvictRepo ''/w/app'')"
proof (rule raced_scan_rejected)
  show "snd (install_shard_if_not_mutating False ''/w/app'' vindex_new ''m'' []
      (mutation_epoch False (sharded_new 0) ''/w/app'')
      (fold (exec sort_select sort_by sort_by False) [EvictRepo ''/w/app''] (sharded_new 0)))"
    by (simp add: install_shard_if_not_mutating_def Let_def evict_repo_def sharded_new_def mutation_epoch_def)
qed simp

text \<open>Installing a shard leaves the resident bytes within the cap unless only protected
  shards are left; the installed shard and the active ones are never evicted; and what is evicted
  was used no later than every unprotected shard that stays.\<close>

theorem install_within_cap:
  assumes "fence_ok win s" "\<not> vindex_is_empty vi" "cap_bytes s \<noteq> 0"
  shows "(resident_bytes (install_shard win r vi i active s) \<le> cap_bytes s
      \<or> (\<forall>e \<in> set (shards (install_shard win r vi i active s)). safe_key win r active (fst e)))
    \<and> (\<forall>k. safe_key win r active k \<longrightarrow>
         hm_get k (shards (install_shard win r vi i active s)) = hm_get k (installed win r vi i s))
    \<and> (\<forall>e \<in> set (installed win r vi i s). \<forall>x \<in> set (shards (install_shard win r vi i active s)).
         e \<notin> set (shards (install_shard win r vi i active s)) \<longrightarrow> \<not> safe_key win r active (fst x) \<longrightarrow>
         last_touched (snd e) \<le> last_touched (snd x))"
  using assms by (rule install_within_cap_aux)

lemma demo_new_fence: "fence_ok False (sharded_new 10)"
  by (rule reachable_fence [OF reach_new])

lemma demo_index_full: "\<not> vindex_is_empty demo_index"
  by (simp add: demo_index_def vindex_insert_def insert_one_def vindex_new_def vindex_is_empty_def Let_def)

theorem install_within_cap_witness:
  "resident_bytes (install_shard False ''/r'' demo_index ''m'' [] (sharded_new 10)) \<le> cap_bytes (sharded_new 10)
    \<or> (\<forall>e \<in> set (shards (install_shard False ''/r'' demo_index ''m'' [] (sharded_new 10))).
         safe_key False ''/r'' [] (fst e))"
  by (rule install_within_cap [OF demo_new_fence demo_index_full, THEN conjunct1])
    (simp add: sharded_new_def)

text \<open>C5: Sharding is transparent to ranking. A search over several repositories returns a best
  \<open>k\<close>, by score, of all rows of the requested class in the shards that are live, not fenced by
  an update and built under the expected embedding identity, as one merged index would; it reports
  as cold exactly the repositories without a live shard or under an update, and as mismatched
  exactly those whose shard has another identity, with that identity; both in the order asked.
  Which shards those are is stated from the shard map and the fence set. The ranking holds for a
  non-empty query vector, shards that meet the index invariant and whose table of extensions is
  not full, and scores that are numbers.\<close>

theorem search_all_exact:
  assumes "unstable_select sel" "unstable_sort srt" "unstable_sort rsrt"
    "\<forall>r \<in> set repos. \<forall>vi \<in> set (matching win s i r). vindex_ok vi \<and> \<not> table_full (exts vi)
        \<and> (\<forall>c \<in> set (candidates vi q cls). \<not> f32_nan (sr_score c))"
    "q \<noteq> []"
  shows "top_k by_score k
    (concat (map (\<lambda>vi. candidates vi q cls) (concat (map (matching win s i) repos))))
    (sa_results (fst (search_all_scoped_with sel srt rsrt win q k repos i cls s)))
    \<and> sa_cold_repos (fst (search_all_scoped_with sel srt rsrt win q k repos i cls s))
        = filter (\<lambda>r. resident_live win s r = None) repos
    \<and> sa_mismatch_repos (fst (search_all_scoped_with sel srt rsrt win q k repos i cls s))
        = concat (map (mismatched win s i) repos)"
  using search_all_top_k [OF assms]
  by (simp add: search_all_scoped_with_def Let_def collect_cold collect_mismatch scoped_all_default_def)

text \<open>C10: Index runs never turn retrieval off: after any number of failed runs, full or
  incremental, and inside a further one, the stale search still answers from the shard that
  was live before, under its own identity.\<close>

theorem failed_runs_keep_serving:
  assumes "reachable sel srt rsrt win cap s" "hm_get (repo_key win r) (shards s) = Some sh"
  shows "search_stale_with sel srt win q k r (sh_identity sh) sf
      (begin_run win r full (fold (failed_run win r) runs s))
    = Hit \<lparr>ss_results = search_filtered sel srt (sh_index sh) q k sf, ss_cold_repos = []\<rparr>"
proof -
  have "fence_ok win s" using assms(1) by (rule reachable_fence)
  then have "hm_get (repo_key win r) (pending_incremental s) = None"
    using assms(2) unfolding fence_ok_def live_ok_def within_def by (metis option.distinct(1))
  then have "sole_live win r sh s" using assms(2) by (simp add: sole_live_def)
  then have "sole_live win r sh (fold (failed_run win r) runs s) \<or> retired win r sh (fold (failed_run win r) runs s)"
    by (intro failed_runs_retire) simp
  from begun_run_serves [OF this] show ?thesis by (simp add: search_stale_with_def Let_def)
qed

lemma demo_live: "reachable sort_select sort_by sort_by False 0
    (fst (install_shard_if_not_mutating False ''/r'' demo_index ''m'' [] 0 (sharded_new 0)))"
  using reach_exec [OF reach_new, of sort_select sort_by sort_by False 0
      "InstallIfNotMutating ''/r'' demo_index ''m'' [] 0"] by simp

lemma demo_key: "repo_key False ''/r'' = ''/r''"
  by (simp add: repo_key_def normalize_repo_path_def is_sep_def str_defs Let_def)

lemma demo_installed:
  "hm_get (repo_key False ''/r'') (shards (fst (install_shard_if_not_mutating False ''/r'' demo_index ''m'' [] 0 (sharded_new 0))))
    = Some (shard_new demo_index ''m'' 1)"
  using demo_index_full
  by (simp add: install_shard_if_not_mutating_def install_shard_def sharded_new_def mutation_epoch_def
      tick_def Let_def evict_shards_def)

theorem failed_runs_keep_serving_witness:
  "search_stale_with sort_select sort_by False [f32_one] 2 ''/r'' (sh_identity (shard_new demo_index ''m'' 1)) None
      (begin_run False ''/r'' False (fold (failed_run False ''/r'') [True, False]
        (fst (install_shard_if_not_mutating False ''/r'' demo_index ''m'' [] 0 (sharded_new 0)))))
    = Hit \<lparr>ss_results = search_filtered sort_select sort_by (sh_index (shard_new demo_index ''m'' 1)) [f32_one] 2 None,
           ss_cold_repos = []\<rparr>"
  by (rule failed_runs_keep_serving [OF demo_live demo_installed])

lemma demo_resident_live:
  "resident_live False (fst (install_shard_if_not_mutating False ''/r'' demo_index ''m'' [] 0 (sharded_new 0))) r = Some sh
    \<Longrightarrow> sh = shard_new demo_index ''m'' 1"
  using demo_index_full
  by (auto simp: resident_live_def install_shard_if_not_mutating_def install_shard_def sharded_new_def
      mutation_epoch_def tick_def Let_def evict_shards_def split: if_splits)

lemma demo_matching:
  "vi \<in> set (matching False (fst (install_shard_if_not_mutating False ''/r'' demo_index ''m'' [] 0 (sharded_new 0))) i r)
    \<Longrightarrow> vi = demo_index"
  by (auto simp: matching_def shard_new_def dest!: demo_resident_live demo_resident_live [OF sym] split: option.splits if_splits)

theorem search_all_exact_witness:
  "top_k by_score 2
    (concat (map (\<lambda>vi. candidates vi [f32_one] None)
      (concat (map (matching False (fst (install_shard_if_not_mutating False ''/r'' demo_index ''m'' [] 0 (sharded_new 0))) ''m'')
        [''/r'', ''/cold'']))))
    (sa_results (fst (search_all_scoped_with sort_select sort_by sort_by False [f32_one] 2 [''/r'', ''/cold''] ''m'' None
      (fst (install_shard_if_not_mutating False ''/r'' demo_index ''m'' [] 0 (sharded_new 0))))))"
proof (rule search_all_exact [OF unstable_select_sort_select unstable_sort_sort_by unstable_sort_sort_by, THEN conjunct1])
  show "\<forall>r \<in> set [''/r'', ''/cold'']. \<forall>vi \<in> set (matching False
      (fst (install_shard_if_not_mutating False ''/r'' demo_index ''m'' [] 0 (sharded_new 0))) ''m'' r).
      vindex_ok vi \<and> \<not> table_full (exts vi)
      \<and> (\<forall>c \<in> set (candidates vi [f32_one] None). \<not> f32_nan (sr_score c))"
    using demo_index_ok demo_room demo_scores unit_vector demo_matching by metis
qed simp

text \<open>
  Removing a whole repository does not advance its epoch, so a warm whose scan began before the
  removal still installs the deleted vectors after it.
\<close>

lemma removal_not_fenced:
  assumes "repo_key win r \<notin> mutating_repos s"
  shows "snd (install_shard_if_not_mutating win r vi i active (mutation_epoch win s r)
    (sharded_remove_repo win r s))"
  using assms by (simp add: install_shard_if_not_mutating_def sharded_remove_repo_def mutation_epoch_def Let_def)


end
