(* ===== verification/Registry.thy ===== *)
theory Registry
  imports Hash_Map
begin

text \<open>
  The router's worker registry (\<open>src/router/registry.rs\<close>) with the driver of a spawn
  (\<open>obtain_worker\<close> of \<open>src/router/proxy.rs\<close>, \<open>spawn_worker\<close> of \<open>src/router/spawn.rs\<close>): single-flight
  election, the identity token of a spawn, publication, abandonment, reaping, teardown.

  A \<open>Notify\<close> allocation is a number, fresh at every election, so pointer equality is equality of
  numbers. A child process is a number with the answer its \<open>try_wait\<close> would give. Time is in
  seconds. The operations are functions on the table; the interleaving of requests, drivers,
  processes and the sweep is the step relation at the end.
\<close>

datatype child_status = Running | Exited | Undeterminable

record ready_worker =
  w_port :: nat
  w_pid :: nat
  w_child :: nat

datatype worker_state = Spawning nat nat | Ready ready_worker

type_synonym table = "(str, worker_state) hmap"

datatype acquired = AcqReady ready_worker | SpawnElected nat | AwaitSpawn nat

definition SPAWN_READY_TIMEOUT :: nat where
  "SPAWN_READY_TIMEOUT = 20"

definition SPAWN_ORPHAN_AFTER :: nat where
  "SPAWN_ORPHAN_AFTER = SPAWN_READY_TIMEOUT * 3"

definition is_child_alive :: "(nat \<Rightarrow> child_status) \<Rightarrow> ready_worker \<Rightarrow> bool" where
  "is_child_alive st w =
     (case st (w_child w) of Exited \<Rightarrow> False | Running \<Rightarrow> True | Undeterminable \<Rightarrow> False)"

text \<open>The read-locked half of \<open>acquire\<close>; \<open>None\<close> falls through to the write-locked half.\<close>

definition acquire_fast :: "(nat \<Rightarrow> child_status) \<Rightarrow> str \<Rightarrow> table \<Rightarrow> acquired option" where
  "acquire_fast st repo m =
     (case hm_get repo m of
        Some (Ready w) \<Rightarrow> if is_child_alive st w then Some (AcqReady w) else None
      | Some (Spawning ready _) \<Rightarrow> Some (AwaitSpawn ready)
      | None \<Rightarrow> None)"

definition acquire_slow ::
  "(nat \<Rightarrow> child_status) \<Rightarrow> str \<Rightarrow> nat \<Rightarrow> nat \<Rightarrow> table \<Rightarrow> acquired \<times> table" where
  "acquire_slow st repo fresh now m =
     (let elect = (SpawnElected fresh, hm_insert repo (Spawning fresh now) m) in
      case hm_get repo m of
        Some (Ready w) \<Rightarrow> if is_child_alive st w then (AcqReady w, m) else elect
      | Some (Spawning ready _) \<Rightarrow> (AwaitSpawn ready, m)
      | None \<Rightarrow> elect)"

definition peek_ready :: "(nat \<Rightarrow> child_status) \<Rightarrow> str \<Rightarrow> table \<Rightarrow> ready_worker option \<times> table" where
  "peek_ready st repo m =
     (case hm_get repo m of
        Some (Ready w) \<Rightarrow> if is_child_alive st w then (Some w, m) else (None, hm_remove repo m)
      | Some (Spawning _ _) \<Rightarrow> (None, m)
      | None \<Rightarrow> (None, m))"

text \<open>One entry of the sweep; \<open>busy\<close> is the children whose lock is held by another task.\<close>

definition reap_keeps ::
  "(nat \<Rightarrow> child_status) \<Rightarrow> nat set \<Rightarrow> nat \<Rightarrow> nat \<Rightarrow> worker_state \<Rightarrow> bool" where
  "reap_keeps st busy now spawn_orphan_after state =
     (case state of
        Ready w \<Rightarrow>
          if w_child w \<in> busy then True
          else (case st (w_child w) of Exited \<Rightarrow> False | Running \<Rightarrow> True | Undeterminable \<Rightarrow> False)
      | Spawning ready since \<Rightarrow> \<not> spawn_orphan_after \<le> now - since)"

definition reap ::
  "(nat \<Rightarrow> child_status) \<Rightarrow> nat set \<Rightarrow> nat \<Rightarrow> nat \<Rightarrow> table \<Rightarrow> table \<times> nat list" where
  "reap st busy now spawn_orphan_after m =
     (filter (\<lambda>e. reap_keeps st busy now spawn_orphan_after (snd e)) m,
      List.map_filter (\<lambda>e. case snd e of
          Spawning ready since \<Rightarrow>
            if reap_keeps st busy now spawn_orphan_after (snd e) then None else Some ready
        | Ready _ \<Rightarrow> None) m)"

definition owns_spawn :: "nat \<Rightarrow> worker_state option \<Rightarrow> bool" where
  "owns_spawn ready entry =
     (case entry of Some (Spawning cur _) \<Rightarrow> cur = ready | _ \<Rightarrow> False)"

definition publish_ready :: "str \<Rightarrow> ready_worker \<Rightarrow> nat \<Rightarrow> table \<Rightarrow> table \<times> bool" where
  "publish_ready repo worker ready m =
     (if owns_spawn ready (hm_get repo m) then (hm_insert repo (Ready worker) m, True) else (m, False))"

definition abandon_spawn :: "str \<Rightarrow> nat \<Rightarrow> table \<Rightarrow> table" where
  "abandon_spawn repo ready m =
     (if owns_spawn ready (hm_get repo m) then hm_remove repo m else m)"

text \<open>\<open>kill\<close> and \<open>kill_all\<close>: the entries leave the table first, then their workers are killed.\<close>

definition worker_of :: "worker_state option \<Rightarrow> ready_worker list" where
  "worker_of entry = (case entry of Some (Ready w) \<Rightarrow> [w] | _ \<Rightarrow> [])"

definition kill :: "str \<Rightarrow> table \<Rightarrow> table \<times> ready_worker list" where
  "kill repo m = (hm_remove repo m, worker_of (hm_get repo m))"

definition kill_all :: "table \<Rightarrow> table \<times> ready_worker list" where
  "kill_all m = ([], concat (map (\<lambda>e. worker_of (Some (snd e))) m))"

definition ready_repos :: "table \<Rightarrow> str list" where
  "ready_repos m = map fst (filter (\<lambda>e. case snd e of Ready _ \<Rightarrow> True | Spawning _ _ \<Rightarrow> False) m)"

definition spawning_repos :: "table \<Rightarrow> str list" where
  "spawning_repos m = map fst (filter (\<lambda>e. case snd e of Spawning _ _ \<Rightarrow> True | Ready _ \<Rightarrow> False) m)"

section \<open>The router as a transition system\<close>

text \<open>
  A driver is the task that won an election: it owns a token and a repository, and from the
  process spawn on the child. \<open>doomed\<close> holds the children some task is about to kill and wait
  for; \<open>lost\<close> those whose owning task was dropped, which nothing kills. \<open>child_repo\<close> and
  \<open>since\<close> of a driver are ghosts.
\<close>

record driver =
  dr_repo :: str
  dr_since :: nat
  dr_child :: "nat option"

record world =
  tbl :: table
  child_st :: "nat \<Rightarrow> child_status"
  next_token :: nat
  next_child :: nat
  drivers :: "(nat, driver) hmap"
  doomed :: "nat set"
  lost :: "nat set"
  child_repo :: "nat \<Rightarrow> str"
  now :: nat

definition world_new :: world where
  "world_new = \<lparr>tbl = [], child_st = (\<lambda>_. Exited), next_token = 0, next_child = 0, drivers = [],
     doomed = {}, lost = {}, child_repo = (\<lambda>_. []), now = 0\<rparr>"

inductive step :: "world \<Rightarrow> world \<Rightarrow> bool" where
  elect: "acquire_slow (child_st s) r (next_token s) (now s) (tbl s) = (SpawnElected t, m) \<Longrightarrow>
    step s (s\<lparr>tbl := m, next_token := next_token s + 1,
              drivers := hm_insert t \<lparr>dr_repo = r, dr_since = now s, dr_child = None\<rparr> (drivers s)\<rparr>)"
| launch: "hm_get t (drivers s) = Some d \<Longrightarrow> dr_child d = None \<Longrightarrow>
    step s (s\<lparr>drivers := hm_insert t (d\<lparr>dr_child := Some (next_child s)\<rparr>) (drivers s),
              child_st := (child_st s)(next_child s := Running),
              child_repo := (child_repo s)(next_child s := dr_repo d),
              next_child := next_child s + 1\<rparr>)"
| spawn_failed: "hm_get t (drivers s) = Some d \<Longrightarrow>
    step s (s\<lparr>tbl := abandon_spawn (dr_repo d) t (tbl s),
              child_st := (case dr_child d of None \<Rightarrow> child_st s | Some c \<Rightarrow> (child_st s)(c := Exited)),
              drivers := hm_remove t (drivers s)\<rparr>)"
| publish: "hm_get t (drivers s) = Some d \<Longrightarrow> dr_child d = Some (w_child w) \<Longrightarrow>
    publish_ready (dr_repo d) w t (tbl s) = (m, True) \<Longrightarrow>
    step s (s\<lparr>tbl := m, drivers := hm_remove t (drivers s)\<rparr>)"
| superseded: "hm_get t (drivers s) = Some d \<Longrightarrow> dr_child d = Some (w_child w) \<Longrightarrow>
    publish_ready (dr_repo d) w t (tbl s) = (m, False) \<Longrightarrow>
    step s (s\<lparr>tbl := m, drivers := hm_remove t (drivers s), doomed := insert (w_child w) (doomed s)\<rparr>)"
| driver_dropped: "hm_get t (drivers s) = Some d \<Longrightarrow>
    step s (s\<lparr>drivers := hm_remove t (drivers s), lost := lost s \<union> set_option (dr_child d)\<rparr>)"
| peek: "peek_ready (child_st s) r (tbl s) = (res, m) \<Longrightarrow> step s (s\<lparr>tbl := m\<rparr>)"
| sweep: "step s (s\<lparr>tbl := fst (reap (child_st s) busy (now s) SPAWN_ORPHAN_AFTER (tbl s))\<rparr>)"
| kill_one: "kill r (tbl s) = (m, ws) \<Longrightarrow>
    step s (s\<lparr>tbl := m, doomed := doomed s \<union> w_child ` set ws\<rparr>)"
| kill_every: "kill_all (tbl s) = (m, ws) \<Longrightarrow>
    step s (s\<lparr>tbl := m, doomed := doomed s \<union> w_child ` set ws\<rparr>)"
| killed: "c \<in> doomed s \<Longrightarrow>
    step s (s\<lparr>child_st := (child_st s)(c := Exited), doomed := doomed s - {c}\<rparr>)"
| killer_dropped: "c \<in> doomed s \<Longrightarrow> step s (s\<lparr>doomed := doomed s - {c}, lost := insert c (lost s)\<rparr>)"
| child_ends: "child_st s c = Running \<Longrightarrow> e \<noteq> Running \<Longrightarrow>
    step s (s\<lparr>child_st := (child_st s)(c := e)\<rparr>)"
| time_passes: "\<forall>d \<in> snd ` set (drivers s). now s - dr_since d < SPAWN_READY_TIMEOUT \<Longrightarrow>
    step s (s\<lparr>now := now s + 1\<rparr>)"

inductive router_reachable :: "world \<Rightarrow> bool" where
  router_new: "router_reachable world_new"
| router_step: "router_reachable s \<Longrightarrow> step s s' \<Longrightarrow> router_reachable s'"

inductive_cases stepE: "step s s'"

section \<open>Lemmas on the operations\<close>

lemma acquire_slow_elected:
  assumes "acquire_slow st r fresh n m = (SpawnElected t, m')"
  shows "t = fresh \<and> m' = hm_insert r (Spawning fresh n) m
    \<and> (hm_get r m = None \<or> (\<exists>w. hm_get r m = Some (Ready w) \<and> st (w_child w) \<noteq> Running))"
  using assms
  by (auto simp: acquire_slow_def is_child_alive_def Let_def
      split: option.splits worker_state.splits if_splits child_status.splits)

lemma owns_spawn_iff: "owns_spawn t e \<longleftrightarrow> (\<exists>n. e = Some (Spawning t n))"
  by (auto simp: owns_spawn_def split: option.split worker_state.split)

lemma publish_cases:
  "publish_ready r w t m = (m', b) \<Longrightarrow>
     (b \<and> (\<exists>n. hm_get r m = Some (Spawning t n)) \<and> m' = hm_insert r (Ready w) m)
     \<or> (\<not> b \<and> m' = m \<and> (\<nexists>n. hm_get r m = Some (Spawning t n)))"
  by (auto simp: publish_ready_def owns_spawn_iff split: if_splits)

lemma hm_get_filter:
  assumes "hm_ok m"
  shows "hm_get k (filter (\<lambda>e. P (snd e)) m)
    = (case hm_get k m of Some v \<Rightarrow> if P v then Some v else None | None \<Rightarrow> None)"
  using assms
proof (induction m)
  case Nil
  then show ?case by simp
next
  case (Cons e m)
  obtain j v where e: "e = (j, v)" by (cases e)
  have ok: "hm_ok m" and j: "hm_get j m = None"
    using Cons.prems by (auto simp: hm_ok_def hm_keys_def hm_get_def e map_of_eq_None_iff)
  have cons: "hm_get i ((j, v) # x) = (if i = j then Some v else hm_get i x)" for i x
    by (auto simp: hm_get_def)
  show ?case using Cons.IH [OF ok] j by (auto simp: e cons)
qed

lemma hm_ok_filter: "hm_ok m \<Longrightarrow> hm_ok (filter P m)"
  by (auto simp: hm_ok_def hm_keys_def distinct_map inj_on_def)

section \<open>Every running worker has an owner\<close>

definition owned :: "world \<Rightarrow> nat \<Rightarrow> bool" where
  "owned s c \<longleftrightarrow>
     (\<exists>w. hm_get (child_repo s c) (tbl s) = Some (Ready w) \<and> w_child w = c)
     \<or> (\<exists>t d. hm_get t (drivers s) = Some d \<and> dr_child d = Some c \<and> dr_repo d = child_repo s c)
     \<or> c \<in> doomed s \<or> c \<in> lost s"

text \<open>Every running child was started and has an owner; table, drivers and children refer to
  each other consistently; a driver gives up within the timeout.\<close>

definition owned_ok :: "world \<Rightarrow> bool" where
  "owned_ok s \<longleftrightarrow> (\<forall>c. child_st s c = Running \<longrightarrow> c < next_child s \<and> owned s c)"

definition table_ok :: "world \<Rightarrow> bool" where
  "table_ok s \<longleftrightarrow>
     hm_ok (tbl s)
     \<and> (\<forall>r w. hm_get r (tbl s) = Some (Ready w) \<longrightarrow> w_child w < next_child s)
     \<and> (\<forall>r w. hm_get r (tbl s) = Some (Ready w) \<longrightarrow> child_repo s (w_child w) = r)
     \<and> (\<forall>r t n. hm_get r (tbl s) = Some (Spawning t n) \<longrightarrow> t < next_token s)"

definition drivers_ok :: "world \<Rightarrow> bool" where
  "drivers_ok s \<longleftrightarrow>
     hm_ok (drivers s)
     \<and> (\<forall>t d c. hm_get t (drivers s) = Some d \<longrightarrow> dr_child d = Some c \<longrightarrow> c < next_child s)
     \<and> (\<forall>t d c. hm_get t (drivers s) = Some d \<longrightarrow> dr_child d = Some c \<longrightarrow> child_repo s c = dr_repo d)
     \<and> (\<forall>t d. hm_get t (drivers s) = Some d \<longrightarrow> t < next_token s)
     \<and> (\<forall>t d. hm_get t (drivers s) = Some d \<longrightarrow> dr_since d \<le> now s)
     \<and> (\<forall>t d. hm_get t (drivers s) = Some d \<longrightarrow> now s - dr_since d \<le> SPAWN_READY_TIMEOUT)"

definition tokens_ok :: "world \<Rightarrow> bool" where
  "tokens_ok s \<longleftrightarrow>
     (\<forall>t d r n. hm_get t (drivers s) = Some d \<longrightarrow> hm_get r (tbl s) = Some (Spawning t n) \<longrightarrow>
        r = dr_repo d \<and> n = dr_since d)"

definition world_ok :: "world \<Rightarrow> bool" where
  "world_ok s \<longleftrightarrow> owned_ok s \<and> table_ok s \<and> drivers_ok s \<and> tokens_ok s"

lemmas world_parts = owned_ok_def table_ok_def drivers_ok_def tokens_ok_def

lemma world_new_ok: "world_ok world_new"
  by (simp add: world_ok_def world_parts world_new_def)

lemma ownedE:
  assumes "owned s c"
  obtains (table) w where "hm_get (child_repo s c) (tbl s) = Some (Ready w)" "w_child w = c"
    | (driver) t d where "hm_get t (drivers s) = Some d" "dr_child d = Some c" "dr_repo d = child_repo s c"
    | (doomed) "c \<in> doomed s"
    | (lost) "c \<in> lost s"
  using assms by (auto simp: owned_def)

lemma owned_table: "hm_get (child_repo s c) (tbl s) = Some (Ready w) \<Longrightarrow> w_child w = c \<Longrightarrow> owned s c"
  by (auto simp: owned_def)

lemma owned_driver: "hm_get t (drivers s) = Some d \<Longrightarrow> dr_child d = Some c \<Longrightarrow>
    dr_repo d = child_repo s c \<Longrightarrow> owned s c"
  by (auto simp: owned_def)

lemma owned_doomed: "c \<in> doomed s \<or> c \<in> lost s \<Longrightarrow> owned s c"
  by (auto simp: owned_def)

text \<open>Losing entries of the table is harmless when the running workers among them are accounted
  for.\<close>

definition sub_table :: "table \<Rightarrow> table \<Rightarrow> bool" where
  "sub_table m' m \<longleftrightarrow> hm_ok m' \<and> (\<forall>r v. hm_get r m' = Some v \<longrightarrow> hm_get r m = Some v)"

lemma table_loss:
  assumes ok: "world_ok s" and sub: "sub_table m' (tbl s)"
    and acc: "\<And>r w. hm_get r (tbl s) = Some (Ready w) \<Longrightarrow> hm_get r m' \<noteq> Some (Ready w) \<Longrightarrow>
      child_st s (w_child w) \<noteq> Running \<or> w_child w \<in> D"
  shows "world_ok (s\<lparr>tbl := m', doomed := doomed s \<union> D\<rparr>)"
proof -
  let ?s = "s\<lparr>tbl := m', doomed := doomed s \<union> D\<rparr>"
  have "owned_ok ?s"
    unfolding owned_ok_def
  proof (intro allI impI)
    fix c assume "child_st ?s c = Running"
    then have c: "child_st s c = Running" by simp
    then have o: "c < next_child s" "owned s c" using ok by (auto simp: world_ok_def owned_ok_def)
    from o(2) have "owned ?s c"
    proof (cases rule: ownedE)
      case (table w)
      then show ?thesis
        using acc [of "child_repo s c" w] c
        by (cases "hm_get (child_repo s c) m' = Some (Ready w)") (auto simp: owned_def)
    qed (auto simp: owned_def)
    with o(1) show "c < next_child ?s \<and> owned ?s c" by simp
  qed
  moreover have "drivers_ok ?s" using ok by (simp add: world_ok_def drivers_ok_def)
  moreover have "table_ok ?s" using ok sub unfolding world_ok_def table_ok_def sub_table_def by simp blast
  moreover have "tokens_ok ?s" using ok sub unfolding world_ok_def tokens_ok_def sub_table_def by simp blast
  ultimately show ?thesis by (simp add: world_ok_def)
qed

text \<open>A token that no driver holds yet.\<close>

lemma fresh_token: "drivers_ok s \<Longrightarrow> hm_get (next_token s) (drivers s) = None"
  unfolding drivers_ok_def by (metis not_None_eq less_irrefl)

lemma elect_ok:
  assumes ok: "world_ok s" and e: "acquire_slow (child_st s) r (next_token s) (now s) (tbl s) = (SpawnElected t, m)"
  shows "world_ok (s\<lparr>tbl := m, next_token := next_token s + 1,
              drivers := hm_insert t \<lparr>dr_repo = r, dr_since = now s, dr_child = None\<rparr> (drivers s)\<rparr>)"
    (is "world_ok ?s")
proof -
  from acquire_slow_elected [OF e]
  have t: "t = next_token s" "m = hm_insert r (Spawning t (now s)) (tbl s)"
    "hm_get r (tbl s) = None \<or> (\<exists>w. hm_get r (tbl s) = Some (Ready w) \<and> child_st s (w_child w) \<noteq> Running)"
    by auto
  have nt: "hm_get (next_token s) (drivers s) = None" using ok fresh_token by (simp add: world_ok_def)
  have "owned_ok ?s"
    unfolding owned_ok_def
  proof (intro allI impI)
    fix c assume "child_st ?s c = Running"
    then have c: "child_st s c = Running" by simp
    then have o: "c < next_child s" "owned s c" using ok by (auto simp: world_ok_def owned_ok_def)
    from o(2) have "owned ?s c"
    proof (cases rule: ownedE)
      case (table w)
      then show ?thesis using t c by (intro owned_table [of _ _ w]) auto
    next
      case (driver t' d)
      then show ?thesis using t nt by (intro owned_driver [of t' _ d]) auto
    qed (auto simp: owned_def)
    with o(1) show "c < next_child ?s \<and> owned ?s c" by simp
  qed
  moreover have "table_ok ?s" "drivers_ok ?s"
    using ok t by (auto simp: world_ok_def table_ok_def drivers_ok_def less_Suc_eq)
  moreover have "tokens_ok ?s"
    unfolding tokens_ok_def
  proof (intro allI impI)
    fix t' d r' n assume a: "hm_get t' (drivers ?s) = Some d" "hm_get r' (tbl ?s) = Some (Spawning t' n)"
    show "r' = dr_repo d \<and> n = dr_since d"
    proof (cases "t' = t")
      case True
      have "hm_get r' (tbl s) \<noteq> Some (Spawning (next_token s) n)"
        using ok unfolding world_ok_def table_ok_def by blast
      then have "r' = r" using a(2) t True by (simp split: if_splits)
      with a t True show ?thesis by auto
    next
      case False
      with a t have "hm_get t' (drivers s) = Some d" "hm_get r' (tbl s) = Some (Spawning t' n)"
        by (auto split: if_splits)
      with ok show ?thesis by (simp add: world_ok_def tokens_ok_def)
    qed
  qed
  ultimately show ?thesis by (simp add: world_ok_def)
qed

lemma launch_ok:
  assumes ok: "world_ok s" and d: "hm_get t (drivers s) = Some d" "dr_child d = None"
  shows "world_ok (s\<lparr>drivers := hm_insert t (d\<lparr>dr_child := Some (next_child s)\<rparr>) (drivers s),
              child_st := (child_st s)(next_child s := Running),
              child_repo := (child_repo s)(next_child s := dr_repo d),
              next_child := next_child s + 1\<rparr>)" (is "world_ok ?s")
proof -
  have nt: "w_child w \<noteq> next_child s" if "hm_get r (tbl s) = Some (Ready w)" for r w
    using ok that unfolding world_ok_def table_ok_def by (metis less_irrefl)
  have nd: "dr_child e \<noteq> Some (next_child s)" if "hm_get k (drivers s) = Some e" for k e
    using ok that unfolding world_ok_def drivers_ok_def by (metis less_irrefl)
  have "owned_ok ?s"
    unfolding owned_ok_def
  proof (intro allI impI)
    fix c assume c: "child_st ?s c = Running"
    show "c < next_child ?s \<and> owned ?s c"
    proof (cases "c = next_child s")
      case True
      then show ?thesis by (auto simp: owned_def intro!: exI [of _ t])
    next
      case False
      with c ok have "c < next_child s" "owned s c" by (auto simp: world_ok_def owned_ok_def)
      from \<open>owned s c\<close> have "owned ?s c"
      proof (cases rule: ownedE)
        case (driver t' d')
        then show ?thesis using d False by (intro owned_driver [of t' _ d']) auto
      qed (use False in \<open>auto simp: owned_def\<close>)
      with \<open>c < next_child s\<close> show ?thesis by simp
    qed
  qed
  moreover have "table_ok ?s" using ok nt by (auto simp: world_ok_def table_ok_def less_Suc_eq)
  moreover have "drivers_ok ?s" using ok d nd by (auto simp: world_ok_def drivers_ok_def less_Suc_eq)
  moreover have "tokens_ok ?s" using ok d by (auto simp: world_ok_def tokens_ok_def)
  ultimately show ?thesis by (simp add: world_ok_def)
qed

lemma spawn_failed_ok:
  assumes ok: "world_ok s" and d: "hm_get t (drivers s) = Some d"
  shows "world_ok (s\<lparr>tbl := abandon_spawn (dr_repo d) t (tbl s),
              child_st := (case dr_child d of None \<Rightarrow> child_st s | Some c \<Rightarrow> (child_st s)(c := Exited)),
              drivers := hm_remove t (drivers s)\<rparr>)" (is "world_ok ?s")
proof -
  have "owned_ok ?s"
    unfolding owned_ok_def
  proof (intro allI impI)
    fix c assume "child_st ?s c = Running"
    then have c: "child_st s c = Running" "dr_child d \<noteq> Some c" by (auto split: option.splits if_splits)
    then have o: "c < next_child s" "owned s c" using ok by (auto simp: world_ok_def owned_ok_def)
    from o(2) have "owned ?s c"
    proof (cases rule: ownedE)
      case (table w)
      then show ?thesis by (intro owned_table [of _ _ w]) (auto simp: abandon_spawn_def owns_spawn_iff)
    next
      case (driver t' d')
      then show ?thesis using d c by (intro owned_driver [of t' _ d']) auto
    qed (auto simp: owned_def)
    with o(1) show "c < next_child ?s \<and> owned ?s c" by simp
  qed
  moreover have "table_ok ?s" "drivers_ok ?s" "tokens_ok ?s"
    using ok d by (auto simp: world_ok_def table_ok_def drivers_ok_def tokens_ok_def abandon_spawn_def
        split: if_splits)
  ultimately show ?thesis by (simp add: world_ok_def)
qed

lemma publish_ok:
  assumes ok: "world_ok s" and d: "hm_get t (drivers s) = Some d" "dr_child d = Some (w_child w)"
    and p: "publish_ready (dr_repo d) w t (tbl s) = (m, True)"
  shows "world_ok (s\<lparr>tbl := m, drivers := hm_remove t (drivers s)\<rparr>)" (is "world_ok ?s")
proof -
  from publish_cases [OF p] obtain n
    where m: "hm_get (dr_repo d) (tbl s) = Some (Spawning t n)" "m = hm_insert (dr_repo d) (Ready w) (tbl s)"
    by auto
  have cr: "child_repo s (w_child w) = dr_repo d" "w_child w < next_child s"
    using ok d by (auto simp: world_ok_def drivers_ok_def)
  have "owned_ok ?s"
    unfolding owned_ok_def
  proof (intro allI impI)
    fix c assume "child_st ?s c = Running"
    then have c: "child_st s c = Running" by simp
    then have o: "c < next_child s" "owned s c" using ok by (auto simp: world_ok_def owned_ok_def)
    from o(2) have "owned ?s c"
    proof (cases rule: ownedE)
      case (table w')
      then show ?thesis using m by (intro owned_table [of _ _ w']) auto
    next
      case (driver t' d')
      show ?thesis
      proof (cases "t' = t")
        case True
        then show ?thesis using driver d cr m by (intro owned_table [of _ _ w]) auto
      next
        case False
        then show ?thesis using driver by (intro owned_driver [of t' _ d']) auto
      qed
    qed (auto simp: owned_def)
    with o(1) show "c < next_child ?s \<and> owned ?s c" by simp
  qed
  moreover have "table_ok ?s" "drivers_ok ?s"
    using ok d m cr by (simp_all add: world_ok_def table_ok_def drivers_ok_def)
  moreover have "tokens_ok ?s"
    unfolding tokens_ok_def
  proof (intro allI impI)
    fix t' d' r n assume a: "hm_get t' (drivers ?s) = Some d'" "hm_get r (tbl ?s) = Some (Spawning t' n)"
    then have "hm_get t' (drivers s) = Some d'" "hm_get r (tbl s) = Some (Spawning t' n)"
      using m by (simp_all split: if_splits)
    then show "r = dr_repo d' \<and> n = dr_since d'" using ok by (simp add: world_ok_def tokens_ok_def)
  qed
  ultimately show ?thesis by (simp add: world_ok_def)
qed

text \<open>Steps that only move a child between owners.\<close>

lemma owners_ok:
  assumes ok: "world_ok s" and d: "hm_ok D" "\<And>t d. hm_get t D = Some d \<Longrightarrow> hm_get t (drivers s) = Some d"
    and st: "\<And>c. st c = Running \<Longrightarrow> child_st s c = Running"
    and own: "\<And>c. st c = Running \<Longrightarrow> owned s c \<Longrightarrow>
      owned (s\<lparr>drivers := D, child_st := st, doomed := X, lost := Y\<rparr>) c"
  shows "world_ok (s\<lparr>drivers := D, child_st := st, doomed := X, lost := Y\<rparr>)" (is "world_ok ?s")
proof -
  have "owned_ok ?s" using ok st own by (simp add: world_ok_def owned_ok_def)
  moreover have "table_ok ?s" using ok by (simp add: world_ok_def table_ok_def)
  moreover have "tokens_ok ?s" using ok d(2) unfolding world_ok_def tokens_ok_def by simp blast
  moreover have "drivers_ok ?s" using ok d unfolding world_ok_def drivers_ok_def by simp blast
  ultimately show ?thesis by (simp add: world_ok_def)
qed

lemma drivers_removed: "drivers_ok s \<Longrightarrow> hm_ok (hm_remove t (drivers s))"
  by (simp add: drivers_ok_def)

lemma driver_gone_ok:
  assumes ok: "world_ok s" and d: "hm_get t (drivers s) = Some d"
    and c: "\<forall>c \<in> set_option (dr_child d). c \<in> X \<or> c \<in> Y" and XY: "doomed s \<subseteq> X" "lost s \<subseteq> Y"
  shows "world_ok (s\<lparr>drivers := hm_remove t (drivers s), child_st := child_st s, doomed := X, lost := Y\<rparr>)"
    (is "world_ok ?s")
proof (rule owners_ok [OF ok])
  show "hm_ok (hm_remove t (drivers s))" using ok drivers_removed by (simp add: world_ok_def)
  fix a assume "owned s a"
  then show "owned ?s a"
  proof (cases rule: ownedE)
    case (driver t' d')
    show ?thesis
    proof (cases "t' = t")
      case True
      then show ?thesis using driver c d by (intro owned_doomed) auto
    next
      case False
      then show ?thesis using driver by (intro owned_driver [of t' _ d']) auto
    qed
  qed (use XY in \<open>auto simp: owned_def\<close>)
qed (auto split: if_splits)

lemma superseded_ok:
  assumes ok: "world_ok s" and d: "hm_get t (drivers s) = Some d" "dr_child d = Some c"
  shows "world_ok (s\<lparr>drivers := hm_remove t (drivers s), doomed := insert c (doomed s)\<rparr>)"
  using driver_gone_ok [OF ok d(1), of "insert c (doomed s)" "lost s"] d by auto

lemma driver_dropped_ok:
  assumes ok: "world_ok s" and d: "hm_get t (drivers s) = Some d"
  shows "world_ok (s\<lparr>drivers := hm_remove t (drivers s), lost := lost s \<union> set_option (dr_child d)\<rparr>)"
  using driver_gone_ok [OF ok d, of "doomed s" "lost s \<union> set_option (dr_child d)"] by auto

lemma status_ok:
  assumes ok: "world_ok s" and st: "\<And>c. st c = Running \<Longrightarrow> child_st s c = Running \<and> (c \<in> doomed s \<longrightarrow> c \<in> X \<or> c \<in> Y)"
    and Y: "lost s \<subseteq> Y"
  shows "world_ok (s\<lparr>child_st := st, doomed := X, lost := Y\<rparr>)"
proof -
  have "world_ok (s\<lparr>drivers := drivers s, child_st := st, doomed := X, lost := Y\<rparr>)"
  proof (rule owners_ok [OF ok])
    show "hm_ok (drivers s)" using ok by (simp add: world_ok_def drivers_ok_def)
    fix c assume "st c = Running" "owned s c"
    have "c \<in> doomed s \<longrightarrow> c \<in> X \<or> c \<in> Y" using st [OF \<open>st c = Running\<close>] by simp
    with \<open>owned s c\<close> Y show "owned (s\<lparr>drivers := drivers s, child_st := st, doomed := X, lost := Y\<rparr>) c"
      by (auto simp: owned_def)
  qed (use st in auto)
  then show ?thesis by simp
qed

lemma time_ok:
  assumes ok: "world_ok s" and t: "\<forall>d \<in> snd ` set (drivers s). now s - dr_since d < SPAWN_READY_TIMEOUT"
  shows "world_ok (s\<lparr>now := now s + 1\<rparr>)"
proof -
  have "now s - dr_since d < SPAWN_READY_TIMEOUT" if "hm_get k (drivers s) = Some d" for k d
    using t hm_get_mem [OF that] by force
  then have "drivers_ok (s\<lparr>now := now s + 1\<rparr>)"
    using ok by (fastforce simp: world_ok_def drivers_ok_def)
  then show ?thesis using ok by (simp add: world_ok_def owned_ok_def owned_def table_ok_def tokens_ok_def)
qed

lemma reap_get:
  assumes "table_ok s"
  shows "hm_get r (fst (reap (child_st s) busy (now s) cutoff (tbl s)))
      = (case hm_get r (tbl s) of Some v \<Rightarrow>
          if reap_keeps (child_st s) busy (now s) cutoff v then Some v else None | None \<Rightarrow> None)"
  using assms unfolding reap_def fst_conv by (intro hm_get_filter) (simp add: table_ok_def)

lemma step_ok:
  assumes "step s s'" "world_ok s"
  shows "world_ok s'"
  using assms
proof (induction rule: step.induct)
  case (elect s r t m)
  show ?case by (rule elect_ok [OF elect.prems elect.hyps])
next
  case (launch t s d)
  show ?case by (rule launch_ok [OF launch.prems launch.hyps])
next
  case (spawn_failed t s d)
  show ?case by (rule spawn_failed_ok [OF spawn_failed.prems spawn_failed.hyps])
next
  case (publish t s d w m)
  show ?case by (rule publish_ok [OF publish.prems publish.hyps])
next
  case (superseded t s d w m)
  then have "m = tbl s" using publish_cases [OF superseded.hyps(3)] by auto
  then show ?case using superseded_ok [OF superseded.prems superseded.hyps(1,2)] by simp
next
  case (driver_dropped t s d)
  show ?case by (rule driver_dropped_ok [OF driver_dropped.prems driver_dropped.hyps])
next
  case (peek s r res m)
  have "world_ok (s\<lparr>tbl := m, doomed := doomed s \<union> {}\<rparr>)"
    using peek
    by (intro table_loss [OF peek.prems])
      (auto simp: peek_ready_def sub_table_def is_child_alive_def world_ok_def table_ok_def
        split: option.splits worker_state.splits if_splits child_status.splits)
  then show ?case by simp
next
  case (sweep s busy)
  have tok: "table_ok s" using sweep by (simp add: world_ok_def)
  have "hm_ok (fst (reap (child_st s) busy (now s) SPAWN_ORPHAN_AFTER (tbl s)))"
    using tok unfolding reap_def fst_conv by (intro hm_ok_filter) (simp add: table_ok_def)
  then have "world_ok (s\<lparr>tbl := fst (reap (child_st s) busy (now s) SPAWN_ORPHAN_AFTER (tbl s)),
      doomed := doomed s \<union> {}\<rparr>)"
    by (intro table_loss [OF sweep.prems])
      (auto simp: reap_get [OF tok] sub_table_def reap_keeps_def split: option.splits if_splits child_status.splits)
  then show ?case by simp
next
  case (kill_one r s m ws)
  then show ?case
    by (intro table_loss [OF kill_one.prems])
      (auto simp: kill_def sub_table_def worker_of_def world_ok_def table_ok_def split: if_splits)
next
  case (kill_every s m ws)
  have "w_child w \<in> w_child ` set ws" if "hm_get r (tbl s) = Some (Ready w)" for r w
    using hm_get_mem [OF that] kill_every.hyps by (force simp: kill_all_def worker_of_def)
  with kill_every show ?case
    by (intro table_loss [OF kill_every.prems]) (auto simp: kill_all_def sub_table_def)
next
  case (killed c s)
  have "world_ok (s\<lparr>child_st := (child_st s)(c := Exited), doomed := doomed s - {c}, lost := lost s\<rparr>)"
    by (rule status_ok [OF killed.prems]) (auto split: if_splits)
  then show ?case by simp
next
  case (killer_dropped c s)
  have "world_ok (s\<lparr>child_st := child_st s, doomed := doomed s - {c}, lost := insert c (lost s)\<rparr>)"
    by (rule status_ok [OF killer_dropped.prems]) auto
  then show ?case by simp
next
  case (child_ends s c e)
  have "world_ok (s\<lparr>child_st := (child_st s)(c := e), doomed := doomed s, lost := lost s\<rparr>)"
    by (rule status_ok [OF child_ends.prems]) (use child_ends.hyps in \<open>auto split: if_splits\<close>)
  then show ?case by simp
next
  case (time_passes s)
  show ?case by (rule time_ok [OF time_passes.prems time_passes.hyps])
qed

lemma router_ok: "router_reachable s \<Longrightarrow> world_ok s"
proof (induction rule: router_reachable.induct)
  case router_new
  show ?case by (rule world_new_ok)
next
  case (router_step s s')
  then show ?case using step_ok by blast
qed



section \<open>Properties of the router\<close>

text \<open>A world in which one spawn is in flight, and the worlds around it.\<close>

definition demo_repo :: str where
  "demo_repo = ''/r''"

definition demo_elected :: world where
  "demo_elected = world_new\<lparr>tbl := [(demo_repo, Spawning 0 0)], next_token := 1,
     drivers := [(0, \<lparr>dr_repo = demo_repo, dr_since = 0, dr_child = None\<rparr>)]\<rparr>"

definition demo_launched :: world where
  "demo_launched = demo_elected\<lparr>
     drivers := [(0, \<lparr>dr_repo = demo_repo, dr_since = 0, dr_child = Some 0\<rparr>)],
     child_st := (\<lambda>_. Exited)(0 := Running), child_repo := (\<lambda>_. [])(0 := demo_repo), next_child := 1\<rparr>"

definition demo_worker :: ready_worker where
  "demo_worker = \<lparr>w_port = 5000, w_pid = 77, w_child = 0\<rparr>"

definition demo_ready :: world where
  "demo_ready = demo_launched\<lparr>tbl := [(demo_repo, Ready demo_worker)], drivers := []\<rparr>"

lemmas demo_worlds = demo_elected_def demo_launched_def demo_ready_def demo_worker_def world_new_def

lemmas hm_defs = hm_insert_def hm_remove_def hm_get_def

lemma demo_steps:
  "step world_new demo_elected" "step demo_elected demo_launched" "step demo_launched demo_ready"
proof -
  show "step world_new demo_elected"
    using elect [of world_new demo_repo 0 "[(demo_repo, Spawning 0 0)]"]
    by (simp add: acquire_slow_def demo_worlds hm_defs)
  show "step demo_elected demo_launched"
    using launch [of 0 demo_elected "\<lparr>dr_repo = demo_repo, dr_since = 0, dr_child = None\<rparr>"]
    by (simp add: demo_worlds hm_defs)
  show "step demo_launched demo_ready"
    using publish [of 0 demo_launched "\<lparr>dr_repo = demo_repo, dr_since = 0, dr_child = Some 0\<rparr>"
        demo_worker "[(demo_repo, Ready demo_worker)]"]
    by (simp add: publish_ready_def owns_spawn_def demo_worlds hm_defs)
qed

lemma demo_reachable:
  "router_reachable demo_elected" "router_reachable demo_launched" "router_reachable demo_ready"
proof -
  show e: "router_reachable demo_elected"
    by (rule router_step [OF router_new]) (rule demo_steps)
  show l: "router_reachable demo_launched" by (rule router_step [OF e]) (rule demo_steps)
  show "router_reachable demo_ready" by (rule router_step [OF l]) (rule demo_steps)
qed

text \<open>C3: Whatever the interleaving of requests, drivers, sweeps and teardowns, every running
  worker process is accounted for: it is the ready worker the table holds for its repository, or
  the child of an in-flight spawn of that repository, or about to be killed by some task, or its
  owning task was dropped. Without a dropped task no worker process leaks.\<close>

theorem running_worker_accounted:
  assumes "router_reachable s" and "child_st s c = Running"
  shows "(\<exists>w. hm_get (child_repo s c) (tbl s) = Some (Ready w) \<and> w_child w = c)
     \<or> (\<exists>t d. hm_get t (drivers s) = Some d \<and> dr_child d = Some c \<and> dr_repo d = child_repo s c)
     \<or> c \<in> doomed s \<or> c \<in> lost s"
  using router_ok [OF assms(1)] assms(2) by (simp add: world_ok_def owned_ok_def owned_def)

lemma running_worker_accounted_witness:
  "hm_get demo_repo (tbl demo_ready) = Some (Ready demo_worker)"
proof -
  have "child_st demo_ready 0 = Running" by (simp add: demo_worlds)
  from running_worker_accounted [OF demo_reachable(3) this] show ?thesis
    by (simp add: demo_worlds hm_get_def)
qed

text \<open>The orphan watchdog never reaps the entry of a spawn whose driver is still in flight,
  and never signals its waiters: a driver gives up within \<open>SPAWN_READY_TIMEOUT\<close>, a third of
  the cutoff.\<close>

theorem sweep_spares_live_spawn:
  assumes "router_reachable s" and "hm_get t (drivers s) = Some d"
    and "hm_get r (tbl s) = Some (Spawning t n)"
  shows "hm_get r (fst (reap (child_st s) busy (now s) SPAWN_ORPHAN_AFTER (tbl s))) = Some (Spawning t n)
    \<and> t \<notin> set (snd (reap (child_st s) busy (now s) SPAWN_ORPHAN_AFTER (tbl s)))"
proof -
  have ok: "table_ok s" "drivers_ok s" "tokens_ok s"
    using router_ok [OF assms(1)] by (simp_all add: world_ok_def)
  have kept: "reap_keeps (child_st s) busy (now s) SPAWN_ORPHAN_AFTER (Spawning t since)"
    if "hm_get k (tbl s) = Some (Spawning t since)" for k since
  proof -
    have "since = dr_since d" using ok(3) assms(2) that unfolding tokens_ok_def by blast
    moreover have "now s - dr_since d \<le> SPAWN_READY_TIMEOUT"
      using ok(2) assms(2) unfolding drivers_ok_def by blast
    ultimately show ?thesis by (simp add: reap_keeps_def SPAWN_ORPHAN_AFTER_def SPAWN_READY_TIMEOUT_def)
  qed
  have "hm_get r (fst (reap (child_st s) busy (now s) SPAWN_ORPHAN_AFTER (tbl s))) = Some (Spawning t n)"
    using kept [OF assms(3)] assms(3) by (simp add: reap_get [OF ok(1)])
  moreover have "t \<notin> set (snd (reap (child_st s) busy (now s) SPAWN_ORPHAN_AFTER (tbl s)))"
  proof
    assume "t \<in> set (snd (reap (child_st s) busy (now s) SPAWN_ORPHAN_AFTER (tbl s)))"
    then obtain k since where e: "(k, Spawning t since) \<in> set (tbl s)"
      "\<not> reap_keeps (child_st s) busy (now s) SPAWN_ORPHAN_AFTER (Spawning t since)"
      by (auto simp: reap_def List.map_filter_def split: worker_state.splits if_splits)
    have "hm_get k (tbl s) = Some (Spawning t since)"
      using e(1) ok(1) hm_mem_iff [of "tbl s" k] by (simp add: table_ok_def)
    with kept e(2) show False by blast
  qed
  ultimately show ?thesis by blast
qed

lemma sweep_spares_live_spawn_witness:
  "hm_get demo_repo (fst (reap (child_st demo_launched) {} (now demo_launched) SPAWN_ORPHAN_AFTER
     (tbl demo_launched))) = Some (Spawning 0 0)"
proof -
  have "hm_get 0 (drivers demo_launched) = Some \<lparr>dr_repo = demo_repo, dr_since = 0, dr_child = Some 0\<rparr>"
    "hm_get demo_repo (tbl demo_launched) = Some (Spawning 0 0)"
    by (simp_all add: demo_worlds hm_get_def)
  from sweep_spares_live_spawn [OF demo_reachable(2) this, of "{}"] show ?thesis by blast
qed

text \<open>Single flight. A caller is elected to spawn only when the repository has no entry or its
  worker is no longer running; the election puts a fresh identity token into the table, one that no
  other entry and no driver holds, so a later caller waits for this spawn instead of starting a
  second one.\<close>

theorem election_single_flight:
  assumes "router_reachable s"
    and "acquire_slow (child_st s) r (next_token s) (now s) (tbl s) = (SpawnElected t, m)"
  shows "(hm_get r (tbl s) = None \<or> (\<exists>w. hm_get r (tbl s) = Some (Ready w) \<and> child_st s (w_child w) \<noteq> Running))
    \<and> (\<forall>k n. hm_get k (tbl s) \<noteq> Some (Spawning t n)) \<and> hm_get t (drivers s) = None
    \<and> (\<forall>st fresh n. acquire_slow st r fresh n m = (AwaitSpawn t, m))"
proof -
  from acquire_slow_elected [OF assms(2)]
  have e: "t = next_token s" "m = hm_insert r (Spawning t (now s)) (tbl s)"
    "hm_get r (tbl s) = None \<or> (\<exists>w. hm_get r (tbl s) = Some (Ready w) \<and> child_st s (w_child w) \<noteq> Running)"
    by auto
  have ok: "table_ok s" "drivers_ok s" using router_ok [OF assms(1)] by (simp_all add: world_ok_def)
  have "\<forall>k n. hm_get k (tbl s) \<noteq> Some (Spawning t n)"
    using ok(1) e(1) unfolding table_ok_def by (metis less_irrefl)
  moreover have "hm_get t (drivers s) = None" using fresh_token [OF ok(2)] e(1) by simp
  moreover have "acquire_slow st r fresh n m = (AwaitSpawn t, m)" for st fresh n
    using e(2) by (simp add: acquire_slow_def Let_def)
  ultimately show ?thesis using e(3) by blast
qed

lemma election_single_flight_witness:
  "\<exists>t m. acquire_slow (child_st demo_launched) ''/other'' 1 0 (tbl demo_launched) = (SpawnElected t, m)
    \<and> hm_get t (drivers demo_launched) = None"
proof -
  have e: "acquire_slow (child_st demo_launched) ''/other'' (next_token demo_launched) (now demo_launched)
      (tbl demo_launched) = (SpawnElected 1, (''/other'', Spawning 1 0) # tbl demo_launched)"
    by (simp add: acquire_slow_def demo_worlds demo_repo_def hm_defs)
  from election_single_flight [OF demo_reachable(2) e]
  have "hm_get 1 (drivers demo_launched) = None" by blast
  moreover have "next_token demo_launched = 1" "now demo_launched = 0" by (simp_all add: demo_worlds)
  ultimately show ?thesis using e by auto
qed

text \<open>C9: No step of the router takes a running worker out of the table, or replaces it, unless it is
  the step of a task that goes on to kill it: elections, late publications, abandonments, sweeps
  and polls all leave it in place.\<close>

theorem live_worker_stays_routed:
  assumes "router_reachable s" and "step s s'"
    and "hm_get r (tbl s) = Some (Ready w)" and "child_st s (w_child w) = Running"
  shows "hm_get r (tbl s') = Some (Ready w) \<or> w_child w \<in> doomed s'"
  using assms(2,3,4)
proof (cases rule: step.cases)
  case (elect r' t m)
  with assms(3,4) show ?thesis using acquire_slow_elected [OF elect(2)] by auto
next
  case (spawn_failed t d)
  with assms(3) show ?thesis by (auto simp: abandon_spawn_def owns_spawn_iff)
next
  case (publish t d w' m)
  with assms(3) show ?thesis using publish_cases [OF publish(4)] by auto
next
  case (superseded t d w' m)
  with assms(3) show ?thesis using publish_cases [OF superseded(4)] by auto
next
  case (peek r' res m)
  with assms(3,4) show ?thesis
    by (auto simp: peek_ready_def is_child_alive_def split: option.splits worker_state.splits if_splits)
next
  case (sweep busy)
  have "table_ok s" using router_ok [OF assms(1)] by (simp add: world_ok_def)
  with sweep assms(3,4) show ?thesis by (auto simp: reap_get reap_keeps_def)
next
  case (kill_one r' m ws)
  with assms(3) show ?thesis by (cases "r' = r") (auto simp: kill_def worker_of_def)
next
  case (kill_every m ws)
  then show ?thesis using hm_get_mem [OF assms(3)] by (force simp: kill_all_def worker_of_def)
qed (use assms(3,4) in auto)

lemma live_worker_stays_routed_witness:
  "hm_get demo_repo (fst (reap (child_st demo_ready) {} 0 SPAWN_ORPHAN_AFTER (tbl demo_ready)))
    = Some (Ready demo_worker)"
proof -
  have a: "hm_get demo_repo (tbl demo_ready) = Some (Ready demo_worker)"
    "child_st demo_ready (w_child demo_worker) = Running"
    by (simp_all add: demo_worlds hm_get_def)
  from live_worker_stays_routed [OF demo_reachable(3) sweep [of demo_ready "{}"] a]
  show ?thesis by (auto simp: demo_worlds)
qed

end
