(* ===== verification/Proxy.thy ===== *)
theory Proxy
  imports Registry Encoding
begin

text \<open>
  The router's request path: the readiness handshake (\<open>parse_ready_line\<close> of
  \<open>src/router/spawn.rs\<close>, the line printed by \<open>src/runtime/worker.rs\<close>), the bounded loops of
  \<open>src/router/proxy.rs\<close> (\<open>obtain_worker\<close>, \<open>acquire_and_proxy\<close>, \<open>forward_json_to_worker\<close>) and
  the filtering of headers by \<open>send_buffered\<close>.

  What other tasks do while this one awaits is an argument: a function on the table for every
  await point, the state of the child processes, the process and the output of every spawn, the outcome of every send.
\<close>

section \<open>The handshake\<close>

definition split_whitespace :: "str \<Rightarrow> str list" where
  "split_whitespace s = filter (\<lambda>p. p \<noteq> []) (split_on char_is_whitespace s)"

text \<open>\<open>str::parse\<close> for an unsigned type of \<open>w\<close> bits.\<close>

definition parse_uint :: "nat \<Rightarrow> str \<Rightarrow> nat option" where
  "parse_uint w s =
     (let ds = (case strip_prefix s ''+'' of Some r \<Rightarrow> r | None \<Rightarrow> s) in
      if ds = [] then None
      else (case digits_value 0 ds of
              Some n \<Rightarrow> if n < 2 ^ w then Some n else None
            | None \<Rightarrow> None))"

definition READY_PREFIX :: str where
  "READY_PREFIX = ''CONTEXT_ENGINE_WORKER_READY''"

definition ready_token :: "str \<Rightarrow> nat option \<times> nat option \<Rightarrow> nat option \<times> nat option" where
  "ready_token tok acc =
     (case strip_prefix tok ''port='' of
        Some v \<Rightarrow> (parse_uint 16 v, snd acc)
      | None \<Rightarrow> (case strip_prefix tok ''pid='' of
            Some v \<Rightarrow> (fst acc, parse_uint 32 v)
          | None \<Rightarrow> acc))"

definition parse_ready_line :: "str \<Rightarrow> (nat \<times> nat) option" where
  "parse_ready_line line =
     (case strip_prefix line READY_PREFIX of
        None \<Rightarrow> None
      | Some rest \<Rightarrow>
          if rest \<noteq> [] \<and> \<not> starts_with rest '' '' then None
          else (case fold ready_token (split_whitespace rest) (None, None) of
                  (Some port, Some pid) \<Rightarrow> Some (port, pid)
                | _ \<Rightarrow> None))"

text \<open>The line a worker prints once its listener is bound.\<close>

definition ready_line :: "nat \<Rightarrow> nat \<Rightarrow> str \<Rightarrow> str" where
  "ready_line port pid repo =
     READY_PREFIX @ '' port='' @ show_nat port @ '' pid='' @ show_nat pid @ '' repo='' @ repo"

text \<open>The handshake of \<open>spawn_worker\<close>: the first readiness line wins, other lines are skipped,
  a closed pipe is an error.\<close>

fun read_ready :: "str list \<Rightarrow> str + (nat \<times> nat)" where
  "read_ready [] = Inl ''worker stdout closed before readiness handshake''"
| "read_ready (line # rest) =
     (case parse_ready_line line of Some parsed \<Rightarrow> Inr parsed | None \<Rightarrow> read_ready rest)"

text \<open>\<open>None\<close> for the lines is a handshake that outlasts \<open>SPAWN_READY_TIMEOUT\<close>; an error of the pipe
  ends the lines as its closing does. The second component says whether the child was killed.\<close>

definition handshake :: "nat \<Rightarrow> str list option \<Rightarrow> (str + ready_worker) \<times> bool" where
  "handshake child stdout =
     (case stdout of
        None \<Rightarrow> (Inl ''worker spawn timed out'', True)
      | Some lines \<Rightarrow>
          (case read_ready lines of
             Inr (port, pid) \<Rightarrow> (Inr \<lparr>w_port = port, w_pid = pid, w_child = child\<rparr>, False)
           | Inl e \<Rightarrow> (Inl ''worker readiness handshake failed'', True)))"

text \<open>A spawn: \<open>Inl\<close> is an operating system that starts no process; a started child comes with its
  captured stdout, if it was captured.\<close>

type_synonym child_process = "str + (nat \<times> str list option option)"

record spawned =
  sp_worker :: "str + ready_worker"
  sp_started :: "nat list"
  sp_killed :: "nat list"

definition spawn_worker :: "child_process \<Rightarrow> spawned" where
  "spawn_worker process =
     (case process of
        Inl e \<Rightarrow> \<lparr>sp_worker = Inl e, sp_started = [], sp_killed = []\<rparr>
      | Inr (child, None) \<Rightarrow>
          \<lparr>sp_worker = Inl ''worker stdout not captured'', sp_started = [child], sp_killed = []\<rparr>
      | Inr (child, Some stdout) \<Rightarrow>
          (case handshake child stdout of
             (answer, killed) \<Rightarrow>
               \<lparr>sp_worker = answer, sp_started = [child], sp_killed = (if killed then [child] else [])\<rparr>))"

section \<open>Obtaining a worker\<close>

record env =
  children :: "nat \<Rightarrow> nat \<Rightarrow> child_status"
  unlocked :: "nat \<Rightarrow> table \<Rightarrow> table"
  meanwhile :: "nat \<Rightarrow> table \<Rightarrow> table"
  token_at :: "nat \<Rightarrow> nat"
  clock_at :: "nat \<Rightarrow> nat"
  process_at :: "nat \<Rightarrow> child_process"

text \<open>The whole \<open>acquire\<close>: the table may change between the read lock and the write lock.\<close>

definition acquire :: "env \<Rightarrow> nat \<Rightarrow> str \<Rightarrow> table \<Rightarrow> acquired \<times> table" where
  "acquire E i repo m =
     (case acquire_fast (children E i) repo m of
        Some a \<Rightarrow> (a, m)
      | None \<Rightarrow> acquire_slow (children E i) repo (token_at E i) (clock_at E i) (unlocked E i m))"

text \<open>The children started and those killed again, by their numbers.\<close>

record obtained =
  outcome :: "str + ready_worker"
  table_after :: table
  started :: "nat list"
  killed_after :: "nat list"

fun obtain_rounds :: "env \<Rightarrow> str \<Rightarrow> nat \<Rightarrow> nat \<Rightarrow> table \<Rightarrow> obtained" where
  "obtain_rounds E repo 0 i m =
     \<lparr>outcome = Inl ''worker spawn did not converge after retries'', table_after = m,
      started = [], killed_after = []\<rparr>"
| "obtain_rounds E repo (Suc k) i m =
     (case acquire E i repo m of
        (AcqReady w, m1) \<Rightarrow> \<lparr>outcome = Inr w, table_after = m1, started = [], killed_after = []\<rparr>
      | (SpawnElected t, m1) \<Rightarrow>
          (let spawn = spawn_worker (process_at E i)
           in case sp_worker spawn of
             Inr w \<Rightarrow>
               (case publish_ready repo w t (meanwhile E i m1) of
                  (m2, True) \<Rightarrow>
                    \<lparr>outcome = Inr w, table_after = m2, started = sp_started spawn, killed_after = sp_killed spawn\<rparr>
                | (m2, False) \<Rightarrow>
                    (let r = obtain_rounds E repo k (i + 1) m2
                     in r\<lparr>started := sp_started spawn @ started r,
                          killed_after := sp_killed spawn @ w_child w # killed_after r\<rparr>))
           | Inl e \<Rightarrow>
               \<lparr>outcome = Inl (''spawn failed: '' @ e), table_after = abandon_spawn repo t (meanwhile E i m1),
                started = sp_started spawn, killed_after = sp_killed spawn\<rparr>)
      | (AwaitSpawn t, m1) \<Rightarrow> obtain_rounds E repo k (i + 1) (meanwhile E i m1))"

definition obtain_worker :: "env \<Rightarrow> str \<Rightarrow> table \<Rightarrow> obtained" where
  "obtain_worker E repo m = obtain_rounds E repo 3 0 m"

section \<open>Proxying a request\<close>

datatype 'r reply = Answered 'r | Warming str | SpawnError str | BadBody str

definition WORKER_LOST_RETRIES :: nat where
  "WORKER_LOST_RETRIES = 1"

text \<open>The loop of \<open>acquire_and_proxy\<close> and \<open>forward_json_to_worker\<close>: \<open>obtain n\<close> is the
  outcome of the \<open>n\<close>-th acquisition, \<open>send n\<close> that of the \<open>n\<close>-th request (\<open>Inl\<close>: no response
  arrived). The second result is the requests sent.\<close>

function proxy_loop ::
  "(nat \<Rightarrow> str + ready_worker) \<Rightarrow> (nat \<Rightarrow> ready_worker \<Rightarrow> str + 'r) \<Rightarrow> nat \<Rightarrow>
   (str \<Rightarrow> 'a) \<Rightarrow> (str \<Rightarrow> 'a) \<Rightarrow> ('r \<Rightarrow> 'a) \<Rightarrow> 'a \<times> ready_worker list" where
  "proxy_loop obtain_at send attempt no_worker lost_worker answer =
     (case obtain_at attempt of
        Inl msg \<Rightarrow> (no_worker msg, [])
      | Inr worker \<Rightarrow>
          (case send attempt worker of
             Inr resp \<Rightarrow> (answer resp, [worker])
           | Inl e \<Rightarrow>
               if attempt < WORKER_LOST_RETRIES
               then (let r = proxy_loop obtain_at send (attempt + 1) no_worker lost_worker answer
                     in (fst r, worker # snd r))
               else (lost_worker e, [worker])))"
  by auto
termination
  by (relation "measure (\<lambda>(_, _, attempt, _). WORKER_LOST_RETRIES - attempt)") auto

declare proxy_loop.simps [simp del]

definition acquire_and_proxy ::
  "(str + 'b) \<Rightarrow> (nat \<Rightarrow> str + ready_worker) \<Rightarrow> (nat \<Rightarrow> ready_worker \<Rightarrow> 'b \<Rightarrow> str + 'r) \<Rightarrow>
   'r reply \<times> ready_worker list" where
  "acquire_and_proxy buffered obtain_at send_buffered =
     (case buffered of
        Inl msg \<Rightarrow> (BadBody msg, [])
      | Inr b \<Rightarrow>
          proxy_loop obtain_at (\<lambda>n w. send_buffered n w b) 0
            (\<lambda>msg. if starts_with msg ''spawn failed:'' then SpawnError msg else Warming msg)
            (\<lambda>e. Warming ''worker connection lost; retry'') Answered)"

definition forward_json_to_worker ::
  "(nat \<Rightarrow> str + ready_worker) \<Rightarrow> (nat \<Rightarrow> ready_worker \<Rightarrow> str + (str + str)) \<Rightarrow> (str \<Rightarrow> str) \<Rightarrow>
   (str + str) \<times> ready_worker list" where
  "forward_json_to_worker obtain_at send unwrap_mcp_tool_result =
     proxy_loop obtain_at send 0 Inl (\<lambda>e. Inl (''worker request failed: '' @ e))
       (\<lambda>body. case body of
           Inl e \<Rightarrow> Inl (''worker response read failed: '' @ e)
         | Inr raw \<Rightarrow> Inr (unwrap_mcp_tool_result raw))"

text \<open>\<open>proxy_if_live\<close> never spawns.\<close>

definition proxy_if_live ::
  "(nat \<Rightarrow> child_status) \<Rightarrow> str \<Rightarrow> table \<Rightarrow> (str + 'b) \<Rightarrow> (ready_worker \<Rightarrow> 'b \<Rightarrow> str + 'r) \<Rightarrow>
   'r reply option \<times> table" where
  "proxy_if_live st repo m buffered send =
     (case peek_ready st repo m of
        (Some w, m') \<Rightarrow>
          (Some (case buffered of
              Inl msg \<Rightarrow> BadBody msg
            | Inr b \<Rightarrow> (case send w b of
                  Inr resp \<Rightarrow> Answered resp
                | Inl e \<Rightarrow> Warming ''worker connection lost; retry'')), m')
      | (None, m') \<Rightarrow> (None, m'))"

section \<open>Headers\<close>

text \<open>\<open>HeaderValue::to_str\<close> accepts visible ASCII, the space and the tab.\<close>

definition header_to_str_ok :: "str \<Rightarrow> bool" where
  "header_to_str_ok v \<longleftrightarrow> (\<forall>c \<in> set v. (32 \<le> code c \<and> code c < 127) \<or> code c = 9)"

definition request_headers :: "(str \<times> str) list \<Rightarrow> (str \<times> str) list" where
  "request_headers hs =
     filter (\<lambda>(name, v). to_ascii_lowercase name \<notin> {''host'', ''content-length'', ''connection''}
       \<and> header_to_str_ok v) hs"

definition response_headers :: "(str \<times> str) list \<Rightarrow> (str \<times> str) list" where
  "response_headers hs =
     filter (\<lambda>(name, v). to_ascii_lowercase name \<notin> {''connection'', ''transfer-encoding'', ''content-length''}) hs"


section \<open>Reading the handshake back\<close>

lemma split_on_first: "\<forall>c \<in> set a. \<not> P c \<Longrightarrow> P s \<Longrightarrow> split_on P (a @ s # b) = a # split_on P b"
  by (induction a) auto

lemma split_whitespace_word:
  assumes "\<forall>c \<in> set a. \<not> char_is_whitespace c" "a \<noteq> []"
  shows "split_whitespace (a @ '' '' @ b) = a # split_whitespace b"
  using split_on_first [OF assms(1) space_is_whitespace, of b] assms(2)
  by (simp add: split_whitespace_def)

lemma split_whitespace_space: "split_whitespace (CHR '' '' # b) = split_whitespace b"
  by (simp add: split_whitespace_def char_is_whitespace_def code_def)

lemma show_nat_no_ws: "c \<in> set (show_nat n) \<Longrightarrow> \<not> char_is_whitespace c"
  using show_nat_digits [of c n] by (auto simp: char_is_whitespace_def Let_def)

lemma show_nat_nonempty: "show_nat n \<noteq> []"
  by (subst show_nat.simps) simp

lemma show_nat_no_plus: "strip_prefix (show_nat n) ''+'' = None"
proof -
  have "CHR ''+'' \<notin> set (show_nat n)"
    using show_nat_digits [of "CHR ''+''" n] by (auto simp: code_def)
  then have "take 1 (show_nat n) \<noteq> ''+''" by (metis in_set_takeD list.set_intros(1))
  then show ?thesis by (simp add: strip_prefix_def starts_with_def)
qed

lemma parse_uint_show: "n < 2 ^ w \<Longrightarrow> parse_uint w (show_nat n) = Some n"
  by (simp add: parse_uint_def show_nat_no_plus show_nat_nonempty digits_value_show_nat)

lemma strip_prefix_append [simp]: "strip_prefix (p @ r) p = Some r"
  by (simp add: strip_prefix_def starts_with_def)

definition handshake_token :: "str \<Rightarrow> bool" where
  "handshake_token tok \<longleftrightarrow> starts_with tok ''port='' \<or> starts_with tok ''pid=''"

lemma ready_token_other: "\<not> handshake_token tok \<Longrightarrow> ready_token tok acc = acc"
  by (simp add: ready_token_def handshake_token_def strip_prefix_def)

lemma ready_tokens_other:
  "\<forall>tok \<in> set ts. \<not> handshake_token tok \<Longrightarrow> fold ready_token ts acc = acc"
  by (induction ts arbitrary: acc) (auto simp: ready_token_other)

lemma ready_token_port: "ready_token (''port='' @ v) acc = (parse_uint 16 v, snd acc)"
  using strip_prefix_append [of "''port=''" v] by (simp add: ready_token_def)

lemma ready_token_pid: "ready_token (''pid='' @ v) acc = (fst acc, parse_uint 32 v)"
  using strip_prefix_append [of "''pid=''" v]
  by (simp add: ready_token_def strip_prefix_def starts_with_def)

lemma word_ok: "\<forall>c \<in> set p. \<not> char_is_whitespace c \<Longrightarrow> \<forall>c \<in> set (p @ show_nat n). \<not> char_is_whitespace c"
  using show_nat_no_ws by auto

lemma ready_line_fields:
  "split_whitespace ('' port='' @ show_nat port @ '' pid='' @ show_nat pid @ '' repo='' @ repo)
   = (''port='' @ show_nat port) # (''pid='' @ show_nat pid) # split_whitespace (''repo='' @ repo)"
proof -
  have p: "\<forall>c \<in> set ''port=''. \<not> char_is_whitespace c" "\<forall>c \<in> set ''pid=''. \<not> char_is_whitespace c"
    by (simp_all add: char_is_whitespace_def code_def)
  show ?thesis
    using split_whitespace_word [OF word_ok [OF p(1), of port], of "''pid='' @ show_nat pid @ '' repo='' @ repo"]
      split_whitespace_word [OF word_ok [OF p(2), of pid], of "''repo='' @ repo"]
    by (simp add: split_whitespace_space)
qed

lemma ready_line_fold:
  assumes "port < 2 ^ 16" and "pid < 2 ^ 32"
  shows "parse_ready_line (ready_line port pid repo)
    = (case fold ready_token (split_whitespace (''repo='' @ repo)) (Some port, Some pid) of
         (Some a, Some b) \<Rightarrow> Some (a, b) | _ \<Rightarrow> None)"
proof -
  have "strip_prefix (ready_line port pid repo) READY_PREFIX
      = Some ('' port='' @ show_nat port @ '' pid='' @ show_nat pid @ '' repo='' @ repo)"
    unfolding ready_line_def by (rule strip_prefix_append)
  then show ?thesis
    using assms
    unfolding parse_ready_line_def
    by (simp only: option.simps ready_line_fields fold_simps ready_token_port ready_token_pid)
      (simp add: parse_uint_show starts_with_def)
qed

text \<open>Handshake round trip: the router reads from the line a worker prints exactly the port and
  process id the worker put into it, provided no blank-separated piece of the repository path
  itself looks like a \<open>port=\<close> or \<open>pid=\<close> field.\<close>

theorem handshake_round_trip:
  assumes "port < 2 ^ 16" and "pid < 2 ^ 32"
    and "\<forall>tok \<in> set (split_whitespace (''repo='' @ repo)). \<not> handshake_token tok"
  shows "parse_ready_line (ready_line port pid repo) = Some (port, pid)"
  using ready_tokens_other [OF assms(3)] by (simp add: ready_line_fold [OF assms(1,2)])

lemma handshake_round_trip_witness:
  "parse_ready_line (ready_line 5432 77 ''/my repo'') = Some (5432, 77)"
  by (rule handshake_round_trip)
    (simp_all add: split_whitespace_def char_is_whitespace_def code_def handshake_token_def starts_with_def)

text \<open>Later fields win, so a path with such a piece is read as another port.\<close>

lemma handshake_path_spoofs_port:
  "parse_ready_line (ready_line 5432 77 ''/a port=9'') = Some (9, 77)"
  by (subst ready_line_fold)
    (simp_all add: split_whitespace_def char_is_whitespace_def code_def ready_token_def strip_prefix_def
      starts_with_def parse_uint_def digit_of_def)

section \<open>Obtaining a worker\<close>

lemma acquire_ready:
  assumes "acquire E i repo m = (AcqReady w, m1)"
  shows "hm_get repo m1 = Some (Ready w)"
  using assms
  by (auto simp: acquire_def acquire_fast_def acquire_slow_def Let_def
      split: option.splits worker_state.splits if_splits)

definition uncaptured :: "env \<Rightarrow> nat \<Rightarrow> bool" where
  "uncaptured E c \<longleftrightarrow> (\<exists>i. process_at E i = Inr (c, None))"

definition accounted :: "env \<Rightarrow> obtained \<Rightarrow> bool" where
  "accounted E r \<longleftrightarrow> (\<forall>c \<in> set (started r). c \<in> set (killed_after r)
     \<or> (\<exists>w. outcome r = Inr w \<and> w_child w = c) \<or> uncaptured E c)"

lemma handshake_cases:
  "handshake c out = (Inr w, b) \<Longrightarrow> w_child w = c \<and> \<not> b"
  "handshake c out = (Inl e, b) \<Longrightarrow> b"
  by (auto simp: handshake_def split: option.splits sum.splits prod.splits)

text \<open>A spawn starts at most one child: the worker it returns, or one it killed again.\<close>

lemma spawn_worker_cases:
  "length (sp_started (spawn_worker p)) \<le> 1"
  "sp_worker (spawn_worker p) = Inr w \<Longrightarrow> sp_started (spawn_worker p) = [w_child w]"
  "sp_worker (spawn_worker (process_at E i)) = Inl e \<Longrightarrow>
     \<forall>c \<in> set (sp_started (spawn_worker (process_at E i))). c \<in> set (sp_killed (spawn_worker (process_at E i))) \<or> uncaptured E c"
  by (auto simp: spawn_worker_def uncaptured_def dest!: handshake_cases split: sum.splits prod.splits option.splits)

lemma obtain_rounds_sound:
  "length (started (obtain_rounds E repo k i m)) \<le> k
   \<and> (\<forall>w. outcome (obtain_rounds E repo k i m) = Inr w \<longrightarrow>
        hm_get repo (table_after (obtain_rounds E repo k i m)) = Some (Ready w))
   \<and> accounted E (obtain_rounds E repo k i m)"
proof (induction E repo k i m rule: obtain_rounds.induct)
  case (1 E repo i m)
  then show ?case by (simp add: accounted_def)
next
  case (2 E repo k i m)
  obtain a m1 where a: "acquire E i repo m = (a, m1)" by fastforce
  show ?case
  proof (cases a)
    case (AcqReady w)
    with a show ?thesis using acquire_ready [of E i repo m w m1] by (simp add: accounted_def)
  next
    case (SpawnElected t)
    let ?s = "spawn_worker (process_at E i)"
    show ?thesis
    proof (cases "sp_worker ?s")
      case (Inl e)
      with a SpawnElected spawn_worker_cases(1) [of "process_at E i"] spawn_worker_cases(3) [OF Inl]
      show ?thesis by (auto simp: accounted_def Let_def)
    next
      case (Inr w)
      obtain m2 b where p: "publish_ready repo w t (meanwhile E i m1) = (m2, b)" by fastforce
      note IH = "2.IH"(1) [OF a [symmetric] SpawnElected refl Inr p [symmetric]]
      show ?thesis
        using a SpawnElected Inr p IH publish_cases [OF p] spawn_worker_cases(2) [OF Inr]
        by (cases b) (auto simp: Let_def accounted_def)
    qed
  next
    case (AwaitSpawn t)
    with a "2.IH"(2) [OF a [symmetric] AwaitSpawn] show ?thesis by auto
  qed
qed

text \<open>C15: Whatever the other tasks do meanwhile, and however its spawns end, \<open>obtain_worker\<close> starts at
  most three processes and leaks none of them: each started child is killed again (a failed handshake,
  a handshake that times out, a worker superseded before it was published) or is the child of the worker
  it returns; a worker it returns is the one the table holds for the repository at that moment. The
  exception is a child started without its stdout captured, which the piped stdout excludes. It is the
  request run to its end: a request dropped while it spawns is a finding.\<close>

theorem obtain_worker_no_leak:
  "length (started (obtain_worker E repo m)) \<le> 3
   \<and> (\<forall>w. outcome (obtain_worker E repo m) = Inr w \<longrightarrow>
        hm_get repo (table_after (obtain_worker E repo m)) = Some (Ready w))
   \<and> (\<forall>c \<in> set (started (obtain_worker E repo m)).
        c \<in> set (killed_after (obtain_worker E repo m))
        \<or> (\<exists>w. outcome (obtain_worker E repo m) = Inr w \<and> w_child w = c)
        \<or> (\<exists>i. process_at E i = Inr (c, None)))"
  using obtain_rounds_sound [of E repo 3 0 m] unfolding obtain_worker_def accounted_def uncaptured_def .

definition demo_env :: env where
  "demo_env = \<lparr>children = (\<lambda>_ _. Running), unlocked = (\<lambda>_ m. m), meanwhile = (\<lambda>i m. if i = 0 then [] else m),
     token_at = (\<lambda>i. i), clock_at = (\<lambda>i. i),
     process_at = (\<lambda>i. Inr (i, Some (if i = 0 then Some [ready_line 9000 7 ''/r''] else None)))\<rparr>"

lemma demo_env_fields:
  "children demo_env = (\<lambda>_ _. Running)" "unlocked demo_env = (\<lambda>_ m. m)"
  "meanwhile demo_env = (\<lambda>i m. if i = 0 then [] else m)" "token_at demo_env = (\<lambda>i. i)" "clock_at demo_env = (\<lambda>i. i)"
  by (simp_all add: demo_env_def)

lemma demo_handshake:
  "handshake 0 (Some [ready_line 9000 7 ''/r'']) = (Inr \<lparr>w_port = 9000, w_pid = 7, w_child = 0\<rparr>, False)"
proof -
  have "parse_ready_line (ready_line 9000 7 ''/r'') = Some (9000, 7)"
    by (rule handshake_round_trip)
      (simp_all add: split_whitespace_def char_is_whitespace_def code_def handshake_token_def starts_with_def)
  then show ?thesis by (simp add: handshake_def)
qed

text \<open>The first child is superseded, the second never reports: both are killed.\<close>

lemma obtain_worker_no_leak_witness:
  "outcome (obtain_worker demo_env ''/r'' []) = Inl ''spawn failed: worker spawn timed out''
   \<and> started (obtain_worker demo_env ''/r'' []) = [0, 1]
   \<and> {0, 1} \<subseteq> set (killed_after (obtain_worker demo_env ''/r'' []))"
proof -
  have "spawn_worker (process_at demo_env 0) =
      \<lparr>sp_worker = Inr \<lparr>w_port = 9000, w_pid = 7, w_child = 0\<rparr>, sp_started = [0], sp_killed = []\<rparr>"
    using demo_handshake by (simp add: demo_env_def spawn_worker_def)
  moreover have "spawn_worker (process_at demo_env (Suc 0)) =
      \<lparr>sp_worker = Inl ''worker spawn timed out'', sp_started = [1], sp_killed = [1]\<rparr>"
    by (simp add: demo_env_def spawn_worker_def handshake_def)
  ultimately have r: "outcome (obtain_worker demo_env ''/r'' []) = Inl ''spawn failed: worker spawn timed out''"
      "started (obtain_worker demo_env ''/r'' []) = [0, 1]"
    by (simp_all add: obtain_worker_def numeral_3_eq_3 acquire_def acquire_fast_def acquire_slow_def publish_ready_def
        owns_spawn_def hm_defs demo_env_fields Let_def)
  moreover have "process_at demo_env i \<noteq> Inr (c, None)" for i c by (simp add: demo_env_def)
  ultimately show ?thesis using obtain_worker_no_leak [of demo_env "''/r''" "[]"] by auto
qed

section \<open>Retrying a request\<close>

definition answered :: "'r reply \<Rightarrow> bool" where
  "answered r = (case r of Answered _ \<Rightarrow> True | _ \<Rightarrow> False)"

text \<open>C16: A proxied request is sent at most twice, and sent again only after an attempt that got no
  response at all: the attempts before the last all went unanswered, an answer given to the
  client is the worker's response to the last attempt, and the hard-error reply is given only when
  an acquisition failed with a spawn failure.\<close>

theorem proxied_request_retry:
  assumes "acquire_and_proxy (Inr b) obtain_at send = (reply, sent)"
  shows "length sent \<le> 2
    \<and> (\<forall>n < length sent - 1. \<exists>w e. obtain_at n = Inr w \<and> send n w b = Inl e)
    \<and> (\<forall>r. reply = Answered r \<longrightarrow> sent \<noteq> [] \<and> send (length sent - 1) (last sent) b = Inr r)
    \<and> (\<forall>msg. reply = SpawnError msg \<longrightarrow>
         obtain_at (length sent) = Inl msg \<and> starts_with msg ''spawn failed:'')"
  using assms
  by (subst (asm) acquire_and_proxy_def, subst (asm) sum.case(2),
      subst (asm) proxy_loop.simps, subst (asm) proxy_loop.simps)
    (auto simp: WORKER_LOST_RETRIES_def Let_def split: sum.splits if_splits)

lemma proxied_request_retry_witness:
  "\<exists>reply sent. acquire_and_proxy (Inr ()) (\<lambda>n. Inr demo_worker)
      (\<lambda>n w b. if n = 0 then Inl ''reset'' else Inr (n :: nat)) = (reply, sent)
     \<and> reply = Answered 1 \<and> length sent \<le> 2"
proof -
  have e: "acquire_and_proxy (Inr ()) (\<lambda>n. Inr demo_worker)
      (\<lambda>n w b. if n = 0 then Inl ''reset'' else Inr (n :: nat)) = (Answered 1, [demo_worker, demo_worker])"
    by (simp add: acquire_and_proxy_def proxy_loop.simps WORKER_LOST_RETRIES_def)
  show ?thesis using proxied_request_retry [OF e] e by blast
qed

end
