(* ===== verification/Lang.thy ===== *)
theory Lang
  imports Prelude
begin

text \<open>
  Paths as \<open>std::path::Path\<close> reads them on a Unix host (the part the program uses) and the
  language of a file (\<open>Lang\<close>, \<open>detect_language\<close> of \<open>src/parsing/mod.rs\<close>).
\<close>

text \<open>\<open>Path::file_name\<close>: the last component; empty and \<open>.\<close> components do not count, a path that
  ends in \<open>..\<close> has none.\<close>

definition path_names :: "str \<Rightarrow> str list" where
  "path_names p = filter (\<lambda>s. s \<noteq> [] \<and> s \<noteq> ''.'') (split_on (\<lambda>c. c = slash) p)"

definition path_file_name :: "str \<Rightarrow> str option" where
  "path_file_name p =
     (if path_names p = [] \<or> last (path_names p) = ''..'' then None else Some (last (path_names p)))"

text \<open>\<open>Path::extension\<close>: after the last dot of the file name, unless that dot starts it.\<close>

definition path_extension :: "str \<Rightarrow> str option" where
  "path_extension p =
     (case path_file_name p of
        None \<Rightarrow> None
      | Some n \<Rightarrow>
          (case rsplit_once (CHR ''.'') n of
             None \<Rightarrow> None
           | Some (stem, ext) \<Rightarrow> if stem = [] then None else Some ext))"

datatype lang = Python | JavaScript | TypeScript | Tsx | Rust | Go | Java | C | Cpp | CSharp | Php | Ruby
  | ObjectiveC | Swift | Kotlin | Dart | Lua | Luau | Svelte | Pascal | Liquid | Other

definition extension_lang :: "str \<Rightarrow> lang" where
  "extension_lang e =
     (if e = ''py'' then Python
      else if e \<in> {''js'', ''jsx'', ''mjs'', ''cjs''} then JavaScript
      else if e = ''ts'' then TypeScript
      else if e = ''tsx'' then Tsx
      else if e = ''rs'' then Rust
      else if e = ''go'' then Go
      else if e = ''java'' then Java
      else if e = ''c'' then C
      else if e \<in> {''cpp'', ''cc'', ''cxx''} then Cpp
      else if e \<in> {''h'', ''hpp'', ''hxx'', ''hh''} then Cpp
      else if e = ''cs'' then CSharp
      else if e = ''php'' then Php
      else if e = ''rb'' then Ruby
      else if e \<in> {''m'', ''mm''} then ObjectiveC
      else if e = ''swift'' then Swift
      else if e \<in> {''kt'', ''kts''} then Kotlin
      else if e = ''dart'' then Dart
      else if e = ''lua'' then Lua
      else if e = ''luau'' then Luau
      else if e = ''svelte'' then Svelte
      else if e \<in> {''pas'', ''pp'', ''dpr'', ''lpr'', ''dpk''} then Pascal
      else if e = ''liquid'' then Liquid
      else Other)"

definition detect_language :: "str \<Rightarrow> lang" where
  "detect_language path = (case path_extension path of Some e \<Rightarrow> extension_lang e | None \<Rightarrow> Other)"

text \<open>\<open>format!("{:?}", lang).to_lowercase()\<close>.\<close>

fun lang_lower :: "lang \<Rightarrow> str" where
  "lang_lower Python = ''python''"
| "lang_lower JavaScript = ''javascript''"
| "lang_lower TypeScript = ''typescript''"
| "lang_lower Tsx = ''tsx''"
| "lang_lower Rust = ''rust''"
| "lang_lower Go = ''go''"
| "lang_lower Java = ''java''"
| "lang_lower C = ''c''"
| "lang_lower Cpp = ''cpp''"
| "lang_lower CSharp = ''csharp''"
| "lang_lower Php = ''php''"
| "lang_lower Ruby = ''ruby''"
| "lang_lower ObjectiveC = ''objectivec''"
| "lang_lower Swift = ''swift''"
| "lang_lower Kotlin = ''kotlin''"
| "lang_lower Dart = ''dart''"
| "lang_lower Lua = ''lua''"
| "lang_lower Luau = ''luau''"
| "lang_lower Svelte = ''svelte''"
| "lang_lower Pascal = ''pascal''"
| "lang_lower Liquid = ''liquid''"
| "lang_lower Other = ''other''"

lemma path_file_name_plain:
  "s \<noteq> [] \<Longrightarrow> s \<noteq> ''.'' \<Longrightarrow> s \<noteq> ''..'' \<Longrightarrow> slash \<notin> set s \<Longrightarrow> path_file_name (d @ slash # s) = Some s"
proof -
  assume s: "s \<noteq> []" "s \<noteq> ''.''" "s \<noteq> ''..''" "slash \<notin> set s"
  have whole: "split_on (\<lambda>c. c = slash) s = [s]" using s(4) by (induction s) auto
  have "split_on (\<lambda>c. c = slash) (d @ slash # s) = split_on (\<lambda>c. c = slash) d @ [s]"
    using whole by (induction d) (auto split: list.split)
  then show ?thesis using s by (simp add: path_file_name_def path_names_def)
qed

end
