(* ===== verification/Source_Paths.thy ===== *)
theory Source_Paths
  imports Paths
begin

text \<open>
  What a path says about a source file: whether it is a test (\<open>src/parsing/test_paths.rs\<close>),
  its repository-relative form (same file) and whether a tool generated it
  (\<open>src/parsing/generated.rs\<close>).
\<close>

section \<open>Test files\<close>

definition test_dirs :: "str list" where
  "test_dirs = [''test'', ''tests'', ''__tests__'', ''__mocks__'', ''spec'']"

text \<open>Capital-T suffixes; an all-lowercase stem falls back to the lowercase suffix.\<close>

definition camel_test_suffix :: "str \<Rightarrow> bool" where
  "camel_test_suffix stem =
     (if ends_with stem ''Test'' \<or> ends_with stem ''Tests'' then True
      else \<not> list_ex char_is_ascii_uppercase stem
        \<and> (ends_with stem ''test'' \<or> ends_with stem ''tests''))"

definition is_test_file_name :: "str \<Rightarrow> bool" where
  "is_test_file_name file =
     (case rsplit_once CHR ''.'' file of
        None \<Rightarrow> False
      | Some (stem, ext) \<Rightarrow>
          (let lower = to_ascii_lowercase stem;
               ends = (\<lambda>suffixes. list_ex (ends_with lower) suffixes);
               e = to_ascii_lowercase ext
           in if e = ''go'' then ends [''_test'']
              else if e = ''py'' then starts_with lower ''test_'' \<or> lower = ''conftest'' \<or> ends [''_test'']
              else if e = ''rs'' then lower = ''tests'' \<or> ends [''_tests'', ''_test'']
              else if e \<in> set [''js'', ''jsx'', ''mjs'', ''cjs'', ''ts'', ''tsx'', ''mts'', ''cts'', ''svelte'']
              then ends [''.test'', ''.spec'']
              else if e = ''rb'' then ends [''_spec'', ''_test'']
              else if e = ''dart'' then ends [''_test'']
              else if e \<in> set [''lua'', ''luau''] then ends [''_spec'', ''_test'', ''.spec'', ''.test'']
              else if e \<in> set [''c'', ''cc'', ''cpp'', ''cxx'']
              then starts_with lower ''test_''
                \<or> ends [''_test'', ''_unittest'', ''_unittests'', ''_browsertest'']
              else if e \<in> set [''java'', ''kt'', ''kts'', ''scala'', ''cs'', ''php'', ''swift'', ''m'', ''mm'']
              then camel_test_suffix stem
              else False))"

definition segments :: "str \<Rightarrow> str list" where
  "segments rel = filter (\<lambda>s. s \<noteq> []) (split_on (\<lambda>c. c = slash) (replace_char backslash slash rel))"

definition is_test_dir :: "str \<Rightarrow> bool" where
  "is_test_dir dir =
     (let d = to_ascii_lowercase dir in d \<in> set test_dirs \<or> ends_with d ''.tests'')"

definition is_test_path :: "str \<Rightarrow> bool" where
  "is_test_path rel =
     (let segs = segments rel in
      if segs = [] then False
      else list_ex is_test_dir (butlast segs) \<or> is_test_file_name (last segs))"

section \<open>Repository-relative paths\<close>

text \<open>
  The root has to be followed by a separator in the (slash-separated) path. Byte offsets:
  the root's length must be a character boundary of the path.
\<close>

definition strip_repo :: "str \<Rightarrow> str \<Rightarrow> str option" where
  "strip_repo file repo0 =
     (let repo = trim_end_matches (\<lambda>c. c = slash) (replace_char backslash slash repo0) in
      if str_len repo < str_len file
      then (case split_bytes (str_len repo) file of
              None \<Rightarrow> None
            | Some (pre, rest) \<Rightarrow>
                if eq_ignore_ascii_case pre repo \<and> starts_with rest [slash]
                then Some (drop 1 rest) else None)
      else None)"

definition repo_relative_in :: "str \<Rightarrow> str list \<Rightarrow> str" where
  "repo_relative_in file0 repos =
     (let file = replace_char backslash slash file0 in
      case first_min_by str_len (List.map_filter (strip_repo file) repos) of
        Some rel \<Rightarrow> rel
      | None \<Rightarrow> last (split_on (\<lambda>c. c = slash) file))"

definition repo_relative :: "str \<Rightarrow> str \<Rightarrow> str" where
  "repo_relative file repo = repo_relative_in file [repo]"

lemma strip_repo_Some:
  assumes "strip_repo file repo = Some rel"
  shows "\<exists>root. file = root @ slash # rel
    \<and> eq_ignore_ascii_case root (trim_end_matches (\<lambda>c. c = slash) (replace_char backslash slash repo))"
proof -
  let ?r = "trim_end_matches (\<lambda>c. c = slash) (replace_char backslash slash repo)"
  obtain pre rest where sp: "split_bytes (str_len ?r) file = Some (pre, rest)"
    and eq: "eq_ignore_ascii_case pre ?r" and st: "starts_with rest [slash]" and rel: "rel = drop 1 rest"
    using assms by (auto simp: strip_repo_def Let_def split: if_splits option.splits prod.splits)
  from st rel have "rest = slash # rel" by (auto simp: starts_with_iff)
  with split_bytes_Some [OF sp] eq show ?thesis by blast
qed

text \<open>With no root containing the file, only the file name is left.\<close>

lemma last_split_on_no_sep: "\<forall>c \<in> set (last (split_on P s)). \<not> P c"
  using split_on_pieces [of "last (split_on P s)" P s] by auto

section \<open>Generated files\<close>

text \<open>
  The patterns are regular expressions of a small shape: a sequence of literals, choices of
  literals, and runs of non-separators, searched for anywhere in the path and, with \<open>$\<close>,
  required to end at its end. A pattern is that sequence and whether it is anchored.
\<close>

datatype atom = Lit str | OneOf "str list" | NonSep1 | NonSep0

text \<open>All remainders after a match of one atom at the front.\<close>

fun non_sep_rests :: "str \<Rightarrow> str list" where
  "non_sep_rests [] = [[]]"
| "non_sep_rests (c # cs) = (c # cs) # (if is_sep c then [] else non_sep_rests cs)"

fun atom_rests :: "atom \<Rightarrow> str \<Rightarrow> str list" where
  "atom_rests (Lit l) s = (case strip_prefix s l of Some r \<Rightarrow> [r] | None \<Rightarrow> [])"
| "atom_rests (OneOf ls) s = List.map_filter (strip_prefix s) ls"
| "atom_rests NonSep0 s = non_sep_rests s"
| "atom_rests NonSep1 s = (case s of [] \<Rightarrow> [] | c # cs \<Rightarrow> if is_sep c then [] else non_sep_rests cs)"

fun match_here :: "bool \<Rightarrow> atom list \<Rightarrow> str \<Rightarrow> bool" where
  "match_here anchored [] s = (\<not> anchored \<or> s = [])"
| "match_here anchored (a # as) s = list_ex (match_here anchored as) (atom_rests a s)"

fun match_anywhere :: "bool \<times> atom list \<Rightarrow> str \<Rightarrow> bool" where
  "match_anywhere (anchored, as) [] = match_here anchored as []"
| "match_anywhere (anchored, as) (c # cs) =
     (match_here anchored as (c # cs) \<or> match_anywhere (anchored, as) cs)"

definition generated_patterns :: "(bool \<times> atom list) list" where
  "generated_patterns =
    [(True, [Lit ''.pb.go'']),
     (True, [Lit ''_grpc.pb.go'']),
     (True, [Lit ''_mock.go'']),
     (True, [Lit ''mock_'', NonSep1, Lit ''.go'']),
     (True, [Lit ''_string.go'']),
     (True, [Lit ''_gen.go'']),
     (True, [Lit ''wire_gen.go'']),
     (True, [Lit ''ent/'', NonSep1, Lit ''.go'']),
     (True, [Lit ''zzgenerated'', NonSep0, Lit ''.go'']),
     (True, [Lit ''zz_generated'', NonSep0, Lit ''.go'']),
     (True, [Lit ''.generated.'', OneOf [''ts'', ''js'', ''tsx'', ''jsx'']]),
     (True, [Lit ''.g.'', OneOf [''ts'', ''js'']]),
     (False, [Lit ''__generated__/'']),
     (True, [Lit ''generated/'', NonSep1, Lit ''.'', OneOf [''ts'', ''js'', ''tsx'', ''jsx'']]),
     (True, [Lit ''dist/'', NonSep1, Lit ''.'', OneOf [''js'', ''mjs'', ''cjs'']]),
     (False, [Lit ''.next/'']),
     (False, [Lit ''.nuxt/'']),
     (True, [Lit ''_pb2.py'']),
     (True, [Lit ''_pb2_grpc.py'']),
     (True, [Lit ''_generated.py'']),
     (True, [Lit ''.pb.'', OneOf [''h'', ''cc'', ''cpp'']]),
     (True, [Lit ''.grpc.pb.'', OneOf [''h'', ''cc'', ''cpp'']]),
     (True, [Lit ''moc_'', NonSep1, Lit ''.cpp'']),
     (True, [Lit ''ui_'', NonSep1, Lit ''.h'']),
     (True, [Lit ''.tab.'', OneOf [''c'', ''h'']]),
     (True, [Lit ''lex.yy.c'']),
     (True, [Lit ''.Designer.cs'']),
     (True, [Lit ''.g.cs'']),
     (True, [Lit ''.generated.cs'']),
     (True, [Lit ''Migrations/'', NonSep1, Lit ''.cs'']),
     (False, [Lit ''generated-sources/'']),
     (False, [Lit ''target/generated/'']),
     (False, [Lit ''build/generated/'']),
     (True, [Lit ''.generated.swift'']),
     (True, [Lit ''Generated/'', NonSep1, Lit ''.swift'']),
     (True, [Lit ''.g.dart'']),
     (True, [Lit ''.freezed.dart'']),
     (False, [Lit ''target/'', NonSep1, Lit ''/build/'']),
     (False, [Lit ''vendor/'']),
     (False, [Lit ''node_modules/'']),
     (False, [Lit ''__pycache__/''])]"

definition is_generated_file :: "str \<Rightarrow> bool" where
  "is_generated_file path =
     (let normalized = replace_char backslash slash path in
      list_ex (\<lambda>p. match_anywhere p normalized) generated_patterns)"

lemma match_anywhere_append: "match_anywhere p s \<Longrightarrow> match_anywhere p (pre @ s)"
  by (cases p) (induction pre, auto)

lemma is_generated_file_under: "is_generated_file f \<Longrightarrow> is_generated_file (dir @ f)"
  unfolding is_generated_file_def Let_def replace_char_def
  by (auto simp: list_ex_iff intro: match_anywhere_append)

lemma is_generated_file_sep: "is_generated_file (replace_char backslash slash f) = is_generated_file f"
  by (simp add: is_generated_file_def)

section \<open>Properties\<close>

lemma repo_relative_in_cases:
  defines "f' f \<equiv> replace_char backslash slash f"
  assumes "repo_relative_in f repos = rel"
  shows "(\<exists>repo \<in> set repos. strip_repo (f' f) repo = Some rel
        \<and> (\<forall>r \<in> set repos. \<forall>x. strip_repo (f' f) r = Some x \<longrightarrow> str_len rel \<le> str_len x))
    \<or> ((\<forall>r \<in> set repos. strip_repo (f' f) r = None) \<and> slash \<notin> set rel)"
proof (cases "first_min_by str_len (List.map_filter (strip_repo (f' f)) repos)")
  case None
  then have "List.map_filter (strip_repo (f' f)) repos = []" by (simp only: first_min_by_None)
  then have "\<forall>r \<in> set repos. strip_repo (f' f) r = None"
    by (auto simp: List.map_filter_def filter_empty_conv)
  moreover have "rel = last (split_on (\<lambda>c. c = slash) (f' f))"
    using assms None by (simp add: repo_relative_in_def f'_def Let_def)
  ultimately show ?thesis using last_split_on_no_sep by fastforce
next
  case (Some x)
  have mem: "y \<in> set (List.map_filter (strip_repo (f' f)) repos)
      \<longleftrightarrow> (\<exists>r \<in> set repos. strip_repo (f' f) r = Some y)" for y
    by (force simp: List.map_filter_def)
  have "x = rel" using assms Some by (simp add: repo_relative_in_def f'_def Let_def)
  with first_min_by_Some [OF Some] mem show ?thesis by metis
qed

text \<open>A repository-relative path is the file below one of the given roots (compared without
  ASCII case), the shortest such remainder, so the innermost root wins; when no root holds the
  file only a bare file name is left, so an unrelated parent directory can not make it a test.\<close>

theorem repo_relative_innermost:
  "(\<exists>repo \<in> set repos.
      strip_repo (replace_char backslash slash f) repo = Some (repo_relative_in f repos)
      \<and> (\<forall>r \<in> set repos. \<forall>x. strip_repo (replace_char backslash slash f) r = Some x
           \<longrightarrow> str_len (repo_relative_in f repos) \<le> str_len x))
   \<or> ((\<forall>r \<in> set repos. strip_repo (replace_char backslash slash f) r = None)
       \<and> slash \<notin> set (repo_relative_in f repos))"
  using repo_relative_in_cases [of f repos "repo_relative_in f repos"] by simp

theorem repo_relative_innermost_witness:
  "(\<exists>repo \<in> set [''/w'', ''/w/app''].
      strip_repo (replace_char backslash slash ''/w/app/m.rs'') repo
        = Some (repo_relative_in ''/w/app/m.rs'' [''/w'', ''/w/app''])
      \<and> (\<forall>r \<in> set [''/w'', ''/w/app'']. \<forall>x.
           strip_repo (replace_char backslash slash ''/w/app/m.rs'') r = Some x
           \<longrightarrow> str_len (repo_relative_in ''/w/app/m.rs'' [''/w'', ''/w/app'']) \<le> str_len x))
   \<or> ((\<forall>r \<in> set [''/w'', ''/w/app'']. strip_repo (replace_char backslash slash ''/w/app/m.rs'') r = None)
       \<and> slash \<notin> set (repo_relative_in ''/w/app/m.rs'' [''/w'', ''/w/app'']))"
  by (rule repo_relative_innermost)

end
