(* ===== verification/Merger.thy ===== *)
theory Merger
  imports Hash_Map F32 Source_Paths "HOL-Library.List_Lexorder" "HOL-Library.Char_ord"
    "HOL-Library.Product_Lexorder"
begin

text \<open>
  The merge pipeline of a query's candidates (\<open>src/query/merger.rs\<close>): deduplication, collapse of
  identical content across files, merging of neighbours, removal of contained ranges, the cap.

  Line numbers are natural numbers: the code adds at most two to one and never subtracts a larger
  from a smaller. The order of paths is that of their characters. The four sorts are the argument
  \<open>srt\<close>; hash maps that are only iterated before a sort are lists of entries.
\<close>

record merge_chunk =
  mc_file :: str
  mc_line_start :: nat
  mc_line_end :: nat
  mc_score :: f32
  mc_content :: str
  mc_symbol :: "str option"
  mc_symbol_fqn :: "str option"
  mc_symbol_kind :: "str option"
  mc_duplicates :: "str list"

definition is_under_prune_floor :: "nat \<Rightarrow> merge_chunk \<Rightarrow> bool" where
  "is_under_prune_floor min_prune_lines c \<longleftrightarrow> mc_line_end c - mc_line_start c < min_prune_lines"

record ranked =
  rk_chunk :: merge_chunk
  rk_rank :: f32

definition ranked_new :: "merge_chunk \<Rightarrow> f32 \<Rightarrow> ranked" where
  "ranked_new c weight = \<lparr>rk_chunk = c, rk_rank = f32_mul (mc_score c) weight\<rparr>"

definition by_rank_desc :: "f32 \<Rightarrow> f32 \<Rightarrow> ordering" where
  "by_rank_desc a b = (case f32_partial_cmp b a of Some ord \<Rightarrow> ord | None \<Rightarrow> Equal)"

abbreviation rk_file :: "ranked \<Rightarrow> str" where
  "rk_file r \<equiv> mc_file (rk_chunk r)"

abbreviation rk_start :: "ranked \<Rightarrow> nat" where
  "rk_start r \<equiv> mc_line_start (rk_chunk r)"

abbreviation rk_end :: "ranked \<Rightarrow> nat" where
  "rk_end r \<equiv> mc_line_end (rk_chunk r)"

abbreviation rk_dups :: "ranked \<Rightarrow> str list" where
  "rk_dups r \<equiv> mc_duplicates (rk_chunk r)"

text \<open>The comparisons of the sorts, as "not greater".\<close>

definition location_le :: "ranked \<Rightarrow> ranked \<Rightarrow> bool" where
  "location_le a b = ((rk_file a, rk_start a, rk_end a) \<le> (rk_file b, rk_start b, rk_end b))"

definition start_le :: "ranked \<Rightarrow> ranked \<Rightarrow> bool" where
  "start_le a b = (rk_start a \<le> rk_start b)"

definition width_ge :: "ranked \<Rightarrow> ranked \<Rightarrow> bool" where
  "width_ge a b = (rk_end b - rk_start b \<le> rk_end a - rk_start a)"

definition rank_le :: "ranked \<Rightarrow> ranked \<Rightarrow> bool" where
  "rank_le a b =
     (ord_then (by_rank_desc (rk_rank a) (rk_rank b))
       (ord_then (ord_of (rk_file a) (rk_file b)) (ord_of (rk_start a) (rk_start b))) \<noteq> Greater)"

definition copy_le :: "ranked \<Rightarrow> ranked \<Rightarrow> bool" where
  "copy_le a b =
     (ord_then (by_rank_desc (rk_rank a) (rk_rank b))
       (ord_then (ord_of (is_generated_file (rk_file a)) (is_generated_file (rk_file b)))
         (ord_then (ord_of (rk_file a) (rk_file b)) (ord_of (rk_start a) (rk_start b)))) \<noteq> Greater)"

type_synonym ranked_sort = "(ranked \<Rightarrow> ranked \<Rightarrow> bool) \<Rightarrow> ranked list \<Rightarrow> ranked list"

section \<open>Grouping\<close>

text \<open>\<open>entry(key).or_default().push(x)\<close>.\<close>

definition push_entry :: "'k \<Rightarrow> 'v \<Rightarrow> ('k, 'v list) hmap \<Rightarrow> ('k, 'v list) hmap" where
  "push_entry k v m = hm_insert k ((case hm_get k m of Some vs \<Rightarrow> vs | None \<Rightarrow> []) @ [v]) m"

definition group_by :: "('v \<Rightarrow> 'k) \<Rightarrow> 'v list \<Rightarrow> ('k, 'v list) hmap" where
  "group_by key xs = fold (\<lambda>x. push_entry (key x) x) xs []"

section \<open>The steps\<close>

text \<open>Step 1: the best rank of each location.\<close>

definition dedup_insert :: "ranked \<Rightarrow> (str \<times> nat \<times> nat, ranked) hmap \<Rightarrow> (str \<times> nat \<times> nat, ranked) hmap" where
  "dedup_insert incoming m =
     (let key = (rk_file incoming, rk_start incoming, rk_end incoming) in
      case hm_get key m of
        Some existing \<Rightarrow>
          if f32_lt (rk_rank existing) (rk_rank incoming) then hm_insert key incoming m else m
      | None \<Rightarrow> hm_insert key incoming m)"

definition dedup :: "(merge_chunk \<times> f32) list \<Rightarrow> ranked list" where
  "dedup cs = map snd (fold (\<lambda>(c, weight). dedup_insert (ranked_new c weight)) cs [])"

text \<open>Step 2: identical content across files.\<close>

definition content_key :: "str \<Rightarrow> str option" where
  "content_key content =
     (let normalized = join [newline] (map trim_end (str_lines (replace_str [carriage_return, newline] [newline] content)))
      in if trim normalized = [] then None else Some normalized)"

definition collapse_group :: "ranked_sort \<Rightarrow> ranked list \<Rightarrow> ranked list" where
  "collapse_group srt grp =
     (case srt copy_le grp of
        [] \<Rightarrow> []
      | kept # rest \<Rightarrow>
          filter (\<lambda>r. rk_file r = rk_file kept) rest
          @ [kept\<lparr>rk_chunk := (rk_chunk kept)\<lparr>mc_duplicates :=
               remdups_adj (sort (map rk_file (filter (\<lambda>r. rk_file r \<noteq> rk_file kept) rest)))\<rparr>\<rparr>])"

definition collapse_identical_content :: "ranked_sort \<Rightarrow> ranked list \<Rightarrow> ranked list" where
  "collapse_identical_content srt rs =
     filter (\<lambda>r. content_key (mc_content (rk_chunk r)) = None) rs
     @ concat (map (collapse_group srt \<circ> snd)
         (group_by (\<lambda>r. content_key (mc_content (rk_chunk r)))
           (filter (\<lambda>r. content_key (mc_content (rk_chunk r)) \<noteq> None) rs)))"

text \<open>Step 5: the fields of \<open>current\<close> after it has taken in \<open>next\<close>.\<close>

definition absorb :: "ranked \<Rightarrow> ranked \<Rightarrow> ranked" where
  "absorb current nxt =
     (let cur = rk_chunk current; n = rk_chunk nxt;
          overlap_lines = (if mc_line_start n \<le> mc_line_end cur
                           then mc_line_end cur - mc_line_start n + 1 else 0);
          tail = join [newline] (drop overlap_lines (str_lines (mc_content n)))
      in \<lparr>rk_chunk = cur\<lparr>
            mc_line_end := max (mc_line_end cur) (mc_line_end n),
            mc_score := f32_max (mc_score cur) (mc_score n),
            mc_content := (if mc_content n \<noteq> [] \<and> tail \<noteq> []
                           then mc_content cur @ newline # tail else mc_content cur),
            mc_symbol := (if mc_symbol cur = None then mc_symbol n else mc_symbol cur),
            mc_symbol_fqn := (if mc_symbol_fqn cur = None then mc_symbol_fqn n else mc_symbol_fqn cur),
            mc_symbol_kind := (if mc_symbol_kind cur = None then mc_symbol_kind n else mc_symbol_kind cur)\<rparr>,
          rk_rank = f32_max (rk_rank current) (rk_rank nxt)\<rparr>)"

definition MAX_MERGED_LINES :: nat where
  "MAX_MERGED_LINES = 60"

definition merge_next :: "ranked list \<Rightarrow> ranked \<Rightarrow> ranked list" where
  "merge_next merged nxt =
     (if merged = [] then [nxt]
      else
        let current = last merged in
        if rk_start nxt \<le> rk_end current + 2 \<and> rk_dups nxt = rk_dups current then
          if max (rk_end current) (rk_end nxt) - rk_start current + 1 > MAX_MERGED_LINES
          then merged @ [nxt]
          else butlast merged @ [absorb current nxt]
        else merged @ [nxt])"

definition merge_pass :: "ranked list \<Rightarrow> ranked list" where
  "merge_pass rs = foldl merge_next [] rs"

text \<open>Step 6.\<close>

definition covers :: "merge_chunk \<Rightarrow> merge_chunk \<Rightarrow> bool" where
  "covers s c \<longleftrightarrow> mc_file s = mc_file c \<and> mc_line_start s \<le> mc_line_start c \<and> mc_line_end c \<le> mc_line_end s"

definition keep_survivor :: "ranked list \<Rightarrow> ranked \<Rightarrow> ranked list" where
  "keep_survivor survivors candidate =
     (if rk_dups candidate = [] \<and> (\<exists>s \<in> set survivors. covers (rk_chunk s) (rk_chunk candidate))
      then survivors else survivors @ [candidate])"

definition drop_contained :: "ranked_sort \<Rightarrow> ranked list \<Rightarrow> ranked list" where
  "drop_contained srt merged = foldl keep_survivor [] (srt width_ge merged)"

definition merge_file :: "ranked_sort \<Rightarrow> ranked list \<Rightarrow> ranked list" where
  "merge_file srt file_chunks = drop_contained srt (merge_pass (srt start_le file_chunks))"

text \<open>All the steps before the cap, and the whole routine.\<close>

definition merge_ranked :: "ranked_sort \<Rightarrow> (merge_chunk \<times> f32) list \<Rightarrow> ranked list" where
  "merge_ranked srt cs =
     (let collapsed = collapse_identical_content srt (srt location_le (dedup cs))
      in srt rank_le (concat (map (merge_file srt \<circ> snd) (group_by rk_file collapsed))))"

definition merge_weighted :: "ranked_sort \<Rightarrow> (merge_chunk \<times> f32) list \<Rightarrow> nat \<Rightarrow> merge_chunk list" where
  "merge_weighted srt cs top_k =
     (if cs = [] then [] else map rk_chunk (take top_k (merge_ranked srt cs)))"

definition merge_chunks :: "ranked_sort \<Rightarrow> merge_chunk list \<Rightarrow> nat \<Rightarrow> merge_chunk list" where
  "merge_chunks srt cs top_k = merge_weighted srt (map (\<lambda>c. (c, f32_one)) cs) top_k"


section \<open>Grouping, as filters\<close>

lemma hm_get_push: "hm_get j (push_entry k v m) =
    (if j = k then Some ((case hm_get k m of Some vs \<Rightarrow> vs | None \<Rightarrow> []) @ [v]) else hm_get j m)"
  by (simp add: push_entry_def)

lemma hm_ok_push [simp]: "hm_ok m \<Longrightarrow> hm_ok (push_entry k v m)"
  by (simp add: push_entry_def)

lemma group_fold_get:
  "hm_get k (fold (\<lambda>x. push_entry (key x) x) xs m) =
     (let new = filter (\<lambda>x. key x = k) xs in
      if new = [] then hm_get k m
      else Some ((case hm_get k m of Some vs \<Rightarrow> vs | None \<Rightarrow> []) @ new))"
  by (induction xs arbitrary: m) (auto simp: hm_get_push Let_def split: option.splits)

lemma group_fold_ok: "hm_ok m \<Longrightarrow> hm_ok (fold (\<lambda>x. push_entry (key x) x) xs m)"
  by (induction xs arbitrary: m) auto

lemma group_by_ok: "hm_ok (group_by key xs)"
  by (simp add: group_by_def group_fold_ok)

lemma group_by_entry:
  "(k, g) \<in> set (group_by key xs) \<longleftrightarrow> g = filter (\<lambda>x. key x = k) xs \<and> g \<noteq> []"
  using hm_mem_iff [OF group_by_ok, of k g key xs]
  by (auto simp: group_by_def group_fold_get Let_def)

lemma group_by_mem: "x \<in> set xs \<Longrightarrow> (key x, filter (\<lambda>y. key y = key x) xs) \<in> set (group_by key xs)"
  by (auto simp: group_by_entry filter_empty_conv)

lemma entry_sizes:
  assumes "hm_ok m"
  shows "sum_list (map (length \<circ> snd) m) =
    (case hm_get k m of Some vs \<Rightarrow> length vs | None \<Rightarrow> 0) + sum_list (map (length \<circ> snd) (hm_remove k m))"
  using assms
proof (induction m)
  case Nil
  then show ?case by (simp add: hm_remove_def)
next
  case (Cons e m)
  obtain j v where e: "e = (j, v)" by (cases e)
  have ok: "hm_ok m" "j \<notin> fst ` set m" using Cons.prems by (auto simp: hm_ok_def hm_keys_def e)
  show ?case
  proof (cases "j = k")
    case True
    with ok have "hm_remove k m = m" by (force simp: hm_remove_def filter_id_conv)
    with True show ?thesis by (simp add: e hm_get_def hm_remove_def)
  next
    case False
    with Cons.IH [OF ok(1)] show ?thesis by (simp add: e hm_get_def hm_remove_def)
  qed
qed

lemma push_size:
  assumes "hm_ok m"
  shows "sum_list (map (length \<circ> snd) (push_entry k v m)) = Suc (sum_list (map (length \<circ> snd) m))"
  using entry_sizes [OF assms, of k] by (simp add: push_entry_def hm_insert_def split: option.splits)

lemma group_by_size: "sum_list (map (length \<circ> snd) (group_by key xs)) = length xs"
proof -
  have "hm_ok m \<Longrightarrow> sum_list (map (length \<circ> snd) (fold (\<lambda>x. push_entry (key x) x) xs m))
      = length xs + sum_list (map (length \<circ> snd) m)" for m
    by (induction xs arbitrary: m) (simp_all add: push_size)
  from this [of "[]"] show ?thesis by (simp add: group_by_def)
qed

lemma length_concat_le:
  "\<forall>e \<in> set es. length (f e) \<le> length (snd e) \<Longrightarrow>
     length (concat (map f es)) \<le> sum_list (map (length \<circ> snd) es)"
  by (induction es) (auto simp: add_mono)

section \<open>Step by step\<close>

definition loc :: "ranked \<Rightarrow> str \<times> nat \<times> nat" where
  "loc r = (rk_file r, rk_start r, rk_end r)"

definition chunk_loc :: "merge_chunk \<Rightarrow> str \<times> nat \<times> nat" where
  "chunk_loc c = (mc_file c, mc_line_start c, mc_line_end c)"

definition dedup_map :: "(merge_chunk \<times> f32) list \<Rightarrow> (str \<times> nat \<times> nat, ranked) hmap" where
  "dedup_map cs = fold (\<lambda>(c, weight). dedup_insert (ranked_new c weight)) cs []"

lemma dedup_map_snoc:
  "dedup_map (cs @ [(c, w)]) = dedup_insert (ranked_new c w) (dedup_map cs)"
  by (simp add: dedup_map_def)

lemma dedup_map_ok: "hm_ok (dedup_map cs)"
  by (induction cs rule: rev_induct)
    (auto simp: dedup_map_snoc dedup_insert_def Let_def dedup_map_def [of "[]"] split: option.splits)

lemma dedup_map_entry:
  "hm_get k (dedup_map cs) = Some r \<Longrightarrow> loc r = k \<and> (\<exists>(c, w) \<in> set cs. r = ranked_new c w)"
proof (induction cs rule: rev_induct)
  case Nil
  then show ?case by (simp add: dedup_map_def)
next
  case (snoc e cs)
  obtain c w where e: "e = (c, w)" by (cases e)
  show ?case
  proof (cases "hm_get k (dedup_map cs) = Some r")
    case True
    with snoc.IH show ?thesis by auto
  next
    case False
    with snoc.prems have "r = ranked_new c w" "k = loc r"
      by (auto simp: e dedup_map_snoc dedup_insert_def Let_def loc_def split: option.splits if_splits)
    then show ?thesis by (auto simp: e)
  qed
qed

lemma dedup_map_keeps:
  "(c, w) \<in> set cs \<Longrightarrow> \<exists>r. hm_get (chunk_loc c) (dedup_map cs) = Some r"
proof (induction cs rule: rev_induct)
  case Nil
  then show ?case by simp
next
  case (snoc e cs)
  obtain c' w' where e: "e = (c', w')" by (cases e)
  have key: "(rk_file (ranked_new c' w'), rk_start (ranked_new c' w'), rk_end (ranked_new c' w')) = chunk_loc c'"
    by (simp add: ranked_new_def chunk_loc_def)
  show ?case
  proof (cases "(c, w) \<in> set cs")
    case True
    with snoc.IH obtain r where "hm_get (chunk_loc c) (dedup_map cs) = Some r" by blast
    then show ?thesis by (auto simp: e dedup_map_snoc dedup_insert_def Let_def key split: option.splits)
  next
    case False
    with snoc.prems show ?thesis
      by (auto simp: e dedup_map_snoc dedup_insert_def Let_def key split: option.splits)
  qed
qed

lemma dedup_eq: "dedup cs = map snd (dedup_map cs)"
  by (simp add: dedup_def dedup_map_def)

lemma dedup_from:
  assumes "r \<in> set (dedup cs)"
  shows "\<exists>(c, w) \<in> set cs. r = ranked_new c w"
proof -
  from assms obtain k where "(k, r) \<in> set (dedup_map cs)" by (auto simp: dedup_eq)
  then have "hm_get k (dedup_map cs) = Some r" using hm_mem_iff [OF dedup_map_ok] by blast
  then show ?thesis using dedup_map_entry by blast
qed

lemma dedup_keeps:
  assumes "(c, w) \<in> set cs"
  shows "\<exists>r \<in> set (dedup cs). loc r = chunk_loc c"
proof -
  from dedup_map_keeps [OF assms] obtain r where r: "hm_get (chunk_loc c) (dedup_map cs) = Some r" ..
  then have "(chunk_loc c, r) \<in> set (dedup_map cs)" by (rule hm_get_mem)
  then have "r \<in> set (dedup cs)" by (force simp: dedup_eq)
  moreover have "loc r = chunk_loc c" using dedup_map_entry [OF r] by blast
  ultimately show ?thesis by blast
qed

lemma dedup_length: "length (dedup cs) \<le> length cs"
proof -
  have "length (hm_insert k v m) \<le> Suc (length m)" for k and v :: ranked and m
    by (simp add: hm_insert_def hm_remove_def)
  then have "length (dedup_insert r m) \<le> Suc (length m)" for r m
    by (auto simp: dedup_insert_def Let_def split: option.splits)
  note one = this
  have "length (dedup_map cs) \<le> length cs"
  proof (induction cs rule: rev_induct)
    case Nil
    then show ?case by (simp add: dedup_map_def)
  next
    case (snoc e cs)
    then show ?case
      using one [of "ranked_new (fst e) (snd e)" "dedup_map cs"] dedup_map_snoc [of cs "fst e" "snd e"]
      by simp
  qed
  then show ?thesis by (simp add: dedup_eq)
qed

text \<open>Collapse: a chunk stays at its place, or its file is recorded on the copy that stays.\<close>

context unstable_sort
begin

lemma srt_Cons_mem: "srt le xs = y # ys \<Longrightarrow> set xs = insert y (set ys)"
  using srt_set [of le xs] by simp

end

definition accounts :: "ranked list \<Rightarrow> ranked \<Rightarrow> ranked \<Rightarrow> bool" where
  "accounts rs r' r \<longleftrightarrow> loc r' = loc r \<or>
     (\<exists>k \<in> set rs. loc r' = loc k \<and> content_key (mc_content (rk_chunk k)) = content_key (mc_content (rk_chunk r))
        \<and> content_key (mc_content (rk_chunk k)) \<noteq> None \<and> rk_file r \<in> set (rk_dups r'))"

lemma collapse_group_accounts:
  assumes "unstable_sort srt" and "r \<in> set grp"
    and key: "\<forall>x \<in> set grp. content_key (mc_content (rk_chunk x)) = Some c"
  shows "\<exists>r' \<in> set (collapse_group srt grp). accounts grp r' r"
proof (cases "srt copy_le grp")
  case Nil
  then show ?thesis using assms unstable_sort.srt_set [OF assms(1), of copy_le grp] by simp
next
  case (Cons kept rest)
  have mem: "set grp = insert kept (set rest)" by (rule unstable_sort.srt_Cons_mem [OF assms(1) Cons])
  let ?dups = "remdups_adj (sort (map rk_file (filter (\<lambda>r. rk_file r \<noteq> rk_file kept) rest)))"
  let ?kept = "kept\<lparr>rk_chunk := (rk_chunk kept)\<lparr>mc_duplicates := ?dups\<rparr>\<rparr>"
  have kept: "?kept \<in> set (collapse_group srt grp)" "loc ?kept = loc kept"
    by (simp_all add: collapse_group_def Cons loc_def)
  show ?thesis
  proof (cases "rk_file r = rk_file kept")
    case True
    with assms(2) mem consider "r = kept" | "r \<in> set (collapse_group srt grp)"
      by (auto simp: collapse_group_def Cons)
    then show ?thesis
    proof cases
      case 1
      with kept have "accounts grp ?kept r" by (simp add: accounts_def)
      with kept(1) show ?thesis by blast
    next
      case 2
      moreover have "accounts grp r r" by (simp add: accounts_def)
      ultimately show ?thesis by blast
    qed
  next
    case False
    with assms(2) mem have "rk_file r \<in> set (rk_dups ?kept)" by auto
    moreover have "kept \<in> set grp" using mem by simp
    ultimately have "accounts grp ?kept r"
      using kept(2) key assms(2) unfolding accounts_def by (metis option.distinct(1))
    with kept(1) show ?thesis by blast
  qed
qed

lemma collapse_group_from:
  assumes "unstable_sort srt" and "r' \<in> set (collapse_group srt grp)"
  shows "\<exists>r \<in> set grp. loc r' = loc r"
proof (cases "srt copy_le grp")
  case Nil
  with assms(2) show ?thesis by (simp add: collapse_group_def)
next
  case (Cons kept rest)
  then show ?thesis
    using assms(2) unstable_sort.srt_Cons_mem [OF assms(1) Cons] by (auto simp: collapse_group_def loc_def)
qed

lemma collapse_group_length:
  assumes "unstable_sort srt"
  shows "length (collapse_group srt grp) \<le> length grp"
proof (cases "srt copy_le grp")
  case (Cons kept rest)
  then have "length grp = Suc (length rest)" using unstable_sort.srt_length [OF assms, of copy_le grp] by simp
  with Cons show ?thesis by (simp add: collapse_group_def le_SucI)
qed (simp add: collapse_group_def)

abbreviation key_of :: "ranked \<Rightarrow> str option" where
  "key_of r \<equiv> content_key (mc_content (rk_chunk r))"

lemma accounts_mono: "accounts xs r' r \<Longrightarrow> set xs \<subseteq> set ys \<Longrightarrow> accounts ys r' r"
  unfolding accounts_def by blast

lemma collapse_accounts:
  assumes "unstable_sort srt" and r: "r \<in> set rs"
  shows "\<exists>r' \<in> set (collapse_identical_content srt rs). accounts rs r' r"
proof (cases "key_of r")
  case None
  then have "r \<in> set (collapse_identical_content srt rs)" using r by (simp add: collapse_identical_content_def)
  moreover have "accounts rs r r" by (simp add: accounts_def)
  ultimately show ?thesis by blast
next
  case (Some c)
  let ?ks = "filter (\<lambda>r. key_of r \<noteq> None) rs"
  let ?g = "filter (\<lambda>y. key_of y = key_of r) ?ks"
  have g: "(key_of r, ?g) \<in> set (group_by key_of ?ks)" using r Some by (intro group_by_mem) auto
  have "r \<in> set ?g" using r Some by simp
  moreover have "\<forall>x \<in> set ?g. key_of x = Some c" using Some by simp
  ultimately obtain r' where r': "r' \<in> set (collapse_group srt ?g)" "accounts ?g r' r"
    using collapse_group_accounts [OF assms(1)] by blast
  have "r' \<in> set (collapse_identical_content srt rs)"
    unfolding collapse_identical_content_def using r'(1) g by force
  moreover have "accounts rs r' r" by (rule accounts_mono [OF r'(2)]) auto
  ultimately show ?thesis by blast
qed

lemma collapse_from:
  assumes "unstable_sort srt" and "r' \<in> set (collapse_identical_content srt rs)"
  shows "\<exists>r \<in> set rs. loc r' = loc r"
proof -
  let ?ks = "filter (\<lambda>r. key_of r \<noteq> None) rs"
  from assms(2) consider "r' \<in> set rs"
    | k g where "(k, g) \<in> set (group_by key_of ?ks)" "r' \<in> set (collapse_group srt g)"
    by (auto simp: collapse_identical_content_def)
  then show ?thesis
  proof cases
    case 1
    then show ?thesis by blast
  next
    case 2
    then have "set g \<subseteq> set rs" by (auto simp: group_by_entry)
    with collapse_group_from [OF assms(1) 2(2)] show ?thesis by blast
  qed
qed

lemma collapse_length:
  assumes "unstable_sort srt"
  shows "length (collapse_identical_content srt rs) \<le> length rs"
proof -
  let ?ks = "filter (\<lambda>r. key_of r \<noteq> None) rs"
  have "length (concat (map (collapse_group srt \<circ> snd) (group_by key_of ?ks)))
      \<le> sum_list (map (length \<circ> snd) (group_by key_of ?ks))"
    by (rule length_concat_le) (simp add: collapse_group_length [OF assms])
  also have "\<dots> = length ?ks" by (rule group_by_size)
  finally have "length (collapse_identical_content srt rs) \<le> length (filter (\<lambda>r. key_of r = None) rs) + length ?ks"
    by (simp add: collapse_identical_content_def)
  also have "\<dots> = length rs" by (induction rs) auto
  finally show ?thesis .
qed

text \<open>The merge pass over the chunks of one file, in order of their first line.\<close>

lemma merge_pass_snoc: "merge_pass (xs @ [x]) = merge_next (merge_pass xs) x"
  by (simp add: merge_pass_def)

lemma merge_pass_Nil [simp]: "merge_pass [] = []"
  by (simp add: merge_pass_def)

lemma absorb_fields [simp]:
  "rk_file (absorb a b) = rk_file a" "rk_start (absorb a b) = rk_start a"
  "rk_end (absorb a b) = max (rk_end a) (rk_end b)" "rk_dups (absorb a b) = rk_dups a"
  by (simp_all add: absorb_def Let_def)

lemma merge_next_cases:
  obtains (push) "merge_next ms x = ms @ [x]"
    | (join) bs cur where "ms = bs @ [cur]" "merge_next ms x = bs @ [absorb cur x]"
        "rk_dups x = rk_dups cur" "max (rk_end cur) (rk_end x) - rk_start cur + 1 \<le> MAX_MERGED_LINES"
proof (cases ms rule: rev_cases)
  case Nil
  then show ?thesis using push by (simp add: merge_next_def)
next
  case (snoc bs cur)
  show ?thesis
  proof (cases "rk_start x \<le> rk_end cur + 2 \<and> rk_dups x = rk_dups cur
      \<and> max (rk_end cur) (rk_end x) - rk_start cur + 1 \<le> MAX_MERGED_LINES")
    case True
    then show ?thesis using snoc join [of bs cur] by (simp add: merge_next_def Let_def)
  next
    case False
    then show ?thesis using snoc push by (auto simp: merge_next_def Let_def)
  qed
qed

lemma merge_pass_shape:
  assumes "r \<in> set (merge_pass xs)"
  shows "(\<exists>x \<in> set xs. rk_file r = rk_file x \<and> rk_start r = rk_start x \<and> rk_end x \<le> rk_end r)
    \<and> ((\<exists>x \<in> set xs. loc r = loc x) \<or> rk_end r - rk_start r + 1 \<le> MAX_MERGED_LINES)"
  using assms
proof (induction xs arbitrary: r rule: rev_induct)
  case Nil
  then show ?case by simp
next
  case (snoc x xs)
  show ?case
  proof (cases rule: merge_next_cases [of "merge_pass xs" x])
    case push
    with snoc.prems consider "r \<in> set (merge_pass xs)" | "r = x" by (auto simp: merge_pass_snoc)
    then show ?thesis using snoc.IH by cases auto
  next
    case (join bs cur)
    then have old: "cur \<in> set (merge_pass xs)" "set bs \<subseteq> set (merge_pass xs)" by auto
    with snoc.prems join consider "r \<in> set (merge_pass xs)" | "r = absorb cur x"
      by (auto simp: merge_pass_snoc)
    then show ?thesis
    proof cases
      case 1
      with snoc.IH show ?thesis by auto
    next
      case 2
      with snoc.IH [OF old(1)] join(4) show ?thesis by fastforce
    qed
  qed
qed

lemma covers_refl [simp]: "covers c c"
  by (simp add: covers_def)

lemma covers_trans: "covers a b \<Longrightarrow> covers b c \<Longrightarrow> covers a c"
  by (auto simp: covers_def)

lemma merge_pass_covers:
  assumes "sorted_wrt start_le xs" and "\<forall>x \<in> set xs. rk_file x = f" and "x \<in> set xs"
  shows "\<exists>r \<in> set (merge_pass xs). covers (rk_chunk r) (rk_chunk x) \<and> rk_dups r = rk_dups x"
  using assms
proof (induction xs arbitrary: x rule: rev_induct)
  case Nil
  then show ?case by simp
next
  case (snoc z xs)
  have srt: "sorted_wrt start_le xs" "\<forall>y \<in> set xs. rk_start y \<le> rk_start z"
    using snoc.prems(1) by (simp_all add: sorted_wrt_append) (simp add: start_le_def)
  have IH: "\<exists>r \<in> set (merge_pass xs). covers (rk_chunk r) (rk_chunk y) \<and> rk_dups r = rk_dups y"
    if "y \<in> set xs" for y using snoc.IH [OF srt(1)] snoc.prems(2) that by simp
  show ?case
  proof (cases rule: merge_next_cases [of "merge_pass xs" z])
    case push
    then show ?thesis using IH snoc.prems(3) by (auto simp: merge_pass_snoc)
  next
    case (join bs cur)
    then have "cur \<in> set (merge_pass xs)" by simp
    from merge_pass_shape [OF this] obtain y where y: "y \<in> set xs" "rk_file cur = rk_file y" "rk_start cur = rk_start y"
      by blast
    have cz: "covers (rk_chunk (absorb cur z)) (rk_chunk z)" "rk_dups (absorb cur z) = rk_dups z"
      using y srt(2) snoc.prems(2) join(3) by (auto simp: covers_def)
    have cc: "covers (rk_chunk (absorb cur z)) (rk_chunk cur)" by (simp add: covers_def)
    have res: "set (merge_pass (xs @ [z])) = insert (absorb cur z) (set bs)"
      "set (merge_pass xs) = insert cur (set bs)"
      using join by (simp_all add: merge_pass_snoc)
    show ?thesis
    proof (cases "x = z")
      case True
      with cz res show ?thesis by blast
    next
      case False
      then have "x \<in> set xs" using snoc.prems(3) by auto
      from IH [OF this] obtain r where r: "r \<in> set (merge_pass xs)" "covers (rk_chunk r) (rk_chunk x)"
        "rk_dups r = rk_dups x" by blast
      show ?thesis
      proof (cases "r = cur")
        case True
        with r cc res show ?thesis by (metis absorb_fields(4) covers_trans insertI1)
      next
        case False
        with r res show ?thesis by blast
      qed
    qed
  qed
qed

lemma merge_pass_length: "length (merge_pass xs) \<le> length xs"
proof (induction xs rule: rev_induct)
  case (snoc x xs)
  then show ?case by (cases rule: merge_next_cases [of "merge_pass xs" x]) (auto simp: merge_pass_snoc)
qed simp

text \<open>Dropping contained ranges.\<close>

lemma survivors_snoc:
  "foldl keep_survivor [] (ys @ [y]) = keep_survivor (foldl keep_survivor [] ys) y"
  by simp

lemma survivors_from: "set (foldl keep_survivor [] ys) \<subseteq> set ys"
  by (induction ys rule: rev_induct) (auto simp: keep_survivor_def)

lemma survivors_length: "length (foldl keep_survivor [] ys) \<le> length ys"
  by (induction ys rule: rev_induct) (auto simp: keep_survivor_def)

lemma survivors_cover:
  "y \<in> set ys \<Longrightarrow> \<exists>s \<in> set (foldl keep_survivor [] ys).
     covers (rk_chunk s) (rk_chunk y) \<and> (rk_dups y \<noteq> [] \<longrightarrow> s = y)"
proof (induction ys rule: rev_induct)
  case (snoc z ys)
  show ?case
  proof (cases "y \<in> set ys")
    case True
    with snoc.IH show ?thesis by (auto simp: keep_survivor_def)
  next
    case False
    with snoc.prems have "y = z" by simp
    then show ?thesis by (auto simp: keep_survivor_def)
  qed
qed simp

lemma keep_survivor_cases: "keep_survivor S z = S \<or> keep_survivor S z = S @ [z]"
  by (simp add: keep_survivor_def)

lemma keep_survivor_drop:
  "rk_dups z = [] \<Longrightarrow> s \<in> set S \<Longrightarrow> covers (rk_chunk s) (rk_chunk z) \<Longrightarrow> keep_survivor S z = S"
  by (auto simp: keep_survivor_def)

lemma survivors_apart:
  assumes "sorted_wrt width_ge ys" and "\<forall>y \<in> set ys. rk_start y \<le> rk_end y"
    and "a \<in> set (foldl keep_survivor [] ys)" and "b \<in> set (foldl keep_survivor [] ys)" and "a \<noteq> b"
    and "covers (rk_chunk a) (rk_chunk b)" and "rk_dups b = []"
  shows "loc a = loc b \<and> rk_dups a \<noteq> []"
  using assms
proof (induction ys arbitrary: a b rule: rev_induct)
  case Nil
  then show ?case by simp
next
  case (snoc z ys)
  let ?S = "foldl keep_survivor [] ys"
  show ?case
  proof (cases "a \<in> set ?S \<and> b \<in> set ?S")
    case True
    have "sorted_wrt width_ge ys" "\<forall>y \<in> set ys. rk_start y \<le> rk_end y"
      using snoc.prems(1,2) by (simp_all add: sorted_wrt_append)
    from snoc.IH [OF this _ _ snoc.prems(5-7)] True show ?thesis by blast
  next
    case False
    then have kept: "keep_survivor ?S z = ?S @ [z]"
      using snoc.prems(3,4) keep_survivor_cases [of ?S z] by (metis survivors_snoc)
    with snoc.prems(3,4,5) False consider "a \<in> set ?S" "b = z" | "a = z" "b \<in> set ?S" by auto
    then show ?thesis
    proof cases
      case 1
      with snoc.prems(6,7) have "keep_survivor ?S z = ?S" using keep_survivor_drop [of z a ?S] by simp
      with kept show ?thesis by simp
    next
      case 2
      then have "b \<in> set ys" using survivors_from by blast
      then have "width_ge b z" "rk_start b \<le> rk_end b"
        using snoc.prems(1,2) by (auto simp: sorted_wrt_append)
      then have eqs: "rk_start b = rk_start z" "rk_end b = rk_end z" "rk_file b = rk_file z"
        using snoc.prems(6) 2 by (auto simp: width_ge_def covers_def)
      have "rk_dups z \<noteq> []"
      proof
        assume "rk_dups z = []"
        moreover have "covers (rk_chunk b) (rk_chunk z)" using eqs by (simp add: covers_def)
        ultimately have "keep_survivor ?S z = ?S" using keep_survivor_drop [of z b ?S] 2 by simp
        with kept show False by simp
      qed
      with eqs 2 show ?thesis by (simp add: loc_def)
    qed
  qed
qed

lemma width_preorder: "total_preorder_on width_ge A"
  unfolding total_preorder_on_def width_ge_def by auto

lemma start_preorder: "total_preorder_on start_le A"
  unfolding total_preorder_on_def start_le_def by auto

section \<open>The whole routine\<close>

lemma merge_file_covers:
  assumes srt: "unstable_sort srt" and f: "\<forall>x \<in> set xs. rk_file x = f" and x: "x \<in> set xs"
  shows "\<exists>s \<in> set (merge_file srt xs). covers (rk_chunk s) (rk_chunk x) \<and> (rk_dups x \<noteq> [] \<longrightarrow> rk_dups s = rk_dups x)"
proof -
  have sorted: "sorted_wrt start_le (srt start_le xs)"
    by (rule unstable_sort.srt_sorted [OF srt start_preorder])
  have "\<forall>y \<in> set (srt start_le xs). rk_file y = f" "x \<in> set (srt start_le xs)"
    using f x unstable_sort.srt_set [OF srt, of start_le xs] by simp_all
  from merge_pass_covers [OF sorted this] obtain r
    where r: "r \<in> set (merge_pass (srt start_le xs))" "covers (rk_chunk r) (rk_chunk x)" "rk_dups r = rk_dups x"
    by blast
  then have "r \<in> set (srt width_ge (merge_pass (srt start_le xs)))"
    using unstable_sort.srt_set [OF srt, of width_ge] by simp
  from survivors_cover [OF this] obtain s where
    "s \<in> set (merge_file srt xs)" "covers (rk_chunk s) (rk_chunk r)" "rk_dups r \<noteq> [] \<longrightarrow> s = r"
    by (auto simp: merge_file_def drop_contained_def)
  with r show ?thesis by (metis covers_trans)
qed

lemma merge_file_from:
  assumes srt: "unstable_sort srt" and "s \<in> set (merge_file srt xs)"
  shows "s \<in> set (merge_pass (srt start_le xs))"
  using assms(2) survivors_from [of "srt width_ge (merge_pass (srt start_le xs))"]
    unstable_sort.srt_set [OF srt, of width_ge "merge_pass (srt start_le xs)"]
  by (auto simp: merge_file_def drop_contained_def)

lemma merge_file_shape:
  assumes srt: "unstable_sort srt" and s: "s \<in> set (merge_file srt xs)"
  shows "(\<exists>x \<in> set xs. rk_file s = rk_file x \<and> rk_start s = rk_start x \<and> rk_end x \<le> rk_end s)
    \<and> ((\<exists>x \<in> set xs. loc s = loc x) \<or> rk_end s - rk_start s + 1 \<le> MAX_MERGED_LINES)"
  using merge_pass_shape [OF merge_file_from [OF assms]] unstable_sort.srt_set [OF srt, of start_le xs] by simp

lemma merge_file_length: "unstable_sort srt \<Longrightarrow> length (merge_file srt xs) \<le> length xs"
  using survivors_length [of "srt width_ge (merge_pass (srt start_le xs))"]
    merge_pass_length [of "srt start_le xs"]
  by (simp add: merge_file_def drop_contained_def unstable_sort.srt_length)

lemma merge_file_apart:
  assumes srt: "unstable_sort srt" and wf: "\<forall>x \<in> set xs. rk_start x \<le> rk_end x"
    and "a \<in> set (merge_file srt xs)" "b \<in> set (merge_file srt xs)" "a \<noteq> b"
    and "covers (rk_chunk a) (rk_chunk b)" "rk_dups b = []"
  shows "loc a = loc b \<and> rk_dups a \<noteq> []"
proof (rule survivors_apart)
  let ?ys = "srt width_ge (merge_pass (srt start_le xs))"
  show "sorted_wrt width_ge ?ys" by (rule unstable_sort.srt_sorted [OF srt width_preorder])
  show "\<forall>y \<in> set ?ys. rk_start y \<le> rk_end y"
  proof
    fix y assume "y \<in> set ?ys"
    then have "y \<in> set (merge_pass (srt start_le xs))" using unstable_sort.srt_set [OF srt] by blast
    from merge_pass_shape [OF this] obtain x where "x \<in> set (srt start_le xs)" "rk_start y = rk_start x" "rk_end x \<le> rk_end y"
      by blast
    then show "rk_start y \<le> rk_end y" using wf unstable_sort.srt_set [OF srt, of start_le xs] by fastforce
  qed
  show "a \<in> set (foldl keep_survivor [] ?ys)" "b \<in> set (foldl keep_survivor [] ?ys)"
    using assms(3,4) by (simp_all add: merge_file_def drop_contained_def)
qed (use assms(5-7) in auto)

definition collapsed :: "ranked_sort \<Rightarrow> (merge_chunk \<times> f32) list \<Rightarrow> ranked list" where
  "collapsed srt cs = collapse_identical_content srt (srt location_le (dedup cs))"

lemma merge_ranked_mem:
  assumes "unstable_sort srt"
  shows "s \<in> set (merge_ranked srt cs) \<longleftrightarrow>
    (\<exists>f. s \<in> set (merge_file srt (filter (\<lambda>r. rk_file r = f) (collapsed srt cs))))"
proof -
  have nil: "xs \<noteq> []" if "s \<in> set (merge_file srt xs)" for xs
    using merge_file_length [OF assms, of "[]"] that by auto
  have "s \<in> set (merge_ranked srt cs) \<longleftrightarrow>
      (\<exists>f g. (f, g) \<in> set (group_by rk_file (collapsed srt cs)) \<and> s \<in> set (merge_file srt g))"
    by (simp add: merge_ranked_def collapsed_def Let_def unstable_sort.srt_set [OF assms] Bex_def)
  also have "\<dots> \<longleftrightarrow> (\<exists>f. s \<in> set (merge_file srt (filter (\<lambda>r. rk_file r = f) (collapsed srt cs))))"
    unfolding group_by_entry using nil by blast
  finally show ?thesis .
qed

lemma merge_ranked_file:
  assumes "unstable_sort srt" and "s \<in> set (merge_ranked srt cs)"
  shows "s \<in> set (merge_file srt (filter (\<lambda>r. rk_file r = rk_file s) (collapsed srt cs)))"
proof -
  from assms merge_ranked_mem obtain f
    where f: "s \<in> set (merge_file srt (filter (\<lambda>r. rk_file r = f) (collapsed srt cs)))" by blast
  from merge_file_shape [OF assms(1) f] have "rk_file s = f" by auto
  with f show ?thesis by simp
qed

lemma collapsed_from:
  assumes "unstable_sort srt" and "r \<in> set (collapsed srt cs)"
  shows "\<exists>(c, w) \<in> set cs. loc r = chunk_loc c"
proof -
  from collapse_from [OF assms(1)] assms(2) obtain d where "d \<in> set (srt location_le (dedup cs))" "loc r = loc d"
    unfolding collapsed_def by blast
  then have "d \<in> set (dedup cs)" using unstable_sort.srt_set [OF assms(1)] by blast
  from dedup_from [OF this] \<open>loc r = loc d\<close> show ?thesis
    by (auto simp: ranked_new_def loc_def chunk_loc_def)
qed

lemma merge_ranked_length:
  assumes "unstable_sort srt"
  shows "length (merge_ranked srt cs) \<le> length cs"
proof -
  let ?g = "group_by rk_file (collapsed srt cs)"
  have "length (merge_ranked srt cs) = length (concat (map (merge_file srt \<circ> snd) ?g))"
    by (simp add: merge_ranked_def collapsed_def Let_def unstable_sort.srt_length [OF assms] del: length_concat)
  also have "\<dots> \<le> sum_list (map (length \<circ> snd) ?g)"
    by (rule length_concat_le) (simp add: merge_file_length [OF assms])
  also have "\<dots> = length (collapsed srt cs)" by (rule group_by_size)
  also have "\<dots> \<le> length (srt location_le (dedup cs))"
    unfolding collapsed_def by (rule collapse_length [OF assms])
  also have "\<dots> \<le> length cs" using dedup_length by (simp add: unstable_sort.srt_length [OF assms])
  finally show ?thesis .
qed

section \<open>Ranks\<close>

lemma rank_le_key:
  "\<not> f32_nan (rk_rank a) \<Longrightarrow> \<not> f32_nan (rk_rank b) \<Longrightarrow>
     rank_le a b \<longleftrightarrow> (- f32_key (rk_rank a), rk_file a, rk_start a) \<le> (- f32_key (rk_rank b), rk_file b, rk_start b)"
  by (auto simp: rank_le_def by_rank_desc_def f32_partial_cmp_def ord_then_def ord_of_def)

lemma rank_preorder:
  assumes "\<forall>r \<in> A. \<not> f32_nan (rk_rank r)"
  shows "total_preorder_on rank_le A"
proof -
  let ?k = "\<lambda>r. (- f32_key (rk_rank r), rk_file r, rk_start r)"
  have "rank_le a b \<longleftrightarrow> ?k a \<le> ?k b" if "a \<in> A" "b \<in> A" for a b
    using rank_le_key assms that by blast
  then show ?thesis unfolding total_preorder_on_def by (meson linear order_trans)
qed

lemma merge_pass_ranks:
  "\<forall>x \<in> set xs. \<not> f32_nan (rk_rank x) \<Longrightarrow> \<forall>r \<in> set (merge_pass xs). \<not> f32_nan (rk_rank r)"
proof (induction xs rule: rev_induct)
  case (snoc x xs)
  then have IH: "\<forall>r \<in> set (merge_pass xs). \<not> f32_nan (rk_rank r)" by simp
  show ?case
  proof (cases rule: merge_next_cases [of "merge_pass xs" x])
    case push
    then show ?thesis using IH snoc.prems by (simp add: merge_pass_snoc)
  next
    case (join bs cur)
    have "rk_rank (absorb cur x) = f32_max (rk_rank cur) (rk_rank x)" by (simp add: absorb_def Let_def)
    then show ?thesis using join IH snoc.prems by (simp add: merge_pass_snoc f32_max_not_nan)
  qed
qed simp

lemma collapse_ranks:
  assumes "unstable_sort srt" and "r' \<in> set (collapse_identical_content srt rs)"
  shows "\<exists>r \<in> set rs. rk_rank r' = rk_rank r"
proof -
  let ?ks = "filter (\<lambda>r. key_of r \<noteq> None) rs"
  from assms(2) consider "r' \<in> set rs"
    | k g where "(k, g) \<in> set (group_by key_of ?ks)" "r' \<in> set (collapse_group srt g)"
    by (auto simp: collapse_identical_content_def)
  then show ?thesis
  proof cases
    case 1
    then show ?thesis by blast
  next
    case 2
    then have "set (srt copy_le g) \<subseteq> set rs"
      using unstable_sort.srt_set [OF assms(1)] by (auto simp: group_by_entry)
    with 2(2) show ?thesis by (cases "srt copy_le g") (auto simp: collapse_group_def)
  qed
qed

lemma merge_ranked_ranks:
  assumes srt: "unstable_sort srt" and fin: "\<forall>(c, w) \<in> set cs. \<not> f32_nan (f32_mul (mc_score c) w)"
    and s: "s \<in> set (merge_ranked srt cs)"
  shows "\<not> f32_nan (rk_rank s)"
proof -
  have "\<not> f32_nan (rk_rank d)" if "d \<in> set (dedup cs)" for d
    using dedup_from [OF that] fin by (auto simp: ranked_new_def)
  then have col: "\<forall>d \<in> set (collapsed srt cs). \<not> f32_nan (rk_rank d)"
    using collapse_ranks [OF srt] unstable_sort.srt_set [OF srt] unfolding collapsed_def by metis
  let ?xs = "filter (\<lambda>r. rk_file r = rk_file s) (collapsed srt cs)"
  from merge_file_from [OF srt merge_ranked_file [OF srt s]]
  have "s \<in> set (merge_pass (srt start_le ?xs))" .
  moreover have "\<forall>x \<in> set (srt start_le ?xs). \<not> f32_nan (rk_rank x)"
    using col unstable_sort.srt_set [OF srt] by auto
  ultimately show ?thesis using merge_pass_ranks by blast
qed

section \<open>Properties\<close>

definition demo_chunk :: "str \<Rightarrow> nat \<Rightarrow> nat \<Rightarrow> merge_chunk" where
  "demo_chunk f a b = \<lparr>mc_file = f, mc_line_start = a, mc_line_end = b, mc_score = f32_one, mc_content = ''x'',
     mc_symbol = None, mc_symbol_fqn = None, mc_symbol_kind = None, mc_duplicates = []\<rparr>"

text \<open>C17: The merge pipeline loses no candidate: when the cap is not reached, every input range lies
  inside a result of its file, or its file is recorded as a copy on a result that covers an input
  with the identical content (as the candidate kept at its location has it).\<close>

theorem merge_loses_nothing:
  assumes srt: "unstable_sort srt" and c: "(c, w) \<in> set cs" and cap: "length cs \<le> top_k"
  shows "\<exists>s \<in> set (merge_weighted srt cs top_k). covers s c
    \<or> (\<exists>(k, v) \<in> set cs. \<exists>(c', w') \<in> set cs. chunk_loc c' = chunk_loc c \<and> covers s k
         \<and> content_key (mc_content k) = content_key (mc_content c') \<and> content_key (mc_content k) \<noteq> None
         \<and> mc_file c \<in> set (mc_duplicates s))"
proof -
  obtain d where d: "d \<in> set (dedup cs)" "loc d = chunk_loc c" using dedup_keeps [OF c] by blast
  have "d \<in> set (srt location_le (dedup cs))" using d(1) unstable_sort.srt_set [OF srt] by blast
  from collapse_accounts [OF srt this] obtain r where
    r: "r \<in> set (collapsed srt cs)" "accounts (srt location_le (dedup cs)) r d"
    unfolding collapsed_def by blast
  let ?xs = "filter (\<lambda>y. rk_file y = rk_file r) (collapsed srt cs)"
  obtain s where s: "s \<in> set (merge_file srt ?xs)" "covers (rk_chunk s) (rk_chunk r)"
    "rk_dups r \<noteq> [] \<longrightarrow> rk_dups s = rk_dups r"
    using merge_file_covers [OF srt, of ?xs "rk_file r" r] r(1) by auto
  have "s \<in> set (merge_ranked srt cs)" using s(1) merge_ranked_mem [OF srt] by blast
  moreover have "take top_k (merge_ranked srt cs) = merge_ranked srt cs"
    using merge_ranked_length [OF srt, of cs] cap by simp
  ultimately have res: "rk_chunk s \<in> set (merge_weighted srt cs top_k)"
    using c by (auto simp: merge_weighted_def)
  have cov: "covers (rk_chunk s) x" if "chunk_loc x = loc r" for x
    using s(2) that by (simp add: covers_def chunk_loc_def loc_def)
  from r(2) show ?thesis
    unfolding accounts_def
  proof (elim disjE bexE conjE)
    assume "loc r = loc d"
    with d(2) cov [of c] res show ?thesis by auto
  next
    fix k assume k: "k \<in> set (srt location_le (dedup cs))" "loc r = loc k" "key_of k = key_of d" "key_of k \<noteq> None"
      "rk_file d \<in> set (rk_dups r)"
    then have "k \<in> set (dedup cs)" using unstable_sort.srt_set [OF srt] by blast
    from dedup_from [OF this] obtain kc v where kc: "(kc, v) \<in> set cs" "k = ranked_new kc v" by blast
    from dedup_from [OF d(1)] obtain c' w' where c': "(c', w') \<in> set cs" "d = ranked_new c' w'" by blast
    have "chunk_loc c' = chunk_loc c" using d(2) c'(2) by (simp add: ranked_new_def loc_def chunk_loc_def)
    moreover have "covers (rk_chunk s) kc"
      using k(2) kc(2) by (intro cov) (simp add: ranked_new_def loc_def chunk_loc_def)
    moreover have "mc_file c \<in> set (mc_duplicates (rk_chunk s))"
      using k(5) s(3) d(2) by (auto simp: loc_def chunk_loc_def)
    moreover have "content_key (mc_content kc) = content_key (mc_content c')" "content_key (mc_content kc) \<noteq> None"
      using k(3,4) kc(2) c'(2) by (simp_all add: ranked_new_def)
    ultimately show ?thesis using res kc(1) c'(1) by blast
  qed
qed

lemma merge_loses_nothing_witness:
  "\<exists>s \<in> set (merge_weighted sort_by [(demo_chunk ''a.rs'' 1 3, f32_one), (demo_chunk ''b.rs'' 7 9, f32_one)] 5).
     covers s (demo_chunk ''b.rs'' 7 9)
     \<or> (\<exists>(k, v) \<in> set [(demo_chunk ''a.rs'' 1 3, f32_one), (demo_chunk ''b.rs'' 7 9, f32_one)].
         covers s k \<and> ''b.rs'' \<in> set (mc_duplicates s))"
proof -
  have "(demo_chunk ''b.rs'' 7 9, f32_one) \<in>
      set [(demo_chunk ''a.rs'' 1 3, f32_one), (demo_chunk ''b.rs'' 7 9, f32_one)]" by simp
  from merge_loses_nothing [OF unstable_sort_sort_by this, of 5] show ?thesis
    by (fastforce simp: demo_chunk_def)
qed

text \<open>Results of a merge do not repeat each other: a result contained in another one of the same
  file carries recorded copies, unless the two have the same range and the other carries them.\<close>

theorem merge_results_not_nested:
  assumes srt: "unstable_sort srt" and wf: "\<forall>(c, w) \<in> set cs. mc_line_start c \<le> mc_line_end c"
  shows "\<forall>a \<in> set (merge_ranked srt cs). \<forall>b \<in> set (merge_ranked srt cs).
    a \<noteq> b \<and> covers (rk_chunk a) (rk_chunk b) \<and> rk_dups b = [] \<longrightarrow> loc a = loc b \<and> rk_dups a \<noteq> []"
proof (intro ballI impI, elim conjE)
  fix a b
  assume ab: "a \<in> set (merge_ranked srt cs)" "b \<in> set (merge_ranked srt cs)" "a \<noteq> b"
    and cov: "covers (rk_chunk a) (rk_chunk b)" "rk_dups b = []"
  let ?xs = "filter (\<lambda>r. rk_file r = rk_file b) (collapsed srt cs)"
  have "\<forall>x \<in> set ?xs. rk_start x \<le> rk_end x"
    using collapsed_from [OF srt] wf by (fastforce simp: loc_def chunk_loc_def)
  moreover have "rk_file a = rk_file b" using cov(1) by (simp add: covers_def)
  then have "a \<in> set (merge_file srt ?xs)" "b \<in> set (merge_file srt ?xs)"
    using merge_ranked_file [OF srt ab(1)] merge_ranked_file [OF srt ab(2)] by simp_all
  ultimately show "loc a = loc b \<and> rk_dups a \<noteq> []"
    using merge_file_apart [OF srt, of ?xs a b] ab(3) cov by blast
qed

definition demo_pool :: "(merge_chunk \<times> f32) list" where
  "demo_pool = [(demo_chunk ''a.rs'' 4 6, f32_one), (demo_chunk ''a.rs'' 1 3, f32_one),
     ((demo_chunk ''b.rs'' 7 9)\<lparr>mc_content := ''y''\<rparr>, f32_one)]"

lemma demo_pool_merged:
  "map chunk_loc (merge_weighted sort_by demo_pool 2) = [(''a.rs'', 1, 6), (''b.rs'', 7, 9)]"
  by code_simp

lemma merge_results_not_nested_witness:
  "\<not> (\<exists>a \<in> set (merge_ranked sort_by demo_pool). \<exists>b \<in> set (merge_ranked sort_by demo_pool).
     a \<noteq> b \<and> covers (rk_chunk a) (rk_chunk b) \<and> rk_dups b = [] \<and> rk_dups a = [])"
proof -
  have "\<forall>(c, w) \<in> set demo_pool. mc_line_start c \<le> mc_line_end c" by (simp add: demo_pool_def demo_chunk_def)
  from merge_results_not_nested [OF unstable_sort_sort_by this] show ?thesis by blast
qed

text \<open>A result is never wider than 60 lines unless an input already had its exact range, it starts
  where an input of its file starts, and there are at most \<open>top_k\<close> results.\<close>

theorem merge_bounds:
  assumes srt: "unstable_sort srt" and s: "s \<in> set (merge_weighted srt cs top_k)"
  shows "length (merge_weighted srt cs top_k) \<le> top_k
    \<and> (\<exists>(c, w) \<in> set cs. mc_file c = mc_file s \<and> mc_line_start c = mc_line_start s)
    \<and> ((\<exists>(c, w) \<in> set cs. chunk_loc c = chunk_loc s)
        \<or> mc_line_end s - mc_line_start s + 1 \<le> MAX_MERGED_LINES)"
proof -
  from s obtain r where r: "r \<in> set (merge_ranked srt cs)" "s = rk_chunk r"
    by (auto simp: merge_weighted_def split: if_splits dest: in_set_takeD)
  have from_input: "\<exists>(c, w) \<in> set cs. chunk_loc c = loc x" if "x \<in> set (collapsed srt cs)" for x
    using collapsed_from [OF srt that] by fastforce
  from merge_file_shape [OF srt merge_ranked_file [OF srt r(1)]] obtain x where
    x: "x \<in> set (collapsed srt cs)" "rk_file r = rk_file x" "rk_start r = rk_start x"
    and w: "(\<exists>x \<in> set (collapsed srt cs). loc r = loc x) \<or> rk_end r - rk_start r + 1 \<le> MAX_MERGED_LINES"
    by fastforce
  have "\<exists>(c, w) \<in> set cs. mc_file c = mc_file s \<and> mc_line_start c = mc_line_start s"
    using from_input [OF x(1)] x(2,3) r(2) by (fastforce simp: loc_def chunk_loc_def)
  moreover have "(\<exists>(c, w) \<in> set cs. chunk_loc c = chunk_loc s)
      \<or> mc_line_end s - mc_line_start s + 1 \<le> MAX_MERGED_LINES"
    using w from_input r(2) by (fastforce simp: loc_def chunk_loc_def)
  ultimately show ?thesis by (simp add: merge_weighted_def)
qed

lemma merge_bounds_witness:
  "length (merge_weighted sort_by demo_pool 2) \<le> 2 \<and> (''a.rs'', 1, 6) \<in> chunk_loc ` set (merge_weighted sort_by demo_pool 2)"
proof -
  let ?h = "hd (merge_weighted sort_by demo_pool 2)"
  have loc: "chunk_loc ?h = (''a.rs'', 1, 6)" and ne: "merge_weighted sort_by demo_pool 2 \<noteq> []"
    using demo_pool_merged by (auto simp: map_eq_Cons_conv)
  have m: "?h \<in> set (merge_weighted sort_by demo_pool 2)" using ne by simp
  have "(''a.rs'', 1, 6) \<in> chunk_loc ` set (merge_weighted sort_by demo_pool 2)"
    using imageI [OF m, of chunk_loc] loc by simp
  then show ?thesis using merge_bounds [OF unstable_sort_sort_by m] by blast
qed

text \<open>The results come in order of rank, best first, so the cap keeps the best ranked ones,
  when no rank is a NaN.\<close>

theorem merge_ranked_order:
  assumes srt: "unstable_sort srt" and fin: "\<forall>(c, w) \<in> set cs. \<not> f32_nan (f32_mul (mc_score c) w)"
  shows "sorted_wrt (\<lambda>a b. f32_le (rk_rank b) (rk_rank a)) (merge_ranked srt cs)"
proof -
  let ?R = "merge_ranked srt cs"
  have nn: "\<forall>r \<in> set ?R. \<not> f32_nan (rk_rank r)" using merge_ranked_ranks [OF srt fin] by blast
  obtain xs where xs: "?R = srt rank_le xs" by (simp add: merge_ranked_def Let_def)
  then have "set xs = set ?R" using unstable_sort.srt_set [OF srt] by simp
  with nn have "sorted_wrt rank_le ?R"
    unfolding xs by (intro unstable_sort.srt_sorted [OF srt] rank_preorder) simp
  then show ?thesis
  proof (rule sorted_wrt_mono_rel [rotated])
    fix a b assume "a \<in> set ?R" "b \<in> set ?R" "rank_le a b"
    with nn have "(- f32_key (rk_rank a), rk_file a, rk_start a) \<le> (- f32_key (rk_rank b), rk_file b, rk_start b)"
      using rank_le_key by blast
    with nn \<open>a \<in> set ?R\<close> \<open>b \<in> set ?R\<close> show "f32_le (rk_rank b) (rk_rank a)"
      by (auto simp: f32_le_def)
  qed
qed

lemma merge_ranked_order_witness:
  "sorted_wrt (\<lambda>a b. f32_le (rk_rank b) (rk_rank a)) (merge_ranked sort_by demo_pool)"
proof (rule merge_ranked_order [OF unstable_sort_sort_by])
  have "\<not> f32_nan (f32_mul f32_one f32_one)" by code_simp
  then show "\<forall>(c, w) \<in> set demo_pool. \<not> f32_nan (f32_mul (mc_score c) w)"
    by (simp add: demo_pool_def demo_chunk_def)
qed

end
