(* ===== verification/Filters.thy ===== *)
theory Filters
  imports Scope Lang Merger
begin

text \<open>
  Field-qualified query filters (\<open>src/query/filters.rs\<close>): extraction of \<open>kind:\<close>, \<open>lang:\<close>,
  \<open>path:\<close>, \<open>name:\<close> and \<open>scope:\<close> from the query text, the bounded edit distance, and their
  application to the candidates (\<open>apply_query_filters\<close> of \<open>src/query/engine.rs\<close>).

  The source walks the characters with an index and turns it into byte offsets for slicing;
  here the walk is over the remaining characters.
\<close>

record query_filters =
  kinds :: "str list"
  languages :: "str list"
  path_filters :: "str list"
  name_filters :: "str list"
  qf_scope :: "scope option"
  docs_extensions :: "str list option"

definition filters_default :: query_filters where
  "filters_default = \<lparr>kinds = [], languages = [], path_filters = [], name_filters = [],
     qf_scope = None, docs_extensions = None\<rparr>"

definition filters_is_empty :: "query_filters \<Rightarrow> bool" where
  "filters_is_empty f \<longleftrightarrow> kinds f = [] \<and> languages f = [] \<and> path_filters f = [] \<and> name_filters f = []"

definition filters_values :: "query_filters \<Rightarrow> str list" where
  "filters_values f = kinds f @ languages f @ path_filters f @ name_filters f"

definition filters_merge :: "query_filters \<Rightarrow> query_filters \<Rightarrow> query_filters" where
  "filters_merge f other =
     f\<lparr>kinds := kinds f @ kinds other, languages := languages f @ languages other,
       path_filters := path_filters f @ path_filters other,
       name_filters := name_filters f @ name_filters other,
       qf_scope := (if qf_scope other \<noteq> None then qf_scope other else qf_scope f),
       docs_extensions := (if docs_extensions other \<noteq> None then docs_extensions other else docs_extensions f)\<rparr>"

definition default_docs_extensions :: "str list" where
  "default_docs_extensions = [''md'', ''mdx'', ''rst'', ''txt'']"

definition filters_scope_filter :: "query_filters \<Rightarrow> scope_filter option" where
  "filters_scope_filter f =
     (case qf_scope f of
        None \<Rightarrow> None
      | Some s \<Rightarrow>
          Some (case docs_extensions f of
              Some l \<Rightarrow> scope_filter_new s l
            | None \<Rightarrow> scope_filter_new s default_docs_extensions))"

section \<open>Parsing\<close>

datatype filter_type = Kind | Lang | Path | Name | FScope

definition match_filter_prefix :: "str \<Rightarrow> (nat \<times> filter_type) option" where
  "match_filter_prefix s =
     (let lower = to_lowercase s in
      if starts_with lower ''kind:'' then Some (5, Kind)
      else if starts_with lower ''language:'' then Some (9, Lang)
      else if starts_with lower ''lang:'' then Some (5, Lang)
      else if starts_with lower ''path:'' then Some (5, Path)
      else if starts_with lower ''name:'' then Some (5, Name)
      else if starts_with lower ''scope:'' then Some (6, FScope)
      else None)"

definition is_quote :: "char \<Rightarrow> bool" where
  "is_quote c \<longleftrightarrow> code c = 34 \<or> code c = 39"

text \<open>The value after a prefix, and the characters after it.\<close>

definition extract_value :: "str \<Rightarrow> str \<times> str" where
  "extract_value rest =
     (case rest of
        [] \<Rightarrow> ([], [])
      | q # xs \<Rightarrow>
          if is_quote q then (takeWhile (\<lambda>c. c \<noteq> q) xs, drop 1 (dropWhile (\<lambda>c. c \<noteq> q) xs))
          else (takeWhile (\<lambda>c. \<not> char_is_whitespace c) rest, dropWhile (\<lambda>c. \<not> char_is_whitespace c) rest))"

definition push_filter :: "filter_type \<Rightarrow> str \<Rightarrow> query_filters \<Rightarrow> query_filters" where
  "push_filter t v f =
     (case t of
        Kind \<Rightarrow> f\<lparr>kinds := kinds f @ [to_lowercase v]\<rparr>
      | Lang \<Rightarrow> f\<lparr>languages := languages f @ [to_lowercase v]\<rparr>
      | Path \<Rightarrow> f\<lparr>path_filters := path_filters f @ [v]\<rparr>
      | Name \<Rightarrow> f\<lparr>name_filters := name_filters f @ [v]\<rparr>
      | FScope \<Rightarrow> f)"

definition note_scope :: "scope \<Rightarrow> query_filters \<Rightarrow> query_filters" where
  "note_scope s f = (case qf_scope f of None \<Rightarrow> f\<lparr>qf_scope := Some s\<rparr> | Some _ \<Rightarrow> f)"

lemma length_extract_value: "length (snd (extract_value rest)) \<le> length rest"
proof (cases rest)
  case (Cons q qs)
  have "length (drop 1 (dropWhile P xs)) \<le> Suc (length xs)" for P and xs :: str
    using length_dropWhile_le [of P xs] by simp
  then show ?thesis using Cons length_dropWhile_le [of "\<lambda>c. \<not> char_is_whitespace c" rest]
    by (simp add: extract_value_def)
qed (simp add: extract_value_def)

lemma match_filter_prefix_pos: "match_filter_prefix s = Some (n, t) \<Longrightarrow> 0 < n \<and> s \<noteq> []"
  by (auto simp: match_filter_prefix_def Let_def starts_with_def to_lowercase_def split: if_splits)

function parse_loop :: "str \<Rightarrow> str list \<Rightarrow> query_filters \<Rightarrow> str list \<times> query_filters" where
  "parse_loop s clean_parts filters =
     (case s of
        [] \<Rightarrow> (clean_parts, filters)
      | c # cs \<Rightarrow>
          if char_is_whitespace c then parse_loop cs clean_parts filters
          else
            (case match_filter_prefix s of
               Some (prefix_len, filter_type) \<Rightarrow>
                 (let value = fst (extract_value (drop prefix_len s));
                      after = snd (extract_value (drop prefix_len s)) in
                  if filter_type = FScope then
                    (case scope_parse value of
                       Some sc \<Rightarrow> parse_loop after clean_parts (note_scope sc filters)
                     | None \<Rightarrow> parse_loop after (clean_parts @ [take (length s - length after) s]) filters)
                  else if value \<noteq> [] then parse_loop after clean_parts (push_filter filter_type value filters)
                  else parse_loop after clean_parts filters)
             | None \<Rightarrow>
                 parse_loop (dropWhile (\<lambda>c. \<not> char_is_whitespace c) s)
                   (clean_parts @ [takeWhile (\<lambda>c. \<not> char_is_whitespace c) s]) filters))"
  by pat_completeness auto

lemma extract_after_shorter:
  assumes "match_filter_prefix s = Some (n, t)"
  shows "length (snd (extract_value (drop n s))) < length s"
proof -
  from match_filter_prefix_pos [OF assms] have "length (drop n s) < length s" by simp
  with length_extract_value [of "drop n s"] show ?thesis by linarith
qed

lemma extract_after_shorter_Cons:
  "match_filter_prefix (c # cs) = Some (n, t) \<Longrightarrow>
     length (snd (extract_value (drop n (c # cs)))) < Suc (length cs)"
  using extract_after_shorter [of "c # cs" n t] by simp

lemma length_dropWhile_Suc: "length (dropWhile P xs) < Suc (length xs)"
  using length_dropWhile_le [of P xs] by simp

termination parse_loop
  by (relation "measure (\<lambda>(s, _, _). length s)")
    (auto intro: extract_after_shorter_Cons length_dropWhile_Suc simp del: drop_Cons')

declare parse_loop.simps [simp del]

definition parse_query_filters :: "str \<Rightarrow> str \<times> query_filters" where
  "parse_query_filters query =
     (let r = parse_loop query [] filters_default in (join '' '' (fst r), snd r))"

record parsed_query =
  pq_text :: str
  pq_filters :: query_filters

definition parse_query :: "str \<Rightarrow> query_filters option \<Rightarrow> parsed_query" where
  "parse_query query external =
     (let clean = fst (parse_query_filters query);
          filters = (case external of Some ext \<Rightarrow> filters_merge (snd (parse_query_filters query)) ext
                     | None \<Rightarrow> snd (parse_query_filters query))
      in \<lparr>pq_text = (if clean \<noteq> [] then clean
                     else if \<not> filters_is_empty filters then join '' '' (filters_values filters)
                     else query),
          pq_filters = filters\<rparr>)"


section \<open>Edit distance\<close>

text \<open>One row of the table: \<open>prev\<close> is the row of the shorter prefix, \<open>left\<close> the entry just written.\<close>

fun edit_row :: "char \<Rightarrow> str \<Rightarrow> nat list \<Rightarrow> nat \<Rightarrow> nat list" where
  "edit_row x (c # cs) (diag # up # prev) left =
     (let v = min (min (up + 1) (left + 1)) (diag + (if c = x then 0 else 1))
      in v # edit_row x cs (up # prev) v)"
| "edit_row x _ _ _ = []"

fun edit_rows :: "str \<Rightarrow> str \<Rightarrow> nat \<Rightarrow> nat list \<Rightarrow> nat \<Rightarrow> nat" where
  "edit_rows short [] j prev max_dist = last prev"
| "edit_rows short (x # xs) j prev max_dist =
     (let row = (j + 1) # edit_row x short prev (j + 1) in
      if max_dist < Min (set row) then max_dist + 1 else edit_rows short xs (j + 1) row max_dist)"

definition abs_diff :: "nat \<Rightarrow> nat \<Rightarrow> nat" where
  "abs_diff m n = (if m < n then n - m else m - n)"

definition bounded_edit_distance :: "str \<Rightarrow> str \<Rightarrow> nat \<Rightarrow> nat" where
  "bounded_edit_distance a b max_dist =
     (let al = to_lowercase a; bl = to_lowercase b in
      if max_dist < abs_diff (length al) (length bl) then max_dist + 1
      else
        (let s = (if length al \<le> length bl then al else bl);
             l = (if length al \<le> length bl then bl else al)
         in edit_rows s l 0 [0..<length s + 1] max_dist))"

text \<open>The reference: scripts of single-character insertions, deletions and substitutions.\<close>

inductive edits :: "nat \<Rightarrow> 'a list \<Rightarrow> 'a list \<Rightarrow> bool" where
  edits_nil: "edits 0 [] []"
| edits_keep: "edits n a b \<Longrightarrow> edits n (x # a) (x # b)"
| edits_delete: "edits n a b \<Longrightarrow> edits (Suc n) (x # a) b"
| edits_insert: "edits n a b \<Longrightarrow> edits (Suc n) a (y # b)"
| edits_subst: "edits n a b \<Longrightarrow> edits (Suc n) (x # a) (y # b)"

lemma edits_sym: "edits n a b \<Longrightarrow> edits n b a"
  by (induction rule: edits.induct) (auto intro: edits.intros)

lemma edits_append: "edits n a b \<Longrightarrow> edits m c d \<Longrightarrow> edits (n + m) (a @ c) (b @ d)"
  by (induction rule: edits.induct) (auto intro: edits.intros)

lemma edits_rev: "edits n a b \<Longrightarrow> edits n (rev a) (rev b)"
proof (induction rule: edits.induct)
  case edits_nil
  then show ?case by (simp add: edits.edits_nil)
next
  case (edits_keep n a b x)
  have "edits 0 [x] [x]" by (intro edits.intros)
  with edits_append [OF edits_keep.IH this] show ?case by simp
next
  case (edits_delete n a b x)
  have "edits 1 [x] []" using edits.edits_delete [OF edits_nil] by simp
  with edits_append [OF edits_delete.IH this] show ?case by simp
next
  case (edits_insert n a b y)
  have "edits 1 [] [y]" using edits.edits_insert [OF edits_nil] by simp
  with edits_append [OF edits_insert.IH this] show ?case by simp
next
  case (edits_subst n a b x y)
  have "edits 1 [x] [y]" using edits.edits_subst [OF edits_nil] by simp
  with edits_append [OF edits_subst.IH this] show ?case by simp
qed

lemma edits_length: "edits n a b \<Longrightarrow> abs_diff (length a) (length b) \<le> n"
  by (induction rule: edits.induct) (auto simp: abs_diff_def split: if_splits)

fun lev :: "'a list \<Rightarrow> 'a list \<Rightarrow> nat" where
  "lev [] ys = length ys"
| "lev xs [] = length xs"
| "lev (x # xs) (y # ys) =
     min (min (lev (x # xs) ys + 1) (lev xs (y # ys) + 1)) (lev xs ys + (if x = y then 0 else 1))"

lemma edits_all_inserted: "edits (length ys) [] ys"
  by (induction ys) (auto intro: edits.intros)

lemma edits_lev: "edits (lev a b) a b"
proof (induction a b rule: lev.induct)
  case (1 ys)
  then show ?case by (simp add: edits_all_inserted)
next
  case (2 x xs)
  then show ?case using edits_sym [OF edits_all_inserted [of "x # xs"]] by simp
next
  case (3 x xs y ys)
  have "edits (Suc (lev (x # xs) ys)) (x # xs) (y # ys)" "edits (Suc (lev xs (y # ys))) (x # xs) (y # ys)"
    "edits (lev xs ys + (if x = y then 0 else 1)) (x # xs) (y # ys)"
    using 3 by (auto intro: edits.intros)
  then show ?case by (auto simp: min_def)
qed

lemma lev_Nil2 [simp]: "lev xs [] = length xs"
  by (cases xs) auto

lemma lev_Cons_left: "lev (x # a) b \<le> Suc (lev a b)"
  by (cases b) auto

lemma lev_Cons_right: "lev a (y # b) \<le> Suc (lev a b)"
  by (cases a) auto

lemma lev_least: "edits n a b \<Longrightarrow> lev a b \<le> n"
proof (induction rule: edits.induct)
  case (edits_delete n a b x)
  then show ?case using lev_Cons_left [of x a b] by simp
next
  case (edits_insert n a b y)
  then show ?case using lev_Cons_right [of a y b] by simp
qed auto

lemma lev_ge: "k \<le> lev (x # xs) ys \<Longrightarrow> k \<le> lev xs (y # ys) \<Longrightarrow> k \<le> lev xs ys \<Longrightarrow> k \<le> lev (x # xs) (y # ys)"
  by simp

declare lev.simps(3) [simp del]

text \<open>The table row of the consumed part of the longer word, kept reversed in \<open>l\<close>.\<close>

fun lev_row :: "'a list \<Rightarrow> 'a list \<Rightarrow> 'a list \<Rightarrow> nat list" where
  "lev_row acc [] l = [lev acc l]"
| "lev_row acc (c # cs) l = lev acc l # lev_row (c # acc) cs l"

lemma lev_row_shape: "lev_row acc cs l = lev acc l # tl (lev_row acc cs l)"
  by (cases cs) auto

lemma edit_row_lev: "edit_row x cs (lev_row acc cs l) (lev acc (x # l)) = tl (lev_row acc cs (x # l))"
proof (induction cs arbitrary: acc)
  case Nil
  then show ?case by simp
next
  case (Cons c cs)
  have v: "min (min (lev (c # acc) l + 1) (lev acc (x # l) + 1)) (lev acc l + (if c = x then 0 else 1))
      = lev (c # acc) (x # l)" by (simp add: lev.simps(3))
  obtain rest where r: "lev_row (c # acc) cs l = lev (c # acc) l # rest" using lev_row_shape by blast
  have "edit_row x (c # cs) (lev_row acc (c # cs) l) (lev acc (x # l))
      = lev (c # acc) (x # l) # edit_row x cs (lev_row (c # acc) cs l) (lev (c # acc) (x # l))"
    using v r by (simp add: Let_def)
  also have "\<dots> = lev_row (c # acc) cs (x # l)"
    using Cons.IH [of "c # acc"] lev_row_shape [of "c # acc" cs "x # l"] by simp
  finally show ?case by simp
qed

lemma lev_row_not_Nil [simp]: "lev_row acc cs l \<noteq> []"
  by (cases cs) auto

lemma lev_row_head: "lev acc l \<in> set (lev_row acc cs l)"
  by (cases cs) auto

lemma lev_row_start: "lev_row acc cs [] = [length acc..<Suc (length acc + length cs)]"
  by (induction cs arbitrary: acc) (simp_all add: upt_conv_Cons del: upt_Suc)

lemma lev_row_last: "last (lev_row acc cs l) = lev (rev cs @ acc) l"
  by (induction cs arbitrary: acc) auto

lemma lev_row_grows:
  assumes "\<forall>v \<in> set (lev_row acc cs l). k \<le> v" and "k \<le> lev acc (x # l)"
  shows "\<forall>v \<in> set (lev_row acc cs (x # l)). k \<le> v"
  using assms
proof (induction cs arbitrary: acc)
  case (Cons c cs)
  have below: "\<forall>v \<in> set (lev_row (c # acc) cs l). k \<le> v" "k \<le> lev acc l" using Cons.prems(1) by simp_all
  have "k \<le> lev (c # acc) l" by (rule bspec [OF below(1) lev_row_head])
  then have "k \<le> lev (c # acc) (x # l)" using Cons.prems(2) below(2) by (rule lev_ge)
  from Cons.IH [OF below(1) this] Cons.prems(2) show ?case by simp
qed simp

lemma lev_rows_grow:
  "\<forall>v \<in> set (lev_row [] cs l). k \<le> v \<Longrightarrow> \<forall>v \<in> set (lev_row [] cs (rev xs @ l)). k \<le> v"
proof (induction xs arbitrary: l)
  case (Cons x xs)
  have "k \<le> lev [] l" using Cons.prems lev_row_head by blast
  then have "k \<le> lev [] (x # l)" by simp
  with lev_row_grows [OF Cons.prems] have "\<forall>v \<in> set (lev_row [] cs (x # l)). k \<le> v" by blast
  from Cons.IH [OF this] show ?case by simp
qed simp

lemma edit_rows_spec:
  "let r = edit_rows short xs (length l) (lev_row [] short l) k; v = lev (rev short) (rev xs @ l)
   in r = v \<or> (k < v \<and> r = k + 1)"
proof (induction xs arbitrary: l)
  case Nil
  then show ?case by (simp add: lev_row_last)
next
  case (Cons x xs)
  have row: "(length l + 1) # edit_row x short (lev_row [] short l) (length l + 1) = lev_row [] short (x # l)"
    using edit_row_lev [of x short "[]" l] lev_row_shape [of "[]" short "x # l"] by simp
  show ?case
  proof (cases "k < Min (set (lev_row [] short (x # l)))")
    case True
    have "\<forall>v \<in> set (lev_row [] short (x # l)). Suc k \<le> v"
    proof
      fix v assume "v \<in> set (lev_row [] short (x # l))"
      then have "Min (set (lev_row [] short (x # l))) \<le> v" by (rule Min_le [OF finite_set])
      with True have "k < v" by (rule less_le_trans)
      then show "Suc k \<le> v" by simp
    qed
    from lev_rows_grow [OF this, of xs] have "\<forall>v \<in> set (lev_row [] short (rev xs @ x # l)). Suc k \<le> v" .
    moreover have "lev (rev short) (rev xs @ x # l) \<in> set (lev_row [] short (rev xs @ x # l))"
      using lev_row_last [of "[]" short "rev xs @ x # l"] last_in_set [OF lev_row_not_Nil [of "[]" short "rev xs @ x # l"]]
      by simp
    ultimately have "Suc k \<le> lev (rev short) (rev xs @ x # l)" by (rule bspec)
    then show ?thesis using True row by (simp add: Let_def)
  next
    case False
    then show ?thesis using Cons.IH [of "x # l"] row by (simp add: Let_def) blast
  qed
qed

lemma bounded_edit_spec:
  "(bounded_edit_distance a b k \<le> k \<longleftrightarrow> (\<exists>n \<le> k. edits n (to_lowercase a) (to_lowercase b)))
   \<and> (bounded_edit_distance a b k \<le> k \<longrightarrow>
        edits (bounded_edit_distance a b k) (to_lowercase a) (to_lowercase b)
        \<and> (\<forall>n. edits n (to_lowercase a) (to_lowercase b) \<longrightarrow> bounded_edit_distance a b k \<le> n))"
proof -
  let ?a = "to_lowercase a" and ?b = "to_lowercase b"
  let ?r = "bounded_edit_distance a b k"
  let ?s = "if length ?a \<le> length ?b then ?a else ?b" and ?l = "if length ?a \<le> length ?b then ?b else ?a"
  show ?thesis
  proof (cases "k < abs_diff (length ?a) (length ?b)")
    case True
    then have "?r = k + 1" by (simp add: bounded_edit_distance_def Let_def)
    moreover have "\<not> edits n ?a ?b" if "n \<le> k" for n using edits_length [of n ?a ?b] True that by auto
    ultimately show ?thesis by auto
  next
    case False
    define v where "v = lev (rev ?s) (rev ?l)"
    have "?r = edit_rows ?s ?l 0 (lev_row [] ?s []) k"
      using False lev_row_start [of "[]" ?s] by (simp add: bounded_edit_distance_def Let_def)
    then have r: "?r = v \<or> (k < v \<and> ?r = k + 1)"
      using edit_rows_spec [of ?s ?l "[]" k] by (simp add: Let_def v_def)
    have sl: "edits n ?s ?l \<longleftrightarrow> edits n ?a ?b" for n by (auto dest: edits_sym)
    have "edits v ?s ?l" using edits_rev [OF edits_lev [of "rev ?s" "rev ?l"]] by (simp add: v_def)
    then have script: "edits v ?a ?b" using sl by blast
    have "v \<le> n" if "edits n ?s ?l" for n unfolding v_def using lev_least [OF edits_rev [OF that]] .
    then have least: "v \<le> n" if "edits n ?a ?b" for n using sl that by blast
    from r show ?thesis
    proof
      assume "?r = v"
      moreover have "v \<le> k \<longleftrightarrow> (\<exists>n \<le> k. edits n ?a ?b)"
        using script least by (meson order_trans)
      ultimately show ?thesis using script least by simp
    next
      assume over: "k < v \<and> ?r = k + 1"
      have none: "\<not> edits n ?a ?b" if "n \<le> k" for n
      proof
        assume "edits n ?a ?b"
        then have "v \<le> n" by (rule least)
        with over that show False by simp
      qed
      have "\<not> ?r \<le> k" using over by simp
      with none show ?thesis by blast
    qed
  qed
qed

lemma bounded_edit_within: "bounded_edit_distance (to_lowercase a) (to_lowercase b) k \<le> k
    \<longleftrightarrow> (\<exists>n \<le> k. edits n (to_lowercase a) (to_lowercase b))"
  using bounded_edit_spec [of "to_lowercase a" "to_lowercase b" k] by simp

text \<open>C18: The one-row table with its early exits computes the edit distance of the lower-cased words
  exactly whenever that is within the bound: the result is within the bound just when some script
  of insertions, deletions and substitutions is, and then it is the length of a shortest one.\<close>

theorem bounded_edit_distance_exact:
  "(bounded_edit_distance a b k \<le> k \<longleftrightarrow> (\<exists>n \<le> k. edits n (to_lowercase a) (to_lowercase b)))
   \<and> (bounded_edit_distance a b k \<le> k \<longrightarrow>
        edits (bounded_edit_distance a b k) (to_lowercase a) (to_lowercase b)
        \<and> (\<forall>n. edits n (to_lowercase a) (to_lowercase b) \<longrightarrow> bounded_edit_distance a b k \<le> n))"
  by (rule bounded_edit_spec)

lemma bounded_edit_distance_exact_witness:
  "edits 2 ''parse'' ''prase'' \<and> \<not> (\<exists>n < 2. edits n ''parse'' ''prase'')"
proof -
  have "bounded_edit_distance ''parse'' ''prase'' 2 = 2" by code_simp
  moreover have "to_lowercase ''parse'' = ''parse''" "to_lowercase ''prase'' = ''prase''" by code_simp+
  ultimately have "edits 2 ''parse'' ''prase'' \<and> (\<forall>n. edits n ''parse'' ''prase'' \<longrightarrow> 2 \<le> n)"
    using bounded_edit_distance_exact [of "''parse''" "''prase''" 2] by simp
  then show ?thesis by (meson not_le)
qed

text \<open>Beyond the bound the result is not always \<open>max_dist + 1\<close>, and a swap of two letters counts
  twice.\<close>

lemma edit_distance_overshoots: "bounded_edit_distance ''abc'' ''xbz'' 0 = 1 \<and> bounded_edit_distance ''ab'' ''ba'' 9 = 2"
  by code_simp

section \<open>The clean text is free of filters\<close>

lemma parse_loop_Nil [simp]: "parse_loop [] ps f = (ps, f)"
  by (subst parse_loop.simps) simp

lemma parse_loop_space: "char_is_whitespace c \<Longrightarrow> parse_loop (c # cs) ps f = parse_loop cs ps f"
  by (subst parse_loop.simps) simp

lemma parse_loop_token:
  "s \<noteq> [] \<Longrightarrow> \<not> char_is_whitespace (hd s) \<Longrightarrow> parse_loop s ps f =
     (case match_filter_prefix s of
        Some (n, t) \<Rightarrow>
          (let value = fst (extract_value (drop n s)); after = snd (extract_value (drop n s)) in
           if t = FScope then
             (case scope_parse value of
                Some sc \<Rightarrow> parse_loop after ps (note_scope sc f)
              | None \<Rightarrow> parse_loop after (ps @ [take (length s - length after) s]) f)
           else if value \<noteq> [] then parse_loop after ps (push_filter t value f)
           else parse_loop after ps f)
      | None \<Rightarrow>
          parse_loop (dropWhile (\<lambda>c. \<not> char_is_whitespace c) s)
            (ps @ [takeWhile (\<lambda>c. \<not> char_is_whitespace c) s]) f)"
  by (cases s) (simp, subst parse_loop.simps, simp)

lemma starts_with_before_space:
  "CHR '' '' \<notin> set pre \<Longrightarrow> starts_with (a @ CHR '' '' # t) pre \<Longrightarrow> starts_with a pre"
proof (induction pre arbitrary: a)
  case (Cons p pre)
  then show ?case by (cases a) (auto simp: starts_with_def)
qed (simp add: starts_with_def)

lemma starts_with_extend: "starts_with a pre \<Longrightarrow> starts_with (a @ b) pre"
  by (auto simp: starts_with_iff)

lemma lower_append: "to_lowercase (a @ b) = to_lowercase a @ to_lowercase b"
  by (simp add: to_lowercase_def)

lemma lower_space: "to_lowercase (CHR '' '' # t) = CHR '' '' # to_lowercase t"
  by (simp add: to_lowercase_def char_to_lowercase_def code_def char_is_ascii_uppercase_def)

text \<open>A word keeps being no filter when a blank and more text follow, and when text is cut off.\<close>

definition filter_prefixes :: "str list" where
  "filter_prefixes = [''kind:'', ''language:'', ''lang:'', ''path:'', ''name:'', ''scope:'']"

lemma no_prefix_iff:
  "match_filter_prefix s = None \<longleftrightarrow> (\<forall>pre \<in> set filter_prefixes. \<not> starts_with (to_lowercase s) pre)"
  by (auto simp: match_filter_prefix_def filter_prefixes_def Let_def)

lemma filter_prefixes_no_space: "pre \<in> set filter_prefixes \<Longrightarrow> CHR '' '' \<notin> set pre"
  by (auto simp: filter_prefixes_def)

lemma word_no_prefix: "match_filter_prefix p = None \<Longrightarrow> match_filter_prefix (p @ CHR '' '' # t) = None"
  unfolding no_prefix_iff lower_append lower_space
  using starts_with_before_space filter_prefixes_no_space by blast

lemma cut_no_prefix: "match_filter_prefix (p @ t) = None \<Longrightarrow> match_filter_prefix p = None"
  unfolding no_prefix_iff lower_append using starts_with_extend by blast

lemma match_scope: "match_filter_prefix s = Some (n, FScope) \<longleftrightarrow> n = 6 \<and> starts_with (to_lowercase s) ''scope:''"
  by (auto simp: match_filter_prefix_def Let_def starts_with_iff)

lemma ws_lower: "char_is_whitespace c \<Longrightarrow> char_to_lowercase c = c"
  by (auto simp: char_is_whitespace_def char_to_lowercase_def char_is_ascii_uppercase_def Let_def)

lemma scope_first:
  assumes "starts_with (to_lowercase s) ''scope:''"
  shows "s \<noteq> [] \<and> \<not> char_is_whitespace (hd s)"
proof (cases s)
  case Nil
  with assms show ?thesis by (simp add: starts_with_def to_lowercase_def)
next
  case (Cons c cs)
  with assms have "char_to_lowercase c = CHR ''s''" by (simp add: starts_with_def to_lowercase_def)
  then have "\<not> char_is_whitespace c"
    using ws_lower [of c] by (auto simp: char_is_whitespace_def code_def)
  with Cons show ?thesis by simp
qed

text \<open>The text a value is read from, and whether more text can follow it.\<close>

definition reads_closed :: "str \<Rightarrow> str \<Rightarrow> bool" where
  "reads_closed raw v \<longleftrightarrow> (\<forall>t. extract_value (raw @ CHR '' '' # t) = (v, CHR '' '' # t))"

lemma takeWhile_stop: "\<forall>x \<in> set a. P x \<Longrightarrow> \<not> P y \<Longrightarrow> takeWhile P (a @ y # b) = a \<and> dropWhile P (a @ y # b) = y # b"
  by (induction a) auto

lemma space_no_quote: "\<not> is_quote (CHR '' '')"
  by (simp add: is_quote_def code_def)

lemma extract_split:
  "\<exists>raw. r = raw @ snd (extract_value r) \<and> extract_value raw = (fst (extract_value r), [])
     \<and> (snd (extract_value r) = [] \<or> reads_closed raw (fst (extract_value r)))"
proof (cases r)
  case Nil
  then show ?thesis by (simp add: extract_value_def)
next
  case (Cons q xs)
  show ?thesis
  proof (cases "is_quote q")
    case False
    let ?raw = "takeWhile (\<lambda>c. \<not> char_is_whitespace c) r"
    have clean: "\<forall>c \<in> set ?raw. \<not> char_is_whitespace c" by (auto dest: set_takeWhileD)
    have q: "?raw = [] \<or> hd ?raw = q" using Cons by auto
    have "reads_closed ?raw ?raw"
      unfolding reads_closed_def
      using takeWhile_stop [of ?raw "\<lambda>c. \<not> char_is_whitespace c" "CHR '' ''"] clean q False
        space_no_quote space_is_whitespace
      by (cases ?raw) (auto simp: extract_value_def)
    moreover have "extract_value ?raw = (?raw, [])"
      using clean q False by (cases ?raw) (auto simp: extract_value_def)
    moreover have "extract_value r = (?raw, dropWhile (\<lambda>c. \<not> char_is_whitespace c) r)"
      using Cons False by (simp add: extract_value_def)
    ultimately show ?thesis by (intro exI [of _ ?raw]) simp
  next
    case True
    let ?v = "takeWhile (\<lambda>c. c \<noteq> q) xs"
    have v: "\<forall>c \<in> set ?v. c \<noteq> q" by (auto dest: set_takeWhileD)
    have r: "extract_value r = (?v, drop 1 (dropWhile (\<lambda>c. c \<noteq> q) xs))"
      using Cons True by (simp add: extract_value_def)
    show ?thesis
    proof (cases "dropWhile (\<lambda>c. c \<noteq> q) xs")
      case Nil
      then have "?v = xs" by (metis append_Nil2 takeWhile_dropWhile_id)
      with r Nil have "extract_value r = (xs, [])" by simp
      then show ?thesis by (intro exI [of _ r]) simp
    next
      case step: (Cons q' ys)
      then have q': "q' = q" using hd_dropWhile [of "\<lambda>c. c \<noteq> q" xs] by auto
      let ?raw = "q # ?v @ [q]"
      have "r = ?raw @ ys" using Cons step q' takeWhile_dropWhile_id [of "\<lambda>c. c \<noteq> q" xs] by simp
      moreover have "extract_value (?raw @ t) = (?v, t)" for t
        using takeWhile_stop [of ?v "\<lambda>c. c \<noteq> q" q t] v True by (simp add: extract_value_def)
      from this [of "[]"] this have "extract_value ?raw = (?v, [])" "reads_closed ?raw ?v"
        by (simp_all add: reads_closed_def)
      ultimately show ?thesis using r step by (intro exI [of _ ?raw]) simp
    qed
  qed
qed

text \<open>What the parts of the clean text are: words without a prefix, and \<open>scope:\<close> tokens whose value
  is no scope, of which only the last may be an unterminated quotation.\<close>

definition word_part :: "str \<Rightarrow> bool" where
  "word_part p \<longleftrightarrow> p \<noteq> [] \<and> (\<forall>c \<in> set p. \<not> char_is_whitespace c) \<and> match_filter_prefix p = None"

definition raw_part :: "str \<Rightarrow> str \<Rightarrow> bool" where
  "raw_part p raw \<longleftrightarrow> length p = 6 + length raw \<and> drop 6 p = raw \<and> starts_with (to_lowercase p) ''scope:''
     \<and> scope_parse (fst (extract_value raw)) = None \<and> snd (extract_value raw) = []"

definition open_part :: "str \<Rightarrow> bool" where
  "open_part p \<longleftrightarrow> word_part p \<or> (\<exists>raw. raw_part p raw)"

definition closed_part :: "str \<Rightarrow> bool" where
  "closed_part p \<longleftrightarrow> word_part p \<or> (\<exists>raw. raw_part p raw \<and> reads_closed raw (fst (extract_value raw)))"

definition parts_ok :: "str list \<Rightarrow> bool" where
  "parts_ok ps \<longleftrightarrow> (\<forall>p \<in> set (butlast ps). closed_part p) \<and> (ps \<noteq> [] \<longrightarrow> open_part (last ps))"

lemma closed_open: "closed_part p \<Longrightarrow> open_part p"
  by (auto simp: closed_part_def open_part_def)

lemma closed_parts_ok: "\<forall>p \<in> set ps. closed_part p \<Longrightarrow> parts_ok ps"
  unfolding parts_ok_def using closed_open by (auto dest: in_set_butlastD)

lemma parse_word:
  assumes "word_part p"
  shows "parse_loop p ps f = (ps @ [p], f)"
    and "parse_loop (p @ CHR '' '' # t) ps f = parse_loop t (ps @ [p]) f"
proof -
  have p: "p \<noteq> []" "\<forall>c \<in> set p. \<not> char_is_whitespace c" "match_filter_prefix p = None"
    using assms by (auto simp: word_part_def)
  then have h: "\<not> char_is_whitespace (hd p)" by simp
  have tw: "takeWhile (\<lambda>c. \<not> char_is_whitespace c) p = p" "dropWhile (\<lambda>c. \<not> char_is_whitespace c) p = []"
    using p(2) by (simp_all add: takeWhile_eq_all_conv dropWhile_eq_Nil_conv)
  show "parse_loop p ps f = (ps @ [p], f)"
    unfolding parse_loop_token [OF p(1) h] by (simp only: p(3) tw option.simps parse_loop_Nil)
  have q: "p @ CHR '' '' # t \<noteq> []" "\<not> char_is_whitespace (hd (p @ CHR '' '' # t))" using p(1) h by simp_all
  have tw2: "takeWhile (\<lambda>c. \<not> char_is_whitespace c) (p @ CHR '' '' # t) = p"
    "dropWhile (\<lambda>c. \<not> char_is_whitespace c) (p @ CHR '' '' # t) = CHR '' '' # t"
    using takeWhile_stop [OF p(2)] space_is_whitespace by simp_all
  have "parse_loop (p @ CHR '' '' # t) ps f = parse_loop (CHR '' '' # t) (ps @ [p]) f"
    unfolding parse_loop_token [OF q] tw2 using word_no_prefix [OF p(3), of t] by simp
  then show "parse_loop (p @ CHR '' '' # t) ps f = parse_loop t (ps @ [p]) f"
    by (simp add: parse_loop_space space_is_whitespace)
qed

lemma parse_raw:
  assumes "raw_part p raw"
  shows "parse_loop p ps f = (ps @ [p], f)"
    and "reads_closed raw (fst (extract_value raw)) \<Longrightarrow>
      parse_loop (p @ CHR '' '' # t) ps f = parse_loop t (ps @ [p]) f"
proof -
  have r: "drop 6 p = raw" "starts_with (to_lowercase p) ''scope:''" "6 \<le> length p"
    "scope_parse (fst (extract_value raw)) = None" "snd (extract_value raw) = []"
    using assms by (auto simp: raw_part_def)
  have p: "p \<noteq> []" "\<not> char_is_whitespace (hd p)" using scope_first [OF r(2)] by auto
  have m: "match_filter_prefix p = Some (6, FScope)" using r(2) by (simp add: match_scope)
  show "parse_loop p ps f = (ps @ [p], f)"
    unfolding parse_loop_token [OF p] m by (simp add: r Let_def)
  assume "reads_closed raw (fst (extract_value raw))"
  then have e: "extract_value (drop 6 (p @ CHR '' '' # t)) = (fst (extract_value raw), CHR '' '' # t)"
    using r(1,3) by (simp add: reads_closed_def)
  have "starts_with (to_lowercase (p @ CHR '' '' # t)) ''scope:''"
    unfolding lower_append by (rule starts_with_extend [OF r(2)])
  then have m': "match_filter_prefix (p @ CHR '' '' # t) = Some (6, FScope)" by (simp add: match_scope)
  have q: "p @ CHR '' '' # t \<noteq> []" "\<not> char_is_whitespace (hd (p @ CHR '' '' # t))" using p by simp_all
  have "parse_loop (p @ CHR '' '' # t) ps f = parse_loop (CHR '' '' # t) (ps @ [p]) f"
    unfolding parse_loop_token [OF q] m' option.simps prod.case e fst_conv snd_conv Let_def r(4) by simp
  then show "parse_loop (p @ CHR '' '' # t) ps f = parse_loop t (ps @ [p]) f"
    by (simp add: parse_loop_space space_is_whitespace)
qed

lemma parts_reparse: "parts_ok ps \<Longrightarrow> parse_loop (join '' '' ps) acc f = (acc @ ps, f)"
proof (induction ps arbitrary: acc)
  case Nil
  then show ?case by simp
next
  case (Cons p ps)
  show ?case
  proof (cases ps)
    case Nil
    with Cons.prems have "open_part p" by (simp add: parts_ok_def)
    with Nil show ?thesis using parse_word(1) parse_raw(1) by (auto simp: open_part_def)
  next
    case (Cons q qs)
    with Cons.prems have p: "closed_part p" and ps: "parts_ok ps" by (auto simp: parts_ok_def)
    have j: "join '' '' (p # ps) = p @ CHR '' '' # join '' '' ps" using Cons by simp
    have "parse_loop (p @ CHR '' '' # join '' '' ps) acc f = parse_loop (join '' '' ps) (acc @ [p]) f"
      using p parse_word(2) parse_raw(2) by (auto simp: closed_part_def)
    with j Cons.IH [OF ps, of "acc @ [p]"] show ?thesis by simp
  qed
qed

lemma raw_part_cut:
  assumes m: "match_filter_prefix s = Some (n, FScope)"
    and none: "scope_parse (fst (extract_value (drop n s))) = None"
  defines "p \<equiv> take (length s - length (snd (extract_value (drop n s)))) s"
  shows "open_part p \<and> (snd (extract_value (drop n s)) = [] \<or> closed_part p)"
proof -
  from m have n: "n = 6" "starts_with (to_lowercase s) ''scope:''" by (simp_all add: match_scope)
  then have len: "6 \<le> length s" by (auto simp: starts_with_iff to_lowercase_def dest: arg_cong [of _ _ length])
  obtain raw where raw: "drop n s = raw @ snd (extract_value (drop n s))"
    "extract_value raw = (fst (extract_value (drop n s)), [])"
    "snd (extract_value (drop n s)) = [] \<or> reads_closed raw (fst (extract_value (drop n s)))"
    using extract_split by blast
  let ?after = "snd (extract_value (drop n s))"
  have s: "s = (take 6 s @ raw) @ ?after" using raw(1) n(1) append_take_drop_id [of 6 s] by simp
  have "length s - length ?after = length (take 6 s @ raw)" using arg_cong [OF s, of length] by simp
  then have p: "p = take 6 s @ raw" unfolding p_def using s by (metis append_eq_conv_conj)
  have "starts_with (to_lowercase p) ''scope:''"
    using n(2) len unfolding p by (auto simp: starts_with_def to_lowercase_def take_map)
  then have "raw_part p raw" using raw(2) none len p by (simp add: raw_part_def)
  then show ?thesis using raw(2,3) unfolding open_part_def closed_part_def by auto
qed

lemma parse_loop_parts:
  "\<forall>p \<in> set ps. closed_part p \<Longrightarrow> parts_ok (fst (parse_loop s ps f))"
proof (induction "length s" arbitrary: s ps f rule: less_induct)
  case less
  show ?case
  proof (cases s)
    case Nil
    then show ?thesis using less.prems by (simp add: closed_parts_ok)
  next
    case (Cons c cs)
    show ?thesis
    proof (cases "char_is_whitespace c")
      case True
      with Cons less show ?thesis by (simp add: parse_loop_space)
    next
      case False
      then have s: "s \<noteq> []" "\<not> char_is_whitespace (hd s)" using Cons by simp_all
      show ?thesis
      proof (cases "match_filter_prefix s")
        case None
        let ?w = "takeWhile (\<lambda>c. \<not> char_is_whitespace c) s"
        have "match_filter_prefix ?w = None"
          using None cut_no_prefix [of ?w "dropWhile (\<lambda>c. \<not> char_is_whitespace c) s"] by simp
        then have "word_part ?w" using s by (auto simp: word_part_def takeWhile_eq_Nil_iff dest: set_takeWhileD)
        then have "\<forall>p \<in> set (ps @ [?w]). closed_part p" using less.prems by (auto simp: closed_part_def)
        moreover have "length (dropWhile (\<lambda>c. \<not> char_is_whitespace c) s) < length s"
          using Cons False length_dropWhile_Suc [of "\<lambda>c. \<not> char_is_whitespace c" cs] by simp
        ultimately show ?thesis
          unfolding parse_loop_token [OF s] using less.hyps None by simp
      next
        case (Some r)
        obtain n t where m: "match_filter_prefix s = Some (n, t)" using Some by (cases r) auto
        let ?v = "fst (extract_value (drop n s))" and ?after = "snd (extract_value (drop n s))"
        have shorter: "length ?after < length s" by (rule extract_after_shorter [OF m])
        note IH = less.hyps [OF shorter]
        show ?thesis
        proof (cases "t = FScope \<and> scope_parse ?v = None")
          case True
          let ?p = "take (length s - length ?after) s"
          from raw_part_cut [of s n] m True have cut: "open_part ?p" "?after = [] \<or> closed_part ?p" by auto
          have step: "parse_loop s ps f = parse_loop ?after (ps @ [?p]) f"
            unfolding parse_loop_token [OF s] using m True by (simp add: Let_def)
          show ?thesis
          proof (cases "?after = []")
            case True
            then have "fst (parse_loop s ps f) = ps @ [?p]" using step by simp
            then show ?thesis using less.prems cut(1) by (simp add: parts_ok_def)
          next
            case False
            with cut have "\<forall>p \<in> set (ps @ [?p]). closed_part p" using less.prems by auto
            from IH [OF this] step show ?thesis by simp
          qed
        next
          case False
          then have "\<exists>f'. parse_loop s ps f = parse_loop ?after ps f'"
            unfolding parse_loop_token [OF s] using m
            by (cases "t = FScope"; cases "scope_parse ?v"; cases "?v = []") (auto simp: Let_def)
          then obtain f' where "parse_loop s ps f = parse_loop ?after ps f'" by blast
          with IH [OF less.prems] show ?thesis by simp
        qed
      qed
    qed
  qed
qed

text \<open>Filter extraction is complete: what is left of a query as its clean text contains no filter
  any more, so parsing the clean text again changes nothing and finds no filter.\<close>

theorem parse_query_filters_idempotent:
  "parse_query_filters (fst (parse_query_filters q)) = (fst (parse_query_filters q), filters_default)"
proof -
  have "parts_ok (fst (parse_loop q [] filters_default))" by (rule parse_loop_parts) simp
  from parts_reparse [OF this, of "[]" filters_default] show ?thesis
    by (simp add: parse_query_filters_def Let_def)
qed

lemma parse_query_filters_example:
  "parse_query_filters ''kind:Struct where is scope:x it path:\"a b\" Scope:DOCS'' =
     (''where is scope:x it'', filters_default\<lparr>kinds := [''struct''], path_filters := [''a b''], qf_scope := Some Docs\<rparr>)"
  by code_simp

section \<open>Applying the filters\<close>

definition lang_matches_alias :: "str \<Rightarrow> str \<Rightarrow> bool" where
  "lang_matches_alias f detected =
     (if f \<in> {''ts'', ''typescript''} then detected = ''typescript'' \<or> detected = ''tsx''
      else if f \<in> {''js'', ''javascript''} then detected = ''javascript''
      else if f = ''tsx'' then detected = ''tsx''
      else if f \<in> {''py'', ''python''} then detected = ''python''
      else if f \<in> {''rs'', ''rust''} then detected = ''rust''
      else if f \<in> {''go'', ''golang''} then detected = ''go''
      else if f = ''java'' then detected = ''java''
      else if f = ''c'' then detected = ''c''
      else if f \<in> {''cpp'', ''c++'', ''cxx''} then detected = ''cpp''
      else if f \<in> {''cs'', ''csharp'', ''c#''} then detected = ''csharp''
      else if f \<in> {''rb'', ''ruby''} then detected = ''ruby''
      else if f = ''php'' then detected = ''php''
      else if f = ''swift'' then detected = ''swift''
      else if f \<in> {''kotlin'', ''kt''} then detected = ''kotlin''
      else if f = ''dart'' then detected = ''dart''
      else False)"

definition passes_path :: "query_filters \<Rightarrow> merge_chunk \<Rightarrow> bool" where
  "passes_path f c \<longleftrightarrow> path_filters f = [] \<or>
     list_ex (\<lambda>p. contains_str (replace_char backslash slash (mc_file c)) (replace_char backslash slash p)) (path_filters f)"

definition passes_language :: "query_filters \<Rightarrow> merge_chunk \<Rightarrow> bool" where
  "passes_language f c \<longleftrightarrow> languages f = [] \<or>
     (let lang_str = lang_lower (detect_language (mc_file c)) in
      list_ex (\<lambda>l. contains_str lang_str l \<or> lang_matches_alias l lang_str) (languages f))"

definition passes_kind :: "query_filters \<Rightarrow> merge_chunk \<Rightarrow> bool" where
  "passes_kind f c \<longleftrightarrow> kinds f = [] \<or>
     (case mc_symbol_kind c of
        None \<Rightarrow> True
      | Some kind \<Rightarrow> list_ex (\<lambda>k. contains_str (to_lowercase kind) (to_lowercase k)) (kinds f))"

definition name_exact :: "query_filters \<Rightarrow> merge_chunk \<Rightarrow> bool" where
  "name_exact f c \<longleftrightarrow>
     (case mc_symbol c of
        None \<Rightarrow> True
      | Some symb \<Rightarrow> list_ex (\<lambda>n. contains_str (to_lowercase symb) (to_lowercase n)) (name_filters f))"

definition name_fuzzy :: "query_filters \<Rightarrow> merge_chunk \<Rightarrow> bool" where
  "name_fuzzy f c \<longleftrightarrow>
     (case mc_symbol c of
        None \<Rightarrow> False
      | Some symb \<Rightarrow>
          list_ex (\<lambda>n. bounded_edit_distance (to_lowercase symb) (to_lowercase n) 2 \<le> 2) (name_filters f))"

definition base_set :: "query_filters \<Rightarrow> merge_chunk list \<Rightarrow> merge_chunk list" where
  "base_set f cs = filter (\<lambda>c. passes_path f c \<and> passes_language f c \<and> passes_kind f c) cs"

definition apply_query_filters :: "merge_chunk list \<Rightarrow> query_filters \<Rightarrow> merge_chunk list" where
  "apply_query_filters cs f =
     (if name_filters f = [] then base_set f cs
      else
        (let exact_results = filter (name_exact f) (base_set f cs) in
         if exact_results \<noteq> [] then exact_results else filter (name_fuzzy f) (base_set f cs)))"

text \<open>Substring matching of languages makes \<open>lang:java\<close> keep JavaScript and \<open>lang:c\<close> nearly
  anything, past the exact alias table.\<close>

lemma java_filter_keeps_javascript:
  "passes_language (filters_default\<lparr>languages := [''java'']\<rparr>) (demo_chunk ''a.js'' 1 2)
   \<and> \<not> lang_matches_alias ''java'' (lang_lower (detect_language ''a.js''))
   \<and> passes_language (filters_default\<lparr>languages := [''c'']\<rparr>) (demo_chunk ''a.js'' 1 2)"
  by code_simp

text \<open>Filters only narrow, and the fuzzy fallback is a last resort: a result is an input that
  passes the path, language and kind filters; with name filters active, either some candidate
  matches a name exactly and the results are exactly those, or none does and the results are those
  within two edits of a name.\<close>

theorem name_filter_fallback:
  assumes "name_filters f \<noteq> []"
  shows "(\<exists>c \<in> set (base_set f cs). name_exact f c) \<and> apply_query_filters cs f = filter (name_exact f) (base_set f cs)
    \<or> (\<forall>c \<in> set (base_set f cs). \<not> name_exact f c) \<and> apply_query_filters cs f =
        filter (\<lambda>c. \<exists>symb. mc_symbol c = Some symb \<and> (\<exists>n \<in> set (name_filters f). \<exists>d \<le> 2.
           edits d (to_lowercase symb) (to_lowercase n))) (base_set f cs)"
proof -
  have "(\<lambda>c. \<exists>symb. mc_symbol c = Some symb \<and> (\<exists>n \<in> set (name_filters f). \<exists>d \<le> 2.
      edits d (to_lowercase symb) (to_lowercase n))) = name_fuzzy f"
    using bounded_edit_within [where k = 2] by (auto simp: fun_eq_iff name_fuzzy_def list_ex_iff split: option.splits)
  moreover have "filter (name_exact f) (base_set f cs) = [] \<longleftrightarrow> (\<forall>c \<in> set (base_set f cs). \<not> name_exact f c)"
    by (simp add: filter_empty_conv)
  ultimately show ?thesis using assms(1) by (auto simp: apply_query_filters_def Let_def)
qed

lemma name_filter_fallback_witness:
  "apply_query_filters [(demo_chunk ''a.rs'' 1 2)\<lparr>mc_symbol := Some ''Prase''\<rparr>]
     (filters_default\<lparr>name_filters := [''parse'']\<rparr>) \<noteq> []"
proof -
  let ?c = "(demo_chunk ''a.rs'' 1 2)\<lparr>mc_symbol := Some ''Prase''\<rparr>"
  let ?f = "filters_default\<lparr>name_filters := [''parse'']\<rparr>"
  have n: "name_filters ?f \<noteq> []" by simp
  have base: "base_set ?f [?c] = [?c]"
    by (simp add: base_set_def passes_path_def passes_language_def passes_kind_def filters_default_def)
  have "\<not> name_exact ?f ?c" by code_simp
  then have "apply_query_filters [?c] ?f =
      filter (\<lambda>c. \<exists>symb. mc_symbol c = Some symb \<and> (\<exists>n \<in> set (name_filters ?f). \<exists>d \<le> 2.
           edits d (to_lowercase symb) (to_lowercase n))) [?c]"
    using name_filter_fallback [OF n, of "[?c]"] unfolding base by simp
  moreover have "bounded_edit_distance (to_lowercase ''Prase'') (to_lowercase ''parse'') 2 \<le> 2" by code_simp
  then have "\<exists>d \<le> 2. edits d (to_lowercase ''Prase'') (to_lowercase ''parse'')"
    by (simp add: bounded_edit_within)
  ultimately show ?thesis by simp
qed

end
