(* ===== verification/Chunk_Weight.thy ===== *)
theory Chunk_Weight
  imports Filters
begin

text \<open>
  Rank weights by class of chunk (\<open>src/query/chunk_weight.rs\<close>): mocks, stylesheets and chunks that
  are nothing but imports rank lower unless the query asks for them; the scanner that recognises
  import-only chunks. The content fence (\<open>src/query/content_fence.rs\<close>) is here too.

  Byte offsets of the scanner are offsets of characters, the cursor is the list of tokens left.
\<close>

section \<open>The scanner\<close>

datatype tok = Word str | Str str | Punct char

record token =
  tk_kind :: tok
  tk_after_newline :: bool

definition word_char :: "char \<Rightarrow> bool" where
  "word_char c \<longleftrightarrow> char_is_alphanumeric c \<or> c = CHR ''_'' \<or> c = CHR ''$''"

definition string_quote :: "char \<Rightarrow> bool" where
  "string_quote c \<longleftrightarrow> code c \<in> {34, 39, 96}"

text \<open>The length up to and with the closing quote, \<open>None\<close> when there is none.\<close>

fun close_at :: "char \<Rightarrow> bool \<Rightarrow> str \<Rightarrow> nat option" where
  "close_at q escaped [] = None"
| "close_at q escaped (c # cs) =
     (if \<not> escaped \<and> c = q then Some 1
      else map_option Suc (close_at q (\<not> escaped \<and> c = backslash) cs))"

definition comment_len :: "str \<Rightarrow> nat" where
  "comment_len rest =
     (case find_str (drop 2 rest) ''*/'' of Some i \<Rightarrow> i + 4 | None \<Rightarrow> length rest)"

definition line_comment_len :: "str \<Rightarrow> nat" where
  "line_comment_len rest = length (takeWhile (\<lambda>c. c \<noteq> newline) rest)"

definition string_len :: "str \<Rightarrow> nat" where
  "string_len rest =
     (case close_at (hd rest) False (tl rest) of Some n \<Rightarrow> n + 1 | None \<Rightarrow> length rest)"

definition string_body :: "str \<Rightarrow> str" where
  "string_body rest =
     (let body = drop 1 (take (string_len rest) rest) in
      case strip_suffix body [hd rest] of Some b \<Rightarrow> b | None \<Rightarrow> body)"

definition word_len :: "str \<Rightarrow> nat" where
  "word_len rest = length (takeWhile word_char rest)"

text \<open>One step: how many characters are consumed, the token if there is one, and the flag after it.\<close>

definition scan :: "str \<Rightarrow> bool \<Rightarrow> nat \<times> tok option \<times> bool" where
  "scan rest after_newline =
     (let c = hd rest in
      if starts_with rest ''//'' then (line_comment_len rest, None, after_newline)
      else if starts_with rest ''/*'' then
        (comment_len rest, None, after_newline \<or> newline \<in> set (take (comment_len rest) rest))
      else if string_quote c then (string_len rest, Some (Str (string_body rest)), after_newline)
      else if word_char c then (word_len rest, Some (Word (take (word_len rest) rest)), after_newline)
      else if char_is_whitespace c then (1, None, after_newline \<or> c = newline)
      else (1, Some (Punct c), after_newline))"

lemma scan_consumes: "rest \<noteq> [] \<Longrightarrow> 0 < fst (scan rest nl)"
proof (cases rest)
  case (Cons c cs)
  have "c \<noteq> newline" if "starts_with rest ''//''"
    using that Cons by (auto simp: starts_with_def newline_def)
  then show ?thesis
    using Cons
    by (auto simp: scan_def Let_def line_comment_len_def comment_len_def string_len_def word_len_def
        split: option.splits)
qed simp

function tokenize :: "str \<Rightarrow> bool \<Rightarrow> token list" where
  "tokenize rest after_newline =
     (if rest = [] then []
      else
        (let r = scan rest after_newline; left = drop (fst r) rest in
         case fst (snd r) of
           Some kind \<Rightarrow> \<lparr>tk_kind = kind, tk_after_newline = snd (snd r)\<rparr> # tokenize left False
         | None \<Rightarrow> tokenize left (snd (snd r))))"
  by auto
termination
  by (relation "measure (\<lambda>(rest, _). length rest)")
    (auto simp: scan_consumes diff_less length_greater_0_conv)

declare tokenize.simps [simp del]

section \<open>The cursor\<close>

definition take_tok :: "tok \<Rightarrow> token list \<Rightarrow> bool \<times> token list" where
  "take_tok want ts =
     (case ts of t # rest \<Rightarrow> if tk_kind t = want then (True, rest) else (False, ts) | [] \<Rightarrow> (False, []))"

definition ends_statement :: "token list \<Rightarrow> bool \<times> token list" where
  "ends_statement ts =
     (case ts of
        [] \<Rightarrow> (True, [])
      | t # rest \<Rightarrow> if tk_kind t = Punct (CHR '';'') then (True, rest) else (tk_after_newline t, ts))"

definition from_or_end :: "token list \<Rightarrow> bool" where
  "from_or_end ts = (case ts of [] \<Rightarrow> True | t # _ \<Rightarrow> tk_kind t = Word ''from'')"

fun module_clause :: "bool \<Rightarrow> token list \<Rightarrow> bool \<times> token list" where
  "module_clause in_braces [] = (True, [])"
| "module_clause in_braces (t # ts) =
     (case tk_kind t of
        Str s \<Rightarrow> if in_braces then module_clause in_braces ts else ends_statement ts
      | Word w \<Rightarrow> module_clause in_braces ts
      | Punct c \<Rightarrow>
          if c = CHR ''{'' \<and> \<not> in_braces then module_clause True ts
          else if c = CHR ''}'' \<and> in_braces then
            (if from_or_end ts then module_clause False ts else (False, ts))
          else if c = CHR '','' \<or> c = CHR ''*'' then module_clause in_braces ts
          else (False, ts))"

definition is_str_tok :: "tok \<Rightarrow> bool" where
  "is_str_tok k = (case k of Str _ \<Rightarrow> True | _ \<Rightarrow> False)"

definition require_call :: "token list \<Rightarrow> bool \<times> token list" where
  "require_call ts =
     (case ts of
        p # t # q # rest \<Rightarrow>
          if tk_kind p = Punct (CHR ''('') \<and> is_str_tok (tk_kind t) \<and> tk_kind q = Punct (CHR '')'')
          then ends_statement rest else (False, ts)
      | _ \<Rightarrow> (False, ts))"

fun binding_then_require :: "token list \<Rightarrow> bool \<times> token list" where
  "binding_then_require [] = (False, [])"
| "binding_then_require (t # ts) =
     (case tk_kind t of
        Punct c \<Rightarrow>
          if c = CHR ''='' then
            (if fst (take_tok (Word ''require'') ts) then require_call (snd (take_tok (Word ''require'') ts))
             else (False, ts))
          else if c \<in> set '',:{}[]'' then binding_then_require ts
          else (False, ts)
      | Word w \<Rightarrow> binding_then_require ts
      | Str s \<Rightarrow> (False, ts))"

definition DIRECTIVES :: "str list" where
  "DIRECTIVES = [''use client'', ''use server'', ''use strict'']"

definition opens_export :: "token list \<Rightarrow> bool" where
  "opens_export ts =
     (case ts of t # _ \<Rightarrow> tk_kind t = Punct (CHR ''{'') \<or> tk_kind t = Punct (CHR ''*'') | [] \<Rightarrow> False)"

text \<open>One statement whose first token is \<open>kind\<close>.\<close>

definition statement :: "tok \<Rightarrow> bool \<Rightarrow> token list \<Rightarrow> bool \<times> token list" where
  "statement kind seen ts =
     (case kind of
        Str s \<Rightarrow> if s \<in> set DIRECTIVES \<and> \<not> seen then ends_statement ts else (False, ts)
      | Word w \<Rightarrow>
          if w = ''import'' then module_clause False ts
          else if w = ''export'' then
            (let ts' = snd (take_tok (Word ''type'') ts) in
             if opens_export ts' then module_clause False ts' else (False, ts'))
          else if w \<in> {''const'', ''let'', ''var''} then binding_then_require ts
          else if w = ''require'' then require_call ts
          else (False, ts)
      | Punct c \<Rightarrow> (False, ts))"

definition is_directive :: "tok \<Rightarrow> bool" where
  "is_directive kind = (case kind of Str s \<Rightarrow> s \<in> set DIRECTIVES | _ \<Rightarrow> False)"

lemma take_tok_length: "length (snd (take_tok w ts)) \<le> length ts"
  by (auto simp: take_tok_def split: list.split)

lemma ends_statement_length: "length (snd (ends_statement ts)) \<le> length ts"
  by (auto simp: ends_statement_def split: list.split)

lemma module_clause_length: "length (snd (module_clause b ts)) \<le> length ts"
  by (induction b ts rule: module_clause.induct)
    (auto intro: le_SucI order_trans [OF ends_statement_length] split: tok.split)

lemma require_call_length: "length (snd (require_call ts)) \<le> length ts"
  using ends_statement_length
  by (auto simp: require_call_def intro: le_SucI split: list.split)

lemma binding_length: "length (snd (binding_then_require ts)) \<le> length ts"
  by (induction ts)
    (auto intro: le_SucI order_trans [OF require_call_length] take_tok_length split: tok.split)

lemma statement_length: "length (snd (statement kind seen ts)) \<le> length ts"
  using module_clause_length binding_length require_call_length ends_statement_length take_tok_length
    order_trans [OF module_clause_length take_tok_length]
  by (auto simp: statement_def Let_def split: tok.split)

function import_loop :: "bool \<Rightarrow> token list \<Rightarrow> bool" where
  "import_loop seen [] = seen"
| "import_loop seen (t # ts) =
     (if tk_kind t = Punct (CHR '';'') then import_loop seen ts
      else
        (let r = statement (tk_kind t) seen ts in
         fst r \<and> import_loop (seen \<or> \<not> is_directive (tk_kind t)) (snd r)))"
  by pat_completeness auto
termination
  by (relation "measure (\<lambda>(_, ts). length ts)") (auto simp: less_Suc_eq_le statement_length)

definition is_import_only :: "str \<Rightarrow> bool" where
  "is_import_only content = import_loop False (tokenize content False)"

section \<open>Classes and weights\<close>

datatype chunk_class = Mock | Stylesheet | ImportOnly

definition all_classes :: "chunk_class list" where
  "all_classes = [Mock, Stylesheet, ImportOnly]"

definition class_weight :: "chunk_class \<Rightarrow> f32" where
  "class_weight c = (case c of Mock \<Rightarrow> 0x3F666666 | Stylesheet \<Rightarrow> 0x3F666666 | ImportOnly \<Rightarrow> 0x3F59999A)"

definition STYLE_EXTENSIONS :: "str list" where
  "STYLE_EXTENSIONS = [''css'', ''scss'', ''sass'', ''less'']"

definition MOCK_CALLS :: "str list" where
  "MOCK_CALLS = [''jest.mock('', ''vi.mock('', ''jest.doMock('']"

definition SCRIPT_EXTENSIONS :: "str list" where
  "SCRIPT_EXTENSIONS = [''js'', ''jsx'', ''mjs'', ''cjs'', ''ts'', ''tsx'', ''mts'', ''cts'']"

definition TEST_WORDS :: "str list" where
  "TEST_WORDS = [''test'', ''tests'', ''spec'', ''specs'', ''mock'', ''mocks'', ''jest'', ''fixture'', ''fixtures'']"

definition STYLE_WORDS :: "str list" where
  "STYLE_WORDS = [''style'', ''styles'', ''css'', ''scss'', ''sass'', ''less'', ''stylesheet'', ''theme'']"

definition is_mock :: "str \<Rightarrow> str \<Rightarrow> bool" where
  "is_mock rel_path content \<longleftrightarrow>
     list_ex (\<lambda>dir. eq_ignore_ascii_case dir ''__mocks__'') (split_on (\<lambda>c. c = slash) rel_path)
     \<or> is_test_path rel_path \<and> list_ex (contains_str content) MOCK_CALLS"

definition lower_extension :: "str \<Rightarrow> str option" where
  "lower_extension path = map_option to_ascii_lowercase (path_extension path)"

definition class_matches :: "chunk_class \<Rightarrow> str \<Rightarrow> str \<Rightarrow> bool" where
  "class_matches c rel_path content =
     (case c of
        Mock \<Rightarrow> is_mock rel_path content
      | Stylesheet \<Rightarrow>
          (case lower_extension rel_path of Some e \<Rightarrow> e \<in> set STYLE_EXTENSIONS | None \<Rightarrow> False)
      | ImportOnly \<Rightarrow>
          (case lower_extension rel_path of Some e \<Rightarrow> e \<in> set SCRIPT_EXTENSIONS | None \<Rightarrow> False)
          \<and> is_import_only content)"

record query_intent =
  qi_mocks :: bool
  qi_styles :: bool

definition mentions :: "str \<Rightarrow> str list \<Rightarrow> bool" where
  "mentions text words =
     list_ex (\<lambda>token. list_ex (eq_ignore_ascii_case token) words)
       (split_on (\<lambda>c. \<not> char_is_alphanumeric c) text)"

definition intent_of :: "str list \<Rightarrow> query_filters \<Rightarrow> query_intent" where
  "intent_of query_texts filters =
     (let texts = query_texts @ path_filters filters;
          style_language = list_ex (\<lambda>l. to_ascii_lowercase l \<in> set STYLE_EXTENSIONS) (languages filters)
      in \<lparr>qi_mocks = list_ex (\<lambda>t. mentions t TEST_WORDS) texts,
          qi_styles = (style_language \<or> list_ex (\<lambda>t. mentions t STYLE_WORDS) texts)\<rparr>)"

definition asks_for :: "query_intent \<Rightarrow> chunk_class \<Rightarrow> bool" where
  "asks_for i c = (case c of Mock \<Rightarrow> qi_mocks i | Stylesheet \<Rightarrow> qi_styles i | ImportOnly \<Rightarrow> False)"

definition rank_weight :: "merge_chunk \<Rightarrow> str list \<Rightarrow> query_intent \<Rightarrow> f32" where
  "rank_weight c repo_roots intent =
     (let rel_path = repo_relative_in (mc_file c) repo_roots in
      foldl f32_min f32_one
        (map class_weight
          (filter (\<lambda>k. \<not> asks_for intent k \<and> class_matches k rel_path (mc_content c)) all_classes)))"

definition weighted_merge ::
  "ranked_sort \<Rightarrow> merge_chunk list \<Rightarrow> str list \<Rightarrow> query_filters \<Rightarrow> str list \<Rightarrow> nat \<Rightarrow> merge_chunk list" where
  "weighted_merge srt cs query_texts filters repo_roots top_k =
     (let intent = intent_of query_texts filters in
      merge_weighted srt (map (\<lambda>c. (c, rank_weight c repo_roots intent)) cs) top_k)"

section \<open>The content fence\<close>

definition MIN_RESOLVED_CONTENT_CHARS :: nat where
  "MIN_RESOLVED_CONTENT_CHARS = 1"

record content_fence =
  cf_kept :: "merge_chunk list"
  cf_dropped :: nat

definition stale_shard_detected :: "content_fence \<Rightarrow> bool" where
  "stale_shard_detected f \<longleftrightarrow> cf_kept f = [] \<and> 0 < cf_dropped f"

definition is_unresolved_content :: "str \<Rightarrow> bool" where
  "is_unresolved_content content \<longleftrightarrow> str_len (trim content) < MIN_RESOLVED_CONTENT_CHARS"

definition fence_apply :: "merge_chunk list \<Rightarrow> content_fence" where
  "fence_apply cs =
     (let kept = filter (\<lambda>c. \<not> is_unresolved_content (mc_content c)) cs
      in \<lparr>cf_kept = kept, cf_dropped = length cs - length kept\<rparr>)"


section \<open>Import-only chunks make no calls\<close>

definition call_follows :: "tok list \<Rightarrow> bool" where
  "call_follows ks =
     (case ks of p # s # q # _ \<Rightarrow> p = Punct (CHR ''('') \<and> is_str_tok s \<and> q = Punct (CHR '')'') | _ \<Rightarrow> False)"

text \<open>Every opening parenthesis belongs to a \<open>require\<close> of a string literal.\<close>

function only_require_calls :: "tok list \<Rightarrow> bool" where
  "only_require_calls [] = True"
| "only_require_calls (k # ks) =
     (if k = Word ''require'' \<and> call_follows ks then only_require_calls (drop 3 ks)
      else k \<noteq> Punct (CHR ''('') \<and> only_require_calls ks)"
  by pat_completeness auto
termination by (relation "measure length") auto

declare only_require_calls.simps(2) [simp del]

lemma only_open [simp]: "\<not> only_require_calls (Punct (CHR ''('') # ks)"
  by (simp add: only_require_calls.simps(2))

lemma only_step:
  "k \<noteq> Punct (CHR ''('') \<Longrightarrow> \<not> call_follows ks \<Longrightarrow> only_require_calls (k # ks) = only_require_calls ks"
  by (simp add: only_require_calls.simps(2))

lemma call_not_only: "call_follows ys \<Longrightarrow> \<not> only_require_calls ys"
  by (cases ys) (auto simp: call_follows_def split: list.splits)

abbreviation kinds_of :: "token list \<Rightarrow> tok list" where
  "kinds_of \<equiv> map tk_kind"

definition plain :: "tok list \<Rightarrow> bool" where
  "plain ks \<longleftrightarrow> Punct (CHR ''('') \<notin> set ks"

lemma only_plain_append: "plain xs \<Longrightarrow> only_require_calls ys \<Longrightarrow> only_require_calls (xs @ ys)"
proof (induction xs)
  case (Cons x xs)
  have x: "x \<noteq> Punct (CHR ''('')" "plain xs" using Cons.prems(1) by (auto simp: plain_def)
  have "\<not> call_follows (xs @ ys)"
  proof (cases xs)
    case Nil
    with Cons.prems(2) call_not_only show ?thesis by auto
  next
    case (Cons y zs)
    then have "y \<noteq> Punct (CHR ''('')" using x(2) by (auto simp: plain_def)
    then show ?thesis using Cons by (auto simp: call_follows_def split: list.split)
  qed
  with x Cons.IH [OF x(2) Cons.prems(2)] show ?case by (simp add: only_step)
qed simp

text \<open>A parser piece accepts only by consuming plain tokens, or a \<open>require\<close> call.\<close>

definition consumes_plain :: "token list \<Rightarrow> token list \<Rightarrow> bool" where
  "consumes_plain ts rest \<longleftrightarrow> (\<exists>xs. ts = xs @ rest \<and> plain (kinds_of xs))"

lemma consumes_refl [intro]: "consumes_plain ts ts"
  by (auto simp: consumes_plain_def plain_def)

lemma consumes_Cons: "tk_kind t \<noteq> Punct (CHR ''('') \<Longrightarrow> consumes_plain ts rest \<Longrightarrow> consumes_plain (t # ts) rest"
proof -
  assume t: "tk_kind t \<noteq> Punct (CHR ''('')" and "consumes_plain ts rest"
  then obtain xs where "ts = xs @ rest" "plain (kinds_of xs)" by (auto simp: consumes_plain_def)
  with t show ?thesis unfolding consumes_plain_def by (intro exI [of _ "t # xs"]) (simp add: plain_def)
qed

lemma consumes_trans: "consumes_plain a b \<Longrightarrow> consumes_plain b c \<Longrightarrow> consumes_plain a c"
  unfolding consumes_plain_def plain_def by (metis Un_iff append.assoc map_append set_append)

lemma consumes_only: "consumes_plain ts rest \<Longrightarrow> only_require_calls (kinds_of rest) \<Longrightarrow> only_require_calls (kinds_of ts)"
  by (auto simp: consumes_plain_def only_plain_append)

lemma ends_statement_plain: "consumes_plain ts (snd (ends_statement ts))"
  by (auto simp: ends_statement_def intro: consumes_Cons split: list.split)

lemma take_tok_plain: "w \<noteq> Punct (CHR ''('') \<Longrightarrow> consumes_plain ts (snd (take_tok w ts))"
  by (auto simp: take_tok_def intro: consumes_Cons split: list.split)

lemma module_clause_plain: "fst (module_clause b ts) \<Longrightarrow> consumes_plain ts (snd (module_clause b ts))"
proof (induction b ts rule: module_clause.induct)
  case (1 b)
  then show ?case by auto
next
  case (2 b t ts)
  then show ?case
    using ends_statement_plain [of ts]
    by (cases "tk_kind t") (auto intro!: consumes_Cons split: if_splits)
qed

lemma require_call_only:
  assumes "fst (require_call ts)" and "only_require_calls (kinds_of (snd (require_call ts)))"
  shows "only_require_calls (Word ''require'' # kinds_of ts)"
proof -
  obtain p t q rest where ts: "ts = p # t # q # rest"
    using assms(1) by (auto simp: require_call_def split: list.splits)
  then have k: "tk_kind p = Punct (CHR ''('')" "is_str_tok (tk_kind t)" "tk_kind q = Punct (CHR '')'')"
    "snd (require_call ts) = snd (ends_statement rest)"
    using assms(1) by (auto simp: require_call_def split: if_splits)
  have "only_require_calls (kinds_of rest)"
    using consumes_only [OF ends_statement_plain] assms(2) k(4) by metis
  then show ?thesis using k(1-3) by (simp add: ts call_follows_def only_require_calls.simps(2) [of "Word _"])
qed

lemma take_tok_True: "fst (take_tok w ts) \<Longrightarrow> \<exists>t. ts = t # snd (take_tok w ts) \<and> tk_kind t = w"
  by (auto simp: take_tok_def split: list.splits if_splits)

lemma binding_only:
  "fst (binding_then_require ts) \<Longrightarrow> only_require_calls (kinds_of (snd (binding_then_require ts)))
    \<Longrightarrow> only_require_calls (kinds_of ts)"
proof (induction ts)
  case Nil
  then show ?case by simp
next
  case (Cons t ts)
  have add: "only_require_calls (kinds_of ts) \<Longrightarrow> tk_kind t \<noteq> Punct (CHR ''('') \<Longrightarrow>
      only_require_calls (kinds_of (t # ts))"
    using only_plain_append [of "[tk_kind t]"] by (simp add: plain_def)
  show ?case
  proof (cases "tk_kind t")
    case (Word w)
    then show ?thesis using Cons add by simp
  next
    case (Str s)
    then show ?thesis using Cons by simp
  next
    case (Punct c)
    show ?thesis
    proof (cases "c = CHR ''=''")
      case False
      with Punct Cons add show ?thesis by (auto split: if_splits)
    next
      case True
      let ?ts' = "snd (take_tok (Word ''require'') ts)"
      have f: "fst (take_tok (Word ''require'') ts)" "fst (require_call ?ts')"
        "only_require_calls (kinds_of (snd (require_call ?ts')))"
        using Cons.prems Punct True by (auto split: if_splits)
      obtain r where r: "ts = r # ?ts'" "tk_kind r = Word ''require''" using take_tok_True [OF f(1)] by blast
      have "only_require_calls (kinds_of ts)"
        using require_call_only [OF f(2,3)] r by (metis list.map(2))
      then show ?thesis using add Punct True by simp
    qed
  qed
qed

lemma statement_only:
  assumes "fst (statement (tk_kind t) seen ts)"
    and "only_require_calls (kinds_of (snd (statement (tk_kind t) seen ts)))"
  shows "only_require_calls (kinds_of (t # ts))"
proof -
  have add: "only_require_calls (kinds_of ts) \<Longrightarrow> tk_kind t \<noteq> Punct (CHR ''('') \<Longrightarrow>
      only_require_calls (kinds_of (t # ts))"
    using only_plain_append [of "[tk_kind t]"] by (simp add: plain_def)
  show ?thesis
  proof (cases "tk_kind t")
    case (Punct c)
    then show ?thesis using assms by (simp add: statement_def)
  next
    case (Str s)
    then show ?thesis using assms add consumes_only [OF ends_statement_plain, of ts]
      by (auto simp: statement_def split: if_splits)
  next
    case (Word w)
    let ?e = "snd (take_tok (Word ''type'') ts)"
    consider (imp) "w = ''import''" | (exp) "w = ''export''" | (req) "w = ''require''"
      | (bind) "w \<in> {''const'', ''let'', ''var''}"
      using assms(1) Word by (auto simp: statement_def split: if_splits)
    then show ?thesis
    proof cases
      case imp
      then show ?thesis
        using assms Word add consumes_only [OF module_clause_plain [of False ts]] by (auto simp: statement_def)
    next
      case exp
      then have "fst (module_clause False ?e)" "only_require_calls (kinds_of (snd (module_clause False ?e)))"
        using assms Word by (auto simp: statement_def Let_def split: if_splits)
      then have "only_require_calls (kinds_of ?e)" using consumes_only [OF module_clause_plain] by blast
      then have "only_require_calls (kinds_of ts)" using consumes_only [OF take_tok_plain] by blast
      then show ?thesis using add Word by simp
    next
      case req
      then show ?thesis using assms Word require_call_only [of ts] by (auto simp: statement_def)
    next
      case bind
      then show ?thesis using assms Word add binding_only [of ts] by (auto simp: statement_def)
    qed
  qed
qed

lemma import_loop_only: "import_loop seen ts \<Longrightarrow> only_require_calls (kinds_of ts)"
proof (induction seen ts rule: import_loop.induct)
  case (1 seen)
  then show ?case by simp
next
  case (2 seen t ts)
  show ?case
  proof (cases "tk_kind t = Punct (CHR '';'')")
    case True
    then have "only_require_calls (kinds_of ts)" using 2 by simp
    with only_plain_append [of "[tk_kind t]" "kinds_of ts"] True show ?thesis by (simp add: plain_def)
  next
    case False
    let ?r = "statement (tk_kind t) seen ts"
    have "fst ?r" "import_loop (seen \<or> \<not> is_directive (tk_kind t)) (snd ?r)"
      using "2.prems" False by (auto simp: Let_def)
    with "2.IH"(2) [OF False refl] show ?thesis by (intro statement_only) auto
  qed
qed

text \<open>A chunk is ranked down as import-only only when it runs no code of its own: in its token
  stream every opening parenthesis is that of a \<open>require\<close> call on a string literal.\<close>

theorem import_only_no_calls:
  assumes "is_import_only content"
  shows "only_require_calls (kinds_of (tokenize content False))"
  using import_loop_only assms by (simp add: is_import_only_def)

lemma import_only_no_calls_witness:
  "only_require_calls (kinds_of (tokenize ''import a from \"b\"; const c = require(\"d\")'' False))"
  by (rule import_only_no_calls) code_simp

section \<open>Weights and the fence\<close>

lemma class_weight_range: "\<not> f32_nan (class_weight c) \<and> f32_lt (class_weight c) f32_one"
  by (cases c) (simp_all add: class_weight_def, code_simp+)

text \<open>Weighting never raises a chunk and never makes a rank incomparable: the weight is exactly 1
  unless the chunk belongs to a class the query did not ask for, and then it is the least weight
  of those classes, below 1.\<close>

theorem rank_weight_least:
  "let rel = repo_relative_in (mc_file c) roots;
       hit = filter (\<lambda>k. \<not> asks_for i k \<and> class_matches k rel (mc_content c)) all_classes
   in \<not> f32_nan (rank_weight c roots i)
    \<and> (hit = [] \<and> rank_weight c roots i = f32_one
       \<or> (\<exists>k \<in> set hit. rank_weight c roots i = class_weight k \<and> f32_lt (rank_weight c roots i) f32_one
            \<and> (\<forall>j \<in> set hit. f32_le (class_weight k) (class_weight j))))"
proof -
  have w: "class_weight Mock = 0x3F666666" "class_weight Stylesheet = 0x3F666666" "class_weight ImportOnly = 0x3F59999A"
    by (simp_all add: class_weight_def)
  have m: "f32_min f32_one 0x3F666666 = 0x3F666666" "f32_min f32_one 0x3F59999A = 0x3F59999A"
    "f32_min 0x3F666666 0x3F666666 = 0x3F666666" "f32_min 0x3F666666 0x3F59999A = 0x3F59999A"
    by code_simp+
  have l: "f32_lt 0x3F666666 f32_one" "f32_lt 0x3F59999A f32_one" "f32_le 0x3F59999A 0x3F666666"
    "f32_le 0x3F666666 0x3F666666" "f32_le 0x3F59999A 0x3F59999A"
    "\<not> f32_nan 0x3F666666" "\<not> f32_nan 0x3F59999A" "\<not> f32_nan f32_one"
    by code_simp+
  let ?P = "\<lambda>k. \<not> asks_for i k \<and> class_matches k (repo_relative_in (mc_file c) roots) (mc_content c)"
  show ?thesis
    by (cases "?P Mock"; cases "?P Stylesheet"; cases "?P ImportOnly")
      (simp_all add: rank_weight_def all_classes_def Let_def w m l)
qed

lemma rank_weight_least_witness:
  "rank_weight (demo_chunk ''/r/a.css'' 1 2) [''/r''] \<lparr>qi_mocks = False, qi_styles = False\<rparr> = class_weight Stylesheet
   \<and> f32_lt (rank_weight (demo_chunk ''/r/a.css'' 1 2) [''/r''] \<lparr>qi_mocks = False, qi_styles = False\<rparr>) f32_one"
proof -
  let ?c = "demo_chunk ''/r/a.css'' 1 2" and ?i = "\<lparr>qi_mocks = False, qi_styles = False\<rparr>"
  have hit: "filter (\<lambda>k. \<not> asks_for ?i k \<and> class_matches k (repo_relative_in (mc_file ?c) [''/r'']) (mc_content ?c)) all_classes
      = [Stylesheet]" by code_simp
  from rank_weight_least [of ?c "[''/r'']" ?i, unfolded Let_def hit] show ?thesis by auto
qed

text \<open>The content fence fails closed: what it keeps is the candidates with stored text, in their
  order, the rest is counted, and it reports a stale shard exactly when there were candidates and
  none of them has stored text.\<close>

theorem content_fence_closed:
  "cf_kept (fence_apply cs) = filter (\<lambda>c. \<exists>ch \<in> set (mc_content c). \<not> char_is_whitespace ch) cs
   \<and> length (cf_kept (fence_apply cs)) + cf_dropped (fence_apply cs) = length cs
   \<and> (stale_shard_detected (fence_apply cs) \<longleftrightarrow>
        cs \<noteq> [] \<and> (\<forall>c \<in> set cs. \<forall>ch \<in> set (mc_content c). char_is_whitespace ch))"
proof -
  have u: "is_unresolved_content s \<longleftrightarrow> (\<forall>ch \<in> set s. char_is_whitespace ch)" for s
    by (simp add: is_unresolved_content_def MIN_RESOLVED_CONTENT_CHARS_def trim_Nil_iff)
  have "length (filter P cs) = length cs \<Longrightarrow> filter P cs = cs" for P
    using length_filter_less [of _ cs P] by (metis filter_True less_irrefl)
  then show ?thesis
    by (auto simp: fence_apply_def Let_def u stale_shard_detected_def filter_empty_conv)
qed


lemma content_fence_closed_witness:
  "stale_shard_detected (fence_apply [(demo_chunk ''a.rs'' 1 2)\<lparr>mc_content := '' ''\<rparr>])"
  using content_fence_closed [of "[(demo_chunk ''a.rs'' 1 2)\<lparr>mc_content := '' ''\<rparr>]"]
  by (simp add: space_is_whitespace)

end
