(* ===== verification/Session_Store.thy ===== *)
theory Session_Store
  imports Hash_Map
begin

text \<open>
  The bounded session store of the MCP transport (\<open>src/mcp_session_store.rs\<close>): an LRU map in memory,
  with one JSON file per session in a directory shared by the processes.

  The state of a session and its JSON form (\<open>serde_json\<close>) are arguments: \<open>to_json\<close> may fail, and
  \<open>from_json\<close> fails on a corrupt file. The directory is a map from paths to bytes; whether the
  operating system lets a path be read, written or removed is an argument of each request. A deletion is
  two requests, \<open>Forget\<close> under the lock and \<open>Unlink\<close> without it.
\<close>

definition MAX_SESSIONS :: nat where
  "MAX_SESSIONS = 8192"

definition mcp_sessions_dir :: "str \<Rightarrow> str" where
  "mcp_sessions_dir data_dir = path_join data_dir ''mcp-sessions''"

record 'st entry =
  en_state :: 'st
  en_last_used :: nat

record 'st inner =
  sessions :: "(str, 'st entry) hmap"
  clock :: nat

definition inner_default :: "'st inner" where
  "inner_default = \<lparr>sessions = [], clock = 0\<rparr>"

text \<open>\<open>clock.wrapping_add(1)\<close> on 64 bits.\<close>

definition inner_tick :: "'st inner \<Rightarrow> nat \<times> 'st inner" where
  "inner_tick s = (let c = (clock s + 1) mod 2 ^ 64 in (c, s\<lparr>clock := c\<rparr>))"

definition evict_sessions :: "'st inner \<Rightarrow> 'st inner \<times> str list" where
  "evict_sessions s =
     (let r = evict_lru (\<lambda>m. MAX_SESSIONS \<le> length m) (\<lambda>_. True) en_last_used (sessions s)
      in (s\<lparr>sessions := fst r\<rparr>, snd r))"

section \<open>The directory\<close>

definition safe_id_char :: "char \<Rightarrow> bool" where
  "safe_id_char c \<longleftrightarrow> char_is_ascii_alphanumeric c \<or> c = CHR ''-'' \<or> c = CHR ''_''"

definition session_file_path :: "str \<Rightarrow> str \<Rightarrow> str option" where
  "session_file_path dir session_id =
     (if session_id = [] \<or> \<not> list_all safe_id_char session_id then None
      else Some (path_join dir session_id))"

type_synonym 'b disk = "str \<rightharpoonup> 'b"

record io =
  can_read :: "str \<Rightarrow> bool"
  can_write :: "str \<Rightarrow> bool"
  can_remove :: "str \<Rightarrow> bool"

definition persist_to_disk ::
  "('st \<Rightarrow> 'b option) \<Rightarrow> io \<Rightarrow> str \<Rightarrow> str \<Rightarrow> 'st \<Rightarrow> 'b disk \<Rightarrow> 'b disk" where
  "persist_to_disk to_json os dir session_id state d =
     (case session_file_path dir session_id of
        None \<Rightarrow> d
      | Some path \<Rightarrow>
          (case to_json state of
             None \<Rightarrow> d
           | Some json \<Rightarrow> if can_write os path then d(path \<mapsto> json) else d))"

definition load_from_disk ::
  "('b \<Rightarrow> 'st option) \<Rightarrow> io \<Rightarrow> str \<Rightarrow> str \<Rightarrow> 'b disk \<Rightarrow> 'st option" where
  "load_from_disk from_json os dir session_id d =
     (case session_file_path dir session_id of
        None \<Rightarrow> None
      | Some path \<Rightarrow>
          (case d path of
             None \<Rightarrow> None
           | Some bytes \<Rightarrow> if can_read os path then from_json bytes else None))"

definition delete_from_disk :: "io \<Rightarrow> str \<Rightarrow> str \<Rightarrow> 'b disk \<Rightarrow> 'b disk" where
  "delete_from_disk os dir session_id d =
     (case session_file_path dir session_id of
        None \<Rightarrow> d
      | Some path \<Rightarrow> if can_remove os path then d(path := None) else d)"

definition delete_all_from_disk :: "io \<Rightarrow> str \<Rightarrow> str list \<Rightarrow> 'b disk \<Rightarrow> 'b disk" where
  "delete_all_from_disk os dir victims d = fold (delete_from_disk os dir) victims d"

section \<open>The store\<close>

definition session_load ::
  "('b \<Rightarrow> 'st option) \<Rightarrow> io \<Rightarrow> str option \<Rightarrow> str \<Rightarrow> 'st inner \<times> 'b disk \<Rightarrow> 'st option \<times> 'st inner \<times> 'b disk" where
  "session_load from_json os persist_dir session_id = (\<lambda>(s0, d).
     (let t = inner_tick s0; stamp = fst t; s = snd t in
      case hm_get session_id (sessions s) of
        Some e \<Rightarrow>
          (Some (en_state e),
           s\<lparr>sessions := hm_update session_id (\<lambda>e. e\<lparr>en_last_used := stamp\<rparr>) (sessions s)\<rparr>, d)
      | None \<Rightarrow>
          (case persist_dir of
             None \<Rightarrow> (None, s, d)
           | Some dir \<Rightarrow>
               (case load_from_disk from_json os dir session_id d of
                  None \<Rightarrow> (None, s, d)
                | Some state \<Rightarrow>
                    (let ev = (if MAX_SESSIONS \<le> length (sessions s) then evict_sessions s else (s, []));
                         s' = (fst ev)\<lparr>sessions := hm_insert session_id
                                \<lparr>en_state = state, en_last_used = stamp\<rparr> (sessions (fst ev))\<rparr>
                     in (Some state, s', delete_all_from_disk os dir (snd ev) d))))))"

definition session_store ::
  "('st \<Rightarrow> 'b option) \<Rightarrow> io \<Rightarrow> str option \<Rightarrow> str \<Rightarrow> 'st \<Rightarrow> 'st inner \<times> 'b disk \<Rightarrow> 'st inner \<times> 'b disk" where
  "session_store to_json os persist_dir session_id state = (\<lambda>(s, d).
     (let ev = (if hm_contains session_id (sessions s) then (s, []) else evict_sessions s);
          t = inner_tick (fst ev);
          s' = (snd t)\<lparr>sessions := hm_insert session_id
                 \<lparr>en_state = state, en_last_used = fst t\<rparr> (sessions (snd t))\<rparr>
      in (s', case persist_dir of
                None \<Rightarrow> d
              | Some dir \<Rightarrow>
                  delete_all_from_disk os dir (snd ev) (persist_to_disk to_json os dir session_id state d))))"

text \<open>A deletion drops the lock after the memory is cleared and removes the file without it, so other
  requests may be served in between.\<close>

definition session_forget :: "str \<Rightarrow> 'st inner \<times> 'b disk \<Rightarrow> 'st inner \<times> 'b disk" where
  "session_forget session_id = (\<lambda>(s, d). (s\<lparr>sessions := hm_remove session_id (sessions s)\<rparr>, d))"

definition session_unlink :: "io \<Rightarrow> str option \<Rightarrow> str \<Rightarrow> 'st inner \<times> 'b disk \<Rightarrow> 'st inner \<times> 'b disk" where
  "session_unlink os persist_dir session_id = (\<lambda>(s, d).
     (s, case persist_dir of None \<Rightarrow> d | Some dir \<Rightarrow> delete_from_disk os dir session_id d))"

definition session_delete ::
  "io \<Rightarrow> str option \<Rightarrow> str \<Rightarrow> 'st inner \<times> 'b disk \<Rightarrow> 'st inner \<times> 'b disk" where
  "session_delete os persist_dir session_id = session_unlink os persist_dir session_id \<circ> session_forget session_id"

text \<open>Runs of the store: requests of the transport, the start of a new process, which begins with an
  empty memory on the same directory, and what the other processes that share the directory make of it.
  Each request meets an operating system of its own.\<close>

datatype ('st, 'b) request =
  Load str | Store str 'st | Forget str | Unlink str | Restart | Outside "'b disk"

fun serve ::
  "('st \<Rightarrow> 'b option) \<Rightarrow> ('b \<Rightarrow> 'st option) \<Rightarrow> str option \<Rightarrow> io \<times> ('st, 'b) request \<Rightarrow>
   'st inner \<times> 'b disk \<Rightarrow> 'st inner \<times> 'b disk" where
  "serve to_json from_json p (os, Load i) sd = snd (session_load from_json os p i sd)"
| "serve to_json from_json p (os, Store i st) sd = session_store to_json os p i st sd"
| "serve to_json from_json p (os, Forget i) sd = session_forget i sd"
| "serve to_json from_json p (os, Unlink i) sd = session_unlink os p i sd"
| "serve to_json from_json p (os, Restart) sd = (inner_default, snd sd)"
| "serve to_json from_json p (os, Outside d) sd = (fst sd, d)"

lemma delete_served:
  "session_delete os p i sd = fold (serve to_json from_json p) [(os, Forget i), (os, Unlink i)] sd"
  by (simp add: session_delete_def)

section \<open>The bound\<close>

lemma evict_sessions_spec:
  assumes "hm_ok (sessions s)"
  shows "hm_ok (sessions (fst (evict_sessions s)))"
    and "length (sessions (fst (evict_sessions s))) < MAX_SESSIONS"
    and "sessions (fst (evict_sessions s)) = filter (\<lambda>e. fst e \<notin> set (snd (evict_sessions s))) (sessions s)"
    and "clock (fst (evict_sessions s)) = clock s"
proof -
  let ?r = "evict_lru (\<lambda>m. MAX_SESSIONS \<le> length m) (\<lambda>_. True) en_last_used (sessions s)"
  have sess: "sessions (fst (evict_sessions s)) = fst ?r" "snd (evict_sessions s) = snd ?r"
    "clock (fst (evict_sessions s)) = clock s"
    by (simp_all add: evict_sessions_def Let_def)
  show "hm_ok (sessions (fst (evict_sessions s)))" using assms by (simp add: sess evict_lru_ok)
  have spec: "fst ?r = filter (\<lambda>e. fst e \<notin> set (snd ?r)) (sessions s)"
    "MAX_SESSIONS \<le> length (fst ?r) \<longrightarrow> (\<forall>e \<in> set (fst ?r). \<not> True)"
    using evict_lru_spec [of "\<lambda>m. MAX_SESSIONS \<le> length m" "\<lambda>_. True" en_last_used "sessions s"] by blast+
  show "sessions (fst (evict_sessions s)) = filter (\<lambda>e. fst e \<notin> set (snd (evict_sessions s))) (sessions s)"
    using spec(1) sess by simp
  show "length (sessions (fst (evict_sessions s))) < MAX_SESSIONS"
  proof (rule ccontr)
    assume "\<not> ?thesis"
    then have over: "MAX_SESSIONS \<le> length (fst ?r)" using sess by simp
    with spec(2) have "fst ?r = []" by (cases "fst ?r") auto
    with over show False by (simp add: MAX_SESSIONS_def)
  qed
  show "clock (fst (evict_sessions s)) = clock s" by (rule sess(3))
qed

definition store_ok :: "'st inner \<Rightarrow> bool" where
  "store_ok s \<longleftrightarrow> hm_ok (sessions s) \<and> length (sessions s) \<le> MAX_SESSIONS"

lemma inner_tick_sessions [simp]: "sessions (snd (inner_tick s)) = sessions s"
  by (simp add: inner_tick_def Let_def)

lemma store_ok_insert: "hm_ok m \<Longrightarrow> length m < MAX_SESSIONS \<Longrightarrow> length (hm_insert k v m) \<le> MAX_SESSIONS"
  by (simp add: hm_insert_def Suc_le_eq le_less_trans [OF length_hm_remove_le])

lemma store_ok_reinsert: "hm_ok m \<Longrightarrow> hm_contains k m \<Longrightarrow> length (hm_insert k v m) \<le> length m"
  by (auto simp: hm_insert_def hm_contains_def Suc_le_eq intro: length_hm_remove)

lemma serve_ok: "store_ok (fst sd) \<Longrightarrow> store_ok (fst (serve to_json from_json p (os, r) sd))"
proof (cases r)
  case (Load i)
  obtain s d where sd: "sd = (s, d)" by (cases sd)
  assume "store_ok (fst sd)"
  then show ?thesis
    using Load evict_sessions_spec [of "snd (inner_tick s)"]
      store_ok_insert [of "sessions (fst (evict_sessions (snd (inner_tick s))))"]
      store_ok_insert [of "sessions s"]
    by (auto simp: sd session_load_def Let_def store_ok_def not_le split: option.split)
next
  case (Store i st)
  obtain s d where sd: "sd = (s, d)" by (cases sd)
  assume ok: "store_ok (fst sd)"
  show ?thesis
  proof (cases "hm_contains i (sessions s)")
    case True
    then show ?thesis
      using Store ok store_ok_reinsert [of "sessions s" i]
      by (auto simp: sd session_store_def Let_def store_ok_def intro: order_trans)
  next
    case False
    then show ?thesis
      using Store ok evict_sessions_spec [of s] store_ok_insert [of "sessions (fst (evict_sessions s))"]
      by (auto simp: sd session_store_def Let_def store_ok_def)
  qed
next
  case (Forget i)
  obtain s d where sd: "sd = (s, d)" by (cases sd)
  assume "store_ok (fst sd)"
  then show ?thesis
    using Forget by (simp add: sd session_forget_def store_ok_def le_trans [OF length_hm_remove_le])
qed (auto simp: session_unlink_def store_ok_def inner_default_def split: prod.splits)

definition reached :: "('st \<Rightarrow> 'b option) \<Rightarrow> ('b \<Rightarrow> 'st option) \<Rightarrow> str option \<Rightarrow> 'b disk
    \<Rightarrow> (io \<times> ('st, 'b) request) list \<Rightarrow> 'st inner \<times> 'b disk" where
  "reached to_json from_json p disk rs = fold (serve to_json from_json p) rs (inner_default, disk)"

lemma reached_ok: "store_ok (fst (reached to_json from_json p disk rs))"
proof -
  have "store_ok (fst sd) \<Longrightarrow> store_ok (fst (fold (serve to_json from_json p) rs sd))" for sd
  proof (induction rs arbitrary: sd)
    case (Cons osr rs)
    then show ?case by (cases osr) (simp add: serve_ok)
  qed simp
  then show ?thesis by (simp add: reached_def store_ok_def inner_default_def)
qed

text \<open>Whatever sequence of loads, stores, deletions and process restarts is served, the memory never
  holds more than \<open>MAX_SESSIONS\<close> sessions, nor two entries for one id.\<close>

theorem sessions_bounded:
  assumes "sd = reached to_json from_json p disk rs"
  shows "length (sessions (fst sd)) \<le> MAX_SESSIONS \<and> distinct (map fst (sessions (fst sd)))"
  using reached_ok [of to_json from_json p disk rs] assms by (simp add: store_ok_def hm_ok_def hm_keys_def)

section \<open>What the store promises\<close>

text \<open>The specification has two maps from ids to states: the sessions in memory, and those that a new
  process would find in the directory.\<close>

type_synonym 'st view = "(str \<rightharpoonup> 'st) \<times> (str \<rightharpoonup> 'st)"

definition durable_of :: "('b \<Rightarrow> 'st option) \<Rightarrow> str option \<Rightarrow> 'b disk \<Rightarrow> (str \<rightharpoonup> 'st)" where
  "durable_of from_json p d =
     (\<lambda>i. Option.bind (Option.bind p (\<lambda>dir. session_file_path dir i)) (\<lambda>path. Option.bind (d path) from_json))"

definition view_of :: "('b \<Rightarrow> 'st option) \<Rightarrow> str option \<Rightarrow> 'st inner \<times> 'b disk \<Rightarrow> 'st view" where
  "view_of from_json p sd = ((\<lambda>i. map_option en_state (hm_get i (sessions (fst sd)))), durable_of from_json p (snd sd))"

text \<open>What the operating system lets a request do to the file of an id.\<close>

definition allowed :: "(str \<Rightarrow> bool) \<Rightarrow> str option \<Rightarrow> str \<Rightarrow> bool" where
  "allowed can p i \<longleftrightarrow> (case Option.bind p (\<lambda>dir. session_file_path dir i) of None \<Rightarrow> False | Some path \<Rightarrow> can path)"

text \<open>A load is answered from the memory, else from the directory.\<close>

definition spec_answer :: "io \<Rightarrow> str option \<Rightarrow> str \<Rightarrow> 'st view \<Rightarrow> 'st option" where
  "spec_answer os p i v =
     (case fst v i of Some st \<Rightarrow> Some st | None \<Rightarrow> if allowed (can_read os) p i then snd v i else None)"

text \<open>\<open>dropped\<close> are the sessions that make room; their files go too, those the system lets go.\<close>

definition drop_files :: "io \<Rightarrow> str option \<Rightarrow> str set \<Rightarrow> (str \<rightharpoonup> 'st) \<Rightarrow> (str \<rightharpoonup> 'st)" where
  "drop_files os p ids durable = (\<lambda>i. if i \<in> ids \<and> allowed (can_remove os) p i then None else durable i)"

fun spec_step ::
  "('st \<Rightarrow> 'b option) \<Rightarrow> ('b \<Rightarrow> 'st option) \<Rightarrow> str option \<Rightarrow> str set \<Rightarrow> io \<times> ('st, 'b) request \<Rightarrow> 'st view \<Rightarrow> 'st view" where
  "spec_step to_json from_json p dropped (os, Load i) v =
     (if fst v i \<noteq> None \<or> spec_answer os p i v = None then v
      else ((fst v |` (- dropped))(i := spec_answer os p i v), drop_files os p dropped (snd v)))"
| "spec_step to_json from_json p dropped (os, Store i st) v =
     ((fst v |` (- dropped))(i \<mapsto> st),
      drop_files os p dropped
        (if to_json st \<noteq> None \<and> allowed (can_write os) p i then (snd v)(i \<mapsto> st) else snd v))"
| "spec_step to_json from_json p dropped (os, Forget i) v = ((fst v)(i := None), snd v)"
| "spec_step to_json from_json p dropped (os, Unlink i) v = (fst v, drop_files os p {i} (snd v))"
| "spec_step to_json from_json p dropped (os, Restart) v = (Map.empty, snd v)"
| "spec_step to_json from_json p dropped (os, Outside d) v = (fst v, durable_of from_json p d)"

definition spec_keeps :: "('st, 'b) request \<Rightarrow> str set \<Rightarrow> bool" where
  "spec_keeps r dropped \<longleftrightarrow>
     (case r of Load i \<Rightarrow> i \<notin> dropped | Store i st \<Rightarrow> i \<notin> dropped | _ \<Rightarrow> dropped = {})"

text \<open>The hypothesis on \<open>serde_json\<close>: what was written is read back.\<close>

definition json_reads_back :: "('st \<Rightarrow> 'b option) \<Rightarrow> ('b \<Rightarrow> 'st option) \<Rightarrow> bool" where
  "json_reads_back to_json from_json \<longleftrightarrow> (\<forall>st b. to_json st = Some b \<longrightarrow> from_json b = Some st)"

definition safe_id :: "str \<Rightarrow> bool" where
  "safe_id i \<longleftrightarrow> i \<noteq> [] \<and> list_all safe_id_char i"

lemma safe_not_slash: "safe_id i \<Longrightarrow> \<not> starts_with i [slash]"
  by (cases i) (auto simp: safe_id_def safe_id_char_def char_is_ascii_alphanumeric_def starts_with_def slash_def Let_def str_defs)

lemma path_join_safe_inj: "safe_id i \<Longrightarrow> safe_id j \<Longrightarrow> path_join dir i = path_join dir j \<longleftrightarrow> i = j"
  by (auto simp: path_join_def safe_not_slash split: if_splits)

lemma session_file_path_inj:
  "session_file_path dir i = Some path \<Longrightarrow> session_file_path dir j = Some path \<longleftrightarrow> i = j"
proof -
  have safe: "session_file_path dir k = Some path \<Longrightarrow> safe_id k \<and> path = path_join dir k" for k
    by (simp add: session_file_path_def safe_id_def split: if_splits)
  show "session_file_path dir i = Some path \<Longrightarrow> session_file_path dir j = Some path \<longleftrightarrow> i = j"
    using safe [of i] safe [of j] path_join_safe_inj by metis
qed

section \<open>The directory after each operation\<close>

lemma load_from_disk_view:
  "load_from_disk from_json os dir i d
    = (if allowed (can_read os) (Some dir) i then durable_of from_json (Some dir) d i else None)"
  by (auto simp: load_from_disk_def allowed_def durable_of_def split: option.split)

lemma durable_update:
  assumes "session_file_path dir i = Some path"
  shows "durable_of from_json (Some dir) (d(path := x)) = (durable_of from_json (Some dir) d)(i := Option.bind x from_json)"
proof (rule ext)
  fix j
  show "durable_of from_json (Some dir) (d(path := x)) j = ((durable_of from_json (Some dir) d)(i := Option.bind x from_json)) j"
    using session_file_path_inj [OF assms, of j] assms
    by (cases "session_file_path dir j") (auto simp: durable_of_def)
qed

lemma durable_delete:
  "durable_of from_json (Some dir) (delete_from_disk os dir i d) = drop_files os (Some dir) {i} (durable_of from_json (Some dir) d)"
proof (cases "session_file_path dir i")
  case (Some path)
  show ?thesis by (rule ext) (auto simp: delete_from_disk_def drop_files_def allowed_def durable_update [OF Some] Some)
qed (rule ext, auto simp: delete_from_disk_def drop_files_def allowed_def)

lemma durable_delete_all:
  "durable_of from_json (Some dir) (delete_all_from_disk os dir ids d)
    = drop_files os (Some dir) (set ids) (durable_of from_json (Some dir) d)"
proof (induction ids arbitrary: d)
  case (Cons i ids)
  then show ?case by (auto simp: delete_all_from_disk_def durable_delete drop_files_def)
qed (simp add: delete_all_from_disk_def drop_files_def)

lemma durable_persist:
  assumes "json_reads_back to_json from_json"
  shows "durable_of from_json (Some dir) (persist_to_disk to_json os dir i st d)
    = (if to_json st \<noteq> None \<and> allowed (can_write os) (Some dir) i then (durable_of from_json (Some dir) d)(i \<mapsto> st)
       else durable_of from_json (Some dir) d)"
proof (cases "session_file_path dir i")
  case None
  then show ?thesis by (simp add: persist_to_disk_def allowed_def)
next
  case (Some path)
  with Some assms show ?thesis
    by (cases "to_json st") (simp_all add: persist_to_disk_def allowed_def json_reads_back_def durable_update [OF Some])
qed

lemma durable_nowhere: "durable_of from_json None d = Map.empty"
  by (rule ext) (simp add: durable_of_def)

lemma drop_files_none [simp]: "drop_files os None ids v = v" "drop_files os p {} v = v"
  by (rule ext, simp add: drop_files_def allowed_def)+

section \<open>Each request\<close>

lemma evict_sessions_get:
  assumes "hm_ok (sessions s)"
  shows "hm_get j (sessions (fst (evict_sessions s)))
    = (if j \<in> set (snd (evict_sessions s)) then None else hm_get j (sessions s))"
proof -
  have "hm_get j (filter (\<lambda>e. fst e \<notin> V) m) = (if j \<in> V then None else hm_get j m)" for V and m :: "(str, 'a entry) hmap"
    by (induction m) (auto simp: hm_get_def)
  then show ?thesis using evict_sessions_spec(3) [OF assms] by simp
qed

lemma evict_sessions_victims:
  "i \<in> set (snd (evict_sessions s)) \<Longrightarrow> \<exists>e. hm_get i (sessions s) = Some e"
  using evict_lru_spec [of "\<lambda>m. MAX_SESSIONS \<le> length m" "\<lambda>_. True" en_last_used "sessions s"]
  by (auto simp: evict_sessions_def Let_def hm_get_def dest!: weak_map_of_SomeI)

lemma evict_sessions_room:
  "length (sessions s) < MAX_SESSIONS \<Longrightarrow> snd (evict_sessions s) = []"
  by (simp add: evict_sessions_def evict_lru_idle Let_def)

lemma durable_only: "durable_of from_json p d i \<noteq> None \<Longrightarrow> \<exists>dir. p = Some dir"
  by (cases p) (simp_all add: durable_nowhere)

lemma load_answer: "fst (session_load from_json os p i sd) = spec_answer os p i (view_of from_json p sd)"
  by (cases sd)
    (auto simp: session_load_def spec_answer_def view_of_def load_from_disk_view allowed_def Let_def split: option.splits)

lemma session_load_refines:
  assumes ok: "hm_ok (sessions s)"
  shows "\<exists>dropped. i \<notin> dropped \<and> dropped \<subseteq> dom (\<lambda>j. hm_get j (sessions s)) \<and> (length (sessions s) < MAX_SESSIONS \<longrightarrow> dropped = {})
    \<and> view_of from_json p (snd (session_load from_json os p i (s, d)))
      = spec_step to_json from_json p dropped (os, Load i) (view_of from_json p (s, d))"
proof (cases "\<exists>dir st. hm_get i (sessions s) = None \<and> p = Some dir \<and> load_from_disk from_json os dir i d = Some st")
  case False
  then have "view_of from_json p (snd (session_load from_json os p i (s, d))) = view_of from_json p (s, d)"
    by (auto simp: session_load_def view_of_def Let_def fun_eq_iff option.map_comp comp_def split: option.splits)
  moreover have "fst (view_of from_json p (s, d)) i \<noteq> None \<or> spec_answer os p i (view_of from_json p (s, d)) = None"
    using False load_answer [of from_json os p i "(s, d)"]
    by (auto simp: session_load_def Let_def view_of_def split: option.splits)
  ultimately show ?thesis by (intro exI [of _ "{}"]) simp
next
  case True
  then obtain dir st where miss: "hm_get i (sessions s) = None" and p: "p = Some dir"
    and found: "load_from_disk from_json os dir i d = Some st" by blast
  let ?t = "snd (inner_tick s)"
  define ev where "ev = (if MAX_SESSIONS \<le> length (sessions s) then evict_sessions ?t else (?t, []))"
  have get: "hm_get j (sessions (fst ev)) = (if j \<in> set (snd ev) then None else hm_get j (sessions s))" for j
    using evict_sessions_get [of ?t j] ok by (simp add: ev_def)
  have vic: "j \<in> set (snd ev) \<Longrightarrow> \<exists>e. hm_get j (sessions s) = Some e" for j
    using evict_sessions_victims [of j ?t] by (auto simp: ev_def split: if_splits)
  have res: "snd (session_load from_json os p i (s, d))
    = ((fst ev)\<lparr>sessions := hm_insert i \<lparr>en_state = st, en_last_used = fst (inner_tick s)\<rparr> (sessions (fst ev))\<rparr>,
       delete_all_from_disk os dir (snd ev) d)"
    using miss found by (simp add: session_load_def Let_def ev_def p)
  have ans: "spec_answer os p i (view_of from_json p (s, d)) = Some st"
    using load_answer [of from_json os p i "(s, d)"] miss found by (simp add: session_load_def Let_def p)
  have "view_of from_json p (snd (session_load from_json os p i (s, d)))
      = spec_step to_json from_json p (set (snd ev)) (os, Load i) (view_of from_json p (s, d))"
    unfolding res using miss ans
    by (auto simp: view_of_def p durable_delete_all get fun_eq_iff restrict_map_def)
  moreover have "length (sessions s) < MAX_SESSIONS \<longrightarrow> snd ev = []" by (simp add: ev_def)
  moreover have "i \<notin> set (snd ev)" using vic miss by fastforce
  moreover have "set (snd ev) \<subseteq> dom (\<lambda>j. hm_get j (sessions s))" using vic by blast
  ultimately show ?thesis by (intro exI [of _ "set (snd ev)"]) simp
qed

lemma session_store_refines:
  assumes js: "json_reads_back to_json from_json" and ok: "hm_ok (sessions s)"
  shows "\<exists>dropped. i \<notin> dropped \<and> dropped \<subseteq> dom (\<lambda>j. hm_get j (sessions s)) \<and> (length (sessions s) < MAX_SESSIONS \<longrightarrow> dropped = {})
    \<and> view_of from_json p (session_store to_json os p i st (s, d))
      = spec_step to_json from_json p dropped (os, Store i st) (view_of from_json p (s, d))"
proof -
  define ev where "ev = (if hm_contains i (sessions s) then (s, []) else evict_sessions s)"
  have get: "hm_get j (sessions (fst ev)) = (if j \<in> set (snd ev) then None else hm_get j (sessions s))" for j
    using evict_sessions_get [OF ok, of j] by (simp add: ev_def)
  have vic: "j \<in> set (snd ev) \<Longrightarrow> (\<exists>e. hm_get j (sessions s) = Some e) \<and> j \<noteq> i" for j
    using evict_sessions_victims [of j s] by (auto simp: ev_def hm_contains_iff split: if_splits)
  have room: "length (sessions s) < MAX_SESSIONS \<longrightarrow> snd ev = []"
    by (simp add: ev_def evict_sessions_room)
  have res: "session_store to_json os p i st (s, d)
    = ((snd (inner_tick (fst ev)))\<lparr>sessions := hm_insert i
         \<lparr>en_state = st, en_last_used = fst (inner_tick (fst ev))\<rparr> (sessions (fst ev))\<rparr>,
       case p of None \<Rightarrow> d | Some dir \<Rightarrow> delete_all_from_disk os dir (snd ev) (persist_to_disk to_json os dir i st d))"
    unfolding session_store_def prod.case Let_def ev_def [symmetric] by (simp only: inner_tick_sessions)
  have "view_of from_json p (session_store to_json os p i st (s, d))
      = spec_step to_json from_json p (set (snd ev)) (os, Store i st) (view_of from_json p (s, d))"
    unfolding res
    by (cases p) (auto simp: view_of_def durable_delete_all durable_persist [OF js] durable_nowhere get allowed_def
        fun_eq_iff restrict_map_def)
  then show ?thesis using vic room by (intro exI [of _ "set (snd ev)"]) auto
qed

text \<open>The sessions in memory are in the directory too, with the same states. Only a store that could not
  be written, a file removed while its session is in memory, and other processes end this.\<close>

definition mirrored :: "'st view \<Rightarrow> bool" where
  "mirrored v \<longleftrightarrow> (\<forall>i st. fst v i = Some st \<longrightarrow> snd v i = Some st)"

definition keeps_mirror :: "('st \<Rightarrow> 'b option) \<Rightarrow> str option \<Rightarrow> io \<times> ('st, 'b) request \<Rightarrow> 'st view \<Rightarrow> bool" where
  "keeps_mirror to_json p osr v \<longleftrightarrow>
     (case snd osr of
        Store i st \<Rightarrow> to_json st \<noteq> None \<and> allowed (can_write (fst osr)) p i
      | Unlink i \<Rightarrow> fst v i = None
      | Outside d \<Rightarrow> False
      | _ \<Rightarrow> True)"

lemma mirrored_step:
  assumes "mirrored v" "keeps_mirror to_json p osr v" "spec_keeps (snd osr) dropped"
  shows "mirrored (spec_step to_json from_json p dropped osr v)"
proof -
  obtain os r where osr: "osr = (os, r)" by (cases osr)
  show ?thesis
    using assms unfolding osr
    by (cases r)
      (auto simp: mirrored_def keeps_mirror_def spec_keeps_def spec_answer_def drop_files_def restrict_map_def
        split: option.splits if_splits)
qed

text \<open>C4: The session store refines two maps from ids to states, the sessions in memory and those a new
  process would find, whatever disk operations fail and whatever other processes do to the directory. A
  load is answered from the memory, else from the directory when the file can be read; a store sets the
  entry in memory always, and in the directory only when the state serializes, the id is a safe file
  name and the file can be written, else the directory keeps what it had; a deletion clears the memory
  first and later the file, if it can be removed; a restart clears the memory alone. Other sessions are
  dropped, from memory and, as far as files can be removed, from the directory, only when memory is
  full. So a restart answers every readable session as before while memory and directory agree, which
  \<open>mirrored_step\<close> shows every request to keep but a store that is not written, the removal of the file
  of a session still in memory, and other processes. Assumed: JSON that was written is read back.\<close>

theorem store_refines_map:
  assumes json: "json_reads_back to_json from_json"
    and sd: "sd = reached to_json from_json p disk rs"
  shows "(\<exists>dropped. spec_keeps r dropped \<and> dropped \<subseteq> dom (fst (view_of from_json p sd))
        \<and> (length (sessions (fst sd)) < MAX_SESSIONS \<longrightarrow> dropped = {})
        \<and> view_of from_json p (serve to_json from_json p (os, r) sd)
            = spec_step to_json from_json p dropped (os, r) (view_of from_json p sd))
    \<and> fst (session_load from_json os p i sd) = spec_answer os p i (view_of from_json p sd)
    \<and> (mirrored (view_of from_json p sd) \<and> allowed (can_read os) p i \<longrightarrow>
        fst (session_load from_json os p i (serve to_json from_json p (os, Restart) sd)) = fst (session_load from_json os p i sd))"
proof (intro conjI impI)
  obtain s d where s: "sd = (s, d)" by (cases sd)
  have "hm_ok (sessions (fst sd))"
    unfolding sd using reached_ok [of to_json from_json p disk rs] by (simp add: store_ok_def)
  then have ok: "hm_ok (sessions s)" by (simp add: s)
  have dom: "dom (fst (view_of from_json p sd)) = dom (\<lambda>j. hm_get j (sessions s))" by (auto simp: view_of_def s)
  show "\<exists>dropped. spec_keeps r dropped \<and> dropped \<subseteq> dom (fst (view_of from_json p sd))
        \<and> (length (sessions (fst sd)) < MAX_SESSIONS \<longrightarrow> dropped = {})
        \<and> view_of from_json p (serve to_json from_json p (os, r) sd)
            = spec_step to_json from_json p dropped (os, r) (view_of from_json p sd)"
  proof (cases r)
    case (Load j)
    show ?thesis using session_load_refines [OF ok, of j from_json p os d to_json]
      unfolding dom by (simp add: Load s spec_keeps_def)
  next
    case (Store j st)
    show ?thesis using session_store_refines [OF json ok, of j p os st d]
      unfolding dom by (simp add: Store s spec_keeps_def)
  next
    case (Unlink j)
    then show ?thesis
      by (intro exI [of _ "{}"], cases p)
        (simp_all add: s spec_keeps_def session_unlink_def view_of_def durable_delete durable_nowhere)
  next
    case (Forget j)
    then show ?thesis
      by (intro exI [of _ "{}"]) (auto simp: s spec_keeps_def session_forget_def view_of_def fun_eq_iff)
  qed (intro exI [of _ "{}"], auto simp: s spec_keeps_def view_of_def inner_default_def fun_eq_iff)
  show "fst (session_load from_json os p i sd) = spec_answer os p i (view_of from_json p sd)"
    by (rule load_answer)
  show "fst (session_load from_json os p i (serve to_json from_json p (os, Restart) sd)) = fst (session_load from_json os p i sd)"
    if "mirrored (view_of from_json p sd) \<and> allowed (can_read os) p i"
    using that unfolding load_answer
    by (auto simp: spec_answer_def mirrored_def view_of_def inner_default_def hm_get_def split: option.splits)
qed

definition os_all :: io where
  "os_all = \<lparr>can_read = \<lambda>_. True, can_write = \<lambda>_. True, can_remove = \<lambda>_. True\<rparr>"

definition os_full :: io where
  "os_full = os_all\<lparr>can_write := \<lambda>_. False\<rparr>"

lemma demo_path: "session_file_path ''d'' ''a'' = Some ''d/a''"
  by (simp add: session_file_path_def safe_id_char_def char_is_ascii_alphanumeric_def path_join_def starts_with_def
      ends_with_def str_defs Let_def)

lemmas run_defs = session_store_def inner_default_def inner_tick_def evict_sessions_def evict_lru_idle MAX_SESSIONS_def
  persist_to_disk_def demo_path os_all_def os_full_def delete_all_from_disk_def hm_contains_def hm_insert_def hm_remove_def

lemma demo_stored:
  "reached Some Some (Some ''d'') (\<lambda>_. None) [(os_all, Store ''a'' (7::nat))]
    = (\<lparr>sessions = [(''a'', \<lparr>en_state = 7, en_last_used = 1\<rparr>)], clock = 1\<rparr>, [''d/a'' \<mapsto> 7])"
  by (simp add: reached_def run_defs Let_def)

lemma store_refines_map_witness:
  "fst (session_load Some os_all (Some ''d'') ''a'' (serve Some Some (Some ''d'') (os_all, Restart)
      (reached Some Some (Some ''d'') (\<lambda>_. None) [(os_all, Store ''a'' (7::nat))]))) = Some 7"
proof -
  let ?sd = "reached Some Some (Some ''d'') (\<lambda>_. None) [(os_all, Store ''a'' (7::nat))]"
  have js: "json_reads_back Some Some" by (simp add: json_reads_back_def)
  have "mirrored (view_of Some (Some ''d'') ?sd)"
    unfolding demo_stored by (auto simp: mirrored_def view_of_def durable_of_def hm_get_def demo_path split: if_splits)
  moreover have "allowed (can_read os_all) (Some ''d'') ''a''" by (simp add: allowed_def demo_path os_all_def)
  moreover have "fst (session_load Some os_all (Some ''d'') ''a'' ?sd) = Some 7"
    unfolding demo_stored by (simp add: session_load_def inner_tick_def hm_get_def Let_def)
  ultimately show ?thesis using store_refines_map [OF js refl, THEN conjunct2, THEN conjunct2] by metis
qed

text \<open>A store whose file cannot be written is answered from memory and lost by a restart, which goes back to
  the state written before.\<close>

lemma unwritten_store_lost:
  "fst (session_load Some os_all (Some ''d'') ''a''
      (reached Some Some (Some ''d'') (\<lambda>_. None) [(os_all, Store ''a'' (7::nat)), (os_full, Store ''a'' 8)])) = Some 8"
  "fst (session_load Some os_all (Some ''d'') ''a''
      (reached Some Some (Some ''d'') (\<lambda>_. None) [(os_all, Store ''a'' (7::nat)), (os_full, Store ''a'' 8), (os_all, Restart)])) = Some 7"
  by (simp_all add: reached_def session_load_def load_from_disk_def hm_get_def run_defs Let_def)

text \<open>The file is removed without the lock, so a load between the two halves of a deletion brings the session
  back into memory, where it stays when the deletion is done.\<close>

lemma delete_races_load:
  assumes "session_file_path dir i = Some path" "d path = Some b" "from_json b = Some st"
  shows "fst (session_load from_json os_all (Some dir) i
    (fold (serve to_json from_json (Some dir)) [(os_all, Forget i), (os_all, Load i), (os_all, Unlink i)] (s, d))) = Some st"
proof -
  have "load_from_disk from_json os_all dir i d = Some st" using assms by (simp add: load_from_disk_def os_all_def)
  then show ?thesis
    by (simp add: session_forget_def session_unlink_def session_load_def Let_def)
qed

text \<open>No session id reaches a file outside the directory: the path of a session is the directory
  and one more component, which holds no separator, no dot and no NUL; for any other id, hostile
  ids with separators or \<open>..\<close> among them, nothing is read, written or removed.\<close>

theorem session_path_confined:
  "case session_file_path dir i of
     None \<Rightarrow> persist_to_disk to_json os dir i st d = d \<and> delete_from_disk os dir i d = d
       \<and> load_from_disk from_json os dir i d = None
   | Some path \<Rightarrow> path = path_join dir i \<and> i \<noteq> [] \<and> \<not> starts_with i [slash]
       \<and> slash \<notin> set i \<and> backslash \<notin> set i \<and> CHR ''.'' \<notin> set i \<and> CHR 0x00 \<notin> set i"
proof (cases "session_file_path dir i")
  case None
  then show ?thesis by (simp add: persist_to_disk_def delete_from_disk_def load_from_disk_def)
next
  case (Some path)
  then have i: "safe_id i" "path = path_join dir i"
    by (auto simp: session_file_path_def safe_id_def split: if_splits)
  have "\<not> safe_id_char slash" "\<not> safe_id_char backslash" "\<not> safe_id_char (CHR ''.'')" "\<not> safe_id_char (CHR 0x00)"
    by (simp_all add: safe_id_char_def str_defs Let_def)
  then show ?thesis using i Some safe_not_slash [OF i(1)]
    by (auto simp: safe_id_def list_all_iff)
qed

end
