(* ===== verification/Path_Parts.thy ===== *)
theory Path_Parts
  imports Lang
begin

text \<open>
  More of \<open>std::path::Path\<close> on a Unix host: \<open>parent\<close>, \<open>file_stem\<close>, \<open>components\<close>. A path is its text; a
  repeated separator, a separator at the end and a \<open>.\<close> that is not the first component do not count.
\<close>

definition rooted :: "str \<Rightarrow> bool" where
  "rooted p \<longleftrightarrow> starts_with p [slash]"

definition counts :: "str \<Rightarrow> bool" where
  "counts s \<longleftrightarrow> s \<noteq> [] \<and> s \<noteq> ''.''"

text \<open>\<open>Path::parent\<close>: the text before the last component, without what does not count at its end.\<close>

definition drop_idle :: "str list \<Rightarrow> str list" where
  "drop_idle cs = rev (dropWhile (\<lambda>s. \<not> counts s) (rev cs))"

definition path_text :: "str list \<Rightarrow> str" where
  "path_text cs = (if cs = [[]] then [slash] else join [slash] cs)"

definition path_parent :: "str \<Rightarrow> str option" where
  "path_parent p =
     (case split_on (\<lambda>c. c = slash) p of
        [] \<Rightarrow> None
      | c # cs \<Rightarrow>
          (if drop_idle cs = []
           then (if rooted p \<or> c = [] then None else Some [])
           else Some (path_text (c # drop_idle (butlast (drop_idle cs))))))"

definition path_file_stem :: "str \<Rightarrow> str option" where
  "path_file_stem p =
     (case path_file_name p of
        None \<Rightarrow> None
      | Some n \<Rightarrow>
          (case rsplit_once (CHR ''.'') n of
             None \<Rightarrow> Some n
           | Some (stem, ext) \<Rightarrow> Some (if stem = [] then n else stem)))"

datatype component = RootDir | CurDir | ParentDir | Normal str

definition component_of :: "str \<Rightarrow> component" where
  "component_of s = (if s = ''..'' then ParentDir else Normal s)"

definition path_components :: "str \<Rightarrow> component list" where
  "path_components p =
     (if rooted p then [RootDir]
      else if starts_with (split_on (\<lambda>c. c = slash) p) [''.''] then [CurDir] else [])
     @ map component_of (path_names p)"

text \<open>Collecting components into a \<open>PathBuf\<close>.\<close>

fun component_text :: "component \<Rightarrow> str" where
  "component_text RootDir = [slash]"
| "component_text CurDir = ''.''"
| "component_text ParentDir = ''..''"
| "component_text (Normal s) = s"

definition path_collect :: "component list \<Rightarrow> str" where
  "path_collect cs = foldl (\<lambda>p c. path_join p (component_text c)) [] cs"

lemma path_parent_examples:
  "path_parent ''/a/b.rs'' = Some ''/a''" "path_parent ''/a'' = Some ''/''" "path_parent ''/'' = None"
  "path_parent ''a'' = Some []" "path_parent [] = None" "path_parent ''./a/'' = Some ''.''"
  "path_parent ''/a//b/./c'' = Some ''/a//b''" "path_parent ''/./a'' = Some ''/''"
  by (simp_all add: path_parent_def path_text_def drop_idle_def counts_def rooted_def starts_with_def slash_def)

lemma path_collect_examples:
  "path_collect (path_components ''/a//./b/..'') = ''/a/b/..''"
  "path_components ''./a'' = [CurDir, Normal ''a'']"
  "path_file_stem ''/x/.hidden'' = Some ''.hidden''" "path_file_stem ''/x/a.b.c'' = Some ''a.b''"
  by (simp_all add: path_collect_def path_components_def component_of_def rooted_def path_names_def
      starts_with_def ends_with_def slash_def path_join_def path_file_stem_def path_file_name_def)

section \<open>A parent is shorter\<close>

definition pieces_length :: "str list \<Rightarrow> nat" where
  "pieces_length cs = sum_list (map (\<lambda>s. Suc (length s)) cs)"

lemma split_on_length: "pieces_length (split_on P s) = Suc (length s)"
  by (induction P s rule: split_on.induct) (auto simp: pieces_length_def split: list.split)

lemma length_join: "cs \<noteq> [] \<Longrightarrow> Suc (length (join [slash] cs)) = pieces_length cs"
  by (induction "[slash]" cs rule: join.induct) (auto simp: pieces_length_def)

lemma pieces_length_append: "pieces_length (xs @ ys) = pieces_length xs + pieces_length ys"
  by (simp add: pieces_length_def)

lemma drop_idle_prefix: "\<exists>zs. cs = drop_idle cs @ zs"
  unfolding drop_idle_def
  by (metis append_self_conv rev_append rev_rev_ident takeWhile_dropWhile_id)

lemma pieces_length_drop_idle: "pieces_length (drop_idle cs) \<le> pieces_length cs"
  using drop_idle_prefix [of cs] by (metis le_add1 pieces_length_append)

lemma last_drop_idle: "drop_idle cs \<noteq> [] \<Longrightarrow> counts (last (drop_idle cs))"
  unfolding drop_idle_def by (metis hd_dropWhile last_rev rev_is_Nil_conv)

lemma path_parent_shorter:
  assumes "path_parent p = Some q"
  shows "length q < length p"
proof (cases "split_on (\<lambda>c. c = slash) p")
  case Nil
  with assms show ?thesis by (simp add: path_parent_def)
next
  case (Cons c cs)
  have p: "Suc (length c) + pieces_length cs = Suc (length p)"
    using split_on_length [of "\<lambda>c. c = slash" p] Cons by (simp add: pieces_length_def)
  show ?thesis
  proof (cases "drop_idle cs = []")
    case True
    with assms Cons have "q = []" "c \<noteq> []" by (auto simp: path_parent_def split: if_splits)
    with p show ?thesis by (cases c) auto
  next
    case False
    let ?d = "drop_idle cs" and ?e = "drop_idle (butlast (drop_idle cs))"
    have q: "q = path_text (c # ?e)" using assms Cons False by (simp add: path_parent_def)
    have "pieces_length ?d = pieces_length (butlast ?d) + Suc (length (last ?d))"
      using False append_butlast_last_id [of ?d] pieces_length_append [of "butlast ?d" "[last ?d]"]
      by (simp add: pieces_length_def)
    moreover have "0 < length (last ?d)" using last_drop_idle [OF False] by (simp add: counts_def)
    ultimately have "pieces_length ?e + 2 \<le> pieces_length cs"
      using pieces_length_drop_idle [of cs] pieces_length_drop_idle [of "butlast ?d"] by linarith
    moreover have "length q \<le> max 1 (length c + pieces_length ?e)"
      using length_join [of "c # ?e"] by (auto simp: q path_text_def pieces_length_def)
    ultimately show ?thesis using p by linarith
  qed
qed

end
