(* ===== verification/Json.thy ===== *)
theory Json
  imports Prelude
begin

text \<open>
  JSON values as \<open>serde_json::Value\<close> has them, and the accessors the sources call. The parser and the
  printer are the library's and stay arguments wherever they are used. Numbers keep their text
  apart from the unsigned integers, the only ones the sources read.
\<close>

datatype json = JNull | JBool bool | JUInt nat | JNumber str | JString str | JArray "json list"
  | JObject "(str \<times> json) list"

text \<open>\<open>Value::get\<close> with a key: nothing unless the value is an object.\<close>

fun json_get :: "str \<Rightarrow> json \<Rightarrow> json option" where
  "json_get k (JObject kvs) = map_of kvs k"
| "json_get k _ = None"

fun as_object :: "json \<Rightarrow> (str \<times> json) list option" where
  "as_object (JObject kvs) = Some kvs"
| "as_object _ = None"

fun as_array :: "json \<Rightarrow> json list option" where
  "as_array (JArray xs) = Some xs"
| "as_array _ = None"

fun as_str :: "json \<Rightarrow> str option" where
  "as_str (JString s) = Some s"
| "as_str _ = None"

fun as_u64 :: "json \<Rightarrow> nat option" where
  "as_u64 (JUInt n) = Some n"
| "as_u64 _ = None"

fun as_bool :: "json \<Rightarrow> bool option" where
  "as_bool (JBool b) = Some b"
| "as_bool _ = None"

text \<open>\<open>Map::insert\<close> and \<open>Map::remove\<close>; one entry per key.\<close>

definition obj_insert :: "str \<Rightarrow> json \<Rightarrow> (str \<times> json) list \<Rightarrow> (str \<times> json) list" where
  "obj_insert k v m =
     (if k \<in> fst ` set m then map (\<lambda>(j, w). (j, if j = k then v else w)) m else m @ [(k, v)])"

definition obj_remove :: "str \<Rightarrow> (str \<times> json) list \<Rightarrow> (str \<times> json) list" where
  "obj_remove k m = filter (\<lambda>e. fst e \<noteq> k) m"

lemma map_of_replace:
  "map_of (map (\<lambda>(j, w). (j, if j = k then v else w)) m) j = map_option (\<lambda>w. if j = k then v else w) (map_of m j)"
  by (induction m) auto

lemma map_of_obj_insert [simp]: "map_of (obj_insert k v m) j = (if j = k then Some v else map_of m j)"
proof (cases "map_of m k")
  case None
  then have "k \<notin> fst ` set m" by (simp add: map_of_eq_None_iff)
  with None show ?thesis by (simp add: obj_insert_def map_add_def split: option.split)
next
  case (Some w)
  then have "k \<in> fst ` set m" using map_of_eq_None_iff [of m k] by auto
  with Some show ?thesis by (cases "map_of m j") (auto simp: obj_insert_def map_of_replace)
qed

lemma map_of_obj_remove [simp]: "map_of (obj_remove k m) j = (if j = k then None else map_of m j)"
  by (induction m) (auto simp: obj_remove_def)

end
