(* ===== verification/Import_Resolver.thy ===== *)
theory Import_Resolver
  imports Path_Parts Json
begin

text \<open>
  Import paths to files (\<open>src/indexing/import_resolver.rs\<close>). The file set is a \<open>HashSet\<close>: a list here,
  in the order in which an iteration meets it, so nothing may depend on that order unless a lemma says so.
  Reading a file (\<open>read\<close>) and parsing JSON (\<open>from_json\<close>) are arguments.
\<close>

definition TS_JS_EXTENSIONS :: "str list" where
  "TS_JS_EXTENSIONS = [''.ts'', ''.tsx'', ''.js'', ''.jsx'',
     ''/index.ts'', ''/index.tsx'', ''/index.js'', ''/index.jsx'']"

definition PYTHON_EXTENSIONS :: "str list" where
  "PYTHON_EXTENSIONS = [''.py'', ''/__init__.py'']"

definition RUST_EXTENSIONS :: "str list" where
  "RUST_EXTENSIONS = [''.rs'', ''/mod.rs'']"

section \<open>Paths\<close>

definition normalize_path_separators :: "str \<Rightarrow> str" where
  "normalize_path_separators = replace_char backslash slash"

fun resolve_dots :: "component list \<Rightarrow> component list \<Rightarrow> component list" where
  "resolve_dots acc [] = acc"
| "resolve_dots acc (ParentDir # cs) = resolve_dots (butlast acc) cs"
| "resolve_dots acc (CurDir # cs) = resolve_dots acc cs"
| "resolve_dots acc (c # cs) = resolve_dots (acc @ [c]) cs"

definition normalize_relative :: "str \<Rightarrow> str \<Rightarrow> str" where
  "normalize_relative base relative =
     normalize_path_separators (path_collect (resolve_dots [] (path_components (path_join base relative))))"

section \<open>Probing\<close>

definition probe_extensions :: "str \<Rightarrow> str list \<Rightarrow> str list \<Rightarrow> str option" where
  "probe_extensions base exts files =
     (case find_map (\<lambda>ext. let normalized = normalize_path_separators (base @ ext)
                            in if normalized \<in> set files then Some normalized else None) exts of
        Some f \<Rightarrow> Some f
      | None \<Rightarrow> if base \<in> set files then Some base else None)"

definition suffix_match :: "str list \<Rightarrow> str \<Rightarrow> str option" where
  "suffix_match files suffix =
     find (\<lambda>f. ends_with (normalize_path_separators f) (normalize_path_separators suffix)) files"

definition probe_with_suffix_match :: "str \<Rightarrow> str list \<Rightarrow> str list \<Rightarrow> str option" where
  "probe_with_suffix_match import_path exts files =
     (case find_map (\<lambda>ext. suffix_match files (import_path @ ext)) exts of
        Some f \<Rightarrow> Some f
      | None \<Rightarrow> suffix_match files import_path)"

text \<open>\<open>find_config_file\<close>: the loop goes from a directory to its parent.\<close>

definition config_in_dir :: "str \<Rightarrow> str list \<Rightarrow> str list \<Rightarrow> str option" where
  "config_in_dir dir config_names files =
     find_map (\<lambda>name. let candidate = path_join dir name; normalized = normalize_path_separators candidate
       in if normalized \<in> set files then Some normalized
          else if candidate \<in> set files then Some candidate else None) config_names"

function find_config_in :: "str \<Rightarrow> str list \<Rightarrow> str list \<Rightarrow> str option" where
  "find_config_in dir config_names files =
     (case config_in_dir dir config_names files of
        Some f \<Rightarrow> Some f
      | None \<Rightarrow> (case path_parent dir of None \<Rightarrow> None | Some up \<Rightarrow> find_config_in up config_names files))"
  by pat_completeness auto
termination
  by (relation "measure (\<lambda>(dir, _, _). length dir)") (auto simp: path_parent_shorter)

declare find_config_in.simps [simp del]

definition find_config_file :: "str \<Rightarrow> str list \<Rightarrow> str list \<Rightarrow> str option" where
  "find_config_file from_file config_names files =
     (case path_parent from_file of None \<Rightarrow> None | Some dir \<Rightarrow> find_config_in dir config_names files)"

section \<open>TypeScript and JavaScript\<close>

definition parse_tsconfig_paths :: "(str \<Rightarrow> json option) \<Rightarrow> str \<Rightarrow> (str \<times> str list) list option" where
  "parse_tsconfig_paths from_json content =
     (case Option.bind (Option.bind (Option.bind (from_json content)
            (json_get ''compilerOptions'')) (json_get ''paths'')) as_object of
        None \<Rightarrow> None
      | Some paths \<Rightarrow>
          Some (List.map_filter (\<lambda>(key, val). map_option (\<lambda>arr. (key, List.map_filter as_str arr)) (as_array val)) paths))"

definition alias_target :: "str \<Rightarrow> str \<Rightarrow> str list \<Rightarrow> str \<Rightarrow> str option" where
  "alias_target tsconfig_dir remainder files target =
     (let target_base = (case strip_suffix target ''*'' of Some b \<Rightarrow> b | None \<Rightarrow> target);
          normalized = normalize_path_separators (path_join tsconfig_dir (target_base @ remainder))
      in case probe_extensions normalized TS_JS_EXTENSIONS files of
           Some found \<Rightarrow> Some found
         | None \<Rightarrow> if normalized \<in> set files then Some normalized else None)"

text \<open>The loop over the patterns: a pattern that does not end in \<open>*\<close> ends it (the \<open>?\<close> of the source).\<close>

fun alias_loop :: "str \<Rightarrow> str \<Rightarrow> str list \<Rightarrow> (str \<times> str list) list \<Rightarrow> str option" where
  "alias_loop import_path dir files [] = None"
| "alias_loop import_path dir files ((pattern, targets) # paths) =
     (case strip_suffix pattern ''*'' of
        None \<Rightarrow> None
      | Some prefix \<Rightarrow>
          (case strip_prefix import_path prefix of
             None \<Rightarrow> alias_loop import_path dir files paths
           | Some remainder \<Rightarrow>
               (case find_map (alias_target dir remainder files) targets of
                  Some f \<Rightarrow> Some f
                | None \<Rightarrow> alias_loop import_path dir files paths)))"

definition resolve_tsconfig_alias ::
  "(str \<Rightarrow> str option) \<Rightarrow> (str \<Rightarrow> json option) \<Rightarrow> str \<Rightarrow> str \<Rightarrow> str list \<Rightarrow> str option" where
  "resolve_tsconfig_alias read from_json import_path from_file files =
     (if starts_with import_path ''.'' \<or> starts_with import_path [slash] then None
      else case find_config_file from_file [''tsconfig.json'', ''jsconfig.json''] files of
        None \<Rightarrow> None
      | Some tsconfig_path \<Rightarrow>
          (case path_parent tsconfig_path of
             None \<Rightarrow> None
           | Some tsconfig_dir \<Rightarrow>
               (case Option.bind (read tsconfig_path) (parse_tsconfig_paths from_json) of
                  None \<Rightarrow> None
                | Some paths \<Rightarrow> alias_loop import_path tsconfig_dir files paths)))"

definition resolve_ts_js ::
  "(str \<Rightarrow> str option) \<Rightarrow> (str \<Rightarrow> json option) \<Rightarrow> str \<Rightarrow> str \<Rightarrow> str list \<Rightarrow> str option" where
  "resolve_ts_js read from_json import_path from_file files =
     (case resolve_tsconfig_alias read from_json import_path from_file files of
        Some resolved \<Rightarrow> Some resolved
      | None \<Rightarrow>
          (if starts_with import_path ''.''
           then (case path_parent from_file of
                   None \<Rightarrow> None
                 | Some base_dir \<Rightarrow>
                     probe_extensions (normalize_relative base_dir import_path) TS_JS_EXTENSIONS files)
           else probe_with_suffix_match import_path TS_JS_EXTENSIONS files))"

section \<open>Python\<close>

fun parents :: "nat \<Rightarrow> str \<Rightarrow> str option" where
  "parents 0 dir = Some dir"
| "parents (Suc n) dir = (case path_parent dir of None \<Rightarrow> None | Some up \<Rightarrow> parents n up)"

definition resolve_python :: "str \<Rightarrow> str \<Rightarrow> str list \<Rightarrow> str option" where
  "resolve_python import_path from_file files =
     (if starts_with import_path ''.'' then
        (case path_parent from_file of
           None \<Rightarrow> None
         | Some base_dir \<Rightarrow>
             (if starts_with import_path ''./'' \<or> starts_with import_path ''../'' then
                (let resolved_base = normalize_relative base_dir import_path;
                     without_ext = (case strip_suffix resolved_base ''.py'' of Some b \<Rightarrow> b | None \<Rightarrow> resolved_base)
                 in probe_extensions without_ext PYTHON_EXTENSIONS files)
              else
                (let dots = length (takeWhile (\<lambda>c. c = CHR ''.'') import_path)
                 in case parents (dots - 1) base_dir of
                      None \<Rightarrow> None
                    | Some target_dir \<Rightarrow>
                        (let module_path = replace_char (CHR ''.'') slash (drop dots import_path);
                             resolved_base = (if module_path = [] then target_dir
                                              else path_join target_dir module_path)
                         in probe_extensions (normalize_path_separators resolved_base) PYTHON_EXTENSIONS files))))
      else probe_with_suffix_match (replace_char (CHR ''.'') slash import_path) PYTHON_EXTENSIONS files)"

section \<open>Go\<close>

definition parse_go_mod_module :: "str \<Rightarrow> str option" where
  "parse_go_mod_module content =
     find_map (\<lambda>line. map_option trim (strip_prefix (trim line) ''module '')) (str_lines content)"

definition go_file_in :: "str \<Rightarrow> str \<Rightarrow> bool" where
  "go_file_in dir file =
     (let f = normalize_path_separators file
      in starts_with f dir \<and> ends_with f ''.go'' \<and> slash \<notin> set (drop (length dir) f))"

definition resolve_go :: "(str \<Rightarrow> str option) \<Rightarrow> str \<Rightarrow> str \<Rightarrow> str list \<Rightarrow> str option" where
  "resolve_go read import_path from_file files =
     (case find_config_file from_file [''go.mod''] files of
        None \<Rightarrow> None
      | Some go_mod_path \<Rightarrow>
          (case path_parent go_mod_path of
             None \<Rightarrow> None
           | Some go_mod_dir \<Rightarrow>
               (case Option.bind (read go_mod_path) parse_go_mod_module of
                  None \<Rightarrow> None
                | Some module_prefix \<Rightarrow>
                    (case strip_prefix import_path module_prefix of
                       None \<Rightarrow> None
                     | Some rest \<Rightarrow>
                         (let local_path = (case strip_prefix rest [slash] of Some l \<Rightarrow> l | None \<Rightarrow> rest);
                              target_dir_str = normalize_path_separators (path_join go_mod_dir local_path)
                          in find (go_file_in target_dir_str) files)))))"

section \<open>Rust\<close>

text \<open>The loop over further \<open>super::\<close> prefixes.\<close>

function climb_supers :: "str \<Rightarrow> str \<Rightarrow> (str \<times> str) option" where
  "climb_supers target rest =
     (case strip_prefix rest ''super::'' of
        None \<Rightarrow> Some (target, rest)
      | Some next \<Rightarrow> (case path_parent target of None \<Rightarrow> None | Some up \<Rightarrow> climb_supers up next))"
  by pat_completeness auto
termination
  by (relation "measure (\<lambda>(target, rest). length target)") (auto simp: path_parent_shorter)

declare climb_supers.simps [simp del]

definition module_to_path :: "str \<Rightarrow> str" where
  "module_to_path = replace_str ''::'' [slash]"

definition resolve_rust :: "str \<Rightarrow> str \<Rightarrow> str list \<Rightarrow> str option" where
  "resolve_rust import_path from_file files =
     (let path = trim import_path in
      case strip_prefix path ''crate::'' of
        Some remainder \<Rightarrow> probe_with_suffix_match (module_to_path remainder) RUST_EXTENSIONS files
      | None \<Rightarrow>
      (case strip_prefix path ''self::'' of
        Some remainder \<Rightarrow>
          (case (if ends_with from_file ''mod.rs'' \<or> ends_with from_file ''lib.rs'' then path_parent from_file
                 else (case path_file_stem from_file of
                         None \<Rightarrow> None
                       | Some stem \<Rightarrow> map_option (\<lambda>d. path_join d stem) (path_parent from_file))) of
             None \<Rightarrow> None
           | Some base_dir \<Rightarrow>
               probe_extensions (normalize_path_separators (path_join base_dir (module_to_path remainder)))
                 RUST_EXTENSIONS files)
      | None \<Rightarrow>
      (case strip_prefix path ''super::'' of
        Some remainder \<Rightarrow>
          (case path_parent from_file of
             None \<Rightarrow> None
           | Some current_dir \<Rightarrow>
               (case (if ends_with from_file ''mod.rs'' then path_parent current_dir else Some current_dir) of
                  None \<Rightarrow> None
                | Some parent_dir \<Rightarrow>
                    (case climb_supers parent_dir remainder of
                       None \<Rightarrow> None
                     | Some (target, rest) \<Rightarrow>
                         probe_extensions (normalize_path_separators (path_join target (module_to_path rest)))
                           RUST_EXTENSIONS files)))
      | None \<Rightarrow> None)))"

section \<open>Dispatch and re-exports\<close>

definition resolve_import_path ::
  "(str \<Rightarrow> str option) \<Rightarrow> (str \<Rightarrow> json option) \<Rightarrow> str \<Rightarrow> str \<Rightarrow> lang \<Rightarrow> str list \<Rightarrow> str option" where
  "resolve_import_path read from_json import_path from_file l files =
     (case l of
        TypeScript \<Rightarrow> resolve_ts_js read from_json import_path from_file files
      | Tsx \<Rightarrow> resolve_ts_js read from_json import_path from_file files
      | JavaScript \<Rightarrow> resolve_ts_js read from_json import_path from_file files
      | Python \<Rightarrow> resolve_python import_path from_file files
      | Go \<Rightarrow> resolve_go read import_path from_file files
      | Rust \<Rightarrow> resolve_rust import_path from_file files
      | _ \<Rightarrow> None)"

definition is_barrel :: "str \<Rightarrow> bool" where
  "is_barrel f \<longleftrightarrow> ends_with f ''/index.ts'' \<or> ends_with f ''/index.tsx'' \<or> ends_with f ''/index.js''
     \<or> ends_with f ''/index.jsx'' \<or> ends_with f ''/__init__.py'' \<or> ends_with f ''/mod.rs''"

definition barrel_extensions :: "str \<Rightarrow> str list option" where
  "barrel_extensions f =
     (if ends_with f ''.ts'' \<or> ends_with f ''.tsx'' then Some [''.ts'', ''.tsx'', ''.js'', ''.jsx'']
      else if ends_with f ''.js'' \<or> ends_with f ''.jsx'' then Some [''.js'', ''.jsx'', ''.ts'', ''.tsx'']
      else if ends_with f ''.py'' then Some [''.py'']
      else if ends_with f ''.rs'' then Some [''.rs'']
      else None)"

definition barrel_sibling :: "str \<Rightarrow> str \<Rightarrow> str list \<Rightarrow> str \<Rightarrow> str option" where
  "barrel_sibling dir_str target_symbol files ext =
     (let norm = normalize_path_separators (dir_str @ [slash] @ target_symbol @ ext);
          norm_lower = normalize_path_separators (dir_str @ [slash] @ to_lowercase target_symbol @ ext)
      in if norm \<in> set files then Some norm
         else if norm_lower \<in> set files then Some norm_lower else None)"

definition sub_barrel :: "str \<Rightarrow> str \<Rightarrow> str list \<Rightarrow> str \<Rightarrow> str option" where
  "sub_barrel dir_str target_symbol files ext =
     (let norm_sub = normalize_path_separators (dir_str @ [slash] @ target_symbol @ ''/index'' @ ext)
      in if norm_sub \<in> set files then Some norm_sub else None)"

function chase_reexports :: "str \<Rightarrow> str \<Rightarrow> str list \<Rightarrow> nat \<Rightarrow> str option" where
  "chase_reexports resolved_file target_symbol files depth =
     (if 8 < depth \<or> target_symbol = [] \<or> \<not> is_barrel (normalize_path_separators resolved_file) then None
      else case path_parent resolved_file of
        None \<Rightarrow> None
      | Some dir \<Rightarrow>
          (case barrel_extensions (normalize_path_separators resolved_file) of
             None \<Rightarrow> None
           | Some extensions \<Rightarrow>
               (case find_map (barrel_sibling (normalize_path_separators dir) target_symbol files) extensions of
                  Some f \<Rightarrow> Some f
                | None \<Rightarrow>
                    (case find_map (sub_barrel (normalize_path_separators dir) target_symbol files) extensions of
                       None \<Rightarrow> None
                     | Some norm_sub \<Rightarrow>
                         (case chase_reexports norm_sub target_symbol files (depth + 1) of
                            Some deeper \<Rightarrow> Some deeper
                          | None \<Rightarrow> Some norm_sub)))))"
  by pat_completeness auto
termination
  by (relation "measure (\<lambda>(_, _, _, depth). 9 - depth)") auto

declare chase_reexports.simps [simp del]

section \<open>A resolution is a known file\<close>

lemma probe_extensions_in: "probe_extensions base exts files = Some f \<Longrightarrow> f \<in> set files"
  by (auto simp: probe_extensions_def Let_def split: option.splits if_splits dest!: find_map_Some)

lemma suffix_match_in: "suffix_match files suffix = Some f \<Longrightarrow> f \<in> set files"
  by (auto simp: suffix_match_def find_Some_iff)

lemma probe_with_suffix_match_in: "probe_with_suffix_match p exts files = Some f \<Longrightarrow> f \<in> set files"
  by (auto simp: probe_with_suffix_match_def split: option.splits dest!: find_map_Some intro: suffix_match_in)

lemma alias_target_in: "alias_target dir r files t = Some f \<Longrightarrow> f \<in> set files"
  by (auto simp: alias_target_def Let_def split: option.splits if_splits intro: probe_extensions_in)

lemma alias_loop_in: "alias_loop p dir files paths = Some f \<Longrightarrow> f \<in> set files"
  by (induction p dir files paths rule: alias_loop.induct)
    (auto split: option.splits dest!: find_map_Some intro: alias_target_in)

lemma resolve_import_path_in:
  "resolve_import_path read from_json import_path from_file l files = Some f \<Longrightarrow> f \<in> set files"
  unfolding resolve_import_path_def resolve_ts_js_def resolve_tsconfig_alias_def resolve_python_def
    resolve_go_def resolve_rust_def Let_def
  by (auto split: lang.splits option.splits if_splits prod.splits
      intro: probe_extensions_in probe_with_suffix_match_in alias_loop_in simp: find_Some_iff)

text \<open>An import is resolved to a known file or not at all: whatever the language, the tsconfig aliases and the
  configuration files read, a resolution and a re-export chased from a barrel file are members of the file set.\<close>

theorem resolved_import_is_known:
  "(case resolve_import_path read from_json import_path from_file l files of None \<Rightarrow> True | Some f \<Rightarrow> f \<in> set files)
   \<and> (case chase_reexports barrel symbol_name files depth of None \<Rightarrow> True | Some f \<Rightarrow> f \<in> set files)"
proof
  show "case resolve_import_path read from_json import_path from_file l files of None \<Rightarrow> True | Some f \<Rightarrow> f \<in> set files"
    using resolve_import_path_in by (auto split: option.split)
  have sib: "barrel_sibling d t files e = Some f \<Longrightarrow> f \<in> set files" for d t files e f
    by (auto simp: barrel_sibling_def Let_def split: if_splits)
  have sub: "sub_barrel d t files e = Some f \<Longrightarrow> f \<in> set files" for d t files e f
    by (auto simp: sub_barrel_def Let_def split: if_splits)
  have "chase_reexports barrel symbol_name files depth = Some f \<Longrightarrow> f \<in> set files" for f
  proof (induction barrel symbol_name files depth rule: chase_reexports.induct)
    case (1 barrel symbol_name files depth)
    from "1.prems" show ?case
      by (subst (asm) chase_reexports.simps)
        (use "1.IH" in \<open>auto split: if_splits option.splits dest: find_map_Some intro: sib sub\<close>)
  qed
  then show "case chase_reexports barrel symbol_name files depth of None \<Rightarrow> True | Some f \<Rightarrow> f \<in> set files"
    by (auto split: option.split)
qed

text \<open>An import that two files match by their suffix goes to the one that the hash set yields first.\<close>

lemma hash_order_decides:
  "resolve_import_path read from_json ''utils'' ''m.py'' Python [''a/utils.py'', ''b/utils.py''] = Some ''a/utils.py''"
  "resolve_import_path read from_json ''utils'' ''m.py'' Python [''b/utils.py'', ''a/utils.py''] = Some ''b/utils.py''"
  by (simp_all add: resolve_import_path_def resolve_python_def starts_with_def probe_with_suffix_match_def
      PYTHON_EXTENSIONS_def suffix_match_def ends_with_def normalize_path_separators_def replace_char_def
      slash_def backslash_def)

section \<open>A smaller file set\<close>

text \<open>Taking away files that were not the answer does not change the answer, as long as no
  configuration file is among them.\<close>

lemma find_map_drop:
  assumes "\<And>e. f e = Some x \<Longrightarrow> f' e = Some x" "\<And>e. f e = None \<Longrightarrow> f' e = None"
  shows "find_map f es = Some x \<Longrightarrow> find_map f' es = Some x"
  by (induction es) (auto simp: assms split: option.splits)

lemma find_map_none_drop:
  assumes "\<And>e. f e = None \<Longrightarrow> f' e = None"
  shows "find_map f es = None \<Longrightarrow> find_map f' es = None"
  by (simp add: find_map_None assms)

lemma find_filter: "find Q xs = Some x \<Longrightarrow> P x \<Longrightarrow> find Q (filter P xs) = Some x"
  by (induction xs) (auto split: if_splits)

lemma find_filter_None: "find Q xs = None \<Longrightarrow> find Q (filter P xs) = None"
  by (auto simp: find_None_iff)

definition probe_one :: "str \<Rightarrow> str list \<Rightarrow> str \<Rightarrow> str option" where
  "probe_one base files ext =
     (let normalized = normalize_path_separators (base @ ext)
      in if normalized \<in> set files then Some normalized else None)"

lemma probe_extensions_alt:
  "probe_extensions base exts files =
     (case find_map (probe_one base files) exts of Some f \<Rightarrow> Some f
      | None \<Rightarrow> if base \<in> set files then Some base else None)"
  by (simp add: probe_extensions_def probe_one_def [abs_def])

lemma probe_one_drop: "probe_one base files ext = Some x \<Longrightarrow> P x \<Longrightarrow> probe_one base (filter P files) ext = Some x"
  by (auto simp: probe_one_def Let_def split: if_splits)

lemma probe_one_none: "probe_one base files ext = None \<Longrightarrow> probe_one base (filter P files) ext = None"
  by (auto simp: probe_one_def Let_def split: if_splits)

lemma probe_extensions_drop:
  assumes "P x" and some: "probe_extensions base exts files = Some x"
  shows "probe_extensions base exts (filter P files) = Some x"
proof (cases "find_map (probe_one base files) exts")
  case None
  then have "find_map (probe_one base (filter P files)) exts = None"
    by (rule find_map_none_drop [rotated]) (rule probe_one_none)
  with None some \<open>P x\<close> show ?thesis by (simp add: probe_extensions_alt split: if_splits)
next
  case (Some y)
  with some have "y = x" by (simp add: probe_extensions_alt)
  have "find_map (probe_one base (filter P files)) exts = Some x"
    by (rule find_map_drop [OF _ _ Some [unfolded \<open>y = x\<close>]])
      (simp_all add: probe_one_drop probe_one_none \<open>P x\<close>)
  then show ?thesis by (simp add: probe_extensions_alt)
qed

lemma probe_extensions_none:
  assumes "probe_extensions base exts files = None"
  shows "probe_extensions base exts (filter P files) = None"
proof -
  have "find_map (probe_one base files) exts = None" "base \<notin> set files"
    using assms by (auto simp: probe_extensions_alt split: option.splits if_splits)
  then show ?thesis
    using find_map_none_drop [of "probe_one base files" "probe_one base (filter P files)", OF probe_one_none]
    by (simp add: probe_extensions_alt)
qed

lemma suffix_match_drop: "suffix_match files p = Some x \<Longrightarrow> P x \<Longrightarrow> suffix_match (filter P files) p = Some x"
  by (simp add: suffix_match_def find_filter)

lemma suffix_match_none: "suffix_match files p = None \<Longrightarrow> suffix_match (filter P files) p = None"
  by (simp add: suffix_match_def find_filter_None)

lemma probe_suffix_drop:
  assumes "P x" and some: "probe_with_suffix_match p exts files = Some x"
  shows "probe_with_suffix_match p exts (filter P files) = Some x"
proof (cases "find_map (\<lambda>ext. suffix_match files (p @ ext)) exts")
  case None
  then have "find_map (\<lambda>ext. suffix_match (filter P files) (p @ ext)) exts = None"
    by (rule find_map_none_drop [rotated]) (rule suffix_match_none)
  with None some \<open>P x\<close> show ?thesis
    by (simp add: probe_with_suffix_match_def suffix_match_drop)
next
  case (Some y)
  with some have "y = x" by (simp add: probe_with_suffix_match_def)
  have "find_map (\<lambda>ext. suffix_match (filter P files) (p @ ext)) exts = Some x"
    by (rule find_map_drop [OF _ _ Some [unfolded \<open>y = x\<close>]])
      (simp_all add: suffix_match_drop suffix_match_none \<open>P x\<close>)
  then show ?thesis by (simp add: probe_with_suffix_match_def)
qed

lemma probe_suffix_none:
  assumes "probe_with_suffix_match p exts files = None"
  shows "probe_with_suffix_match p exts (filter P files) = None"
proof -
  have "find_map (\<lambda>ext. suffix_match files (p @ ext)) exts = None" "suffix_match files p = None"
    using assms by (auto simp: probe_with_suffix_match_def split: option.splits)
  then show ?thesis
    using find_map_none_drop [of "\<lambda>ext. suffix_match files (p @ ext)" "\<lambda>ext. suffix_match (filter P files) (p @ ext)"]
    by (simp add: probe_with_suffix_match_def suffix_match_none)
qed

definition config_names :: "str list" where
  "config_names = [''tsconfig.json'', ''jsconfig.json'', ''go.mod'']"

definition config_free :: "str list \<Rightarrow> bool" where
  "config_free files \<longleftrightarrow> list_all (\<lambda>f. list_all (\<lambda>n. \<not> ends_with f n) config_names) files"

lemma ends_with_split: "ends_with s p \<longleftrightarrow> (\<exists>a. s = a @ p)"
  by (auto simp: ends_with_def) (metis append_take_drop_id)

lemma path_join_ends: "ends_with (path_join d n) n"
  by (auto simp: path_join_def ends_with_split)

lemma normalize_ends: "backslash \<notin> set n \<Longrightarrow> ends_with s n \<Longrightarrow> ends_with (normalize_path_separators s) n"
  by (auto simp: ends_with_split normalize_path_separators_def replace_char_def intro!: map_idI)

lemma config_name_plain: "n \<in> set config_names \<Longrightarrow> backslash \<notin> set n"
  by (auto simp: config_names_def backslash_def)

lemma config_in_dir_none:
  assumes "config_free files" "set ns \<subseteq> set config_names"
  shows "config_in_dir dir ns files = None"
proof -
  have "path_join dir n \<notin> set files" "normalize_path_separators (path_join dir n) \<notin> set files"
    if "n \<in> set ns" for n
    using assms that config_name_plain [of n] path_join_ends [of dir n] normalize_ends [of n "path_join dir n"]
    by (auto simp: config_free_def list_all_iff)
  then show ?thesis by (simp add: config_in_dir_def Let_def find_map_None)
qed

lemma find_config_none:
  assumes "config_free files" "set ns \<subseteq> set config_names"
  shows "find_config_in dir ns files = None"
proof (induction "length dir" arbitrary: dir rule: less_induct)
  case less
  then show ?case
    by (subst find_config_in.simps)
      (auto simp: config_in_dir_none [OF assms] path_parent_shorter split: option.split)
qed

lemma find_config_file_none:
  "config_free files \<Longrightarrow> set ns \<subseteq> set config_names \<Longrightarrow> find_config_file from ns files = None"
  by (simp add: find_config_file_def find_config_none split: option.split)

lemma resolve_alias_none: "config_free files \<Longrightarrow> resolve_tsconfig_alias read from_json p from files = None"
  by (simp add: resolve_tsconfig_alias_def find_config_file_none config_names_def)

lemma resolve_go_none: "config_free files \<Longrightarrow> resolve_go read p from files = None"
  by (simp add: resolve_go_def find_config_file_none config_names_def)

lemma config_free_filter: "config_free files \<Longrightarrow> config_free (filter P files)"
  by (simp add: config_free_def list_all_iff)

lemmas drop_rules = probe_extensions_drop probe_suffix_drop
lemmas none_rules = probe_extensions_none probe_suffix_none

lemma resolve_ts_js_alt:
  "config_free files \<Longrightarrow> resolve_ts_js read from_json p from files =
     (if starts_with p ''.''
      then (case path_parent from of None \<Rightarrow> None
            | Some base_dir \<Rightarrow> probe_extensions (normalize_relative base_dir p) TS_JS_EXTENSIONS files)
      else probe_with_suffix_match p TS_JS_EXTENSIONS files)"
  by (simp only: resolve_ts_js_def resolve_alias_none option.case)

lemma resolve_ts_js_drop:
  assumes "config_free files"
  shows "P x \<Longrightarrow> resolve_ts_js read from_json p from files = Some x \<Longrightarrow>
      resolve_ts_js read from_json p from (filter P files) = Some x"
    and "resolve_ts_js read from_json p from files = None \<Longrightarrow>
      resolve_ts_js read from_json p from (filter P files) = None"
  unfolding resolve_ts_js_alt [OF assms] resolve_ts_js_alt [OF config_free_filter [OF assms]]
  by (simp_all add: drop_rules none_rules split: option.splits if_split_asm)

lemma resolve_python_drop:
  "P x \<longrightarrow> resolve_python p from files = Some x \<longrightarrow> resolve_python p from (filter P files) = Some x"
  "resolve_python p from files = None \<longrightarrow> resolve_python p from (filter P files) = None"
  by (simp_all add: resolve_python_def Let_def drop_rules none_rules split: option.split)

lemma resolve_rust_drop:
  "P x \<longrightarrow> resolve_rust p from files = Some x \<longrightarrow> resolve_rust p from (filter P files) = Some x"
  "resolve_rust p from files = None \<longrightarrow> resolve_rust p from (filter P files) = None"
  by (simp_all add: resolve_rust_def Let_def drop_rules none_rules split: option.split prod.split)

lemma resolve_import_path_drop:
  assumes "config_free files"
  shows "P x \<Longrightarrow> resolve_import_path read from_json p from l files = Some x \<Longrightarrow>
      resolve_import_path read from_json p from l (filter P files) = Some x"
    and "resolve_import_path read from_json p from l files = None \<Longrightarrow>
      resolve_import_path read from_json p from l (filter P files) = None"
  using assms config_free_filter [OF assms]
  by (cases l; simp add: resolve_import_path_def resolve_ts_js_drop resolve_python_drop resolve_rust_drop
      resolve_go_none)+

end
