(* ===== verification/Index_Control.thy ===== *)
theory Index_Control
  imports Hash_Map
begin

text \<open>
  The control of indexing runs: which files a run takes on (\<open>src/indexing/tracker.rs\<close>), when a failed run
  is retried (\<open>src/indexing/retry_backoff.rs\<close>) and who may queue a rebuild
  (\<open>src/indexing/rebuild_guard.rs\<close>). Reading a file's metadata is the argument \<open>stat\<close>.
\<close>

section \<open>Changed files\<close>

datatype change_kind = Added | Modified | Deleted

record file_change =
  fc_path :: str
  fc_kind :: change_kind

record file_stat =
  fs_mtime :: int
  fs_size :: int

definition mk_change :: "str \<Rightarrow> change_kind \<Rightarrow> file_change" where
  "mk_change p k = \<lparr>fc_path = p, fc_kind = k\<rparr>"

definition changed_file ::
  "(str \<Rightarrow> file_stat option) \<Rightarrow> (str, int \<times> int \<times> int) hmap \<Rightarrow> int \<Rightarrow> str \<Rightarrow> file_change option" where
  "changed_file stat indexed_meta version path =
     (case stat path of
        None \<Rightarrow> None
      | Some st \<Rightarrow>
          (case hm_get path indexed_meta of
             None \<Rightarrow> Some (mk_change path Added)
           | Some (mtime, bytes, chunker_version) \<Rightarrow>
               (if fs_mtime st \<noteq> mtime \<or> fs_size st \<noteq> bytes \<or> chunker_version \<noteq> version
                then Some (mk_change path Modified) else None)))"

definition detect_changes ::
  "(str \<Rightarrow> file_stat option) \<Rightarrow> str list \<Rightarrow> (str, int \<times> int \<times> int) hmap \<Rightarrow> int \<Rightarrow> file_change list" where
  "detect_changes stat current_files indexed_meta version =
     List.map_filter (changed_file stat indexed_meta version) current_files
     @ map (\<lambda>p. mk_change p Deleted) (filter (\<lambda>p. p \<notin> set current_files) (hm_keys indexed_meta))"

lemma set_map_filter: "set (List.map_filter f xs) = {y. \<exists>x \<in> set xs. f x = Some y}"
  by (auto simp: List.map_filter_def image_iff) force

lemma changed_file_path: "changed_file stat m v p = Some c \<Longrightarrow> fc_path c = p \<and> fc_kind c \<noteq> Deleted"
  by (auto simp: changed_file_def mk_change_def split: option.splits if_splits)

lemma distinct_map_filter_path:
  "distinct xs \<Longrightarrow> distinct (map fc_path (List.map_filter (changed_file stat m v) xs))"
proof (induction xs)
  case Nil
  then show ?case by (simp add: List.map_filter_def)
next
  case (Cons x xs)
  have "x \<notin> fc_path ` set (List.map_filter (changed_file stat m v) xs)"
    using Cons.prems changed_file_path [of stat m v] by (auto simp: set_map_filter)
  with Cons show ?case by (cases "changed_file stat m v x")
      (auto simp: List.map_filter_simps dest: changed_file_path)
qed

definition up_to_date ::
  "(str \<Rightarrow> file_stat option) \<Rightarrow> (str, int \<times> int \<times> int) hmap \<Rightarrow> int \<Rightarrow> str \<Rightarrow> bool" where
  "up_to_date stat m version p \<longleftrightarrow>
     (\<exists>st. stat p = Some st \<and> hm_get p m = Some (fs_mtime st, fs_size st, version))"

text \<open>One change per path, of the right kind: a file is reported added when it is on disk and not
  indexed, modified when its time, size or chunker version differs from the indexed one, deleted
  when it is indexed and no longer among the files of the repository, and not at all otherwise; a
  file that vanished between the walk and the \<open>stat\<close> is left for the next run.\<close>

theorem detect_changes_exact:
  assumes "distinct files" "hm_ok m"
  shows "distinct (map fc_path (detect_changes stat files m v))
    \<and> (mk_change p Added \<in> set (detect_changes stat files m v)
        \<longleftrightarrow> p \<in> set files \<and> stat p \<noteq> None \<and> hm_get p m = None)
    \<and> (mk_change p Modified \<in> set (detect_changes stat files m v)
        \<longleftrightarrow> p \<in> set files \<and> stat p \<noteq> None \<and> hm_get p m \<noteq> None \<and> \<not> up_to_date stat m v p)
    \<and> (mk_change p Deleted \<in> set (detect_changes stat files m v)
        \<longleftrightarrow> p \<notin> set files \<and> hm_get p m \<noteq> None)"
proof (intro conjI)
  show "distinct (map fc_path (detect_changes stat files m v))"
    using assms distinct_map_filter_path [of files stat m v]
    by (auto simp: detect_changes_def mk_change_def hm_ok_def distinct_map inj_on_def set_map_filter
        dest: changed_file_path)
  have path: "changed_file stat m v x = Some (mk_change p k) \<Longrightarrow> x = p \<and> k \<noteq> Deleted" for x k
    by (drule changed_file_path) (simp add: mk_change_def)
  then have kind: "mk_change p k \<in> set (detect_changes stat files m v) \<longleftrightarrow>
      (p \<in> set files \<and> changed_file stat m v p = Some (mk_change p k))
      \<or> (k = Deleted \<and> p \<in> set (hm_keys m) \<and> p \<notin> set files)" for k
    unfolding detect_changes_def set_append Un_iff set_map_filter mem_Collect_eq
    by (intro disj_cong) (blast, auto simp: mk_change_def)
  have key: "p \<in> set (hm_keys m) \<longleftrightarrow> hm_get p m \<noteq> None"
    by (auto simp: hm_keys_def hm_get_def map_of_eq_None_iff)
  have added: "changed_file stat m v p = Some (mk_change p Added) \<longleftrightarrow> stat p \<noteq> None \<and> hm_get p m = None"
    by (cases "stat p"; cases "hm_get p m") (auto simp: changed_file_def mk_change_def split: if_splits)
  have modified: "changed_file stat m v p = Some (mk_change p Modified) \<longleftrightarrow>
      stat p \<noteq> None \<and> hm_get p m \<noteq> None \<and> \<not> up_to_date stat m v p"
    by (cases "stat p"; cases "hm_get p m") (auto simp: changed_file_def mk_change_def up_to_date_def split: if_splits)
  show "mk_change p Added \<in> set (detect_changes stat files m v)
      \<longleftrightarrow> p \<in> set files \<and> stat p \<noteq> None \<and> hm_get p m = None"
    unfolding kind added by simp
  show "mk_change p Modified \<in> set (detect_changes stat files m v)
      \<longleftrightarrow> p \<in> set files \<and> stat p \<noteq> None \<and> hm_get p m \<noteq> None \<and> \<not> up_to_date stat m v p"
    unfolding kind modified by simp
  show "mk_change p Deleted \<in> set (detect_changes stat files m v)
      \<longleftrightarrow> p \<notin> set files \<and> hm_get p m \<noteq> None"
    unfolding kind key using path [of _ Deleted] by blast
qed

lemma detect_changes_exact_witness:
  "mk_change ''b'' Deleted \<in> set (detect_changes (\<lambda>_. None) [''a''] [(''b'', 1, 2, 3)] 4)"
  using detect_changes_exact [of "[''a'']" "[(''b'', 1, 2, 3)]" "\<lambda>_. None" 4 "''b''"]
  by (simp add: hm_ok_def hm_keys_def hm_get_def)

section \<open>Retries\<close>

text \<open>Durations in seconds.\<close>

definition BASE_DELAY :: nat where "BASE_DELAY = 60"
definition MAX_DELAY :: nat where "MAX_DELAY = 30 * 60"

record retry_state =
  rs_attempt :: u32
  rs_pending :: bool

type_synonym backoff = "(str, retry_state) hmap"

definition retry_default :: retry_state where
  "retry_default = \<lparr>rs_attempt = 0, rs_pending = False\<rparr>"

definition retry_schedule :: "str \<Rightarrow> backoff \<Rightarrow> nat option \<times> backoff" where
  "retry_schedule repo m =
     (let m = (if hm_contains repo m then m else hm_insert repo retry_default m);
          st = (case hm_get repo m of Some st \<Rightarrow> st | None \<Rightarrow> retry_default)
      in if rs_pending st then (None, m)
         else (Some (min (BASE_DELAY * unat (push_bit (unat (min (rs_attempt st) 16)) (1 :: u32))) MAX_DELAY),
               hm_update repo (\<lambda>st. st\<lparr>rs_pending := True, rs_attempt := saturating_add (rs_attempt st) 1\<rparr>) m))"

definition retry_fired :: "str \<Rightarrow> backoff \<Rightarrow> backoff" where
  "retry_fired repo m = hm_update repo (\<lambda>st. st\<lparr>rs_pending := False\<rparr>) m"

definition retry_reset :: "str \<Rightarrow> backoff \<Rightarrow> backoff" where
  "retry_reset repo m =
     (case hm_get repo m of
        None \<Rightarrow> m
      | Some st \<Rightarrow>
          (if rs_pending st then hm_update repo (\<lambda>st. st\<lparr>rs_attempt := 0\<rparr>) m else hm_remove repo m))"

text \<open>A failing repository: each retry is scheduled, fires, and its run fails again.\<close>

fun failing_runs :: "str \<Rightarrow> nat \<Rightarrow> backoff \<Rightarrow> nat option list \<times> backoff" where
  "failing_runs repo 0 m = ([], m)"
| "failing_runs repo (Suc n) m =
     (let r = failing_runs repo n m; s = retry_schedule repo (snd r)
      in (fst r @ [fst s], retry_fired repo (snd s)))"

definition attempts :: "nat \<Rightarrow> u32" where
  "attempts n = of_nat (min n (2 ^ 32 - 1))"

lemma attempts_Suc: "saturating_add (attempts n) 1 = attempts (Suc n)"
proof -
  have n: "unat (attempts n) = min n (2 ^ 32 - 1)" for n
    by (simp add: attempts_def unat_of_nat take_bit_nat_eq_self)
  have "unat (saturating_add (attempts n) 1) = unat (attempts (Suc n))"
    by (simp only: unat_saturating_add n) simp
  then show ?thesis by (simp only: word_unat_eq_iff)
qed

lemma delay_value:
  "min (BASE_DELAY * unat (push_bit (unat (min (attempts n) 16)) (1 :: u32))) MAX_DELAY = min (60 * 2 ^ n) 1800"
proof -
  have a: "unat (attempts n) = min n (2 ^ 32 - 1)"
    by (simp add: attempts_def unat_of_nat take_bit_nat_eq_self)
  have k: "unat (min (attempts n) 16) = min n 16"
    by (simp add: min_def word_le_nat_alt a)
  have "unat (push_bit (min n 16) (1 :: u32)) = 2 ^ min n 16"
  proof -
    have "(2 :: nat) ^ min n 16 < 2 ^ 32" by (rule power_strict_increasing) auto
    then have "unat (of_nat (2 ^ min n 16) :: u32) = 2 ^ min n 16"
      by (simp only: unat_of_nat) (simp add: take_bit_nat_eq_self)
    then show ?thesis by (simp add: push_bit_eq_mult)
  qed
  moreover have "min (60 * 2 ^ min n 16) 1800 = min (60 * 2 ^ n) (1800 :: nat)"
  proof (cases "n \<le> 16")
    case False
    then have "(2 :: nat) ^ 16 \<le> 2 ^ n" by (intro power_increasing) auto
    with False show ?thesis by (simp add: min_def)
  qed simp
  ultimately show ?thesis by (simp add: k BASE_DELAY_def MAX_DELAY_def)
qed

lemma failing_runs_state:
  assumes "hm_get repo m = None"
  shows "fst (failing_runs repo n m) = map (\<lambda>i. Some (min (60 * 2 ^ i) 1800)) [0..<n]
    \<and> (case hm_get repo (snd (failing_runs repo n m)) of
         None \<Rightarrow> n = 0 | Some st \<Rightarrow> rs_attempt st = attempts n \<and> \<not> rs_pending st)"
proof (induction n)
  case 0
  then show ?case by (simp add: assms)
next
  case (Suc n)
  show ?case
  proof (cases "hm_get repo (snd (failing_runs repo n m))")
    case None
    with Suc have "n = 0" by simp
    then show ?thesis using assms delay_value [of 0] attempts_Suc [of 0]
      by (simp add: retry_schedule_def retry_fired_def retry_default_def hm_contains_iff Let_def attempts_def)
  next
    case (Some st)
    with Suc show ?thesis using delay_value [of n] attempts_Suc [of n]
      by (simp add: retry_schedule_def retry_fired_def hm_contains_iff Let_def)
  qed
qed

text \<open>Backoff: the retries of a repository that keeps failing wait 60 s, 120 s, 240 s and so on, never more
  than 30 minutes however long it fails, and after a reset they start at 60 s again; while one retry is
  pending, no second one is scheduled.\<close>

theorem retry_delays:
  assumes "\<not> rs_pending (case hm_get repo m of Some st \<Rightarrow> st | None \<Rightarrow> retry_default)"
  shows "fst (failing_runs repo n (retry_reset repo m)) = map (\<lambda>i. Some (min (60 * 2 ^ i) 1800)) [0..<n]
    \<and> fst (retry_schedule repo (snd (retry_schedule repo m))) = None"
proof
  have "hm_get repo (retry_reset repo m) = None"
    using assms by (auto simp: retry_reset_def split: option.splits)
  then show "fst (failing_runs repo n (retry_reset repo m)) = map (\<lambda>i. Some (min (60 * 2 ^ i) 1800)) [0..<n]"
    by (simp add: failing_runs_state)
  show "fst (retry_schedule repo (snd (retry_schedule repo m))) = None"
    using assms by (auto simp: retry_schedule_def hm_contains_iff Let_def split: option.splits)
qed

lemma retry_delays_witness:
  "fst (failing_runs ''r'' 3 (retry_reset ''r'' [(''r'', \<lparr>rs_attempt = 7, rs_pending = False\<rparr>)]))
     = [Some 60, Some 120, Some 240]"
  using retry_delays [of "''r''" "[(''r'', \<lparr>rs_attempt = 7, rs_pending = False\<rparr>)]" 3]
  by (simp add: hm_get_def upt_rec)

section \<open>Rebuild reservations\<close>

definition guard_reserve :: "str \<Rightarrow> str list \<Rightarrow> bool \<times> str list" where
  "guard_reserve repo pending = (if repo \<in> set pending then (False, pending) else (True, repo # pending))"

definition guard_release :: "str \<Rightarrow> str list \<Rightarrow> str list" where
  "guard_release repo pending = filter (\<lambda>r. r \<noteq> repo) pending"

lemma guard_single_flight:
  "fst (guard_reserve r p) \<longleftrightarrow> r \<notin> set p"
  "\<not> fst (guard_reserve r (snd (guard_reserve r p)))"
  "fst (guard_reserve r (guard_release r p))"
  by (auto simp: guard_reserve_def guard_release_def)

end
