(* ===== verification/Call_Graph.thy ===== *)
theory Call_Graph
  imports Import_Resolver Source_Paths Symbols Index_Control
begin

text \<open>
  The call graph (\<open>src/indexing/pipeline.rs\<close>, \<open>src/store/ops.rs\<close>): the resolution of raw edges to
  symbols, the full pass over the stored edges (Phase 2), and the incremental pass over the blast radius
  of an edit.

  The database is the record \<open>graph\<close>: its tables in any order, each statement with its documented
  meaning. Files on disk, JSON, the iteration order of a hash set and the order of ties of
  \<open>sort_unstable_by\<close> are the record \<open>host\<close>. Indexes, progress reports and timings are left out.
\<close>

record symbol_pos =
  sp_fqn :: str
  sp_file :: str
  sp_name :: str
  sp_start :: int
  sp_end :: int

record raw_row =
  rr_from_file :: str
  rr_from_name :: str
  rr_from_fqn :: str
  rr_to_name :: str
  rr_kind :: str
  rr_line :: int
  rr_import :: "str option"

text \<open>A row of \<open>calls\<close>: in, out, line, in\_file, out\_file, in\_name, out\_name.\<close>

type_synonym call_row = "str \<times> str \<times> int \<times> str \<times> str \<times> str \<times> str"

record graph =
  g_symbols :: "symbol_pos list"
  g_raw :: "raw_row list"
  g_calls :: "call_row list"
  g_edges_resolved :: bool
  g_raw_complete :: bool

record host =
  read_file :: "str \<Rightarrow> str option"
  parse_json :: "str \<Rightarrow> json option"
  hash_order :: "str list \<Rightarrow> str list"
  unstable :: "(symbol_pos \<Rightarrow> symbol_pos \<Rightarrow> bool) \<Rightarrow> symbol_pos list \<Rightarrow> symbol_pos list"

definition host_ok :: "host \<Rightarrow> bool" where
  "host_ok h \<longleftrightarrow> unstable_sort (unstable h) \<and> (\<forall>xs. set (hash_order h xs) = set xs)"

section \<open>The candidate of an edge\<close>

definition prefer_non_generated :: "symbol_pos list \<Rightarrow> symbol_pos option" where
  "prefer_non_generated cs =
     (case find (\<lambda>c. \<not> is_generated_file (sp_file c)) cs of
        Some c \<Rightarrow> Some c
      | None \<Rightarrow> (case cs of [] \<Rightarrow> None | c # _ \<Rightarrow> Some c))"

definition unresolved_langs :: "lang list" where
  "unresolved_langs = [Other, Java, C, Cpp]"

definition import_level :: "host \<Rightarrow> symbol_pos list \<Rightarrow> str \<Rightarrow> str \<Rightarrow> symbol_pos option" where
  "import_level h candidates from_file imp =
     (let l = detect_language from_file in
      if l \<in> set unresolved_langs then None
      else
        (let file_set = hash_order h (map sp_file candidates) in
         case resolve_import_path (read_file h) (parse_json h) imp from_file l file_set of
           None \<Rightarrow> None
         | Some resolved_file \<Rightarrow>
             (case prefer_non_generated (filter (\<lambda>c. sp_file c = resolved_file) candidates) of
                Some c \<Rightarrow> Some c
              | None \<Rightarrow>
                  (case chase_reexports resolved_file (sp_name (hd candidates)) file_set 0 of
                     None \<Rightarrow> None
                   | Some reexport_file \<Rightarrow>
                       prefer_non_generated (filter (\<lambda>c. sp_file c = reexport_file) candidates)))))"

definition path_level :: "symbol_pos list \<Rightarrow> str \<Rightarrow> str \<Rightarrow> symbol_pos option" where
  "path_level candidates from_file imp =
     (if slash \<in> set imp then prefer_non_generated (filter (\<lambda>c. ends_with (sp_file c) imp) candidates)
      else
        (let from_dir = (case path_parent from_file of Some d \<Rightarrow> d | None \<Rightarrow> [])
         in prefer_non_generated (filter (\<lambda>c. path_parent (sp_file c) = Some from_dir) candidates)))"

definition or_option :: "'a option \<Rightarrow> 'a option \<Rightarrow> 'a option" where
  "or_option a b = (case a of Some x \<Rightarrow> Some x | None \<Rightarrow> b)"

definition select_best_candidate ::
  "host \<Rightarrow> symbol_pos list \<Rightarrow> str \<Rightarrow> str option \<Rightarrow> symbol_pos option" where
  "select_best_candidate h candidates from_file import_path =
     (if candidates = [] then None
      else or_option (case import_path of None \<Rightarrow> None | Some imp \<Rightarrow> import_level h candidates from_file imp)
          (or_option (case import_path of None \<Rightarrow> None | Some imp \<Rightarrow> path_level candidates from_file imp)
            (or_option (find (\<lambda>c. sp_file c = from_file) candidates)
               (prefer_non_generated candidates))))"

section \<open>Resolution of edges\<close>

definition pos_le :: "symbol_pos \<Rightarrow> symbol_pos \<Rightarrow> bool" where
  "pos_le a b \<longleftrightarrow> (sp_file a, sp_start a, sp_end a) \<le> (sp_file b, sp_start b, sp_end b)"

text \<open>\<open>name_bucket\<close>: the symbols of a name, in the order of \<open>pos_le\<close>.\<close>

type_synonym buckets = "str \<Rightarrow> symbol_pos list option"

definition name_bucket :: "host \<Rightarrow> symbol_pos list \<Rightarrow> buckets" where
  "name_bucket h symbols name =
     (let named = filter (\<lambda>s. sp_name s = name) symbols
      in if named = [] then None else Some (unstable h pos_le named))"

definition call_of :: "raw_row \<Rightarrow> symbol_pos \<Rightarrow> call_row" where
  "call_of r t = (rr_from_fqn r, sp_fqn t, rr_line r, rr_from_file r, sp_file t, rr_from_fqn r, sp_fqn t)"

definition resolve_row :: "host \<Rightarrow> buckets \<Rightarrow> raw_row \<Rightarrow> call_row option" where
  "resolve_row h b r =
     (case b (rr_to_name r) of
        None \<Rightarrow> None
      | Some candidates \<Rightarrow>
          (if candidates = [] then None
           else map_option (call_of r) (select_best_candidate h candidates (rr_from_file r) (rr_import r))))"

fun resolve_page_from_map :: "host \<Rightarrow> buckets \<Rightarrow> raw_row list \<Rightarrow> call_row list \<Rightarrow> call_row list" where
  "resolve_page_from_map h b [] edge_batch = edge_batch"
| "resolve_page_from_map h b (r # rows) edge_batch =
     resolve_page_from_map h b rows
       (case resolve_row h b r of None \<Rightarrow> edge_batch | Some c \<Rightarrow> edge_batch @ [c])"

definition WRITE_BATCH_SIZE :: nat where "WRITE_BATCH_SIZE = 512"
definition EDGE_RELATE_BATCH_SIZE :: nat where "EDGE_RELATE_BATCH_SIZE = 8192"

text \<open>Batches of calls on their way to the table: the rows written and the rows waiting.\<close>

type_synonym sink = "call_row list \<times> call_row list"

definition flush_when :: "nat \<Rightarrow> sink \<Rightarrow> sink" where
  "flush_when cap s = (if cap \<le> length (snd s) then (fst s @ snd s, []) else s)"

definition flush_edge_batch :: "sink \<Rightarrow> sink" where
  "flush_edge_batch s = (fst s @ snd s, [])"

text \<open>The page of the incremental pass looks its symbols up by name and flushes as it goes.\<close>

fun resolve_rows_flushing :: "host \<Rightarrow> buckets \<Rightarrow> nat \<Rightarrow> raw_row list \<Rightarrow> sink \<Rightarrow> sink" where
  "resolve_rows_flushing h b cap [] s = s"
| "resolve_rows_flushing h b cap (r # rows) s =
     resolve_rows_flushing h b cap rows
       (case resolve_row h b r of
          None \<Rightarrow> s
        | Some c \<Rightarrow> flush_when cap (fst s, snd s @ [c]))"

definition find_symbols_by_names_with_pos :: "symbol_pos list \<Rightarrow> str list \<Rightarrow> symbol_pos list" where
  "find_symbols_by_names_with_pos symbols names =
     (if names = [] then [] else filter (\<lambda>s. sp_name s \<in> set names) symbols)"

definition resolve_raw_edge_page :: "host \<Rightarrow> symbol_pos list \<Rightarrow> raw_row list \<Rightarrow> sink \<Rightarrow> sink" where
  "resolve_raw_edge_page h symbols page s =
     (let to_names = remdups (sort (map rr_to_name page));
          sym_rows = find_symbols_by_names_with_pos symbols to_names
      in resolve_rows_flushing h (name_bucket h sym_rows) WRITE_BATCH_SIZE page s)"

section \<open>Phase 2: the full pass\<close>

text \<open>
  The scan of \<open>raw_edge\<close>: pages of rows with \<open>from_file > cursor\<close> in that order. The last file of a full page may go
  on past it, so its rows are dropped and the file is read again whole.
\<close>

definition page_rows :: "nat \<Rightarrow> str \<Rightarrow> raw_row list \<Rightarrow> raw_row list" where
  "page_rows page cursor raw =
     take page (sort_key rr_from_file (filter (\<lambda>r. cursor < rr_from_file r) raw))"

definition whole_files :: "nat \<Rightarrow> raw_row list \<Rightarrow> raw_row list \<Rightarrow> raw_row list" where
  "whole_files page raw batch =
     (let page_last = rr_from_file (last batch)
      in if length batch = page
         then filter (\<lambda>r. rr_from_file r \<noteq> page_last) batch @ filter (\<lambda>r. rr_from_file r = page_last) raw
         else batch)"

lemma page_rows_mem: "r \<in> set (page_rows page cursor raw) \<Longrightarrow> r \<in> set raw \<and> cursor < rr_from_file r"
  unfolding page_rows_def by (drule in_set_takeD) simp

function scan_pages :: "nat \<Rightarrow> str \<Rightarrow> raw_row list \<Rightarrow> raw_row list list" where
  "scan_pages page cursor raw =
     (let batch = page_rows page cursor raw in
      if batch = [] then []
      else whole_files page raw batch # scan_pages page (rr_from_file (last batch)) raw)"
  by pat_completeness auto
termination
proof (relation "measure (\<lambda>(page, cursor, raw). length (filter (\<lambda>r. cursor < rr_from_file r) raw))")
  fix page cursor raw and batch
  assume b: "batch = page_rows page cursor raw" "batch \<noteq> []"
  then have last: "last batch \<in> set raw" "cursor < rr_from_file (last batch)"
    using page_rows_mem [of "last batch" page cursor raw] by auto
  let ?P = "\<lambda>c r. c < rr_from_file r"
  have "filter (?P (rr_from_file (last batch))) raw
      = filter (?P (rr_from_file (last batch))) (filter (?P cursor) raw)"
    using last(2) by (auto intro: filter_cong)
  moreover have "length (filter (?P (rr_from_file (last batch))) (filter (?P cursor) raw)) < length (filter (?P cursor) raw)"
    using last by (intro length_filter_less [of "last batch"]) auto
  ultimately show "((page, rr_from_file (last batch), raw), page, cursor, raw)
      \<in> measure (\<lambda>(page, cursor, raw). length (filter (\<lambda>r. cursor < rr_from_file r) raw))"
    by simp
qed simp

declare scan_pages.simps [simp del]

definition RAW_EDGE_SCAN_PAGE :: nat where "RAW_EDGE_SCAN_PAGE = 2048"

datatype abort = Cancelled

text \<open>The loop over the pages; \<open>cancelled n\<close> is the answer of the \<open>n\<close>-th cancellation check.\<close>

fun run_pages :: "host \<Rightarrow> buckets \<Rightarrow> (nat \<Rightarrow> bool) \<Rightarrow> nat \<Rightarrow> raw_row list list \<Rightarrow> sink \<Rightarrow> abort option \<times> sink" where
  "run_pages h b cancelled n [] s = (if cancelled n then (Some Cancelled, s) else (None, s))"
| "run_pages h b cancelled n (p # ps) s =
     (if cancelled n then (Some Cancelled, s)
      else run_pages h b cancelled (n + 1) ps
        (flush_when EDGE_RELATE_BATCH_SIZE (fst s, resolve_page_from_map h b p (snd s))))"

definition resolve_edges_phase2 :: "host \<Rightarrow> (nat \<Rightarrow> bool) \<Rightarrow> graph \<Rightarrow> abort option \<times> graph" where
  "resolve_edges_phase2 h cancelled g =
     (let g = g\<lparr>g_calls := []\<rparr> in
      if g_raw g = [] then (None, g\<lparr>g_edges_resolved := True\<rparr>)
      else
        (let pages = scan_pages RAW_EDGE_SCAN_PAGE [] (g_raw g);
             r = run_pages h (name_bucket h (g_symbols g)) cancelled 0 pages ([], [])
         in case fst r of
              Some e \<Rightarrow> (Some e, g\<lparr>g_calls := fst (snd r)\<rparr>)
            | None \<Rightarrow> (None, g\<lparr>g_calls := fst (flush_edge_batch (snd r)), g_edges_resolved := True\<rparr>)))"

section \<open>The full pass in memory\<close>

text \<open>\<open>buffer_insert_symbol\<close>: the last symbol of a qualified name wins, as in the table.\<close>

definition symbol_pos_of :: "symbol \<Rightarrow> symbol_pos" where
  "symbol_pos_of s =
     \<lparr>sp_fqn = fqn (sym_qualified s), sp_file = qs_file (sym_qualified s), sp_name = qs_name (sym_qualified s),
      sp_start = int (sym_line_start s), sp_end = int (sym_line_end s)\<rparr>"

definition buffer_insert_symbol :: "(str, symbol_pos) hmap \<Rightarrow> symbol \<Rightarrow> (str, symbol_pos) hmap" where
  "buffer_insert_symbol buf s = hm_insert (fqn (sym_qualified s)) (symbol_pos_of s) buf"

text \<open>Cancellation is checked every \<open>EDGE_RELATE_BATCH_SIZE\<close> edges.\<close>

fun run_ram :: "host \<Rightarrow> buckets \<Rightarrow> (nat \<Rightarrow> bool) \<Rightarrow> nat \<Rightarrow> raw_row list \<Rightarrow> sink \<Rightarrow> abort option \<times> sink" where
  "run_ram h b cancelled i [] s = (None, s)"
| "run_ram h b cancelled i (re # res) s =
     (if i mod EDGE_RELATE_BATCH_SIZE = 0 \<and> cancelled (i div EDGE_RELATE_BATCH_SIZE) then (Some Cancelled, s)
      else run_ram h b cancelled (i + 1) res
        (case resolve_row h b re of
           None \<Rightarrow> s
         | Some c \<Rightarrow> flush_when EDGE_RELATE_BATCH_SIZE (fst s, snd s @ [c])))"

definition resolve_edges_from_ram ::
  "host \<Rightarrow> (nat \<Rightarrow> bool) \<Rightarrow> raw_row list \<Rightarrow> (str, symbol_pos) hmap option \<Rightarrow> graph \<Rightarrow> abort option \<times> graph" where
  "resolve_edges_from_ram h cancelled raw_edges ram_symbols g =
     (if raw_edges = [] then (None, g\<lparr>g_edges_resolved := True\<rparr>)
      else
        (let all_symbols = (case ram_symbols of Some buf \<Rightarrow> map snd buf | None \<Rightarrow> g_symbols g);
             r = run_ram h (name_bucket h all_symbols) cancelled 0 raw_edges (g_calls g, [])
         in case fst r of
              Some e \<Rightarrow> (Some e, g\<lparr>g_calls := fst (snd r)\<rparr>)
            | None \<Rightarrow> (None, g\<lparr>g_calls := fst (flush_edge_batch (snd r)), g_edges_resolved := True\<rparr>)))"

section \<open>The surface of an edit\<close>

type_synonym file_surface = "str \<Rightarrow> (str \<times> str) set option"

definition load_file_surface :: "symbol_pos list \<Rightarrow> str list \<Rightarrow> file_surface" where
  "load_file_surface symbols files file =
     (let own = filter (\<lambda>s. sp_file s = file) symbols
      in if file \<in> set files \<and> own \<noteq> [] then Some (set (map (\<lambda>s. (sp_name s, sp_fqn s)) own)) else None)"

definition surface_or_empty :: "file_surface \<Rightarrow> str \<Rightarrow> (str \<times> str) set" where
  "surface_or_empty surface file = (case surface file of Some s \<Rightarrow> s | None \<Rightarrow> {})"

record surface_delta =
  removed_surface_files :: "str list"
  added_names :: "str list"

definition compute_surface_delta ::
  "file_surface \<Rightarrow> file_surface \<Rightarrow> str list \<Rightarrow> str list \<Rightarrow> surface_delta" where
  "compute_surface_delta old new modified_files deleted_files =
     \<lparr>removed_surface_files =
        remdups (sort (filter (\<lambda>f. surface_or_empty old f - surface_or_empty new f \<noteq> {}) modified_files
          @ deleted_files)),
      added_names =
        sorted_list_of_set
          (\<Union>f \<in> set modified_files. fst ` (surface_or_empty new f - surface_or_empty old f))\<rparr>"

section \<open>The incremental pass\<close>

definition exceeds_incremental_phase2_budget :: "nat \<Rightarrow> nat \<Rightarrow> bool" where
  "exceeds_incremental_phase2_budget resolve_set_len indexed_files \<longleftrightarrow>
     64 \<le> resolve_set_len \<and> indexed_files < min (resolve_set_len * 8) (2 ^ 64 - 1)"

text \<open>The files of the resolve set in order, each once.\<close>

fun push_new :: "str list \<Rightarrow> str list \<Rightarrow> str list" where
  "push_new acc [] = acc"
| "push_new acc (f # fs) = push_new (if f \<in> set acc then acc else acc @ [f]) fs"

definition callers_of_name :: "raw_row list \<Rightarrow> str \<Rightarrow> str list" where
  "callers_of_name raw name = remdups (map rr_from_file (filter (\<lambda>r. rr_to_name r = name) raw))"

definition build_resolve_set :: "graph \<Rightarrow> str list \<Rightarrow> str list \<Rightarrow> str list \<Rightarrow> str list" where
  "build_resolve_set g changed_files dir1_callers new_names =
     push_new (push_new [] (changed_files @ dir1_callers)) (concat (map (callers_of_name (g_raw g)) new_names))"

definition CALLS_DELETE_TXN_CHUNK :: nat where "CALLS_DELETE_TXN_CHUNK = 200"
definition INCREMENTAL_PHASE2_FILE_BATCH :: nat where "INCREMENTAL_PHASE2_FILE_BATCH = 16"

definition call_in_file :: "call_row \<Rightarrow> str" where
  "call_in_file c = (case c of (_, _, _, in_file, _, _, _) \<Rightarrow> in_file)"

definition call_out_file :: "call_row \<Rightarrow> str" where
  "call_out_file c = (case c of (_, _, _, _, out_file, _, _) \<Rightarrow> out_file)"

text \<open>Step 2: the outgoing calls of the resolve set, a chunk of files per transaction.\<close>

fun delete_calls :: "(nat \<Rightarrow> bool) \<Rightarrow> nat \<Rightarrow> str list list \<Rightarrow> call_row list \<Rightarrow> (abort option \<times> nat) \<times> call_row list" where
  "delete_calls cancelled n [] calls = ((None, n), calls)"
| "delete_calls cancelled n (files # rest) calls =
     (if cancelled n then ((Some Cancelled, n), calls)
      else delete_calls cancelled (n + 1) rest (filter (\<lambda>c. call_in_file c \<notin> set files) calls))"

text \<open>Step 3: the raw edges of a batch of files, in pages.\<close>

fun reresolve_batches ::
  "host \<Rightarrow> graph \<Rightarrow> (nat \<Rightarrow> bool) \<Rightarrow> nat \<Rightarrow> str list list \<Rightarrow> sink \<Rightarrow> abort option \<times> sink" where
  "reresolve_batches h g cancelled n [] s = (None, s)"
| "reresolve_batches h g cancelled n (files # rest) s =
     (if cancelled n then (Some Cancelled, s)
      else
        (let rows = filter (\<lambda>r. rr_from_file r \<in> set files) (g_raw g)
         in reresolve_batches h g cancelled (n + 1) rest
              (foldl (\<lambda>s page. resolve_raw_edge_page h (g_symbols g) page s) s
                (chunks_of WRITE_BATCH_SIZE rows))))"

definition reresolve_files :: "host \<Rightarrow> (nat \<Rightarrow> bool) \<Rightarrow> str list \<Rightarrow> graph \<Rightarrow> abort option \<times> graph" where
  "reresolve_files h cancelled resolve_set g =
     (let d = delete_calls cancelled 0 (chunks_of CALLS_DELETE_TXN_CHUNK resolve_set) (g_calls g)
      in case fst (fst d) of
           Some e \<Rightarrow> (Some e, g\<lparr>g_calls := snd d\<rparr>)
         | None \<Rightarrow>
             (let r = reresolve_batches h g cancelled (snd (fst d))
                        (chunks_of INCREMENTAL_PHASE2_FILE_BATCH resolve_set) (snd d, [])
              in case fst r of
                   Some e \<Rightarrow> (Some e, g\<lparr>g_calls := fst (snd r)\<rparr>)
                 | None \<Rightarrow> (None, g\<lparr>g_calls := fst (flush_edge_batch (snd r))\<rparr>)))"

definition resolve_edges_incremental_with ::
  "host \<Rightarrow> (nat \<Rightarrow> bool) \<Rightarrow> str list \<Rightarrow> str list \<Rightarrow> str list \<Rightarrow> nat option \<Rightarrow> graph \<Rightarrow> abort option \<times> graph" where
  "resolve_edges_incremental_with h cancelled changed_files dir1_callers new_names indexed_files g =
     (if changed_files = [] then (None, g)
      else
        (let resolve_set = build_resolve_set g changed_files dir1_callers new_names
         in if (case indexed_files of None \<Rightarrow> False
                | Some indexed \<Rightarrow> exceeds_incremental_phase2_budget (length resolve_set) indexed)
            then resolve_edges_phase2 h cancelled g
            else reresolve_files h cancelled resolve_set g))"

section \<open>An incremental run\<close>

text \<open>
  The part of \<open>incremental_run\<close> that concerns the graph. What the streaming stage wrote before it ended
  is an argument (the symbols and raw edges of processed files, whether it failed), and so are the raw
  edges that an edge heal would parse from the indexed files, a chunk of files at a time.
\<close>

definition delete_files_data_incremental :: "str list \<Rightarrow> graph \<Rightarrow> graph" where
  "delete_files_data_incremental paths g =
     g\<lparr>g_symbols := filter (\<lambda>s. sp_file s \<notin> set paths) (g_symbols g),
       g_raw := filter (\<lambda>r. rr_from_file r \<notin> set paths) (g_raw g)\<rparr>"

record streamed =
  st_symbols :: "symbol_pos list"
  st_raw :: "raw_row list"
  st_failed :: bool

text \<open>\<open>INSERT ... ON DUPLICATE KEY UPDATE\<close> by qualified name.\<close>

definition upsert_symbol :: "symbol_pos \<Rightarrow> symbol_pos list \<Rightarrow> symbol_pos list" where
  "upsert_symbol s table = filter (\<lambda>t. sp_fqn t \<noteq> sp_fqn s) table @ [s]"

definition write_streamed :: "streamed \<Rightarrow> graph \<Rightarrow> graph" where
  "write_streamed st g =
     g\<lparr>g_symbols := fold upsert_symbol (st_symbols st) (g_symbols g), g_raw := g_raw g @ st_raw st\<rparr>"

definition dir1_callers :: "graph \<Rightarrow> str list \<Rightarrow> str list \<Rightarrow> str list" where
  "dir1_callers g removed affected =
     remdups (map call_in_file (filter (\<lambda>c. call_out_file c \<in> set removed \<and> call_in_file c \<notin> set affected) (g_calls g)))"

datatype run_error = Aborted | Streaming_Failed | Left_Intact | Statement_Failed

section \<open>Edge heal and full rebuild\<close>

definition MAX_RAM_EDGES :: nat where "MAX_RAM_EDGES = 8000000"

fun heal_chunks :: "(nat \<Rightarrow> bool) \<Rightarrow> nat \<Rightarrow> raw_row list list \<Rightarrow> raw_row list \<times> raw_row list option
    \<Rightarrow> abort option \<times> raw_row list \<times> raw_row list option" where
  "heal_chunks cancelled n [] acc = (None, acc)"
| "heal_chunks cancelled n (edges # rest) (raw, ram) =
     (if cancelled n then (Some Cancelled, raw, ram)
      else heal_chunks cancelled (n + 1) rest
        (raw @ edges,
         case ram of None \<Rightarrow> None
         | Some buf \<Rightarrow> if length buf + length edges \<le> MAX_RAM_EDGES then Some (buf @ edges) else None))"

definition heal_edges :: "host \<Rightarrow> (nat \<Rightarrow> bool) \<Rightarrow> raw_row list list \<Rightarrow> graph \<Rightarrow> abort option \<times> graph" where
  "heal_edges h cancelled parsed g =
     (let g = g\<lparr>g_raw_complete := False, g_edges_resolved := False, g_raw := []\<rparr>;
          r = heal_chunks cancelled 0 parsed ([], Some []);
          g = g\<lparr>g_raw := fst (snd r)\<rparr>
      in case fst r of
           Some e \<Rightarrow> (Some e, g)
         | None \<Rightarrow>
             (let g = g\<lparr>g_raw_complete := True\<rparr>; later = (\<lambda>k. cancelled (length parsed + k))
              in case snd (snd r) of
                   Some edges \<Rightarrow> resolve_edges_from_ram h later edges None (g\<lparr>g_calls := []\<rparr>)
                 | None \<Rightarrow> resolve_edges_phase2 h later g))"

text \<open>The buffers of stage 3 of a full rebuild: each is dropped for good when it would pass its cap.\<close>

record ram =
  ram_symbols :: "(str, symbol_pos) hmap option"
  ram_edges :: "raw_row list option"

fun buffer_symbols :: "nat \<Rightarrow> symbol list \<Rightarrow> (str, symbol_pos) hmap \<Rightarrow> (str, symbol_pos) hmap option" where
  "buffer_symbols max_ram_symbols [] buf = Some buf"
| "buffer_symbols max_ram_symbols (s # ss) buf =
     (if \<not> hm_contains (fqn (sym_qualified s)) buf \<and> max_ram_symbols \<le> length buf then None
      else buffer_symbols max_ram_symbols ss (buffer_insert_symbol buf s))"

definition buffer_file :: "nat \<Rightarrow> symbol list \<times> raw_row list \<Rightarrow> ram \<Rightarrow> ram" where
  "buffer_file max_ram_symbols ef r =
     \<lparr>ram_symbols = Option.bind (ram_symbols r) (buffer_symbols max_ram_symbols (fst ef)),
      ram_edges = Option.bind (ram_edges r)
        (\<lambda>buf. if length buf + length (snd ef) \<le> MAX_RAM_EDGES then Some (buf @ snd ef) else None)\<rparr>"

text \<open>What a full rebuild meets outside the streaming stage and Phase 2: a cancel before it starts, the
  answer to its embedding probe (the lengths of the vectors), and the database statements that fail.
  Of the nine statements of \<open>delete_all_data\<close> the first \<open>rb_deletes\<close> succeed.\<close>

datatype preflight = No_Client | Probe_Error | Probe_Vectors "nat list"

record rebuild_env =
  rb_cancelled :: bool
  rb_preflight :: preflight
  rb_identity_read :: bool
  rb_markers_deleted :: bool
  rb_epoch_bumped :: bool
  rb_deletes :: nat
  rb_resolved_deleted :: bool
  rb_streamed :: bool
  rb_raw_marked :: bool
  rb_identity_marked :: bool

definition preflight_ok :: "preflight \<Rightarrow> bool" where
  "preflight_ok p =
     (case p of
        No_Client \<Rightarrow> True
      | Probe_Error \<Rightarrow> False
      | Probe_Vectors lens \<Rightarrow> (case lens of [n] \<Rightarrow> n \<noteq> 0 | _ \<Rightarrow> False))"

definition DELETE_STATEMENTS :: nat where "DELETE_STATEMENTS = 9"

text \<open>In the order of the statements: the calls first, the raw edges sixth, the symbols seventh.\<close>

definition delete_all_data :: "nat \<Rightarrow> graph \<Rightarrow> graph" where
  "delete_all_data k g =
     g\<lparr>g_calls := (if 1 \<le> k then [] else g_calls g), g_raw := (if 6 \<le> k then [] else g_raw g),
       g_symbols := (if 7 \<le> k then [] else g_symbols g)\<rparr>"

definition rebuild_phase2 ::
  "host \<Rightarrow> (nat \<Rightarrow> bool) \<Rightarrow> nat \<Rightarrow> (symbol list \<times> raw_row list) list \<Rightarrow> graph \<Rightarrow> abort option \<times> graph" where
  "rebuild_phase2 h cancelled max_ram_symbols files g =
     (let buf = fold (buffer_file max_ram_symbols) files \<lparr>ram_symbols = Some [], ram_edges = Some []\<rparr>
      in case ram_edges buf of
           Some edges \<Rightarrow>
             (if edges \<noteq> [] then resolve_edges_from_ram h cancelled edges (ram_symbols buf) g
              else resolve_edges_phase2 h cancelled g)
         | None \<Rightarrow> resolve_edges_phase2 h cancelled g)"

definition full_rebuild ::
  "host \<Rightarrow> (nat \<Rightarrow> bool) \<Rightarrow> nat \<Rightarrow> (symbol list \<times> raw_row list) list \<Rightarrow> rebuild_env \<Rightarrow> graph \<Rightarrow> run_error option \<times> graph" where
  "full_rebuild h cancelled max_ram_symbols files env g =
     (if rb_cancelled env \<or> \<not> preflight_ok (rb_preflight env) then (Some Left_Intact, g)
      else if \<not> rb_identity_read env \<or> \<not> rb_markers_deleted env then (Some Statement_Failed, g)
      else
        (let g = g\<lparr>g_raw_complete := False\<rparr>
         in if \<not> rb_epoch_bumped env then (Some Statement_Failed, g)
            else
              (let g = delete_all_data (rb_deletes env) g
               in if rb_deletes env < DELETE_STATEMENTS then (Some Statement_Failed, g)
                  else
                    (let g = g\<lparr>g_edges_resolved := (\<not> rb_resolved_deleted env \<and> g_edges_resolved g)\<rparr>;
                         g = write_streamed \<lparr>st_symbols = map symbol_pos_of (concat (map fst files)),
                               st_raw = concat (map snd files), st_failed = \<not> rb_streamed env\<rparr> g
                     in if \<not> rb_streamed env then (Some Streaming_Failed, g)
                        else if \<not> rb_raw_marked env then (Some Statement_Failed, g)
                        else
                          (let g = g\<lparr>g_raw_complete := True\<rparr>
                           in if \<not> rb_identity_marked env then (Some Statement_Failed, g)
                              else
                                (let r = rebuild_phase2 h cancelled max_ram_symbols files g
                                 in (case fst r of Some e \<Rightarrow> Some Aborted | None \<Rightarrow> None, snd r)))))))"

definition incremental_run ::
  "host \<Rightarrow> (nat \<Rightarrow> bool) \<Rightarrow> raw_row list list \<Rightarrow> streamed \<Rightarrow> nat \<Rightarrow> file_change list \<Rightarrow> graph
     \<Rightarrow> run_error option \<times> graph" where
  "incremental_run h cancelled parsed st indexed_files changes g =
     (let to_process = map fc_path (filter (\<lambda>c. fc_kind c \<noteq> Deleted) changes);
          to_delete = map fc_path (filter (\<lambda>c. fc_kind c = Deleted) changes);
          all_affected = to_delete @ to_process;
          old_surface = load_file_surface (g_symbols g) to_process;
          prior_graph_complete = g_edges_resolved g;
          g1 = delete_files_data_incremental all_affected (g\<lparr>g_edges_resolved := False\<rparr>);
          g2 = write_streamed st g1
      in if st_failed st then (Some Streaming_Failed, g2)
         else
           (let new_surface = load_file_surface (g_symbols g2) to_process;
                delta = compute_surface_delta old_surface new_surface to_process to_delete;
                scoped_phase2 = (g_raw_complete g2 \<and> prior_graph_complete);
                callers = (if \<not> scoped_phase2 \<or> removed_surface_files delta = [] then []
                           else dir1_callers g2 (removed_surface_files delta) all_affected);
                r = (if scoped_phase2 then
                       (let r = resolve_edges_incremental_with h cancelled all_affected callers (added_names delta)
                                  (Some indexed_files) g2
                        in case fst r of Some e \<Rightarrow> r | None \<Rightarrow> (None, (snd r)\<lparr>g_edges_resolved := True\<rparr>))
                     else if g_raw_complete g2 then resolve_edges_phase2 h cancelled g2
                     else heal_edges h cancelled parsed g2)
            in (case fst r of Some e \<Rightarrow> Some Aborted | None \<Rightarrow> None, snd r)))"

text \<open>A run that finds no changes completes what an earlier one left open.\<close>

definition no_change_run ::
  "host \<Rightarrow> (nat \<Rightarrow> bool) \<Rightarrow> raw_row list list \<Rightarrow> graph \<Rightarrow> abort option \<times> graph" where
  "no_change_run h cancelled parsed g =
     (if \<not> g_raw_complete g then heal_edges h cancelled parsed g
      else if \<not> g_edges_resolved g then resolve_edges_phase2 h cancelled g
      else (None, g))"

end
