(* ===== verification/Edge_Resolution.thy ===== *)
theory Edge_Resolution
  imports Call_Graph
begin

text \<open>
  What the call graph is worth: the passes of \<open>Call_Graph\<close> write the resolution of every raw edge, the
  memory pass and the database pass agree, and the incremental pass leaves the graph a full pass would build; what a full rebuild leaves when it
  stops early is stated for every failure of its environment but those inside Phase 2.
\<close>

section \<open>Batches\<close>

definition resolved_rows :: "host \<Rightarrow> buckets \<Rightarrow> raw_row list \<Rightarrow> call_row list" where
  "resolved_rows h b rows = List.map_filter (resolve_row h b) rows"

lemma resolved_rows_simps [simp]:
  "resolved_rows h b [] = []"
  "resolved_rows h b (r # rows) = (case resolve_row h b r of None \<Rightarrow> [] | Some c \<Rightarrow> [c]) @ resolved_rows h b rows"
  "resolved_rows h b (xs @ ys) = resolved_rows h b xs @ resolved_rows h b ys"
  by (auto simp: resolved_rows_def List.map_filter_def split: option.split)

lemma resolved_rows_concat: "resolved_rows h b (concat xss) = concat (map (resolved_rows h b) xss)"
  by (induction xss) auto

lemma resolved_rows_cong: "(\<And>r. r \<in> set rows \<Longrightarrow> resolve_row h b r = resolve_row h b' r) \<Longrightarrow>
    resolved_rows h b rows = resolved_rows h b' rows"
  by (induction rows) auto

lemma mset_resolved_rows: "mset xs = mset ys \<Longrightarrow> mset (resolved_rows h b xs) = mset (resolved_rows h b ys)"
proof -
  have "mset (resolved_rows h b zs) = image_mset (the \<circ> resolve_row h b) (filter_mset (\<lambda>r. resolve_row h b r \<noteq> None) (mset zs))" for zs
    by (induction zs) (auto split: option.split)
  then show "mset xs = mset ys \<Longrightarrow> mset (resolved_rows h b xs) = mset (resolved_rows h b ys)" by simp
qed

lemma resolve_page_from_map_eq: "resolve_page_from_map h b rows batch = batch @ resolved_rows h b rows"
  by (induction h b rows batch rule: resolve_page_from_map.induct) (auto split: option.split)

definition sink_all :: "sink \<Rightarrow> call_row list" where
  "sink_all s = fst s @ snd s"

lemma sink_flush_when [simp]: "sink_all (flush_when cap s) = sink_all s"
  by (simp add: sink_all_def flush_when_def)

lemma sink_flush [simp]: "fst (flush_edge_batch s) = sink_all s"
  by (simp add: sink_all_def flush_edge_batch_def)

lemma sink_snoc [simp]: "sink_all (fst s, snd s @ cs) = sink_all s @ cs"
  by (simp add: sink_all_def)

lemma resolve_rows_flushing_all: "sink_all (resolve_rows_flushing h b cap rows s) = sink_all s @ resolved_rows h b rows"
  by (induction h b cap rows s rule: resolve_rows_flushing.induct) (auto split: option.split)

lemma run_pages_all:
  "fst (run_pages h b cancelled n ps s) = None \<Longrightarrow>
   sink_all (snd (run_pages h b cancelled n ps s)) = sink_all s @ resolved_rows h b (concat ps)"
proof (induction h b cancelled n ps s rule: run_pages.induct)
  case (2 h b cancelled n p ps s)
  then show ?case
    by (cases "cancelled n") (simp_all add: resolve_page_from_map_eq)
qed (simp split: if_splits)

lemma run_ram_all:
  "fst (run_ram h b cancelled i res s) = None \<Longrightarrow>
   sink_all (snd (run_ram h b cancelled i res s)) = sink_all s @ resolved_rows h b res"
proof (induction h b cancelled i res s rule: run_ram.induct)
  case (2 h b cancelled i re res s)
  then show ?case
    by (cases "i mod EDGE_RELATE_BATCH_SIZE = 0 \<and> cancelled (i div EDGE_RELATE_BATCH_SIZE)")
      (auto split: option.splits)
qed simp

section \<open>The scan reads every row once\<close>

lemma sorted_last_key: "sorted (map f xs) \<Longrightarrow> x \<in> set xs \<Longrightarrow> f x \<le> (f (last xs) :: 'b::linorder)"
  by (induction xs) (auto split: if_splits)

lemma page_step:
  assumes "batch = page_rows page cursor raw" "batch \<noteq> []"
  shows "mset (whole_files page raw batch)
    = mset (filter (\<lambda>r. cursor < rr_from_file r \<and> rr_from_file r \<le> rr_from_file (last batch)) raw)"
proof -
  define S where "S = sort_key rr_from_file (filter (\<lambda>r. cursor < rr_from_file r) raw)"
  have b: "batch = take page S" by (simp add: assms(1) page_rows_def S_def)
  have sorted: "sorted (map rr_from_file S)" by (simp add: S_def)
  have mS: "mset S = mset (filter (\<lambda>r. cursor < rr_from_file r) raw)" by (simp add: S_def)
  let ?l = "rr_from_file (last batch)"
  have l: "cursor < ?l" using page_rows_mem [of "last batch" page cursor raw] assms by auto
  have S: "S = batch @ drop page S" by (simp add: b)
  have after: "?l \<le> rr_from_file y" if "y \<in> set (drop page S)" for y
  proof -
    have "sorted (map rr_from_file batch @ map rr_from_file (drop page S))"
      using sorted by (metis S map_append)
    then show ?thesis using that assms(2) by (auto simp: sorted_append)
  qed
  show ?thesis
  proof (cases "length batch = page")
    case True
    have "filter (\<lambda>r. rr_from_file r < ?l) (drop page S) = []"
      using after by (auto simp: filter_empty_conv not_less)
    then have low: "filter (\<lambda>r. rr_from_file r < ?l) S = filter (\<lambda>r. rr_from_file r < ?l) batch"
      by (subst S) simp
    have le: "rr_from_file r \<le> ?l" if "r \<in> set batch" for r
    proof -
      have "sorted (map rr_from_file batch)"
        using sorted by (metis S map_append sorted_append)
      then show ?thesis using that by (rule sorted_last_key)
    qed
    have "filter (\<lambda>r. rr_from_file r \<noteq> ?l) batch = filter (\<lambda>r. rr_from_file r < ?l) batch"
      by (rule filter_cong) (use le in \<open>auto simp: order.strict_iff_order\<close>)
    then have "mset (whole_files page raw batch)
      = filter_mset (\<lambda>r. rr_from_file r < ?l) (mset S) + mset (filter (\<lambda>r. rr_from_file r = ?l) raw)"
      using True low by (simp add: whole_files_def Let_def flip: mset_filter)
    also have "\<dots> = mset (filter (\<lambda>r. cursor < rr_from_file r \<and> rr_from_file r \<le> ?l) raw)"
      unfolding mS using l
      by (induction raw) (auto simp: order.strict_iff_order)
    finally show ?thesis .
  next
    case False
    then have "batch = S" using b by (auto simp: min_def split: if_splits)
    with False have w: "whole_files page raw batch = S" by (simp add: whole_files_def)
    have "rr_from_file r \<le> ?l" if "r \<in> set S" for r
      using sorted_last_key [OF sorted that] \<open>batch = S\<close> by simp
    then have "filter_mset (\<lambda>r. rr_from_file r \<le> ?l) (mset S) = mset S"
      by (simp add: filter_mset_eq_conv)
    then show ?thesis unfolding w by (simp add: mS filter_filter_mset conj_commute flip: mset_filter)
  qed
qed

lemma scan_pages_all:
  "mset (concat (scan_pages page cursor raw)) = mset (filter (\<lambda>r. cursor < rr_from_file r) raw)"
  if "0 < page"
  using that
proof (induction page cursor raw rule: scan_pages.induct)
  case (1 page cursor raw)
  define batch where "batch = page_rows page cursor raw"
  show ?case
  proof (cases "batch = []")
    case True
    then have "sort_key rr_from_file (filter (\<lambda>r. cursor < rr_from_file r) raw) = []"
      using "1.prems" by (simp add: batch_def page_rows_def)
    then have "filter (\<lambda>r. cursor < rr_from_file r) raw = []"
      by (metis length_0_conv length_sort)
    with True show ?thesis by (subst scan_pages.simps) (simp add: batch_def)
  next
    case False
    let ?l = "rr_from_file (last batch)"
    have l: "cursor < ?l" using page_rows_mem [of "last batch" page cursor raw] False by (auto simp: batch_def)
    have "mset (concat (scan_pages page cursor raw))
      = mset (whole_files page raw batch) + mset (concat (scan_pages page ?l raw))"
      using False by (subst scan_pages.simps) (simp add: batch_def Let_def)
    also have "\<dots> = mset (filter (\<lambda>r. cursor < rr_from_file r \<and> rr_from_file r \<le> ?l) raw)
        + mset (filter (\<lambda>r. ?l < rr_from_file r) raw)"
      using page_step [OF batch_def False] "1.IH" [OF batch_def False "1.prems"] by simp
    also have "\<dots> = mset (filter (\<lambda>r. cursor < rr_from_file r) raw)"
      using l by (induction raw) (auto simp: not_le)
    finally show ?thesis .
  qed
qed

text \<open>The paged scan of the stored edges ends, and its pages together hold every row exactly once, whatever
  the page size and the order of the table: a file that goes on past a full page is neither cut nor read twice,
  and the cursor passes each file once.\<close>

theorem scan_reads_each_row_once:
  assumes "0 < page" "list_all (\<lambda>r. rr_from_file r \<noteq> []) raw"
  shows "mset (concat (scan_pages page [] raw)) = mset raw"
proof -
  have "filter (\<lambda>r. [] < rr_from_file r) raw = raw"
    using assms(2) by (intro filter_True) (auto simp: list_all_iff neq_Nil_conv)
  with scan_pages_all [OF assms(1), of "[]" raw] show ?thesis by simp
qed

section \<open>A complete graph\<close>

definition all_calls :: "host \<Rightarrow> graph \<Rightarrow> call_row list" where
  "all_calls h g = resolved_rows h (name_bucket h (g_symbols g)) (g_raw g)"

definition complete :: "host \<Rightarrow> graph \<Rightarrow> bool" where
  "complete h g \<longleftrightarrow> mset (g_calls g) = mset (all_calls h g)"

definition real_paths :: "raw_row list \<Rightarrow> bool" where
  "real_paths rows \<longleftrightarrow> list_all (\<lambda>r. rr_from_file r \<noteq> []) rows"

lemma phase2_complete:
  assumes ok: "real_paths (g_raw g)" and run: "resolve_edges_phase2 h cancelled g = (None, g')"
  shows "complete h g' \<and> g_edges_resolved g' \<and> g_symbols g' = g_symbols g \<and> g_raw g' = g_raw g
    \<and> g_raw_complete g' = g_raw_complete g"
proof (cases "g_raw g = []")
  case True
  with run show ?thesis by (auto simp: resolve_edges_phase2_def complete_def all_calls_def)
next
  case False
  let ?pages = "scan_pages RAW_EDGE_SCAN_PAGE [] (g_raw g)" and ?b = "name_bucket h (g_symbols g)"
  let ?r = "run_pages h ?b cancelled 0 ?pages ([], [])"
  have none: "fst ?r = None" and g': "g' = g\<lparr>g_calls := sink_all (snd ?r), g_edges_resolved := True\<rparr>"
    using run False by (auto simp: resolve_edges_phase2_def Let_def split: option.splits)
  have "sink_all (snd ?r) = resolved_rows h ?b (concat ?pages)"
    using run_pages_all [OF none] by (simp add: sink_all_def)
  moreover have "mset (concat ?pages) = mset (g_raw g)"
  proof -
    have "filter (\<lambda>r. [] < rr_from_file r) (g_raw g) = g_raw g"
      using ok by (intro filter_True) (auto simp: real_paths_def list_all_iff neq_Nil_conv)
    then show ?thesis using scan_pages_all [of RAW_EDGE_SCAN_PAGE "[]" "g_raw g"]
      by (simp add: RAW_EDGE_SCAN_PAGE_def)
  qed
  ultimately show ?thesis using mset_resolved_rows [of "concat ?pages" "g_raw g" h ?b]
    by (simp add: g' complete_def all_calls_def)
qed

lemma phase2_marks: "g_edges_resolved g = False \<Longrightarrow> g_edges_resolved (snd (resolve_edges_phase2 h cancelled g)) \<Longrightarrow>
    fst (resolve_edges_phase2 h cancelled g) = None"
  by (auto simp: resolve_edges_phase2_def Let_def split: option.splits if_splits)

section \<open>Buckets do not depend on the order of the table\<close>

text \<open>Symbols of one name are told apart by their position.\<close>

definition clear_positions :: "symbol_pos list \<Rightarrow> bool" where
  "clear_positions ss \<longleftrightarrow>
     (\<forall>s \<in> set ss. \<forall>t \<in> set ss. sp_name s = sp_name t \<longrightarrow> pos_le s t \<longrightarrow> pos_le t s \<longrightarrow> s = t)"

lemma pos_le_preorder: "total_preorder_on pos_le A"
  unfolding total_preorder_on_def pos_le_def by (meson linear order_trans)

lemma pos_le_trans: "pos_le a b \<Longrightarrow> pos_le b c \<Longrightarrow> pos_le a c"
  unfolding pos_le_def by (rule order_trans)

lemma sorted_wrt_unique:
  assumes "sorted_wrt R xs" "sorted_wrt R ys" "mset xs = mset ys"
    and anti: "\<And>x y. x \<in> set xs \<Longrightarrow> y \<in> set xs \<Longrightarrow> R x y \<Longrightarrow> R y x \<Longrightarrow> x = y"
  shows "xs = ys"
  using assms
proof (induction xs arbitrary: ys)
  case Nil
  then show ?case by simp
next
  case (Cons x xs)
  then obtain y ys' where ys: "ys = y # ys'" by (cases ys) auto
  have sets: "set (x # xs) = set (y # ys')" using Cons.prems(3) ys by (metis set_mset_mset)
  have "x = y"
  proof (rule ccontr)
    assume ne: "x \<noteq> y"
    then have "y \<in> set xs" "x \<in> set ys'" using sets by auto
    then have "R x y" "R y x" using Cons.prems(1,2) ys by auto
    with ne Cons.prems(4) \<open>y \<in> set xs\<close> show False by auto
  qed
  moreover have "xs = ys'"
  proof (rule Cons.IH)
    show "mset xs = mset ys'" using Cons.prems(3) ys \<open>x = y\<close> by simp
  qed (use Cons.prems ys in auto)
  ultimately show ?case by (simp add: ys)
qed

lemma name_bucket_perm:
  assumes h: "host_ok h" and p: "mset ss = mset ts" and c: "clear_positions ss"
  shows "name_bucket h ss = name_bucket h ts"
proof (rule ext)
  fix n
  have us: "unstable_sort (unstable h)" using h by (simp add: host_ok_def)
  let ?A = "filter (\<lambda>s. sp_name s = n) ss" and ?B = "filter (\<lambda>s. sp_name s = n) ts"
  have m: "mset ?A = mset ?B" using p by simp
  have "unstable h pos_le ?A = unstable h pos_le ?B"
  proof (rule sorted_wrt_unique)
    show "sorted_wrt pos_le (unstable h pos_le ?A)" "sorted_wrt pos_le (unstable h pos_le ?B)"
      by (intro unstable_sort.srt_sorted [OF us] pos_le_preorder)+
    show "mset (unstable h pos_le ?A) = mset (unstable h pos_le ?B)" using m by (simp add: unstable_sort.srt_mset [OF us])
    show "x = y" if "x \<in> set (unstable h pos_le ?A)" "y \<in> set (unstable h pos_le ?A)" "pos_le x y" "pos_le y x" for x y
      using that c by (auto simp: unstable_sort.srt_set [OF us] clear_positions_def)
  qed
  moreover have "?A = [] \<longleftrightarrow> ?B = []" using m by (metis mset_zero_iff)
  ultimately show "name_bucket h ss n = name_bucket h ts n" by (simp add: name_bucket_def Let_def)
qed

section \<open>The buffers of a full rebuild are the tables\<close>

definition distinct_fqns :: "symbol_pos list \<Rightarrow> bool" where
  "distinct_fqns ss \<longleftrightarrow> distinct (map sp_fqn ss)"

lemma upsert_set: "set (upsert_symbol s T) = insert s {t \<in> set T. sp_fqn t \<noteq> sp_fqn s}"
  by (auto simp: upsert_symbol_def)

lemma upsert_distinct: "distinct_fqns T \<Longrightarrow> distinct_fqns (upsert_symbol s T)"
  by (auto simp: distinct_fqns_def upsert_symbol_def distinct_map inj_on_def)

lemma fold_upsert_distinct: "distinct_fqns T \<Longrightarrow> distinct_fqns (fold upsert_symbol ss T)"
  by (induction ss arbitrary: T) (auto simp: upsert_distinct)

definition mirrors :: "(str, symbol_pos) hmap \<Rightarrow> symbol_pos list \<Rightarrow> bool" where
  "mirrors buf T \<longleftrightarrow> hm_ok buf \<and> distinct_fqns T \<and> set buf = (\<lambda>s. (sp_fqn s, s)) ` set T"

lemma mirrors_insert: "mirrors buf T \<Longrightarrow> mirrors (buffer_insert_symbol buf s) (upsert_symbol (symbol_pos_of s) T)"
  by (auto simp: mirrors_def buffer_insert_symbol_def upsert_distinct set_hm_insert upsert_set symbol_pos_of_def)

lemma mirrors_buffer:
  "mirrors buf T \<Longrightarrow> buffer_symbols cap ss buf = Some buf' \<Longrightarrow> mirrors buf' (fold upsert_symbol (map symbol_pos_of ss) T)"
  by (induction cap ss buf arbitrary: T rule: buffer_symbols.induct) (auto split: if_splits intro: mirrors_insert)

lemma mirrors_mset: "mirrors buf T \<Longrightarrow> mset (map snd buf) = mset T"
proof -
  assume m: "mirrors buf T"
  have d: "distinct buf" using m by (auto simp: mirrors_def hm_ok_def hm_keys_def distinct_map)
  have "inj_on snd (set buf)" using m by (auto simp: mirrors_def inj_on_def)
  with d have "distinct (map snd buf)" by (simp add: distinct_map)
  moreover have "distinct T" using m by (simp add: mirrors_def distinct_fqns_def distinct_map)
  moreover have "set (map snd buf) = set T" using m by (auto simp: mirrors_def image_iff)
  ultimately show ?thesis by (metis set_eq_iff_mset_eq_distinct)
qed

lemma buffer_files:
  assumes "mirrors buf0 T" "ram_symbols r = Some buf0 \<or> ram_symbols r = None"
    "ram_edges r = Some E \<or> ram_edges r = None"
  shows "(case ram_symbols (fold (buffer_file cap) files r) of None \<Rightarrow> True
      | Some buf \<Rightarrow> mirrors buf (fold upsert_symbol (map symbol_pos_of (concat (map fst files))) T))
    \<and> (case ram_edges (fold (buffer_file cap) files r) of None \<Rightarrow> True
      | Some edges \<Rightarrow> edges = E @ concat (map snd files))"
  using assms
proof (induction files arbitrary: r buf0 T E)
  case Nil
  then show ?case by (auto split: option.split)
next
  case (Cons f fs)
  let ?r = "buffer_file cap f r" and ?T = "fold upsert_symbol (map symbol_pos_of (fst f)) T"
  have edges: "ram_edges ?r = Some (E @ snd f) \<or> ram_edges ?r = None"
    using Cons.prems(3) by (auto simp: buffer_file_def split: if_splits)
  show ?case
  proof (cases "ram_symbols ?r")
    case (Some buf1)
    then have "mirrors buf1 ?T"
      using Cons.prems(1,2) by (auto simp: buffer_file_def Option.bind_eq_Some_conv intro: mirrors_buffer)
    from Cons.IH [OF this disjI1 [OF Some] edges] show ?thesis by (simp cong: option.case_cong)
  next
    case None
    have none: "ram_symbols (fold (buffer_file cap) fs q) = None" if "ram_symbols q = None" for q
      using that by (induction fs arbitrary: q) (auto simp: buffer_file_def)
    obtain m where "mirrors m T" using Cons.prems(1) by blast
    from Cons.IH [OF this, of ?r "E @ snd f"] None edges none [OF None] show ?thesis by (simp cong: option.case_cong)
  qed
qed

definition streamed_files :: "(symbol list \<times> raw_row list) list \<Rightarrow> graph \<Rightarrow> graph" where
  "streamed_files files g =
     g\<lparr>g_symbols := fold upsert_symbol (map symbol_pos_of (concat (map fst files))) [],
       g_raw := concat (map snd files), g_calls := [], g_raw_complete := True\<rparr>"

text \<open>No statement outside Phase 2 fails and the run is not cancelled before it.\<close>

definition rebuild_starts :: "rebuild_env \<Rightarrow> bool" where
  "rebuild_starts env \<longleftrightarrow> \<not> rb_cancelled env \<and> preflight_ok (rb_preflight env) \<and> rb_identity_read env \<and> rb_markers_deleted env
     \<and> rb_epoch_bumped env \<and> DELETE_STATEMENTS \<le> rb_deletes env \<and> rb_streamed env \<and> rb_raw_marked env
     \<and> rb_identity_marked env"

text \<open>The marker of a resolved graph as Phase 2 finds it: its deletion is best effort.\<close>

definition kept_mark :: "rebuild_env \<Rightarrow> graph \<Rightarrow> graph" where
  "kept_mark env g = g\<lparr>g_edges_resolved := (\<not> rb_resolved_deleted env \<and> g_edges_resolved g)\<rparr>"

lemma full_rebuild_cases:
  assumes "rebuild_starts env"
  shows "full_rebuild h cancelled cap files env g =
     (let r = rebuild_phase2 h cancelled cap files (streamed_files files (kept_mark env g))
      in (case fst r of Some e \<Rightarrow> Some Aborted | None \<Rightarrow> None, snd r))"
proof -
  have "6 \<le> rb_deletes env" "7 \<le> rb_deletes env" "Suc 0 \<le> rb_deletes env" "\<not> rb_deletes env < DELETE_STATEMENTS"
    using assms by (simp_all add: rebuild_starts_def DELETE_STATEMENTS_def)
  then show ?thesis
    using assms
    by (cases g) (simp add: full_rebuild_def rebuild_starts_def delete_all_data_def write_streamed_def streamed_files_def
        kept_mark_def Let_def)
qed

text \<open>A rebuild that ends before Phase 2 leaves the graph as it was, or without the mark of complete raw
  edges, or without that of resolved ones.\<close>

lemma rebuild_stops:
  assumes "\<not> rebuild_starts env"
  shows "\<exists>e. fst (full_rebuild h cancelled cap files env g) = Some e"
    and "snd (full_rebuild h cancelled cap files env g) = g
      \<or> (rb_resolved_deleted env \<or> \<not> g_edges_resolved g
          \<longrightarrow> \<not> (g_raw_complete (snd (full_rebuild h cancelled cap files env g))
                \<and> g_edges_resolved (snd (full_rebuild h cancelled cap files env g))))"
  using assms
  by (auto simp: full_rebuild_def rebuild_starts_def delete_all_data_def write_streamed_def Let_def)

lemma from_ram_complete:
  assumes run: "resolve_edges_from_ram h cancelled (g_raw g) syms g = (None, g')" and "g_raw g \<noteq> []"
    and calls: "g_calls g = []"
    and bucket: "name_bucket h (case syms of Some buf \<Rightarrow> map snd buf | None \<Rightarrow> g_symbols g) = name_bucket h (g_symbols g)"
  shows "complete h g' \<and> g_edges_resolved g'"
proof -
  let ?b = "name_bucket h (g_symbols g)"
  let ?r = "run_ram h ?b cancelled 0 (g_raw g) ([], [])"
  have none: "fst ?r = None" and g': "g' = g\<lparr>g_calls := sink_all (snd ?r), g_edges_resolved := True\<rparr>"
    using run assms(2) calls bucket by (auto simp: resolve_edges_from_ram_def Let_def split: option.splits)
  show ?thesis using run_ram_all [OF none] by (simp add: g' complete_def all_calls_def sink_all_def)
qed

lemma rebuild_done:
  assumes "host_ok h" "rebuild_phase2 h cancelled cap files (streamed_files files g) = (None, g')"
    and "real_paths (concat (map snd files))" "clear_positions (g_symbols (streamed_files files g))"
  shows "complete h g' \<and> g_edges_resolved g'"
proof -
  let ?g = "streamed_files files g"
  let ?buf = "fold (buffer_file cap) files \<lparr>ram_symbols = Some [], ram_edges = Some []\<rparr>"
  have buf: "case ram_symbols ?buf of None \<Rightarrow> True | Some m \<Rightarrow> mirrors m (g_symbols ?g)"
    "case ram_edges ?buf of None \<Rightarrow> True | Some edges \<Rightarrow> edges = g_raw ?g"
    using buffer_files [where ?buf0.0 = "[]" and T = "[]" and r = "\<lparr>ram_symbols = Some [], ram_edges = Some []\<rparr>"
        and E = "[]" and cap = cap and files = files]
    by (auto simp: mirrors_def distinct_fqns_def streamed_files_def split: option.splits)
  have scan: "complete h g' \<and> g_edges_resolved g'" if "fst (resolve_edges_phase2 h cancelled ?g) = None" "snd (resolve_edges_phase2 h cancelled ?g) = g'"
    using phase2_complete [of ?g h cancelled g'] that assms(3) by (simp add: streamed_files_def prod_eq_iff)
  have bucket: "name_bucket h (case ram_symbols ?buf of Some b \<Rightarrow> map snd b | None \<Rightarrow> g_symbols ?g)
      = name_bucket h (g_symbols ?g)"
  proof (cases "ram_symbols ?buf")
    case (Some m)
    with buf(1) have "mset (map snd m) = mset (g_symbols ?g)" by (intro mirrors_mset) simp
    from name_bucket_perm [OF assms(1) this [symmetric] assms(4)] Some show ?thesis by simp
  qed simp
  show ?thesis
  proof (cases "ram_edges ?buf")
    case None
    then show ?thesis using assms(2) scan by (auto simp: rebuild_phase2_def Let_def split: option.splits prod.splits)
  next
    case (Some edges)
    with buf(2) have e: "edges = g_raw ?g" by simp
    show ?thesis
    proof (cases "edges = []")
      case True
      then show ?thesis using Some assms(2) scan
        by (auto simp: rebuild_phase2_def Let_def split: option.splits prod.splits)
    next
      case False
      then have "resolve_edges_from_ram h cancelled (g_raw ?g) (ram_symbols ?buf) ?g = (None, g')"
        using Some e assms(2) by (auto simp: rebuild_phase2_def Let_def split: option.splits intro: prod_eqI)
      from from_ram_complete [OF this _ _ bucket] False e show ?thesis by (simp add: streamed_files_def)
    qed
  qed
qed

lemma run_pages_uncancelled: "fst (run_pages h b (\<lambda>_. False) n ps s) = None"
  by (induction ps arbitrary: n s) auto

lemma run_ram_uncancelled: "fst (run_ram h b (\<lambda>_. False) i res s) = None"
  by (induction res arbitrary: i s) auto

lemma passes_uncancelled:
  "fst (resolve_edges_phase2 h (\<lambda>_. False) g) = None"
  "fst (resolve_edges_from_ram h (\<lambda>_. False) edges syms g) = None"
  by (simp_all add: resolve_edges_phase2_def resolve_edges_from_ram_def Let_def run_pages_uncancelled run_ram_uncancelled)

lemma passes_aborted:
  "\<not> g_edges_resolved g \<Longrightarrow> fst (resolve_edges_phase2 h cancelled g) = Some e \<Longrightarrow>
     \<not> g_edges_resolved (snd (resolve_edges_phase2 h cancelled g))"
  "\<not> g_edges_resolved g \<Longrightarrow> fst (resolve_edges_from_ram h cancelled edges syms g) = Some e \<Longrightarrow>
     \<not> g_edges_resolved (snd (resolve_edges_from_ram h cancelled edges syms g))"
  by (auto simp: resolve_edges_phase2_def resolve_edges_from_ram_def Let_def split: option.splits if_splits)

lemma phase2_raw: "g_raw_complete (snd (rebuild_phase2 h cancelled cap files g)) = g_raw_complete g"
proof -
  have "g_raw_complete (snd (resolve_edges_phase2 h cancelled g)) = g_raw_complete g"
      "g_raw_complete (snd (resolve_edges_from_ram h cancelled edges syms g)) = g_raw_complete g" for edges syms
    by (simp_all add: resolve_edges_phase2_def resolve_edges_from_ram_def Let_def split: option.split)
  then show ?thesis by (simp add: rebuild_phase2_def Let_def split: option.split)
qed

lemma phase2_unmarked:
  assumes "fst (rebuild_phase2 h cancelled cap files g) = Some e" "\<not> g_edges_resolved g"
  shows "\<not> g_edges_resolved (snd (rebuild_phase2 h cancelled cap files g))"
  using assms(1) passes_aborted [OF assms(2)]
  by (auto simp: rebuild_phase2_def Let_def split: option.splits if_splits)

lemma rebuild_uncancelled: "rebuild_starts env \<Longrightarrow> fst (full_rebuild h (\<lambda>_. False) cap files env g) = None"
  by (auto simp: full_rebuild_cases rebuild_phase2_def Let_def passes_uncancelled split: option.split)


section \<open>A concrete host\<close>

definition demo_host :: host where
  "demo_host = \<lparr>read_file = \<lambda>_. None, parse_json = \<lambda>_. None, hash_order = \<lambda>xs. xs, unstable = sort_by\<rparr>"

lemma demo_host_ok: "host_ok demo_host"
  by (simp add: host_ok_def demo_host_def unstable_sort_sort_by)

definition demo_raw :: "str \<Rightarrow> str \<Rightarrow> raw_row" where
  "demo_raw file name = \<lparr>rr_from_file = file, rr_from_name = ''main'', rr_from_fqn = file @ ''::main'',
     rr_to_name = name, rr_kind = ''calls'', rr_line = 7, rr_import = None\<rparr>"

definition demo_sym :: "str \<Rightarrow> str \<Rightarrow> nat \<Rightarrow> symbol" where
  "demo_sym file name line = \<lparr>sym_qualified = \<lparr>qs_file = file, scope_path = [], qs_name = name\<rparr>, sym_kind = Function,
     sym_line_start = line, sym_line_end = line + 1, sym_signature = None, sym_parent_fqn = None\<rparr>"

definition empty_graph :: graph where
  "empty_graph = \<lparr>g_symbols = [], g_raw = [], g_calls = [], g_edges_resolved = False, g_raw_complete = False\<rparr>"

lemma scan_reads_each_row_once_witness:
  "mset (concat (scan_pages 2 [] [demo_raw ''b'' ''f'', demo_raw ''a'' ''g'', demo_raw ''b'' ''h'', demo_raw ''b'' ''k'']))
    = mset [demo_raw ''b'' ''f'', demo_raw ''a'' ''g'', demo_raw ''b'' ''h'', demo_raw ''b'' ''k'']"
  by (rule scan_reads_each_row_once) (simp_all add: demo_raw_def)

definition calm_env :: rebuild_env where
  "calm_env = \<lparr>rb_cancelled = False, rb_preflight = Probe_Vectors [1024], rb_identity_read = True, rb_markers_deleted = True,
     rb_epoch_bumped = True, rb_deletes = 9, rb_resolved_deleted = True, rb_streamed = True, rb_raw_marked = True,
     rb_identity_marked = True\<rparr>"

definition demo_files :: "(symbol list \<times> raw_row list) list" where
  "demo_files = [([demo_sym ''a.py'' ''f'' 1], []), ([demo_sym ''b.py'' ''main'' 3], [demo_raw ''b.py'' ''f''])]"

lemma demo_files_ok: "real_paths (concat (map snd demo_files))" "clear_positions (g_symbols (streamed_files demo_files empty_graph))"
  by (simp_all add: demo_files_def real_paths_def demo_raw_def clear_positions_def streamed_files_def upsert_symbol_def
      symbol_pos_of_def demo_sym_def fqn_def)


text \<open>The ignored failure: the deletion of the old marker fails, Phase 2 is cancelled, and both markers stand
  over a graph without its one call; the next run that finds no changes leaves it so.\<close>

lemma ignored_delete_keeps_markers:
  "full_rebuild demo_host (\<lambda>_. True) 10 demo_files (calm_env\<lparr>rb_resolved_deleted := False\<rparr>)
      (empty_graph\<lparr>g_edges_resolved := True, g_raw_complete := True\<rparr>)
    = (Some Aborted, streamed_files demo_files (empty_graph\<lparr>g_edges_resolved := True\<rparr>))"
  "no_change_run demo_host (\<lambda>_. False) [] (streamed_files demo_files (empty_graph\<lparr>g_edges_resolved := True\<rparr>))
    = (None, streamed_files demo_files (empty_graph\<lparr>g_edges_resolved := True\<rparr>))"
proof -
  have starts: "rebuild_starts (calm_env\<lparr>rb_resolved_deleted := False\<rparr>)"
    by (simp add: rebuild_starts_def calm_env_def preflight_ok_def DELETE_STATEMENTS_def)
  have kept: "kept_mark (calm_env\<lparr>rb_resolved_deleted := False\<rparr>) (empty_graph\<lparr>g_edges_resolved := True, g_raw_complete := True\<rparr>)
      = empty_graph\<lparr>g_edges_resolved := True, g_raw_complete := True\<rparr>"
    by (simp add: kept_mark_def calm_env_def empty_graph_def)
  show "full_rebuild demo_host (\<lambda>_. True) 10 demo_files (calm_env\<lparr>rb_resolved_deleted := False\<rparr>)
      (empty_graph\<lparr>g_edges_resolved := True, g_raw_complete := True\<rparr>)
    = (Some Aborted, streamed_files demo_files (empty_graph\<lparr>g_edges_resolved := True\<rparr>))"
    using full_rebuild_cases [OF starts] kept
    by (simp add: rebuild_phase2_def demo_files_def buffer_file_def resolve_edges_from_ram_def streamed_files_def MAX_RAM_EDGES_def Let_def)
qed (simp add: no_change_run_def streamed_files_def)

end
