(* ===== verification/Incremental_Graph.thy ===== *)
theory Incremental_Graph
  imports Edge_Resolution
begin

text \<open>
  The incremental pass against the full pass: a run that resolves only the blast radius of an edit leaves
  the graph that a full pass over the new tables would build.
\<close>

section \<open>The choice of a candidate does not depend on the losers\<close>

definition strip :: "symbol_pos \<Rightarrow> symbol_pos" where
  "strip s = s\<lparr>sp_start := 0, sp_end := 0\<rparr>"

lemma strip_fields [simp]: "sp_fqn (strip s) = sp_fqn s" "sp_file (strip s) = sp_file s" "sp_name (strip s) = sp_name s"
  by (simp_all add: strip_def)

lemma strip_eq_iff: "strip s = strip t \<longleftrightarrow> sp_fqn s = sp_fqn t \<and> sp_file s = sp_file t \<and> sp_name s = sp_name t"
  by (cases s; cases t) (auto simp: strip_def)

lemma call_of_strip [simp]: "call_of r (strip t) = call_of r t"
  by (simp add: call_of_def)

lemma find_map_list: "find P (map f xs) = map_option f (find (P \<circ> f) xs)"
  by (induction xs) auto

lemma prefer_alt:
  "prefer_non_generated cs =
     or_option (find (\<lambda>c. \<not> is_generated_file (sp_file c)) cs) (if cs = [] then None else Some (hd cs))"
  by (auto simp: prefer_non_generated_def or_option_def split: option.split list.split)

lemma or_option_map: "or_option (map_option f a) (map_option f b) = map_option f (or_option a b)"
  by (cases a) (auto simp: or_option_def)

lemma prefer_strip: "prefer_non_generated (map strip cs) = map_option strip (prefer_non_generated cs)"
proof -
  have "(\<lambda>c. \<not> is_generated_file (sp_file c)) \<circ> strip = (\<lambda>c. \<not> is_generated_file (sp_file c))" by auto
  then show ?thesis
    by (cases "cs = []") (simp_all add: prefer_alt find_map_list hd_map flip: or_option_map)
qed

lemma filter_strip: "(\<And>s. P (strip s) = P s) \<Longrightarrow> filter P (map strip cs) = map strip (filter P cs)"
  by (induction cs) auto

lemma import_level_strip:
  "cs \<noteq> [] \<Longrightarrow> import_level h (map strip cs) from imp = map_option strip (import_level h cs from imp)"
  by (auto simp: import_level_def Let_def comp_def filter_strip prefer_strip hd_map split: option.split)

lemma path_level_strip: "path_level (map strip cs) from imp = map_option strip (path_level cs from imp)"
  by (simp add: path_level_def Let_def filter_strip prefer_strip)

lemma select_strip:
  "select_best_candidate h (map strip cs) from imp = map_option strip (select_best_candidate h cs from imp)"
proof (cases "cs = []")
  case False
  have "(\<lambda>c. sp_file c = from) \<circ> strip = (\<lambda>c. sp_file c = from)" by auto
  with False show ?thesis
    by (cases imp)
      (simp_all add: select_best_candidate_def import_level_strip path_level_strip prefer_strip find_map_list
        flip: or_option_map)
qed (simp add: select_best_candidate_def)

lemma prefer_None: "prefer_non_generated cs = None \<longleftrightarrow> cs = []"
  by (auto simp: prefer_non_generated_def split: option.splits list.splits)

lemma prefer_mem: "prefer_non_generated cs = Some t \<Longrightarrow> t \<in> set cs"
  by (auto simp: prefer_non_generated_def find_Some_iff split: option.splits list.splits)

lemma prefer_drop:
  assumes "prefer_non_generated cs = Some t" "P t"
  shows "prefer_non_generated (filter P cs) = Some t"
proof (cases "find (\<lambda>c. \<not> is_generated_file (sp_file c)) cs")
  case None
  with assms have "cs \<noteq> []" "hd cs = t" by (auto simp: prefer_alt or_option_def split: if_splits)
  then have "filter P cs \<noteq> []" "hd (filter P cs) = t" using assms(2) by (cases cs; simp)+
  with find_filter_None [OF None, of P] show ?thesis by (simp only: prefer_alt or_option_def option.case if_False)
next
  case (Some c)
  with assms show ?thesis by (simp add: prefer_alt or_option_def find_filter)
qed

lemma prefer_drop_filter:
  "prefer_non_generated (filter Q cs) = Some t \<Longrightarrow> P t \<Longrightarrow> prefer_non_generated (filter Q (filter P cs)) = Some t"
  using prefer_drop [of "filter Q cs" t P] by (simp add: conj_commute)

text \<open>What the iteration order of the file set may not change.\<close>

definition order_free :: "host \<Rightarrow> str \<Rightarrow> str \<Rightarrow> str set \<Rightarrow> bool" where
  "order_free h from imp files \<longleftrightarrow>
     (\<forall>xs ys. set xs \<subseteq> files \<longrightarrow> set ys = set xs \<longrightarrow>
        resolve_import_path (read_file h) (parse_json h) imp from (detect_language from) xs
        = resolve_import_path (read_file h) (parse_json h) imp from (detect_language from) ys)"

lemma resolve_shrink:
  assumes free: "order_free h from imp files" and cf: "config_free xs" and sub: "set ys \<subseteq> set xs" "set xs \<subseteq> files"
  defines "res \<equiv> resolve_import_path (read_file h) (parse_json h) imp from (detect_language from)"
  shows "res xs = Some x \<Longrightarrow> x \<in> set ys \<Longrightarrow> res ys = Some x" and "res xs = None \<Longrightarrow> res ys = None"
proof -
  have "set (filter (\<lambda>f. f \<in> set ys) xs) \<subseteq> files" "set ys = set (filter (\<lambda>f. f \<in> set ys) xs)"
    using sub by auto
  then have eq: "res ys = res (filter (\<lambda>f. f \<in> set ys) xs)"
    using free unfolding order_free_def res_def by metis
  show "res xs = Some x \<Longrightarrow> x \<in> set ys \<Longrightarrow> res ys = Some x"
    unfolding eq unfolding res_def by (rule resolve_import_path_drop(1) [OF cf, of "\<lambda>f. f \<in> set ys"])
  show "res xs = None \<Longrightarrow> res ys = None"
    unfolding eq unfolding res_def by (rule resolve_import_path_drop(2) [OF cf])
qed

lemma import_level_alt:
  assumes "host_ok h"
  shows "import_level h cs from imp =
    (if detect_language from \<in> set unresolved_langs then None
     else case resolve_import_path (read_file h) (parse_json h) imp from (detect_language from)
               (hash_order h (map sp_file cs)) of
            None \<Rightarrow> None
          | Some f \<Rightarrow> prefer_non_generated (filter (\<lambda>c. sp_file c = f) cs))"
proof -
  let ?r = "resolve_import_path (read_file h) (parse_json h) imp from (detect_language from) (hash_order h (map sp_file cs))"
  show ?thesis
  proof (cases ?r)
    case None
    then show ?thesis by (simp add: import_level_def Let_def)
  next
    case (Some f)
    then have "filter (\<lambda>c. sp_file c = f) cs \<noteq> []"
      using resolve_import_path_in [OF Some] assms by (auto simp: host_ok_def filter_empty_conv)
    then obtain c where "prefer_non_generated (filter (\<lambda>c. sp_file c = f) cs) = Some c"
      using prefer_None by blast
    then show ?thesis by (simp add: import_level_def Let_def Some)
  qed
qed

lemma import_level_drop:
  assumes h: "host_ok h" and free: "order_free h from imp (sp_file ` set cs)" and cf: "config_free (map sp_file cs)"
  shows "import_level h cs from imp = Some t \<Longrightarrow> P t \<Longrightarrow> import_level h (filter P cs) from imp = Some t"
    and "import_level h cs from imp = None \<Longrightarrow> import_level h (filter P cs) from imp = None"
proof -
  let ?xs = "hash_order h (map sp_file cs)" and ?ys = "hash_order h (map sp_file (filter P cs))"
  have sets: "set ?xs = sp_file ` set cs" "set ?ys = sp_file ` {c \<in> set cs. P c}"
    using h by (auto simp: host_ok_def)
  have cfx: "config_free ?xs" using cf sets(1) by (simp add: config_free_def list_all_iff)
  have sub: "set ?ys \<subseteq> set ?xs" "set ?xs \<subseteq> sp_file ` set cs" using sets by auto
  note shrink = resolve_shrink [OF free cfx sub]
  show "import_level h cs from imp = Some t \<Longrightarrow> P t \<Longrightarrow> import_level h (filter P cs) from imp = Some t"
  proof -
    assume t: "import_level h cs from imp = Some t" "P t"
    then obtain f where f: "resolve_import_path (read_file h) (parse_json h) imp from (detect_language from) ?xs = Some f"
      and pf: "prefer_non_generated (filter (\<lambda>c. sp_file c = f) cs) = Some t"
      and l: "detect_language from \<notin> set unresolved_langs"
      by (auto simp: import_level_alt [OF h] split: option.splits if_splits)
    have "t \<in> set cs" "sp_file t = f" using prefer_mem [OF pf] by auto
    then have "f \<in> set ?ys" using sets(2) t(2) by auto
    from shrink(1) [OF f this] prefer_drop_filter [OF pf, of P] t(2) l show ?thesis
      by (simp add: import_level_alt [OF h] del: filter_filter)
  qed
  show "import_level h cs from imp = None \<Longrightarrow> import_level h (filter P cs) from imp = None"
  proof -
    assume n: "import_level h cs from imp = None"
    show ?thesis
    proof (cases "detect_language from \<in> set unresolved_langs")
      case False
      have "resolve_import_path (read_file h) (parse_json h) imp from (detect_language from) ?xs = None"
      proof (rule ccontr)
        assume "\<not> ?thesis"
        then obtain f where f: "resolve_import_path (read_file h) (parse_json h) imp from (detect_language from) ?xs = Some f"
          by blast
        have "f \<in> sp_file ` set cs" using resolve_import_path_in [OF f] sets(1) by simp
        with n f False show False
          by (auto simp: import_level_alt [OF h] prefer_None filter_empty_conv)
      qed
      from shrink(2) [OF this] show ?thesis by (simp add: import_level_alt [OF h])
    qed (simp add: import_level_alt [OF h])
  qed
qed

lemma path_level_drop:
  "path_level cs from imp = Some t \<Longrightarrow> P t \<Longrightarrow> path_level (filter P cs) from imp = Some t"
  "path_level cs from imp = None \<Longrightarrow> path_level (filter P cs) from imp = None"
  by (auto simp: path_level_def Let_def prefer_drop_filter prefer_None filter_empty_conv simp del: filter_filter
      split: if_splits)

text \<open>A raw edge whose import does not depend on the iteration order.\<close>

definition steady :: "host \<Rightarrow> symbol_pos list \<Rightarrow> raw_row \<Rightarrow> bool" where
  "steady h symbols r \<longleftrightarrow>
     (case rr_import r of None \<Rightarrow> True
      | Some imp \<Rightarrow> order_free h (rr_from_file r) imp
          (sp_file ` set (filter (\<lambda>s. sp_name s = rr_to_name r) symbols)))"

lemma or_option_Some: "or_option a b = Some t \<longleftrightarrow> a = Some t \<or> (a = None \<and> b = Some t)"
  by (cases a) (auto simp: or_option_def)

lemma select_drop:
  assumes h: "host_ok h" and cf: "config_free (map sp_file cs)"
    and free: "case imp of None \<Rightarrow> True | Some i \<Rightarrow> order_free h from i (sp_file ` set cs)"
    and sel: "select_best_candidate h cs from imp = Some t" and "P t" "t \<in> set cs"
  shows "select_best_candidate h (filter P cs) from imp = Some t"
proof -
  let ?L0 = "\<lambda>cs. case imp of None \<Rightarrow> None | Some i \<Rightarrow> import_level h cs from i"
  let ?L1 = "\<lambda>cs. case imp of None \<Rightarrow> None | Some i \<Rightarrow> path_level cs from i"
  let ?L3 = "\<lambda>cs. find (\<lambda>c. sp_file c = from) cs"
  have L0: "?L0 cs = Some t \<Longrightarrow> ?L0 (filter P cs) = Some t" "?L0 cs = None \<Longrightarrow> ?L0 (filter P cs) = None"
    using import_level_drop [OF h _ cf] free \<open>P t\<close> by (auto split: option.splits)
  have L1: "?L1 cs = Some t \<Longrightarrow> ?L1 (filter P cs) = Some t" "?L1 cs = None \<Longrightarrow> ?L1 (filter P cs) = None"
    using path_level_drop \<open>P t\<close> by (auto split: option.splits)
  have ne: "cs \<noteq> []" "filter P cs \<noteq> []" using assms(5,6) by (auto simp: filter_empty_conv)
  from sel ne(1) consider "?L0 cs = Some t" | "?L0 cs = None" "?L1 cs = Some t"
    | "?L0 cs = None" "?L1 cs = None" "?L3 cs = Some t"
    | "?L0 cs = None" "?L1 cs = None" "?L3 cs = None" "prefer_non_generated cs = Some t"
    by (auto simp: select_best_candidate_def or_option_Some)
  then show ?thesis
  proof cases
    case 1
    from L0(1) [OF this] ne(2) show ?thesis by (simp add: select_best_candidate_def or_option_Some)
  next
    case 2
    from L0(2) [OF 2(1)] L1(1) [OF 2(2)] ne(2) show ?thesis
      by (simp add: select_best_candidate_def or_option_Some)
  next
    case 3
    from L0(2) [OF 3(1)] L1(2) [OF 3(2)] find_filter [of _ cs t P, OF 3(3) \<open>P t\<close>] ne(2) show ?thesis
      by (simp add: select_best_candidate_def or_option_Some)
  next
    case 4
    from L0(2) [OF 4(1)] L1(2) [OF 4(2)] find_filter_None [OF 4(3), of P] prefer_drop [of cs t P, OF 4(4) \<open>P t\<close>] ne(2)
    show ?thesis by (simp add: select_best_candidate_def or_option_Some)
  qed
qed

lemma import_level_mem: "import_level h cs from i = Some t \<Longrightarrow> t \<in> set cs"
  by (auto simp: import_level_def Let_def dest!: prefer_mem split: option.splits if_splits)

lemma path_level_mem: "path_level cs from i = Some t \<Longrightarrow> t \<in> set cs"
  by (auto simp: path_level_def Let_def dest!: prefer_mem split: if_splits)

lemma select_mem: "select_best_candidate h cs from imp = Some t \<Longrightarrow> t \<in> set cs"
  by (auto simp: select_best_candidate_def or_option_Some find_Some_iff split: option.splits if_splits
      dest: prefer_mem import_level_mem path_level_mem)

lemma select_total: "cs \<noteq> [] \<Longrightarrow> \<exists>t. select_best_candidate h cs from imp = Some t"
  using prefer_None [of cs] by (auto simp: select_best_candidate_def or_option_def split: option.split)

section \<open>Buckets before and after an edit\<close>

text \<open>Symbols that stay keep their order: the positions may move, not change places.\<close>

definition same_order :: "symbol_pos list \<Rightarrow> symbol_pos list \<Rightarrow> bool" where
  "same_order old new \<longleftrightarrow>
     (\<forall>s \<in> set old. \<forall>s' \<in> set old. \<forall>t \<in> set new. \<forall>t' \<in> set new.
        sp_name s = sp_name s' \<longrightarrow> strip s = strip t \<longrightarrow> strip s' = strip t' \<longrightarrow> pos_le t t' \<longrightarrow> pos_le s s')"

lemma strip_inj: "distinct_fqns ss \<Longrightarrow> inj_on strip (set ss)"
  by (auto simp: distinct_fqns_def distinct_map strip_eq_iff inj_on_def)

lemma bucket_Some:
  "host_ok h \<Longrightarrow> name_bucket h ss n = Some b \<Longrightarrow>
   mset b = mset (filter (\<lambda>s. sp_name s = n) ss) \<and> sorted_wrt pos_le b \<and> b \<noteq> []"
proof -
  assume h: "host_ok h" and b: "name_bucket h ss n = Some b"
  have us: "unstable_sort (unstable h)" using h by (simp add: host_ok_def)
  have b': "b = unstable h pos_le (filter (\<lambda>s. sp_name s = n) ss)" "filter (\<lambda>s. sp_name s = n) ss \<noteq> []"
    using b by (auto simp: name_bucket_def Let_def split: if_splits)
  then show ?thesis using unstable_sort.srt_mset [OF us] unstable_sort.srt_sorted [OF us pos_le_preorder]
    by (metis mset_zero_iff)
qed

lemma bucket_mem: "host_ok h \<Longrightarrow> name_bucket h ss n = Some b \<Longrightarrow> s \<in> set b \<longleftrightarrow> s \<in> set ss \<and> sp_name s = n"
  using bucket_Some [of h ss n b] mset_eq_setD [of b "filter (\<lambda>s. sp_name s = n) ss"] by auto

lemma bucket_None: "name_bucket h ss n = None \<longleftrightarrow> filter (\<lambda>s. sp_name s = n) ss = []"
  by (simp add: name_bucket_def Let_def)

lemma distinct_strip_bucket:
  assumes "distinct_fqns ss" "mset b = mset (filter P ss)"
  shows "distinct (map strip b)"
proof -
  have "distinct ss" using assms(1) by (simp add: distinct_fqns_def distinct_map)
  then have "distinct b" using assms(2) by (metis distinct_filter mset_eq_imp_distinct_iff)
  moreover have "set b \<subseteq> set ss" using assms(2) by (metis filter_is_subset set_mset_mset)
  ultimately show ?thesis using strip_inj [OF assms(1)] by (auto simp: distinct_map intro: inj_on_subset)
qed

lemma bucket_shrinks:
  assumes h: "host_ok h" and old: "distinct_fqns old" "clear_positions old" and new: "distinct_fqns new"
    and order: "same_order old new"
    and A: "name_bucket h old n = Some A" and B: "name_bucket h new n = Some B"
    and sub: "strip ` set B \<subseteq> strip ` set A"
  shows "map strip B = filter (\<lambda>s. s \<in> strip ` set B) (map strip A)"
proof -
  note a = bucket_Some [OF h A] and b = bucket_Some [OF h B]
  have inA: "s \<in> set A \<Longrightarrow> s \<in> set old \<and> sp_name s = n" for s
    using bucket_mem [OF h A] by blast
  have inB: "s \<in> set B \<Longrightarrow> s \<in> set new \<and> sp_name s = n" for s
    using bucket_mem [OF h B] by blast
  define R where "R = (\<lambda>x y. \<exists>s \<in> set A. \<exists>t \<in> set A. strip s = x \<and> strip t = y \<and> pos_le s t)"
  have injA: "inj_on strip (set A)"
    using strip_inj [OF old(1)] inA by (meson inj_on_def)
  have sA: "sorted_wrt R (map strip A)"
    using a sorted_wrt_mono_rel [of A pos_le "\<lambda>s t. R (strip s) (strip t)"] by (auto simp: R_def sorted_wrt_map)
  have sB: "sorted_wrt (\<lambda>s t. R (strip s) (strip t)) B"
  proof (rule sorted_wrt_mono_rel [of B pos_le])
    fix t t' assume t: "t \<in> set B" "t' \<in> set B" "pos_le t t'"
    have "strip t \<in> strip ` set A" "strip t' \<in> strip ` set A" using sub t by blast+
    then obtain s s' where s: "s \<in> set A" "s' \<in> set A" "strip s = strip t" "strip s' = strip t'"
      by (auto elim!: imageE)
    then have "pos_le s s'" using order inA [OF s(1)] inA [OF s(2)] inB [OF t(1)] inB [OF t(2)] t(3)
      by (auto simp: same_order_def)
    with s show "R (strip t) (strip t')" by (auto simp: R_def)
  qed (use b in simp)
  show ?thesis
  proof (rule sorted_wrt_unique [of R])
    show "sorted_wrt R (map strip B)" using sB by (simp add: sorted_wrt_map)
    show "sorted_wrt R (filter (\<lambda>s. s \<in> strip ` set B) (map strip A))" using sA by (rule sorted_wrt_filter)
    have "distinct (map strip A)" "distinct (map strip B)"
      using distinct_strip_bucket [OF old(1)] distinct_strip_bucket [OF new] a b by blast+
    then show "mset (map strip B) = mset (filter (\<lambda>s. s \<in> strip ` set B) (map strip A))"
      by (subst set_eq_iff_mset_eq_distinct [symmetric]) (use sub in auto)
    fix x y assume xy: "R x y" "R y x"
    then obtain s t where s: "s \<in> set A" "t \<in> set A" "strip s = x" "strip t = y" "pos_le s t"
      by (auto simp: R_def)
    from xy(2) obtain s' t' where "s' \<in> set A" "t' \<in> set A" "strip s' = x" "strip t' = y" "pos_le t' s'"
      by (auto simp: R_def)
    then have "s' = s" "t' = t" using injA s by (auto dest: inj_onD)
    with s \<open>pos_le t' s'\<close> have "s = t"
      using old(2) inA [OF s(1)] inA [OF s(2)] by (auto simp: clear_positions_def)
    with s show "x = y" by simp
  qed
qed

text \<open>One raw edge: its call stays when its target stays and no symbol of its name was added.\<close>

lemma resolve_row_stable:
  assumes h: "host_ok h" and old: "distinct_fqns old" "clear_positions old" and new: "distinct_fqns new"
    and order: "same_order old new" and cf: "config_free (map sp_file old)" and st: "steady h old r"
    and sub: "\<And>t. t \<in> set new \<Longrightarrow> sp_name t = rr_to_name r \<Longrightarrow> \<exists>s \<in> set old. strip s = strip t"
    and kept: "\<And>s. s \<in> set old \<Longrightarrow> sp_name s = rr_to_name r \<Longrightarrow>
      resolve_row h (name_bucket h old) r = Some (call_of r s) \<Longrightarrow> \<exists>t \<in> set new. strip t = strip s"
  shows "resolve_row h (name_bucket h new) r = resolve_row h (name_bucket h old) r"
proof (cases "name_bucket h old (rr_to_name r)")
  case None
  then have "filter (\<lambda>s. sp_name s = rr_to_name r) old = []" by (simp add: bucket_None)
  then have "filter (\<lambda>s. sp_name s = rr_to_name r) new = []"
    using sub by (auto simp: filter_empty_conv strip_eq_iff)
  with None show ?thesis by (simp add: resolve_row_def bucket_None [THEN iffD2])
next
  case (Some A)
  note a = bucket_Some [OF h Some]
  have inA: "s \<in> set A \<longleftrightarrow> s \<in> set old \<and> sp_name s = rr_to_name r" for s
    by (rule bucket_mem [OF h Some])
  obtain t where t: "select_best_candidate h A (rr_from_file r) (rr_import r) = Some t"
    using select_total a by blast
  have res: "resolve_row h (name_bucket h old) r = Some (call_of r t)"
    using Some a t by (simp add: resolve_row_def)
  have tA: "t \<in> set A" by (rule select_mem [OF t])
  with kept res inA obtain t' where t': "t' \<in> set new" "strip t' = strip t" by blast
  then have "sp_name t' = rr_to_name r" using tA inA by (simp add: strip_eq_iff)
  with t'(1) obtain B where B: "name_bucket h new (rr_to_name r) = Some B"
    using bucket_None [of h new "rr_to_name r"] by (cases "name_bucket h new (rr_to_name r)") (auto simp: filter_empty_conv)
  note b = bucket_Some [OF h B]
  have inB: "s \<in> set B \<longleftrightarrow> s \<in> set new \<and> sp_name s = rr_to_name r" for s
    by (rule bucket_mem [OF h B])
  have subAB: "strip ` set B \<subseteq> strip ` set A"
  proof
    fix x assume "x \<in> strip ` set B"
    then obtain u where u: "u \<in> set B" "x = strip u" by blast
    then obtain s where "s \<in> set old" "strip s = strip u" using sub inB by blast
    with u inA inB show "x \<in> strip ` set A" by (metis image_eqI strip_eq_iff)
  qed
  have shrink: "map strip B = filter (\<lambda>s. s \<in> strip ` set B) (map strip A)"
    by (rule bucket_shrinks [OF h old new order Some B subAB])
  have "select_best_candidate h (map strip A) (rr_from_file r) (rr_import r) = Some (strip t)"
    by (simp add: select_strip t)
  moreover have "config_free (map sp_file (map strip A))"
    using cf inA by (auto simp: config_free_def list_all_iff)
  moreover have "case rr_import r of None \<Rightarrow> True
      | Some i \<Rightarrow> order_free h (rr_from_file r) i (sp_file ` set (map strip A))"
  proof -
    have "sp_file ` set (map strip A) = sp_file ` set (filter (\<lambda>s. sp_name s = rr_to_name r) old)"
    proof -
      have "set A = set (filter (\<lambda>s. sp_name s = rr_to_name r) old)" using inA by auto
      then show ?thesis by (simp add: image_image)
    qed
    with st show ?thesis by (auto simp: steady_def split: option.splits)
  qed
  moreover have "strip t \<in> strip ` set B" using t' inB \<open>sp_name t' = rr_to_name r\<close> by (metis image_eqI)
  moreover have "strip t \<in> set (map strip A)" using tA by simp
  ultimately have "select_best_candidate h (map strip B) (rr_from_file r) (rr_import r) = Some (strip t)"
    unfolding shrink by (intro select_drop [OF h]) auto
  then obtain u where "select_best_candidate h B (rr_from_file r) (rr_import r) = Some u" "strip u = strip t"
    by (auto simp: select_strip)
  then have "resolve_row h (name_bucket h new) r = Some (call_of r t)"
    using B b by (simp add: resolve_row_def) (metis call_of_strip)
  with res show ?thesis by simp
qed

section \<open>The steps of the incremental pass\<close>

lemma set_push_new: "set (push_new acc fs) = set acc \<union> set fs"
  by (induction acc fs rule: push_new.induct) auto

lemma distinct_push_new: "distinct acc \<Longrightarrow> distinct (push_new acc fs)"
  by (induction acc fs rule: push_new.induct) auto

lemma set_build_resolve_set:
  "set (build_resolve_set g changed callers names) =
     set changed \<union> set callers \<union> {rr_from_file r |r. r \<in> set (g_raw g) \<and> rr_to_name r \<in> set names}"
  by (auto simp: build_resolve_set_def set_push_new callers_of_name_def)

lemma distinct_build_resolve_set: "distinct (build_resolve_set g changed callers names)"
  by (simp add: build_resolve_set_def distinct_push_new)

lemma delete_calls_None:
  "fst (fst (delete_calls cancelled n chunks calls)) = None \<Longrightarrow>
   snd (delete_calls cancelled n chunks calls) = filter (\<lambda>c. call_in_file c \<notin> set (concat chunks)) calls"
  by (induction cancelled n chunks calls rule: delete_calls.induct) (auto split: if_splits intro!: filter_cong)

lemma resolve_page_all:
  "sink_all (resolve_raw_edge_page h symbols page s) = sink_all s @ resolved_rows h (name_bucket h symbols) page"
proof -
  let ?rows = "find_symbols_by_names_with_pos symbols (remdups (sort (map rr_to_name page)))"
  have "filter (\<lambda>s. sp_name s = rr_to_name r) ?rows = filter (\<lambda>s. sp_name s = rr_to_name r) symbols"
    if "r \<in> set page" for r
    using that by (auto simp: find_symbols_by_names_with_pos_def intro!: filter_cong) (metis length_map length_sort length_0_conv list.size(3) remdups_eq_nil_iff length_pos_if_in_set less_irrefl)
  then have "resolve_row h (name_bucket h ?rows) r = resolve_row h (name_bucket h symbols) r" if "r \<in> set page" for r
    using that by (simp add: resolve_row_def name_bucket_def)
  then show ?thesis
    by (simp add: resolve_raw_edge_page_def resolve_rows_flushing_all Let_def cong: resolved_rows_cong)
qed

lemma resolve_pages_all:
  "sink_all (foldl (\<lambda>s page. resolve_raw_edge_page h symbols page s) s pages)
    = sink_all s @ resolved_rows h (name_bucket h symbols) (concat pages)"
  by (induction pages arbitrary: s) (simp_all add: resolve_page_all)

definition rows_of :: "raw_row list \<Rightarrow> str list \<Rightarrow> raw_row list" where
  "rows_of raw files = filter (\<lambda>r. rr_from_file r \<in> set files) raw"

lemma reresolve_batches_all:
  "fst (reresolve_batches h g cancelled n chunks s) = None \<Longrightarrow>
   sink_all (snd (reresolve_batches h g cancelled n chunks s))
     = sink_all s @ resolved_rows h (name_bucket h (g_symbols g)) (concat (map (rows_of (g_raw g)) chunks))"
proof (induction h g cancelled n chunks s rule: reresolve_batches.induct)
  case (2 h g cancelled n files rest s)
  have "0 < WRITE_BATCH_SIZE" by (simp add: WRITE_BATCH_SIZE_def)
  note pages = concat_chunks_of [OF this, of "rows_of (g_raw g) files"]
  from 2 show ?case
    by (cases "cancelled n") (simp_all add: Let_def resolve_pages_all pages flip: rows_of_def)
qed simp

lemma rows_of_chunks:
  "distinct (concat chunks) \<Longrightarrow>
   mset (concat (map (rows_of raw) chunks)) = mset (rows_of raw (concat chunks))"
proof (induction chunks)
  case (Cons c cs)
  have "mset (filter (\<lambda>r. rr_from_file r \<in> set c \<union> set (concat cs)) raw)
    = mset (filter (\<lambda>r. rr_from_file r \<in> set c) raw) + mset (filter (\<lambda>r. rr_from_file r \<in> set (concat cs)) raw)"
    using Cons.prems by (induction raw) auto
  with Cons show ?case by (simp add: rows_of_def)
qed (simp add: rows_of_def)

lemma resolve_row_in_file: "resolve_row h b r = Some c \<Longrightarrow> call_in_file c = rr_from_file r"
  by (auto simp: resolve_row_def call_of_def call_in_file_def split: option.splits if_splits)

lemma filter_resolved:
  "filter (\<lambda>c. call_in_file c \<notin> X) (resolved_rows h b rows) = resolved_rows h b (filter (\<lambda>r. rr_from_file r \<notin> X) rows)"
  by (induction rows) (auto dest: resolve_row_in_file split: option.split)

lemma reresolve_complete:
  assumes dis: "distinct RS" and run: "reresolve_files h cancelled RS g = (None, g')"
    and calls: "mset (g_calls g) = mset (resolved_rows h b raw)"
    and same: "filter (\<lambda>r. rr_from_file r \<notin> set RS) raw = filter (\<lambda>r. rr_from_file r \<notin> set RS) (g_raw g)"
    and stable: "\<And>r. r \<in> set (g_raw g) \<Longrightarrow> rr_from_file r \<notin> set RS \<Longrightarrow>
      resolve_row h (name_bucket h (g_symbols g)) r = resolve_row h b r"
  shows "complete h g' \<and> g_symbols g' = g_symbols g \<and> g_raw g' = g_raw g"
proof -
  let ?new = "name_bucket h (g_symbols g)"
  let ?D = "delete_calls cancelled 0 (chunks_of CALLS_DELETE_TXN_CHUNK RS) (g_calls g)"
  let ?R = "reresolve_batches h g cancelled (snd (fst ?D)) (chunks_of INCREMENTAL_PHASE2_FILE_BATCH RS) (snd ?D, [])"
  have none: "fst (fst ?D) = None" "fst ?R = None" and g': "g' = g\<lparr>g_calls := sink_all (snd ?R)\<rparr>"
    using run by (auto simp: reresolve_files_def Let_def split: option.splits)
  have cat: "concat (chunks_of CALLS_DELETE_TXN_CHUNK RS) = RS" "concat (chunks_of INCREMENTAL_PHASE2_FILE_BATCH RS) = RS"
    by (simp_all add: concat_chunks_of CALLS_DELETE_TXN_CHUNK_def INCREMENTAL_PHASE2_FILE_BATCH_def)
  let ?out = "filter (\<lambda>r. rr_from_file r \<notin> set RS) (g_raw g)"
  have "mset (g_calls g') = mset (filter (\<lambda>c. call_in_file c \<notin> set RS) (g_calls g))
      + mset (resolved_rows h ?new (concat (map (rows_of (g_raw g)) (chunks_of INCREMENTAL_PHASE2_FILE_BATCH RS))))"
    using delete_calls_None [OF none(1)] reresolve_batches_all [OF none(2)]
    by (simp add: g' cat sink_all_def)
  also have "mset (filter (\<lambda>c. call_in_file c \<notin> set RS) (g_calls g)) = mset (resolved_rows h b ?out)"
    using calls same by (metis filter_resolved mset_filter)
  also have "resolved_rows h b ?out = resolved_rows h ?new ?out"
    by (rule resolved_rows_cong) (simp add: stable)
  also have "mset (resolved_rows h ?new (concat (map (rows_of (g_raw g)) (chunks_of INCREMENTAL_PHASE2_FILE_BATCH RS))))
      = mset (resolved_rows h ?new (rows_of (g_raw g) RS))"
    by (rule mset_resolved_rows) (use rows_of_chunks [of "chunks_of INCREMENTAL_PHASE2_FILE_BATCH RS"] dis cat in simp)
  also have "mset (resolved_rows h ?new ?out) + mset (resolved_rows h ?new (rows_of (g_raw g) RS))
      = mset (resolved_rows h ?new (?out @ rows_of (g_raw g) RS))" by simp
  also have "\<dots> = mset (resolved_rows h ?new (g_raw g))"
    by (rule mset_resolved_rows) (induction "g_raw g", auto simp: rows_of_def)
  finally show ?thesis by (simp add: complete_def all_calls_def g')
qed

section \<open>An edit of the repository\<close>

definition processed :: "file_change list \<Rightarrow> str list" where
  "processed changes = map fc_path (filter (\<lambda>c. fc_kind c \<noteq> Deleted) changes)"

definition removed :: "file_change list \<Rightarrow> str list" where
  "removed changes = map fc_path (filter (\<lambda>c. fc_kind c = Deleted) changes)"

definition edited :: "streamed \<Rightarrow> file_change list \<Rightarrow> graph \<Rightarrow> graph" where
  "edited st changes g =
     write_streamed st (delete_files_data_incremental (removed changes @ processed changes)
       (g\<lparr>g_edges_resolved := False\<rparr>))"

text \<open>
  What an edit may be. The tables: one symbol per qualified name, a name used by one file, no symbols in
  configuration files, symbols of one name at different positions. The streaming stage writes rows
  of the processed files. And the two assumptions that the comments of the pipeline leave unsaid: symbols
  that stay do not change places with symbols of the same name, and no import depends on the
  iteration order of a hash set.
\<close>

definition edit_ok :: "host \<Rightarrow> streamed \<Rightarrow> file_change list \<Rightarrow> graph \<Rightarrow> bool" where
  "edit_ok h st changes g \<longleftrightarrow>
     distinct_fqns (g_symbols g) \<and> clear_positions (g_symbols g) \<and> config_free (map sp_file (g_symbols g))
     \<and> list_all (steady h (g_symbols g)) (g_raw g) \<and> real_paths (g_raw g) \<and> real_paths (st_raw st)
     \<and> list_all (\<lambda>s. sp_file s \<in> set (processed changes)) (st_symbols st)
     \<and> list_all (\<lambda>r. rr_from_file r \<in> set (processed changes)) (st_raw st)
     \<and> list_all (\<lambda>t. list_all (\<lambda>s. sp_fqn s = sp_fqn t \<longrightarrow> sp_file s = sp_file t) (g_symbols g)) (st_symbols st)
     \<and> same_order (g_symbols g) (g_symbols (edited st changes g))"

lemma fold_upsert_mem: "t \<in> set (fold upsert_symbol ss T) \<Longrightarrow> t \<in> set ss \<or> t \<in> set T"
  by (induction ss arbitrary: T) (simp, fastforce simp: upsert_set)

lemma fold_upsert_keeps: "t \<in> set T \<Longrightarrow> sp_fqn t \<notin> sp_fqn ` set ss \<Longrightarrow> t \<in> set (fold upsert_symbol ss T)"
  by (induction ss arbitrary: T) (auto simp: upsert_set)

lemma edited_fields:
  "g_calls (edited st changes g) = g_calls g" "\<not> g_edges_resolved (edited st changes g)"
  "g_raw_complete (edited st changes g) = g_raw_complete g"
  "g_raw (edited st changes g) =
     filter (\<lambda>r. rr_from_file r \<notin> set (removed changes @ processed changes)) (g_raw g) @ st_raw st"
  "g_symbols (edited st changes g) = fold upsert_symbol (st_symbols st)
     (filter (\<lambda>s. sp_file s \<notin> set (removed changes @ processed changes)) (g_symbols g))"
  by (simp_all add: edited_def write_streamed_def delete_files_data_incremental_def)

lemma edited_symbols:
  assumes "edit_ok h st changes g"
  shows "distinct_fqns (g_symbols (edited st changes g))"
    and "t \<in> set (g_symbols (edited st changes g)) \<Longrightarrow>
      sp_file t \<in> set (processed changes) \<or> (t \<in> set (g_symbols g) \<and> sp_file t \<notin> set (removed changes @ processed changes))"
    and "s \<in> set (g_symbols g) \<Longrightarrow> sp_file s \<notin> set (removed changes @ processed changes) \<Longrightarrow>
      s \<in> set (g_symbols (edited st changes g))"
proof -
  let ?keep = "filter (\<lambda>s. sp_file s \<notin> set (removed changes @ processed changes)) (g_symbols g)"
  have "distinct_fqns ?keep" using assms by (auto simp: edit_ok_def distinct_fqns_def distinct_map inj_on_def)
  then show "distinct_fqns (g_symbols (edited st changes g))" by (simp add: edited_fields fold_upsert_distinct)
  show "t \<in> set (g_symbols (edited st changes g)) \<Longrightarrow>
      sp_file t \<in> set (processed changes) \<or> (t \<in> set (g_symbols g) \<and> sp_file t \<notin> set (removed changes @ processed changes))"
    using assms fold_upsert_mem [of t "st_symbols st" ?keep]
    by (auto simp: edited_fields edit_ok_def list_all_iff)
  assume s: "s \<in> set (g_symbols g)" "sp_file s \<notin> set (removed changes @ processed changes)"
  have "sp_fqn s \<notin> sp_fqn ` set (st_symbols st)"
  proof
    assume "sp_fqn s \<in> sp_fqn ` set (st_symbols st)"
    then obtain t where t: "t \<in> set (st_symbols st)" "sp_fqn s = sp_fqn t" by blast
    then have "sp_file s = sp_file t" "sp_file t \<in> set (processed changes)"
      using assms s(1) by (auto simp: edit_ok_def list_all_iff)
    with s(2) show False by simp
  qed
  with s show "s \<in> set (g_symbols (edited st changes g))"
    by (simp add: edited_fields fold_upsert_keeps)
qed

lemma surface_pairs:
  "surface_or_empty (load_file_surface symbols files) f =
     (if f \<in> set files then {(sp_name s, sp_fqn s) |s. s \<in> set symbols \<and> sp_file s = f} else {})"
  by (auto simp: surface_or_empty_def load_file_surface_def Let_def filter_empty_conv)

definition delta_of :: "streamed \<Rightarrow> file_change list \<Rightarrow> graph \<Rightarrow> surface_delta" where
  "delta_of st changes g =
     compute_surface_delta (load_file_surface (g_symbols g) (processed changes))
       (load_file_surface (g_symbols (edited st changes g)) (processed changes)) (processed changes) (removed changes)"

lemma finite_surface: "finite (surface_or_empty (load_file_surface symbols files) f)"
  by (simp add: surface_or_empty_def load_file_surface_def Let_def)

lemma added_namesI:
  assumes t: "t \<in> set (g_symbols (edited st changes g))" "sp_file t \<in> set (processed changes)"
    and new: "\<And>s. s \<in> set (g_symbols g) \<Longrightarrow> strip s \<noteq> strip t"
  shows "sp_name t \<in> set (added_names (delta_of st changes g))"
proof -
  let ?new = "surface_or_empty (load_file_surface (g_symbols (edited st changes g)) (processed changes))"
    and ?old = "surface_or_empty (load_file_surface (g_symbols g) (processed changes))"
  have fin: "finite (\<Union>f \<in> set (processed changes). fst ` (?new f - ?old f))"
    using finite_surface by (intro finite_UN_I finite_imageI finite_Diff) auto
  have "(sp_name t, sp_fqn t) \<in> ?new (sp_file t)" using t by (auto simp: surface_pairs)
  moreover have "(sp_name t, sp_fqn t) \<notin> ?old (sp_file t)"
    by (auto simp: surface_pairs) (metis new strip_eq_iff)
  ultimately have "sp_name t \<in> fst ` (?new (sp_file t) - ?old (sp_file t))" by force
  with t(2) have "sp_name t \<in> (\<Union>f \<in> set (processed changes). fst ` (?new f - ?old f))" by blast
  then show ?thesis
    by (simp only: delta_of_def compute_surface_delta_def surface_delta.select_convs set_sorted_list_of_set [OF fin])
qed

lemma removed_filesI:
  assumes "s \<in> set (g_symbols g)" "sp_file s \<in> set (processed changes)"
    and gone: "\<And>t. t \<in> set (g_symbols (edited st changes g)) \<Longrightarrow> strip s \<noteq> strip t"
  shows "sp_file s \<in> set (removed_surface_files (delta_of st changes g))"
proof -
  have "(sp_name s, sp_fqn s) \<in> surface_or_empty (load_file_surface (g_symbols g) (processed changes)) (sp_file s)"
    using assms(1,2) by (auto simp: surface_pairs)
  moreover have "(sp_name s, sp_fqn s) \<notin>
      surface_or_empty (load_file_surface (g_symbols (edited st changes g)) (processed changes)) (sp_file s)"
    by (auto simp: surface_pairs) (metis gone strip_eq_iff)
  ultimately show ?thesis using assms(2)
    by (auto simp: delta_of_def compute_surface_delta_def)
qed

lemma removed_files_deleted: "f \<in> set (removed changes) \<Longrightarrow> f \<in> set (removed_surface_files (delta_of st changes g))"
  by (simp add: delta_of_def compute_surface_delta_def)

text \<open>Outside the blast radius nothing changes.\<close>

lemma row_outside:
  assumes h: "host_ok h" and ok: "edit_ok h st changes g" and full: "complete h g"
    and RS: "set (removed changes @ processed changes) \<subseteq> set RS"
      "set (dir1_callers g (removed_surface_files (delta_of st changes g)) (removed changes @ processed changes)) \<subseteq> set RS"
      "\<And>r. r \<in> set (g_raw (edited st changes g)) \<Longrightarrow> rr_to_name r \<in> set (added_names (delta_of st changes g)) \<Longrightarrow>
        rr_from_file r \<in> set RS"
    and r: "r \<in> set (g_raw (edited st changes g))" "rr_from_file r \<notin> set RS"
  shows "resolve_row h (name_bucket h (g_symbols (edited st changes g))) r = resolve_row h (name_bucket h (g_symbols g)) r"
proof (rule resolve_row_stable [OF h])
  have "r \<notin> set (st_raw st)"
    using ok r(2) RS(1) by (auto simp: edit_ok_def list_all_iff)
  with r(1) have raw: "r \<in> set (g_raw g)" by (auto simp: edited_fields)
  show "steady h (g_symbols g) r" using ok raw by (auto simp: edit_ok_def list_all_iff)
  show "\<exists>s \<in> set (g_symbols g). strip s = strip t"
    if t: "t \<in> set (g_symbols (edited st changes g))" "sp_name t = rr_to_name r" for t
  proof (cases "sp_file t \<in> set (processed changes)")
    case True
    show ?thesis
    proof (rule ccontr)
      assume "\<not> ?thesis"
      then have "sp_name t \<in> set (added_names (delta_of st changes g))"
        by (intro added_namesI [OF t(1) True]) blast
      with RS(3) [OF r(1)] r(2) t(2) show False by simp
    qed
  next
    case False
    with edited_symbols(2) [OF ok t(1)] show ?thesis by blast
  qed
  show "\<exists>t \<in> set (g_symbols (edited st changes g)). strip t = strip s"
    if s: "s \<in> set (g_symbols g)" "resolve_row h (name_bucket h (g_symbols g)) r = Some (call_of r s)" for s
  proof (cases "sp_file s \<in> set (removed changes @ processed changes)")
    case False
    with edited_symbols(3) [OF ok s(1)] show ?thesis by blast
  next
    case True
    have "call_of r s \<in> set (all_calls h g)"
      using raw s(2) unfolding all_calls_def resolved_rows_def set_map_filter by blast
    then have call: "call_of r s \<in> set (g_calls g)" using full unfolding complete_def by (metis set_mset_mset)
    show ?thesis
    proof (rule ccontr)
      assume gone: "\<not> ?thesis"
      have "sp_file s \<in> set (removed_surface_files (delta_of st changes g))"
      proof (cases "sp_file s \<in> set (removed changes)")
        case True then show ?thesis by (rule removed_files_deleted)
      next
        case False
        with True have "sp_file s \<in> set (processed changes)" by simp
        then show ?thesis by (rule removed_filesI [OF s(1)]) (use gone in metis)
      qed
      moreover have "rr_from_file r \<notin> set (removed changes @ processed changes)" using r(2) RS(1) by blast
      ultimately have "rr_from_file r \<in> set (dir1_callers g (removed_surface_files (delta_of st changes g))
          (removed changes @ processed changes))"
        using call by (force simp: dir1_callers_def call_in_file_def call_out_file_def call_of_def image_iff)
      with RS(2) r(2) show False by blast
    qed
  qed
qed (use ok edited_symbols(1) [OF ok] in \<open>simp_all add: edit_ok_def\<close>)

section \<open>An incremental run completes the graph\<close>

lemma heal_chunks_raw:
  "fst (heal_chunks cancelled n chunks (raw, ram)) = None \<Longrightarrow>
   fst (snd (heal_chunks cancelled n chunks (raw, ram))) = raw @ concat chunks
   \<and> (case snd (snd (heal_chunks cancelled n chunks (raw, ram))) of None \<Rightarrow> True
      | Some e \<Rightarrow> ram \<noteq> None \<and> e = the ram @ concat chunks)"
proof (induction chunks arbitrary: n raw ram)
  case (Cons c cs)
  let ?ram = "case ram of None \<Rightarrow> None
    | Some buf \<Rightarrow> if length buf + length c \<le> MAX_RAM_EDGES then Some (buf @ c) else None"
  from Cons.prems have step: "heal_chunks cancelled n (c # cs) (raw, ram) = heal_chunks cancelled (n + 1) cs (raw @ c, ?ram)"
    and none: "fst (heal_chunks cancelled (n + 1) cs (raw @ c, ?ram)) = None"
    by (auto split: if_splits)
  have ram: "?ram \<noteq> None \<Longrightarrow> ram \<noteq> None \<and> the ?ram = the ram @ c"
    by (auto split: option.splits if_splits)
  note IH = Cons.IH [OF none]
  show ?case
  proof (cases "snd (snd (heal_chunks cancelled (n + 1) cs (raw @ c, ?ram)))")
    case None
    with IH show ?thesis by (simp only: step) simp
  next
    case (Some e)
    with IH have "?ram \<noteq> None" "e = the ?ram @ concat cs" by simp_all
    with IH Some ram show ?thesis by (simp only: step) simp
  qed
qed (simp split: option.split)

lemma heal_complete:
  assumes "real_paths (concat parsed)" and run: "heal_edges h cancelled parsed g = (None, g')"
  shows "complete h g' \<and> g_edges_resolved g'"
proof -
  let ?r = "heal_chunks cancelled 0 parsed ([], Some [])"
  let ?later = "\<lambda>k. cancelled (length parsed + k)"
  let ?g = "g\<lparr>g_raw_complete := True, g_edges_resolved := False, g_raw := concat parsed\<rparr>"
  have none: "fst ?r = None" using run by (auto simp: heal_edges_def Let_def split: option.splits)
  note raw = heal_chunks_raw [OF none]
  have eq: "g\<lparr>g_raw_complete := False, g_edges_resolved := False, g_raw := [], g_raw := concat parsed,
      g_raw_complete := True\<rparr> = ?g"
    by (cases g) simp
  show ?thesis
  proof (cases "snd (snd ?r)")
    case None
    then have "resolve_edges_phase2 h ?later ?g = (None, g')"
      using run none raw by (simp add: heal_edges_def Let_def flip: eq)
    from phase2_complete [OF _ this] assms(1) show ?thesis by simp
  next
    case (Some e)
    then have "e = concat parsed" using raw by simp
    then have "resolve_edges_from_ram h ?later (concat parsed) None (?g\<lparr>g_calls := []\<rparr>) = (None, g')"
      using run none raw Some by (simp add: heal_edges_def Let_def flip: eq)
    moreover have "complete h g' \<and> g_edges_resolved g'" if "concat parsed = []"
      using calculation that by (auto simp: resolve_edges_from_ram_def complete_def all_calls_def)
    ultimately show ?thesis
      using from_ram_complete [of h ?later "?g\<lparr>g_calls := []\<rparr>" None g'] by (cases "concat parsed = []") auto
  qed
qed

lemma delete_calls_uncancelled: "fst (delete_calls (\<lambda>_. False) n cs calls) = (None, n + length cs)"
  by (induction cs arbitrary: n calls) auto

lemma reresolve_uncancelled: "fst (reresolve_files h (\<lambda>_. False) RS g) = None"
proof -
  have "fst (reresolve_batches h g (\<lambda>_. False) n cs s) = None" for n cs s
    by (induction cs arbitrary: n s) (auto simp: Let_def)
  then show ?thesis by (simp add: reresolve_files_def Let_def delete_calls_uncancelled)
qed

lemma heal_uncancelled: "fst (heal_edges h (\<lambda>_. False) parsed g) = None"
proof -
  have "fst (heal_chunks (\<lambda>_. False) n cs acc) = None" for n cs acc
    by (induction cs arbitrary: n acc) auto
  then show ?thesis by (auto simp: heal_edges_def Let_def passes_uncancelled split: option.split)
qed

lemma aborted_unmarked:
  "\<not> g_edges_resolved g \<Longrightarrow> fst (reresolve_files h cancelled RS g) = Some e \<Longrightarrow>
     \<not> g_edges_resolved (snd (reresolve_files h cancelled RS g))"
  "fst (heal_edges h cancelled parsed g) = Some e \<Longrightarrow> \<not> g_edges_resolved (snd (heal_edges h cancelled parsed g))"
  by (auto simp: resolve_edges_phase2_def reresolve_files_def heal_edges_def resolve_edges_from_ram_def Let_def
      split: option.splits if_splits)

lemma incremental_run_cases:
  "incremental_run h cancelled parsed st indexed changes g =
     (let g2 = edited st changes g; delta = delta_of st changes g; affected = removed changes @ processed changes;
          scoped = (g_raw_complete g \<and> g_edges_resolved g);
          r = (if scoped then
                 (let r = resolve_edges_incremental_with h cancelled affected
                        (dir1_callers g (removed_surface_files delta) affected)
                        (added_names delta) (Some indexed) g2
                  in case fst r of Some e \<Rightarrow> r | None \<Rightarrow> (None, (snd r)\<lparr>g_edges_resolved := True\<rparr>))
               else if g_raw_complete g then resolve_edges_phase2 h cancelled g2
               else heal_edges h cancelled parsed g2)
      in if st_failed st then (Some Streaming_Failed, g2)
         else (case fst r of Some e \<Rightarrow> Some Aborted | None \<Rightarrow> None, snd r))"
proof -
  have d: "dir1_callers (edited st changes g) = dir1_callers g"
    by (intro ext) (simp add: dir1_callers_def edited_fields)
  have c: "(if rs = [] then [] else dir1_callers g rs aff) = dir1_callers g rs aff" for rs aff
    by (simp add: dir1_callers_def)
  note defs = incremental_run_def Let_def edited_def [symmetric] processed_def [symmetric] removed_def [symmetric]
    delta_of_def [symmetric] edited_fields(3) d
  show ?thesis
  proof (cases "g_raw_complete g \<and> g_edges_resolved g")
    case True
    then show ?thesis by (simp only: defs HOL.simp_thms if_True c)
  next
    case False
    then show ?thesis by (simp only: defs HOL.simp_thms if_True if_False)
  qed
qed

lemma scoped_complete:
  assumes h: "host_ok h" and ok: "edit_ok h st changes g" and full: "complete h g"
    and run: "resolve_edges_incremental_with h cancelled (removed changes @ processed changes)
      (dir1_callers g (removed_surface_files (delta_of st changes g)) (removed changes @ processed changes))
      (added_names (delta_of st changes g)) indexed (edited st changes g) = (None, g')"
  shows "complete h g'"
proof (cases "removed changes @ processed changes = []")
  case True
  then have [simp]: "removed changes = []" "processed changes = []" by simp_all
  from ok have "st_symbols st = []" "st_raw st = []"
    by (cases "st_symbols st"; cases "st_raw st"; simp add: edit_ok_def)+
  then have "edited st changes g = g\<lparr>g_edges_resolved := False\<rparr>"
    by (cases g) (simp add: edited_def write_streamed_def delete_files_data_incremental_def)
  with run full show ?thesis by (simp add: resolve_edges_incremental_with_def complete_def all_calls_def) auto
next
  case False
  let ?g2 = "edited st changes g" and ?aff = "removed changes @ processed changes"
  let ?callers = "dir1_callers g (removed_surface_files (delta_of st changes g)) ?aff"
  let ?names = "added_names (delta_of st changes g)"
  define RS where "RS = build_resolve_set ?g2 ?aff ?callers ?names"
  have paths: "real_paths (g_raw ?g2)"
    using ok by (auto simp: edit_ok_def edited_fields real_paths_def list_all_iff)
  show ?thesis
  proof (cases "case indexed of None \<Rightarrow> False | Some i \<Rightarrow> exceeds_incremental_phase2_budget (length RS) i")
    case True
    have "resolve_edges_phase2 h cancelled ?g2 = (None, g')"
      using run [unfolded resolve_edges_incremental_with_def if_not_P [OF False] Let_def RS_def [symmetric] if_P [OF True]] .
    then show ?thesis using phase2_complete [OF paths] by blast
  next
    case small: False
    have run': "reresolve_files h cancelled RS ?g2 = (None, g')"
      using run [unfolded resolve_edges_incremental_with_def if_not_P [OF False] Let_def RS_def [symmetric] if_not_P [OF small]] .
    have RS: "set RS = set ?aff \<union> set ?callers \<union> {rr_from_file r |r. r \<in> set (g_raw ?g2) \<and> rr_to_name r \<in> set ?names}"
      unfolding RS_def by (rule set_build_resolve_set)
    have "complete h g' \<and> g_symbols g' = g_symbols ?g2 \<and> g_raw g' = g_raw ?g2"
    proof (rule reresolve_complete [OF _ run'])
      show "distinct RS" by (simp add: RS_def distinct_build_resolve_set)
      show "mset (g_calls ?g2) = mset (resolved_rows h (name_bucket h (g_symbols g)) (g_raw g))"
        using full by (simp add: complete_def all_calls_def edited_fields)
      have "filter (\<lambda>r. rr_from_file r \<notin> set RS) (st_raw st) = []"
        using ok RS by (auto simp: edit_ok_def list_all_iff filter_empty_conv)
      moreover have "filter (\<lambda>r. rr_from_file r \<notin> set RS) (filter (\<lambda>r. rr_from_file r \<notin> set ?aff) (g_raw g))
          = filter (\<lambda>r. rr_from_file r \<notin> set RS) (g_raw g)"
        using RS by (auto intro!: filter_cong)
      ultimately show "filter (\<lambda>r. rr_from_file r \<notin> set RS) (g_raw g) = filter (\<lambda>r. rr_from_file r \<notin> set RS) (g_raw ?g2)"
        by (simp only: edited_fields filter_append append_Nil2)
      show "resolve_row h (name_bucket h (g_symbols ?g2)) r = resolve_row h (name_bucket h (g_symbols g)) r"
        if "r \<in> set (g_raw ?g2)" "rr_from_file r \<notin> set RS" for r
        by (rule row_outside [OF h ok full _ _ _ that]) (use RS in auto)
    qed
    then show ?thesis by blast
  qed
qed

lemma incremental_run_outcome:
  assumes "host_ok h" "edit_ok h st changes g" "real_paths (concat parsed)"
    and "\<not> g_edges_resolved g \<or> complete h g"
    and "incremental_run h cancelled parsed st indexed changes g = (err, g')"
  shows "if err = None then complete h g' \<and> g_edges_resolved g' else \<not> g_edges_resolved g'"
proof -
  let ?g2 = "edited st changes g" and ?aff = "removed changes @ processed changes"
  let ?run = "resolve_edges_incremental_with h cancelled ?aff
    (dir1_callers g (removed_surface_files (delta_of st changes g)) ?aff)
    (added_names (delta_of st changes g)) (Some indexed) ?g2"
  have paths: "real_paths (g_raw ?g2)"
    using assms(2) by (auto simp: edit_ok_def edited_fields real_paths_def list_all_iff)
  show ?thesis
  proof (cases "st_failed st")
    case True
    with assms(5) show ?thesis by (auto simp: incremental_run_cases Let_def edited_fields)
  next
    case ok: False
    consider (scoped) "g_raw_complete g" "g_edges_resolved g" | (replay) "g_raw_complete g" "\<not> g_edges_resolved g"
      | (heal) "\<not> g_raw_complete g" by blast
    then show ?thesis
    proof cases
      case scoped
      then have full: "complete h g" using assms(4) by simp
      show ?thesis
      proof (cases "fst ?run")
        case None
        then have "complete h (snd ?run)"
          using scoped_complete [OF assms(1,2) full, of cancelled "Some indexed" "snd ?run"] by (metis prod.collapse)
        with None scoped ok assms(5) show ?thesis
          by (auto simp: incremental_run_cases Let_def complete_def all_calls_def)
      next
        case (Some e)
        then have "\<not> g_edges_resolved (snd ?run)"
          using passes_aborted(1) [OF edited_fields(2)] aborted_unmarked(1) [OF edited_fields(2)]
          by (auto simp: resolve_edges_incremental_with_def Let_def split: if_splits)
        with Some scoped ok assms(5) show ?thesis by (auto simp: incremental_run_cases Let_def)
      qed
    next
      case replay
      with ok assms(5) have r: "err = (case fst (resolve_edges_phase2 h cancelled ?g2) of Some e \<Rightarrow> Some Aborted | None \<Rightarrow> None)"
        "g' = snd (resolve_edges_phase2 h cancelled ?g2)"
        by (auto simp: incremental_run_cases Let_def)
      show ?thesis using phase2_complete [OF paths, of h cancelled g'] passes_aborted(1) [OF edited_fields(2)] r
        by (cases "fst (resolve_edges_phase2 h cancelled ?g2)") (auto simp: prod_eq_iff)
    next
      case heal
      with ok assms(5) have r: "err = (case fst (heal_edges h cancelled parsed ?g2) of Some e \<Rightarrow> Some Aborted | None \<Rightarrow> None)"
        "g' = snd (heal_edges h cancelled parsed ?g2)"
        by (auto simp: incremental_run_cases Let_def)
      show ?thesis using heal_complete [OF assms(3), of h cancelled ?g2 g'] aborted_unmarked(2) [of h cancelled parsed ?g2] r
        by (cases "fst (heal_edges h cancelled parsed ?g2)") (auto simp: prod_eq_iff)
    qed
  qed
qed


section \<open>Concrete edits\<close>

definition demo_pos :: "str \<Rightarrow> str \<Rightarrow> str \<Rightarrow> int \<Rightarrow> symbol_pos" where
  "demo_pos file scope name line =
     \<lparr>sp_fqn = file @ ''::'' @ scope @ name, sp_file = file, sp_name = name, sp_start = line, sp_end = line + 1\<rparr>"

text \<open>A call from one file to the only symbol of its name, and an edit that moves the symbol down.\<close>

definition demo_graph :: graph where
  "demo_graph = \<lparr>g_symbols = [demo_pos ''a.py'' [] ''f'' 1], g_raw = [demo_raw ''b.py'' ''f''],
     g_calls = [call_of (demo_raw ''b.py'' ''f'') (demo_pos ''a.py'' [] ''f'' 1)],
     g_edges_resolved = True, g_raw_complete = True\<rparr>"

definition demo_edit :: streamed where
  "demo_edit = \<lparr>st_symbols = [demo_pos ''a.py'' [] ''f'' 5], st_raw = [], st_failed = False\<rparr>"

lemmas demo_defs = demo_graph_def demo_edit_def demo_pos_def demo_raw_def demo_host_def

lemma demo_graph_complete: "complete demo_host demo_graph"
  by (simp add: complete_def all_calls_def resolve_row_def name_bucket_def Let_def demo_defs
      select_best_candidate_def or_option_def prefer_alt split: if_splits)


text \<open>Two methods of one name in a file, and an edit that swaps them: the surface is the same, so the caller is
  not resolved again and keeps the method that no longer comes first.\<close>

definition swap_graph :: graph where
  "swap_graph = \<lparr>g_symbols = [demo_pos ''a.py'' ''A::'' ''f'' 1, demo_pos ''a.py'' ''B::'' ''f'' 5],
     g_raw = [demo_raw ''b.py'' ''f''],
     g_calls = [call_of (demo_raw ''b.py'' ''f'') (demo_pos ''a.py'' ''A::'' ''f'' 1)],
     g_edges_resolved = True, g_raw_complete = True\<rparr>"

definition swap_edit :: streamed where
  "swap_edit = \<lparr>st_symbols = [demo_pos ''a.py'' ''B::'' ''f'' 1, demo_pos ''a.py'' ''A::'' ''f'' 5],
     st_raw = [], st_failed = False\<rparr>"

lemma swap_graph_complete: "complete demo_host swap_graph"
  by (simp add: complete_def all_calls_def resolve_row_def name_bucket_def Let_def demo_defs swap_graph_def pos_le_def
      select_best_candidate_def or_option_def prefer_alt split: if_splits option.splits)

lemma edited_swap: "g_symbols (edited swap_edit [mk_change ''a.py'' Modified] swap_graph) = st_symbols swap_edit"
  "g_raw (edited swap_edit [mk_change ''a.py'' Modified] swap_graph) = g_raw swap_graph"
  by (simp_all add: edited_fields swap_graph_def swap_edit_def demo_defs mk_change_def processed_def removed_def upsert_symbol_def)

lemma swap_paths: "processed [mk_change p Modified] = [p]" "removed [mk_change p Modified] = []"
  by (simp_all add: processed_def removed_def mk_change_def)

lemma swap_delta:
  "delta_of swap_edit [mk_change ''a.py'' Modified] swap_graph = \<lparr>removed_surface_files = [], added_names = []\<rparr>"
proof -
  have "load_file_surface (st_symbols swap_edit) [''a.py''] = load_file_surface (g_symbols swap_graph) [''a.py'']"
    by (intro ext) (auto simp: load_file_surface_def Let_def swap_edit_def swap_graph_def demo_pos_def)
  then show ?thesis
    by (simp add: delta_of_def edited_swap compute_surface_delta_def swap_paths)
qed

lemma chunks_of_short: "xs \<noteq> [] \<Longrightarrow> length xs \<le> d \<Longrightarrow> chunks_of d xs = [xs]"
  by (subst chunks_of.simps, subst chunks_of.simps) (cases d, auto)

lemma swap_run:
  "snd (incremental_run demo_host (\<lambda>_. False) [] swap_edit 2 [mk_change ''a.py'' Modified] swap_graph)
     = (edited swap_edit [mk_change ''a.py'' Modified] swap_graph)
         \<lparr>g_calls := g_calls swap_graph, g_edges_resolved := True\<rparr>"
proof -
  have files: "build_resolve_set (edited swap_edit [mk_change ''a.py'' Modified] swap_graph) [''a.py''] [] [] = [''a.py'']"
    by (simp add: build_resolve_set_def)
  have "filter (\<lambda>r. rr_from_file r \<in> {''a.py''}) (g_raw swap_graph) = []"
    "filter (\<lambda>c. call_in_file c \<notin> {''a.py''}) (g_calls swap_graph) = g_calls swap_graph"
    by (simp_all add: swap_graph_def demo_raw_def call_in_file_def call_of_def)
  then have "reresolve_files demo_host (\<lambda>_. False) [''a.py''] (edited swap_edit [mk_change ''a.py'' Modified] swap_graph)
      = (None, (edited swap_edit [mk_change ''a.py'' Modified] swap_graph)\<lparr>g_calls := g_calls swap_graph\<rparr>)"
    by (simp add: reresolve_files_def chunks_of_short CALLS_DELETE_TXN_CHUNK_def INCREMENTAL_PHASE2_FILE_BATCH_def
        edited_fields(1) edited_swap chunks_of.simps Let_def sink_all_def)
  moreover have "g_raw_complete swap_graph" "g_edges_resolved swap_graph" "\<not> st_failed swap_edit"
    by (simp_all add: swap_graph_def swap_edit_def)
  ultimately show ?thesis
    by (simp add: incremental_run_cases Let_def swap_delta swap_paths dir1_callers_def files
        resolve_edges_incremental_with_def exceeds_incremental_phase2_budget_def)
qed

lemma swapped_symbols_go_stale:
  "complete demo_host swap_graph
   \<and> (let g' = snd (incremental_run demo_host (\<lambda>_. False) [] swap_edit 2 [mk_change ''a.py'' Modified] swap_graph)
      in g_edges_resolved g' \<and> \<not> complete demo_host g')"
proof -
  have "all_calls demo_host ((edited swap_edit [mk_change ''a.py'' Modified] swap_graph)
      \<lparr>g_calls := g_calls swap_graph, g_edges_resolved := True\<rparr>)
    = [call_of (demo_raw ''b.py'' ''f'') (demo_pos ''a.py'' ''B::'' ''f'' 1)]"
    by (simp add: all_calls_def edited_swap)
      (simp add: resolve_row_def name_bucket_def Let_def demo_defs swap_graph_def swap_edit_def pos_le_def
        select_best_candidate_def or_option_def prefer_alt split: if_splits option.splits)
  moreover have "g_calls swap_graph = [call_of (demo_raw ''b.py'' ''f'') (demo_pos ''a.py'' ''A::'' ''f'' 1)]"
    by (simp add: swap_graph_def)
  ultimately show ?thesis
    unfolding Let_def swap_run
    by (intro conjI swap_graph_complete) (simp_all add: complete_def call_of_def demo_pos_def)
qed

end
