(* ===== verification/Graph_Expand.thy ===== *)
theory Graph_Expand
  imports Merger Paths
begin

text \<open>
  Expansion of a query's candidates over the call graph and the narrowing candidates of a chunk
  (\<open>src/query/graph_expand.rs\<close>, \<open>find_db_for_file\<close> of \<open>src/query/mod.rs\<close>).

  A database is the record \<open>gdb\<close>: its tables in any order, each SELECT with the rows its WHERE, ORDER BY
  and LIMIT clauses keep, and \<open>db_fails\<close> the statements that return an error. Line numbers of rows are
  the \<open>i64\<close> of the store, those of chunks the \<open>u32\<close> they are cast to. An identifier is kept without
  the brackets U+27E8 and U+27E9 the database prints around it, which \<open>strip_id_brackets\<close> removes.
\<close>

record symbol_row =
  sr_fqn :: str
  sr_file :: str
  sr_name :: str
  sr_start :: int
  sr_end :: int
  sr_kind :: "str option"

record chunk_row =
  cr_file :: str
  cr_start :: int
  cr_end :: int
  cr_content :: str
  cr_symbol_ref :: "str option"

record calls_row =
  cl_in :: str
  cl_out :: str
  cl_in_file :: str
  cl_out_file :: str
  cl_in_name :: "str option"
  cl_out_name :: "str option"

datatype db_query = Overlapping str nat nat | Callers str | Callees str | Symbol_Of str
  | Chunk_Of str int int | Chunk_Content str nat nat | Kind_Of str | Caller_Rows str | Callee_Rows str

record gdb =
  db_symbols :: "symbol_row list"
  db_chunks :: "chunk_row list"
  db_calls :: "calls_row list"
  db_schema_version :: nat
  db_fails :: "db_query \<Rightarrow> bool"

text \<open>The map of open databases, with its iteration order.\<close>

type_synonym db_map = "(str, gdb) hmap"

definition find_db_for_file :: "db_map \<Rightarrow> str \<Rightarrow> gdb option" where
  "find_db_for_file m file =
     (case find (\<lambda>e. path_in_repo file (fst e)) m of
        Some e \<Rightarrow> Some (snd e)
      | None \<Rightarrow> (case m of [] \<Rightarrow> None | e # _ \<Rightarrow> Some (snd e)))"

record expanded_chunk =
  ec_file :: str
  ec_line_start :: nat
  ec_line_end :: nat
  ec_score :: f32
  ec_content :: str
  ec_symbol :: "str option"
  ec_symbol_fqn :: "str option"
  ec_symbol_kind :: "str option"

definition CALLER_SCORE_FACTOR :: f32 where "CALLER_SCORE_FACTOR = 0x3F19999A"
definition CALLEE_SCORE_FACTOR :: f32 where "CALLEE_SCORE_FACTOR = 0x3F000000"
definition SCORE_FLOOR :: f32 where "SCORE_FLOOR = 0x3E19999A"
definition MAX_DEPTH :: nat where "MAX_DEPTH = 2"
definition MAX_BONUS_CHUNKS :: nat where "MAX_BONUS_CHUNKS = 30"
definition NEIGHBOUR_LIMIT :: nat where "NEIGHBOUR_LIMIT = 20"

text \<open>\<open>as u32\<close> of an \<open>i64\<close>.\<close>

definition u32_of_i64 :: "int \<Rightarrow> nat" where
  "u32_of_i64 i = nat (i mod 2 ^ 32)"

text \<open>\<open>rsplit("::").next()\<close>: what follows the last separator.\<close>

fun short_name :: "str \<Rightarrow> str" where
  "short_name [] = []"
| "short_name (c # cs) =
     (if contains_str cs ''::'' then short_name cs
      else if starts_with (c # cs) ''::'' then drop 1 cs else c # cs)"

section \<open>The statements\<close>

definition query_overlapping_symbols :: "gdb \<Rightarrow> str \<Rightarrow> nat \<Rightarrow> nat \<Rightarrow> symbol_row list option" where
  "query_overlapping_symbols db file chunk_start chunk_end =
     (if db_fails db (Overlapping file chunk_start chunk_end) then None
      else Some (filter (\<lambda>r. sr_file r = file \<and> sr_start r \<le> int chunk_end \<and> int chunk_start \<le> sr_end r)
        (db_symbols db)))"

text \<open>The name of the symbol a link of a version 1 row points at.\<close>

definition linked_name :: "gdb \<Rightarrow> str \<Rightarrow> str option" where
  "linked_name db i = map_option sr_name (find (\<lambda>r. sr_fqn r = i) (db_symbols db))"

text \<open>A row whose name is null does not deserialize, and then the whole answer is an error.\<close>

definition query_callers :: "gdb \<Rightarrow> str \<Rightarrow> nat \<Rightarrow> str list option" where
  "query_callers db fqn schema_version =
     (if db_fails db (Callers fqn) then None
      else if 2 \<le> schema_version then
        those (map cl_in_name (take NEIGHBOUR_LIMIT (filter (\<lambda>r. cl_out_name r = Some fqn) (db_calls db))))
      else
        (let name = short_name fqn in
         Some (map (\<lambda>r. cl_in_file r @ ''::'' @ name)
           (take NEIGHBOUR_LIMIT (filter (\<lambda>r. linked_name db (cl_out r) = Some name) (db_calls db))))))"

definition query_callees :: "gdb \<Rightarrow> str \<Rightarrow> nat \<Rightarrow> str list option" where
  "query_callees db fqn schema_version =
     (if db_fails db (Callees fqn) then None
      else if 2 \<le> schema_version then
        those (map cl_out_name (take NEIGHBOUR_LIMIT (filter (\<lambda>r. cl_in_name r = Some fqn) (db_calls db))))
      else
        (let name = short_name fqn in
         Some (map (\<lambda>r. cl_out_file r @ ''::'' @ name)
           (take NEIGHBOUR_LIMIT (filter (\<lambda>r. linked_name db (cl_in r) = Some name) (db_calls db))))))"

definition fetch_chunk_for_fqn :: "gdb \<Rightarrow> str \<Rightarrow> f32 \<Rightarrow> (str \<times> nat \<times> nat) set \<Rightarrow> expanded_chunk option" where
  "fetch_chunk_for_fqn db fqn score base_keys =
     (case (if db_fails db (Symbol_Of fqn) then None else find (\<lambda>r. sr_fqn r = fqn) (db_symbols db)) of
        None \<Rightarrow> None
      | Some r \<Rightarrow>
          (case (if db_fails db (Chunk_Of (sr_file r) (sr_start r) (sr_end r)) then None
                 else first_min_by cr_start
                   (filter (\<lambda>c. cr_file c = sr_file r \<and> cr_start c \<le> sr_end r \<and> sr_start r \<le> cr_end c)
                     (db_chunks db))) of
             None \<Rightarrow> None
           | Some row \<Rightarrow>
               (let ls = u32_of_i64 (cr_start row); le = u32_of_i64 (cr_end row) in
                if (cr_file row, ls, le) \<in> base_keys then None
                else Some \<lparr>ec_file = cr_file row, ec_line_start = ls, ec_line_end = le, ec_score = score,
                       ec_content = cr_content row, ec_symbol = Some (sr_name r),
                       ec_symbol_fqn = Some (sr_fqn r), ec_symbol_kind = sr_kind r\<rparr>)))"

section \<open>The expansion\<close>

text \<open>The stack is a list with the end of the \<open>Vec\<close> first.\<close>

record expansion =
  xp_expanded :: "expanded_chunk list"
  xp_seen :: "str set"
  xp_queue :: "(str \<times> f32 \<times> nat) list"

definition visit :: "gdb \<Rightarrow> (str \<times> nat \<times> nat) set \<Rightarrow> f32 \<Rightarrow> nat \<Rightarrow> str \<Rightarrow> expansion \<Rightarrow> expansion" where
  "visit db base_keys score depth name st =
     (if name \<in> xp_seen st then st
      else
        (let st' = st\<lparr>xp_seen := insert name (xp_seen st)\<rparr> in
         case fetch_chunk_for_fqn db name score base_keys of
           None \<Rightarrow> st'
         | Some chunk \<Rightarrow>
             st'\<lparr>xp_expanded := (if length (xp_expanded st) < MAX_BONUS_CHUNKS then xp_expanded st @ [chunk]
                                else xp_expanded st),
                 xp_queue := (name, score, depth + 1) # xp_queue st\<rparr>))"

definition expand_toward ::
  "gdb \<Rightarrow> (str \<times> nat \<times> nat) set \<Rightarrow> f32 \<Rightarrow> nat \<Rightarrow> str list option \<Rightarrow> expansion \<Rightarrow> expansion" where
  "expand_toward db base_keys score depth names st =
     (if f32_le SCORE_FLOOR score
      then fold (visit db base_keys score depth) (case names of None \<Rightarrow> [] | Some ns \<Rightarrow> ns) st
      else st)"

definition expand_node ::
  "gdb \<Rightarrow> nat \<Rightarrow> (str \<times> nat \<times> nat) set \<Rightarrow> str \<Rightarrow> f32 \<Rightarrow> nat \<Rightarrow> expansion \<Rightarrow> expansion" where
  "expand_node db version base_keys fqn score depth st =
     expand_toward db base_keys (f32_mul score CALLEE_SCORE_FACTOR) depth (query_callees db fqn version)
       (expand_toward db base_keys (f32_mul score CALLER_SCORE_FACTOR) depth (query_callers db fqn version) st)"

text \<open>The most pops one entry can cause: forty names enter the stack for each popped entry above the
  depth limit.\<close>

fun pops_below :: "nat \<Rightarrow> nat" where
  "pops_below 0 = 1"
| "pops_below (Suc n) = 1 + 2 * NEIGHBOUR_LIMIT * pops_below n"

definition pops :: "(str \<times> f32 \<times> nat) list \<Rightarrow> nat" where
  "pops q = sum_list (map (\<lambda>(_, _, depth). pops_below (MAX_DEPTH - depth)) q)"

lemma pops_Cons [simp]: "pops ((f, s, d) # q) = pops_below (MAX_DEPTH - d) + pops q"
  by (simp add: pops_def)

lemma pops_visit: "pops (xp_queue (visit db keys s d n st)) \<le> pops_below (MAX_DEPTH - Suc d) + pops (xp_queue st)"
  by (simp add: visit_def Let_def split: option.split)

lemma pops_fold:
  "pops (xp_queue (fold (visit db keys s d) ns st)) \<le> length ns * pops_below (MAX_DEPTH - Suc d) + pops (xp_queue st)"
proof (induction ns arbitrary: st)
  case (Cons n ns)
  show ?case using Cons.IH [of "visit db keys s d n st"] pops_visit [of db keys s d n st] by simp
qed simp

lemma those_length: "those xs = Some ys \<Longrightarrow> length ys = length xs"
  by (induction xs arbitrary: ys) (auto split: option.splits)

lemma callers_limit: "query_callers db fqn v = Some ns \<Longrightarrow> length ns \<le> NEIGHBOUR_LIMIT"
  by (auto simp: query_callers_def Let_def dest: those_length split: if_splits)

lemma callees_limit: "query_callees db fqn v = Some ns \<Longrightarrow> length ns \<le> NEIGHBOUR_LIMIT"
  by (auto simp: query_callees_def Let_def dest: those_length split: if_splits)

lemma pops_toward:
  assumes "\<And>ns. names = Some ns \<Longrightarrow> length ns \<le> NEIGHBOUR_LIMIT"
  shows "pops (xp_queue (expand_toward db keys s d names st)) \<le> NEIGHBOUR_LIMIT * pops_below (MAX_DEPTH - Suc d) + pops (xp_queue st)"
proof (cases names)
  case None
  then show ?thesis by (simp add: expand_toward_def)
next
  case (Some ns)
  then have "length ns * pops_below (MAX_DEPTH - Suc d) \<le> NEIGHBOUR_LIMIT * pops_below (MAX_DEPTH - Suc d)"
    using assms by (intro mult_le_mono1)
  then have "pops (xp_queue (fold (visit db keys s d) ns st)) \<le>
      NEIGHBOUR_LIMIT * pops_below (MAX_DEPTH - Suc d) + pops (xp_queue st)"
    using pops_fold [of db keys s d ns st] by linarith
  then show ?thesis using Some by (simp add: expand_toward_def)
qed

lemma pops_node:
  assumes "d < MAX_DEPTH"
  shows "pops (xp_queue (expand_node db v keys f s d st)) < pops_below (MAX_DEPTH - d) + pops (xp_queue st)"
proof -
  have "MAX_DEPTH - d = Suc (MAX_DEPTH - Suc d)" using assms by simp
  then show ?thesis
    using pops_toward [of "query_callees db f v" db keys "f32_mul s CALLEE_SCORE_FACTOR" d
        "expand_toward db keys (f32_mul s CALLER_SCORE_FACTOR) d (query_callers db f v) st"]
      pops_toward [of "query_callers db f v" db keys "f32_mul s CALLER_SCORE_FACTOR" d st]
      callees_limit [of db f v] callers_limit [of db f v]
    by (simp add: expand_node_def)
qed

lemma pops_below_pos: "0 < pops_below n"
  by (cases n) simp_all

text \<open>The loop over the stack; the flag is \<open>break 'outer\<close>.\<close>

function drain :: "gdb \<Rightarrow> nat \<Rightarrow> (str \<times> nat \<times> nat) set \<Rightarrow> expansion \<Rightarrow> bool \<times> expansion" where
  "drain db version base_keys st =
     (case xp_queue st of
        [] \<Rightarrow> (False, st)
      | (fqn, score, depth) # rest \<Rightarrow>
          (let popped = st\<lparr>xp_queue := rest\<rparr> in
           if MAX_DEPTH \<le> depth then drain db version base_keys popped
           else if MAX_BONUS_CHUNKS \<le> length (xp_expanded st) then (True, popped)
           else drain db version base_keys (expand_node db version base_keys fqn score depth popped)))"
  by pat_completeness auto

termination
proof (relation "measure (\<lambda>(_, _, _, st). pops (xp_queue st))", goal_cases)
  case 1
  then show ?case by simp
next
  case (2 db v keys st x rest f y s d popped)
  have "xp_queue st = (f, s, d) # rest" using 2(1,2,3) by simp
  moreover have "xp_queue popped = rest" unfolding 2(4) by simp
  ultimately show ?case using pops_below_pos [of "MAX_DEPTH - d"]
    unfolding in_measure split_conv by (simp only: pops_Cons)
next
  case (3 db v keys st x rest f y s d popped)
  have "xp_queue st = (f, s, d) # rest" using 3(1,2,3) by simp
  moreover have "xp_queue popped = rest" unfolding 3(4) by simp
  moreover have "d < MAX_DEPTH" using 3(5) by simp
  ultimately show ?case using pops_node [of d db v keys f s popped]
    unfolding in_measure split_conv by (simp only: pops_Cons)
qed

declare drain.simps [simp del]

fun expand_bases ::
  "db_map \<Rightarrow> nat \<Rightarrow> (str \<times> nat \<times> nat) set \<Rightarrow> merge_chunk list \<Rightarrow> expansion \<Rightarrow> expansion" where
  "expand_bases m version base_keys [] st = st"
| "expand_bases m version base_keys (b # bs) st =
     (case find_db_for_file m (mc_file b) of
        None \<Rightarrow> expand_bases m version base_keys bs st
      | Some db \<Rightarrow>
          (case query_overlapping_symbols db (mc_file b) (mc_line_start b) (mc_line_end b) of
             None \<Rightarrow> expand_bases m version base_keys bs st
           | Some overlapping \<Rightarrow>
               if overlapping = [] then expand_bases m version base_keys bs st
               else
                 (case drain db version base_keys
                     (st\<lparr>xp_queue := rev (map (\<lambda>r. (sr_fqn r, mc_score b, 0)) overlapping)\<rparr>) of
                    (True, st') \<Rightarrow> st'
                  | (False, st') \<Rightarrow> expand_bases m version base_keys bs st')))"

definition base_keys_of :: "merge_chunk list \<Rightarrow> (str \<times> nat \<times> nat) set" where
  "base_keys_of cs = set (map (\<lambda>c. (mc_file c, mc_line_start c, mc_line_end c)) cs)"

definition graph_expand :: "merge_chunk list \<Rightarrow> db_map \<Rightarrow> nat \<Rightarrow> expanded_chunk list" where
  "graph_expand base_chunks m schema_version =
     (if m = [] then []
      else xp_expanded (expand_bases m schema_version (base_keys_of base_chunks) base_chunks
        \<lparr>xp_expanded = [], xp_seen = {}, xp_queue = []\<rparr>))"

section \<open>Narrowing candidates\<close>

record symbol_span =
  sp_span_name :: str
  sp_span_kind :: "str option"
  sp_line_start :: nat
  sp_line_end :: nat

text \<open>\<open>dedup_by_key\<close>: of neighbours with one key the first stays.\<close>

fun dedup_by_key :: "('a \<Rightarrow> 'b) \<Rightarrow> 'a list \<Rightarrow> 'a list" where
  "dedup_by_key k [] = []"
| "dedup_by_key k [x] = [x]"
| "dedup_by_key k (x # y # zs) = (if k x = k y then dedup_by_key k (x # zs) else x # dedup_by_key k (y # zs))"

definition span_lines :: "symbol_span \<Rightarrow> nat \<times> nat" where
  "span_lines s = (sp_line_start s, sp_line_end s)"

definition candidate_spans :: "gdb \<Rightarrow> merge_chunk \<Rightarrow> symbol_span list" where
  "candidate_spans db chunk =
     (case query_overlapping_symbols db (mc_file chunk) (mc_line_start chunk) (mc_line_end chunk) of
        None \<Rightarrow> []
      | Some rows \<Rightarrow>
          dedup_by_key span_lines
            (sort_key span_lines
              (filter (\<lambda>s. \<not> (sp_line_start s = mc_line_start chunk \<and> sp_line_end s = mc_line_end chunk))
                (map (\<lambda>r. \<lparr>sp_span_name = sr_name r, sp_span_kind = sr_kind r,
                           sp_line_start = max (u32_of_i64 (sr_start r)) (mc_line_start chunk),
                           sp_line_end = min (u32_of_i64 (sr_end r)) (mc_line_end chunk)\<rparr>) rows))))"

definition candidate_spans_for :: "merge_chunk list \<Rightarrow> (str \<Rightarrow> gdb option) \<Rightarrow> symbol_span list list" where
  "candidate_spans_for chunks db_for_file =
     map (\<lambda>chunk. case db_for_file (mc_file chunk) of Some db \<Rightarrow> candidate_spans db chunk | None \<Rightarrow> []) chunks"

section \<open>What an expansion contains\<close>

text \<open>\<open>reaches db v b n s d\<close>: the call graph leads from a symbol overlapping the base chunk \<open>b\<close> to \<open>n\<close> in
  \<open>d\<close> steps, each one discounting the score of \<open>b\<close> to no less than the floor.\<close>

inductive reaches :: "gdb \<Rightarrow> nat \<Rightarrow> merge_chunk \<Rightarrow> str \<Rightarrow> f32 \<Rightarrow> nat \<Rightarrow> bool" for db v b where
  seed: "query_overlapping_symbols db (mc_file b) (mc_line_start b) (mc_line_end b) = Some rows \<Longrightarrow>
    r \<in> set rows \<Longrightarrow> reaches db v b (sr_fqn r) (mc_score b) 0"
| caller: "reaches db v b f s d \<Longrightarrow> d < MAX_DEPTH \<Longrightarrow> f32_le SCORE_FLOOR (f32_mul s CALLER_SCORE_FACTOR) \<Longrightarrow>
    query_callers db f v = Some ns \<Longrightarrow> n \<in> set ns \<Longrightarrow> reaches db v b n (f32_mul s CALLER_SCORE_FACTOR) (Suc d)"
| callee: "reaches db v b f s d \<Longrightarrow> d < MAX_DEPTH \<Longrightarrow> f32_le SCORE_FLOOR (f32_mul s CALLEE_SCORE_FACTOR) \<Longrightarrow>
    query_callees db f v = Some ns \<Longrightarrow> n \<in> set ns \<Longrightarrow> reaches db v b n (f32_mul s CALLEE_SCORE_FACTOR) (Suc d)"

definition expanded_from :: "db_map \<Rightarrow> nat \<Rightarrow> merge_chunk list \<Rightarrow> expanded_chunk \<Rightarrow> bool" where
  "expanded_from m v bs e \<longleftrightarrow>
     (\<exists>b db n d. b \<in> set bs \<and> find_db_for_file m (mc_file b) = Some db \<and> reaches db v b n (ec_score e) d
        \<and> 1 \<le> d \<and> d \<le> MAX_DEPTH \<and> ec_symbol_fqn e = Some n)"

definition acceptable :: "db_map \<Rightarrow> nat \<Rightarrow> (str \<times> nat \<times> nat) set \<Rightarrow> merge_chunk list \<Rightarrow> expanded_chunk \<Rightarrow> bool" where
  "acceptable m v keys bs e \<longleftrightarrow>
     (ec_file e, ec_line_start e, ec_line_end e) \<notin> keys \<and> f32_le SCORE_FLOOR (ec_score e) \<and> expanded_from m v bs e"

lemma fetch_facts:
  "fetch_chunk_for_fqn db n s keys = Some e \<Longrightarrow>
     (ec_file e, ec_line_start e, ec_line_end e) \<notin> keys \<and> ec_score e = s \<and> ec_symbol_fqn e = Some n"
  by (auto simp: fetch_chunk_for_fqn_def Let_def find_Some_iff split: option.splits if_splits)

text \<open>The invariant of the collected chunks, and the stack's.\<close>

definition collected :: "(expanded_chunk \<Rightarrow> bool) \<Rightarrow> expansion \<Rightarrow> bool" where
  "collected P st \<longleftrightarrow> length (xp_expanded st) \<le> MAX_BONUS_CHUNKS \<and> (\<forall>e \<in> set (xp_expanded st). P e)
     \<and> distinct (map ec_symbol_fqn (xp_expanded st)) \<and> ec_symbol_fqn ` set (xp_expanded st) \<subseteq> Some ` xp_seen st"

definition stacked :: "(str \<Rightarrow> f32 \<Rightarrow> nat \<Rightarrow> bool) \<Rightarrow> expansion \<Rightarrow> bool" where
  "stacked Q st \<longleftrightarrow> (\<forall>n s d. (n, s, d) \<in> set (xp_queue st) \<longrightarrow> Q n s d)"

lemma visit_keeps:
  assumes "collected P st" "stacked Q st" "Q n s (Suc d)"
    and "\<And>e. fetch_chunk_for_fqn db n s keys = Some e \<Longrightarrow> P e"
  shows "collected P (visit db keys s d n st)" "stacked Q (visit db keys s d n st)"
proof -
  consider (old) "n \<in> xp_seen st" | (gone) "n \<notin> xp_seen st" "fetch_chunk_for_fqn db n s keys = None"
    | (new) e where "n \<notin> xp_seen st" "fetch_chunk_for_fqn db n s keys = Some e"
    by (cases "fetch_chunk_for_fqn db n s keys") auto
  then have "collected P (visit db keys s d n st) \<and> stacked Q (visit db keys s d n st)"
  proof cases
    case old
    with assms show ?thesis by (simp add: visit_def)
  next
    case gone
    with assms(1,2) show ?thesis by (auto simp: visit_def collected_def stacked_def)
  next
    case new
    then have "ec_symbol_fqn e = Some n" "P e" using fetch_facts assms(4) by blast+
    moreover have "Some n \<notin> ec_symbol_fqn ` set (xp_expanded st)" using assms(1) new(1) by (auto simp: collected_def)
    ultimately have "collected P (visit db keys s d n st)"
      using assms(1) new by (auto simp: visit_def collected_def)
    moreover have "stacked Q (visit db keys s d n st)"
      using assms(2,3) new by (simp add: visit_def stacked_def)
    ultimately show ?thesis ..
  qed
  then show "collected P (visit db keys s d n st)" "stacked Q (visit db keys s d n st)" by simp_all
qed

lemma visits_keep:
  assumes "collected P st" "stacked Q st" "\<And>n. n \<in> set ns \<Longrightarrow> Q n s (Suc d)"
    and "\<And>n e. n \<in> set ns \<Longrightarrow> fetch_chunk_for_fqn db n s keys = Some e \<Longrightarrow> P e"
  shows "collected P (fold (visit db keys s d) ns st) \<and> stacked Q (fold (visit db keys s d) ns st)"
  using assms
proof (induction ns arbitrary: st)
  case (Cons n ns)
  have Q: "Q n s (Suc d)" using Cons.prems(3) by simp
  have P: "P e" if "fetch_chunk_for_fqn db n s keys = Some e" for e
    using Cons.prems(4) [OF _ that] by simp
  note kept = visit_keeps [OF Cons.prems(1,2), of n s d db keys, OF Q P]
  have "collected P (fold (visit db keys s d) ns (visit db keys s d n st))
      \<and> stacked Q (fold (visit db keys s d) ns (visit db keys s d n st))"
    by (rule Cons.IH [OF kept]) (auto intro: Cons.prems(3,4))
  then show ?case by simp
qed simp

lemma toward_keeps:
  assumes "collected P st" "stacked Q st"
    and "\<And>ns n. f32_le SCORE_FLOOR s \<Longrightarrow> names = Some ns \<Longrightarrow> n \<in> set ns \<Longrightarrow> Q n s (Suc d)"
    and "\<And>ns n e. f32_le SCORE_FLOOR s \<Longrightarrow> names = Some ns \<Longrightarrow> n \<in> set ns \<Longrightarrow>
      fetch_chunk_for_fqn db n s keys = Some e \<Longrightarrow> P e"
  shows "collected P (expand_toward db keys s d names st) \<and> stacked Q (expand_toward db keys s d names st)"
proof (cases "names = None \<or> \<not> f32_le SCORE_FLOOR s")
  case True
  then show ?thesis using assms(1,2) by (auto simp: expand_toward_def)
next
  case False
  then obtain ns where "names = Some ns" "f32_le SCORE_FLOOR s" by auto
  then show ?thesis using visits_keep [OF assms(1,2), of ns s d db keys] assms(3,4)
    by (simp add: expand_toward_def)
qed

lemma node_keeps:
  assumes "collected (acceptable m v keys bs) st" "stacked (reaches db v b) st"
    and "reaches db v b f s d" "d < MAX_DEPTH" "b \<in> set bs" "find_db_for_file m (mc_file b) = Some db"
  shows "collected (acceptable m v keys bs) (expand_node db v keys f s d st)
    \<and> stacked (reaches db v b) (expand_node db v keys f s d st)"
proof -
  have found: "acceptable m v keys bs e"
    if "f32_le SCORE_FLOOR s'" "reaches db v b n s' (Suc d)" "fetch_chunk_for_fqn db n s' keys = Some e" for n s' e
    using that assms(4-6) fetch_facts [OF that(3)] by (auto simp: acceptable_def expanded_from_def intro!: exI)
  note up = caller [OF assms(3,4)] and down = callee [OF assms(3,4)]
  have "collected (acceptable m v keys bs) (expand_toward db keys (f32_mul s CALLER_SCORE_FACTOR) d (query_callers db f v) st)
      \<and> stacked (reaches db v b) (expand_toward db keys (f32_mul s CALLER_SCORE_FACTOR) d (query_callers db f v) st)"
    using assms(1,2) by (rule toward_keeps) (blast intro: up found)+
  then show ?thesis unfolding expand_node_def
    by (intro toward_keeps) (blast intro: down found)+
qed

lemma drain_keeps:
  assumes "collected (acceptable m v keys bs) st" "stacked (reaches db v b) st"
    and "b \<in> set bs" "find_db_for_file m (mc_file b) = Some db"
  shows "collected (acceptable m v keys bs) (snd (drain db v keys st))"
  using assms
proof (induction db v keys st rule: drain.induct)
  case (1 db v keys st)
  show ?case
  proof (cases "xp_queue st")
    case Nil
    then show ?thesis using "1.prems" by (subst drain.simps) simp
  next
    case (Cons x rest)
    obtain f s d where x: "x = (f, s, d)" by (cases x) auto
    let ?popped = "st\<lparr>xp_queue := rest\<rparr>"
    have popped: "collected (acceptable m v keys bs) ?popped" "stacked (reaches db v b) ?popped"
      and f: "reaches db v b f s d"
      using "1.prems"(1,2) Cons x by (simp_all add: collected_def stacked_def)
    show ?thesis
    proof (cases "MAX_DEPTH \<le> d")
      case True
      then show ?thesis using "1.IH"(1) [OF Cons x [symmetric] refl refl True popped "1.prems"(3,4)] Cons x
        by (subst drain.simps) simp
    next
      case deep: False
      show ?thesis
      proof (cases "MAX_BONUS_CHUNKS \<le> length (xp_expanded st)")
        case True
        then show ?thesis using popped deep Cons x by (subst drain.simps) simp
      next
        case False
        have "collected (acceptable m v keys bs) (expand_node db v keys f s d ?popped)
          \<and> stacked (reaches db v b) (expand_node db v keys f s d ?popped)"
          using popped f deep "1.prems"(3,4) by (intro node_keeps) simp_all
        then show ?thesis using "1.IH"(2) [OF Cons x [symmetric] refl refl deep False _ _ "1.prems"(3,4)] deep False Cons x
          by (subst drain.simps) simp
      qed
    qed
  qed
qed

lemma bases_keep:
  assumes "collected (acceptable m v keys all) st" "set bs \<subseteq> set all"
  shows "collected (acceptable m v keys all) (expand_bases m v keys bs st)"
  using assms
proof (induction bs arbitrary: st)
  case (Cons b bs)
  show ?case
  proof (cases "find_db_for_file m (mc_file b)")
    case None
    with Cons show ?thesis by simp
  next
    case db: (Some db)
    show ?thesis
    proof (cases "query_overlapping_symbols db (mc_file b) (mc_line_start b) (mc_line_end b)")
      case None
      with Cons db show ?thesis by simp
    next
      case rows: (Some rows)
      let ?st = "st\<lparr>xp_queue := rev (map (\<lambda>r. (sr_fqn r, mc_score b, 0)) rows)\<rparr>"
      obtain broke st' where dr: "drain db v keys ?st = (broke, st')" by (cases "drain db v keys ?st")
      have "collected (acceptable m v keys all) ?st" "stacked (reaches db v b) ?st" "b \<in> set all"
        using Cons.prems by (auto simp: collected_def stacked_def intro: seed [OF rows])
      then have "collected (acceptable m v keys all) st'" using drain_keeps [of m v keys all ?st db b] db dr by simp
      then show ?thesis using Cons db rows dr by (auto split: bool.split)
    qed
  qed
qed simp

lemma graph_expand_collected:
  "\<exists>st. collected (acceptable m v (base_keys_of cs) cs) st \<and> graph_expand cs m v = xp_expanded st"
proof (cases "m = []")
  case True
  then show ?thesis by (intro exI [of _ "\<lparr>xp_expanded = [], xp_seen = {}, xp_queue = []\<rparr>"])
      (simp add: graph_expand_def collected_def)
next
  case False
  have "collected (acceptable m v (base_keys_of cs) cs) \<lparr>xp_expanded = [], xp_seen = {}, xp_queue = []\<rparr>"
    by (simp add: collected_def)
  from bases_keep [OF this subset_refl] False show ?thesis by (auto simp: graph_expand_def)
qed

text \<open>C19: Expansion adds only what the call graph justifies, and not much of it. At most thirty chunks
  are added, for distinct symbols; none of them is a base candidate; the score of each is at least the
  floor and is a base candidate's score discounted along one or two caller or callee edges, in the
  database that owns that candidate's file, from a symbol overlapping it.\<close>

theorem graph_expand_sound:
  "length (graph_expand cs m v) \<le> MAX_BONUS_CHUNKS \<and> distinct (map ec_symbol_fqn (graph_expand cs m v))
   \<and> (\<forall>e \<in> set (graph_expand cs m v).
        (ec_file e, ec_line_start e, ec_line_end e) \<notin> base_keys_of cs \<and> f32_le SCORE_FLOOR (ec_score e)
        \<and> expanded_from m v cs e)"
  using graph_expand_collected [of m v cs] by (auto simp: collected_def acceptable_def)

definition demo_db :: gdb where
  "demo_db = \<lparr>db_symbols = [\<lparr>sr_fqn = ''/r/a.rs::f'', sr_file = ''/r/a.rs'', sr_name = ''f'', sr_start = 1, sr_end = 3, sr_kind = None\<rparr>,
       \<lparr>sr_fqn = ''/r/b.rs::g'', sr_file = ''/r/b.rs'', sr_name = ''g'', sr_start = 5, sr_end = 9, sr_kind = None\<rparr>],
     db_chunks = [\<lparr>cr_file = ''/r/b.rs'', cr_start = 4, cr_end = 9, cr_content = ''fn g'', cr_symbol_ref = None\<rparr>],
     db_calls = [\<lparr>cl_in = ''/r/b.rs::g'', cl_out = ''/r/a.rs::f'', cl_in_file = ''/r/b.rs'', cl_out_file = ''/r/a.rs'',
       cl_in_name = Some ''/r/b.rs::g'', cl_out_name = Some ''/r/a.rs::f''\<rparr>],
     db_schema_version = 2, db_fails = \<lambda>_. False\<rparr>"

definition demo_base :: merge_chunk where
  "demo_base = (demo_chunk ''/r/a.rs'' 1 3)\<lparr>mc_score := f32_one\<rparr>"

lemma demo_expanded:
  "graph_expand [demo_base] [(''/r'', demo_db)] 2 = [\<lparr>ec_file = ''/r/b.rs'', ec_line_start = 4, ec_line_end = 9,
     ec_score = CALLER_SCORE_FACTOR, ec_content = ''fn g'', ec_symbol = Some ''g'', ec_symbol_fqn = Some ''/r/b.rs::g'',
     ec_symbol_kind = None\<rparr>]"
  by code_simp

lemma graph_expand_sound_witness:
  "\<exists>e. graph_expand [demo_base] [(''/r'', demo_db)] 2 = [e] \<and> ec_symbol_fqn e = Some ''/r/b.rs::g''
    \<and> expanded_from [(''/r'', demo_db)] 2 [demo_base] e"
  using graph_expand_sound [of "[demo_base]" "[(''/r'', demo_db)]" 2] unfolding demo_expanded by simp

section \<open>What a narrowing candidate is\<close>

lemma dedup_by_key_set: "set (dedup_by_key k xs) \<subseteq> set xs"
  by (induction k xs rule: dedup_by_key.induct) auto

lemma dedup_by_key_keys: "k ` set (dedup_by_key k xs) = k ` set xs"
  by (induction k xs rule: dedup_by_key.induct) auto

lemma dedup_by_key_strict:
  fixes k :: "'a \<Rightarrow> 'b::linorder"
  shows "sorted (map k xs) \<Longrightarrow> sorted_wrt (<) (map k (dedup_by_key k xs))"
proof (induction k xs rule: dedup_by_key.induct)
  case (3 k x y zs)
  show ?case
  proof (cases "k x = k y")
    case True
    with 3 show ?thesis by simp
  next
    case False
    with "3.prems" have "k x < k y" by auto
    moreover have "\<forall>z \<in> set (dedup_by_key k (y # zs)). k y \<le> k z"
      using "3.prems" dedup_by_key_set [of k "y # zs"] by auto
    ultimately have "\<forall>z \<in> set (dedup_by_key k (y # zs)). k x < k z" by fastforce
    moreover have "sorted_wrt (<) (map k (dedup_by_key k (y # zs)))" using 3 False by simp
    ultimately show ?thesis using False by simp
  qed
qed simp_all

definition row_lines_ok :: "symbol_row \<Rightarrow> bool" where
  "row_lines_ok r \<longleftrightarrow> 0 \<le> sr_start r \<and> sr_start r \<le> sr_end r \<and> sr_end r < 2 ^ 32"

text \<open>Narrowing is a choice between real boundaries. Each narrowing candidate of a chunk is a
  non-empty line range inside the chunk and smaller than it, and the candidates are offered once each,
  in line order.\<close>

theorem candidate_spans_inside:
  assumes "list_all row_lines_ok (db_symbols db)" "mc_line_start c \<le> mc_line_end c"
  shows "sorted_wrt (<) (map span_lines (candidate_spans db c)) \<and>
    (\<forall>s \<in> set (candidate_spans db c). mc_line_start c \<le> sp_line_start s \<and> sp_line_start s \<le> sp_line_end s
       \<and> sp_line_end s \<le> mc_line_end c \<and> span_lines s \<noteq> (mc_line_start c, mc_line_end c))"
proof (cases "query_overlapping_symbols db (mc_file c) (mc_line_start c) (mc_line_end c)")
  case None
  then show ?thesis by (simp add: candidate_spans_def)
next
  case (Some rows)
  then have rows: "\<forall>r \<in> set rows. row_lines_ok r \<and> sr_start r \<le> int (mc_line_end c) \<and> int (mc_line_start c) \<le> sr_end r"
    using assms(1) by (auto simp: query_overlapping_symbols_def list_all_iff split: if_splits)
  have clip: "max (u32_of_i64 (sr_start r)) (mc_line_start c) \<le> min (u32_of_i64 (sr_end r)) (mc_line_end c)"
    if "r \<in> set rows" for r
  proof -
    from that rows have "u32_of_i64 (sr_start r) = nat (sr_start r)" "u32_of_i64 (sr_end r) = nat (sr_end r)"
      by (auto simp: row_lines_ok_def u32_of_i64_def)
    with that rows assms(2) show ?thesis by (auto simp: row_lines_ok_def)
  qed
  show ?thesis unfolding candidate_spans_def Some option.case
    by (intro conjI dedup_by_key_strict ballI)
       (use clip in \<open>auto dest!: subsetD [OF dedup_by_key_set] simp: span_lines_def\<close>)
qed

lemma candidate_spans_inside_witness:
  "map span_lines (candidate_spans demo_db (demo_chunk ''/r/a.rs'' 2 9)) = [(2, 3)]
   \<and> sorted_wrt (<) (map span_lines (candidate_spans demo_db (demo_chunk ''/r/a.rs'' 2 9)))"
proof
  show "map span_lines (candidate_spans demo_db (demo_chunk ''/r/a.rs'' 2 9)) = [(2, 3)]" by code_simp
  have "list_all row_lines_ok (db_symbols demo_db)" "mc_line_start (demo_chunk ''/r/a.rs'' 2 9) \<le> mc_line_end (demo_chunk ''/r/a.rs'' 2 9)"
    by (code_simp, simp add: demo_chunk_def)
  from candidate_spans_inside [OF this]
  show "sorted_wrt (<) (map span_lines (candidate_spans demo_db (demo_chunk ''/r/a.rs'' 2 9)))" ..
qed

end
