(* ===== verification/Source_Lines.thy ===== *)
theory Source_Lines
  imports Encoding
begin

text \<open>
  Lines of a source file as an answer shows them: the numbered read of a range
  (\<open>src/query/engine.rs\<close>), the slice of an already numbered text, the plain read used while a file is
  re-indexed, and the truncation of a prompt's content (\<open>src/query/reranker.rs\<close>). The file system is
  a map from paths to texts. A Rust slice whose end lies before its start panics.
\<close>

type_synonym file_system = "str \<Rightarrow> str option"

datatype 'a read = Read 'a | Unreadable | Slice_Panics

fun number_from :: "nat \<Rightarrow> str list \<Rightarrow> str list" where
  "number_from n [] = []"
| "number_from n (l # ls) = (show_nat n @ '': '' @ l) # number_from (Suc n) ls"

definition read_lines_from_fs :: "file_system \<Rightarrow> str \<Rightarrow> nat \<Rightarrow> nat \<Rightarrow> str read" where
  "read_lines_from_fs fs path line_start line_end =
     (case fs path of
        None \<Rightarrow> Unreadable
      | Some content \<Rightarrow>
          (let ls = str_lines content;
               start_idx = line_start - 1;
               end_idx = min line_end (length ls)
           in if length ls \<le> start_idx then Unreadable
              else if end_idx < start_idx then Slice_Panics
              else Read (join [newline] (number_from (start_idx + 1) (take (end_idx - start_idx) (drop start_idx ls))))))"

definition slice_numbered :: "str \<Rightarrow> nat \<Rightarrow> nat \<Rightarrow> nat \<Rightarrow> str" where
  "slice_numbered numbered chunk_start s e =
     (let ls = str_lines numbered;
          begin_at = s - chunk_start;
          upto_at = min (e - chunk_start + 1) (length ls)
      in if length ls \<le> begin_at \<or> upto_at \<le> begin_at then numbered
         else join [newline] (take (upto_at - begin_at) (drop begin_at ls)))"

definition read_source_lines :: "file_system \<Rightarrow> str \<Rightarrow> nat \<Rightarrow> nat \<Rightarrow> str" where
  "read_source_lines fs path line_start line_end =
     (case fs path of
        None \<Rightarrow> []
      | Some content \<Rightarrow> join [newline] (take (line_end - line_start + 1) (drop (line_start - 1) (str_lines content))))"

definition truncate_content :: "str \<Rightarrow> nat \<Rightarrow> str" where
  "truncate_content content max_lines =
     (let ls = str_lines content in
      if length ls \<le> max_lines then content
      else
        (let half = max_lines div 2;
             truncated_count = length ls - max_lines
         in join [newline] (take half ls)
            @ [newline] @ ''... ('' @ show_nat truncated_count @ '' lines truncated) ...'' @ [newline]
            @ join [newline] (drop (length ls - half) ls)))"

section \<open>Lines of joined lines\<close>

lemma split_on_plain: "\<forall>c \<in> set x. \<not> P c \<Longrightarrow> split_on P x = [x]"
  by (induction x) auto

lemma split_on_sep: "\<forall>c \<in> set x. \<not> P c \<Longrightarrow> P d \<Longrightarrow> split_on P (x @ d # y) = x # split_on P y"
  by (induction x) auto

definition plain_line :: "str \<Rightarrow> bool" where
  "plain_line l \<longleftrightarrow> newline \<notin> set l \<and> l \<noteq> [] \<and> last l \<noteq> carriage_return"

lemma plain_line_strip: "plain_line l \<Longrightarrow> strip_cr l = l"
  by (simp add: plain_line_def strip_cr_def)

lemma split_join_plain:
  "xs \<noteq> [] \<Longrightarrow> \<forall>x \<in> set xs. plain_line x \<Longrightarrow> split_on (\<lambda>c. c = newline) (join [newline] xs) = xs"
proof (induction xs)
  case Nil
  then show ?case by simp
next
  case (Cons x xs)
  then have x: "\<forall>c \<in> set x. \<not> (\<lambda>c. c = newline) c" by (auto simp: plain_line_def)
  show ?case
  proof (cases xs)
    case Nil
    then show ?thesis using split_on_plain [OF x] by simp
  next
    case (Cons y ys)
    then have "join [newline] (x # xs) = x @ newline # join [newline] xs" by simp
    moreover have "split_on (\<lambda>c. c = newline) (join [newline] xs) = xs"
      using Cons.IH Cons.prems \<open>xs = y # ys\<close> by simp
    ultimately show ?thesis using split_on_sep [OF x, of newline] by simp
  qed
qed

lemma lines_of_plain: "\<forall>x \<in> set xs. plain_line x \<Longrightarrow> lines_of_pieces xs = xs"
  by (induction xs rule: lines_of_pieces.induct) (auto simp: plain_line_strip plain_line_def)

lemma str_lines_join: "\<forall>x \<in> set xs. plain_line x \<Longrightarrow> str_lines (join [newline] xs) = xs"
  by (cases "xs = []") (auto simp: str_lines_def split_join_plain lines_of_plain)

lemma length_number_from [simp]: "length (number_from n ls) = length ls"
  by (induction ls arbitrary: n) auto

lemma take_number_from: "take k (number_from n ls) = number_from n (take k ls)"
proof (induction ls arbitrary: n k)
  case (Cons l ls)
  then show ?case by (cases k) auto
qed simp

lemma drop_number_from: "drop k (number_from n ls) = number_from (n + k) (drop k ls)"
proof (induction ls arbitrary: n k)
  case (Cons l ls)
  then show ?case by (cases k) auto
qed simp

section \<open>A slice is a re-read\<close>

lemma lines_of_pieces_mem: "l \<in> set (lines_of_pieces ps) \<Longrightarrow> \<exists>p \<in> set ps. set l \<subseteq> set p"
proof (induction ps rule: lines_of_pieces.induct)
  case (3 p q ps)
  moreover have "set (strip_cr p) \<subseteq> set p" by (auto simp: strip_cr_def dest: in_set_butlastD)
  ultimately show ?case by auto
qed (auto split: if_splits)

lemma str_lines_no_newline: "l \<in> set (str_lines s) \<Longrightarrow> newline \<notin> set l"
  using lines_of_pieces_mem [of l "split_on (\<lambda>c. c = newline) s"] split_on_pieces [of _ "\<lambda>c. c = newline" s]
  unfolding str_lines_def by blast

lemma show_nat_no_newline: "newline \<notin> set (show_nat n)"
proof
  assume "newline \<in> set (show_nat n)"
  then have "48 \<le> code newline" using show_nat_digits by blast
  then show False by (simp add: code_def newline_def)
qed

definition no_stray_returns :: "str \<Rightarrow> bool" where
  "no_stray_returns content = list_all (\<lambda>l. l = [] \<or> last l \<noteq> carriage_return) (str_lines content)"

lemma numbered_plain:
  "\<forall>l \<in> set ls. newline \<notin> set l \<and> (l = [] \<or> last l \<noteq> carriage_return) \<Longrightarrow>
   \<forall>x \<in> set (number_from n ls). plain_line x"
proof (induction ls arbitrary: n)
  case (Cons l ls)
  have "plain_line (show_nat n @ '': '' @ l)"
    using Cons.prems show_nat_no_newline [of n]
    by (auto simp: plain_line_def newline_def carriage_return_def)
  with Cons show ?case by simp
qed simp

text \<open>Narrowing an answer is exact. The slice of the numbered text of a chunk to a line range
  inside it is the numbered text that reading the range afresh would give: the right lines, with the
  line numbers of the file, joined the same way, also where the file ends inside the chunk.\<close>

theorem slice_is_a_reread:
  assumes "fs path = Some content" "no_stray_returns content"
    and "read_lines_from_fs fs path cs ce = Read body"
    and "1 \<le> cs" "cs \<le> s" "s \<le> e" "e \<le> ce" "s \<le> length (str_lines content)"
  shows "read_lines_from_fs fs path s e = Read (slice_numbered body cs s e)"
proof -
  let ?ls = "str_lines content" and ?n = "length (str_lines content)"
  let ?cut = "take (min ce ?n - (cs - 1)) (drop (cs - 1) ?ls)"
  have body: "body = join [newline] (number_from cs ?cut)"
    using assms by (auto simp: read_lines_from_fs_def Let_def split: if_splits)
  have "\<forall>l \<in> set ?cut. newline \<notin> set l \<and> (l = [] \<or> last l \<noteq> carriage_return)"
    using assms(2) str_lines_no_newline [of _ content]
    by (auto simp: no_stray_returns_def list_all_iff dest!: in_set_takeD in_set_dropD)
  then have ls: "str_lines body = number_from cs ?cut"
    unfolding body by (intro str_lines_join numbered_plain)
  have len: "length (number_from cs ?cut) = min ce ?n - (cs - 1)" by simp
  have up: "min (e - cs + 1) (length (number_from cs ?cut)) - (s - cs) = min e ?n - (s - 1)"
    using assms by auto
  have cut: "drop (s - cs) ?cut = take (min ce ?n - (s - 1)) (drop (s - 1) ?ls)"
  proof -
    have "min ce ?n - (cs - 1) - (s - cs) = min ce ?n - (s - 1)" "s - cs + (cs - 1) = s - 1"
      using assms(4,5) by simp_all
    then show ?thesis by (simp add: drop_take)
  qed
  have le: "min (min e ?n - (s - 1)) (min ce ?n - (s - 1)) = min e ?n - (s - 1)"
    using assms(7) by auto
  have "cs + (s - cs) = s" using assms(5) by simp
  then have "take (min e ?n - (s - 1)) (drop (s - cs) (number_from cs ?cut)) =
      number_from s (take (min e ?n - (s - 1)) (drop (s - 1) ?ls))"
    by (simp only: drop_number_from take_number_from cut take_take le)
  moreover have "\<not> (length (number_from cs ?cut) \<le> s - cs \<or> min (e - cs + 1) (length (number_from cs ?cut)) \<le> s - cs)"
    using assms(4-8) unfolding len by auto
  ultimately have slice: "slice_numbered body cs s e =
      join [newline] (number_from s (take (min e ?n - (s - 1)) (drop (s - 1) ?ls)))"
    unfolding slice_numbered_def Let_def ls up by (simp only: if_False)
  have "\<not> ?n \<le> s - 1" "\<not> min e ?n < s - 1" "s - 1 + 1 = s" using assms(4-8) by auto
  then show ?thesis unfolding slice read_lines_from_fs_def assms(1) Let_def by (simp only: option.case if_False)
qed

definition two_liner :: str where
  "two_liner = ''fn a'' @ [newline] @ ''fn b'' @ [newline]"

lemma slice_is_a_reread_witness:
  "read_lines_from_fs (\<lambda>_. Some two_liner) ''/a.rs'' 2 2 = Read (slice_numbered (''1: fn a'' @ [newline] @ ''2: fn b'') 1 2 2)"
  by (rule slice_is_a_reread [where content = two_liner and ce = 3]) (code_simp+)?

end
