(* ===== verification/Rerank.thy ===== *)
theory Rerank
  imports Graph_Expand Source_Lines Json
begin

text \<open>
  The single-shot reranker (\<open>src/query/reranker.rs\<close>): prompt, reading of the model's answer, selection of
  line ranges, and every way it degrades.

  The JSON library and the model are arguments; timings are left out. The regular expression around the
  tagged answer is written out. The sort of the ranges leaves ties in any order.
\<close>

section \<open>Requests and outputs\<close>

type_synonym range = "nat \<times> nat"

type_synonym chunk_selection = "nat \<times> range list option"

record rerank_output =
  rr_indices :: "nat list"
  rr_selections :: "range list option list"
  rr_request :: str
  rr_response :: str
  rr_fallback :: bool
  rr_skip :: "str option"
  rr_relevance :: "u64 list"

record rerank_request =
  rq_query :: str
  rq_chunks :: "merge_chunk list"
  rq_numbered :: "str option list"
  rq_caller_stats :: "(nat \<times> nat) option list"
  rq_min_prune_lines :: nat
  rq_candidate_spans :: "symbol_span list list"

definition no_spans :: "nat \<Rightarrow> symbol_span list list" where
  "no_spans chunk_count = replicate chunk_count []"

text \<open>The order of the candidates, each one whole.\<close>

definition incoming_order :: "nat \<Rightarrow> str \<Rightarrow> str \<Rightarrow> bool \<Rightarrow> str option \<Rightarrow> rerank_output" where
  "incoming_order n request response fallback skip =
     \<lparr>rr_indices = [0..<n], rr_selections = replicate n None, rr_request = request, rr_response = response,
      rr_fallback = fallback, rr_skip = skip, rr_relevance = []\<rparr>"

definition nothing_ranked :: "str \<Rightarrow> str \<Rightarrow> rerank_output" where
  "nothing_ranked request response =
     \<lparr>rr_indices = [], rr_selections = [], rr_request = request, rr_response = response,
      rr_fallback = False, rr_skip = None, rr_relevance = []\<rparr>"

section \<open>Line ranges\<close>

definition RANGE_PAD :: nat where "RANGE_PAD = 2"

definition U32_MAX :: nat where "U32_MAX = 4294967295"

definition u32_of_u64 :: "nat \<Rightarrow> nat" where
  "u32_of_u64 n = n mod (U32_MAX + 1)"

text \<open>The two numbers of one entry.\<close>

definition line_pair :: "json \<Rightarrow> range option" where
  "line_pair pair =
     (case as_array pair of
        Some [a, b] \<Rightarrow>
          (case (as_u64 a, as_u64 b) of
             (Some s, Some e) \<Rightarrow> Some (u32_of_u64 s, u32_of_u64 e)
           | _ \<Rightarrow> None)
      | _ \<Rightarrow> None)"

text \<open>One pair, padded and clamped to the chunk.\<close>

definition clamp_pair :: "nat \<Rightarrow> nat \<Rightarrow> json \<Rightarrow> range option" where
  "clamp_pair chunk_start chunk_end pair =
     (case line_pair pair of
        None \<Rightarrow> None
      | Some (s1, e1) \<Rightarrow>
          if e1 < s1 then None
          else
            (let s = max (s1 - RANGE_PAD) chunk_start; e = min (min (e1 + RANGE_PAD) U32_MAX) chunk_end in
             if e < s then None else Some (s, e)))"

definition merge_range :: "range list \<Rightarrow> range \<Rightarrow> range list" where
  "merge_range merged r =
     (if merged \<noteq> [] \<and> fst r \<le> snd (last merged) + 1
      then butlast merged @ [(fst (last merged), max (snd (last merged)) (snd r))]
      else merged @ [r])"

type_synonym range_sort = "(range \<Rightarrow> range \<Rightarrow> bool) \<Rightarrow> range list \<Rightarrow> range list"

definition range_start_le :: "range \<Rightarrow> range \<Rightarrow> bool" where
  "range_start_le a b \<longleftrightarrow> fst a \<le> fst b"

definition sanitize_ranges :: "range_sort \<Rightarrow> json list \<Rightarrow> nat \<Rightarrow> nat \<Rightarrow> range list option" where
  "sanitize_ranges srt arr chunk_start chunk_end =
     (let ranges = List.map_filter (clamp_pair chunk_start chunk_end) arr in
      if ranges = [] then None else Some (foldl merge_range [] (srt range_start_le ranges)))"

definition lines_shape_is_malformed :: "json list \<Rightarrow> bool" where
  "lines_shape_is_malformed arr =
     (if arr = [] then False
      else list_ex (\<lambda>v. \<not> (case as_array v of Some p \<Rightarrow> length p = 2 | None \<Rightarrow> False)) arr)"

text \<open>The selection for a chunk from the \<open>lines\<close> of an answer: chunks under the floor stay whole.\<close>

definition select_lines :: "range_sort \<Rightarrow> nat \<Rightarrow> merge_chunk \<Rightarrow> json list option \<Rightarrow> range list option" where
  "select_lines srt min_prune_lines chunk raw_lines =
     (case raw_lines of
        None \<Rightarrow> None
      | Some arr \<Rightarrow>
          if arr = [] then None
          else if is_under_prune_floor min_prune_lines chunk then None
          else sanitize_ranges srt arr (mc_line_start chunk) (mc_line_end chunk))"

section \<open>Reading the answer\<close>

text \<open>\<open><ranked_indices>\s*(.*?)\s*</ranked_indices>\<close>: from the first opening tag to the first closing tag after
  it, without the surrounding whitespace.\<close>

definition tagged_payload :: "str \<Rightarrow> str option" where
  "tagged_payload response =
     (case find_str response ''<ranked_indices>'' of
        None \<Rightarrow> None
      | Some i \<Rightarrow>
          (let after = drop (i + length ''<ranked_indices>'') response in
           map_option (\<lambda>j. trim (take j after)) (find_str after ''</ranked_indices>'')))"

definition unfenced :: "str \<Rightarrow> str" where
  "unfenced response =
     (let trimmed = trim response in
      if starts_with trimmed ''```''
      then trim (join [newline] (filter (\<lambda>l. \<not> starts_with l ''```'') (str_lines trimmed)))
      else trimmed)"

text \<open>The entries of an answer, or why there are none.\<close>

definition ranking_entries :: "(str \<Rightarrow> json option) \<Rightarrow> bool \<Rightarrow> str \<Rightarrow> str + json list" where
  "ranking_entries parse_json structured response =
     (if structured then
        (case parse_json (trim response) of
           Some (JObject m) \<Rightarrow>
             (case map_of m ''ranked_indices'' of
                Some (JArray arr) \<Rightarrow> Inr arr
              | _ \<Rightarrow> Inl ''structured response missing ranked_indices'')
         | _ \<Rightarrow> Inl ''failed to parse structured response'')
      else
        (case parse_json (case tagged_payload response of Some t \<Rightarrow> t | None \<Rightarrow> unfenced response) of
           Some (JArray arr) \<Rightarrow> Inr arr
         | _ \<Rightarrow> Inl ''failed to parse LLM response''))"

definition ranking_entry :: "range_sort \<Rightarrow> merge_chunk list \<Rightarrow> nat \<Rightarrow> json \<Rightarrow> chunk_selection option" where
  "ranking_entry srt chunks min_prune_lines entry =
     (case (case as_u64 entry of
              Some i \<Rightarrow> Some (i, None)
            | None \<Rightarrow>
                (case as_object entry of
                   None \<Rightarrow> None
                 | Some obj \<Rightarrow>
                     map_option (\<lambda>i. (i, Option.bind (map_of obj ''lines'') as_array))
                       (Option.bind (case map_of obj ''chunk_index'' of Some v \<Rightarrow> Some v | None \<Rightarrow> map_of obj ''i'') as_u64))) of
        None \<Rightarrow> None
      | Some (idx, raw_lines) \<Rightarrow>
          if length chunks \<le> idx then None
          else Some (idx, select_lines srt min_prune_lines (chunks ! idx) raw_lines))"

definition parse_rerank_response ::
  "range_sort \<Rightarrow> (str \<Rightarrow> json option) \<Rightarrow> str \<Rightarrow> merge_chunk list \<Rightarrow> nat \<Rightarrow> bool \<Rightarrow> rerank_output" where
  "parse_rerank_response srt parse_json response chunks min_prune_lines structured =
     (case ranking_entries parse_json structured response of
        Inl reason \<Rightarrow> incoming_order (length chunks) [] response True (Some reason)
      | Inr arr \<Rightarrow>
          (let picked = List.map_filter (ranking_entry srt chunks min_prune_lines) arr in
           if picked = [] then nothing_ranked [] response
           else (nothing_ranked [] response)\<lparr>rr_indices := map fst picked, rr_selections := map snd picked\<rparr>))"

section \<open>The prompt\<close>

text \<open>\<open>format!("{:.2}")\<close> of an \<open>f32\<close>: the exact value, rounded half to even.\<close>

definition hundredths :: "f32 \<Rightarrow> nat" where
  "hundredths x =
     (let m = 100 * f32_sig x; p = f32_pow x in
      if 0 \<le> p then nat (m * 2 ^ nat p)
      else
        (let unit = 2 ^ nat (- p); q = m div unit; r = m mod unit in
         nat (if unit < 2 * r \<or> (unit = 2 * r \<and> odd q) then q + 1 else q)))"

definition show_f32_2 :: "f32 \<Rightarrow> str" where
  "show_f32_2 x =
     (if f32_nan x then ''NaN''
      else (if f32_neg x then ''-'' else []) @
        (if f32_inf x then ''inf''
         else (let n = hundredths x in
               show_nat (n div 100) @ ''.'' @ show_nat (n mod 100 div 10) @ show_nat (n mod 10))))"

text \<open>\<open>prompts::render\<close> (\<open>src/prompts/mod.rs\<close>): the placeholders are filled one after the other.\<close>

definition render :: "str \<Rightarrow> (str \<times> str) list \<Rightarrow> str" where
  "render template vars = foldl (\<lambda>out (k, v). replace_str (''{{'' @ k @ ''}}'') v out) template vars"

record prompt_texts =
  RERANK_INTRO :: str
  RERANK_ELEMENT_SPEC :: str
  RERANK_SYSTEM_STRUCTURED :: str
  RERANK_SYSTEM_XML :: str
  RERANK_USER_STRUCTURED :: str
  RERANK_USER_XML :: str
  RERANK_AGENTIC_SYSTEM :: str
  RERANK_AGENTIC_SYSTEM_EXACT_TOOLS :: str
  RERANK_AGENTIC_USER :: str

definition meta_str :: "f32 \<Rightarrow> (nat \<times> nat) option \<Rightarrow> str" where
  "meta_str score stats =
     ''score='' @ show_f32_2 score @
     (case stats of
        Some (callers, files) \<Rightarrow> '' callers='' @ show_nat callers @ '' files='' @ show_nat files
      | None \<Rightarrow> [])"

definition symbol_display :: "merge_chunk \<Rightarrow> str" where
  "symbol_display c = (case mc_symbol c of Some s \<Rightarrow> s | None \<Rightarrow> ''no symbol'')"

text \<open>\<open>get(i).flatten()\<close> of a list of options.\<close>

definition nth_flat :: "'a option list \<Rightarrow> nat \<Rightarrow> 'a option" where
  "nth_flat xs i = (if i < length xs then xs ! i else None)"

definition entry_head :: "(nat \<times> nat) option list \<Rightarrow> nat \<Rightarrow> merge_chunk \<Rightarrow> str" where
  "entry_head caller_stats i c =
     ''['' @ show_nat i @ ''] '' @ meta_str (mc_score c) (nth_flat caller_stats i) @ '' | '' @ mc_file c @ '':'' @
     show_nat (mc_line_start c) @ ''-'' @ show_nat (mc_line_end c) @ '' ('' @ symbol_display c @ '')''"

definition entry_content :: "str option list \<Rightarrow> nat \<Rightarrow> merge_chunk \<Rightarrow> str" where
  "entry_content numbered i c =
     truncate_content (case nth_flat numbered i of Some t \<Rightarrow> t | None \<Rightarrow> mc_content c) 100"

definition prompt_entry :: "rerank_request \<Rightarrow> nat \<Rightarrow> merge_chunk \<Rightarrow> str" where
  "prompt_entry req i c =
     entry_head (rq_caller_stats req) i c @ [newline] @ ''<content chunk-index='' @ [CHR 0x22] @ show_nat i @ [CHR 0x22] @ ''>'' @ [newline]
     @ entry_content (rq_numbered req) i c @ [newline] @ ''</content>''"

definition ENTRY_SEPARATOR :: str where
  "ENTRY_SEPARATOR = [newline] @ ''---'' @ [newline]"

record llm_client =
  structured_output_active :: bool
  complete :: "str \<Rightarrow> str \<Rightarrow> bool \<Rightarrow> str + str"

record llm_host =
  lh_prompts :: prompt_texts
  lh_parse_json :: "str \<Rightarrow> json option"
  lh_json_text :: "str \<Rightarrow> str"
  lh_sort :: range_sort

definition rerank_prompts :: "llm_host \<Rightarrow> bool \<Rightarrow> rerank_request \<Rightarrow> str \<times> str" where
  "rerank_prompts h structured req =
     (let t = lh_prompts h;
          system = render (if structured then RERANK_SYSTEM_STRUCTURED t else RERANK_SYSTEM_XML t)
            [(''intro'', RERANK_INTRO t), (''element_spec'', RERANK_ELEMENT_SPEC t)];
          entries = map (\<lambda>(i, c). prompt_entry req i c) (List.enumerate 0 (rq_chunks req));
          user = render (if structured then RERANK_USER_STRUCTURED t else RERANK_USER_XML t)
            [(''query'', lh_json_text h (rq_query req)), (''chunks'', join ENTRY_SEPARATOR entries)]
      in (system, user))"

definition raw_request_text :: "str \<Rightarrow> str \<Rightarrow> str" where
  "raw_request_text system user = ''[System]'' @ [newline] @ system @ [newline, newline] @ ''[User]'' @ [newline] @ user"

definition rerank_with_llm :: "llm_host \<Rightarrow> rerank_request \<Rightarrow> llm_client option \<Rightarrow> rerank_output" where
  "rerank_with_llm h req client_opt =
     (let n = length (rq_chunks req) in
      case client_opt of
        None \<Rightarrow> incoming_order n [] [] False (Some ''no LLM API key configured'')
      | Some client \<Rightarrow>
          if rq_chunks req = [] then nothing_ranked [] []
          else
            (let structured = structured_output_active client;
                 (system, user) = rerank_prompts h structured req;
                 raw_request = raw_request_text system user
             in case complete client system user structured of
                  Inr response \<Rightarrow>
                    (parse_rerank_response (lh_sort h) (lh_parse_json h) response (rq_chunks req)
                       (rq_min_prune_lines req) structured)\<lparr>rr_request := raw_request\<rparr>
                | Inl e \<Rightarrow> incoming_order n raw_request [] True (Some (''LLM request failed: '' @ e))))"

section \<open>The ranges of a selection\<close>

definition covered :: "range list \<Rightarrow> nat set" where
  "covered rs = {l. \<exists>r \<in> set rs. fst r \<le> l \<and> l \<le> snd r}"

definition separated :: "range list \<Rightarrow> bool" where
  "separated rs \<longleftrightarrow> sorted_wrt (\<lambda>a b. snd a + 1 < fst b) rs \<and> (\<forall>r \<in> set rs. fst r \<le> snd r)"

definition ranges_ok :: "nat \<Rightarrow> nat \<Rightarrow> range list \<Rightarrow> bool" where
  "ranges_ok lo hi rs \<longleftrightarrow> rs \<noteq> [] \<and> separated rs \<and> (\<forall>r \<in> set rs. lo \<le> fst r \<and> snd r \<le> hi)"

definition selection_ok :: "merge_chunk \<Rightarrow> range list option \<Rightarrow> bool" where
  "selection_ok c sel \<longleftrightarrow> (case sel of None \<Rightarrow> True | Some rs \<Rightarrow> ranges_ok (mc_line_start c) (mc_line_end c) rs)"

lemma covered_append: "covered (xs @ ys) = covered xs \<union> covered ys"
  by (auto simp: covered_def)

lemma separated_snoc:
  "separated (xs @ [x]) \<longleftrightarrow> separated xs \<and> fst x \<le> snd x \<and> (\<forall>y \<in> set xs. snd y + 1 < fst x)"
  by (auto simp: separated_def sorted_wrt_append)

lemma merge_range_step:
  assumes "separated acc" "fst r \<le> snd r" "acc \<noteq> [] \<Longrightarrow> fst (last acc) \<le> fst r"
  shows "separated (merge_range acc r) \<and> covered (merge_range acc r) = covered acc \<union> covered [r]
    \<and> merge_range acc r \<noteq> [] \<and> fst (last (merge_range acc r)) \<le> fst r"
proof (cases "acc \<noteq> [] \<and> fst r \<le> snd (last acc) + 1")
  case True
  then obtain xs x where acc: "acc = xs @ [x]" by (metis append_butlast_last_id)
  have x: "fst x \<le> fst r" "fst r \<le> snd x + 1" "fst x \<le> snd x" "\<forall>y \<in> set xs. snd y + 1 < fst x" "separated xs"
    using assms True by (auto simp: acc separated_snoc)
  have m: "merge_range acc r = xs @ [(fst x, max (snd x) (snd r))]"
    using True by (simp add: merge_range_def acc)
  have "covered [(fst x, max (snd x) (snd r))] = covered [x] \<union> covered [r]"
    using x assms(2) by (auto simp: covered_def)
  then show ?thesis unfolding m unfolding acc using x by (auto simp: covered_append separated_snoc)
next
  case False
  then have m: "merge_range acc r = acc @ [r]" by (auto simp: merge_range_def)
  have "\<forall>y \<in> set acc. snd y + 1 < fst r"
  proof (cases "acc = []")
    case False
    then obtain xs x where acc: "acc = xs @ [x]" by (metis append_butlast_last_id)
    have "snd x + 1 < fst r" using \<open>\<not> (acc \<noteq> [] \<and> fst r \<le> snd (last acc) + 1)\<close> by (simp add: acc)
    moreover have "\<forall>y \<in> set xs. snd y + 1 < fst x" "fst x \<le> snd x" using assms(1) by (simp_all add: acc separated_snoc)
    ultimately show ?thesis by (auto simp: acc)
  qed simp
  then show ?thesis using assms(1,2) by (simp add: m covered_append separated_snoc)
qed

lemma merge_ranges_spec:
  assumes "separated acc" "\<forall>r \<in> set rs. fst r \<le> snd r" "sorted_wrt range_start_le rs"
    and "acc \<noteq> [] \<Longrightarrow> \<forall>r \<in> set rs. fst (last acc) \<le> fst r"
  shows "separated (foldl merge_range acc rs) \<and> covered (foldl merge_range acc rs) = covered acc \<union> covered rs
    \<and> (rs \<noteq> [] \<longrightarrow> foldl merge_range acc rs \<noteq> [])"
  using assms
proof (induction rs arbitrary: acc)
  case Nil
  then show ?case by (simp add: covered_def)
next
  case (Cons r rs)
  have step: "separated (merge_range acc r) \<and> covered (merge_range acc r) = covered acc \<union> covered [r]
    \<and> merge_range acc r \<noteq> [] \<and> fst (last (merge_range acc r)) \<le> fst r"
    using Cons.prems by (intro merge_range_step) auto
  moreover have "\<forall>x \<in> set rs. fst r \<le> fst x" using Cons.prems(3) by (auto simp: range_start_le_def)
  ultimately have "\<forall>x \<in> set rs. fst (last (merge_range acc r)) \<le> fst x" by (meson order_trans)
  then have rest: "separated (foldl merge_range (merge_range acc r) rs)
      \<and> covered (foldl merge_range (merge_range acc r) rs) = covered (merge_range acc r) \<union> covered rs
      \<and> (rs \<noteq> [] \<longrightarrow> foldl merge_range (merge_range acc r) rs \<noteq> [])"
    using step Cons.prems by (intro Cons.IH) auto
  have "covered (r # rs) = covered [r] \<union> covered rs" using covered_append [of "[r]" rs] by simp
  then show ?case using rest step by (cases "rs = []") (simp_all add: sup_assoc)
qed

text \<open>The lines an answer asks for, in the words of the prompt: the valid pairs, with two lines of padding,
  as far as they lie in the chunk.\<close>

definition asked_lines :: "json list \<Rightarrow> nat \<Rightarrow> nat \<Rightarrow> nat set" where
  "asked_lines arr lo hi =
     {l. lo \<le> l \<and> l \<le> hi \<and> l \<le> U32_MAX \<and>
        (\<exists>v \<in> set arr. \<exists>s e. line_pair v = Some (s, e) \<and> s \<le> e \<and> s - RANGE_PAD \<le> l \<and> l \<le> e + RANGE_PAD)}"

lemma clamp_pair_Some:
  "clamp_pair lo hi v = Some r \<longleftrightarrow> (\<exists>s e. line_pair v = Some (s, e) \<and> s \<le> e
     \<and> r = (max (s - RANGE_PAD) lo, min (min (e + RANGE_PAD) U32_MAX) hi) \<and> fst r \<le> snd r)"
proof (cases "line_pair v")
  case None
  then show ?thesis by (simp add: clamp_pair_def)
next
  case (Some p)
  obtain s e where p: "p = (s, e)" by (cases p)
  let ?r = "(max (s - RANGE_PAD) lo, min (min (e + RANGE_PAD) U32_MAX) hi)"
  have "clamp_pair lo hi v = (if e < s \<or> snd ?r < fst ?r then None else Some ?r)"
    by (simp add: clamp_pair_def Some p Let_def)
  then show ?thesis unfolding Some p by (cases "e < s \<or> snd ?r < fst ?r") auto
qed

lemma map_filter_mem: "y \<in> set (List.map_filter f xs) \<longleftrightarrow> (\<exists>x \<in> set xs. f x = Some y)"
  by (induction xs) (auto simp: List.map_filter_simps split: option.splits)

lemma asked_lines_covered: "asked_lines arr lo hi = covered (List.map_filter (clamp_pair lo hi) arr)"
proof (intro set_eqI iffI)
  fix l assume "l \<in> asked_lines arr lo hi"
  then obtain v s e where v: "v \<in> set arr" "line_pair v = Some (s, e)" "s \<le> e"
    and l: "lo \<le> l" "l \<le> hi" "l \<le> U32_MAX" "s - RANGE_PAD \<le> l" "l \<le> e + RANGE_PAD"
    by (auto simp: asked_lines_def)
  let ?r = "(max (s - RANGE_PAD) lo, min (min (e + RANGE_PAD) U32_MAX) hi)"
  have "clamp_pair lo hi v = Some ?r" using v l by (auto simp: clamp_pair_Some)
  then have "?r \<in> set (List.map_filter (clamp_pair lo hi) arr)" using v(1) by (auto simp: map_filter_mem)
  then show "l \<in> covered (List.map_filter (clamp_pair lo hi) arr)"
    unfolding covered_def using l by (intro CollectI bexI [of _ ?r]) auto
next
  fix l assume "l \<in> covered (List.map_filter (clamp_pair lo hi) arr)"
  then obtain v r where v: "v \<in> set arr" "clamp_pair lo hi v = Some r" "fst r \<le> l" "l \<le> snd r"
    by (auto simp: covered_def map_filter_mem)
  then obtain s e where "line_pair v = Some (s, e)" "s \<le> e"
    "r = (max (s - RANGE_PAD) lo, min (min (e + RANGE_PAD) U32_MAX) hi)" by (auto simp: clamp_pair_Some)
  with v show "l \<in> asked_lines arr lo hi" unfolding asked_lines_def by auto
qed

lemma sanitize_ranges_lemma:
  assumes "unstable_sort srt"
  shows "case sanitize_ranges srt arr lo hi of
      None \<Rightarrow> asked_lines arr lo hi = {}
    | Some rs \<Rightarrow> ranges_ok lo hi rs \<and> covered rs = asked_lines arr lo hi"
proof (cases "List.map_filter (clamp_pair lo hi) arr = []")
  case True
  then show ?thesis by (simp add: sanitize_ranges_def asked_lines_covered covered_def)
next
  case False
  let ?rs = "List.map_filter (clamp_pair lo hi) arr"
  let ?sorted = "srt range_start_le ?rs"
  have mem: "set ?sorted = set ?rs" using unstable_sort.srt_mset [OF assms, of range_start_le ?rs] by (metis set_mset_mset)
  have ok: "\<forall>r \<in> set ?sorted. fst r \<le> snd r \<and> lo \<le> fst r \<and> snd r \<le> hi"
    unfolding mem by (auto simp: map_filter_mem clamp_pair_Some)
  have "sorted_wrt range_start_le ?sorted"
    by (rule unstable_sort.srt_sorted [OF assms]) (auto simp: total_preorder_on_def range_start_le_def)
  then have merged: "separated (foldl merge_range [] ?sorted)" "covered (foldl merge_range [] ?sorted) = covered ?sorted"
    "foldl merge_range [] ?sorted \<noteq> []"
    using merge_ranges_spec [of "[]" ?sorted] ok mem False by (auto simp: separated_def covered_def)
  have "covered ?sorted = covered ?rs" by (simp add: covered_def mem)
  moreover have "lo \<le> fst r \<and> snd r \<le> hi" if r: "r \<in> set (foldl merge_range [] ?sorted)" for r
  proof -
    have "fst r \<le> snd r" using merged(1) r by (simp add: separated_def)
    then have "fst r \<in> covered ?sorted" "snd r \<in> covered ?sorted"
      using r merged(2) by (auto simp: covered_def)
    then show ?thesis using ok by (auto simp: covered_def)
  qed
  ultimately show ?thesis using False merged
    by (simp add: sanitize_ranges_def Let_def ranges_ok_def asked_lines_covered)
qed

text \<open>The line ranges of a selection are exactly the lines asked for. For every answer of the model,
  the ranges kept for a chunk cover the lines of its well-formed pairs, widened by two and cut to the
  chunk, and nothing else; they are in order, disjoint and not even adjacent, and none is empty. No
  selection is made just when no asked line lies in the chunk, and then the chunk stays whole.\<close>

theorem sanitize_ranges_exact:
  assumes "unstable_sort srt"
  shows "case sanitize_ranges srt arr lo hi of
      None \<Rightarrow> asked_lines arr lo hi = {}
    | Some rs \<Rightarrow> ranges_ok lo hi rs \<and> covered rs = asked_lines arr lo hi"
  using assms by (rule sanitize_ranges_lemma)

lemma sanitize_ranges_exact_witness:
  "sanitize_ranges sort_by [JArray [JUInt 10, JUInt 12], JArray [JUInt 5, JUInt 7], JUInt 3] 1 50 = Some [(3, 14)]
   \<and> covered [(3, 14)] = asked_lines [JArray [JUInt 10, JUInt 12], JArray [JUInt 5, JUInt 7], JUInt 3] 1 50"
proof
  have "u32_of_u64 10 = 10" "u32_of_u64 12 = 12" "u32_of_u64 5 = 5" "u32_of_u64 7 = 7"
    by (simp_all add: u32_of_u64_def U32_MAX_def)
  then show eval: "sanitize_ranges sort_by [JArray [JUInt 10, JUInt 12], JArray [JUInt 5, JUInt 7], JUInt 3] 1 50 = Some [(3, 14)]"
    by (simp add: sanitize_ranges_def clamp_pair_def line_pair_def List.map_filter_simps range_start_le_def merge_range_def
        RANGE_PAD_def U32_MAX_def Let_def)
  show "covered [(3, 14)] = asked_lines [JArray [JUInt 10, JUInt 12], JArray [JUInt 5, JUInt 7], JUInt 3] 1 50"
    using sanitize_ranges_exact [OF unstable_sort_sort_by, of "[JArray [JUInt 10, JUInt 12], JArray [JUInt 5, JUInt 7], JUInt 3]" 1 50]
    unfolding eval option.case by (rule conjunct2)
qed

section \<open>What a rerank returns\<close>

definition output_ok :: "merge_chunk list \<Rightarrow> rerank_output \<Rightarrow> bool" where
  "output_ok chunks r \<longleftrightarrow>
     list_all2 (\<lambda>i sel. i < length chunks \<and> selection_ok (chunks ! i) sel) (rr_indices r) (rr_selections r)"

lemma sanitize_selection_ok:
  assumes "unstable_sort srt"
  shows "selection_ok c (sanitize_ranges srt arr (mc_line_start c) (mc_line_end c))"
  using sanitize_ranges_lemma [OF assms, of arr "mc_line_start c" "mc_line_end c"]
  by (auto simp: selection_ok_def split: option.splits)

lemma select_lines_ok: "unstable_sort srt \<Longrightarrow> selection_ok c (select_lines srt m c raw)"
  by (auto simp: select_lines_def sanitize_selection_ok split: option.split) (simp_all add: selection_ok_def)

lemma ranking_entry_ok:
  assumes "unstable_sort srt" "ranking_entry srt chunks m entry = Some (i, sel)"
  shows "i < length chunks \<and> selection_ok (chunks ! i) sel"
  using assms(2) select_lines_ok [OF assms(1)]
  by (auto simp: ranking_entry_def split: option.splits if_splits)

lemma incoming_order_ok: "output_ok chunks (incoming_order (length chunks) req resp f skip)"
  by (simp add: output_ok_def incoming_order_def list_all2_conv_all_nth selection_ok_def)

lemma nothing_ranked_ok: "output_ok chunks (nothing_ranked req resp)"
  by (simp add: output_ok_def nothing_ranked_def)

lemma parse_rerank_ok:
  assumes "unstable_sort srt"
  shows "output_ok chunks (parse_rerank_response srt parse response chunks m structured)"
proof (cases "ranking_entries parse structured response")
  case (Inl reason)
  then show ?thesis by (simp add: parse_rerank_response_def incoming_order_ok)
next
  case (Inr arr)
  let ?picked = "List.map_filter (ranking_entry srt chunks m) arr"
  have "\<forall>p \<in> set ?picked. fst p < length chunks \<and> selection_ok (chunks ! fst p) (snd p)"
    using ranking_entry_ok [OF assms] by (auto simp: map_filter_mem)
  then have "list_all2 (\<lambda>i sel. i < length chunks \<and> selection_ok (chunks ! i) sel) (map fst ?picked) (map snd ?picked)"
    by (simp add: list_all2_conv_all_nth)
  then show ?thesis using Inr by (simp add: parse_rerank_response_def Let_def nothing_ranked_def output_ok_def)
qed

text \<open>A rerank degrades, it does not fail: whatever the model answers, every returned index addresses a
  candidate, every selection is a proper set of ranges of its chunk; and a fallback is the incoming
  order, whole chunks, with a reason.\<close>

theorem rerank_output_ok:
  assumes "unstable_sort (lh_sort h)"
  shows "output_ok (rq_chunks req) (rerank_with_llm h req client)
    \<and> (rr_fallback (rerank_with_llm h req client) \<longrightarrow>
         rr_indices (rerank_with_llm h req client) = [0..<length (rq_chunks req)]
         \<and> rr_selections (rerank_with_llm h req client) = replicate (length (rq_chunks req)) None
         \<and> rr_skip (rerank_with_llm h req client) \<noteq> None)"
proof (cases client)
  case None
  then show ?thesis by (simp add: rerank_with_llm_def incoming_order_ok) (simp add: incoming_order_def)
next
  case (Some c)
  obtain system user where prompts: "rerank_prompts h (structured_output_active c) req = (system, user)"
    by (cases "rerank_prompts h (structured_output_active c) req")
  have upd: "output_ok cs (r\<lparr>rr_request := x\<rparr>) = output_ok cs r" for cs r x by (simp add: output_ok_def)
  show ?thesis
  proof (cases "complete c system user (structured_output_active c)")
    case (Inl e)
    then show ?thesis using Some prompts
      by (simp add: rerank_with_llm_def Let_def incoming_order_ok nothing_ranked_ok) (simp add: incoming_order_def nothing_ranked_def)
  next
    case (Inr response)
    have fb: "rr_fallback (parse_rerank_response (lh_sort h) p response cs m st) \<Longrightarrow>
        \<exists>reason. parse_rerank_response (lh_sort h) p response cs m st = incoming_order (length cs) [] response True (Some reason)"
      for p cs m st
      by (auto simp: parse_rerank_response_def nothing_ranked_def Let_def split: sum.splits if_splits)
    show ?thesis using Some prompts Inr parse_rerank_ok [OF assms]
      by (auto simp: rerank_with_llm_def Let_def nothing_ranked_ok upd nothing_ranked_def dest!: fb) (simp_all add: incoming_order_def output_ok_def)
  qed
qed

text \<open>The indices of a model's answer are not deduplicated: a chunk named twice is returned twice.\<close>

lemma ranked_twice:
  "rr_indices (parse_rerank_response sort_by (\<lambda>_. Some (JArray [JUInt 0, JUInt 0])) ''[0,0]'' [demo_chunk ''a.rs'' 1 9] 0 False) = [0, 0]"
  by code_simp

text \<open>A placeholder in the query is filled with the chunks: the substitution runs over its own output.\<close>

lemma render_substitutes_values:
  "render ''Q: {{query}} C: {{chunks}}'' [(''query'', ''{{chunks}}''), (''chunks'', ''code'')] = ''Q: code C: code''"
  by code_simp

end
