(* ===== verification/Fs_Tools.thy ===== *)
theory Fs_Tools
  imports Path_Parts Encoding Source_Lines
begin

text \<open>
  The exact file tools of the two agents (\<open>src/fs_tools.rs\<close>): the guard that keeps a path inside the
  repository root, \<open>grep\<close> and \<open>read\<close> with their bounds.

  The file system, the directory walker and the pattern libraries are the record \<open>fs_world\<close>. The
  ellipsis and the dashes of messages are written with the characters of ASCII.
\<close>

record fs_world =
  canonicalize :: "str \<Rightarrow> str + str"
  path_exists :: "str \<Rightarrow> bool"
  path_is_file :: "str \<Rightarrow> bool"
  read_bytes :: "str \<Rightarrow> str + u8 list"
  metadata_len :: "str \<Rightarrow> nat option"
  walk_dir :: "str \<Rightarrow> (str \<times> bool) option list"
  regex_escape :: "str \<Rightarrow> str"
  regex_build :: "str \<Rightarrow> bool \<Rightarrow> str + (str \<Rightarrow> bool)"
  glob_build :: "str \<Rightarrow> str + (str \<Rightarrow> bool)"

definition GREP_MAX_MATCHES :: nat where "GREP_MAX_MATCHES = 200"
definition GREP_MAX_PER_FILE :: nat where "GREP_MAX_PER_FILE = 20"
definition GREP_MAX_FILES_SCANNED :: nat where "GREP_MAX_FILES_SCANNED = 20000"
definition GREP_MAX_FILE_BYTES :: nat where "GREP_MAX_FILE_BYTES = 2 * 1024 * 1024"
definition GREP_MAX_CONTEXT :: nat where "GREP_MAX_CONTEXT = 10"
definition READ_MAX_LINES :: nat where "READ_MAX_LINES = 800"
definition READ_MAX_BYTES :: nat where "READ_MAX_BYTES = 64 * 1024"

section \<open>The guard\<close>

text \<open>\<open>Path::starts_with\<close> and \<open>strip_prefix\<close> compare whole components.\<close>

definition path_starts_with :: "str \<Rightarrow> str \<Rightarrow> bool" where
  "path_starts_with p base \<longleftrightarrow> starts_with (path_components p) (path_components base)"

definition path_strip_prefix :: "str \<Rightarrow> str \<Rightarrow> str option" where
  "path_strip_prefix p base = map_option path_collect (strip_prefix (path_components p) (path_components base))"

definition resolve_within_root :: "fs_world \<Rightarrow> str \<Rightarrow> str \<Rightarrow> str + str" where
  "resolve_within_root w root rel0 =
     (let rel = trim rel0 in
      if rel = [] then Inl ''Error: file_path is required.''
      else if rooted rel then Inl (''Error: path must be relative to the repo root, got absolute: '' @ rel)
      else if contains_str rel '':'' then Inl (''Error: path must be relative to the repo root: '' @ rel)
      else
        (case canonicalize w root of
           Inl e \<Rightarrow> Inl (''Error: cannot resolve repo root: '' @ e)
         | Inr canon_root \<Rightarrow>
             (case canonicalize w (path_join root rel) of
                Inl _ \<Rightarrow> Inl (''Error: file not found in repo: '' @ rel)
              | Inr canon_target \<Rightarrow>
                  if path_starts_with canon_target canon_root then Inr canon_target
                  else Inl (''Error: path escapes the repository root: '' @ rel))))"

definition looks_binary :: "u8 list \<Rightarrow> bool" where
  "looks_binary bs \<longleftrightarrow> 0 \<in> set (take 8192 bs)"

section \<open>grep\<close>

record grep_region =
  gr_rel_path :: str
  gr_line_start :: nat
  gr_line_end :: nat

record grep_outcome =
  go_text :: str
  go_ok :: bool
  go_regions :: "grep_region list"

definition grep_err :: "str \<Rightarrow> grep_outcome" where
  "grep_err msg = \<lparr>go_text = msg, go_ok = False, go_regions = []\<rparr>"

definition push_region :: "str \<Rightarrow> nat \<Rightarrow> nat \<Rightarrow> grep_region list \<Rightarrow> grep_region list" where
  "push_region rel_path lo hi regions =
     (if regions \<noteq> [] \<and> gr_rel_path (last regions) = rel_path \<and> lo \<le> gr_line_end (last regions) + 1
      then butlast regions @
        [(last regions)\<lparr>gr_line_end := max (gr_line_end (last regions)) hi,
                        gr_line_start := min (gr_line_start (last regions)) lo\<rparr>]
      else regions @ [\<lparr>gr_rel_path = rel_path, gr_line_start = lo, gr_line_end = hi\<rparr>])"

definition has_wildcard :: "str \<Rightarrow> bool" where
  "has_wildcard s \<longleftrightarrow> contains_str s ''*'' \<or> contains_str s ''?'' \<or> contains_str s ''[''"

definition glob_literal_prefix :: "str \<Rightarrow> str option" where
  "glob_literal_prefix g =
     (let prefix = takeWhile (\<lambda>comp. \<not> has_wildcard comp) (split_on (\<lambda>c. c = slash) g)
      in if prefix = [] then None else Some (join [slash] prefix))"

text \<open>The scope: where the walk starts and the filter on paths, or the error shown.\<close>

definition grep_scope :: "fs_world \<Rightarrow> str \<Rightarrow> str \<Rightarrow> str option \<Rightarrow> str + (str \<times> (str \<Rightarrow> bool) option)" where
  "grep_scope w root canon_root path_scope =
     (case (case map_option trim path_scope of Some s \<Rightarrow> if s = [] then None else Some s | None \<Rightarrow> None) of
        None \<Rightarrow> Inr (canon_root, None)
      | Some scope \<Rightarrow>
          if has_wildcard scope then
            (case glob_build w scope of
               Inl e \<Rightarrow> Inl (''Error: invalid path glob: '' @ e)
             | Inr g \<Rightarrow>
                 Inr (case glob_literal_prefix scope of
                        None \<Rightarrow> canon_root
                      | Some prefix \<Rightarrow>
                          (let p = path_join canon_root prefix in
                           if path_starts_with p canon_root \<and> path_exists w p then p else canon_root),
                      Some g))
          else
            (case resolve_within_root w root scope of Inl e \<Rightarrow> Inl e | Inr p \<Rightarrow> Inr (p, None)))"

record grep_state =
  gs_out :: str
  gs_regions :: "grep_region list"
  gs_total :: nat
  gs_scanned :: nat
  gs_truncated :: bool

fun context_lines_text :: "str \<Rightarrow> nat \<Rightarrow> str list \<Rightarrow> str" where
  "context_lines_text rel n [] = []"
| "context_lines_text rel n (l # ls) = rel @ ''-'' @ show_nat n @ ''-'' @ l @ [newline] @ context_lines_text rel (n + 1) ls"

text \<open>One matching line of a file.\<close>

definition emit_match :: "nat \<Rightarrow> str \<Rightarrow> str list \<Rightarrow> nat \<Rightarrow> grep_state \<Rightarrow> grep_state" where
  "emit_match context rel ls idx st =
     (let from_at = idx - context;
          upto_at = min (idx + 1 + context) (length ls);
          before = (if 0 < context then context_lines_text rel (from_at + 1) (take (idx - from_at) (drop from_at ls)) else []);
          here = rel @ '':'' @ show_nat (idx + 1) @ '': '' @ ls ! idx @ [newline];
          after = (if 0 < context then context_lines_text rel (idx + 2) (take (upto_at - (idx + 1)) (drop (idx + 1) ls)) else [])
      in st\<lparr>gs_out := gs_out st @ before @ here @ after,
            gs_regions := push_region rel (max (idx + 1 - context) 1) (min (idx + 1 + context) (max (length ls) 1)) (gs_regions st),
            gs_total := gs_total st + 1\<rparr>)"

text \<open>The lines of a file from an index on; the flag is \<open>break 'walk\<close>.\<close>

fun grep_lines ::
  "(str \<Rightarrow> bool) \<Rightarrow> nat \<Rightarrow> str \<Rightarrow> str list \<Rightarrow> nat list \<Rightarrow> nat \<Rightarrow> grep_state \<Rightarrow> bool \<times> grep_state" where
  "grep_lines is_match context rel ls [] file_matches st = (False, st)"
| "grep_lines is_match context rel ls (idx # idxs) file_matches st =
     (if \<not> is_match (ls ! idx) then grep_lines is_match context rel ls idxs file_matches st
      else
        (let st' = emit_match context rel ls idx st in
         if GREP_MAX_MATCHES \<le> gs_total st' then (True, st'\<lparr>gs_truncated := True\<rparr>)
         else if GREP_MAX_PER_FILE \<le> file_matches + 1
         then (False, st'\<lparr>gs_out := gs_out st' @ rel @ '': ... more matches in this file omitted (per-file cap ''
                 @ show_nat GREP_MAX_PER_FILE @ '')'' @ [newline]\<rparr>)
         else grep_lines is_match context rel ls idxs (file_matches + 1) st'))"

text \<open>The text of a file, unless grep skips it.\<close>

definition searchable :: "fs_world \<Rightarrow> str \<Rightarrow> str option" where
  "searchable w path =
     (if GREP_MAX_FILE_BYTES < (case metadata_len w path of Some n \<Rightarrow> n | None \<Rightarrow> 0) then None
      else (case read_bytes w path of
              Inl _ \<Rightarrow> None
            | Inr bytes \<Rightarrow> if looks_binary bytes then None else from_utf8 bytes))"

fun grep_walk ::
  "fs_world \<Rightarrow> str \<Rightarrow> (str \<Rightarrow> bool) option \<Rightarrow> (str \<Rightarrow> bool) \<Rightarrow> nat \<Rightarrow> (str \<times> bool) option list \<Rightarrow> grep_state \<Rightarrow> grep_state" where
  "grep_walk w canon_root glob is_match context [] st = st"
| "grep_walk w canon_root glob is_match context (dent # dents) st =
     (case dent of
        None \<Rightarrow> grep_walk w canon_root glob is_match context dents st
      | Some (path, regular) \<Rightarrow>
          if \<not> regular then grep_walk w canon_root glob is_match context dents st
          else
            (case canonicalize w path of
               Inl _ \<Rightarrow> grep_walk w canon_root glob is_match context dents st
             | Inr canon \<Rightarrow>
                 if \<not> path_starts_with canon canon_root then grep_walk w canon_root glob is_match context dents st
                 else
                   (let rel = (case path_strip_prefix canon canon_root of Some r \<Rightarrow> r | None \<Rightarrow> canon) in
                    if (case glob of Some g \<Rightarrow> \<not> g rel | None \<Rightarrow> False)
                    then grep_walk w canon_root glob is_match context dents st
                    else
                      (let st1 = st\<lparr>gs_scanned := gs_scanned st + 1\<rparr> in
                       if GREP_MAX_FILES_SCANNED < gs_scanned st1 then st1\<lparr>gs_truncated := True\<rparr>
                       else
                         (case searchable w path of
                            None \<Rightarrow> grep_walk w canon_root glob is_match context dents st1
                          | Some content \<Rightarrow>
                              (let ls = str_lines content in
                               case grep_lines is_match context (replace_char backslash slash rel) ls [0..<length ls] 0 st1 of
                                 (True, st2) \<Rightarrow> st2
                               | (False, st2) \<Rightarrow> grep_walk w canon_root glob is_match context dents st2))))))"

definition run_grep ::
  "fs_world \<Rightarrow> str \<Rightarrow> str \<Rightarrow> str option \<Rightarrow> bool \<Rightarrow> bool \<Rightarrow> nat \<Rightarrow> grep_outcome" where
  "run_grep w root pattern path_scope literal ignore_case context =
     (case regex_build w (if literal then regex_escape w pattern else pattern) ignore_case of
        Inl e \<Rightarrow> grep_err (''Error: invalid regex pattern: '' @ e)
      | Inr is_match \<Rightarrow>
          (case canonicalize w root of
             Inl e \<Rightarrow> grep_err (''Error: cannot resolve repo root: '' @ e)
           | Inr canon_root \<Rightarrow>
               (case grep_scope w root canon_root path_scope of
                  Inl e \<Rightarrow> grep_err e
                | Inr (walk_start, glob) \<Rightarrow>
                    (let st = grep_walk w canon_root glob is_match context (walk_dir w walk_start)
                           \<lparr>gs_out = [], gs_regions = [], gs_total = 0, gs_scanned = 0, gs_truncated = False\<rparr>
                     in if gs_total st = 0 then
                          \<lparr>go_text = ''No matches for pattern `'' @ pattern @ ''`''
                              @ (case path_scope of Some s \<Rightarrow> '' in '' @ s | None \<Rightarrow> [])
                              @ ''. Note: grep matches exact text/regex '' @ ''- if you expected a match, try different wording''
                              @ '' with codebase-retrieval (semantic) or check the pattern.'',
                            go_ok = True, go_regions = []\<rparr>
                        else
                          \<lparr>go_text = gs_out st @
                              (if gs_truncated st
                               then [newline] @ ''[truncated: hit the '' @ show_nat GREP_MAX_MATCHES @ ''-match / ''
                                 @ show_nat GREP_MAX_FILES_SCANNED @ ''-file cap - narrow with a more specific pattern or a `path` scope]''
                                 @ [newline]
                               else []),
                            go_ok = True, go_regions = gs_regions st\<rparr>))))"

section \<open>read\<close>

record read_outcome =
  ro_text :: str
  ro_ok :: bool
  ro_range :: "(str \<times> nat \<times> nat) option"

definition read_err :: "str \<Rightarrow> read_outcome" where
  "read_err msg = \<lparr>ro_text = msg, ro_ok = False, ro_range = None\<rparr>"

text \<open>The lines that fit into the byte cap; the second result is the last line number emitted.\<close>

fun read_body :: "str list \<Rightarrow> nat \<Rightarrow> str \<Rightarrow> nat \<Rightarrow> str \<times> nat" where
  "read_body [] n body emitted_to = (body, emitted_to)"
| "read_body (l # ls) n body emitted_to =
     (let rendered = show_nat n @ '': '' @ l @ [newline] in
      if body \<noteq> [] \<and> READ_MAX_BYTES < str_len body + str_len rendered then (body, emitted_to)
      else read_body ls (n + 1) (body @ rendered) n)"

definition run_read :: "fs_world \<Rightarrow> str \<Rightarrow> str \<Rightarrow> nat option \<Rightarrow> nat option \<Rightarrow> read_outcome" where
  "run_read w root file_path start_line end_line =
     (case resolve_within_root w root file_path of
        Inl e \<Rightarrow> read_err e
      | Inr target \<Rightarrow>
          if \<not> path_is_file w target then read_err (''Error: not a regular file: '' @ file_path)
          else
            (case read_bytes w target of
               Inl e \<Rightarrow> read_err (''Error: could not read file: '' @ e)
             | Inr bytes \<Rightarrow>
                 if looks_binary bytes then read_err (''Error: file appears to be binary, not reading: '' @ file_path)
                 else
                   (case from_utf8 bytes of
                      None \<Rightarrow> read_err (''Error: file is not valid UTF-8: '' @ file_path)
                    | Some content \<Rightarrow>
                        (let ls = str_lines content; total = length ls in
                         if total = 0 then \<lparr>ro_text = file_path @ '' is empty (0 lines).'', ro_ok = True, ro_range = None\<rparr>
                         else
                           (let start = max (case start_line of Some n \<Rightarrow> n | None \<Rightarrow> 1) 1 in
                            if total < start then
                              read_err (''Error: start_line '' @ show_nat start @ '' is past end of file (''
                                @ show_nat total @ '' lines): '' @ file_path)
                            else
                              (let end_at = max (min (case end_line of Some n \<Rightarrow> n | None \<Rightarrow> total) total) start;
                                   line_cap_end = min end_at (start + READ_MAX_LINES - 1);
                                   (body, emitted_to) =
                                     read_body (take (line_cap_end - (start - 1)) (drop (start - 1) ls)) start [] (start - 1);
                                   rel = replace_char backslash slash (trim file_path)
                               in \<lparr>ro_text = rel @ '' (lines '' @ show_nat start @ ''-'' @ show_nat emitted_to @ '' of ''
                                      @ show_nat total @ '')'' @ [newline] @ body
                                      @ (if emitted_to < end_at
                                         then [newline] @ ''[truncated at the per-read cap '' @ ''- call read again with start_line=''
                                           @ show_nat (emitted_to + 1) @ '' to continue]'' @ [newline]
                                         else []),
                                   ro_ok = True, ro_range = Some (rel, start, emitted_to)\<rparr>))))))"

section \<open>What a read returns\<close>

definition numbered_lines :: "nat \<Rightarrow> str list \<Rightarrow> str" where
  "numbered_lines n ls = concat (map (\<lambda>l. l @ [newline]) (number_from n ls))"

lemma numbered_lines_Cons: "numbered_lines n (l # ls) = (show_nat n @ '': '' @ l @ [newline]) @ numbered_lines (n + 1) ls"
  by (simp add: numbered_lines_def)

lemma read_body_spec:
  "read_body ls n body m = (b, m') \<Longrightarrow> \<exists>k \<le> length ls. b = body @ numbered_lines n (take k ls)
     \<and> m' = (if k = 0 then m else n + k - 1) \<and> (str_len b \<le> READ_MAX_BYTES \<or> k = 0 \<or> body = [] \<and> k = 1)
     \<and> (body = [] \<and> ls \<noteq> [] \<longrightarrow> 0 < k)"
proof (induction ls n body m rule: read_body.induct)
  case (1 n body m)
  then show ?case by (auto simp: numbered_lines_def)
next
  case (2 l ls n body m)
  let ?rendered = "show_nat n @ '': '' @ l @ [newline]"
  show ?case
  proof (cases "body \<noteq> [] \<and> READ_MAX_BYTES < str_len body + str_len ?rendered")
    case True
    with "2.prems" show ?thesis by (intro exI [of _ 0]) (auto simp: numbered_lines_def)
  next
    case False
    with "2.prems" have run: "read_body ls (n + 1) (body @ ?rendered) n = (b, m')" by (auto simp: Let_def)
    have "\<exists>k \<le> length ls. b = (body @ ?rendered) @ numbered_lines (n + 1) (take k ls)
        \<and> m' = (if k = 0 then n else n + 1 + k - 1)
        \<and> (str_len b \<le> READ_MAX_BYTES \<or> k = 0 \<or> body @ ?rendered = [] \<and> k = 1)
        \<and> (body @ ?rendered = [] \<and> ls \<noteq> [] \<longrightarrow> 0 < k)"
      by (rule "2.IH" [OF refl False run])
    then obtain k where k: "k \<le> length ls" "b = (body @ ?rendered) @ numbered_lines (n + 1) (take k ls)"
      "m' = (if k = 0 then n else n + 1 + k - 1)" "str_len b \<le> READ_MAX_BYTES \<or> k = 0" by auto
    have "str_len b \<le> READ_MAX_BYTES \<or> body = [] \<and> k = 0"
      using False k(2,4) by (auto simp: numbered_lines_def)
    then show ?thesis using k(1-3) by (intro exI [of _ "Suc k"]) (auto simp: numbered_lines_Cons)
  qed
qed

text \<open>A read is verbatim, bounded and makes progress. When \<open>read\<close> serves lines \<open>s\<close> to \<open>e\<close> of a file,
  they lie in the file, start where asked, and are shown verbatim under their own numbers; at least one
  line is served, so paging from \<open>e + 1\<close> advances, at most 800 lines, and at most 64 KiB unless a single
  line alone is longer.\<close>

theorem read_is_verbatim:
  assumes "resolve_within_root w root path = Inr target" "read_bytes w target = Inr bytes" "from_utf8 bytes = Some content"
    and "ro_range (run_read w root path from_line to_line) = Some (rel, s, e)"
  shows "s = max (case from_line of Some n \<Rightarrow> n | None \<Rightarrow> 1) 1 \<and> s \<le> e \<and> e < s + READ_MAX_LINES
    \<and> e \<le> length (str_lines content)
    \<and> (\<exists>header footer. ro_text (run_read w root path from_line to_line) =
          header @ numbered_lines s (take (e + 1 - s) (drop (s - 1) (str_lines content))) @ footer)
    \<and> (str_len (numbered_lines s (take (e + 1 - s) (drop (s - 1) (str_lines content)))) \<le> READ_MAX_BYTES \<or> e = s)"
proof -
  define ls where "ls = str_lines content"
  define start where "start = max (case from_line of Some n \<Rightarrow> n | None \<Rightarrow> 1) 1"
  define end_at where "end_at = max (min (case to_line of Some n \<Rightarrow> n | None \<Rightarrow> length ls) (length ls)) start"
  define cap where "cap = min end_at (start + READ_MAX_LINES - 1)"
  define window where "window = take (cap - (start - 1)) (drop (start - 1) ls)"
  obtain b m where b: "read_body window start [] (start - 1) = (b, m)"
    by (cases "read_body window start [] (start - 1)") auto
  note unfolded = run_read_def assms(1) sum.case
  have regular: "path_is_file w target"
    using assms(4) by (rule contrapos_pp) (simp add: unfolded read_err_def)
  have plain: "\<not> looks_binary bytes"
    using assms(4) by (rule contrapos_pn) (simp add: unfolded regular assms(2) read_err_def)
  note unfolded = unfolded regular [THEN eqTrueI] plain [THEN eq_False [THEN iffD2]] assms(2,3) not_True_eq_False not_False_eq_True if_False if_True option.case Let_def
    ls_def [symmetric] start_def [symmetric]
  have some: "length ls \<noteq> 0"
    using assms(4) by (rule contrapos_pn) (unfold unfolded, simp)
  have past: "\<not> length ls < start"
    using assms(4) by (rule contrapos_pn) (unfold unfolded, simp add: some read_err_def)
  have out: "run_read w root path from_line to_line =
      \<lparr>ro_text = replace_char backslash slash (trim path) @ '' (lines '' @ show_nat start @ ''-'' @ show_nat m @ '' of ''
           @ show_nat (length ls) @ '')'' @ [newline] @ b
           @ (if m < end_at
              then [newline] @ ''[truncated at the per-read cap '' @ ''- call read again with start_line=''
                @ show_nat (m + 1) @ '' to continue]'' @ [newline]
              else []),
       ro_ok = True, ro_range = Some (replace_char backslash slash (trim path), start, m)\<rparr>"
    unfolding unfolded using some past b by (simp add: window_def cap_def end_at_def)
  have start: "1 \<le> start" "start \<le> length ls" using past by (simp add: start_def) (rule leI [OF past])
  from out assms(4) have s: "s = start" "e = m" by auto
  have cap: "start \<le> cap" "cap \<le> length ls" "cap < start + READ_MAX_LINES"
    using start by (auto simp: cap_def end_at_def READ_MAX_LINES_def)
  have len: "length window = cap + 1 - start" "window \<noteq> []"
    using cap start by (auto simp: window_def)
  obtain k where k: "k \<le> length window" "b = numbered_lines start (take k window)"
      "m = (if k = 0 then start - 1 else start + k - 1)" "str_len b \<le> READ_MAX_BYTES \<or> k = 1" "0 < k"
    using read_body_spec [OF b] len(2) by auto
  have m: "m + 1 - start = k" "start \<le> m" "m \<le> cap" using k(1,3,5) len(1) start cap(1) by auto
  have "k \<le> cap - (start - 1)" using k(1) len(1) start(1) by simp
  then have "take k window = take k (drop (start - 1) ls)"
    unfolding window_def take_take by (simp add: min_def)
  then have body: "b = numbered_lines start (take (m + 1 - start) (drop (start - 1) ls))"
    using k(2) m(1) by simp
  have "\<exists>header footer. ro_text (run_read w root path from_line to_line) = header @ b @ footer"
    unfolding out by (rule exI [of _ "replace_char backslash slash (trim path) @ '' (lines '' @ show_nat start @ ''-'' @ show_nat m @ '' of ''
           @ show_nat (length ls) @ '')'' @ [newline]"], simp)
  moreover have "str_len b \<le> READ_MAX_BYTES \<or> m = start" using k(3,4) by auto
  ultimately show ?thesis
    using m cap unfolding s body [symmetric] start_def [symmetric] ls_def [symmetric] by auto
qed


definition demo_world :: fs_world where
  "demo_world = \<lparr>canonicalize = Inr, path_exists = (\<lambda>_. True), path_is_file = (\<lambda>_. True),
     read_bytes = (\<lambda>_. Inr (as_bytes two_liner)), metadata_len = (\<lambda>_. Some 10),
     walk_dir = (\<lambda>_. [Some (''/r/a.rs'', True)]), regex_escape = id,
     regex_build = (\<lambda>p _. Inr (\<lambda>l. contains_str l p)), glob_build = (\<lambda>_. Inr (\<lambda>_. True))\<rparr>"

lemma read_is_verbatim_witness:
  "ro_range (run_read demo_world ''/r'' ''a.rs'' (Some 2) None) = Some (''a.rs'', 2, 2)
   \<and> (\<exists>header footer. ro_text (run_read demo_world ''/r'' ''a.rs'' (Some 2) None) =
        header @ numbered_lines 2 (take (2 + 1 - 2) (drop (2 - 1) (str_lines two_liner))) @ footer)"
proof -
  have 1: "resolve_within_root demo_world ''/r'' ''a.rs'' = Inr ''/r/a.rs''" by code_simp
  have 2: "read_bytes demo_world ''/r/a.rs'' = Inr (as_bytes two_liner)" by (simp add: demo_world_def)
  have 3: "from_utf8 (as_bytes two_liner) = Some two_liner" by simp
  have 4: "ro_range (run_read demo_world ''/r'' ''a.rs'' (Some 2) None) = Some (''a.rs'', 2, 2)" by code_simp
  from read_is_verbatim [OF 1 2 3 4] 4 show ?thesis by blast
qed

section \<open>What a grep reports\<close>

text \<open>A region of a file, and why it is reported.\<close>

definition justified :: "fs_world \<Rightarrow> str \<Rightarrow> (str \<Rightarrow> bool) \<Rightarrow> grep_region \<Rightarrow> bool" where
  "justified w canon_root is_match r \<longleftrightarrow>
     (\<exists>path canon content idx. canonicalize w path = Inr canon \<and> path_starts_with canon canon_root
        \<and> searchable w path = Some content
        \<and> gr_rel_path r = replace_char backslash slash (case path_strip_prefix canon canon_root of Some p \<Rightarrow> p | None \<Rightarrow> canon)
        \<and> idx < length (str_lines content) \<and> is_match (str_lines content ! idx)
        \<and> 1 \<le> gr_line_start r \<and> gr_line_start r \<le> idx + 1 \<and> idx + 1 \<le> gr_line_end r)"

definition grep_ok :: "fs_world \<Rightarrow> str \<Rightarrow> (str \<Rightarrow> bool) \<Rightarrow> grep_state \<Rightarrow> bool" where
  "grep_ok w canon_root is_match st \<longleftrightarrow>
     gs_total st \<le> GREP_MAX_MATCHES \<and> length (gs_regions st) \<le> gs_total st
     \<and> (\<forall>r \<in> set (gs_regions st). justified w canon_root is_match r)"

lemma justified_grow:
  assumes "justified w cr is_match l" "gr_rel_path r = gr_rel_path l" "1 \<le> gr_line_start r"
    and "gr_line_start r \<le> gr_line_start l" "gr_line_end l \<le> gr_line_end r"
  shows "justified w cr is_match r"
  using assms unfolding justified_def by (elim exE conjE) (intro exI conjI, (assumption | simp)+)

lemma push_region_length: "length (push_region rel lo hi rs) \<le> Suc (length rs)"
  by (simp add: push_region_def)

lemma push_region_mem:
  assumes "r \<in> set (push_region rel lo hi rs)"
  shows "r \<in> set rs \<or> r = \<lparr>gr_rel_path = rel, gr_line_start = lo, gr_line_end = hi\<rparr>
    \<or> (\<exists>l \<in> set rs. gr_rel_path l = gr_rel_path r \<and> gr_line_start r = min (gr_line_start l) lo
         \<and> gr_line_end r = max (gr_line_end l) hi)"
  using assms last_in_set [of rs]
  by (auto simp: push_region_def dest: in_set_butlastD split: if_splits)

lemma emit_match_ok:
  assumes "grep_ok w cr is_match st" "gs_total st < GREP_MAX_MATCHES"
    and "canonicalize w path = Inr canon" "path_starts_with canon cr" "searchable w path = Some content"
    and "rel = replace_char backslash slash (case path_strip_prefix canon cr of Some p \<Rightarrow> p | None \<Rightarrow> canon)"
    and "idx < length (str_lines content)" "is_match (str_lines content ! idx)"
  shows "grep_ok w cr is_match (emit_match context rel (str_lines content) idx st)"
proof -
  let ?lo = "max (idx + 1 - context) 1" and ?hi = "min (idx + 1 + context) (max (length (str_lines content)) 1)"
  have st: "gs_total st \<le> GREP_MAX_MATCHES" "length (gs_regions st) \<le> gs_total st"
    "\<forall>r \<in> set (gs_regions st). justified w cr is_match r"
    using assms(1) by (simp_all add: grep_ok_def)
  have new: "justified w cr is_match \<lparr>gr_rel_path = rel, gr_line_start = ?lo, gr_line_end = ?hi\<rparr>"
    unfolding justified_def using assms(3-8) by (intro exI conjI) (assumption | simp)+
  have "justified w cr is_match r" if "r \<in> set (push_region rel ?lo ?hi (gs_regions st))" for r
    using push_region_mem [OF that]
  proof (elim disjE bexE conjE)
    assume "r \<in> set (gs_regions st)"
    then show ?thesis using st(3) by blast
  next
    assume "r = \<lparr>gr_rel_path = rel, gr_line_start = ?lo, gr_line_end = ?hi\<rparr>"
    then show ?thesis using new by simp
  next
    fix l assume l: "l \<in> set (gs_regions st)" "gr_rel_path l = gr_rel_path r"
      "gr_line_start r = min (gr_line_start l) ?lo" "gr_line_end r = max (gr_line_end l) ?hi"
    moreover have "justified w cr is_match l" using st(3) l(1) by blast
    moreover from this have "1 \<le> gr_line_start l" by (auto simp: justified_def)
    ultimately show ?thesis by (intro justified_grow [of w cr is_match l r]) simp_all
  qed
  moreover have "length (push_region rel ?lo ?hi (gs_regions st)) \<le> Suc (gs_total st)"
    using push_region_length [of rel ?lo ?hi "gs_regions st"] st(2) by linarith
  ultimately show ?thesis using assms(2) by (simp add: grep_ok_def emit_match_def Let_def)
qed


lemma emit_match_total [simp]: "gs_total (emit_match context rel ls idx st) = Suc (gs_total st)"
  by (simp add: emit_match_def Let_def)

lemma grep_ok_other [simp]:
  "grep_ok w cr is_match (st\<lparr>gs_out := x\<rparr>) = grep_ok w cr is_match st"
  "grep_ok w cr is_match (st\<lparr>gs_truncated := b\<rparr>) = grep_ok w cr is_match st"
  "grep_ok w cr is_match (st\<lparr>gs_scanned := n\<rparr>) = grep_ok w cr is_match st"
  by (simp_all add: grep_ok_def)

lemma grep_lines_ok:
  assumes "grep_lines is_match context rel (str_lines content) idxs k st = (stop, st')"
    and "grep_ok w cr is_match st" "gs_total st < GREP_MAX_MATCHES"
    and "canonicalize w path = Inr canon" "path_starts_with canon cr" "searchable w path = Some content"
    and "rel = replace_char backslash slash (case path_strip_prefix canon cr of Some p \<Rightarrow> p | None \<Rightarrow> canon)"
    and "\<forall>i \<in> set idxs. i < length (str_lines content)"
  shows "grep_ok w cr is_match st' \<and> (stop \<or> gs_total st' < GREP_MAX_MATCHES)"
  using assms
proof (induction idxs arbitrary: k st)
  case Nil
  then show ?case by simp
next
  case (Cons i idxs)
  show ?case
  proof (cases "is_match (str_lines content ! i)")
    case False
    with Cons show ?thesis by simp
  next
    case True
    let ?st = "emit_match context rel (str_lines content) i st"
    have ok: "grep_ok w cr is_match ?st"
      using Cons.prems True by (intro emit_match_ok) simp_all
    show ?thesis
    proof (cases "GREP_MAX_MATCHES \<le> gs_total ?st \<or> GREP_MAX_PER_FILE \<le> k + 1")
      case stop: True
      then show ?thesis using Cons.prems(1) True ok
        by (cases "GREP_MAX_MATCHES \<le> gs_total ?st") (auto simp: Let_def)
    next
      case False
      then have "grep_lines is_match context rel (str_lines content) idxs (k + 1) ?st = (stop, st')"
        using Cons.prems(1) True by (auto simp: Let_def)
      then show ?thesis using Cons.IH ok False Cons.prems(4-) by simp
    qed
  qed
qed

lemma grep_walk_ok:
  "grep_ok w cr is_match st \<Longrightarrow> gs_total st < GREP_MAX_MATCHES \<Longrightarrow>
     grep_ok w cr is_match (grep_walk w cr glob is_match context dents st)"
proof (induction dents arbitrary: st)
  case (Cons dent dents)
  note again = Cons.IH [OF Cons.prems]
  let ?st = "st\<lparr>gs_scanned := gs_scanned st + 1\<rparr>"
  have scanned: "grep_ok w cr is_match ?st" "gs_total ?st < GREP_MAX_MATCHES" using Cons.prems by simp_all
  show ?case
  proof (cases "\<exists>path canon content. dent = Some (path, True) \<and> canonicalize w path = Inr canon
      \<and> path_starts_with canon cr \<and> searchable w path = Some content")
    case False
    then show ?thesis using again Cons.IH [OF scanned] scanned(1)
      by (auto simp: Let_def split: option.split sum.split bool.split)
  next
    case True
    then obtain path canon content where d: "dent = Some (path, True)" "canonicalize w path = Inr canon"
      "path_starts_with canon cr" "searchable w path = Some content" by blast
    define rel where "rel = (case path_strip_prefix canon cr of Some p \<Rightarrow> p | None \<Rightarrow> canon)"
    obtain stop st2 where lines: "grep_lines is_match context (replace_char backslash slash rel) (str_lines content)
        [0..<length (str_lines content)] 0 ?st = (stop, st2)"
      by (cases "grep_lines is_match context (replace_char backslash slash rel) (str_lines content)
        [0..<length (str_lines content)] 0 ?st") auto
    have "grep_ok w cr is_match st2 \<and> (stop \<or> gs_total st2 < GREP_MAX_MATCHES)"
      by (rule grep_lines_ok [OF lines scanned d(2-4)]) (simp_all add: rel_def)
    then have found: "grep_ok w cr is_match (if stop then st2 else grep_walk w cr glob is_match context dents st2)"
      using Cons.IH [of st2] by (cases stop) simp_all
    show ?thesis
    proof (cases "case glob of Some g \<Rightarrow> \<not> g rel | None \<Rightarrow> False")
      case True
      then show ?thesis using again d(1-3) by (simp add: Let_def rel_def [symmetric])
    next
      case filtered: False
      then show ?thesis using found scanned lines d by (cases stop) (auto simp: Let_def rel_def [symmetric])
    qed
  qed
qed simp

text \<open>What grep reports is there, inside the root, and bounded. At most 200 regions come back; each one
  is a non-empty range of a readable file whose real path lies inside the real root, its path relative to
  that root, and contains a line the pattern matches.\<close>

theorem grep_reports_matches:
  assumes "canonicalize w root = Inr cr"
    and "regex_build w (if literal then regex_escape w pattern else pattern) ignore_case = Inr is_match"
  shows "length (go_regions (run_grep w root pattern scope literal ignore_case context)) \<le> GREP_MAX_MATCHES
    \<and> (\<forall>r \<in> set (go_regions (run_grep w root pattern scope literal ignore_case context)). justified w cr is_match r)"
proof (cases "grep_scope w root cr scope")
  case (Inl e)
  then show ?thesis using assms by (simp add: run_grep_def grep_err_def)
next
  case (Inr s)
  obtain start glob where s: "s = (start, glob)" by (cases s)
  let ?init = "\<lparr>gs_out = [], gs_regions = [], gs_total = 0, gs_scanned = 0, gs_truncated = False\<rparr>"
  have "grep_ok w cr is_match (grep_walk w cr glob is_match context (walk_dir w start) ?init)"
    by (rule grep_walk_ok) (simp_all add: grep_ok_def GREP_MAX_MATCHES_def)
  then show ?thesis using assms Inr s by (simp add: run_grep_def Let_def grep_ok_def)
qed

lemma grep_reports_matches_witness:
  "\<exists>r. go_regions (run_grep demo_world ''/r'' ''fn b'' None True False 0) = [r]
     \<and> gr_rel_path r = ''a.rs'' \<and> gr_line_start r = 2 \<and> justified demo_world ''/r'' (\<lambda>l. contains_str l ''fn b'') r"
proof -
  have 1: "canonicalize demo_world ''/r'' = Inr ''/r''" by (simp add: demo_world_def)
  have 2: "regex_build demo_world (if True then regex_escape demo_world ''fn b'' else ''fn b'') False = Inr (\<lambda>l. contains_str l ''fn b'')"
    by (simp add: demo_world_def)
  have ls: "str_lines two_liner = [''fn a'', ''fn b'']" "\<not> contains_str ''fn a'' ''fn b''" "contains_str ''fn b'' ''fn b''"
    by code_simp+
  have here: "path_starts_with ''/r/a.rs'' ''/r''" "path_strip_prefix ''/r/a.rs'' ''/r'' = Some ''a.rs''"
    "replace_char backslash slash ''a.rs'' = ''a.rs''" by code_simp+
  have "0 \<notin> set (as_bytes two_liner)" by code_simp
  then have "\<not> looks_binary (as_bytes two_liner)" by (auto simp: looks_binary_def dest: in_set_takeD)
  then have content: "searchable demo_world ''/r/a.rs'' = Some two_liner"
    by (simp add: searchable_def demo_world_def GREP_MAX_FILE_BYTES_def)
  have world: "walk_dir demo_world p = [Some (''/r/a.rs'', True)]" "canonicalize demo_world p = Inr p" for p
    by (simp_all add: demo_world_def)
  have idxs: "[0..<2] = [0, 1 :: nat]" by code_simp
  have 3: "go_regions (run_grep demo_world ''/r'' ''fn b'' None True False 0) =
      [\<lparr>gr_rel_path = ''a.rs'', gr_line_start = 2, gr_line_end = 2\<rparr>]"
    unfolding run_grep_def 2 sum.case world grep_scope_def
    by (simp add: world here content ls idxs Let_def emit_match_def push_region_def numeral_2_eq_2
        GREP_MAX_FILES_SCANNED_def GREP_MAX_MATCHES_def GREP_MAX_PER_FILE_def)
  let ?r = "\<lparr>gr_rel_path = ''a.rs'', gr_line_start = 2, gr_line_end = 2\<rparr>"
  from grep_reports_matches [OF 1 2, of None 0]
  have "\<forall>r \<in> set [?r]. justified demo_world ''/r'' (\<lambda>l. contains_str l ''fn b'') r"
    unfolding 3 by (rule conjunct2)
  then have "justified demo_world ''/r'' (\<lambda>l. contains_str l ''fn b'') ?r"
    by (rule bspec) (rule list.set_intros)
  then show ?thesis unfolding 3 by (intro exI [of _ ?r] conjI refl) simp_all
qed

section \<open>Nothing outside the root is read\<close>

text \<open>Two worlds that differ only in the contents of files outside the root.\<close>

definition same_inside :: "str \<Rightarrow> fs_world \<Rightarrow> fs_world \<Rightarrow> bool" where
  "same_inside root w w' \<longleftrightarrow>
     w' = w\<lparr>read_bytes := read_bytes w', metadata_len := metadata_len w'\<rparr>
     \<and> (\<forall>p canon cr. canonicalize w p = Inr canon \<longrightarrow> canonicalize w root = Inr cr \<longrightarrow> path_starts_with canon cr \<longrightarrow>
          read_bytes w' p = read_bytes w p \<and> metadata_len w' p = metadata_len w p)"

lemma same_inside_fields:
  assumes "same_inside root w w'"
  shows "canonicalize w' = canonicalize w" "path_exists w' = path_exists w" "path_is_file w' = path_is_file w"
    "walk_dir w' = walk_dir w" "regex_escape w' = regex_escape w" "regex_build w' = regex_build w" "glob_build w' = glob_build w"
proof -
  have w': "w' = w\<lparr>read_bytes := read_bytes w', metadata_len := metadata_len w'\<rparr>"
    using assms unfolding same_inside_def by (rule conjunct1)
  show "canonicalize w' = canonicalize w" "path_exists w' = path_exists w" "path_is_file w' = path_is_file w"
    "walk_dir w' = walk_dir w" "regex_escape w' = regex_escape w" "regex_build w' = regex_build w" "glob_build w' = glob_build w"
    by (subst w', simp)+
qed

lemma same_inside_contents:
  assumes "same_inside root w w'" "canonicalize w p = Inr canon" "canonicalize w root = Inr cr" "path_starts_with canon cr"
  shows "read_bytes w' p = read_bytes w p" "metadata_len w' p = metadata_len w p" "searchable w' p = searchable w p"
proof -
  have "\<forall>p canon cr. canonicalize w p = Inr canon \<longrightarrow> canonicalize w root = Inr cr \<longrightarrow> path_starts_with canon cr \<longrightarrow>
      read_bytes w' p = read_bytes w p \<and> metadata_len w' p = metadata_len w p"
    using assms(1) unfolding same_inside_def by (rule conjunct2)
  then have "read_bytes w' p = read_bytes w p \<and> metadata_len w' p = metadata_len w p"
    using assms(2-4) by blast
  then show "read_bytes w' p = read_bytes w p" "metadata_len w' p = metadata_len w p" "searchable w' p = searchable w p"
    by (simp_all add: searchable_def)
qed

lemma grep_walk_inside:
  assumes "same_inside root w w'" "canonicalize w root = Inr cr"
  shows "grep_walk w' cr glob is_match context dents st = grep_walk w cr glob is_match context dents st"
proof (induction dents arbitrary: st)
  case (Cons dent dents)
  show ?case
  proof (cases "\<exists>path canon. dent = Some (path, True) \<and> canonicalize w path = Inr canon \<and> path_starts_with canon cr")
    case False
    then show ?thesis using Cons same_inside_fields(1) [OF assms(1)]
      by (cases dent) (auto split: sum.split)
  next
    case True
    then obtain path canon where d: "dent = Some (path, True)" "canonicalize w path = Inr canon" "path_starts_with canon cr"
      by blast
    have "searchable w' path = searchable w path"
      using assms(1) d(2) assms(2) d(3) by (rule same_inside_contents)
    then show ?thesis unfolding grep_walk.simps d(1) option.case prod.case same_inside_fields(1) [OF assms(1)] d(2) sum.case
        Cons.IH by (simp only:)
  qed
qed simp

lemma resolve_inside: "same_inside root w w' \<Longrightarrow> resolve_within_root w' r p = resolve_within_root w r p"
  by (simp only: resolve_within_root_def same_inside_fields)

lemma scope_inside: "same_inside root w w' \<Longrightarrow> grep_scope w' r cr s = grep_scope w r cr s"
  by (simp only: grep_scope_def same_inside_fields resolve_inside)

text \<open>C20: The tools cannot be made to show a file outside the repository. Whatever a model passes as
  path, scope or pattern, \<open>grep\<close> and \<open>read\<close> return the same when the contents of all files whose real
  path lies outside the real root are replaced; canonicalization is assumed to be stable.\<close>

theorem tools_confined:
  assumes "same_inside root w w'"
    and "\<And>p c. canonicalize w p = Inr c \<Longrightarrow> canonicalize w c = Inr c"
  shows "run_read w' root path from_line to_line = run_read w root path from_line to_line
    \<and> run_grep w' root pattern scope literal ignore_case context = run_grep w root pattern scope literal ignore_case context"
proof
  note fields = same_inside_fields [OF assms(1)]
  show "run_read w' root path from_line to_line = run_read w root path from_line to_line"
  proof (cases "resolve_within_root w root path")
    case (Inl e)
    then show ?thesis by (simp add: run_read_def resolve_inside [OF assms(1)])
  next
    case (Inr target)
    then obtain cr where "canonicalize w root = Inr cr" "canonicalize w target = Inr target" "path_starts_with target cr"
      using assms(2) by (auto simp: resolve_within_root_def Let_def split: if_splits sum.splits)
    then have "read_bytes w' target = read_bytes w target" using same_inside_contents(1) [OF assms(1)] by blast
    then show ?thesis unfolding run_read_def resolve_inside [OF assms(1)] Inr sum.case fields by (simp only:)
  qed
  show "run_grep w' root pattern scope literal ignore_case context = run_grep w root pattern scope literal ignore_case context"
  proof (cases "canonicalize w root")
    case (Inl e)
    then show ?thesis by (simp only: run_grep_def fields sum.case)
  next
    case (Inr cr)
    then show ?thesis
      by (simp only: run_grep_def fields sum.case scope_inside [OF assms(1)] grep_walk_inside [OF assms(1) Inr])
  qed
qed

definition outside_world :: fs_world where
  "outside_world = demo_world\<lparr>read_bytes := \<lambda>p. if p = ''/etc/passwd'' then Inl ''denied'' else Inr (as_bytes two_liner)\<rparr>"

lemma tools_confined_witness:
  "read_bytes outside_world ''/etc/passwd'' \<noteq> read_bytes demo_world ''/etc/passwd''
   \<and> run_read outside_world ''/r'' ''../etc/passwd'' None None = run_read demo_world ''/r'' ''../etc/passwd'' None None"
proof
  show "read_bytes outside_world ''/etc/passwd'' \<noteq> read_bytes demo_world ''/etc/passwd''"
    by (simp add: outside_world_def demo_world_def)
  have "path_starts_with ''/etc/passwd'' ''/r'' = False" by code_simp
  then have "same_inside ''/r'' demo_world outside_world"
    by (auto simp: same_inside_def outside_world_def demo_world_def)
  moreover have "\<And>p c. canonicalize demo_world p = Inr c \<Longrightarrow> canonicalize demo_world c = Inr c"
    by (simp add: demo_world_def)
  ultimately show "run_read outside_world ''/r'' ''../etc/passwd'' None None = run_read demo_world ''/r'' ''../etc/passwd'' None None"
    using tools_confined by blast
qed

text \<open>The anchor of a glob is checked on its text only: \<open>..\<close> in front of the first wildcard starts the walk
  above the root. The files met there are skipped one by one, but not counted, so the cap on the walk does
  not bound it.\<close>

lemma glob_walks_above_root:
  "map_sum id fst (grep_scope demo_world ''/r'' ''/r'' (Some ''../*.rs'')) = Inr ''/r/..''"
  by code_simp

end
