(* ===== verification/Agentic_Rerank.thy ===== *)
theory Agentic_Rerank
  imports Rerank Fs_Tools
begin

text \<open>
  The agentic reranker (\<open>run_agentic_loop\<close> of \<open>src/query/reranker.rs\<close>): a model selects chunks by tool
  calls, may search, grep and read between selections, and is stopped by budgets.

  The backend is the record \<open>backend\<close>: the model and the sub-queries act on a world of any type. Chunks
  are taken to have their start before their end, so that no read of a chunk's lines panics (lemma
  \<open>ordered_read_returns\<close>). Sizes are natural numbers; the saturating sums of the code cannot saturate.
\<close>

record tool_call =
  tc_name :: str
  tc_id :: "str option"
  tc_args :: json

record tool_result =
  tr_name :: str
  tr_id :: "str option"
  tr_content :: str

datatype chat_message = User str | Model str | ModelToolCalls "tool_call list" | ToolResults "tool_result list"

datatype tool_turn = TurnText str | TurnCalls "tool_call list"

record extended_pool =
  ep_chunks :: "merge_chunk list"
  ep_numbered :: "str option list"

definition AGENTIC_HISTORY_BYTE_CAP :: nat where "AGENTIC_HISTORY_BYTE_CAP = 1000000"
definition MAX_FORMAT_RETRIES :: nat where "MAX_FORMAT_RETRIES = 2"

record 'w backend =
  next_turn :: "str \<Rightarrow> chat_message list \<Rightarrow> bool \<Rightarrow> 'w \<Rightarrow> (str + tool_turn) \<times> 'w"
  sub_query :: "str \<Rightarrow> 'w \<Rightarrow> (str + merge_chunk list) \<times> 'w"
  repo_root :: "str option"
  files :: fs_world
  json_print :: "json \<Rightarrow> str"

section \<open>Sizes\<close>

definition message_bytes :: "(json \<Rightarrow> str) \<Rightarrow> chat_message \<Rightarrow> nat" where
  "message_bytes jp m =
     (case m of
        User t \<Rightarrow> str_len t
      | Model t \<Rightarrow> str_len t
      | ModelToolCalls calls \<Rightarrow> sum_list (map (\<lambda>c. str_len (tc_name c) + str_len (jp (tc_args c)) + 50) calls)
      | ToolResults results \<Rightarrow> sum_list (map (\<lambda>r. str_len (tr_name r) + str_len (tr_content r) + 50) results))"

definition estimate_history_bytes :: "(json \<Rightarrow> str) \<Rightarrow> chat_message list \<Rightarrow> nat" where
  "estimate_history_bytes jp ms = sum_list (map (message_bytes jp) ms)"

definition emitted_chars :: "merge_chunk \<Rightarrow> str option \<Rightarrow> range list option \<Rightarrow> nat" where
  "emitted_chars chunk numbered_text selection =
     (case (numbered_text, selection) of
        (Some t, Some ranges) \<Rightarrow>
          if ranges \<noteq> [] then sum_list (map (\<lambda>(s, e). str_len (slice_numbered t (mc_line_start chunk) s e)) ranges)
          else str_len t
      | (Some t, None) \<Rightarrow> str_len t
      | (None, _) \<Rightarrow> str_len (mc_content chunk))"

section \<open>The stops\<close>

datatype loop_exit = AgentDone | LlmError | QueryBudget | ChunkCharBudget | IterationCap | ByteCap

datatype final_action = UseAccumulated | EmptyRelevant | Fallback

definition decide_final_action :: "loop_exit \<Rightarrow> nat \<Rightarrow> final_action" where
  "decide_final_action exit accumulated_count =
     (if 1 \<le> accumulated_count then UseAccumulated
      else case exit of AgentDone \<Rightarrow> EmptyRelevant | _ \<Rightarrow> Fallback)"

definition boundary_exit :: "loop_exit option \<Rightarrow> loop_exit option" where
  "boundary_exit char_stop = char_stop"

section \<open>add\_chunks\<close>

definition add_one_chunk ::
  "range_sort \<Rightarrow> json \<Rightarrow> merge_chunk list \<Rightarrow> str option list \<Rightarrow> nat \<Rightarrow> chunk_selection list
     \<Rightarrow> (str \<times> nat) \<times> chunk_selection list" where
  "add_one_chunk srt item chunks numbered min_prune_lines accumulated =
     (case Option.bind (json_get ''chunk_index'' item) as_u64 of
        None \<Rightarrow> ((''Error: chunk_index is required and must be an integer'', 0), accumulated)
      | Some idx \<Rightarrow>
          if length chunks \<le> idx then
            ((''Error: chunk_index '' @ show_nat idx @ '' out of range (0..'' @ show_nat (length chunks) @ '')'', 0), accumulated)
          else if list_ex (\<lambda>s. fst s = idx) accumulated then
            ((''Skipped: chunk '' @ show_nat idx @ '' already added'', 0), accumulated)
          else
            (let chunk = chunks ! idx;
                 selection = select_lines srt min_prune_lines chunk (Option.bind (json_get ''lines'' item) as_array);
                 emitted = emitted_chars chunk (nth_flat numbered idx) selection
             in ((''OK: added chunk '' @ show_nat idx @ '' ('' @ mc_file chunk @ '':'' @ show_nat (mc_line_start chunk)
                    @ ''-'' @ show_nat (mc_line_end chunk) @ '')'', emitted), accumulated @ [(idx, selection)])))"

fun add_chunk_items ::
  "range_sort \<Rightarrow> json list \<Rightarrow> merge_chunk list \<Rightarrow> str option list \<Rightarrow> nat \<Rightarrow> chunk_selection list
     \<Rightarrow> (str list \<times> nat) \<times> chunk_selection list" where
  "add_chunk_items srt [] chunks numbered m accumulated = (([], 0), accumulated)"
| "add_chunk_items srt (item # items) chunks numbered m accumulated =
     (let ((line, chars), acc1) = add_one_chunk srt item chunks numbered m accumulated;
          ((lines_out, added), acc2) = add_chunk_items srt items chunks numbered m acc1
      in ((line # lines_out, chars + added), acc2))"

definition handle_add_chunks ::
  "range_sort \<Rightarrow> json \<Rightarrow> merge_chunk list \<Rightarrow> str option list \<Rightarrow> nat \<Rightarrow> chunk_selection list \<Rightarrow> nat \<Rightarrow> nat
     \<Rightarrow> (str \<times> nat) \<times> chunk_selection list" where
  "handle_add_chunks srt args chunks numbered min_prune_lines accumulated accumulated_chars char_budget =
     (case Option.bind (json_get ''chunks'' args) as_array of
        None \<Rightarrow> ((''Error: `chunks` is required and must be an array of {chunk_index, lines?} objects'', 0), accumulated)
      | Some arr \<Rightarrow>
          if arr = [] then
            ((''Error: `chunks` array is empty - include at least one {chunk_index} object'', 0), accumulated)
          else
            (let ((lines_out, added_chars), acc) = add_chunk_items srt arr chunks numbered min_prune_lines accumulated;
                 total_chars = accumulated_chars + added_chars;
                 remaining = (if 0 < char_budget then char_budget - total_chars else 0);
                 summary = ''--- '' @ show_nat (length acc) @ ''/'' @ show_nat (length chunks) @ '' chunks selected, ''
                   @ show_nat total_chars @ ''/'' @ show_nat char_budget @ '' chars used, '' @ show_nat remaining @ '' remaining.''
             in ((join [newline] (lines_out @ [summary]), added_chars), acc)))"

definition U64_MAX :: nat where "U64_MAX = 18446744073709551615"

definition malformed_line_chunks :: "json \<Rightarrow> nat list" where
  "malformed_line_chunks args =
     (case Option.bind (json_get ''chunks'' args) as_array of
        None \<Rightarrow> []
      | Some arr \<Rightarrow>
          map (\<lambda>item. case Option.bind (json_get ''chunk_index'' item) as_u64 of Some idx \<Rightarrow> idx | None \<Rightarrow> U64_MAX)
            (filter (\<lambda>item. case Option.bind (json_get ''lines'' item) as_array of
                              Some ls \<Rightarrow> lines_shape_is_malformed ls | None \<Rightarrow> False) arr))"

section \<open>The exploration tools\<close>

definition texts :: "fs_world \<Rightarrow> file_system" where
  "texts w path = (case read_bytes w path of Inr bytes \<Rightarrow> from_utf8 bytes | Inl _ \<Rightarrow> None)"

text \<open>\<open>read_lines_from_fs(..).ok()\<close>.\<close>

definition numbered_text :: "fs_world \<Rightarrow> str \<Rightarrow> nat \<Rightarrow> nat \<Rightarrow> str option" where
  "numbered_text w path line_start line_end =
     (case read_lines_from_fs (texts w) path line_start line_end of Read t \<Rightarrow> Some t | _ \<Rightarrow> None)"

lemma ordered_read_returns: "line_start \<le> line_end + 1 \<Longrightarrow> read_lines_from_fs fs path line_start line_end \<noteq> Slice_Panics"
  by (auto simp: read_lines_from_fs_def Let_def split: option.split)

text \<open>The loop's state: history, selections, addressable pool, cache of searches, log and counters.\<close>

record loop_state =
  lp_messages :: "chat_message list"
  lp_accumulated :: "chunk_selection list"
  lp_cache :: "(str, merge_chunk list) hmap"
  lp_chunks :: "merge_chunk list"
  lp_numbered :: "str option list"
  lp_log :: str
  lp_query_calls :: nat
  lp_chars :: nat
  lp_awaiting_query :: bool
  lp_unharvested :: bool
  lp_format_retries :: nat

definition push_pool :: "merge_chunk \<Rightarrow> str option \<Rightarrow> loop_state \<Rightarrow> loop_state" where
  "push_pool c t st = st\<lparr>lp_chunks := lp_chunks st @ [c], lp_numbered := lp_numbered st @ [t]\<rparr>"

definition format_sub_query_results :: "merge_chunk list \<Rightarrow> nat \<Rightarrow> str" where
  "format_sub_query_results results start_idx =
     ''Found '' @ show_nat (length results) @ '' results (chunk indices '' @ show_nat start_idx @ ''-''
       @ show_nat (start_idx + length results - 1) @ ''):'' @ [newline, newline]
     @ concat (map (\<lambda>(i, c). ''['' @ show_nat (start_idx + i) @ ''] score='' @ show_f32_2 (mc_score c) @ '' | '' @ mc_file c @ '':''
         @ show_nat (mc_line_start c) @ ''-'' @ show_nat (mc_line_end c) @ '' ('' @ symbol_display c @ '')'' @ [newline]
         @ truncate_content (mc_content c) 60 @ [newline] @ ''---'' @ [newline]) (List.enumerate 0 results))"

definition run_query_tool :: "'w backend \<Rightarrow> str \<Rightarrow> loop_state \<times> 'w \<Rightarrow> str \<times> (loop_state \<times> 'w)" where
  "run_query_tool b information_request s =
     (case s of (st, w) \<Rightarrow>
        if information_request = [] then (''Error: information_request is required'', (st, w))
        else if hm_contains information_request (lp_cache st) then
          (''Error: this exact query was already used. Try a different information_request.'', (st, w))
        else
          (case sub_query b information_request w of
             (Inl e, w') \<Rightarrow> (''Error: query failed: '' @ e, (st, w'))
           | (Inr results, w') \<Rightarrow>
               if results = [] then (''No results found for this query.'', (st, w'))
               else
                 (let start_idx = length (lp_chunks st);
                      st' = fold (\<lambda>c. push_pool c (numbered_text (files b) (mc_file c) (mc_line_start c) (mc_line_end c))) results st
                  in (format_sub_query_results results start_idx,
                      (st'\<lparr>lp_cache := hm_insert information_request results (lp_cache st)\<rparr>, w')))))"

definition synth_pool_chunk :: "fs_world \<Rightarrow> str \<Rightarrow> str \<Rightarrow> nat \<Rightarrow> nat \<Rightarrow> loop_state \<Rightarrow> nat option \<times> loop_state" where
  "synth_pool_chunk w root rel_path line_start line_end st =
     (let abs_str = replace_char backslash slash (path_join root rel_path) in
      case numbered_text w abs_str line_start line_end of
        None \<Rightarrow> (None, st)
      | Some t \<Rightarrow>
          (Some (length (lp_chunks st)),
           push_pool \<lparr>mc_file = abs_str, mc_line_start = line_start, mc_line_end = line_end, mc_score = 0, mc_content = t,
             mc_symbol = None, mc_symbol_fqn = None, mc_symbol_kind = None, mc_duplicates = []\<rparr> (Some t) st))"

fun address_regions :: "fs_world \<Rightarrow> str \<Rightarrow> grep_region list \<Rightarrow> loop_state \<Rightarrow> str \<times> loop_state" where
  "address_regions w root [] st = ([], st)"
| "address_regions w root (r # rs) st =
     (case synth_pool_chunk w root (gr_rel_path r) (gr_line_start r) (gr_line_end r) st of
        (None, st') \<Rightarrow> address_regions w root rs st'
      | (Some idx, st') \<Rightarrow>
          (let (out, st2) = address_regions w root rs st' in
           (''['' @ show_nat idx @ ''] '' @ gr_rel_path r @ '':'' @ show_nat (gr_line_start r) @ ''-''
              @ show_nat (gr_line_end r) @ [newline] @ out, st2)))"

definition str_arg :: "str \<Rightarrow> json \<Rightarrow> str option" where
  "str_arg k args = Option.bind (json_get k args) as_str"

definition bool_arg :: "str \<Rightarrow> json \<Rightarrow> bool" where
  "bool_arg k args = (case Option.bind (json_get k args) as_bool of Some v \<Rightarrow> v | None \<Rightarrow> False)"

definition run_grep_tool :: "fs_world \<Rightarrow> str \<Rightarrow> json \<Rightarrow> loop_state \<Rightarrow> str \<times> loop_state" where
  "run_grep_tool w root args st =
     (let pattern = (case str_arg ''pattern'' args of Some p \<Rightarrow> p | None \<Rightarrow> []) in
      if trim pattern = [] then (''Error: pattern is required.'', st)
      else
        (let context = (case Option.bind (json_get ''context_lines'' args) as_u64 of Some n \<Rightarrow> min n GREP_MAX_CONTEXT | None \<Rightarrow> 0);
             outcome = run_grep w root pattern (str_arg ''path'' args) (bool_arg ''literal'' args) (bool_arg ''ignore_case'' args) context
         in if \<not> go_ok outcome \<or> go_regions outcome = [] then (go_text outcome, st)
            else
              (let (index, st') = address_regions w root (go_regions outcome) st in
               (go_text outcome @ [newline] @ ''Addressable chunks from this grep (pass chunk_index to add_chunks):'' @ [newline] @ index, st'))))"

definition run_read_tool :: "fs_world \<Rightarrow> str \<Rightarrow> json \<Rightarrow> loop_state \<Rightarrow> str \<times> loop_state" where
  "run_read_tool w root args st =
     (let file_path = (case str_arg ''file_path'' args of Some p \<Rightarrow> p | None \<Rightarrow> []) in
      if trim file_path = [] then (''Error: file_path is required.'', st)
      else
        (let outcome = run_read w root file_path (Option.bind (json_get ''start_line'' args) as_u64)
               (Option.bind (json_get ''end_line'' args) as_u64)
         in case ro_range outcome of
              None \<Rightarrow> (ro_text outcome, st)
            | Some (rel, s, e) \<Rightarrow>
                (case synth_pool_chunk w root rel s e st of
                   (None, st') \<Rightarrow> (ro_text outcome, st')
                 | (Some idx, st') \<Rightarrow>
                     (ro_text outcome @ [newline] @ ''Addressable chunk from this read (pass chunk_index to add_chunks):'' @ [newline]
                        @ ''['' @ show_nat idx @ ''] '' @ rel @ '':'' @ show_nat s @ ''-'' @ show_nat e @ [newline], st'))))"

section \<open>One tool call\<close>

record agentic_config =
  ag_host :: llm_host
  ag_system :: str
  ag_query_json :: str
  ag_min_prune_lines :: nat
  ag_query_budget :: nat
  ag_char_budget :: nat

definition result_of :: "tool_call \<Rightarrow> str \<Rightarrow> str \<Rightarrow> tool_result" where
  "result_of call name content = \<lparr>tr_name = name, tr_id = tc_id call, tr_content = content\<rparr>"

definition malformed_message :: "nat list \<Rightarrow> str" where
  "malformed_message bad =
     ''Error: the `lines` field for chunk(s) ['' @ join '', '' (map show_nat bad) @ ''] is a FLAT list of line numbers. ''
     @ ''It MUST be an array of [start, end] pairs. Example: '' @ [CHR 0x22] @ ''lines'' @ [CHR 0x22] @ '': [[7, 11], [20, 28]] ''
     @ ''(NOT [7, 8, 9, 20, 21]). Re-send this add_chunks call with every `lines` as nested [start, end] pairs.''"

definition dispatch_add_chunks :: "agentic_config \<Rightarrow> tool_call \<Rightarrow> loop_state \<Rightarrow> (str \<times> loop_exit option) \<times> loop_state" where
  "dispatch_add_chunks cfg call st =
     (if lp_awaiting_query st then
        ((''Error: add_chunks already called this phase. Call query to search for more context, or stop.'', None), st)
      else if malformed_line_chunks (tc_args call) \<noteq> [] \<and> lp_format_retries st < MAX_FORMAT_RETRIES then
        ((malformed_message (malformed_line_chunks (tc_args call)), None),
         st\<lparr>lp_format_retries := lp_format_retries st + 1\<rparr>)
      else
        (let ((content, added_chars), acc) =
               handle_add_chunks (lh_sort (ag_host cfg)) (tc_args call) (lp_chunks st) (lp_numbered st)
                 (ag_min_prune_lines cfg) (lp_accumulated st) (lp_chars st) (ag_char_budget cfg);
             st' = st\<lparr>lp_accumulated := acc, lp_chars := lp_chars st + added_chars, lp_format_retries := 0,
                      lp_awaiting_query := True, lp_unharvested := False\<rparr>
         in ((content,
              if 0 < ag_char_budget cfg \<and> ag_char_budget cfg \<le> lp_chars st' then Some ChunkCharBudget
              else if ag_query_budget cfg \<le> lp_query_calls st' then Some QueryBudget
              else None), st')))"

definition dispatch_query :: "agentic_config \<Rightarrow> 'w backend \<Rightarrow> tool_call \<Rightarrow> loop_state \<times> 'w \<Rightarrow> str \<times> (loop_state \<times> 'w)" where
  "dispatch_query cfg b call s =
     (let st = (fst s)\<lparr>lp_awaiting_query := False\<rparr> in
      if ag_query_budget cfg \<le> lp_query_calls st then
        (''Error: query budget exhausted. Use add_chunks to select from existing results, or stop.'', (st, snd s))
      else
        (let info_req = (case str_arg ''information_request'' (tc_args call) of Some r \<Rightarrow> r | None \<Rightarrow> []);
             (content, (st', w')) = run_query_tool b info_req (st, snd s)
         in (content,
             (if starts_with content ''Error:'' then st'
              else st'\<lparr>lp_query_calls := lp_query_calls st' + 1, lp_unharvested := True\<rparr>, w'))))"

definition dispatch :: "agentic_config \<Rightarrow> 'w backend \<Rightarrow> tool_call \<Rightarrow> loop_state \<times> 'w
    \<Rightarrow> (tool_result \<times> loop_exit option) \<times> (loop_state \<times> 'w)" where
  "dispatch cfg b call s =
     (if tc_name call = ''add_chunks'' then
        (let ((content, stop), st') = dispatch_add_chunks cfg call (fst s)
         in ((result_of call ''add_chunks'' content, stop), (st', snd s)))
      else if tc_name call = ''query'' then
        (let (content, s') = dispatch_query cfg b call s in ((result_of call ''query'' content, None), s'))
      else if tc_name call \<in> {''grep'', ''read''} \<and> repo_root b = None then
        ((result_of call (tc_name call) (''Error: tool '' @ [CHR 0x27] @ tc_name call @ [CHR 0x27] @ '' is not available.''), None), s)
      else if tc_name call = ''grep'' then
        (let (content, st') = run_grep_tool (files b) (the (repo_root b)) (tc_args call) ((fst s)\<lparr>lp_awaiting_query := False\<rparr>)
         in ((result_of call ''grep'' content, None), (st', snd s)))
      else if tc_name call = ''read'' then
        (let (content, st') = run_read_tool (files b) (the (repo_root b)) (tc_args call) ((fst s)\<lparr>lp_awaiting_query := False\<rparr>)
         in ((result_of call ''read'' content, None), (st', snd s)))
      else
        ((result_of call (tc_name call) (''Error: unknown tool '' @ [CHR 0x27] @ tc_name call @ [CHR 0x27]), None), s))"

text \<open>The calls of one response, until one of them stops the run.\<close>

fun run_calls :: "agentic_config \<Rightarrow> 'w backend \<Rightarrow> tool_call list \<Rightarrow> loop_state \<times> 'w
    \<Rightarrow> (tool_result list \<times> loop_exit option) \<times> (loop_state \<times> 'w)" where
  "run_calls cfg b [] s = (([], None), s)"
| "run_calls cfg b (call # calls) s =
     (case dispatch cfg b call s of
        ((r, Some stop), s') \<Rightarrow> (([r], Some stop), s')
      | ((r, None), s') \<Rightarrow>
          (let ((rs, stop), s2) = run_calls cfg b calls s' in ((r # rs, stop), s2)))"

section \<open>The loop\<close>

definition nudge :: "agentic_config \<Rightarrow> loop_state \<Rightarrow> str option" where
  "nudge cfg st =
     (if lp_awaiting_query st then
        (if ag_query_budget cfg \<le> lp_query_calls st then None
         else if lp_query_calls st = 0 then
           Some (''<system-reminder>'' @ [newline] @
             ''You MUST call `query` now. The initial chunks alone do NOT cover the full blast radius. '' @
             ''Search for related code: callers, callees, type definitions, implementations, tests, or sibling modules relevant to the query. '' @
             ''Use a specific information_request string describing what you need.'' @ [newline] @ ''</system-reminder>'')
         else
           Some (''<system-reminder>'' @ [newline] @
             ''Call `query` to search for more related context (use a NEW information_request string different from previous queries). '' @
             ''If you are confident the results fully cover the query topic, respond with ONLY the text '' @ [CHR 0x22] @ ''[DONE]'' @ [CHR 0x22] @ ''.''
             @ [newline] @ ''</system-reminder>''))
      else
        Some (''<system-reminder>'' @ [newline] @
          ''You MUST call `add_chunks` now. ONLY add chunks that are DIRECTLY relevant to the ORIGINAL query: '' @ ag_query_json cfg @ [newline] @
          ''Do NOT add all query results - most will be tangential. Be highly selective. '' @
          ''Use `lines` to prune chunks to relevant ranges. `keep: '' @ [CHR 0x22] @ ''all'' @ [CHR 0x22] @ ''` only for short chunks where every line matters.''
          @ [newline] @ ''</system-reminder>''))"

definition log_calls :: "(json \<Rightarrow> str) \<Rightarrow> str \<Rightarrow> tool_call list \<Rightarrow> str" where
  "log_calls jp head calls =
     head @ '' TOOL_CALLS: '' @ join '', '' (map (\<lambda>c. tc_name c @ ''('' @ jp (tc_args c) @ '')'') calls) @ [newline]"

definition iteration_head :: "nat \<Rightarrow> str" where
  "iteration_head iteration = ''[Iter '' @ show_nat iteration @ '']''"

definition add_message :: "chat_message \<Rightarrow> loop_state \<Rightarrow> loop_state" where
  "add_message m st = st\<lparr>lp_messages := lp_messages st @ [m]\<rparr>"

definition add_log :: "str \<Rightarrow> loop_state \<Rightarrow> loop_state" where
  "add_log t st = st\<lparr>lp_log := lp_log st @ t\<rparr>"

text \<open>After the calls of a response: the nudge or the end, then the mid-turn stop.\<close>

definition after_calls :: "agentic_config \<Rightarrow> loop_exit option \<Rightarrow> loop_state \<Rightarrow> loop_exit option \<times> loop_state" where
  "after_calls cfg stop_mid_turn st =
     (if stop_mid_turn = None then
        (case nudge cfg st of
           Some msg \<Rightarrow> (boundary_exit stop_mid_turn, add_message (User msg) st)
         | None \<Rightarrow> (Some QueryBudget, st))
      else (boundary_exit stop_mid_turn, st))"

definition iterate :: "agentic_config \<Rightarrow> 'w backend \<Rightarrow> nat \<Rightarrow> loop_state \<times> 'w \<Rightarrow> loop_exit option \<times> (loop_state \<times> 'w)" where
  "iterate cfg b iteration s =
     (case s of (st, w) \<Rightarrow>
        if 0 < iteration \<and> AGENTIC_HISTORY_BYTE_CAP < estimate_history_bytes (json_print b) (lp_messages st)
        then (Some ByteCap, (st, w))
        else
          (let force_tool_use = (\<not> lp_awaiting_query st \<or> lp_query_calls st = 0) in
           case next_turn b (ag_system cfg) (lp_messages st) force_tool_use w of
             (Inl e, w') \<Rightarrow> (Some LlmError, (add_log (iteration_head iteration @ '' ERROR: '' @ e @ [newline]) st, w'))
           | (Inr (TurnText t), w') \<Rightarrow>
               (Some AgentDone, (add_log (iteration_head iteration @ '' TEXT: '' @ t @ [newline]) st, w'))
           | (Inr (TurnCalls calls), w') \<Rightarrow>
               (let st1 = add_message (ModelToolCalls calls) (add_log (log_calls (json_print b) (iteration_head iteration) calls) st);
                    ((results, stop), (st2, w2)) = run_calls cfg b calls (st1, w');
                    (exit, st3) = after_calls cfg stop (add_message (ToolResults results) st2)
                in (exit, (st3, w2)))))"

fun iterations :: "agentic_config \<Rightarrow> 'w backend \<Rightarrow> nat list \<Rightarrow> loop_state \<times> 'w \<Rightarrow> loop_exit \<times> (loop_state \<times> 'w)" where
  "iterations cfg b [] s = (IterationCap, s)"
| "iterations cfg b (i # is) s =
     (case iterate cfg b i s of
        (Some exit, s') \<Rightarrow> (exit, s')
      | (None, s') \<Rightarrow> iterations cfg b is s')"

section \<open>The last turn and the output\<close>

definition HARVEST_MESSAGE :: str where
  "HARVEST_MESSAGE =
     ''Search budget is spent and no more queries are allowed. '' @
     ''Call add_chunks NOW with every relevant chunk from the results so far. '' @
     ''This is your final action - do not call query.''"

definition harvest_call :: "agentic_config \<Rightarrow> tool_call \<Rightarrow> loop_state \<Rightarrow> loop_state" where
  "harvest_call cfg call st =
     (if tc_name call = ''add_chunks'' \<and> \<not> lp_awaiting_query st then
        (let ((_, added_chars), acc) =
               handle_add_chunks (lh_sort (ag_host cfg)) (tc_args call) (lp_chunks st) (lp_numbered st)
                 (ag_min_prune_lines cfg) (lp_accumulated st) (lp_chars st) (ag_char_budget cfg)
         in st\<lparr>lp_accumulated := acc, lp_chars := lp_chars st + added_chars, lp_awaiting_query := True\<rparr>)
      else st)"

definition final_harvest :: "agentic_config \<Rightarrow> 'w backend \<Rightarrow> loop_exit \<Rightarrow> loop_state \<times> 'w \<Rightarrow> loop_state \<times> 'w" where
  "final_harvest cfg b exit s =
     (if lp_unharvested (fst s) \<and> exit \<in> {ByteCap, IterationCap} then
        (let st = add_message (User HARVEST_MESSAGE) (fst s) in
         case next_turn b (ag_system cfg) (lp_messages st) True (snd s) of
           (Inr (TurnCalls calls), w') \<Rightarrow>
             (fold (harvest_call cfg) calls (add_log (log_calls (json_print b) ''[Final harvest]'' calls) st), w')
         | (Inr (TurnText t), w') \<Rightarrow> (add_log (''[Final harvest] TEXT: '' @ t @ [newline]) st, w')
         | (Inl e, w') \<Rightarrow> (add_log (''[Final harvest] ERROR: '' @ e @ [newline]) st, w'))
      else s)"

definition fallback_reason :: "loop_exit \<Rightarrow> str" where
  "fallback_reason exit =
     (case exit of
        LlmError \<Rightarrow> ''agentic LLM request failed with no chunks selected''
      | ByteCap \<Rightarrow> ''agentic loop hit history byte cap with no chunks selected''
      | IterationCap \<Rightarrow> ''agentic loop hit its iteration ceiling without selecting chunks''
      | QueryBudget \<Rightarrow> ''agentic loop used its query budget without selecting chunks''
      | _ \<Rightarrow> ''agentic loop ended without selecting chunks'')"

text \<open>The first selection of each chunk of the pool.\<close>

fun dedup_selections :: "nat \<Rightarrow> nat set \<Rightarrow> chunk_selection list \<Rightarrow> chunk_selection list" where
  "dedup_selections pool_len seen [] = []"
| "dedup_selections pool_len seen ((idx, ls) # rest) =
     (if idx < pool_len \<and> idx \<notin> seen then (idx, ls) # dedup_selections pool_len (insert idx seen) rest
      else dedup_selections pool_len seen rest)"

definition agentic_output :: "str \<Rightarrow> nat \<Rightarrow> loop_exit \<Rightarrow> loop_state \<Rightarrow> rerank_output" where
  "agentic_output raw_request n exit st =
     (case decide_final_action exit (length (lp_accumulated st)) of
        EmptyRelevant \<Rightarrow> nothing_ranked raw_request (lp_log st)
      | Fallback \<Rightarrow> incoming_order n raw_request (lp_log st) True (Some (fallback_reason exit))
      | UseAccumulated \<Rightarrow>
          (let deduped = dedup_selections (length (lp_chunks st)) {} (lp_accumulated st) in
           (nothing_ranked raw_request (lp_log st))\<lparr>rr_indices := map fst deduped, rr_selections := map snd deduped\<rparr>))"

definition max_iterations :: "nat \<Rightarrow> nat" where
  "max_iterations query_budget = max (query_budget * 4) 12"

definition agentic_entry :: "rerank_request \<Rightarrow> nat \<Rightarrow> merge_chunk \<Rightarrow> str" where
  "agentic_entry req i c = entry_head (rq_caller_stats req) i c @ [newline] @ entry_content (rq_numbered req) i c"

definition agentic_prompts :: "llm_host \<Rightarrow> bool \<Rightarrow> rerank_request \<Rightarrow> str \<times> str" where
  "agentic_prompts h grep_read req =
     (let t = lh_prompts h;
          system = (if grep_read then RERANK_AGENTIC_SYSTEM t @ [newline] @ RERANK_AGENTIC_SYSTEM_EXACT_TOOLS t
                    else RERANK_AGENTIC_SYSTEM t);
          entries = map (\<lambda>(i, c). agentic_entry req i c) (List.enumerate 0 (rq_chunks req));
          user = render (RERANK_AGENTIC_USER t)
            [(''query'', lh_json_text h (rq_query req)), (''chunks'', join ENTRY_SEPARATOR entries)]
      in (system, user))"

definition loop_start :: "rerank_request \<Rightarrow> str \<Rightarrow> loop_state" where
  "loop_start req user =
     \<lparr>lp_messages = [User user], lp_accumulated = [], lp_cache = [], lp_chunks = rq_chunks req,
      lp_numbered = rq_numbered req, lp_log = [], lp_query_calls = 0, lp_chars = 0,
      lp_awaiting_query = False, lp_unharvested = False, lp_format_retries = 0\<rparr>"

definition run_agentic_loop ::
  "llm_host \<Rightarrow> 'w backend \<Rightarrow> rerank_request \<Rightarrow> nat \<Rightarrow> nat \<Rightarrow> bool \<Rightarrow> 'w \<Rightarrow> (rerank_output \<times> extended_pool) \<times> 'w" where
  "run_agentic_loop h b req max_turns max_chunk_chars grep_read w =
     (if rq_chunks req = [] then ((nothing_ranked [] [], \<lparr>ep_chunks = [], ep_numbered = []\<rparr>), w)
      else
        (let (system, user) = agentic_prompts h grep_read req;
             query_budget = max max_turns 1;
             cfg = \<lparr>ag_host = h, ag_system = system, ag_query_json = lh_json_text h (rq_query req),
                    ag_min_prune_lines = rq_min_prune_lines req, ag_query_budget = query_budget,
                    ag_char_budget = max_chunk_chars\<rparr>;
             (exit, s) = iterations cfg b [0..<max_iterations query_budget] (loop_start req user, w);
             (st, w') = final_harvest cfg b exit s
         in ((agentic_output (raw_request_text system user) (length (rq_chunks req)) exit st,
              \<lparr>ep_chunks = lp_chunks st, ep_numbered = lp_numbered st\<rparr>), w')))"

section \<open>The pool and the selections stay sound\<close>

definition selections_ok :: "merge_chunk list \<Rightarrow> chunk_selection list \<Rightarrow> bool" where
  "selections_ok chunks acc \<longleftrightarrow>
     distinct (map fst acc) \<and> (\<forall>p \<in> set acc. fst p < length chunks \<and> selection_ok (chunks ! fst p) (snd p))"

definition loop_ok :: "merge_chunk list \<Rightarrow> loop_state \<Rightarrow> bool" where
  "loop_ok base st \<longleftrightarrow> (\<exists>extra. lp_chunks st = base @ extra) \<and> length (lp_numbered st) = length (lp_chunks st)
     \<and> selections_ok (lp_chunks st) (lp_accumulated st)"

text \<open>What the exploration tools leave alone.\<close>

definition explores :: "loop_state \<Rightarrow> loop_state \<Rightarrow> bool" where
  "explores st st' \<longleftrightarrow> (\<exists>xs ys. lp_chunks st' = lp_chunks st @ xs \<and> lp_numbered st' = lp_numbered st @ ys \<and> length xs = length ys)
     \<and> lp_accumulated st' = lp_accumulated st \<and> lp_query_calls st' = lp_query_calls st"

lemma explores_refl [simp]: "explores st st"
  by (simp add: explores_def)

lemma explores_trans: "explores a b \<Longrightarrow> explores b c \<Longrightarrow> explores a c"
  unfolding explores_def by (elim conjE exE) (intro conjI exI, (simp; fail)+)

lemma explores_push [simp]: "explores st (push_pool c t st)"
  by (auto simp: explores_def push_pool_def)

lemma explores_fold: "explores st (fold (\<lambda>c. push_pool c (f c)) cs st)"
proof (induction cs arbitrary: st)
  case (Cons c cs)
  then show ?case using explores_trans [OF explores_push [of st c "f c"]] by simp
qed simp

lemma explores_synth: "explores st (snd (synth_pool_chunk w root rel s e st))"
  by (simp add: synth_pool_chunk_def Let_def split: option.split)

lemma explores_regions: "explores st (snd (address_regions w root rs st))"
proof (induction rs arbitrary: st)
  case (Cons r rs)
  obtain i st' where syn: "synth_pool_chunk w root (gr_rel_path r) (gr_line_start r) (gr_line_end r) st = (i, st')"
    by (cases "synth_pool_chunk w root (gr_rel_path r) (gr_line_start r) (gr_line_end r) st")
  have "explores st st'"
    using explores_synth [of st w root "gr_rel_path r" "gr_line_start r" "gr_line_end r"] by (simp add: syn)
  then have "explores st (snd (address_regions w root rs st'))" using Cons explores_trans by blast
  then show ?case by (cases i) (simp_all add: syn case_prod_beta Let_def)
qed simp

lemma explores_grep: "explores st (snd (run_grep_tool w root args st))"
  using explores_regions by (auto simp: run_grep_tool_def Let_def case_prod_beta split: option.split)

lemma explores_read: "explores st (snd (run_read_tool w root args st))"
proof -
  have "explores st st'" if "synth_pool_chunk w root r s e st = (i, st')" for r s e i st'
    using explores_synth [of st w root r s e] that by simp
  then show ?thesis by (auto simp: run_read_tool_def Let_def split: option.split prod.split)
qed

lemma explores_query: "explores st (fst (snd (run_query_tool b req (st, w))))"
proof -
  have "explores st ((fold (\<lambda>c. push_pool c (f c)) cs st)\<lparr>lp_cache := m\<rparr>)" for f cs m
    using explores_fold [of st f cs] by (simp add: explores_def)
  then show ?thesis by (auto simp: run_query_tool_def Let_def split: prod.split sum.split)
qed

lemma selections_grow: "selections_ok cs acc \<Longrightarrow> selections_ok (cs @ xs) acc"
  by (auto simp: selections_ok_def nth_append)

lemma loop_ok_explores: "loop_ok base st \<Longrightarrow> explores st st' \<Longrightarrow> loop_ok base st'"
  unfolding loop_ok_def explores_def
  by (elim conjE exE) (simp only: selections_grow append_assoc length_append simp_thms ex_simps, auto dest: selections_grow)

lemma add_one_ok:
  assumes "unstable_sort srt" "selections_ok chunks acc" "add_one_chunk srt item chunks numbered m acc = (r, acc')"
  shows "selections_ok chunks acc'"
  using assms select_lines_ok [OF assms(1)]
  by (auto simp: add_one_chunk_def Let_def selections_ok_def list_ex_iff split: option.splits if_splits)

lemma add_items_ok:
  assumes "unstable_sort srt"
  shows "selections_ok chunks acc \<Longrightarrow> selections_ok chunks (snd (add_chunk_items srt items chunks numbered m acc))"
proof (induction items arbitrary: acc)
  case (Cons item items)
  obtain r acc1 where one: "add_one_chunk srt item chunks numbered m acc = (r, acc1)"
    by (cases "add_one_chunk srt item chunks numbered m acc")
  have "selections_ok chunks acc1" by (rule add_one_ok [OF assms Cons.prems one])
  then have "selections_ok chunks (snd (add_chunk_items srt items chunks numbered m acc1))" by (rule Cons.IH)
  then show ?case by (simp add: one Let_def case_prod_beta)
qed simp

lemma handle_add_ok:
  assumes "unstable_sort srt" "selections_ok chunks acc"
  shows "selections_ok chunks (snd (handle_add_chunks srt args chunks numbered m acc used budget))"
  using assms add_items_ok [OF assms(1,2)]
  by (auto simp: handle_add_chunks_def Let_def case_prod_beta split: option.split)

lemma dispatch_add_ok:
  assumes "unstable_sort (lh_sort (ag_host cfg))" "loop_ok base st"
  shows "loop_ok base (snd (dispatch_add_chunks cfg call st)) \<and> lp_query_calls (snd (dispatch_add_chunks cfg call st)) = lp_query_calls st"
proof -
  have "selections_ok (lp_chunks st) (lp_accumulated st)" using assms(2) by (simp add: loop_ok_def)
  from handle_add_ok [OF assms(1) this] assms(2) show ?thesis
    by (auto simp: dispatch_add_chunks_def Let_def case_prod_beta loop_ok_def)
qed

lemma loop_ok_flags [simp]:
  "loop_ok base (st\<lparr>lp_awaiting_query := x\<rparr>) = loop_ok base st" "loop_ok base (st\<lparr>lp_unharvested := x\<rparr>) = loop_ok base st"
  "loop_ok base (st\<lparr>lp_query_calls := n\<rparr>) = loop_ok base st" "loop_ok base (add_message m st) = loop_ok base st"
  "loop_ok base (add_log t st) = loop_ok base st"
  by (simp_all add: loop_ok_def add_message_def add_log_def)

lemma log_fields [simp]: "lp_query_calls (add_message m st) = lp_query_calls st" "lp_query_calls (add_log t st) = lp_query_calls st"
  by (simp_all add: add_message_def add_log_def)

text \<open>The counts of turns and of successful searches a backend keeps.\<close>

definition counts_backend :: "'w backend \<Rightarrow> ('w \<Rightarrow> nat) \<Rightarrow> ('w \<Rightarrow> nat) \<Rightarrow> bool" where
  "counts_backend b turns searches \<longleftrightarrow>
     (\<forall>sys ms f w. turns (snd (next_turn b sys ms f w)) = Suc (turns w) \<and> searches (snd (next_turn b sys ms f w)) = searches w)
     \<and> (\<forall>r w. turns (snd (sub_query b r w)) = turns w \<and>
          searches (snd (sub_query b r w)) = (case fst (sub_query b r w) of Inl _ \<Rightarrow> searches w | Inr _ \<Rightarrow> Suc (searches w)))"

definition within_budget :: "merge_chunk list \<Rightarrow> agentic_config \<Rightarrow> 'w backend \<Rightarrow> ('w \<Rightarrow> nat) \<Rightarrow> ('w \<Rightarrow> nat) \<Rightarrow> nat \<Rightarrow> nat \<Rightarrow> loop_state \<times> 'w \<Rightarrow> bool" where
  "within_budget base cfg b turns searches t0 s0 s \<longleftrightarrow> loop_ok base (fst s) \<and> lp_query_calls (fst s) \<le> ag_query_budget cfg
     \<and> (counts_backend b turns searches \<longrightarrow> turns (snd s) = t0 \<and> searches (snd s) \<le> s0 + lp_query_calls (fst s))"

lemma run_query_counts:
  assumes "counts_backend b turns searches" "run_query_tool b req (st, w) = (content, (st', w'))"
  shows "turns w' = turns w \<and> searches w' \<le> searches w + (if starts_with content ''Error:'' then 0 else 1)"
proof -
  obtain r w1 where sub: "sub_query b req w = (r, w1)" by (cases "sub_query b req w")
  have "turns w1 = turns w \<and> searches w1 = (case r of Inl _ \<Rightarrow> searches w | Inr _ \<Rightarrow> Suc (searches w))"
    using assms(1) sub unfolding counts_backend_def by (metis fst_conv snd_conv)
  then show ?thesis using assms(2) sub
    by (auto simp: run_query_tool_def Let_def starts_with_def format_sub_query_results_def split: if_splits sum.splits)
qed

lemma dispatch_query_within:
  assumes "within_budget base cfg b turns searches t0 s0 s"
  shows "within_budget base cfg b turns searches t0 s0 (snd (dispatch_query cfg b call s))"
proof -
  obtain st w where s: "s = (st, w)" by (cases s)
  let ?st = "st\<lparr>lp_awaiting_query := False\<rparr>"
  let ?req = "case str_arg ''information_request'' (tc_args call) of Some r \<Rightarrow> r | None \<Rightarrow> []"
  obtain content st' w' where run: "run_query_tool b ?req (?st, w) = (content, (st', w'))"
    by (cases "run_query_tool b ?req (?st, w)") auto
  have st: "loop_ok base ?st" "lp_query_calls st \<le> ag_query_budget cfg"
    "counts_backend b turns searches \<Longrightarrow> turns w = t0 \<and> searches w \<le> s0 + lp_query_calls st"
    using assms(1) by (auto simp: within_budget_def s)
  have ex: "explores ?st st'" using explores_query [of ?st b ?req w] by (simp add: run)
  have "loop_ok base st'" by (rule loop_ok_explores [OF st(1) ex])
  moreover have "lp_query_calls st' = lp_query_calls st" using ex by (simp add: explores_def)
  moreover have "counts_backend b turns searches \<Longrightarrow>
      turns w' = t0 \<and> searches w' \<le> s0 + lp_query_calls st + (if starts_with content ''Error:'' then 0 else 1)"
    using run_query_counts [OF _ run, of turns searches] st(3) by (auto split: if_splits)
  ultimately show ?thesis using st run by (auto simp: dispatch_query_def s Let_def within_budget_def)
qed

lemma dispatch_within:
  assumes "unstable_sort (lh_sort (ag_host cfg))" "within_budget base cfg b turns searches t0 s0 s"
  shows "within_budget base cfg b turns searches t0 s0 (snd (dispatch cfg b call s))"
proof -
  let ?st = "(fst s)\<lparr>lp_awaiting_query := False\<rparr>"
  have ok: "loop_ok base ?st" "loop_ok base (fst s)" using assms(2) by (simp_all add: within_budget_def)
  have tool: "within_budget base cfg b turns searches t0 s0 (st', snd s)" if "explores ?st st'" for st'
    using loop_ok_explores [OF ok(1) that] that assms(2) by (simp add: within_budget_def explores_def)
  have add: "within_budget base cfg b turns searches t0 s0 (snd (dispatch_add_chunks cfg call (fst s)), snd s)"
    using dispatch_add_ok [OF assms(1) ok(2), of call] assms(2) by (simp add: within_budget_def)
  show ?thesis
    using assms(2) add dispatch_query_within [OF assms(2), of call] tool [OF explores_grep] tool [OF explores_read]
    by (simp add: dispatch_def case_prod_beta)
qed

lemma run_calls_within:
  assumes "unstable_sort (lh_sort (ag_host cfg))"
  shows "within_budget base cfg b turns searches t0 s0 s \<Longrightarrow> within_budget base cfg b turns searches t0 s0 (snd (run_calls cfg b calls s))"
proof (induction calls arbitrary: s)
  case (Cons call calls)
  obtain r stop s' where d: "dispatch cfg b call s = ((r, stop), s')" by (cases "dispatch cfg b call s") auto
  have "within_budget base cfg b turns searches t0 s0 s'"
    using dispatch_within [OF assms Cons.prems, of call] by (simp add: d)
  then show ?case using Cons.IH by (cases stop) (simp_all add: d Let_def case_prod_beta)
qed simp

lemma after_calls_fields: "loop_ok base (snd (after_calls cfg stop st)) = loop_ok base st"
  "lp_query_calls (snd (after_calls cfg stop st)) = lp_query_calls st"
  by (simp_all add: after_calls_def split: option.split)

lemma iterate_within:
  assumes "unstable_sort (lh_sort (ag_host cfg))" "within_budget base cfg b turns searches t0 s0 s"
  shows "\<exists>t1 \<le> Suc t0. within_budget base cfg b turns searches t1 s0 (snd (iterate cfg b i s))"
proof -
  obtain st w where s: "s = (st, w)" by (cases s)
  let ?force = "\<not> lp_awaiting_query st \<or> lp_query_calls st = 0"
  obtain r w1 where turn: "next_turn b (ag_system cfg) (lp_messages st) ?force w = (r, w1)"
    by (cases "next_turn b (ag_system cfg) (lp_messages st) ?force w")
  have moved: "counts_backend b turns searches \<Longrightarrow> turns w1 = Suc (turns w) \<and> searches w1 = searches w"
    using turn unfolding counts_backend_def by (metis snd_conv)
  have next_ok: "within_budget base cfg b turns searches (Suc t0) s0 (st', w1)"
    if "loop_ok base st' = loop_ok base st" "lp_query_calls st' = lp_query_calls st" for st'
    using assms(2) that moved by (auto simp: within_budget_def s)
  show ?thesis
  proof (cases "0 < i \<and> AGENTIC_HISTORY_BYTE_CAP < estimate_history_bytes (json_print b) (lp_messages st)")
    case True
    then show ?thesis using assms(2) s by (intro exI [of _ t0]) (simp add: iterate_def)
  next
    case False
    note step = iterate_def s prod.case if_not_P [OF False] Let_def turn
    show ?thesis
    proof (cases r)
      case (Inl e)
      then show ?thesis unfolding step by (intro exI [of _ "Suc t0"]) (simp add: next_ok)
    next
      case (Inr turn_result)
      show ?thesis
      proof (cases turn_result)
        case (TurnText x1)
        then show ?thesis using Inr unfolding step by (intro exI [of _ "Suc t0"]) (simp add: next_ok)
      next
        case (TurnCalls calls)
        let ?st = "add_message (ModelToolCalls calls) (add_log (log_calls (json_print b) (iteration_head i) calls) st)"
        obtain results stop st2 w2 where run: "run_calls cfg b calls (?st, w1) = ((results, stop), (st2, w2))"
          by (cases "run_calls cfg b calls (?st, w1)") auto
        have "within_budget base cfg b turns searches (Suc t0) s0 (?st, w1)" by (rule next_ok) simp_all
        from run_calls_within [OF assms(1) this, of calls]
        have "within_budget base cfg b turns searches (Suc t0) s0 (st2, w2)" by (simp add: run)
        then have "within_budget base cfg b turns searches (Suc t0) s0 (snd (after_calls cfg stop (add_message (ToolResults results) st2)), w2)"
          by (simp add: within_budget_def after_calls_fields)
        then show ?thesis using Inr TurnCalls run unfolding step by (intro exI [of _ "Suc t0"]) (simp add: case_prod_beta)
      qed
    qed
  qed
qed

lemma iterations_within:
  assumes "unstable_sort (lh_sort (ag_host cfg))"
  shows "within_budget base cfg b turns searches t0 s0 s \<Longrightarrow>
    \<exists>t1 \<le> t0 + length is. within_budget base cfg b turns searches t1 s0 (snd (iterations cfg b is s))"
proof (induction "is" arbitrary: s t0)
  case Nil
  then show ?case by auto
next
  case (Cons i "is")
  obtain stop s' where it: "iterate cfg b i s = (stop, s')" by (cases "iterate cfg b i s")
  obtain t1 where t1: "t1 \<le> Suc t0" "within_budget base cfg b turns searches t1 s0 s'"
    using iterate_within [OF assms Cons.prems, of i] by (auto simp: it)
  show ?case
  proof (cases stop)
    case None
    from Cons.IH [OF t1(2)] obtain t2 where "t2 \<le> t1 + length is"
      "within_budget base cfg b turns searches t2 s0 (snd (iterations cfg b is s'))" by blast
    with t1 None it show ?thesis by (intro exI [of _ t2]) simp
  next
    case (Some e)
    with t1 it show ?thesis by (intro exI [of _ t1]) simp
  qed
qed

lemma harvest_keeps:
  assumes "unstable_sort (lh_sort (ag_host cfg))"
  shows "loop_ok base st \<Longrightarrow> loop_ok base (fold (harvest_call cfg) calls st)
    \<and> lp_query_calls (fold (harvest_call cfg) calls st) = lp_query_calls st"
proof (induction calls arbitrary: st)
  case (Cons call calls)
  have "selections_ok (lp_chunks st) (lp_accumulated st)" using Cons.prems by (simp add: loop_ok_def)
  from handle_add_ok [OF assms this]
  have "loop_ok base (harvest_call cfg call st) \<and> lp_query_calls (harvest_call cfg call st) = lp_query_calls st"
    using Cons.prems by (auto simp: harvest_call_def loop_ok_def Let_def case_prod_beta)
  then show ?case using Cons.IH by simp
qed simp

lemma final_harvest_within:
  assumes "unstable_sort (lh_sort (ag_host cfg))" "within_budget base cfg b turns searches t0 s0 s"
  shows "\<exists>t1 \<le> Suc t0. within_budget base cfg b turns searches t1 s0 (final_harvest cfg b exit s)"
proof (cases "lp_unharvested (fst s) \<and> exit \<in> {ByteCap, IterationCap}")
  case False
  then have "final_harvest cfg b exit s = s" by (auto simp: final_harvest_def)
  with assms(2) show ?thesis by (intro exI [of _ t0]) simp
next
  case True
  let ?st = "add_message (User HARVEST_MESSAGE) (fst s)"
  obtain r w1 where turn: "next_turn b (ag_system cfg) (lp_messages ?st) True (snd s) = (r, w1)"
    by (cases "next_turn b (ag_system cfg) (lp_messages ?st) True (snd s)")
  have moved: "counts_backend b turns searches \<Longrightarrow> turns w1 = Suc (turns (snd s)) \<and> searches w1 = searches (snd s)"
    using turn unfolding counts_backend_def by (metis snd_conv)
  have next_ok: "within_budget base cfg b turns searches (Suc t0) s0 (st', w1)"
    if "loop_ok base st'" "lp_query_calls st' = lp_query_calls (fst s)" for st'
    using assms(2) that moved by (auto simp: within_budget_def)
  have ok: "loop_ok base (fst s)" using assms(2) by (simp add: within_budget_def)
  note harvest = harvest_keeps [OF assms(1), of base]
  show ?thesis unfolding final_harvest_def if_P [OF True] Let_def turn
    by (intro exI [of _ "Suc t0"]) (auto intro!: next_ok simp: ok harvest split: sum.split tool_turn.split)
qed

lemma dedup_distinct:
  "distinct (map fst acc) \<Longrightarrow> \<forall>p \<in> set acc. fst p < n \<and> fst p \<notin> seen \<Longrightarrow> dedup_selections n seen acc = acc"
proof (induction acc arbitrary: seen)
  case (Cons p acc)
  obtain i ls where p: "p = (i, ls)" by (cases p)
  have "\<forall>q \<in> set acc. fst q < n \<and> fst q \<notin> insert i seen"
    using Cons.prems p by (auto simp: image_iff)
  then show ?case using Cons p by simp
qed simp

lemma run_agentic_within:
  assumes "unstable_sort (lh_sort h)" "length (rq_numbered req) = length (rq_chunks req)" "rq_chunks req \<noteq> []"
  obtains raw exit st w' t1 where
    "run_agentic_loop h b req max_turns max_chars grep w =
       ((agentic_output raw (length (rq_chunks req)) exit st, \<lparr>ep_chunks = lp_chunks st, ep_numbered = lp_numbered st\<rparr>), w')"
    "loop_ok (rq_chunks req) st" "t1 \<le> turns w + max_iterations (max max_turns 1) + 1"
    "counts_backend b turns searches \<Longrightarrow> turns w' = t1 \<and> searches w' \<le> searches w + max max_turns 1"
proof -
  obtain system user where prompts: "agentic_prompts h grep req = (system, user)" by (cases "agentic_prompts h grep req")
  let ?budget = "max max_turns 1"
  define cfg where "cfg = \<lparr>ag_host = h, ag_system = system, ag_query_json = lh_json_text h (rq_query req),
    ag_min_prune_lines = rq_min_prune_lines req, ag_query_budget = ?budget, ag_char_budget = max_chars\<rparr>"
  obtain exit s where loop: "iterations cfg b [0..<max_iterations ?budget] (loop_start req user, w) = (exit, s)"
    by (cases "iterations cfg b [0..<max_iterations ?budget] (loop_start req user, w)")
  obtain st w' where last: "final_harvest cfg b exit s = (st, w')" by (cases "final_harvest cfg b exit s")
  have srt: "unstable_sort (lh_sort (ag_host cfg))" using assms(1) by (simp add: cfg_def)
  have "within_budget (rq_chunks req) cfg b turns searches (turns w) (searches w) (loop_start req user, w)"
    using assms(2) by (simp add: within_budget_def loop_ok_def loop_start_def selections_ok_def cfg_def)
  from iterations_within [OF srt this, of "[0..<max_iterations ?budget]"] obtain t0
    where t0: "t0 \<le> turns w + max_iterations ?budget" "within_budget (rq_chunks req) cfg b turns searches t0 (searches w) s"
    unfolding loop snd_conv length_upt diff_zero by blast
  from final_harvest_within [OF srt t0(2), of exit] obtain t1
    where t1: "t1 \<le> Suc t0" "within_budget (rq_chunks req) cfg b turns searches t1 (searches w) (st, w')"
    by (auto simp: last)
  have "run_agentic_loop h b req max_turns max_chars grep w =
      ((agentic_output (raw_request_text system user) (length (rq_chunks req)) exit st,
        \<lparr>ep_chunks = lp_chunks st, ep_numbered = lp_numbered st\<rparr>), w')"
    unfolding run_agentic_loop_def if_not_P [OF assms(3)] prompts prod.case Let_def cfg_def [symmetric] loop last ..
  moreover have "loop_ok (rq_chunks req) st" using t1(2) by (simp add: within_budget_def)
  moreover have "t1 \<le> turns w + max_iterations ?budget + 1" using t0(1) t1(1) by simp
  moreover have "counts_backend b turns searches \<Longrightarrow> turns w' = t1 \<and> searches w' \<le> searches w + ?budget"
    using t1(2) by (auto simp: within_budget_def cfg_def)
  ultimately show ?thesis by (rule that)
qed

lemma agentic_output_loop_ok:
  assumes "loop_ok base st"
  shows "output_ok (lp_chunks st) (agentic_output raw (length base) exit st) \<and> distinct (rr_indices (agentic_output raw (length base) exit st))
    \<and> (rr_indices (agentic_output raw (length base) exit st) = [] \<longrightarrow> base = [] \<or> exit = AgentDone)
    \<and> (rr_fallback (agentic_output raw (length base) exit st) \<longrightarrow>
         rr_indices (agentic_output raw (length base) exit st) = [0..<length base])"
proof -
  obtain extra where pool: "lp_chunks st = base @ extra" using assms by (auto simp: loop_ok_def)
  have sel: "selections_ok (lp_chunks st) (lp_accumulated st)" using assms by (simp add: loop_ok_def)
  then have dedup: "dedup_selections (length (lp_chunks st)) {} (lp_accumulated st) = lp_accumulated st"
    by (intro dedup_distinct) (auto simp: selections_ok_def)
  have inc: "output_ok (lp_chunks st) (incoming_order (length base) r x f k)" for r x f k
    unfolding pool by (simp add: output_ok_def incoming_order_def list_all2_conv_all_nth selection_ok_def)
  show ?thesis
  proof (cases "decide_final_action exit (length (lp_accumulated st))")
    case UseAccumulated
    then have "lp_accumulated st \<noteq> []" by (auto simp: decide_final_action_def split: loop_exit.splits if_splits)
    then show ?thesis using sel
      by (simp add: agentic_output_def UseAccumulated dedup Let_def nothing_ranked_def output_ok_def selections_ok_def
          list_all2_conv_all_nth)
  next
    case EmptyRelevant
    then have "exit = AgentDone" by (auto simp: decide_final_action_def split: loop_exit.splits if_splits)
    moreover have "agentic_output raw (length base) exit st = nothing_ranked raw (lp_log st)"
      by (simp add: agentic_output_def EmptyRelevant)
    ultimately show ?thesis by (simp only: nothing_ranked_ok) (simp add: nothing_ranked_def)
  next
    case Fallback
    then have "agentic_output raw (length base) exit st = incoming_order (length base) raw (lp_log st) True (Some (fallback_reason exit))"
      by (simp add: agentic_output_def)
    then show ?thesis by (simp only: inc) (simp add: incoming_order_def)
  qed
qed

text \<open>C21: An agentic rerank returns usable selections, whatever the model does. The pool it answers from
  starts with the candidates and has a text slot for every chunk; each index is in the pool and occurs
  once; each selection is a proper set of ranges of its chunk; and a fallback is the order of the
  candidates.\<close>

theorem agentic_output_sound:
  assumes "unstable_sort (lh_sort h)" "length (rq_numbered req) = length (rq_chunks req)"
    and "run_agentic_loop h b req max_turns max_chars grep w = ((out, pool), w')"
  shows "output_ok (ep_chunks pool) out \<and> distinct (rr_indices out)
    \<and> length (ep_numbered pool) = length (ep_chunks pool) \<and> (\<exists>extra. ep_chunks pool = rq_chunks req @ extra)
    \<and> (rr_fallback out \<longrightarrow> rr_indices out = [0..<length (rq_chunks req)])"
proof (cases "rq_chunks req = []")
  case True
  then show ?thesis using assms(3) by (auto simp: run_agentic_loop_def nothing_ranked_ok) (simp_all add: nothing_ranked_def)
next
  case False
  obtain raw exit st where run: "out = agentic_output raw (length (rq_chunks req)) exit st"
      "pool = \<lparr>ep_chunks = lp_chunks st, ep_numbered = lp_numbered st\<rparr>" and ok: "loop_ok (rq_chunks req) st"
    by (rule run_agentic_within [OF assms(1,2) False, of b max_turns max_chars grep w "\<lambda>_. 0" "\<lambda>_. 0"]) (use assms(3) in auto)
  show ?thesis using agentic_output_loop_ok [OF ok, of raw exit] ok unfolding run by (simp add: loop_ok_def)
qed

text \<open>The agentic loop stops. Whatever the model answers, it is asked at most four times per allowed
  search, or twelve times, and once more to harvest; and at most the allowed number of searches succeed.\<close>

theorem agentic_loop_bounded:
  assumes "unstable_sort (lh_sort h)" "length (rq_numbered req) = length (rq_chunks req)" "counts_backend b turns searches"
  shows "turns (snd (run_agentic_loop h b req max_turns max_chars grep w)) \<le> turns w + max (4 * max max_turns 1) 12 + 1
    \<and> searches (snd (run_agentic_loop h b req max_turns max_chars grep w)) \<le> searches w + max max_turns 1"
proof (cases "rq_chunks req = []")
  case True
  then show ?thesis by (simp add: run_agentic_loop_def)
next
  case False
  show ?thesis
    by (rule run_agentic_within [OF assms(1,2) False, of b max_turns max_chars grep w turns searches])
       (use assms(3) in \<open>auto simp: max_iterations_def mult.commute\<close>)
qed

section \<open>A scripted run\<close>

definition plain_prompts :: prompt_texts where
  "plain_prompts = \<lparr>RERANK_INTRO = [], RERANK_ELEMENT_SPEC = [], RERANK_SYSTEM_STRUCTURED = [], RERANK_SYSTEM_XML = [],
     RERANK_USER_STRUCTURED = [], RERANK_USER_XML = [], RERANK_AGENTIC_SYSTEM = [], RERANK_AGENTIC_SYSTEM_EXACT_TOOLS = [],
     RERANK_AGENTIC_USER = []\<rparr>"

definition demo_llm_host :: llm_host where
  "demo_llm_host = \<lparr>lh_prompts = plain_prompts, lh_parse_json = (\<lambda>_. None), lh_json_text = id, lh_sort = sort_by\<rparr>"

text \<open>A model that asks for a search at every turn; the world counts turns and searches.\<close>

definition searching_backend :: "(nat \<times> nat) backend" where
  "searching_backend =
     \<lparr>next_turn = (\<lambda>_ _ _ (t, s). (Inr (TurnCalls [\<lparr>tc_name = ''query'', tc_id = None,
          tc_args = JObject [(''information_request'', JString (show_nat t))]\<rparr>]), (Suc t, s))),
      sub_query = (\<lambda>_ (t, s). (Inr [], (t, Suc s))), repo_root = None, files = demo_world, json_print = (\<lambda>_. [])\<rparr>"

definition demo_request :: rerank_request where
  "demo_request = \<lparr>rq_query = ''q'', rq_chunks = [demo_chunk ''a.rs'' 1 9], rq_numbered = [None], rq_caller_stats = [],
     rq_min_prune_lines = 0, rq_candidate_spans = []\<rparr>"

lemma demo_run_facts:
  "unstable_sort (lh_sort demo_llm_host)" "length (rq_numbered demo_request) = length (rq_chunks demo_request)"
  "counts_backend searching_backend fst snd"
  by (simp_all add: demo_llm_host_def unstable_sort_sort_by demo_request_def counts_backend_def searching_backend_def case_prod_beta)

lemma agentic_output_sound_witness:
  "distinct (rr_indices (fst (fst (run_agentic_loop demo_llm_host searching_backend demo_request 2 0 False (0, 0)))))"
proof -
  obtain out pool w' where run: "run_agentic_loop demo_llm_host searching_backend demo_request 2 0 False (0, 0) = ((out, pool), w')"
    by (metis surj_pair)
  show ?thesis using agentic_output_sound [OF demo_run_facts(1,2) run] by (simp add: run)
qed

lemma agentic_loop_bounded_witness:
  "fst (snd (run_agentic_loop demo_llm_host searching_backend demo_request 5 0 False (0, 0))) \<le> 21
   \<and> snd (snd (run_agentic_loop demo_llm_host searching_backend demo_request 5 0 False (0, 0))) \<le> 5"
  using agentic_loop_bounded [OF demo_run_facts, of 5 0 False "(0, 0)"] by simp

section \<open>Where the comments promise more\<close>

text \<open>The file tools are run whether or not they were offered: the dispatch looks at the root only.\<close>

lemma unoffered_grep_runs:
  "tc_name call = ''grep'' \<Longrightarrow> repo_root b = Some root \<Longrightarrow>
     tr_content (fst (fst (dispatch cfg b call s))) =
       fst (run_grep_tool (files b) root (tc_args call) ((fst s)\<lparr>lp_awaiting_query := False\<rparr>))"
  by (simp add: dispatch_def result_of_def case_prod_beta)

text \<open>An \<open>add_chunks\<close> call without a usable array adds nothing and still ends the phase.\<close>

lemma failed_add_ends_phase:
  "\<not> lp_awaiting_query st \<Longrightarrow> json_get ''chunks'' (tc_args call) = None \<Longrightarrow>
     lp_awaiting_query (snd (dispatch_add_chunks cfg call st))
     \<and> lp_accumulated (snd (dispatch_add_chunks cfg call st)) = lp_accumulated st"
  by (simp add: dispatch_add_chunks_def handle_add_chunks_def malformed_line_chunks_def Let_def)

text \<open>The character budget is checked between calls only: one call may add any number of chunks past it.\<close>

lemma one_call_overshoots:
  "snd (fst (handle_add_chunks sort_by
      (JObject [(''chunks'', JArray [JObject [(''chunk_index'', JUInt 0)], JObject [(''chunk_index'', JUInt 1)]])])
      [demo_chunk ''a.rs'' 1 9, demo_chunk ''b.rs'' 1 9] [Some ''0123456789'', Some ''0123456789''] 0 [] 0 5)) = 20"
  by code_simp

end
