(* ===== verification/Jev.thy ===== *)
theory Jev
  imports Rerank
begin

text \<open>
  The Jev reranker (\<open>src/query/jev.rs\<close>) and the choice of a reranker by the settings
  (\<open>RerankProvider\<close> of \<open>src/query/reranker.rs\<close>).

  A probability is the bit pattern of its \<open>f64\<close>. The fan-out over the network, with the keys and the
  deadline, is the argument \<open>jv_fan_out\<close>: the replies in candidate order, or why there are none.
\<close>

section \<open>Probabilities\<close>

definition f64_mag :: "u64 \<Rightarrow> int" where
  "f64_mag x = uint x mod 2 ^ 63"

definition f64_neg :: "u64 \<Rightarrow> bool" where
  "f64_neg x \<longleftrightarrow> 2 ^ 63 \<le> uint x"

definition f64_nan :: "u64 \<Rightarrow> bool" where
  "f64_nan x \<longleftrightarrow> 0x7FF0000000000000 < f64_mag x"

text \<open>\<open>>=\<close>, and the key of \<open>total_cmp\<close>.\<close>

definition f64_ge :: "u64 \<Rightarrow> u64 \<Rightarrow> bool" where
  "f64_ge a b \<longleftrightarrow> \<not> f64_nan a \<and> \<not> f64_nan b
     \<and> (if f64_neg b then - f64_mag b else f64_mag b) \<le> (if f64_neg a then - f64_mag a else f64_mag a)"

definition total_key :: "u64 \<Rightarrow> int" where
  "total_key x = (if f64_neg x then - f64_mag x - 1 else f64_mag x)"

definition SPAN_THRESHOLD :: u64 where "SPAN_THRESHOLD = 0x3FE0000000000000"

section \<open>Requests\<close>

definition MODEL :: str where "MODEL = ''jev-latest''"
definition DEFAULT_BASE_URL :: str where "DEFAULT_BASE_URL = ''https://api.typesafe.ai''"

definition RELEVANCE_INSTRUCTIONS :: str where
  "RELEVANCE_INSTRUCTIONS = ''Does this code implement or define what the query asks for?''"
definition RELEVANCE_TRUE :: str where
  "RELEVANCE_TRUE = ''The code implements, defines, or directly answers what the query asks for.''"
definition RELEVANCE_FALSE :: str where
  "RELEVANCE_FALSE = ''The code is unrelated to the query, or only mentions, calls, '' @ ''or tests the thing asked for without being it.''"
definition SPAN_TRUE :: str where
  "SPAN_TRUE = ''This symbol is where the code answering the query lives.''"
definition SPAN_FALSE :: str where
  "SPAN_FALSE = ''This symbol is not needed to answer the query; the answer is '' @ ''elsewhere in the code or not in it at all.''"

definition span_key :: "nat \<Rightarrow> str" where
  "span_key j = ''span_'' @ show_nat j"

definition narrowing_spans :: "rerank_request \<Rightarrow> nat \<Rightarrow> symbol_span list" where
  "narrowing_spans req i =
     (if is_under_prune_floor (rq_min_prune_lines req) (rq_chunks req ! i) then []
      else if i < length (rq_candidate_spans req) then rq_candidate_spans req ! i else [])"

definition opt_str :: "str option \<Rightarrow> json" where
  "opt_str x = (case x of Some s \<Rightarrow> JString s | None \<Rightarrow> JNull)"

definition noul_question :: "str \<Rightarrow> str \<Rightarrow> str \<Rightarrow> json" where
  "noul_question instructions yes no =
     JObject [(''type'', JString ''noul''), (''instructions'', JString instructions),
       (''criteria'', JObject [(''true'', JString yes), (''false'', JString no)])]"

definition span_question :: "symbol_span \<Rightarrow> json" where
  "span_question span =
     noul_question
       (''Is the '' @ (case sp_span_kind span of Some k \<Rightarrow> k | None \<Rightarrow> ''symbol'') @ '' `'' @ sp_span_name span @ ''` (lines ''
          @ show_nat (sp_line_start span) @ ''-'' @ show_nat (sp_line_end span) @ '') part of what the query asks for?'')
       SPAN_TRUE SPAN_FALSE"

text \<open>The indexing of \<open>numbered\<close> panics when it is shorter than the chunks; the engine keeps them aligned.\<close>

definition request_body :: "rerank_request \<Rightarrow> nat \<Rightarrow> symbol_span list \<Rightarrow> json" where
  "request_body req i spans =
     (let chunk = rq_chunks req ! i;
          code = (case rq_numbered req ! i of Some t \<Rightarrow> t | None \<Rightarrow> mc_content chunk);
          questions = foldl (\<lambda>qs (j, span). obj_insert (span_key j) (span_question span) qs)
            [(''relevance'', noul_question RELEVANCE_INSTRUCTIONS RELEVANCE_TRUE RELEVANCE_FALSE)] (List.enumerate 0 spans)
      in JObject [(''model'', JString MODEL),
           (''state'', JObject [(''query'', JString (rq_query req)), (''file_path'', JString (mc_file chunk)),
              (''symbol_name'', opt_str (mc_symbol chunk)), (''symbol_kind'', opt_str (mc_symbol_kind chunk)),
              (''code'', JString code)]),
           (''questions'', JObject questions)])"

definition systemone_url :: "str option \<Rightarrow> str" where
  "systemone_url base0 =
     (let b1 = (case map_option trim base0 of Some b \<Rightarrow> if b = [] then DEFAULT_BASE_URL else b | None \<Rightarrow> DEFAULT_BASE_URL);
          b2 = trim_end_matches (\<lambda>c. c = slash) b1;
          b3 = (case strip_suffix b2 ''/v1/systemone'' of Some b \<Rightarrow> b | None \<Rightarrow> b2);
          b4 = (case strip_suffix b3 ''/v1'' of Some b \<Rightarrow> b | None \<Rightarrow> b3)
      in b4 @ ''/v1/systemone'')"

section \<open>Answers\<close>

text \<open>\<open>Value\<close> indexing with a key gives \<open>null\<close> where there is none.\<close>

definition json_index :: "json \<Rightarrow> str \<Rightarrow> json" where
  "json_index v k = (case json_get k v of Some x \<Rightarrow> x | None \<Rightarrow> JNull)"

definition answer_noul :: "(json \<Rightarrow> u64 option) \<Rightarrow> json \<Rightarrow> str \<Rightarrow> u64 option" where
  "answer_noul as_f64 reply key = as_f64 (json_index (json_index (json_index reply ''answers'') key) ''noul'')"

text \<open>\<open>sort_unstable\<close> of pairs: equal pairs cannot be told apart, so every sort gives the same list.\<close>

definition fold_span :: "range list \<Rightarrow> range \<Rightarrow> range list" where
  "fold_span ranges r =
     (if ranges \<noteq> [] \<and> fst r \<le> snd (last ranges)
      then butlast ranges @ [(fst (last ranges), max (snd (last ranges)) (snd r))]
      else ranges @ [r])"

definition selected_ranges :: "(json \<Rightarrow> u64 option) \<Rightarrow> symbol_span list \<Rightarrow> json \<Rightarrow> range list option" where
  "selected_ranges as_f64 spans reply =
     (let picked = map (\<lambda>(j, s). (sp_line_start s, sp_line_end s))
            (filter (\<lambda>(j, _). case answer_noul as_f64 reply (span_key j) of Some p \<Rightarrow> f64_ge p SPAN_THRESHOLD | None \<Rightarrow> False)
              (List.enumerate 0 spans));
          ranges = foldl fold_span [] (sort picked)
      in if ranges = [] then None else Some ranges)"

datatype fan_out = Replies "(u64 \<times> json) list" | Limited nat nat str | Failed str | Missed str

record jev_reranker =
  jv_has_keys :: bool
  jv_fan_out :: "json list \<Rightarrow> fan_out"
  jv_as_f64 :: "json \<Rightarrow> u64 option"
  jv_print :: "json \<Rightarrow> str"

definition jev_rerank :: "jev_reranker \<Rightarrow> rerank_request \<Rightarrow> rerank_output" where
  "jev_rerank jev req =
     (let n = length (rq_chunks req) in
      if n = 0 then nothing_ranked [] []
      else if \<not> jv_has_keys jev then
        incoming_order n [] [] False (Some ''no TypeSafe API key configured for the Jev reranker'')
      else
        (let spans = map (narrowing_spans req) [0..<n];
             bodies = map (\<lambda>i. request_body req i (spans ! i)) [0..<n];
             raw_request = jv_print jev (JArray bodies)
         in case jv_fan_out jev bodies of
              Limited limited keys e \<Rightarrow>
                incoming_order n raw_request [] True
                  (Some (''Jev reranking was rate-limited on '' @ show_nat limited @ '' of '' @ show_nat keys @ '' TypeSafe keys; last error: '' @ e))
            | Failed e \<Rightarrow> incoming_order n raw_request [] True (Some (''Jev request failed: '' @ e))
            | Missed d \<Rightarrow> incoming_order n raw_request [] True (Some (''Jev reranking missed its '' @ d @ '' deadline''))
            | Replies answers \<Rightarrow>
                (let relevance = map fst answers; replies = map snd answers;
                     ranked = sort_key (\<lambda>i. - total_key (relevance ! i)) [0..<n]
                 in \<lparr>rr_indices = ranked,
                     rr_selections = map (\<lambda>i. selected_ranges (jv_as_f64 jev) (spans ! i) (replies ! i)) ranked,
                     rr_request = raw_request, rr_response = jv_print jev (JArray replies),
                     rr_fallback = False, rr_skip = None, rr_relevance = relevance\<rparr>)))"

section \<open>The provider\<close>

datatype rerank_provider = Off | Llm "llm_client option" | Jev jev_reranker

definition provider_llm_client :: "rerank_provider \<Rightarrow> llm_client option" where
  "provider_llm_client p = (case p of Llm c \<Rightarrow> c | _ \<Rightarrow> None)"

definition narrows_by_span :: "rerank_provider \<Rightarrow> bool" where
  "narrows_by_span p = (case p of Jev _ \<Rightarrow> True | _ \<Rightarrow> False)"

definition provider_rerank :: "llm_host \<Rightarrow> rerank_provider \<Rightarrow> rerank_request \<Rightarrow> rerank_output" where
  "provider_rerank h p req =
     (case p of
        Off \<Rightarrow> incoming_order (length (rq_chunks req)) [] [] False (Some ''reranking was not requested'')
      | Llm client \<Rightarrow> rerank_with_llm h req client
      | Jev jev \<Rightarrow> jev_rerank jev req)"

section \<open>A Jev rerank is a permutation\<close>

lemma fold_span_sorted:
  assumes "sorted_wrt (\<lambda>a b. snd a < fst b) acc" "\<forall>x \<in> set acc. fst x \<le> snd x \<and> lo \<le> fst x \<and> snd x \<le> hi"
    and "acc \<noteq> [] \<Longrightarrow> fst (last acc) \<le> fst r" "fst r \<le> snd r" "lo \<le> fst r" "snd r \<le> hi"
  shows "sorted_wrt (\<lambda>a b. snd a < fst b) (fold_span acc r) \<and> (\<forall>x \<in> set (fold_span acc r). fst x \<le> snd x \<and> lo \<le> fst x \<and> snd x \<le> hi)
    \<and> fold_span acc r \<noteq> [] \<and> fst (last (fold_span acc r)) \<le> fst r"
proof (cases "acc \<noteq> [] \<and> fst r \<le> snd (last acc)")
  case True
  then obtain xs x where acc: "acc = xs @ [x]" by (metis append_butlast_last_id)
  have m: "fold_span acc r = xs @ [(fst x, max (snd x) (snd r))]" using True by (simp add: fold_span_def acc)
  show ?thesis unfolding m using assms True by (auto simp: acc sorted_wrt_append)
next
  case False
  then have m: "fold_span acc r = acc @ [r]" by (auto simp: fold_span_def)
  have "\<forall>y \<in> set acc. snd y < fst r"
  proof (cases "acc = []")
    case False
    then obtain xs x where acc: "acc = xs @ [x]" by (metis append_butlast_last_id)
    have "snd x < fst r" using \<open>\<not> (acc \<noteq> [] \<and> fst r \<le> snd (last acc))\<close> by (simp add: acc)
    then show ?thesis using assms(1,2) by (fastforce simp: acc sorted_wrt_append)
  qed simp
  then show ?thesis unfolding m using assms by (simp add: sorted_wrt_append)
qed

lemma fold_spans_sorted:
  assumes "sorted_wrt (\<lambda>a b. snd a < fst b) acc" "\<forall>x \<in> set acc. fst x \<le> snd x \<and> lo \<le> fst x \<and> snd x \<le> hi"
    and "sorted (map fst rs)" "\<forall>r \<in> set rs. (acc \<noteq> [] \<longrightarrow> fst (last acc) \<le> fst r) \<and> fst r \<le> snd r \<and> lo \<le> fst r \<and> snd r \<le> hi"
  shows "sorted_wrt (\<lambda>a b. snd a < fst b) (foldl fold_span acc rs)
    \<and> (\<forall>x \<in> set (foldl fold_span acc rs). fst x \<le> snd x \<and> lo \<le> fst x \<and> snd x \<le> hi)
    \<and> (rs \<noteq> [] \<longrightarrow> foldl fold_span acc rs \<noteq> [])"
  using assms
proof (induction rs arbitrary: acc)
  case (Cons r rs)
  have step: "sorted_wrt (\<lambda>a b. snd a < fst b) (fold_span acc r) \<and> (\<forall>x \<in> set (fold_span acc r). fst x \<le> snd x \<and> lo \<le> fst x \<and> snd x \<le> hi)
    \<and> fold_span acc r \<noteq> [] \<and> fst (last (fold_span acc r)) \<le> fst r"
    using Cons.prems by (intro fold_span_sorted) auto
  moreover have "\<forall>x \<in> set rs. fst (last (fold_span acc r)) \<le> fst x"
    using step Cons.prems(3) by (auto intro: order_trans)
  ultimately have "sorted_wrt (\<lambda>a b. snd a < fst b) (foldl fold_span (fold_span acc r) rs)
    \<and> (\<forall>x \<in> set (foldl fold_span (fold_span acc r) rs). fst x \<le> snd x \<and> lo \<le> fst x \<and> snd x \<le> hi)
    \<and> (rs \<noteq> [] \<longrightarrow> foldl fold_span (fold_span acc r) rs \<noteq> [])"
    using Cons.prems by (intro Cons.IH) auto
  then show ?case using step by (cases rs) auto
qed simp


lemma selected_ranges_within:
  assumes "\<forall>s \<in> set spans. lo \<le> sp_line_start s \<and> sp_line_start s \<le> sp_line_end s \<and> sp_line_end s \<le> hi"
    and "selected_ranges as_f64 spans reply = Some rs"
  shows "rs \<noteq> [] \<and> sorted_wrt (\<lambda>a b. snd a < fst b) rs \<and> (\<forall>x \<in> set rs. lo \<le> fst x \<and> fst x \<le> snd x \<and> snd x \<le> hi)"
proof -
  define keep where "keep = (\<lambda>(j, _ :: symbol_span). case answer_noul as_f64 reply (span_key j) of Some p \<Rightarrow> f64_ge p SPAN_THRESHOLD | None \<Rightarrow> False)"
  define picked where "picked = map (\<lambda>(j, s). (sp_line_start s, sp_line_end s)) (filter keep (List.enumerate 0 spans))"
  have rs: "rs = foldl fold_span [] (sort picked)" "rs \<noteq> []"
    using assms(2) by (auto simp: selected_ranges_def Let_def picked_def keep_def split: if_splits)
  have "\<forall>r \<in> set picked. fst r \<le> snd r \<and> lo \<le> fst r \<and> snd r \<le> hi"
    using assms(1) by (auto simp: picked_def in_set_enumerate_eq)
  moreover have "sorted_wrt (\<lambda>x y. fst x \<le> fst y) (sort picked)"
    by (rule sorted_wrt_mono_rel [OF _ sorted_sort]) (auto simp: less_eq_prod_def)
  then have "sorted (map fst (sort picked))" by (simp add: sorted_map)
  ultimately have "sorted_wrt (\<lambda>a b. snd a < fst b) (foldl fold_span [] (sort picked))
    \<and> (\<forall>x \<in> set (foldl fold_span [] (sort picked)). fst x \<le> snd x \<and> lo \<le> fst x \<and> snd x \<le> hi)
    \<and> (sort picked \<noteq> [] \<longrightarrow> foldl fold_span [] (sort picked) \<noteq> [])"
    by (intro fold_spans_sorted) auto
  with rs show ?thesis by auto
qed

text \<open>C24: A complete Jev answer ranks every candidate once, by descending probability, and narrows inside the
  chunk only: the ranges of a selection are non-empty, in line order and apart, and lie in the lines of
  the chunk when the narrowing candidates do.\<close>

theorem jev_ranking_sound:
  assumes "jv_has_keys jev" "rq_chunks req \<noteq> []"
    and "\<And>bodies. length bodies = length (rq_chunks req) \<Longrightarrow> jv_fan_out jev bodies = Replies answers" "length answers = length (rq_chunks req)"
    and spans: "\<And>i s. i < length (rq_chunks req) \<Longrightarrow> i < length (rq_candidate_spans req) \<Longrightarrow> s \<in> set (rq_candidate_spans req ! i) \<Longrightarrow>
      mc_line_start (rq_chunks req ! i) \<le> sp_line_start s \<and> sp_line_start s \<le> sp_line_end s
      \<and> sp_line_end s \<le> mc_line_end (rq_chunks req ! i)"
  defines "out \<equiv> jev_rerank jev req"
  shows "mset (rr_indices out) = mset [0..<length (rq_chunks req)]
    \<and> sorted_wrt (\<lambda>i j. total_key (fst (answers ! j)) \<le> total_key (fst (answers ! i))) (rr_indices out)
    \<and> length (rr_selections out) = length (rr_indices out)
    \<and> (\<forall>k < length (rr_indices out). \<forall>rs. rr_selections out ! k = Some rs \<longrightarrow>
         rs \<noteq> [] \<and> sorted_wrt (\<lambda>a b. snd a < fst b) rs
         \<and> (\<forall>x \<in> set rs. mc_line_start (rq_chunks req ! (rr_indices out ! k)) \<le> fst x \<and> fst x \<le> snd x
              \<and> snd x \<le> mc_line_end (rq_chunks req ! (rr_indices out ! k))))"
proof -
  define n where "n = length (rq_chunks req)"
  define spans where "spans = map (narrowing_spans req) [0..<n]"
  define ranked where "ranked = sort_key (\<lambda>i. - total_key (map fst answers ! i)) [0..<n]"
  have len: "length answers = n" "n \<noteq> 0" using assms(2,4) by (simp_all add: n_def)
  have out: "rr_indices out = ranked"
      "rr_selections out = map (\<lambda>i. selected_ranges (jv_as_f64 jev) (spans ! i) (map snd answers ! i)) ranked"
    using assms(1,2) assms(3) [of "map (\<lambda>i. request_body req i (spans ! i)) [0..<n]"]
    by (simp_all add: out_def jev_rerank_def Let_def spans_def n_def ranked_def)
  have mset: "mset ranked = mset [0..<n]" by (simp add: ranked_def)
  then have mem: "i < n" if "i \<in> set ranked" for i using that by (metis mset_eq_setD set_upt atLeastLessThan_iff)
  have "sorted (map (\<lambda>i. - total_key (map fst answers ! i)) ranked)" by (simp add: ranked_def)
  then have order: "sorted_wrt (\<lambda>i j. total_key (fst (answers ! j)) \<le> total_key (fst (answers ! i))) ranked"
    using mem len by (simp add: sorted_wrt_map sorted_map) (auto elim!: sorted_wrt_mono_rel [rotated])
  have within: "rs \<noteq> [] \<and> sorted_wrt (\<lambda>a b. snd a < fst b) rs
      \<and> (\<forall>x \<in> set rs. mc_line_start (rq_chunks req ! (ranked ! k)) \<le> fst x \<and> fst x \<le> snd x \<and> snd x \<le> mc_line_end (rq_chunks req ! (ranked ! k)))"
    if k: "k < length ranked" and sel: "rr_selections out ! k = Some rs" for k rs
  proof (rule selected_ranges_within)
    show "selected_ranges (jv_as_f64 jev) (spans ! (ranked ! k)) (map snd answers ! (ranked ! k)) = Some rs"
      using sel k by (simp add: out(2))
    have "ranked ! k < n" using mem k by simp
    then show "\<forall>s \<in> set (spans ! (ranked ! k)). mc_line_start (rq_chunks req ! (ranked ! k)) \<le> sp_line_start s \<and> sp_line_start s \<le> sp_line_end s
        \<and> sp_line_end s \<le> mc_line_end (rq_chunks req ! (ranked ! k))"
      using assms(5) by (auto simp: spans_def narrowing_spans_def n_def split: if_splits)
  qed
  have "length (rr_selections out) = length ranked" by (simp add: out(2))
  with mset order within show ?thesis unfolding out(1) n_def by blast
qed

definition demo_jev :: jev_reranker where
  "demo_jev = \<lparr>jv_has_keys = True, jv_fan_out = (\<lambda>_. Replies [(0x3FB999999999999A, JNull), (0x3FE0000000000000, JNull)]),
     jv_as_f64 = (\<lambda>_. None), jv_print = (\<lambda>_. [])\<rparr>"

definition two_candidates :: rerank_request where
  "two_candidates = \<lparr>rq_query = ''q'', rq_chunks = [demo_chunk ''a.rs'' 1 9, demo_chunk ''b.rs'' 1 9], rq_numbered = [None, None],
     rq_caller_stats = [], rq_min_prune_lines = 0, rq_candidate_spans = []\<rparr>"

lemma jev_ranking_sound_witness:
  "mset (rr_indices (jev_rerank demo_jev two_candidates)) = {#0, 1#} \<and> hd (rr_indices (jev_rerank demo_jev two_candidates)) = 1"
proof -
  have "length (rq_chunks two_candidates) = 2" "rq_chunks two_candidates \<noteq> []" "rq_candidate_spans two_candidates = []" "jv_has_keys demo_jev"
    by (simp_all add: two_candidates_def demo_jev_def)
  moreover have "jv_fan_out demo_jev bodies = Replies [(0x3FB999999999999A, JNull), (0x3FE0000000000000, JNull)]" for bodies
    by (simp add: demo_jev_def)
  ultimately have "mset (rr_indices (jev_rerank demo_jev two_candidates)) = mset [0..<2]"
    using jev_ranking_sound [of demo_jev two_candidates "[(0x3FB999999999999A, JNull), (0x3FE0000000000000, JNull)]"] by simp
  moreover have "hd (rr_indices (jev_rerank demo_jev two_candidates)) = 1"
    by code_simp
  ultimately show ?thesis by (simp add: upt_rec)
qed

end
