(* ===== verification/Query_Engine.thy ===== *)
theory Query_Engine
  imports Agentic_Rerank Jev Chunk_Weight Vector_Index
begin

text \<open>
  The query pipeline (\<open>src/query/engine.rs\<close>, \<open>src/query/scope_fallback.rs\<close>): candidates of one scope,
  the other scope when there are none, graph expansion, merge, caller statistics, rerank, formatting, and
  the retry in the other scope when the reranker rejected everything.

  The embedder, the vector scan and the model act on a world of any type (record \<open>services\<close>); databases
  and files do not change during a query. Timings are left out, except the one the fallback adds up. A
  stored symbol reference is the identifier between its brackets.
\<close>

section \<open>Callers and callees\<close>

record caller_callee_stats =
  cs_caller_count :: nat
  cs_caller_file_count :: nat
  cs_caller_names :: "str list"
  cs_callee_count :: nat
  cs_callee_file_count :: nat
  cs_callee_names :: "str list"

definition parent_text :: "str \<Rightarrow> str" where
  "parent_text file = (case path_parent file of Some p \<Rightarrow> p | None \<Rightarrow> [])"

definition proximity :: "str \<Rightarrow> str \<Rightarrow> nat" where
  "proximity target_file file =
     (if file = target_file then 0 else if parent_text file = parent_text target_file then 1 else 2)"

fun first_shorts :: "str \<Rightarrow> str set \<Rightarrow> (str \<times> str) list \<Rightarrow> (nat \<times> str) list" where
  "first_shorts target_file seen [] = []"
| "first_shorts target_file seen ((name, file) # entries) =
     (let short = short_name name in
      if short \<in> seen then first_shorts target_file seen entries
      else (proximity target_file file, short) # first_shorts target_file (insert short seen) entries)"

definition proximity_sorted_names :: "(str \<times> str) list \<Rightarrow> str \<Rightarrow> str list" where
  "proximity_sorted_names entries target_file = map snd (sort_key id (first_shorts target_file {} entries))"

definition distinct_count :: "'a list \<Rightarrow> nat" where
  "distinct_count xs = length (remdups xs)"

text \<open>The rows of one direction that have a name, as (name, file).\<close>

definition named_rows :: "(calls_row \<Rightarrow> str option) \<Rightarrow> (calls_row \<Rightarrow> str) \<Rightarrow> calls_row list \<Rightarrow> (str \<times> str) list" where
  "named_rows name_of file_of found =
     List.map_filter (\<lambda>r. case name_of r of Some n \<Rightarrow> if n = [] then None else Some (n, file_of r) | None \<Rightarrow> None) found"

definition query_caller_callee_stats :: "gdb \<Rightarrow> str \<Rightarrow> str \<Rightarrow> nat \<Rightarrow> caller_callee_stats option" where
  "query_caller_callee_stats db fqn target_file schema_version =
     (let key = (if 2 \<le> schema_version then fqn else short_name fqn) in
      if db_fails db (Caller_Rows key) \<or> db_fails db (Callee_Rows key) then None
      else
        (let callers = named_rows cl_in_name cl_in_file (filter (\<lambda>r. cl_out_name r = Some key) (db_calls db));
             callees = named_rows cl_out_name cl_out_file (filter (\<lambda>r. cl_in_name r = Some key) (db_calls db))
         in Some \<lparr>cs_caller_count = distinct_count (map fst callers), cs_caller_file_count = distinct_count (map snd callers),
              cs_caller_names = proximity_sorted_names callers target_file,
              cs_callee_count = distinct_count (map fst callees), cs_callee_file_count = distinct_count (map snd callees),
              cs_callee_names = proximity_sorted_names callees target_file\<rparr>))"

definition fetch_caller_stats_batch :: "merge_chunk list \<Rightarrow> db_map \<Rightarrow> nat \<Rightarrow> caller_callee_stats option list" where
  "fetch_caller_stats_batch merged m schema_version =
     map (\<lambda>chunk. case mc_symbol_fqn chunk of
            None \<Rightarrow> None
          | Some fqn \<Rightarrow>
              (case find_db_for_file m (mc_file chunk) of
                 None \<Rightarrow> None
               | Some db \<Rightarrow> query_caller_callee_stats db fqn (mc_file chunk) schema_version)) merged"

definition MAX_DISPLAY :: nat where "MAX_DISPLAY = 30"

definition format_tag :: "str \<Rightarrow> nat \<Rightarrow> str list \<Rightarrow> str" where
  "format_tag label n names =
     (if n = 0 then []
      else
        (let shown = take MAX_DISPLAY names; remaining = n - length shown in
         if 0 < remaining
         then '' ['' @ label @ '': '' @ join '', '' shown @ '' +'' @ show_nat remaining @ '' more]''
         else '' ['' @ label @ '': '' @ join '', '' shown @ '']''))"

definition format_caller_tag :: "caller_callee_stats \<Rightarrow> str" where
  "format_caller_tag stats = format_tag ''callers'' (cs_caller_count stats) (cs_caller_names stats)"

definition format_callee_tag :: "caller_callee_stats \<Rightarrow> str" where
  "format_callee_tag stats = format_tag ''calls'' (cs_callee_count stats) (cs_callee_names stats)"

section \<open>Candidates\<close>

definition fetch_symbol_kind :: "gdb \<Rightarrow> str \<Rightarrow> str option" where
  "fetch_symbol_kind db fqn =
     (if db_fails db (Kind_Of fqn) then None
      else Option.bind (find (\<lambda>r. sr_fqn r = fqn) (db_symbols db)) sr_kind)"

definition fetch_chunk_content :: "db_map \<Rightarrow> str \<Rightarrow> nat \<Rightarrow> nat \<Rightarrow> str \<times> str option \<times> str option \<times> str option" where
  "fetch_chunk_content m file line_start line_end =
     (case find_db_for_file m file of
        None \<Rightarrow> ([], None, None, None)
      | Some db \<Rightarrow>
          (case (if db_fails db (Chunk_Content file line_start line_end) then None
                 else find (\<lambda>r. cr_file r = file \<and> cr_start r = int line_start \<and> cr_end r = int line_end) (db_chunks db)) of
             None \<Rightarrow> ([], None, None, None)
           | Some row \<Rightarrow>
               (let fqn = cr_symbol_ref row;
                    symbol = map_option short_name fqn;
                    symbol_kind = Option.bind fqn (fetch_symbol_kind db)
                in (cr_content row, symbol, fqn, symbol_kind))))"

definition hydrate_one :: "file_system \<Rightarrow> db_map \<Rightarrow> search_result \<Rightarrow> merge_chunk" where
  "hydrate_one fs m sr =
     (let file = ci_file (sr_chunk_id sr); ls = unat (ci_line_start (sr_chunk_id sr)); le = unat (ci_line_end (sr_chunk_id sr));
          (content0, symbol, fqn, kind) = fetch_chunk_content m file ls le;
          body = (if is_unresolved_content content0 then read_source_lines fs file ls le else content0)
      in \<lparr>mc_file = file, mc_line_start = ls, mc_line_end = le, mc_score = sr_score sr, mc_content = body,
          mc_symbol = symbol, mc_symbol_fqn = fqn, mc_symbol_kind = kind, mc_duplicates = []\<rparr>)"

definition hydrate_candidates :: "file_system \<Rightarrow> db_map \<Rightarrow> search_result list \<Rightarrow> content_fence" where
  "hydrate_candidates fs m found = fence_apply (map (hydrate_one fs m) found)"

record gathered =
  ga_base_chunks :: "merge_chunk list"
  ga_warming :: bool
  ga_search_ms :: nat
  ga_db_map :: db_map

text \<open>What a query calls outside the pipeline.\<close>

record 'w services =
  embed_query :: "str \<Rightarrow> 'w \<Rightarrow> (str + f32 list) \<times> 'w"
  vector_search :: "f32 list \<Rightarrow> nat \<Rightarrow> str option \<Rightarrow> scope_filter option \<Rightarrow> 'w \<Rightarrow> (search_result list \<times> bool \<times> nat) \<times> 'w"
  llm_turn :: "str \<Rightarrow> chat_message list \<Rightarrow> bool \<Rightarrow> 'w \<Rightarrow> (str + tool_turn) \<times> 'w"
  open_dbs :: db_map
  disk :: fs_world
  host_of :: llm_host
  print_json :: "json \<Rightarrow> str"
  chunk_sort :: ranked_sort

definition gather_candidates ::
  "'w services \<Rightarrow> f32 list \<Rightarrow> nat \<Rightarrow> str option \<Rightarrow> query_filters \<Rightarrow> scope_filter option \<Rightarrow> 'w \<Rightarrow> gathered \<times> 'w" where
  "gather_candidates sv embedding limit repo_filter filters class w =
     (case vector_search sv embedding (limit * 2) repo_filter class w of
        ((raw_results, warming, search_ms), w') \<Rightarrow>
          (if raw_results = [] then
             \<lparr>ga_base_chunks = [], ga_warming = warming, ga_search_ms = search_ms, ga_db_map = []\<rparr>
           else
             (let filtered = (case repo_filter of
                      Some repo \<Rightarrow> filter (\<lambda>r. path_in_repo (ci_file (sr_chunk_id r)) repo) raw_results
                    | None \<Rightarrow> raw_results);
                  m = open_dbs sv;
                  fenced = hydrate_candidates (texts (disk sv)) m filtered;
                  warming' = (warming \<or> 0 < cf_dropped fenced)
              in if cf_kept fenced = [] \<and> 0 < cf_dropped fenced then
                   \<lparr>ga_base_chunks = cf_kept fenced, ga_warming = True, ga_search_ms = search_ms, ga_db_map = m\<rparr>
                 else
                   \<lparr>ga_base_chunks = (if \<not> filters_is_empty filters then apply_query_filters (cf_kept fenced) filters
                                      else cf_kept fenced),
                    ga_warming = warming', ga_search_ms = search_ms, ga_db_map = m\<rparr>), w'))"

section \<open>The fallback of an empty scope\<close>

record served =
  sv_gathered :: gathered
  sv_scope :: "scope_filter option"
  sv_fallback :: bool

definition gather_with_fallback ::
  "scope_filter option \<Rightarrow> bool \<Rightarrow> (scope_filter option \<Rightarrow> 'w \<Rightarrow> gathered \<times> 'w) \<Rightarrow> 'w \<Rightarrow> served \<times> 'w" where
  "gather_with_fallback requested allow_fallback gather w =
     (case gather requested w of
        (first, w1) \<Rightarrow>
          (case requested of
             None \<Rightarrow> (\<lparr>sv_gathered = first, sv_scope = None, sv_fallback = False\<rparr>, w1)
           | Some requested_filter \<Rightarrow>
               if \<not> allow_fallback \<or> ga_base_chunks first \<noteq> [] \<or> ga_warming first then
                 (\<lparr>sv_gathered = first, sv_scope = Some requested_filter, sv_fallback = False\<rparr>, w1)
               else
                 (let other = filter_opposite requested_filter in
                  case gather (Some other) w1 of
                    (second, w2) \<Rightarrow>
                      if ga_base_chunks second \<noteq> [] then
                        (\<lparr>sv_gathered = second\<lparr>ga_search_ms := ga_search_ms second + ga_search_ms first\<rparr>,
                          sv_scope = Some other, sv_fallback = True\<rparr>, w2)
                      else
                        (\<lparr>sv_gathered = first\<lparr>ga_search_ms := ga_search_ms first + ga_search_ms second,
                                               ga_warming := ga_warming second\<rparr>,
                          sv_scope = Some requested_filter, sv_fallback = False\<rparr>, w2))))"

section \<open>Results\<close>

record code_result =
  cr_result_file :: str
  cr_line_start :: nat
  cr_line_end :: nat
  cr_score :: f32
  cr_text :: str
  cr_symbol :: "str option"
  cr_symbol_kind :: "str option"
  cr_callers :: "nat option"
  cr_caller_files :: "nat option"
  cr_caller_names :: "str list"
  cr_callee_names :: "str list"
  cr_callees :: "nat option"
  cr_relevance :: "u64 option"
  cr_duplicates :: "str list"

definition code_result_of ::
  "merge_chunk \<Rightarrow> caller_callee_stats option \<Rightarrow> u64 option \<Rightarrow> nat \<Rightarrow> nat \<Rightarrow> str \<Rightarrow> code_result" where
  "code_result_of chunk stats relevance s e body =
     \<lparr>cr_result_file = mc_file chunk, cr_line_start = s, cr_line_end = e, cr_score = mc_score chunk, cr_text = body,
      cr_symbol = mc_symbol chunk, cr_symbol_kind = mc_symbol_kind chunk,
      cr_callers = map_option cs_caller_count stats, cr_caller_files = map_option cs_caller_file_count stats,
      cr_caller_names = (case stats of Some t \<Rightarrow> cs_caller_names t | None \<Rightarrow> []),
      cr_callee_names = (case stats of Some t \<Rightarrow> cs_callee_names t | None \<Rightarrow> []),
      cr_callees = map_option cs_callee_count stats, cr_relevance = relevance, cr_duplicates = mc_duplicates chunk\<rparr>"

definition nth_opt :: "'a list \<Rightarrow> nat \<Rightarrow> 'a option" where
  "nth_opt xs i = (if i < length xs then Some (xs ! i) else None)"

text \<open>The blocks of one reranked chunk: one per selected range, or the whole chunk.\<close>

definition result_blocks ::
  "merge_chunk list \<Rightarrow> str option list \<Rightarrow> caller_callee_stats option list \<Rightarrow> rerank_output \<Rightarrow> nat \<Rightarrow> nat \<Rightarrow> code_result list" where
  "result_blocks chunks numbered stats out k idx =
     (case nth_opt chunks idx of
        None \<Rightarrow> []
      | Some chunk \<Rightarrow>
          (let block = code_result_of chunk (nth_flat stats idx) (nth_opt (rr_relevance out) idx);
               whole = block (mc_line_start chunk) (mc_line_end chunk)
           in case (nth_flat numbered idx, nth_flat (rr_selections out) k) of
                (Some t, Some ranges) \<Rightarrow>
                  if ranges \<noteq> [] then map (\<lambda>(s, e). block s e (slice_numbered t (mc_line_start chunk) s e)) ranges
                  else [whole t]
              | (Some t, None) \<Rightarrow> [whole t]
              | (None, _) \<Rightarrow> [whole (mc_content chunk)]))"

definition assemble ::
  "merge_chunk list \<Rightarrow> str option list \<Rightarrow> caller_callee_stats option list \<Rightarrow> rerank_output \<Rightarrow> code_result list" where
  "assemble chunks numbered stats out =
     concat (map (\<lambda>(k, idx). result_blocks chunks numbered stats out k idx) (List.enumerate 0 (rr_indices out)))"

definition pre_rerank_results ::
  "merge_chunk list \<Rightarrow> str option list \<Rightarrow> caller_callee_stats option list \<Rightarrow> rerank_output \<Rightarrow> code_result list" where
  "pre_rerank_results merged numbered stats out =
     map (\<lambda>(i, chunk). code_result_of chunk (nth_flat stats i) (nth_opt (rr_relevance out) i)
             (mc_line_start chunk) (mc_line_end chunk) (case nth_flat numbered i of Some t \<Rightarrow> t | None \<Rightarrow> mc_content chunk))
       (List.enumerate 0 merged)"

definition keep_resolved :: "code_result list \<Rightarrow> code_result list" where
  "keep_resolved rs = filter (\<lambda>r. \<not> is_unresolved_content (cr_text r)) rs"

record rerank_info =
  ri_raw_request :: str
  ri_raw_response :: str
  ri_fallback_used :: bool
  ri_skip_reason :: "str option"

record query_result =
  qr_results :: "code_result list"
  qr_pre_rerank :: "code_result list"
  qr_search_ms :: nat
  qr_rerank :: "rerank_info option"
  qr_warming :: bool
  qr_graph_pending :: bool
  qr_scope :: "str option"
  qr_scope_fallback :: bool

definition rerank_rejected_all :: "query_result \<Rightarrow> bool" where
  "rerank_rejected_all q \<longleftrightarrow> qr_results q = [] \<and>
     (case qr_rerank q of
        None \<Rightarrow> False
      | Some r \<Rightarrow> \<not> ri_fallback_used r \<and> ri_skip_reason r = None \<and> ri_raw_response r \<noteq> [])"

section \<open>The pipeline\<close>

datatype graph_mode = Full | VectorOnly

definition uses_call_graph :: "graph_mode \<Rightarrow> bool" where
  "uses_call_graph g \<longleftrightarrow> g = Full"

definition schema_version_for :: "graph_mode \<Rightarrow> db_map \<Rightarrow> nat option" where
  "schema_version_for g m =
     (if uses_call_graph g then Some (case m of [] \<Rightarrow> 1 | e # _ \<Rightarrow> db_schema_version (snd e)) else None)"

definition merge_chunk_of :: "expanded_chunk \<Rightarrow> merge_chunk" where
  "merge_chunk_of e =
     \<lparr>mc_file = ec_file e, mc_line_start = ec_line_start e, mc_line_end = ec_line_end e, mc_score = ec_score e,
      mc_content = ec_content e, mc_symbol = ec_symbol e, mc_symbol_fqn = ec_symbol_fqn e,
      mc_symbol_kind = ec_symbol_kind e, mc_duplicates = []\<rparr>"

definition with_graph :: "nat option \<Rightarrow> db_map \<Rightarrow> merge_chunk list \<Rightarrow> merge_chunk list" where
  "with_graph schema_version m base_chunks =
     (case schema_version of
        Some v \<Rightarrow> base_chunks @ map merge_chunk_of (graph_expand base_chunks m v)
      | None \<Rightarrow> base_chunks)"

definition EMPTY_EMBEDDING :: str where
  "EMPTY_EMBEDDING = ''embed_query returned an empty vector''"

text \<open>The agent's own search: no rerank.\<close>

definition run_sub_query ::
  "'w services \<Rightarrow> str \<Rightarrow> str \<Rightarrow> nat \<Rightarrow> str \<Rightarrow> query_filters \<Rightarrow> graph_mode \<Rightarrow> scope_filter option \<Rightarrow> 'w
     \<Rightarrow> (str + merge_chunk list) \<times> 'w" where
  "run_sub_query sv user_query agent_query limit repo_filter filters graph_mode class w =
     (case embed_query sv agent_query w of
        (Inl e, w1) \<Rightarrow> (Inl e, w1)
      | (Inr embedding, w1) \<Rightarrow>
          if embedding = [] then (Inl EMPTY_EMBEDDING, w1)
          else
            (case vector_search sv embedding (limit * 2) (Some repo_filter) class w1 of
               ((raw_results, _), w2) \<Rightarrow>
                 (if raw_results = [] then Inr []
                  else
                    (let filtered = filter (\<lambda>r. path_in_repo (ci_file (sr_chunk_id r)) repo_filter) raw_results;
                         m = open_dbs sv;
                         kept = cf_kept (hydrate_candidates (texts (disk sv)) m filtered);
                         base_chunks = (if \<not> filters_is_empty filters then apply_query_filters kept filters else kept);
                         all_chunks = with_graph (schema_version_for graph_mode m) m base_chunks
                     in Inr (weighted_merge (chunk_sort sv) all_chunks [user_query, agent_query] filters [repo_filter] limit)), w2)))"

definition live_backend ::
  "'w services \<Rightarrow> parsed_query \<Rightarrow> str \<Rightarrow> graph_mode \<Rightarrow> scope_filter option \<Rightarrow> 'w backend" where
  "live_backend sv query repo graph_mode class =
     \<lparr>next_turn = llm_turn sv,
      sub_query = (\<lambda>request. run_sub_query sv (pq_text query) request 30 repo (pq_filters query) graph_mode class),
      repo_root = Some (normalize_repo_path False repo), files = disk sv, json_print = print_json sv\<rparr>"

record query_options =
  qo_top_k :: nat
  qo_repo_filter :: "str option"
  qo_min_prune_lines :: nat
  qo_provider :: rerank_provider
  qo_agentic :: bool
  qo_max_turns :: nat
  qo_max_chunk_chars :: nat
  qo_grep_read :: bool
  qo_filters :: "query_filters option"
  qo_graph_mode :: graph_mode

text \<open>Rerank: the output, and the pool its indices address.\<close>

definition rerank_step ::
  "'w services \<Rightarrow> query_options \<Rightarrow> parsed_query \<Rightarrow> rerank_request \<Rightarrow> scope_filter option \<Rightarrow> 'w
     \<Rightarrow> (rerank_output \<times> extended_pool) \<times> 'w" where
  "rerank_step sv qo parsed req served_scope w =
     (case (qo_agentic qo, provider_llm_client (qo_provider qo), qo_repo_filter qo) of
        (True, Some client, Some repo) \<Rightarrow>
          run_agentic_loop (host_of sv) (live_backend sv parsed repo (qo_graph_mode qo) served_scope) req
            (qo_max_turns qo) (qo_max_chunk_chars qo) (qo_grep_read qo) w
      | _ \<Rightarrow>
          ((provider_rerank (host_of sv) (qo_provider qo) req,
            \<lparr>ep_chunks = rq_chunks req, ep_numbered = rq_numbered req\<rparr>), w))"

definition scope_name :: "scope_filter option \<Rightarrow> str option" where
  "scope_name s = map_option (\<lambda>f. scope_as_str (sf_scope f)) s"

text \<open>From the candidates to the answer.\<close>

definition merged_candidates :: "'w services \<Rightarrow> query_options \<Rightarrow> parsed_query \<Rightarrow> gathered \<Rightarrow> merge_chunk list" where
  "merged_candidates sv qo parsed g =
     (let m = ga_db_map g;
          all_chunks = with_graph (schema_version_for (qo_graph_mode qo) m) m (ga_base_chunks g);
          repo_roots = (case qo_repo_filter qo of Some repo \<Rightarrow> [repo] | None \<Rightarrow> map fst m)
      in weighted_merge (chunk_sort sv) all_chunks [pq_text parsed] (pq_filters parsed) repo_roots (qo_top_k qo))"

definition candidate_stats :: "query_options \<Rightarrow> db_map \<Rightarrow> merge_chunk list \<Rightarrow> caller_callee_stats option list" where
  "candidate_stats qo m merged =
     (case schema_version_for (qo_graph_mode qo) m of
        Some v \<Rightarrow> fetch_caller_stats_batch merged m v
      | None \<Rightarrow> replicate (length merged) None)"

definition request_for ::
  "'w services \<Rightarrow> query_options \<Rightarrow> parsed_query \<Rightarrow> db_map \<Rightarrow> merge_chunk list \<Rightarrow> rerank_request" where
  "request_for sv qo parsed m merged =
     \<lparr>rq_query = pq_text parsed, rq_chunks = merged,
      rq_numbered = map (\<lambda>c. numbered_text (disk sv) (mc_file c) (mc_line_start c) (mc_line_end c)) merged,
      rq_caller_stats = map (map_option (\<lambda>s. (cs_caller_count s, cs_caller_file_count s))) (candidate_stats qo m merged),
      rq_min_prune_lines = qo_min_prune_lines qo,
      rq_candidate_spans = (if narrows_by_span (qo_provider qo) then candidate_spans_for merged (find_db_for_file m)
                            else no_spans (length merged))\<rparr>"

definition answer_of ::
  "query_options \<Rightarrow> served \<Rightarrow> rerank_request \<Rightarrow> caller_callee_stats option list \<Rightarrow> rerank_output \<Rightarrow> extended_pool \<Rightarrow> query_result" where
  "answer_of qo served req stats out pool =
     (let assembled = assemble (ep_chunks pool) (ep_numbered pool) stats out;
          results = keep_resolved assembled
      in \<lparr>qr_results = results,
          qr_pre_rerank = keep_resolved (pre_rerank_results (rq_chunks req) (rq_numbered req) stats out),
          qr_search_ms = ga_search_ms (sv_gathered served),
          qr_rerank = Some \<lparr>ri_raw_request = rr_request out, ri_raw_response = rr_response out,
                            ri_fallback_used = rr_fallback out, ri_skip_reason = rr_skip out\<rparr>,
          qr_warming = (ga_warming (sv_gathered served) \<or> length results \<noteq> length assembled),
          qr_graph_pending = (qo_graph_mode qo = VectorOnly),
          qr_scope = scope_name (sv_scope served), qr_scope_fallback = sv_fallback served\<rparr>)"

definition rank_and_format ::
  "'w services \<Rightarrow> query_options \<Rightarrow> parsed_query \<Rightarrow> served \<Rightarrow> 'w \<Rightarrow> query_result \<times> 'w" where
  "rank_and_format sv qo parsed served w =
     (let m = ga_db_map (sv_gathered served);
          merged = merged_candidates sv qo parsed (sv_gathered served);
          req = request_for sv qo parsed m merged;
          ((out, pool), w') = rerank_step sv qo parsed req (sv_scope served) w
      in (answer_of qo served req (candidate_stats qo m merged) out pool, w'))"

text \<open>The query and the filters, with the scope of a forced retry in place of the requested one.\<close>

definition parse_scoped :: "str \<Rightarrow> query_filters option \<Rightarrow> scope option \<Rightarrow> parsed_query" where
  "parse_scoped query filters forced_scope =
     (let parsed = parse_query query filters in
      case forced_scope of
        Some s \<Rightarrow> parsed\<lparr>pq_filters := (pq_filters parsed)\<lparr>qf_scope := Some s\<rparr>\<rparr>
      | None \<Rightarrow> parsed)"

definition no_candidates :: "query_options \<Rightarrow> served \<Rightarrow> query_result" where
  "no_candidates qo served =
     \<lparr>qr_results = [], qr_pre_rerank = [], qr_search_ms = ga_search_ms (sv_gathered served),
      qr_rerank = None, qr_warming = ga_warming (sv_gathered served),
      qr_graph_pending = (qo_graph_mode qo = VectorOnly),
      qr_scope = scope_name (sv_scope served), qr_scope_fallback = sv_fallback served\<rparr>"

definition run_query_once ::
  "'w services \<Rightarrow> query_options \<Rightarrow> str \<Rightarrow> scope option \<Rightarrow> bool \<Rightarrow> 'w \<Rightarrow> (str + query_result) \<times> 'w" where
  "run_query_once sv qo query forced_scope allow_gather_fallback w =
     (let parsed = parse_scoped query (qo_filters qo) forced_scope
      in case embed_query sv (pq_text parsed) w of
           (Inl e, w1) \<Rightarrow> (Inl e, w1)
         | (Inr embedding, w1) \<Rightarrow>
             if embedding = [] then (Inl EMPTY_EMBEDDING, w1)
             else
               (case gather_with_fallback (filters_scope_filter (pq_filters parsed)) allow_gather_fallback
                   (gather_candidates sv embedding (qo_top_k qo) (qo_repo_filter qo) (pq_filters parsed)) w1 of
                  (served, w2) \<Rightarrow>
                    if ga_base_chunks (sv_gathered served) = [] then (Inr (no_candidates qo served), w2)
                    else (case rank_and_format sv qo parsed served w2 of (q, w3) \<Rightarrow> (Inr q, w3))))"

section \<open>The retry after a rejection\<close>

definition retry_on_rerank_rejection ::
  "(scope option \<Rightarrow> bool \<Rightarrow> 'w \<Rightarrow> ('e + query_result) \<times> 'w) \<Rightarrow> 'w \<Rightarrow> ('e + query_result) \<times> 'w" where
  "retry_on_rerank_rejection run w =
     (case run None True w of
        (Inl e, w1) \<Rightarrow> (Inl e, w1)
      | (Inr first, w1) \<Rightarrow>
          (case Option.bind (qr_scope first) scope_parse of
             None \<Rightarrow> (Inr first, w1)
           | Some served \<Rightarrow>
               if qr_scope_fallback first \<or> qr_warming first \<or> \<not> rerank_rejected_all first then (Inr first, w1)
               else
                 (let other = scope_opposite served in
                  case run (Some other) False w1 of
                    (Inr second, w2) \<Rightarrow>
                      if qr_results second \<noteq> [] then
                        (Inr (second\<lparr>qr_scope := Some (scope_as_str other), qr_scope_fallback := True\<rparr>), w2)
                      else (Inr first, w2)
                  | (Inl e, w2) \<Rightarrow> (Inr first, w2))))"

definition run_query_with_filters_and_mode ::
  "'w services \<Rightarrow> query_options \<Rightarrow> str \<Rightarrow> 'w \<Rightarrow> (str + query_result) \<times> 'w" where
  "run_query_with_filters_and_mode sv qo query =
     retry_on_rerank_rejection (run_query_once sv qo query)"

definition run_query_with_filters :: "'w services \<Rightarrow> query_options \<Rightarrow> str \<Rightarrow> 'w \<Rightarrow> (str + query_result) \<times> 'w" where
  "run_query_with_filters sv qo = run_query_with_filters_and_mode sv (qo\<lparr>qo_graph_mode := Full\<rparr>)"

definition run_query :: "'w services \<Rightarrow> query_options \<Rightarrow> str \<Rightarrow> 'w \<Rightarrow> (str + query_result) \<times> 'w" where
  "run_query sv qo = run_query_with_filters sv (qo\<lparr>qo_filters := None\<rparr>)"


section \<open>Answers are resolved, and an empty one is explained\<close>

lemma merge_weighted_nonempty:
  assumes srt: "unstable_sort srt" and cs: "cs \<noteq> []" and k: "0 < k"
  shows "merge_weighted srt cs k \<noteq> []"
proof -
  obtain c w where cw: "(c, w) \<in> set cs" using cs by (cases cs) auto
  obtain d where "d \<in> set (dedup cs)" using dedup_keeps [OF cw] by blast
  then have "d \<in> set (srt location_le (dedup cs))" using unstable_sort.srt_set [OF srt] by blast
  from collapse_accounts [OF srt this] obtain r where r: "r \<in> set (collapsed srt cs)"
    unfolding collapsed_def by blast
  let ?xs = "filter (\<lambda>y. rk_file y = rk_file r) (collapsed srt cs)"
  obtain s where "s \<in> set (merge_file srt ?xs)"
    using merge_file_covers [OF srt, of ?xs "rk_file r" r] r by auto
  then have "s \<in> set (merge_ranked srt cs)" using merge_ranked_mem [OF srt] by blast
  then show ?thesis using cs k by (auto simp: merge_weighted_def)
qed

text \<open>What a rerank of \<open>n\<close> candidates may return: indices of the pool, and none at all only when the
  reranker ran and chose nothing.\<close>

definition explained :: "nat \<Rightarrow> nat \<Rightarrow> rerank_output \<Rightarrow> bool" where
  "explained n pool_len out \<longleftrightarrow> (\<forall>i \<in> set (rr_indices out). i < pool_len)
     \<and> (rr_indices out = [] \<and> 0 < n \<longrightarrow> \<not> rr_fallback out \<and> rr_skip out = None)"

lemma output_ok_indices: "output_ok chunks out \<Longrightarrow> \<forall>i \<in> set (rr_indices out). i < length chunks"
  by (fastforce simp: output_ok_def list_all2_conv_all_nth set_conv_nth)

lemma incoming_explained: "explained n n (incoming_order n rq rs f s)"
  by (auto simp: explained_def incoming_order_def)

lemma nothing_explained: "explained n m (nothing_ranked rq rs)"
  by (simp add: explained_def nothing_ranked_def)

lemma explained_request [simp]: "explained n m (out\<lparr>rr_request := x\<rparr>) = explained n m out"
  by (simp add: explained_def)

lemma parse_explained:
  assumes "unstable_sort srt"
  shows "explained (length chunks) (length chunks) (parse_rerank_response srt parse response chunks m structured)"
proof (cases "ranking_entries parse structured response")
  case (Inl reason)
  then show ?thesis by (simp add: parse_rerank_response_def incoming_explained)
next
  case (Inr arr)
  then have "\<not> rr_fallback (parse_rerank_response srt parse response chunks m structured)"
      "rr_skip (parse_rerank_response srt parse response chunks m structured) = None"
    by (simp_all add: parse_rerank_response_def nothing_ranked_def Let_def)
  then show ?thesis using output_ok_indices [OF parse_rerank_ok [OF assms, of chunks parse response m structured]]
    by (simp add: explained_def)
qed

lemma llm_explained:
  assumes "unstable_sort (lh_sort h)"
  shows "explained (length (rq_chunks req)) (length (rq_chunks req)) (rerank_with_llm h req client)"
  using assms
  by (auto simp: rerank_with_llm_def incoming_explained nothing_explained parse_explained Let_def
    split: option.split sum.split prod.split)

lemma jev_explained: "explained (length (rq_chunks req)) (length (rq_chunks req)) (jev_rerank jev req)"
  by (auto simp: jev_rerank_def Let_def incoming_explained nothing_explained split: fan_out.split)
    (simp add: explained_def)

lemma provider_explained:
  assumes "unstable_sort (lh_sort h)"
  shows "explained (length (rq_chunks req)) (length (rq_chunks req)) (provider_rerank h p req)"
  using llm_explained [OF assms] jev_explained
  by (auto simp: provider_rerank_def incoming_explained split: rerank_provider.split)

lemma agentic_explained:
  assumes "unstable_sort (lh_sort h)" "length (rq_numbered req) = length (rq_chunks req)"
    and "run_agentic_loop h b req max_turns max_chars grep w = ((out, pool), w')"
  shows "explained (length (rq_chunks req)) (length (ep_chunks pool)) out"
proof (cases "rq_chunks req = []")
  case True
  then show ?thesis using assms(3) by (auto simp: run_agentic_loop_def nothing_explained)
next
  case False
  obtain raw exit st where run: "out = agentic_output raw (length (rq_chunks req)) exit st"
      "pool = \<lparr>ep_chunks = lp_chunks st, ep_numbered = lp_numbered st\<rparr>" and ok: "loop_ok (rq_chunks req) st"
    by (rule run_agentic_within [OF assms(1,2) False, of b max_turns max_chars grep w "\<lambda>_. 0" "\<lambda>_. 0"]) (use assms(3) in auto)
  have "output_ok (ep_chunks pool) out" using agentic_output_loop_ok [OF ok, of raw exit] by (simp add: run)
  moreover have "rr_indices out = [] \<longrightarrow> \<not> rr_fallback out \<and> rr_skip out = None"
    using False by (auto simp: run agentic_output_def incoming_order_def nothing_ranked_def Let_def split: final_action.splits)
  ultimately show ?thesis using output_ok_indices by (auto simp: explained_def)
qed

lemma rerank_step_explained:
  assumes "unstable_sort (lh_sort (host_of sv))" "length (rq_numbered req) = length (rq_chunks req)"
    and "rerank_step sv qo parsed req sc w = ((out, pool), w')"
  shows "explained (length (rq_chunks req)) (length (ep_chunks pool)) out"
proof -
  have single: "explained (length (rq_chunks req)) (length (ep_chunks pool)) out"
    if "((provider_rerank (host_of sv) (qo_provider qo) req, \<lparr>ep_chunks = rq_chunks req, ep_numbered = rq_numbered req\<rparr>), w)
      = ((out, pool), w')"
    using that provider_explained [OF assms(1), of req "qo_provider qo"] by auto
  show ?thesis
    using assms(3) single agentic_explained [OF assms(1,2)]
    by (auto simp: rerank_step_def split: bool.splits option.splits)
qed

lemma result_blocks_some: "idx < length chunks \<Longrightarrow> result_blocks chunks numbered stats out k idx \<noteq> []"
  by (auto simp: result_blocks_def nth_opt_def Let_def split: option.split)

lemma assemble_empty:
  assumes "\<forall>i \<in> set (rr_indices out). i < length chunks" "assemble chunks numbered stats out = []"
  shows "rr_indices out = []"
proof (rule ccontr)
  assume "rr_indices out \<noteq> []"
  then obtain i rest where r: "rr_indices out = i # rest" by (cases "rr_indices out") auto
  then have "result_blocks chunks numbered stats out 0 i = []" using assms(2) by (simp add: assemble_def)
  moreover have "i < length chunks" using assms(1) r by simp
  ultimately show False using result_blocks_some by blast
qed


lemma with_graph_nonempty: "cs \<noteq> [] \<Longrightarrow> with_graph v m cs \<noteq> []"
  by (simp add: with_graph_def split: option.split)

lemma rank_cases:
  assumes "rank_and_format sv qo parsed served w = (q, w')"
  obtains req stats out pool where
    "rq_chunks req = merged_candidates sv qo parsed (sv_gathered served)" "length (rq_numbered req) = length (rq_chunks req)"
    "rerank_step sv qo parsed req (sv_scope served) w = ((out, pool), w')"
    "q = answer_of qo served req stats out pool"
proof -
  let ?m = "ga_db_map (sv_gathered served)"
  let ?merged = "merged_candidates sv qo parsed (sv_gathered served)"
  let ?req = "request_for sv qo parsed ?m ?merged"
  obtain out pool w'' where s: "rerank_step sv qo parsed ?req (sv_scope served) w = ((out, pool), w'')"
    by (metis surj_pair)
  show thesis
    by (rule that [of ?req out pool "candidate_stats qo ?m ?merged"])
      (use assms s in \<open>simp_all add: rank_and_format_def Let_def\<close>, simp_all add: request_for_def)
qed

lemma run_query_once_cases:
  assumes "run_query_once sv qo query forced fb w = (Inr q, w')"
  obtains embedding w1 served w2 where
    "embed_query sv (pq_text (parse_scoped query (qo_filters qo) forced)) w = (Inr embedding, w1)"
    "gather_with_fallback (filters_scope_filter (pq_filters (parse_scoped query (qo_filters qo) forced))) fb
       (gather_candidates sv embedding (qo_top_k qo) (qo_repo_filter qo) (pq_filters (parse_scoped query (qo_filters qo) forced))) w1
     = (served, w2)"
    "if ga_base_chunks (sv_gathered served) = [] then q = no_candidates qo served \<and> w' = w2
     else rank_and_format sv qo (parse_scoped query (qo_filters qo) forced) served w2 = (q, w')"
  using assms unfolding run_query_once_def Let_def
  by (auto split: prod.splits sum.splits if_splits)

text \<open>No answer is blank and no empty answer is unexplained. Every result has text; and a query that
  returns no results, without asking for a retry, had no candidate in the index or was answered by a
  reranker that ran and chose none: a failed or absent reranker never empties an answer.\<close>

theorem empty_answer_explained:
  assumes "unstable_sort (chunk_sort sv)" "unstable_sort (lh_sort (host_of sv))" "0 < qo_top_k qo"
    and run: "run_query_once sv qo query forced fb w = (Inr q, w')"
  shows "(\<forall>r \<in> set (qr_results q) \<union> set (qr_pre_rerank q). \<not> is_unresolved_content (cr_text r))
    \<and> (qr_results q = [] \<and> \<not> qr_warming q \<longrightarrow>
         (case qr_rerank q of None \<Rightarrow> True | Some i \<Rightarrow> \<not> ri_fallback_used i \<and> ri_skip_reason i = None))"
proof -
  obtain parsed served w1 where sv: "if ga_base_chunks (sv_gathered served) = [] then q = no_candidates qo served
      else rank_and_format sv qo parsed served w1 = (q, w')"
    by (rule run_query_once_cases [OF run]) metis
  show ?thesis
  proof (cases "ga_base_chunks (sv_gathered served) = []")
    case True
    then show ?thesis using sv by (simp add: no_candidates_def)
  next
    case False
    obtain req stats out pool w'' where
      req: "rq_chunks req = merged_candidates sv qo parsed (sv_gathered served)" "length (rq_numbered req) = length (rq_chunks req)"
      and step: "rerank_step sv qo parsed req (sv_scope served) w1 = ((out, pool), w'')"
      and q: "q = answer_of qo served req stats out pool"
      using sv False by (auto elim: rank_cases)
    define merged where "merged = rq_chunks req"
    define assembled where "assembled = assemble (ep_chunks pool) (ep_numbered pool) stats out"
    have n: "0 < length merged"
      using merge_weighted_nonempty [OF assms(1) _ assms(3)] with_graph_nonempty [OF False]
      by (simp add: merged_def req merged_candidates_def weighted_merge_def Let_def)
    have res: "qr_results q = keep_resolved assembled"
        "qr_pre_rerank q = keep_resolved (pre_rerank_results merged (rq_numbered req) stats out)"
      and warm: "\<not> qr_warming q \<Longrightarrow> length (qr_results q) = length assembled"
      and info: "qr_rerank q = Some \<lparr>ri_raw_request = rr_request out, ri_raw_response = rr_response out,
             ri_fallback_used = rr_fallback out, ri_skip_reason = rr_skip out\<rparr>"
      by (simp_all add: q answer_of_def Let_def assembled_def merged_def)
    have ex: "explained (length merged) (length (ep_chunks pool)) out"
      using rerank_step_explained [OF assms(2) req(2) step] by (simp add: merged_def)
    have "\<not> rr_fallback out \<and> rr_skip out = None" if "qr_results q = []" "\<not> qr_warming q"
      using ex n warm [OF that(2)] that(1) assemble_empty [of out "ep_chunks pool"] by (auto simp: explained_def assembled_def)
    moreover have "\<forall>r \<in> set (qr_results q) \<union> set (qr_pre_rerank q). \<not> is_unresolved_content (cr_text r)"
      by (auto simp: res keep_resolved_def)
    ultimately show ?thesis by (simp add: info)
  qed
qed


section \<open>The other scope\<close>

text \<open>What a scan promises: with a class filter, rows of that class only (the restriction runs inside the scan).\<close>

definition scans_by_class :: "'w services \<Rightarrow> bool" where
  "scans_by_class sv \<longleftrightarrow>
     (\<forall>e n repo class w. \<forall>x \<in> set (fst (fst (vector_search sv e n repo class w))). in_class class (ci_file (sr_chunk_id x)))"

text \<open>The answer is the ranking of the candidates \<open>g\<close>: with none it is empty; the agent, if any, searches in
  the class too.\<close>

definition from_scan :: "'w services \<Rightarrow> query_options \<Rightarrow> parsed_query \<Rightarrow> scope_filter option \<Rightarrow> gathered \<Rightarrow> 'w \<Rightarrow> query_result \<Rightarrow> bool" where
  "from_scan sv qo parsed class g w q \<longleftrightarrow>
     (if ga_base_chunks g = [] then qr_results q = [] \<and> qr_pre_rerank q = []
      else \<exists>req stats out pool w'. rq_chunks req = merged_candidates sv qo parsed g
        \<and> rerank_step sv qo parsed req class w = ((out, pool), w')
        \<and> qr_results q = keep_resolved (assemble (ep_chunks pool) (ep_numbered pool) stats out)
        \<and> qr_pre_rerank q = keep_resolved (pre_rerank_results (rq_chunks req) (rq_numbered req) stats out))"

definition graph_neighbours :: "query_options \<Rightarrow> gathered \<Rightarrow> expanded_chunk list" where
  "graph_neighbours qo g =
     (case schema_version_for (qo_graph_mode qo) (ga_db_map g) of
        Some v \<Rightarrow> graph_expand (ga_base_chunks g) (ga_db_map g) v
      | None \<Rightarrow> [])"

lemma gathered_in_class:
  assumes "scans_by_class sv" "gather_candidates sv e n repo f class w = (g, w')" "c \<in> set (ga_base_chunks g)"
  shows "in_class class (mc_file c)"
proof -
  obtain raw warming ms w1 where v: "vector_search sv e (n * 2) repo class w = ((raw, warming, ms), w1)"
    by (metis surj_pair)
  have kept: "mc_file (hydrate_one fs m x) = ci_file (sr_chunk_id x)" for fs m x
    by (simp add: hydrate_one_def Let_def split: prod.split)
  have "c \<in> hydrate_one (texts (disk sv)) (open_dbs sv) ` set raw"
    using assms(2,3) v
    by (auto simp: gather_candidates_def hydrate_candidates_def fence_apply_def apply_query_filters_def base_set_def Let_def
        split: if_splits option.splits)
  then show ?thesis using assms(1) v kept unfolding scans_by_class_def by (metis (no_types, lifting) fst_conv imageE)
qed

lemma merged_files:
  assumes "unstable_sort (chunk_sort sv)" "c \<in> set (merged_candidates sv qo parsed g)"
  shows "(\<exists>b \<in> set (ga_base_chunks g). mc_file c = mc_file b) \<or> mc_file c \<in> ec_file ` set (graph_neighbours qo g)"
proof -
  let ?all = "with_graph (schema_version_for (qo_graph_mode qo) (ga_db_map g)) (ga_db_map g) (ga_base_chunks g)"
  obtain weight where "c \<in> set (merge_weighted (chunk_sort sv) (map (\<lambda>c. (c, weight c)) ?all) (qo_top_k qo))"
    using assms(2) unfolding merged_candidates_def weighted_merge_def Let_def by (rule that)
  from merge_bounds [OF assms(1) this] obtain b where b: "b \<in> set ?all" "mc_file b = mc_file c" by auto
  have "set ?all = set (ga_base_chunks g) \<union> merge_chunk_of ` set (graph_neighbours qo g)"
    by (simp add: with_graph_def graph_neighbours_def split: option.split)
  with b show ?thesis by (auto simp: merge_chunk_of_def image_iff) metis+
qed

lemma code_result_file [simp]: "cr_result_file (code_result_of c stats rel a b body) = mc_file c"
  by (simp add: code_result_of_def)

lemma block_file:
  assumes "r \<in> set (result_blocks chunks numbered stats out k i)"
  shows "\<exists>c \<in> set chunks. cr_result_file r = mc_file c"
proof (cases "i < length chunks")
  case False
  then show ?thesis using assms by (simp add: result_blocks_def nth_opt_def)
next
  case True
  then have "\<forall>r \<in> set (result_blocks chunks numbered stats out k i). cr_result_file r = mc_file (chunks ! i)"
    by (auto simp: result_blocks_def nth_opt_def Let_def split: option.split)
  with assms True show ?thesis by auto
qed

lemma assembled_file:
  "r \<in> set (keep_resolved (assemble chunks numbered stats out)) \<Longrightarrow> \<exists>c \<in> set chunks. cr_result_file r = mc_file c"
  by (auto simp: keep_resolved_def assemble_def dest: block_file)

lemma pre_rerank_file:
  "r \<in> set (keep_resolved (pre_rerank_results chunks numbered stats out)) \<Longrightarrow> \<exists>c \<in> set chunks. cr_result_file r = mc_file c"
  by (auto simp: keep_resolved_def pre_rerank_results_def in_set_enumerate_eq)

lemma rerank_pool:
  assumes "rerank_step sv qo parsed req class w = ((out, pool), w')" "\<not> qo_agentic qo"
  shows "ep_chunks pool = rq_chunks req"
  using assms by (auto simp: rerank_step_def split: bool.splits option.splits)

lemma from_scan_files:
  assumes srt: "unstable_sort (chunk_sort sv)" and scan: "from_scan sv qo parsed class g w q"
    and r: "r \<in> set (qr_pre_rerank q) \<union> (if qo_agentic qo then {} else set (qr_results q))"
  shows "(\<exists>b \<in> set (ga_base_chunks g). cr_result_file r = mc_file b)
    \<or> cr_result_file r \<in> ec_file ` set (graph_neighbours qo g)"
proof -
  have "ga_base_chunks g \<noteq> []" using scan r by (auto simp: from_scan_def split: if_splits)
  then obtain req stats out pool w' where req: "rq_chunks req = merged_candidates sv qo parsed g"
    and step: "rerank_step sv qo parsed req class w = ((out, pool), w')"
    and res: "qr_results q = keep_resolved (assemble (ep_chunks pool) (ep_numbered pool) stats out)"
      "qr_pre_rerank q = keep_resolved (pre_rerank_results (rq_chunks req) (rq_numbered req) stats out)"
    using scan unfolding from_scan_def by auto
  have "\<exists>c \<in> set (rq_chunks req). cr_result_file r = mc_file c"
  proof (cases "r \<in> set (qr_pre_rerank q)")
    case True
    then show ?thesis unfolding res(2) by (rule pre_rerank_file)
  next
    case False
    then have "r \<in> set (qr_results q)" "\<not> qo_agentic qo" using r by (auto split: if_splits)
    then show ?thesis using assembled_file rerank_pool [OF step] unfolding res(1) by metis
  qed
  with merged_files [OF srt] req show ?thesis by metis
qed

text \<open>What is served belongs to the scan of the scope it is labelled with.\<close>

definition scan_scope :: "bool \<Rightarrow> scope_filter option \<Rightarrow> scope_filter option" where
  "scan_scope switched asked = (if switched then map_option filter_opposite asked else asked)"

lemma gather_with_fallback_scan:
  assumes "gather_with_fallback asked fb gather w = (served, w')"
  shows "\<exists>g w1 w2. gather (sv_scope served) w1 = (g, w2)
    \<and> ga_base_chunks (sv_gathered served) = ga_base_chunks g \<and> ga_db_map (sv_gathered served) = ga_db_map g
    \<and> (ga_base_chunks g \<noteq> [] \<longrightarrow> w2 = w')
    \<and> sv_scope served = scan_scope (sv_fallback served) asked \<and> (sv_fallback served \<longrightarrow> fb \<and> asked \<noteq> None)"
proof -
  obtain g1 w1 where g1: "gather asked w = (g1, w1)" by fastforce
  show ?thesis
  proof (cases "sv_fallback served")
    case False
    then have "ga_base_chunks (sv_gathered served) = ga_base_chunks g1" "ga_db_map (sv_gathered served) = ga_db_map g1"
        "ga_base_chunks g1 \<noteq> [] \<longrightarrow> w1 = w'" "sv_scope served = asked"
      using assms g1 by (auto simp: gather_with_fallback_def Let_def split: option.splits if_splits prod.splits)
    with False g1 show ?thesis by (auto simp: scan_scope_def)
  next
    case True
    then obtain f where f: "asked = Some f" and fb
      using assms g1 by (auto simp: gather_with_fallback_def Let_def split: option.splits if_splits prod.splits)
    obtain g2 w2 where g2: "gather (Some (filter_opposite f)) w1 = (g2, w2)" by fastforce
    have "ga_base_chunks (sv_gathered served) = ga_base_chunks g2" "ga_db_map (sv_gathered served) = ga_db_map g2"
        "w2 = w'" "sv_scope served = Some (filter_opposite f)"
      using assms g1 g2 f True by (auto simp: gather_with_fallback_def Let_def split: if_splits)
    with True g2 f \<open>fb\<close> show ?thesis by (auto simp: scan_scope_def)
  qed
qed

lemma merged_candidates_cong:
  "ga_base_chunks g = ga_base_chunks g' \<Longrightarrow> ga_db_map g = ga_db_map g' \<Longrightarrow>
   merged_candidates sv qo parsed g = merged_candidates sv qo parsed g'"
  by (simp add: merged_candidates_def)

lemma once_from_scan:
  assumes "run_query_once sv qo query forced fb w = (Inr q, w')"
    and parsed: "parsed = parse_scoped query (qo_filters qo) forced"
  shows "\<exists>embedding g w1 w2. gather_candidates sv embedding (qo_top_k qo) (qo_repo_filter qo) (pq_filters parsed)
        (scan_scope (qr_scope_fallback q) (filters_scope_filter (pq_filters parsed))) w1 = (g, w2)
    \<and> from_scan sv qo parsed (scan_scope (qr_scope_fallback q) (filters_scope_filter (pq_filters parsed))) g w2 q
    \<and> qr_scope q = scope_name (scan_scope (qr_scope_fallback q) (filters_scope_filter (pq_filters parsed)))
    \<and> (qr_scope_fallback q \<longrightarrow> fb \<and> filters_scope_filter (pq_filters parsed) \<noteq> None)"
proof -
  let ?asked = "filters_scope_filter (pq_filters parsed)"
  obtain embedding served w1 w2 where
    g: "gather_with_fallback ?asked fb
       (gather_candidates sv embedding (qo_top_k qo) (qo_repo_filter qo) (pq_filters parsed)) w1 = (served, w2)"
    and q: "if ga_base_chunks (sv_gathered served) = [] then q = no_candidates qo served \<and> w' = w2
     else rank_and_format sv qo parsed served w2 = (q, w')"
    unfolding parsed by (rule run_query_once_cases [OF assms(1)]) metis
  have named: "qr_scope q = scope_name (sv_scope served)" "qr_scope_fallback q = sv_fallback served"
    using q by (auto simp: no_candidates_def answer_of_def Let_def elim!: rank_cases split: if_splits)
  obtain ga w3 w4 where scan: "gather_candidates sv embedding (qo_top_k qo) (qo_repo_filter qo) (pq_filters parsed)
      (sv_scope served) w3 = (ga, w4)"
    and same: "ga_base_chunks (sv_gathered served) = ga_base_chunks ga" "ga_db_map (sv_gathered served) = ga_db_map ga"
      "ga_base_chunks ga \<noteq> [] \<longrightarrow> w4 = w2"
    and scope: "sv_scope served = scan_scope (sv_fallback served) ?asked" "sv_fallback served \<longrightarrow> fb \<and> ?asked \<noteq> None"
    using gather_with_fallback_scan [OF g] by blast
  have "from_scan sv qo parsed (sv_scope served) ga w4 q"
  proof (cases "ga_base_chunks ga = []")
    case True
    then show ?thesis using q same by (simp add: from_scan_def no_candidates_def)
  next
    case False
    then have "rank_and_format sv qo parsed served w4 = (q, w')" using q same by simp
    then obtain req stats out pool where
      req: "rq_chunks req = merged_candidates sv qo parsed ga" "rerank_step sv qo parsed req (sv_scope served) w4 = ((out, pool), w')"
        "q = answer_of qo served req stats out pool"
      using merged_candidates_cong [OF same(1,2), of sv qo parsed] by (elim rank_cases) simp
    have res: "qr_results q = keep_resolved (assemble (ep_chunks pool) (ep_numbered pool) stats out)"
        "qr_pre_rerank q = keep_resolved (pre_rerank_results (rq_chunks req) (rq_numbered req) stats out)"
      by (simp_all add: req(3) answer_of_def Let_def)
    show ?thesis unfolding from_scan_def if_not_P [OF False]
      by (intro exI) (rule conjI [OF req(1) conjI [OF req(2) conjI [OF res]]])
  qed
  moreover have "scan_scope (qr_scope_fallback q) ?asked = sv_scope served" by (simp add: named scope)
  moreover have "qr_scope_fallback q \<longrightarrow> fb \<and> ?asked \<noteq> None" by (simp add: named scope)
  ultimately show ?thesis using scan named(1) by auto
qed

lemma scope_parse_name: "scope_parse (scope_as_str s) = Some s"
proof (cases s)
  case Code
  show ?thesis unfolding Code by code_simp
next
  case Docs
  show ?thesis unfolding Docs by code_simp
qed

lemma retry_cases:
  assumes "retry_on_rerank_rejection run w = (Inr q, w')"
  obtains (kept) w1 where "run None True w = (Inr q, w1)"
  | (switched) first w1 s second w2 where "run None True w = (Inr first, w1)" "qr_scope first = Some s" "\<not> qr_scope_fallback first"
      "\<not> qr_warming first" "rerank_rejected_all first" "\<exists>served. scope_parse s = Some served
        \<and> run (Some (scope_opposite served)) False w1 = (Inr second, w2)
        \<and> q = second\<lparr>qr_scope := Some (scope_as_str (scope_opposite served)), qr_scope_fallback := True\<rparr>"
      "qr_results second \<noteq> []"
  using assms unfolding retry_on_rerank_rejection_def Let_def
  by (auto split: prod.splits sum.splits option.splits if_splits simp: bind_eq_Some_conv)

lemma scan_scope_forced:
  assumes "filters_scope_filter (pq_filters (parse_query query fs)) = Some f"
  shows "filters_scope_filter (pq_filters (parse_scoped query fs (Some (scope_opposite (sf_scope f))))) = Some (filter_opposite f)"
  using assms
  by (auto simp: parse_scoped_def filters_scope_filter_def filter_opposite_def scope_filter_new_def Let_def split: option.splits)

lemma from_scan_relabelled [simp]:
  "from_scan sv qo parsed class g w (q\<lparr>qr_scope := a, qr_scope_fallback := b\<rparr>) = from_scan sv qo parsed class g w q"
  by (simp add: from_scan_def)

lemma answered_from:
  assumes run: "run_query_with_filters_and_mode sv qo query w = (Inr q, w')"
    and asked: "asked = filters_scope_filter (pq_filters (parse_query query (qo_filters qo)))"
  shows "qr_scope q = scope_name (scan_scope (qr_scope_fallback q) asked) \<and> (qr_scope_fallback q \<longrightarrow> asked \<noteq> None)
    \<and> (\<exists>forced embedding g w1 w2. gather_candidates sv embedding (qo_top_k qo) (qo_repo_filter qo)
          (pq_filters (parse_scoped query (qo_filters qo) forced)) (scan_scope (qr_scope_fallback q) asked) w1 = (g, w2)
        \<and> from_scan sv qo (parse_scoped query (qo_filters qo) forced) (scan_scope (qr_scope_fallback q) asked) g w2 q)
    \<and> (\<exists>first w1. run_query_once sv qo query None True w = (Inr first, w1)
         \<and> (q \<noteq> first \<longrightarrow> rerank_rejected_all first \<and> \<not> qr_warming first \<and> qr_results q \<noteq> []))"
proof -
  have plain: "filters_scope_filter (pq_filters (parse_scoped query (qo_filters qo) None)) = asked"
    by (simp add: asked parse_scoped_def)
  note once = once_from_scan [OF _ refl, of sv qo query None True w, unfolded plain]
  from run have r: "retry_on_rerank_rejection (run_query_once sv qo query) w = (Inr q, w')"
    by (simp add: run_query_with_filters_and_mode_def)
  show ?thesis
  proof (cases rule: retry_cases [OF r])
    case (1 w1)
    from once [OF 1] 1 show ?thesis by blast
  next
    case (2 first w1 s second w2)
    from once [OF 2(1)] have "qr_scope first = scope_name (scan_scope (qr_scope_fallback first) asked)" by blast
    with 2(2,3) obtain f where f: "asked = Some f" "s = scope_as_str (sf_scope f)"
      by (cases asked) (auto simp: scan_scope_def scope_name_def)
    then have second: "run_query_once sv qo query (Some (scope_opposite (sf_scope f))) False w1 = (Inr second, w2)"
      and q: "q = second\<lparr>qr_scope := Some (scope_as_str (scope_opposite (sf_scope f))), qr_scope_fallback := True\<rparr>"
      using 2(6) by (auto simp: scope_parse_name)
    have "filters_scope_filter (pq_filters (parse_scoped query (qo_filters qo) (Some (scope_opposite (sf_scope f)))))
        = Some (filter_opposite f)"
      using scan_scope_forced f(1) asked by metis
    note scan = once_from_scan [OF second refl, unfolded this]
    from scan have "\<not> qr_scope_fallback second" by blast
    with scan have scanned: "\<exists>embedding g w1 w2. gather_candidates sv embedding (qo_top_k qo) (qo_repo_filter qo)
          (pq_filters (parse_scoped query (qo_filters qo) (Some (scope_opposite (sf_scope f))))) (Some (filter_opposite f)) w1 = (g, w2)
        \<and> from_scan sv qo (parse_scoped query (qo_filters qo) (Some (scope_opposite (sf_scope f)))) (Some (filter_opposite f)) g w2 q"
      by (simp add: q scan_scope_def) blast
    have switched: "scan_scope (qr_scope_fallback q) asked = Some (filter_opposite f)"
      by (simp add: q f scan_scope_def)
    have "qr_scope q = scope_name (Some (filter_opposite f))" "asked \<noteq> None" "qr_results q \<noteq> []"
      by (simp_all add: q f 2(7) scope_name_def filter_opposite_def)
    with scanned 2(1,4,5) show ?thesis unfolding switched by blast
  qed
qed

text \<open>C22: An answer names the scope it was found in. An unscoped query is never switched; a scoped one is
  answered from the requested class, or from the other one with the flag set. The answer is the ranking of
  the candidates of one scan with the filter of exactly that class (and the agent, if any, searches with
  that filter too); so, given that a scan with a class filter finds rows of the class only, every candidate
  of the ranking, and without the agent every result, lies in a file of the class the answer names or is a
  call-graph neighbour of a candidate of that scan (there are none without the call graph). A first answer
  is only replaced when it was complete and the reranker rejected everything in it, and then by a
  non-empty one.\<close>

theorem answered_scope:
  assumes run: "run_query_with_filters_and_mode sv qo query w = (Inr q, w')"
    and scans: "scans_by_class sv" and srt: "unstable_sort (chunk_sort sv)"
  defines "asked \<equiv> filters_scope_filter (pq_filters (parse_query query (qo_filters qo)))"
  shows "qr_scope q = map_option (\<lambda>f. scope_as_str (if qr_scope_fallback q then scope_opposite (sf_scope f) else sf_scope f)) asked
    \<and> (qr_scope_fallback q \<longrightarrow> asked \<noteq> None)
    \<and> (\<exists>class. class = (if qr_scope_fallback q then map_option filter_opposite asked else asked)
         \<and> (\<exists>forced embedding g w1 w2.
              gather_candidates sv embedding (qo_top_k qo) (qo_repo_filter qo)
                (pq_filters (parse_scoped query (qo_filters qo) forced)) class w1 = (g, w2)
              \<and> from_scan sv qo (parse_scoped query (qo_filters qo) forced) class g w2 q
              \<and> (\<forall>r \<in> set (qr_pre_rerank q) \<union> (if qo_agentic qo then {} else set (qr_results q)).
                   in_class class (cr_result_file r) \<or> cr_result_file r \<in> ec_file ` set (graph_neighbours qo g))))
    \<and> (\<exists>first w1. run_query_once sv qo query None True w = (Inr first, w1)
         \<and> (q \<noteq> first \<longrightarrow> rerank_rejected_all first \<and> \<not> qr_warming first \<and> qr_results q \<noteq> []))"
proof -
  have asked: "asked = filters_scope_filter (pq_filters (parse_query query (qo_filters qo)))" by (simp add: asked_def)
  have scanned: "scan_scope (qr_scope_fallback q) asked = (if qr_scope_fallback q then map_option filter_opposite asked else asked)"
    by (simp add: scan_scope_def)
  have name: "scope_name (if qr_scope_fallback q then map_option filter_opposite asked else asked)
      = map_option (\<lambda>f. scope_as_str (if qr_scope_fallback q then scope_opposite (sf_scope f) else sf_scope f)) asked"
    by (cases asked) (simp_all add: scope_name_def filter_opposite_def)
  have files: "in_class cl (cr_result_file r) \<or> cr_result_file r \<in> ec_file ` set (graph_neighbours qo g)"
    if "gather_candidates sv e n repo fs cl w1 = (g, w2)" "from_scan sv qo parsed cl g w2 q"
      "r \<in> set (qr_pre_rerank q) \<union> (if qo_agentic qo then {} else set (qr_results q))"
    for e n repo fs cl w1 g w2 parsed r
    using from_scan_files [OF srt that(2,3)] gathered_in_class [OF scans that(1)] by metis
  note a = answered_from [OF run asked, unfolded scanned name]
  from a obtain forced embedding g w1 w2 where scan: "gather_candidates sv embedding (qo_top_k qo) (qo_repo_filter qo)
          (pq_filters (parse_scoped query (qo_filters qo) forced)) (if qr_scope_fallback q then map_option filter_opposite asked else asked) w1 = (g, w2)"
      "from_scan sv qo (parse_scoped query (qo_filters qo) forced) (if qr_scope_fallback q then map_option filter_opposite asked else asked) g w2 q"
    by blast
  show ?thesis
    by (intro conjI exI [of _ "if qr_scope_fallback q then map_option filter_opposite asked else asked"]
        exI [of _ forced] exI [of _ embedding] exI [of _ g] exI [of _ w1] exI [of _ w2] ballI refl scan files [OF scan]
        a [THEN conjunct1] a [THEN conjunct2, THEN conjunct1] a [THEN conjunct2, THEN conjunct2, THEN conjunct2])
qed

section \<open>The work of a query\<close>

text \<open>The counts of model turns and of vector scans that the services keep in the world.\<close>

definition counts_services :: "'w services \<Rightarrow> ('w \<Rightarrow> nat) \<Rightarrow> ('w \<Rightarrow> nat) \<Rightarrow> bool" where
  "counts_services sv turns searches \<longleftrightarrow>
     (\<forall>t w. turns (snd (embed_query sv t w)) = turns w \<and> searches (snd (embed_query sv t w)) = searches w)
     \<and> (\<forall>e n r c w. turns (snd (vector_search sv e n r c w)) = turns w \<and> searches (snd (vector_search sv e n r c w)) = Suc (searches w))
     \<and> (\<forall>s ms f w. turns (snd (llm_turn sv s ms f w)) = Suc (turns w) \<and> searches (snd (llm_turn sv s ms f w)) = searches w)"

lemma counts_live:
  assumes "counts_services sv turns searches"
  shows "counts_backend (live_backend sv query repo g c) turns searches"
  using assms unfolding counts_backend_def counts_services_def live_backend_def run_sub_query_def
  by (auto simp: Let_def split: prod.splits sum.splits) (metis snd_conv)+


lemma retry_snd:
  assumes "run None True w = (r1, w1)"
  obtains "snd (retry_on_rerank_rejection run w) = w1"
  | first s where "r1 = Inr first" "\<not> qr_scope_fallback first" "rerank_rejected_all first"
      "snd (retry_on_rerank_rejection run w) = snd (run (Some s) False w1)"
proof (cases "\<exists>first s. r1 = Inr first \<and> Option.bind (qr_scope first) scope_parse = Some s
    \<and> \<not> qr_scope_fallback first \<and> \<not> qr_warming first \<and> rerank_rejected_all first")
  case True
  then obtain first s where f: "r1 = Inr first" "Option.bind (qr_scope first) scope_parse = Some s"
    "\<not> qr_scope_fallback first" "\<not> qr_warming first" "rerank_rejected_all first" by blast
  obtain r2 w2 where r2: "run (Some (scope_opposite s)) False w1 = (r2, w2)" by fastforce
  have "snd (retry_on_rerank_rejection run w) = w2"
    using f r2 assms by (cases r2) (simp_all add: retry_on_rerank_rejection_def Let_def)
  then show thesis using that(2) [of first "scope_opposite s"] f r2 by simp
next
  case False
  then have "snd (retry_on_rerank_rejection run w) = w1"
    using assms by (auto simp: retry_on_rerank_rejection_def Let_def split: sum.split option.split)
  then show thesis by (rule that(1))
qed

lemma retry_returns:
  assumes "\<And>s fb w. \<exists>q w'. run s fb w = (Inr q, w')"
  shows "\<exists>q w'. retry_on_rerank_rejection run w = (Inr q, w')"
proof -
  obtain first w1 where first: "run None True w = (Inr first, w1)" using assms by blast
  have "\<exists>q w'. run (Some s) False w1 = (Inr q, w')" for s using assms by blast
  then show ?thesis
    by (fastforce simp: retry_on_rerank_rejection_def first Let_def split: prod.split option.split sum.split)
qed

lemma gather_counts:
  assumes "counts_services sv turns searches"
  shows "turns (snd (gather_candidates sv e n r f c w)) = turns w \<and> searches (snd (gather_candidates sv e n r f c w)) = Suc (searches w)"
  using assms unfolding counts_services_def gather_candidates_def
  by (auto simp: Let_def split: prod.splits) (metis snd_conv)+

lemma fallback_counts:
  assumes "\<And>c w. turns (snd (gather c w)) = turns w \<and> searches (snd (gather c w)) = Suc (searches w)"
    and "gather_with_fallback requested fb gather w = (served, w')"
  shows "turns w' = turns w \<and> searches w' \<le> searches w + (if fb then 2 else 1)
    \<and> (\<not> sv_fallback served \<and> ga_base_chunks (sv_gathered served) \<noteq> [] \<longrightarrow> searches w' \<le> searches w + 1)"
proof -
  obtain g1 w1 where g1: "gather requested w = (g1, w1)" by (cases "gather requested w")
  have c1: "turns w1 = turns w" "searches w1 = Suc (searches w)" using assms(1) [of requested w] g1 by simp_all
  have c2: "turns w2 = turns w1 \<and> searches w2 = Suc (searches w1)" if "gather c w1 = (g2, w2)" for c g2 w2
    using assms(1) [of c w1] that by simp
  show ?thesis
    using assms(2) g1 c1 c2
    by (auto simp: gather_with_fallback_def Let_def split: option.splits if_splits prod.splits)
qed

definition turn_cap :: "query_options \<Rightarrow> nat" where
  "turn_cap qo = (if qo_agentic qo then max (4 * max (qo_max_turns qo) 1) 12 + 1 else 0)"

definition search_cap :: "query_options \<Rightarrow> nat" where
  "search_cap qo = (if qo_agentic qo then max (qo_max_turns qo) 1 else 0)"

lemma agentic_counts:
  assumes "unstable_sort (lh_sort h)" "length (rq_numbered req) = length (rq_chunks req)" "counts_backend b turns searches"
  shows "turns (snd (run_agentic_loop h b req max_turns max_chars grep w)) \<le> turns w + max (4 * max max_turns 1) 12 + 1
    \<and> searches (snd (run_agentic_loop h b req max_turns max_chars grep w)) \<le> searches w + max max_turns 1"
proof (cases "rq_chunks req = []")
  case True
  then show ?thesis by (simp add: run_agentic_loop_def)
next
  case False
  show ?thesis
    by (rule run_agentic_within [OF assms(1,2) False, of b max_turns max_chars grep w turns searches])
       (use assms(3) in \<open>auto simp: max_iterations_def mult.commute\<close>)
qed

lemma rerank_step_counts:
  assumes "counts_services sv turns searches" "unstable_sort (lh_sort (host_of sv))" "length (rq_numbered req) = length (rq_chunks req)"
  shows "turns (snd (rerank_step sv qo parsed req sc w)) \<le> turns w + turn_cap qo
    \<and> searches (snd (rerank_step sv qo parsed req sc w)) \<le> searches w + search_cap qo"
proof -
  have "turns (snd (run_agentic_loop (host_of sv) (live_backend sv parsed repo g c) req (qo_max_turns qo) n gr w)) \<le> turns w + turn_cap qo
    \<and> searches (snd (run_agentic_loop (host_of sv) (live_backend sv parsed repo g c) req (qo_max_turns qo) n gr w)) \<le> searches w + search_cap qo"
    if "qo_agentic qo" for repo g c n gr
    using agentic_counts [OF assms(2,3) counts_live [OF assms(1)]] that
    by (simp add: turn_cap_def search_cap_def)
  then show ?thesis by (auto simp: rerank_step_def split: bool.split option.split)
qed

lemma rank_counts:
  assumes "counts_services sv turns searches" "unstable_sort (lh_sort (host_of sv))"
    and "rank_and_format sv qo parsed served w = (q, w')"
  shows "turns w' \<le> turns w + turn_cap qo \<and> searches w' \<le> searches w + search_cap qo
    \<and> qr_scope_fallback q = sv_fallback served"
proof -
  obtain req stats out pool where req: "length (rq_numbered req) = length (rq_chunks req)"
      and step: "rerank_step sv qo parsed req (sv_scope served) w = ((out, pool), w')"
      and q: "q = answer_of qo served req stats out pool"
    using assms(3) by (elim rank_cases)
  have flag: "qr_scope_fallback q = sv_fallback served" by (simp add: q answer_of_def Let_def)
  show ?thesis using rerank_step_counts [OF assms(1,2) req, of qo parsed "sv_scope served" w] step flag by simp
qed

lemma once_counts:
  assumes counts: "counts_services sv turns searches" and srt: "unstable_sort (lh_sort (host_of sv))"
  shows "turns (snd (run_query_once sv qo query forced fb w)) \<le> turns w + turn_cap qo
    \<and> searches (snd (run_query_once sv qo query forced fb w)) \<le> searches w + (if fb then 2 else 1) + search_cap qo
    \<and> (\<forall>q. fst (run_query_once sv qo query forced fb w) = Inr q \<and> \<not> qr_scope_fallback q \<and> qr_rerank q \<noteq> None
        \<longrightarrow> searches (snd (run_query_once sv qo query forced fb w)) \<le> searches w + 1 + search_cap qo)"
proof -
  let ?p = "parse_scoped query (qo_filters qo) forced"
  obtain e w1 where e: "embed_query sv (pq_text ?p) w = (e, w1)" by fastforce
  have w1: "turns w1 = turns w" "searches w1 = searches w"
    using counts e unfolding counts_services_def by (metis snd_conv)+
  show ?thesis
  proof (cases "\<exists>v. e = Inr v \<and> v \<noteq> []")
    case False
    then show ?thesis using e w1 by (auto simp: run_query_once_def Let_def split: sum.split)
  next
    case True
    then obtain v where v: "e = Inr v" "v \<noteq> []" by blast
    obtain served w2 where g: "gather_with_fallback (filters_scope_filter (pq_filters ?p)) fb
        (gather_candidates sv v (qo_top_k qo) (qo_repo_filter qo) (pq_filters ?p)) w1 = (served, w2)" by fastforce
    note gc = fallback_counts [OF gather_counts [OF counts] g]
    show ?thesis
    proof (cases "ga_base_chunks (sv_gathered served) = []")
      case True
      then show ?thesis using e v g gc w1 by (simp add: run_query_once_def Let_def no_candidates_def)
    next
      case False
      obtain q w3 where r: "rank_and_format sv qo ?p served w2 = (q, w3)" by fastforce
      from rank_counts [OF counts srt r] show ?thesis using e v g gc w1 False r
        by (auto simp: run_query_once_def Let_def)
    qed
  qed
qed

text \<open>C23: The work of a query is bounded, whatever the index and the model answer: at most two vector scans
  of the pipeline itself, however fallback and retry combine; with the agent at most its allowance of searches
  and of model turns, for each of the two runs.\<close>

theorem query_work_bounded:
  assumes counts: "counts_services sv turns searches" and srt: "unstable_sort (lh_sort (host_of sv))"
  shows "searches (snd (run_query_with_filters_and_mode sv qo query w)) \<le> searches w + 2 + 2 * search_cap qo
    \<and> turns (snd (run_query_with_filters_and_mode sv qo query w)) \<le> turns w + 2 * turn_cap qo"
proof -
  let ?run = "run_query_once sv qo query"
  obtain r1 w1 where r1: "?run None True w = (r1, w1)" by fastforce
  note c1 = once_counts [OF counts srt, of qo query None True w, unfolded r1, simplified]
  consider "snd (run_query_with_filters_and_mode sv qo query w) = w1"
    | first s where "r1 = Inr first" "\<not> qr_scope_fallback first" "rerank_rejected_all first"
        "snd (run_query_with_filters_and_mode sv qo query w) = snd (?run (Some s) False w1)"
    using retry_snd [of ?run w r1 w1 thesis, OF r1] unfolding run_query_with_filters_and_mode_def by blast
  then show ?thesis
  proof cases
    case 1
    then show ?thesis using c1 by auto
  next
    case (2 first s)
    have "qr_rerank first \<noteq> None" using 2(3) by (cases "qr_rerank first") (simp_all add: rerank_rejected_all_def)
    then show ?thesis using c1 2 once_counts [OF counts srt, of qo query "Some s" False w1] by auto
  qed
qed


section \<open>A small index\<close>

definition demo_services :: "(nat \<times> nat) services" where
  "demo_services =
     \<lparr>embed_query = (\<lambda>_ w. (Inr [f32_one], w)),
      vector_search = (\<lambda>_ _ _ class (t, s).
        ((filter (\<lambda>r. in_class class (ci_file (sr_chunk_id r)))
            [\<lparr>sr_chunk_id = \<lparr>ci_file = ''/r/a.rs'', ci_line_start = 1, ci_line_end = 3\<rparr>, sr_score = f32_one\<rparr>], False, 1),
         (t, Suc s))),
      llm_turn = (\<lambda>_ _ _ (t, s). (Inl ''offline'', (Suc t, s))),
      open_dbs = [(''/r'', demo_db)], disk = demo_world, host_of = demo_llm_host, print_json = (\<lambda>_. []),
      chunk_sort = sort_by\<rparr>"

definition demo_options :: query_options where
  "demo_options =
     \<lparr>qo_top_k = 5, qo_repo_filter = None, qo_min_prune_lines = 0, qo_provider = Off, qo_agentic = False, qo_max_turns = 3,
      qo_max_chunk_chars = 0, qo_grep_read = False, qo_filters = None, qo_graph_mode = VectorOnly\<rparr>"

lemma demo_services_ok:
  "counts_services demo_services fst snd" "unstable_sort (chunk_sort demo_services)"
  "unstable_sort (lh_sort (host_of demo_services))" "scans_by_class demo_services"
  by (simp_all add: demo_services_def counts_services_def case_prod_beta unstable_sort_sort_by demo_llm_host_def scans_by_class_def)

lemma once_returns:
  "embed_query sv (pq_text (parse_scoped query (qo_filters qo) forced)) w = (Inr (x # v), w1) \<Longrightarrow>
     \<exists>q w'. run_query_once sv qo query forced fb w = (Inr q, w')"
  by (auto simp: run_query_once_def Let_def split: prod.split)

lemma empty_answer_explained_witness:
  "\<exists>q w'. run_query_once demo_services demo_options ''where is f'' None True (0, 0) = (Inr q, w')
     \<and> (\<forall>r \<in> set (qr_results q). \<not> is_unresolved_content (cr_text r))"
proof -
  have "embed_query demo_services t w = (Inr [f32_one], w)" for t w by (simp add: demo_services_def)
  from once_returns [OF this] obtain q w' where
    run: "run_query_once demo_services demo_options ''where is f'' None True (0, 0) = (Inr q, w')" by blast
  have "0 < qo_top_k demo_options" by (simp add: demo_options_def)
  from empty_answer_explained [OF demo_services_ok(2,3) this run] run show ?thesis by blast
qed

lemma answered_scope_witness:
  "\<exists>q w'. run_query_with_filters_and_mode demo_services demo_options ''scope:docs where'' (0, 0) = (Inr q, w')
     \<and> qr_scope q = Some (if qr_scope_fallback q then ''code'' else ''docs'')"
proof -
  have "embed_query demo_services t w = (Inr [f32_one], w)" for t w by (simp add: demo_services_def)
  from once_returns [OF this] have once: "\<exists>q w'. run_query_once demo_services demo_options ''scope:docs where'' forced fb w = (Inr q, w')"
    for forced fb w by blast
  obtain q w' where run: "run_query_with_filters_and_mode demo_services demo_options ''scope:docs where'' (0, 0) = (Inr q, w')"
    using retry_returns [of "run_query_once demo_services demo_options ''scope:docs where''" "(0, 0)"] once
    unfolding run_query_with_filters_and_mode_def by blast
  have "qf_scope (pq_filters (parse_query ''scope:docs where'' (qo_filters demo_options))) = Some Docs" by code_simp
  then obtain f where "filters_scope_filter (pq_filters (parse_query ''scope:docs where'' (qo_filters demo_options))) = Some f" "sf_scope f = Docs"
    by (auto simp: filters_scope_filter_def scope_filter_new_def split: option.splits)
  with answered_scope [OF run demo_services_ok(4,2)] run show ?thesis by (auto simp: scope_as_str_def scope_opposite_def)
qed

lemma query_work_bounded_witness:
  "snd (snd (run_query_with_filters_and_mode demo_services demo_options ''where is f'' (0, 0))) \<le> 2
   \<and> fst (snd (run_query_with_filters_and_mode demo_services demo_options ''where is f'' (0, 0))) = 0"
  using query_work_bounded [OF demo_services_ok(1,3), of demo_options "''where is f''" "(0, 0)"]
  by (simp add: search_cap_def turn_cap_def demo_options_def)

section \<open>Where the filters stop\<close>

text \<open>The neighbours that graph expansion adds are not filtered: with \<open>path:a.rs\<close> the kept base is one chunk
  of \<open>a.rs\<close>, and the pool of the ranking, here and in the agent's own searches, holds a chunk of \<open>b.rs\<close> too.\<close>

lemma expansion_passes_filters:
  "apply_query_filters [demo_base] (filters_default\<lparr>path_filters := [''a.rs'']\<rparr>) = [demo_base]"
  "map mc_file (with_graph (Some 2) [(''/r'', demo_db)] [demo_base]) = [''/r/a.rs'', ''/r/b.rs'']"
  "apply_query_filters (with_graph (Some 2) [(''/r'', demo_db)] [demo_base]) (filters_default\<lparr>path_filters := [''a.rs'']\<rparr>) = [demo_base]"
  by code_simp+


section \<open>Counts and names\<close>

text \<open>Callees with one short name are counted apart and displayed once.\<close>

lemma count_exceeds_names:
  defines "row \<equiv> \<lambda>callee. \<lparr>cl_in = ''c'', cl_out = callee, cl_in_file = ''/r/c.rs'', cl_out_file = ''/r/a.rs'',
    cl_in_name = Some ''c'', cl_out_name = Some callee\<rparr>"
  shows "map_option (\<lambda>s. (cs_callee_count s, cs_callee_names s, format_callee_tag s))
      (query_caller_callee_stats (demo_db\<lparr>db_calls := [row ''a::f'', row ''b::f'']\<rparr>) ''c'' ''/r/c.rs'' 2)
    = Some (2, [''f''], '' [calls: f +1 more]'')"
  unfolding row_def by code_simp

end
