(* ===== verification/Settings.thy ===== *)
theory Settings
  imports Json Filters Paths Encoding "HOL-Library.Monad_Syntax"
begin

text \<open>
  The settings (\<open>src/config.rs\<close>): their structs, the defaults, and how they are read from and written to JSON.

  \<open>serde\<close>'s derived readers and writers are written out field by field: a missing field takes its default,
  an optional one is \<open>null\<close> or absent, unknown fields are ignored. (A struct given as an array by position
  is outside the model.)
\<close>

section \<open>Readers and writers of values\<close>

type_synonym fields = "(str \<times> json) list"

text \<open>A writer and a reader that undo each other on the values of a type, none of them written as \<open>null\<close>.\<close>

locale json_codec =
  fixes enc :: "'a \<Rightarrow> json" and dec :: "json \<Rightarrow> 'a option" and ok :: "'a \<Rightarrow> bool"
  assumes dec_enc: "ok x \<Longrightarrow> dec (enc x) = Some x"
    and enc_not_null: "enc x \<noteq> JNull"
    and dec_ok: "dec v = Some x \<Longrightarrow> ok x"

definition enc_opt :: "('a \<Rightarrow> json) \<Rightarrow> 'a option \<Rightarrow> json" where
  "enc_opt enc x = (case x of Some y \<Rightarrow> enc y | None \<Rightarrow> JNull)"

definition dec_opt :: "(json \<Rightarrow> 'a option) \<Rightarrow> json \<Rightarrow> 'a option option" where
  "dec_opt dec v = (if v = JNull then Some None else map_option Some (dec v))"

definition dec_list :: "(json \<Rightarrow> 'a option) \<Rightarrow> json \<Rightarrow> 'a list option" where
  "dec_list dec v = (case v of JArray xs \<Rightarrow> those (map dec xs) | _ \<Rightarrow> None)"

definition enc_list :: "('a \<Rightarrow> json) \<Rightarrow> 'a list \<Rightarrow> json" where
  "enc_list enc xs = JArray (map enc xs)"

definition dec_map :: "(json \<Rightarrow> 'a option) \<Rightarrow> json \<Rightarrow> (str \<times> 'a) list option" where
  "dec_map dec v = (case v of JObject m \<Rightarrow> those (map (\<lambda>(k, x). map_option (Pair k) (dec x)) m) | _ \<Rightarrow> None)"

definition enc_map :: "('a \<Rightarrow> json) \<Rightarrow> (str \<times> 'a) list \<Rightarrow> json" where
  "enc_map enc m = JObject (map (\<lambda>(k, x). (k, enc x)) m)"

definition dec_uint :: "nat \<Rightarrow> json \<Rightarrow> nat option" where
  "dec_uint w v = Option.bind (as_u64 v) (\<lambda>n. if n < 2 ^ w then Some n else None)"

definition enc_int :: "int \<Rightarrow> json" where
  "enc_int i = (if 0 \<le> i then JUInt (nat i) else JNumber (CHR ''-'' # show_nat (nat (- i))))"

definition dec_i64 :: "json \<Rightarrow> int option" where
  "dec_i64 v =
     (case v of
        JUInt n \<Rightarrow> if n < 2 ^ 63 then Some (int n) else None
      | JNumber (c # ds) \<Rightarrow>
          (case (if c = CHR ''-'' then parse_u64 ds else None) of
             Some n \<Rightarrow> if 0 < n \<and> n \<le> 2 ^ 63 then Some (- int n) else None
           | None \<Rightarrow> None)
      | _ \<Rightarrow> None)"

definition required :: "str \<Rightarrow> (json \<Rightarrow> 'a option) \<Rightarrow> fields \<Rightarrow> 'a option" where
  "required k dec m = Option.bind (map_of m k) dec"

definition defaulted :: "str \<Rightarrow> (json \<Rightarrow> 'a option) \<Rightarrow> 'a \<Rightarrow> fields \<Rightarrow> 'a option" where
  "defaulted k dec d m = (case map_of m k of Some v \<Rightarrow> dec v | None \<Rightarrow> Some d)"

lemma those_Some: "those xs = Some ys \<longleftrightarrow> xs = map Some ys"
  by (induction xs arbitrary: ys) (auto split: option.splits simp: map_eq_Cons_conv)

context json_codec
begin

lemma opt_round: "pred_option ok x \<Longrightarrow> dec_opt dec (enc_opt enc x) = Some x"
  by (cases x) (simp_all add: dec_opt_def enc_opt_def enc_not_null dec_enc)

lemma list_round: "list_all ok xs \<Longrightarrow> dec_list dec (enc_list enc xs) = Some xs"
  by (simp add: dec_list_def enc_list_def those_Some list_all_iff dec_enc)

lemma map_round: "list_all (ok \<circ> snd) m \<Longrightarrow> dec_map dec (enc_map enc m) = Some m"
  by (auto simp: dec_map_def enc_map_def those_Some list_all_iff dec_enc)

lemma opt_ok: "dec_opt dec v = Some x \<Longrightarrow> pred_option ok x"
  by (auto simp: dec_opt_def dec_ok split: if_splits)

lemma those_ok: "map dec xs = map Some ys \<Longrightarrow> list_all ok ys"
  by (induction xs arbitrary: ys) (auto simp: Cons_eq_map_conv dec_ok)

lemma list_ok: "dec_list dec v = Some xs \<Longrightarrow> list_all ok xs"
  by (auto simp: dec_list_def those_Some those_ok split: json.splits)

lemma required_ok: "required k dec m = Some x \<Longrightarrow> ok x"
  by (auto simp: required_def bind_eq_Some_conv dec_ok)

lemma defaulted_ok: "defaulted k dec d m = Some x \<Longrightarrow> ok d \<Longrightarrow> ok x"
  by (auto simp: defaulted_def dec_ok split: option.splits)

lemma opt_defaulted_ok: "defaulted k (dec_opt dec) None m = Some x \<Longrightarrow> pred_option ok x"
  by (auto simp: defaulted_def opt_ok split: option.splits)

lemma map_ok: "dec_map dec v = Some m \<Longrightarrow> list_all (ok \<circ> snd) m"
  by (auto simp: dec_map_def those_Some split: json.splits)
    (induction m arbitrary: v rule: list.induct; force simp: Cons_eq_map_conv dec_ok)

end

interpretation str_codec: json_codec JString as_str "\<lambda>_. True"
  by unfold_locales (auto elim: as_str.elims)

interpretation bool_codec: json_codec JBool as_bool "\<lambda>_. True"
  by unfold_locales (auto elim: as_bool.elims)

interpretation u32_codec: json_codec JUInt "dec_uint 32" "\<lambda>n. n < 2 ^ 32"
  by unfold_locales (auto simp: dec_uint_def bind_eq_Some_conv split: if_splits)

interpretation u64_codec: json_codec JUInt "dec_uint 64" "\<lambda>n. n < 2 ^ 64"
  by unfold_locales (auto simp: dec_uint_def bind_eq_Some_conv split: if_splits)

interpretation i64_codec: json_codec enc_int dec_i64 "\<lambda>i. - (2 ^ 63) \<le> i \<and> i < 2 ^ 63"
proof
  fix i :: int
  assume i: "- (2 ^ 63) \<le> i \<and> i < 2 ^ 63"
  show "dec_i64 (enc_int i) = Some i"
  proof (cases "0 \<le> i")
    case True
    then have "nat i < 2 ^ 63" using i by (simp add: nat_less_iff)
    then show ?thesis using True by (simp add: enc_int_def dec_i64_def)
  next
    case False
    then have n: "0 < nat (- i)" "nat (- i) \<le> 2 ^ 63" using i by (simp_all add: nat_le_iff)
    then have "nat (- i) < 2 ^ 64" by simp
    with n False show ?thesis by (simp add: enc_int_def dec_i64_def parse_show_nat)
  qed
qed (auto simp: enc_int_def dec_i64_def split: json.splits list.splits if_splits option.splits)

section \<open>Data\<close>

definition CURRENT_VERSION :: nat where "CURRENT_VERSION = 15"

definition default_index_ignore_filenames :: "str list" where
  "default_index_ignore_filenames = [''CLAUDE.md'', ''AGENTS.md'']"

definition default_embed_concurrency :: nat where "default_embed_concurrency = 64"
definition default_vector_resident_cap_mb :: nat where "default_vector_resident_cap_mb = 2048"
definition default_worker_idle_secs :: nat where "default_worker_idle_secs = 300"
definition default_min_prune_lines :: nat where "default_min_prune_lines = 16"
definition default_agentic_rag_max_turns :: nat where "default_agentic_rag_max_turns = 9"
definition default_agentic_rag_max_chunk_chars :: nat where "default_agentic_rag_max_chunk_chars = 50000"
definition DEFAULT_MCP_INDEX_WAIT_SECS :: nat where "DEFAULT_MCP_INDEX_WAIT_SECS = 50"
definition DEFAULT_MCP_STALE_AFTER_DAYS :: nat where "DEFAULT_MCP_STALE_AFTER_DAYS = 7"
definition default_enabled_mcp_tools :: "str list" where "default_enabled_mcp_tools = [''codebase-retrieval'']"

record embedding_config =
  em_provider :: str
  em_model :: str
  em_api_keys :: "str list"
  em_embed_concurrency :: nat
  em_voyage_base_url :: "str option"
  em_dimensions :: "nat option"

record chat_endpoint =
  ce_provider :: str
  ce_base_url :: str
  ce_api_key :: str
  ce_models :: "str list"
  ce_force_tool_use :: bool

record llm_config =
  lc_provider :: str
  lc_rerank_model :: str
  lc_api_keys :: "str list"
  lc_rerank_min_prune_lines :: nat
  lc_use_structured_output :: bool
  lc_agentic_rag :: bool
  lc_agentic_rag_max_turns :: nat
  lc_agentic_rag_max_chunk_chars :: nat
  lc_agentic_rag_grep_read :: bool
  lc_openai_base_url :: "str option"
  lc_openai_force_tool_use :: bool
  lc_chat_custom_endpoints :: "chat_endpoint list"
  lc_rerank_provider :: "str option"
  lc_jev_api_keys :: "str list"
  lc_jev_base_url :: "str option"

record purchased_plan =
  pp_invoice :: str
  pp_proxy_key :: str
  pp_base_url :: str
  pp_package_name :: str
  pp_purchased_at :: "int option"
  pp_expires_at :: "int option"
  pp_is_free_trial :: bool

record settings =
  st_version :: nat
  st_repos :: "str list"
  st_embedding :: embedding_config
  st_llm :: llm_config
  st_mcp_index_wait_secs :: nat
  st_mcp_stale_after_days :: nat
  st_vector_resident_cap_mb :: nat
  st_worker_idle_secs :: nat
  st_data_dir :: "str option"
  st_embeddings_dir :: "str option"
  st_enabled_mcp_tools :: "str list"
  st_custom_extensions :: "str list"
  st_docs_extensions :: "str list"
  st_index_ignore_filenames :: "str list"
  st_repo_generations :: "(str \<times> nat) list"
  st_machine_id :: "str option"
  st_purchased_plans :: "purchased_plan list"

definition default_embedding :: embedding_config where
  "default_embedding = \<lparr>em_provider = ''voyage'', em_model = ''voyage-4-lite'', em_api_keys = [],
     em_embed_concurrency = default_embed_concurrency, em_voyage_base_url = None, em_dimensions = None\<rparr>"

definition default_llm :: llm_config where
  "default_llm = \<lparr>lc_provider = ''google'', lc_rerank_model = ''gemini-3.1-flash-lite'', lc_api_keys = [],
     lc_rerank_min_prune_lines = default_min_prune_lines, lc_use_structured_output = True, lc_agentic_rag = False,
     lc_agentic_rag_max_turns = default_agentic_rag_max_turns,
     lc_agentic_rag_max_chunk_chars = default_agentic_rag_max_chunk_chars, lc_agentic_rag_grep_read = True,
     lc_openai_base_url = None, lc_openai_force_tool_use = False, lc_chat_custom_endpoints = [],
     lc_rerank_provider = None, lc_jev_api_keys = [], lc_jev_base_url = None\<rparr>"

definition default_settings :: settings where
  "default_settings = \<lparr>st_version = CURRENT_VERSION, st_repos = [], st_embedding = default_embedding, st_llm = default_llm,
     st_mcp_index_wait_secs = DEFAULT_MCP_INDEX_WAIT_SECS, st_mcp_stale_after_days = DEFAULT_MCP_STALE_AFTER_DAYS,
     st_vector_resident_cap_mb = default_vector_resident_cap_mb, st_worker_idle_secs = default_worker_idle_secs,
     st_data_dir = None, st_embeddings_dir = None, st_enabled_mcp_tools = default_enabled_mcp_tools,
     st_custom_extensions = [], st_docs_extensions = default_docs_extensions,
     st_index_ignore_filenames = default_index_ignore_filenames, st_repo_generations = [], st_machine_id = None,
     st_purchased_plans = []\<rparr>"

text \<open>The effective rerank provider.\<close>

definition effective_rerank_provider :: "llm_config \<Rightarrow> str" where
  "effective_rerank_provider c =
     (case map_option trim (lc_rerank_provider c) of
        Some p \<Rightarrow> if p = [] then lc_provider c else p
      | None \<Rightarrow> lc_provider c)"

section \<open>Reading and writing the data\<close>

definition embedding_of :: "fields \<Rightarrow> embedding_config option" where
  "embedding_of m = do {
     provider \<leftarrow> required ''provider'' as_str m;
     model \<leftarrow> required ''model'' as_str m;
     keys \<leftarrow> required ''api_keys'' (dec_list as_str) m;
     concurrency \<leftarrow> defaulted ''embed_concurrency'' (dec_uint 64) default_embed_concurrency m;
     base_url \<leftarrow> defaulted ''voyage_base_url'' (dec_opt as_str) None m;
     dimensions \<leftarrow> defaulted ''dimensions'' (dec_opt (dec_uint 32)) None m;
     Some \<lparr>em_provider = provider, em_model = model, em_api_keys = keys, em_embed_concurrency = concurrency,
           em_voyage_base_url = base_url, em_dimensions = dimensions\<rparr> }"

definition embedding_fields :: "embedding_config \<Rightarrow> fields" where
  "embedding_fields c =
     [(''provider'', JString (em_provider c)), (''model'', JString (em_model c)), (''api_keys'', enc_list JString (em_api_keys c)),
      (''embed_concurrency'', JUInt (em_embed_concurrency c)), (''voyage_base_url'', enc_opt JString (em_voyage_base_url c)),
      (''dimensions'', enc_opt JUInt (em_dimensions c))]"

definition object_of :: "(fields \<Rightarrow> 'a option) \<Rightarrow> json \<Rightarrow> 'a option" where
  "object_of read v = Option.bind (as_object v) read"

definition endpoint_of :: "fields \<Rightarrow> chat_endpoint option" where
  "endpoint_of m = do {
     provider \<leftarrow> defaulted ''provider'' as_str ''openai'' m;
     base_url \<leftarrow> defaulted ''base_url'' as_str [] m;
     key \<leftarrow> defaulted ''api_key'' as_str [] m;
     models \<leftarrow> defaulted ''models'' (dec_list as_str) [] m;
     force \<leftarrow> defaulted ''force_tool_use'' as_bool False m;
     Some \<lparr>ce_provider = provider, ce_base_url = base_url, ce_api_key = key, ce_models = models, ce_force_tool_use = force\<rparr> }"

definition endpoint_fields :: "chat_endpoint \<Rightarrow> fields" where
  "endpoint_fields c =
     [(''provider'', JString (ce_provider c)), (''base_url'', JString (ce_base_url c)), (''api_key'', JString (ce_api_key c)),
      (''models'', enc_list JString (ce_models c)), (''force_tool_use'', JBool (ce_force_tool_use c))]"

definition plan_of :: "fields \<Rightarrow> purchased_plan option" where
  "plan_of m = do {
     invoice \<leftarrow> required ''invoice'' as_str m;
     key \<leftarrow> defaulted ''proxy_key'' as_str [] m;
     base_url \<leftarrow> defaulted ''base_url'' as_str [] m;
     package \<leftarrow> defaulted ''package_name'' as_str [] m;
     purchased \<leftarrow> defaulted ''purchased_at'' (dec_opt dec_i64) None m;
     expires \<leftarrow> defaulted ''expires_at'' (dec_opt dec_i64) None m;
     trial \<leftarrow> defaulted ''is_free_trial'' as_bool False m;
     Some \<lparr>pp_invoice = invoice, pp_proxy_key = key, pp_base_url = base_url, pp_package_name = package,
           pp_purchased_at = purchased, pp_expires_at = expires, pp_is_free_trial = trial\<rparr> }"

definition plan_fields :: "purchased_plan \<Rightarrow> fields" where
  "plan_fields p =
     [(''invoice'', JString (pp_invoice p)), (''proxy_key'', JString (pp_proxy_key p)), (''base_url'', JString (pp_base_url p)),
      (''package_name'', JString (pp_package_name p)), (''purchased_at'', enc_opt enc_int (pp_purchased_at p)),
      (''expires_at'', enc_opt enc_int (pp_expires_at p)), (''is_free_trial'', JBool (pp_is_free_trial p))]"

definition llm_of :: "fields \<Rightarrow> llm_config option" where
  "llm_of m = do {
     provider \<leftarrow> required ''provider'' as_str m;
     model \<leftarrow> required ''rerank_model'' as_str m;
     keys \<leftarrow> required ''api_keys'' (dec_list as_str) m;
     prune \<leftarrow> defaulted ''rerank_min_prune_lines'' (dec_uint 32) default_min_prune_lines m;
     structured \<leftarrow> defaulted ''use_structured_output'' as_bool True m;
     agentic \<leftarrow> defaulted ''agentic_rag'' as_bool False m;
     turns \<leftarrow> defaulted ''agentic_rag_max_turns'' (dec_uint 32) default_agentic_rag_max_turns m;
     chars \<leftarrow> defaulted ''agentic_rag_max_chunk_chars'' (dec_uint 32) default_agentic_rag_max_chunk_chars m;
     grep_read \<leftarrow> defaulted ''agentic_rag_grep_read'' as_bool True m;
     base_url \<leftarrow> defaulted ''openai_base_url'' (dec_opt as_str) None m;
     force \<leftarrow> defaulted ''openai_force_tool_use'' as_bool False m;
     endpoints \<leftarrow> defaulted ''chat_custom_endpoints'' (dec_list (object_of endpoint_of)) [] m;
     rerank_by \<leftarrow> defaulted ''rerank_provider'' (dec_opt as_str) None m;
     jev_keys \<leftarrow> defaulted ''jev_api_keys'' (dec_list as_str) [] m;
     jev_url \<leftarrow> defaulted ''jev_base_url'' (dec_opt as_str) None m;
     Some \<lparr>lc_provider = provider, lc_rerank_model = model, lc_api_keys = keys, lc_rerank_min_prune_lines = prune,
           lc_use_structured_output = structured, lc_agentic_rag = agentic, lc_agentic_rag_max_turns = turns,
           lc_agentic_rag_max_chunk_chars = chars, lc_agentic_rag_grep_read = grep_read, lc_openai_base_url = base_url,
           lc_openai_force_tool_use = force, lc_chat_custom_endpoints = endpoints, lc_rerank_provider = rerank_by,
           lc_jev_api_keys = jev_keys, lc_jev_base_url = jev_url\<rparr> }"

definition llm_fields :: "llm_config \<Rightarrow> fields" where
  "llm_fields c =
     [(''provider'', JString (lc_provider c)), (''rerank_model'', JString (lc_rerank_model c)),
      (''api_keys'', enc_list JString (lc_api_keys c)), (''rerank_min_prune_lines'', JUInt (lc_rerank_min_prune_lines c)),
      (''use_structured_output'', JBool (lc_use_structured_output c)), (''agentic_rag'', JBool (lc_agentic_rag c)),
      (''agentic_rag_max_turns'', JUInt (lc_agentic_rag_max_turns c)),
      (''agentic_rag_max_chunk_chars'', JUInt (lc_agentic_rag_max_chunk_chars c)),
      (''agentic_rag_grep_read'', JBool (lc_agentic_rag_grep_read c)),
      (''openai_base_url'', enc_opt JString (lc_openai_base_url c)),
      (''openai_force_tool_use'', JBool (lc_openai_force_tool_use c)),
      (''chat_custom_endpoints'', enc_list (JObject \<circ> endpoint_fields) (lc_chat_custom_endpoints c)),
      (''rerank_provider'', enc_opt JString (lc_rerank_provider c)), (''jev_api_keys'', enc_list JString (lc_jev_api_keys c)),
      (''jev_base_url'', enc_opt JString (lc_jev_base_url c))]"

definition settings_of :: "fields \<Rightarrow> settings option" where
  "settings_of m = do {
     version \<leftarrow> required ''version'' (dec_uint 32) m;
     repos \<leftarrow> required ''repos'' (dec_list as_str) m;
     embedding \<leftarrow> required ''embedding'' (object_of embedding_of) m;
     llm \<leftarrow> required ''llm'' (object_of llm_of) m;
     wait \<leftarrow> defaulted ''mcp_index_wait_secs'' (dec_uint 64) DEFAULT_MCP_INDEX_WAIT_SECS m;
     stale \<leftarrow> defaulted ''mcp_stale_after_days'' (dec_uint 64) DEFAULT_MCP_STALE_AFTER_DAYS m;
     cap \<leftarrow> defaulted ''vector_resident_cap_mb'' (dec_uint 64) default_vector_resident_cap_mb m;
     idle \<leftarrow> defaulted ''worker_idle_secs'' (dec_uint 64) default_worker_idle_secs m;
     data_dir \<leftarrow> defaulted ''data_dir'' (dec_opt as_str) None m;
     embeddings_dir \<leftarrow> defaulted ''embeddings_dir'' (dec_opt as_str) None m;
     tools \<leftarrow> defaulted ''enabled_mcp_tools'' (dec_list as_str) default_enabled_mcp_tools m;
     custom \<leftarrow> defaulted ''custom_extensions'' (dec_list as_str) [] m;
     docs \<leftarrow> defaulted ''docs_extensions'' (dec_list as_str) default_docs_extensions m;
     ignored \<leftarrow> defaulted ''index_ignore_filenames'' (dec_list as_str) default_index_ignore_filenames m;
     generations \<leftarrow> defaulted ''repo_generations'' (dec_map (dec_uint 32)) [] m;
     machine \<leftarrow> defaulted ''machine_id'' (dec_opt as_str) None m;
     plans \<leftarrow> defaulted ''purchased_plans'' (dec_list (object_of plan_of)) [] m;
     Some \<lparr>st_version = version, st_repos = repos, st_embedding = embedding, st_llm = llm, st_mcp_index_wait_secs = wait,
           st_mcp_stale_after_days = stale, st_vector_resident_cap_mb = cap, st_worker_idle_secs = idle,
           st_data_dir = data_dir, st_embeddings_dir = embeddings_dir, st_enabled_mcp_tools = tools,
           st_custom_extensions = custom, st_docs_extensions = docs, st_index_ignore_filenames = ignored,
           st_repo_generations = generations, st_machine_id = machine, st_purchased_plans = plans\<rparr> }"

definition settings_fields :: "settings \<Rightarrow> fields" where
  "settings_fields s =
     [(''version'', JUInt (st_version s)), (''repos'', enc_list JString (st_repos s)),
      (''embedding'', JObject (embedding_fields (st_embedding s))), (''llm'', JObject (llm_fields (st_llm s))),
      (''mcp_index_wait_secs'', JUInt (st_mcp_index_wait_secs s)), (''mcp_stale_after_days'', JUInt (st_mcp_stale_after_days s)),
      (''vector_resident_cap_mb'', JUInt (st_vector_resident_cap_mb s)), (''worker_idle_secs'', JUInt (st_worker_idle_secs s)),
      (''data_dir'', enc_opt JString (st_data_dir s)), (''embeddings_dir'', enc_opt JString (st_embeddings_dir s)),
      (''enabled_mcp_tools'', enc_list JString (st_enabled_mcp_tools s)),
      (''custom_extensions'', enc_list JString (st_custom_extensions s)),
      (''docs_extensions'', enc_list JString (st_docs_extensions s)),
      (''index_ignore_filenames'', enc_list JString (st_index_ignore_filenames s)),
      (''repo_generations'', enc_map JUInt (st_repo_generations s)), (''machine_id'', enc_opt JString (st_machine_id s)),
      (''purchased_plans'', enc_list (JObject \<circ> plan_fields) (st_purchased_plans s))]"


section \<open>The round trip\<close>

definition embedding_ok :: "embedding_config \<Rightarrow> bool" where
  "embedding_ok c \<longleftrightarrow> em_embed_concurrency c < 2 ^ 64 \<and> pred_option (\<lambda>n. n < 2 ^ 32) (em_dimensions c)"

definition llm_ok :: "llm_config \<Rightarrow> bool" where
  "llm_ok c \<longleftrightarrow> lc_rerank_min_prune_lines c < 2 ^ 32 \<and> lc_agentic_rag_max_turns c < 2 ^ 32
     \<and> lc_agentic_rag_max_chunk_chars c < 2 ^ 32"

abbreviation i64_range :: "int \<Rightarrow> bool" where
  "i64_range i \<equiv> - (2 ^ 63) \<le> i \<and> i < 2 ^ 63"

definition plan_ok :: "purchased_plan \<Rightarrow> bool" where
  "plan_ok p \<longleftrightarrow> pred_option i64_range (pp_purchased_at p) \<and> pred_option i64_range (pp_expires_at p)"

text \<open>The widths of the struct's integers.\<close>

definition settings_ok :: "settings \<Rightarrow> bool" where
  "settings_ok s \<longleftrightarrow> st_version s < 2 ^ 32 \<and> embedding_ok (st_embedding s) \<and> llm_ok (st_llm s)
     \<and> st_mcp_index_wait_secs s < 2 ^ 64 \<and> st_mcp_stale_after_days s < 2 ^ 64 \<and> st_vector_resident_cap_mb s < 2 ^ 64
     \<and> st_worker_idle_secs s < 2 ^ 64 \<and> list_all ((\<lambda>n. n < 2 ^ 32) \<circ> snd) (st_repo_generations s)
     \<and> list_all plan_ok (st_purchased_plans s)"

lemma str_list_round [simp]: "dec_list as_str (enc_list JString xs) = Some xs"
  by (rule str_codec.list_round) (simp add: list_all_iff)

lemma str_opt_round [simp]: "dec_opt as_str (enc_opt JString x) = Some x"
  by (rule str_codec.opt_round) (cases x; simp)

lemmas codec_rounds [simp] =
  u32_codec.dec_enc u32_codec.opt_round u32_codec.map_round u64_codec.dec_enc i64_codec.opt_round

lemmas field_defs = required_def defaulted_def

interpretation embedding_codec: json_codec "JObject \<circ> embedding_fields" "object_of embedding_of" embedding_ok
proof
  fix c
  assume "embedding_ok c"
  then show "object_of embedding_of ((JObject \<circ> embedding_fields) c) = Some c"
    by (simp add: embedding_ok_def object_of_def embedding_of_def embedding_fields_def field_defs)
next
  fix v c
  assume "object_of embedding_of v = Some c"
  then obtain m where "defaulted ''embed_concurrency'' (dec_uint 64) default_embed_concurrency m = Some (em_embed_concurrency c)"
      "defaulted ''dimensions'' (dec_opt (dec_uint 32)) None m = Some (em_dimensions c)"
    by (auto simp: object_of_def embedding_of_def bind_eq_Some_conv)
  then show "embedding_ok c"
    using u64_codec.defaulted_ok u32_codec.opt_defaulted_ok by (auto simp: embedding_ok_def default_embed_concurrency_def)
qed (simp_all)

interpretation endpoint_codec: json_codec "JObject \<circ> endpoint_fields" "object_of endpoint_of" "\<lambda>_. True"
  by unfold_locales (simp_all add: object_of_def endpoint_of_def endpoint_fields_def field_defs)

interpretation plan_codec: json_codec "JObject \<circ> plan_fields" "object_of plan_of" plan_ok
proof
  fix p
  assume "plan_ok p"
  then show "object_of plan_of ((JObject \<circ> plan_fields) p) = Some p"
    by (simp add: plan_ok_def object_of_def plan_of_def plan_fields_def field_defs)
next
  fix v p
  assume "object_of plan_of v = Some p"
  then obtain m where "defaulted ''purchased_at'' (dec_opt dec_i64) None m = Some (pp_purchased_at p)"
      "defaulted ''expires_at'' (dec_opt dec_i64) None m = Some (pp_expires_at p)"
    by (auto simp: object_of_def plan_of_def bind_eq_Some_conv)
  then show "plan_ok p" using i64_codec.opt_defaulted_ok by (auto simp: plan_ok_def)
qed (simp_all)


lemma endpoint_list_round [simp]: "dec_list (object_of endpoint_of) (enc_list (JObject \<circ> endpoint_fields) xs) = Some xs"
  by (rule endpoint_codec.list_round) (simp add: list_all_iff)

interpretation llm_codec: json_codec "JObject \<circ> llm_fields" "object_of llm_of" llm_ok
proof
  fix c
  assume "llm_ok c"
  then show "object_of llm_of ((JObject \<circ> llm_fields) c) = Some c"
    by (simp add: llm_ok_def object_of_def llm_of_def llm_fields_def field_defs)
next
  fix v c
  assume "object_of llm_of v = Some c"
  then obtain m where "defaulted ''rerank_min_prune_lines'' (dec_uint 32) default_min_prune_lines m = Some (lc_rerank_min_prune_lines c)"
      "defaulted ''agentic_rag_max_turns'' (dec_uint 32) default_agentic_rag_max_turns m = Some (lc_agentic_rag_max_turns c)"
      "defaulted ''agentic_rag_max_chunk_chars'' (dec_uint 32) default_agentic_rag_max_chunk_chars m = Some (lc_agentic_rag_max_chunk_chars c)"
    by (auto simp: object_of_def llm_of_def bind_eq_Some_conv)
  from this [THEN u32_codec.defaulted_ok] show "llm_ok c"
    by (simp add: llm_ok_def default_min_prune_lines_def default_agentic_rag_max_turns_def default_agentic_rag_max_chunk_chars_def)
qed (simp_all)

lemma settings_of_ok:
  assumes "settings_of m = Some s"
  shows "settings_ok s"
proof -
  from assms have f: "required ''version'' (dec_uint 32) m = Some (st_version s)"
      "required ''embedding'' (object_of embedding_of) m = Some (st_embedding s)"
      "required ''llm'' (object_of llm_of) m = Some (st_llm s)"
      "defaulted ''mcp_index_wait_secs'' (dec_uint 64) DEFAULT_MCP_INDEX_WAIT_SECS m = Some (st_mcp_index_wait_secs s)"
      "defaulted ''mcp_stale_after_days'' (dec_uint 64) DEFAULT_MCP_STALE_AFTER_DAYS m = Some (st_mcp_stale_after_days s)"
      "defaulted ''vector_resident_cap_mb'' (dec_uint 64) default_vector_resident_cap_mb m = Some (st_vector_resident_cap_mb s)"
      "defaulted ''worker_idle_secs'' (dec_uint 64) default_worker_idle_secs m = Some (st_worker_idle_secs s)"
      "defaulted ''repo_generations'' (dec_map (dec_uint 32)) [] m = Some (st_repo_generations s)"
      "defaulted ''purchased_plans'' (dec_list (object_of plan_of)) [] m = Some (st_purchased_plans s)"
    by (auto simp: settings_of_def bind_eq_Some_conv)
  have "list_all ((\<lambda>n. n < 2 ^ 32) \<circ> snd) (st_repo_generations s)"
    using f(8) u32_codec.map_ok by (auto simp: defaulted_def split: option.splits)
  moreover have "list_all plan_ok (st_purchased_plans s)"
    using f(9) plan_codec.list_ok by (auto simp: defaulted_def split: option.splits)
  ultimately show ?thesis
    using u32_codec.required_ok [OF f(1)] embedding_codec.required_ok [OF f(2)] llm_codec.required_ok [OF f(3)]
      f(4-7) [THEN u64_codec.defaulted_ok]
    by (simp add: settings_ok_def DEFAULT_MCP_INDEX_WAIT_SECS_def DEFAULT_MCP_STALE_AFTER_DAYS_def
      default_vector_resident_cap_mb_def default_worker_idle_secs_def)
qed

lemma settings_round:
  assumes "settings_ok s"
  shows "settings_of (settings_fields s) = Some s"
proof -
  have e: "object_of embedding_of (JObject (embedding_fields (st_embedding s))) = Some (st_embedding s)"
    and l: "object_of llm_of (JObject (llm_fields (st_llm s))) = Some (st_llm s)"
    and p: "dec_list (object_of plan_of) (enc_list (JObject \<circ> plan_fields) (st_purchased_plans s)) = Some (st_purchased_plans s)"
    using assms embedding_codec.dec_enc llm_codec.dec_enc plan_codec.list_round by (auto simp: settings_ok_def)
  show ?thesis using assms
    by (simp add: settings_of_def settings_fields_def field_defs settings_ok_def e l p)
qed

end
