(* ===== verification/Settings_Store.thy ===== *)
theory Settings_Store
  imports Settings "HOL-Library.Countable"
begin

text \<open>
  The settings file (\<open>src/config.rs\<close>) and the operations that rewrite it: migrations, loading, the atomic
  write, the reload gate of a worker, \<open>put_config\<close> of the server and of the router
  (\<open>src/server.rs\<close>, \<open>src/router/config_handlers.rs\<close>), and the removal of an index (\<open>src/engine_ops.rs\<close>,
  \<open>src/router/repo_action_handlers.rs\<close>).

  The two requests of the server are given whole, for a server that serves one at a time, and as tasks
  that interleave at their awaits. The JSON parser and printer are arguments, library error texts are
  left out, and the arrow of one message is written \<open>->\<close>.
\<close>

section \<open>Migrations\<close>

datatype config_error = Config_Io str str | Config_Parse | VersionTooNew nat | MigrationFailed nat nat str

definition or_insert :: "str \<Rightarrow> json \<Rightarrow> fields \<Rightarrow> fields" where
  "or_insert k d m = (if map_of m k = None then m @ [(k, d)] else m)"

text \<open>\<open>if let Value::Object(ref mut obj) = value\<close>, and \<open>obj.get_mut(k)\<close> of an object or an array.\<close>

definition on_object :: "(fields \<Rightarrow> fields) \<Rightarrow> json \<Rightarrow> json" where
  "on_object f v = (case v of JObject m \<Rightarrow> JObject (f m) | _ \<Rightarrow> v)"

definition on_field :: "str \<Rightarrow> (json \<Rightarrow> json) \<Rightarrow> fields \<Rightarrow> fields" where
  "on_field k f m = (case map_of m k of Some v \<Rightarrow> obj_insert k (f v) m | None \<Rightarrow> m)"

type_synonym migration = "json \<Rightarrow> config_error + json"

definition migrate_v1_to_v2 :: migration where
  "migrate_v1_to_v2 v = Inr (on_object (or_insert ''data_dir'' JNull) v)"

definition migrate_v2_to_v3 :: migration where
  "migrate_v2_to_v3 v = Inr (on_object (or_insert ''embeddings_dir'' JNull) v)"

definition migrate_v3_to_v4 :: migration where
  "migrate_v3_to_v4 v =
     Inr (on_object (or_insert ''enabled_mcp_tools'' (JArray [JString ''codebase-retrieval'', JString ''file-retrieval''])) v)"

definition migrate_v4_to_v5 :: migration where
  "migrate_v4_to_v5 v = Inr (on_object (or_insert ''custom_extensions'' (JArray [])) v)"

definition migrate_v5_to_v6 :: migration where
  "migrate_v5_to_v6 v =
     Inr (on_object (or_insert ''index_ignore_filenames'' (JArray [JString ''CLAUDE.md'', JString ''AGENTS.md''])) v)"

definition migrate_v6_to_v7 :: migration where
  "migrate_v6_to_v7 v = Inr (on_object (on_field ''embedding'' (on_object (or_insert ''voyage_base_url'' JNull))) v)"

definition migrate_v7_to_v8 :: migration where
  "migrate_v7_to_v8 v = Inr (on_object (or_insert ''repo_generations'' (JObject [])) v)"

definition migrate_v8_to_v9 :: migration where
  "migrate_v8_to_v9 v = Inr (on_object (or_insert ''purchased_plans'' (JArray [])) v)"

definition migrate_v9_to_v10 :: migration where
  "migrate_v9_to_v10 v = Inr (on_object (on_field ''llm'' (on_object (or_insert ''chat_custom_endpoints'' (JArray [])))) v)"

definition migrate_v10_to_v11 :: migration where
  "migrate_v10_to_v11 v = Inr (on_object (on_field ''embedding'' (on_object (or_insert ''dimensions'' JNull))) v)"

definition migrate_v11_to_v12 :: migration where
  "migrate_v11_to_v12 v = Inr (on_object (or_insert ''worker_idle_secs'' (JUInt default_worker_idle_secs)) v)"

definition drop_file_retrieval :: "json \<Rightarrow> json" where
  "drop_file_retrieval v = (case v of JArray tools \<Rightarrow> JArray (filter (\<lambda>t. as_str t \<noteq> Some ''file-retrieval'') tools) | _ \<Rightarrow> v)"

definition migrate_v12_to_v13 :: migration where
  "migrate_v12_to_v13 v = Inr (on_object (on_field ''enabled_mcp_tools'' drop_file_retrieval) v)"

definition migrate_v13_to_v14 :: migration where
  "migrate_v13_to_v14 v = Inr (on_object (on_field ''llm'' (on_object (or_insert ''jev_api_keys'' (JArray [])))) v)"

definition migrate_v14_to_v15 :: migration where
  "migrate_v14_to_v15 v =
     (case migrate_v13_to_v14 v of
        Inl e \<Rightarrow> Inl e
      | Inr v' \<Rightarrow> Inr (on_object (or_insert ''docs_extensions'' (enc_list JString default_docs_extensions)) v'))"

definition MIGRATIONS :: "migration list" where
  "MIGRATIONS = [migrate_v1_to_v2, migrate_v2_to_v3, migrate_v3_to_v4, migrate_v4_to_v5, migrate_v5_to_v6, migrate_v6_to_v7,
     migrate_v7_to_v8, migrate_v8_to_v9, migrate_v9_to_v10, migrate_v10_to_v11, migrate_v11_to_v12, migrate_v12_to_v13,
     migrate_v13_to_v14, migrate_v14_to_v15]"

definition migration_error :: "nat \<Rightarrow> config_error \<Rightarrow> config_error" where
  "migration_error from e = (case e of MigrationFailed _ _ _ \<Rightarrow> e | _ \<Rightarrow> MigrationFailed from (from + 1) [])"

fun run_migrations :: "nat list \<Rightarrow> json \<Rightarrow> config_error + json" where
  "run_migrations [] v = Inr v"
| "run_migrations (k # ks) v =
     (if k - 1 < length MIGRATIONS then
        (case (MIGRATIONS ! (k - 1)) v of
           Inl e \<Rightarrow> Inl (migration_error k e)
         | Inr v' \<Rightarrow> run_migrations ks v')
      else Inl (MigrationFailed k (k + 1) (''no migration registered for v'' @ show_nat k @ ''->v'' @ show_nat (k + 1))))"

section \<open>Loading\<close>

text \<open>The path of the file is fixed; the state of the disk is the content of the file, if there is one. The
  steps of the writes of one load fail or not independently, by phase.\<close>

datatype io_step = Create_Dir | Create_Temp | Write_Temp | Chmod_Temp | Persist | Chmod_Target | Read_File
datatype write_phase = Bootstrap | Migrated | Normalized | Saving

record config_host =
  ch_parse :: "str \<Rightarrow> json option"
  ch_print :: "json \<Rightarrow> str"
  ch_fails :: "write_phase \<Rightarrow> io_step \<Rightarrow> str option"
  ch_windows :: bool

definition step_op :: "io_step \<Rightarrow> str" where
  "step_op s =
     (case s of Create_Dir \<Rightarrow> ''create directory for'' | Create_Temp \<Rightarrow> ''create tempfile for'' | Write_Temp \<Rightarrow> ''write tempfile for''
      | Chmod_Temp \<Rightarrow> ''set permissions on tempfile for'' | Persist \<Rightarrow> ''persist (rename) tempfile to''
      | Chmod_Target \<Rightarrow> ''set permissions after persist for'' | Read_File \<Rightarrow> ''read'')"

text \<open>The steps before the rename and the one after it, as on Unix.\<close>

definition first_failure :: "(io_step \<Rightarrow> str option) \<Rightarrow> io_step list \<Rightarrow> config_error option" where
  "first_failure fails steps =
     map_option (\<lambda>s. Config_Io (step_op s) (case fails s of Some e \<Rightarrow> e | None \<Rightarrow> [])) (find (\<lambda>s. fails s \<noteq> None) steps)"

definition write_settings_atomic ::
  "config_host \<Rightarrow> write_phase \<Rightarrow> settings \<Rightarrow> str option \<Rightarrow> config_error option \<times> str option" where
  "write_settings_atomic h phase s old =
     (case first_failure (ch_fails h phase) [Create_Dir, Create_Temp, Write_Temp, Chmod_Temp, Persist] of
        Some e \<Rightarrow> (Some e, old)
      | None \<Rightarrow> (first_failure (ch_fails h phase) [Chmod_Target], Some (ch_print h (JObject (settings_fields s)))))"

definition from_value :: "json \<Rightarrow> config_error + settings" where
  "from_value v = (case object_of settings_of v of Some s \<Rightarrow> Inr s | None \<Rightarrow> Inl Config_Parse)"

definition file_version :: "json \<Rightarrow> nat" where
  "file_version v = (case Option.bind (json_get ''version'' v) as_u64 of Some n \<Rightarrow> n mod 2 ^ 32 | None \<Rightarrow> 1)"

text \<open>The content brought to the current version, and the file after its write.\<close>

definition upgrade :: "config_host \<Rightarrow> json \<Rightarrow> str option \<Rightarrow> (config_error + settings) \<times> str option" where
  "upgrade h v file =
     (let n = file_version v in
      if n = 0 then (Inl (MigrationFailed 0 1 ''version 0 is not a valid schema version''), file)
      else if n = CURRENT_VERSION then (from_value v, file)
      else if CURRENT_VERSION < n then (Inl (VersionTooNew n), file)
      else
        (case run_migrations [n..<CURRENT_VERSION] v of
           Inl e \<Rightarrow> (Inl e, file)
         | Inr v' \<Rightarrow>
             (case from_value v' of
                Inl e \<Rightarrow> (Inl e, file)
              | Inr s \<Rightarrow>
                  (let s' = s\<lparr>st_version := CURRENT_VERSION\<rparr> in
                   case write_settings_atomic h Migrated s' file of
                     (Some e, file') \<Rightarrow> (Inl e, file')
                   | (None, file') \<Rightarrow> (Inr s', file')))))"

definition normalize_repos :: "bool \<Rightarrow> str list \<Rightarrow> str list" where
  "normalize_repos windows repos = rev (remdups (rev (map (normalize_repo_path windows) repos)))"

definition normalized :: "config_host \<Rightarrow> settings \<Rightarrow> str option \<Rightarrow> settings \<times> str option" where
  "normalized h s file =
     (let s' = s\<lparr>st_repos := normalize_repos (ch_windows h) (st_repos s)\<rparr>
      in (s', if st_repos s' \<noteq> st_repos s then snd (write_settings_atomic h Normalized s' file) else file))"

definition ensure_dir_and_load :: "config_host \<Rightarrow> str option \<Rightarrow> (config_error + settings) \<times> str option" where
  "ensure_dir_and_load h file =
     (case first_failure (ch_fails h Bootstrap) [Create_Dir] of
        Some e \<Rightarrow> (Inl e, file)
      | None \<Rightarrow>
          (case (if file = None then write_settings_atomic h Bootstrap default_settings file else (None, file)) of
             (Some e, file1) \<Rightarrow> (Inl e, file1)
           | (None, file1) \<Rightarrow>
               (case (first_failure (ch_fails h Bootstrap) [Read_File], file1) of
                  (None, Some raw) \<Rightarrow>
                    (case ch_parse h raw of
                       None \<Rightarrow> (Inl Config_Parse, file1)
                     | Some v \<Rightarrow>
                         (case upgrade h v file1 of
                            (Inl e, file2) \<Rightarrow> (Inl e, file2)
                          | (Inr s, file2) \<Rightarrow> (case normalized h s file2 of (s', file3) \<Rightarrow> (Inr s', file3))))
                | (Some e, _) \<Rightarrow> (Inl e, file1)
                | (None, None) \<Rightarrow> (Inl (Config_Io (step_op Read_File) []), file1))))"

text \<open>A worker's reload gate: the modification time now, the one last seen, and what a load would give.\<close>

definition maybe_reload_settings ::
  "nat option \<Rightarrow> nat option \<Rightarrow> config_error + settings \<Rightarrow> settings \<Rightarrow> settings \<times> nat option" where
  "maybe_reload_settings current last_seen load mem =
     (case (current, last_seen) of
        (Some cur, Some prev) \<Rightarrow> if cur \<le> prev then (mem, last_seen)
          else (case load of Inr fresh \<Rightarrow> (fresh, current) | Inl _ \<Rightarrow> (mem, last_seen))
      | (None, _) \<Rightarrow> (mem, last_seen)
      | (Some cur, None) \<Rightarrow> (case load of Inr fresh \<Rightarrow> (fresh, current) | Inl _ \<Rightarrow> (mem, last_seen)))"

definition ensure_machine_id ::
  "config_host \<Rightarrow> str \<Rightarrow> settings \<Rightarrow> str option \<Rightarrow> (config_error option \<times> settings) \<times> str option" where
  "ensure_machine_id h seed s file =
     (if (case st_machine_id s of Some i \<Rightarrow> i \<noteq> [] | None \<Rightarrow> False) then ((None, s), file)
      else
        (let s' = s\<lparr>st_machine_id := Some seed\<rparr>
         in case write_settings_atomic h Saving s' file of (e, file') \<Rightarrow> ((e, s'), file')))"


section \<open>Changing the settings\<close>

definition MAX_DOCS_EXTENSIONS :: nat where "MAX_DOCS_EXTENSIONS = 64"
definition MAX_DOCS_EXTENSION_LEN :: nat where "MAX_DOCS_EXTENSION_LEN = 32"

fun docs_entries :: "str list \<Rightarrow> str list \<Rightarrow> str + str list" where
  "docs_entries out [] = Inr out"
| "docs_entries out (entry # raw) =
     (let ext = normalize_ext entry in
      if ext = [] \<or> ext \<in> set out then docs_entries out raw
      else if MAX_DOCS_EXTENSION_LEN < length ext then
        Inl (''docs_extensions entry is longer than '' @ show_nat MAX_DOCS_EXTENSION_LEN @ '' characters: '' @ ext)
      else if \<exists>c \<in> set ext. char_is_whitespace c \<or> c = slash \<or> c = backslash then
        Inl (''docs_extensions entry must be a plain extension (no spaces or path separators): '' @ ext)
      else if MAX_DOCS_EXTENSIONS < length (out @ [ext]) then
        Inl (''docs_extensions has more than '' @ show_nat MAX_DOCS_EXTENSIONS @ '' entries'')
      else docs_entries (out @ [ext]) raw)"

definition normalize_docs_extensions :: "str list \<Rightarrow> str + str list" where
  "normalize_docs_extensions raw = docs_entries [] raw"

definition repo_generation :: "bool \<Rightarrow> settings \<Rightarrow> str \<Rightarrow> nat" where
  "repo_generation windows s repo =
     (case hm_get (normalize_repo_path windows repo) (st_repo_generations s) of Some n \<Rightarrow> n | None \<Rightarrow> 0)"

datatype put_response = Bad_Request str | Save_Failed config_error | Saved settings

text \<open>\<open>put_config\<close> of the server, in three parts: the checked settings, which take the generations from the
  memory; their write; and, once written, the swap of the memory with the repositories whose first index
  it triggers. The lock of the memory is not held in between. The request body is given parsed.\<close>

definition put_checked :: "config_host \<Rightarrow> (str \<Rightarrow> bool) \<Rightarrow> json option \<Rightarrow> settings \<Rightarrow> str + settings" where
  "put_checked h url_ok body mem =
     (case body of
        None \<Rightarrow> Inl ''invalid JSON body''
      | Some v \<Rightarrow>
          (case from_value v of
             Inl _ \<Rightarrow> Inl ''invalid settings''
           | Inr s0 \<Rightarrow>
               (let s1 = s0\<lparr>st_version := CURRENT_VERSION, st_repo_generations := st_repo_generations mem\<rparr>;
                    url = (case em_voyage_base_url (st_embedding s1) of Some u \<Rightarrow> trim u | None \<Rightarrow> [])
                in if url \<noteq> [] \<and> \<not> url_ok url then Inl ''embedding.voyage_base_url is not a valid URL''
                   else if em_dimensions (st_embedding s1) = Some 0 then Inl ''embedding.dimensions must be a positive integer''
                   else
                     (case normalize_docs_extensions (st_docs_extensions s1) of
                        Inl msg \<Rightarrow> Inl msg
                      | Inr docs \<Rightarrow>
                          Inr (s1\<lparr>st_docs_extensions := docs,
                                 st_repos := map (normalize_repo_path (ch_windows h)) (st_repos s1)\<rparr>)))))"

definition put_commit :: "(str \<Rightarrow> bool) \<Rightarrow> settings \<Rightarrow> settings \<Rightarrow> str list \<times> settings" where
  "put_commit is_dir saved mem =
     (filter is_dir (filter (\<lambda>r. r \<notin> set (st_repos mem)) (st_repos saved)), saved)"

text \<open>The whole request when nothing comes in between.\<close>

definition put_config ::
  "config_host \<Rightarrow> (str \<Rightarrow> bool) \<Rightarrow> (str \<Rightarrow> bool) \<Rightarrow> json option \<Rightarrow> settings \<times> str option
     \<Rightarrow> (put_response \<times> str list) \<times> settings \<times> str option" where
  "put_config h url_ok is_dir body st =
     (let (mem, file) = st in
      case put_checked h url_ok body mem of
        Inl msg \<Rightarrow> ((Bad_Request msg, []), mem, file)
      | Inr s \<Rightarrow>
          (case write_settings_atomic h Saving s file of
             (Some e, file') \<Rightarrow> ((Save_Failed e, []), mem, file')
           | (None, file') \<Rightarrow> (let (added, mem') = put_commit is_dir s mem in ((Saved s, added), mem', file'))))"

text \<open>\<open>put_config\<close> of the router, which keeps no settings in memory. The repositories it asks workers to index
  are those that the file did not list before.\<close>

definition router_put_config :: "config_host \<Rightarrow> json option \<Rightarrow> str option \<Rightarrow> (put_response \<times> str list) \<times> str option" where
  "router_put_config h body file =
     (case body of
        None \<Rightarrow> ((Bad_Request ''invalid JSON body'', []), file)
      | Some v \<Rightarrow>
          (case from_value v of
             Inl _ \<Rightarrow> ((Bad_Request ''invalid settings'', []), file)
           | Inr s0 \<Rightarrow>
               (case normalize_docs_extensions (st_docs_extensions s0) of
                  Inl msg \<Rightarrow> ((Bad_Request msg, []), file)
                | Inr docs \<Rightarrow>
                    (let s = s0\<lparr>st_version := CURRENT_VERSION, st_docs_extensions := docs,
                                st_repos := map (normalize_repo_path (ch_windows h)) (st_repos s0)\<rparr>;
                         (loaded, file1) = ensure_dir_and_load h file;
                         old = (case loaded of
                            Inr s' \<Rightarrow> set (map (normalize_repo_path (ch_windows h)) (st_repos s')) | Inl _ \<Rightarrow> {})
                     in case write_settings_atomic h Saving s file1 of
                          (Some e, file') \<Rightarrow> ((Save_Failed e, []), file')
                        | (None, file') \<Rightarrow> ((Saved s, filter (\<lambda>r. r \<notin> old) (st_repos s)), file')))))"

definition bumped :: "str \<Rightarrow> nat \<Rightarrow> bool \<Rightarrow> settings \<Rightarrow> settings" where
  "bumped repo next also_drop s =
     s\<lparr>st_repo_generations := hm_insert repo next (st_repo_generations s),
       st_repos := (if also_drop then filter (\<lambda>r. r \<noteq> repo) (st_repos s) else st_repos s)\<rparr>"

definition generation_after :: "nat \<Rightarrow> nat" where
  "generation_after n = min (n + 1) (2 ^ 32 - 1)"

text \<open>The settings part of \<open>remove_index\<close>, when nothing comes in between: the old generation to delete, or the
  error of the write. It reads the generation first; then it closes the database and clears the resident
  state; then it copies the settings, writes the copy with the bump, and puts the bump into the memory of
  that moment. The deletion of the directory comes after.\<close>

definition remove_index ::
  "config_host \<Rightarrow> str \<Rightarrow> bool \<Rightarrow> settings \<times> str option \<Rightarrow> (config_error + nat) \<times> settings \<times> str option" where
  "remove_index h repo also_drop st =
     (let (mem, file) = st;
          key = normalize_repo_path (ch_windows h) repo;
          current = repo_generation (ch_windows h) mem key;
          next = generation_after current
      in case write_settings_atomic h Saving (bumped key next also_drop mem) file of
           (Some e, file') \<Rightarrow> (Inl e, mem, file')
         | (None, file') \<Rightarrow> (Inr current, bumped key next also_drop mem, file'))"

text \<open>Both requests as the tasks of a server that serves several: what a task holds between the points where
  it waits. A write may fail in each task in its own way.\<close>

datatype settings_task =
    Put_Checked settings
  | Put_Written settings
  | Remove_Read str nat bool
  | Remove_Copied str nat bool settings
  | Remove_Written str nat bool

record settings_server =
  se_mem :: settings
  se_file :: "str option"
  se_tasks :: "(nat, settings_task) hmap"

datatype settings_event =
    Put_Begin nat "json option"
  | Remove_Begin nat str bool
  | Advance nat "write_phase \<Rightarrow> io_step \<Rightarrow> str option"

definition advance_task :: "config_host \<Rightarrow> nat \<Rightarrow> settings_task \<Rightarrow> settings_server \<Rightarrow> settings_server" where
  "advance_task h t task sv =
     (case task of
        Put_Checked s \<Rightarrow>
          (case write_settings_atomic h Saving s (se_file sv) of
             (Some e, file') \<Rightarrow> sv\<lparr>se_file := file', se_tasks := hm_remove t (se_tasks sv)\<rparr>
           | (None, file') \<Rightarrow> sv\<lparr>se_file := file', se_tasks := hm_insert t (Put_Written s) (se_tasks sv)\<rparr>)
      | Put_Written s \<Rightarrow>
          sv\<lparr>se_mem := snd (put_commit (\<lambda>_. True) s (se_mem sv)), se_tasks := hm_remove t (se_tasks sv)\<rparr>
      | Remove_Read key current also_drop \<Rightarrow>
          sv\<lparr>se_tasks := hm_insert t
               (Remove_Copied key current also_drop (bumped key (generation_after current) also_drop (se_mem sv))) (se_tasks sv)\<rparr>
      | Remove_Copied key current also_drop s \<Rightarrow>
          (case write_settings_atomic h Saving s (se_file sv) of
             (Some e, file') \<Rightarrow> sv\<lparr>se_file := file', se_tasks := hm_remove t (se_tasks sv)\<rparr>
           | (None, file') \<Rightarrow>
               sv\<lparr>se_file := file', se_tasks := hm_insert t (Remove_Written key current also_drop) (se_tasks sv)\<rparr>)
      | Remove_Written key current also_drop \<Rightarrow>
          sv\<lparr>se_mem := bumped key (generation_after current) also_drop (se_mem sv), se_tasks := hm_remove t (se_tasks sv)\<rparr>)"

fun settings_step :: "config_host \<Rightarrow> (str \<Rightarrow> bool) \<Rightarrow> settings_event \<Rightarrow> settings_server \<Rightarrow> settings_server" where
  "settings_step h url_ok (Put_Begin t body) sv =
     (if hm_contains t (se_tasks sv) then sv
      else
        (case put_checked h url_ok body (se_mem sv) of
           Inl msg \<Rightarrow> sv
         | Inr s \<Rightarrow> sv\<lparr>se_tasks := hm_insert t (Put_Checked s) (se_tasks sv)\<rparr>))"
| "settings_step h url_ok (Remove_Begin t repo also_drop) sv =
     (if hm_contains t (se_tasks sv) then sv
      else
        (let key = normalize_repo_path (ch_windows h) repo
         in sv\<lparr>se_tasks := hm_insert t (Remove_Read key (repo_generation (ch_windows h) (se_mem sv) key) also_drop)
                 (se_tasks sv)\<rparr>))"
| "settings_step h url_ok (Advance t fails) sv =
     (case hm_get t (se_tasks sv) of
        None \<Rightarrow> sv
      | Some task \<Rightarrow> advance_task (h\<lparr>ch_fails := fails\<rparr>) t task sv)"

text \<open>The router's own removal works on the file.\<close>

definition router_remove_index ::
  "config_host \<Rightarrow> str \<Rightarrow> bool \<Rightarrow> str option \<Rightarrow> (config_error + nat) \<times> str option" where
  "router_remove_index h repo also_drop file =
     (case ensure_dir_and_load h file of
        (Inl e, file1) \<Rightarrow> (Inl e, file1)
      | (Inr s, file1) \<Rightarrow>
          (let current = repo_generation (ch_windows h) s repo;
               next = min (current + 1) (2 ^ 32 - 1)
           in case write_settings_atomic h Saving (bumped repo next also_drop s) file1 of
                (Some e, file') \<Rightarrow> (Inl e, file')
              | (None, file') \<Rightarrow> (Inr current, file')))"

definition resolve_mcp_repo_name :: "config_host \<Rightarrow> str option \<Rightarrow> str \<Rightarrow> str option" where
  "resolve_mcp_repo_name h file name =
     (case fst (ensure_dir_and_load h file) of
        Inr s \<Rightarrow> map_option (normalize_repo_path (ch_windows h)) (find (\<lambda>r. sanitize_repo_name r = Some name) (st_repos s))
      | Inl _ \<Rightarrow> None)"


section \<open>What an upgrade keeps\<close>

definition keeps_tool :: "json \<Rightarrow> bool" where
  "keeps_tool t \<longleftrightarrow> as_str t \<noteq> Some ''file-retrieval''"

text \<open>The value a key has after an upgrade, given the one before: the list of tools may lose the tool that became
  opt-in, the two sections may gain fields, and anything else is unchanged.\<close>

definition kept :: "str \<Rightarrow> json \<Rightarrow> json \<Rightarrow> bool" where
  "kept k x y \<longleftrightarrow> y = x
     \<or> k = ''enabled_mcp_tools'' \<and> (\<exists>ts. x = JArray ts \<and> y = JArray (filter keeps_tool ts))
     \<or> k \<in> {''embedding'', ''llm''} \<and> (\<exists>f g. x = JObject f \<and> y = JObject g \<and> map_of f \<subseteq>\<^sub>m map_of g)"

definition preserved :: "fields \<Rightarrow> fields \<Rightarrow> bool" where
  "preserved m m' \<longleftrightarrow> (\<forall>k x. map_of m k = Some x \<longrightarrow> (\<exists>y. map_of m' k = Some y \<and> kept k x y))
     \<and> map_of m' ''version'' = map_of m ''version''"

lemma kept_refl [simp]: "kept k x x"
  by (simp add: kept_def)

lemma filter_keeps_tool [simp]: "filter keeps_tool (filter keeps_tool ts) = filter keeps_tool ts"
  by simp

lemma kept_trans: "kept k x y \<Longrightarrow> kept k y z \<Longrightarrow> kept k x z"
  by (auto simp: kept_def intro: map_le_trans)

lemma preserved_refl [simp]: "preserved m m"
  by (simp add: preserved_def)

lemma preserved_trans: "preserved m n \<Longrightarrow> preserved n p \<Longrightarrow> preserved m p"
  unfolding preserved_def by (metis kept_trans)

lemma map_of_or_insert: "map_of (or_insert k d m) j = (if j = k \<and> map_of m k = None then Some d else map_of m j)"
  by (auto simp: or_insert_def map_add_def split: option.split)

lemma or_insert_extends: "map_of m \<subseteq>\<^sub>m map_of (or_insert k d m)"
  by (auto simp: map_le_def map_of_or_insert)

lemma preserved_or_insert: "k \<noteq> ''version'' \<Longrightarrow> preserved m (or_insert k d m)"
  by (simp add: preserved_def map_of_or_insert)

lemma preserved_on_field:
  "k \<noteq> ''version'' \<Longrightarrow> (\<And>x. map_of m k = Some x \<Longrightarrow> kept k x (f x)) \<Longrightarrow> preserved m (on_field k f m)"
  by (auto simp: preserved_def on_field_def split: option.split)

lemma preserved_section: "k \<in> {''embedding'', ''llm''} \<Longrightarrow> preserved m (on_field k (on_object (or_insert j d)) m)"
  by (rule preserved_on_field) (auto simp: kept_def on_object_def or_insert_extends split: json.split)

lemma preserved_tools: "preserved m (on_field ''enabled_mcp_tools'' drop_file_retrieval m)"
  by (rule preserved_on_field) (auto simp: kept_def drop_file_retrieval_def keeps_tool_def [abs_def] split: json.split)

lemmas migrate_defs = migrate_v1_to_v2_def migrate_v2_to_v3_def migrate_v3_to_v4_def migrate_v4_to_v5_def migrate_v5_to_v6_def
  migrate_v6_to_v7_def migrate_v7_to_v8_def migrate_v8_to_v9_def migrate_v9_to_v10_def migrate_v10_to_v11_def
  migrate_v11_to_v12_def migrate_v12_to_v13_def migrate_v13_to_v14_def migrate_v14_to_v15_def

lemma on_object_JObject [simp]: "on_object f (JObject m) = JObject (f m)"
  by (simp add: on_object_def)

lemma migration_preserves:
  assumes "f \<in> set MIGRATIONS"
  shows "\<exists>m'. f (JObject m) = Inr (JObject m') \<and> preserved m m'"
proof -
  have "\<forall>f \<in> set MIGRATIONS. \<exists>m'. f (JObject m) = Inr (JObject m') \<and> preserved m m'"
    unfolding MIGRATIONS_def
    by (simp add: migrate_defs preserved_or_insert preserved_section preserved_tools)
      (rule preserved_trans [OF preserved_section preserved_or_insert]; simp)
  with assms show ?thesis by blast
qed

lemma run_migrations_preserves:
  assumes "\<forall>k \<in> set ks. 1 \<le> k \<and> k \<le> 14"
  shows "\<exists>m'. run_migrations ks (JObject m) = Inr (JObject m') \<and> preserved m m'"
  using assms
proof (induction ks arbitrary: m)
  case (Cons k ks)
  have len: "k - 1 < length MIGRATIONS" using Cons.prems by (auto simp: MIGRATIONS_def)
  then obtain n where n: "(MIGRATIONS ! (k - 1)) (JObject m) = Inr (JObject n)" "preserved m n"
    using migration_preserves [of "MIGRATIONS ! (k - 1)" m] by auto
  from Cons obtain m' where "run_migrations ks (JObject n) = Inr (JObject m')" "preserved n m'" by auto
  with len n show ?case by (auto intro: preserved_trans)
qed simp

lemma run_migrations_append:
  "run_migrations (ks @ js) v = (case run_migrations ks v of Inl e \<Rightarrow> Inl e | Inr v' \<Rightarrow> run_migrations js v')"
  by (induction ks arbitrary: v) (auto split: sum.splits)

text \<open>An upgrade loses no setting. From every older version the migrations succeed on any object; each key keeps
  its value, the embedding and LLM sections only gain fields, and the list of tools loses at most
  \<open>file-retrieval\<close>, which is off after an upgrade from before version 13.\<close>

theorem upgrade_keeps_settings:
  assumes "1 \<le> n" "n < CURRENT_VERSION"
  shows "\<exists>m'. run_migrations [n..<CURRENT_VERSION] (JObject m) = Inr (JObject m') \<and> preserved m m'
    \<and> (n \<le> 12 \<longrightarrow> (\<forall>ts. map_of m' ''enabled_mcp_tools'' = Some (JArray ts) \<longrightarrow> list_all keeps_tool ts))"
proof -
  have all: "\<forall>k \<in> set [n..<CURRENT_VERSION]. 1 \<le> k \<and> k \<le> 14" using assms by (auto simp: CURRENT_VERSION_def)
  then obtain m' where m': "run_migrations [n..<CURRENT_VERSION] (JObject m) = Inr (JObject m')" "preserved m m'"
    using run_migrations_preserves by blast
  have "list_all keeps_tool ts" if "n \<le> 12" "map_of m' ''enabled_mcp_tools'' = Some (JArray ts)" for ts
  proof -
    have split: "[n..<CURRENT_VERSION] = [n..<12] @ [12, 13, 14]"
      using that(1) upt_add_eq_append [of n 12 3] by (simp add: CURRENT_VERSION_def upt_rec)
    obtain p where p: "run_migrations [n..<12] (JObject m) = Inr (JObject p)"
      using run_migrations_preserves [of "[n..<12]" m] assms(1) by auto
    have "run_migrations [12, 13, 14] (JObject p) = Inr (JObject m')"
      using m'(1) p by (simp add: split run_migrations_append)
    then have "m' = or_insert ''docs_extensions'' (enc_list JString default_docs_extensions)
        (on_field ''llm'' (on_object (or_insert ''jev_api_keys'' (JArray [])))
        (on_field ''llm'' (on_object (or_insert ''jev_api_keys'' (JArray [])))
        (on_field ''enabled_mcp_tools'' drop_file_retrieval p)))"
      by (simp add: MIGRATIONS_def migrate_defs nth_Cons')
    then have "map_of (on_field ''enabled_mcp_tools'' drop_file_retrieval p) ''enabled_mcp_tools'' = Some (JArray ts)"
      using that(2) by (auto simp: map_of_or_insert on_field_def split: option.splits if_splits)
    then show ?thesis
      by (auto simp: on_field_def drop_file_retrieval_def keeps_tool_def list_all_iff split: option.splits json.splits)
  qed
  with m' show ?thesis by blast
qed

lemma upgrade_keeps_settings_witness:
  "\<exists>m'. run_migrations [3..<CURRENT_VERSION] (JObject [(''version'', JUInt 3), (''repos'', JArray [])]) = Inr (JObject m')
     \<and> map_of m' ''repos'' = Some (JArray [])"
proof -
  have "1 \<le> (3::nat)" "3 < CURRENT_VERSION" by (simp_all add: CURRENT_VERSION_def)
  from upgrade_keeps_settings [OF this, of "[(''version'', JUInt 3), (''repos'', JArray [])]"]
  obtain m' where "run_migrations [3..<CURRENT_VERSION] (JObject [(''version'', JUInt 3), (''repos'', JArray [])]) = Inr (JObject m')"
    "preserved [(''version'', JUInt 3), (''repos'', JArray [])] m'" by blast
  moreover from this(2) obtain y where "map_of m' ''repos'' = Some y" "kept ''repos'' (JArray []) y"
    by (auto simp: preserved_def dest!: spec [of _ "''repos''"])
  ultimately show ?thesis by (auto simp: kept_def)
qed

section \<open>Loading settles\<close>

definition prints_back :: "config_host \<Rightarrow> bool" where
  "prints_back h \<longleftrightarrow> (\<forall>s. ch_parse h (ch_print h (JObject (settings_fields s))) = Some (JObject (settings_fields s)))"

lemma from_value_round: "settings_ok s \<Longrightarrow> from_value (JObject (settings_fields s)) = Inr s"
  by (simp add: from_value_def object_of_def settings_round)

lemma from_value_ok: "from_value v = Inr s \<Longrightarrow> settings_ok s"
  by (auto simp: from_value_def object_of_def bind_eq_Some_conv settings_of_ok split: option.splits)

text \<open>C26: Settings survive a write. Whatever value was read into settings, their serialized form reads back
  into the same settings, so every field of the struct is written and read under one name.\<close>

theorem settings_round_trip: "from_value v = Inr s \<Longrightarrow> from_value (JObject (settings_fields s)) = Inr s"
  by (rule from_value_round [OF from_value_ok])

lemma default_settings_ok: "settings_ok default_settings"
  by (simp add: settings_ok_def default_settings_def embedding_ok_def default_embedding_def llm_ok_def default_llm_def
    CURRENT_VERSION_def DEFAULT_MCP_INDEX_WAIT_SECS_def DEFAULT_MCP_STALE_AFTER_DAYS_def default_vector_resident_cap_mb_def
    default_worker_idle_secs_def default_embed_concurrency_def default_min_prune_lines_def default_agentic_rag_max_turns_def
    default_agentic_rag_max_chunk_chars_def)

lemma settings_round_trip_witness:
  "\<exists>s. from_value (JObject [(''version'', JUInt 15), (''repos'', JArray []), (''embedding'', JObject [(''provider'', JString ''voyage''),
      (''model'', JString ''m''), (''api_keys'', JArray [])]), (''llm'', JObject [(''provider'', JString ''google''),
      (''rerank_model'', JString ''g''), (''api_keys'', JArray [])])]) = Inr s
    \<and> from_value (JObject (settings_fields s)) = Inr s"
proof -
  have "\<exists>s. from_value (JObject [(''version'', JUInt 15), (''repos'', JArray []), (''embedding'', JObject [(''provider'', JString ''voyage''),
      (''model'', JString ''m''), (''api_keys'', JArray [])]), (''llm'', JObject [(''provider'', JString ''google''),
      (''rerank_model'', JString ''g''), (''api_keys'', JArray [])])]) = Inr s"
    by (simp add: from_value_def object_of_def settings_of_def embedding_of_def llm_of_def field_defs dec_uint_def dec_list_def)
  then obtain s where s: "from_value (JObject [(''version'', JUInt 15), (''repos'', JArray []), (''embedding'', JObject [(''provider'', JString ''voyage''),
      (''model'', JString ''m''), (''api_keys'', JArray [])]), (''llm'', JObject [(''provider'', JString ''google''),
      (''rerank_model'', JString ''g''), (''api_keys'', JArray [])])]) = Inr s" by blast
  from settings_round_trip [OF s] s show ?thesis by blast
qed

lemma normalize_repos_idem [simp]: "normalize_repos w (normalize_repos w rs) = normalize_repos w rs"
proof -
  have "map (normalize_repo_path w) (normalize_repos w rs) = normalize_repos w rs"
    by (rule map_idI) (auto simp: normalize_repos_def)
  moreover have "rev (remdups (rev (normalize_repos w rs))) = normalize_repos w rs"
    by (simp add: normalize_repos_def distinct_remdups_id)
  ultimately show ?thesis by (metis normalize_repos_def)
qed

lemma write_outcome:
  assumes "write_settings_atomic h p s old = (e, file)"
  shows "file = old \<and> e \<noteq> None \<or> file = Some (ch_print h (JObject (settings_fields s)))"
proof (cases "first_failure (ch_fails h p) [Create_Dir, Create_Temp, Write_Temp, Chmod_Temp, Persist]")
  case None
  with assms show ?thesis by (simp add: write_settings_atomic_def)
next
  case (Some f)
  show ?thesis using assms unfolding write_settings_atomic_def Some option.case by auto
qed

definition settled :: "config_host \<Rightarrow> settings \<Rightarrow> json \<Rightarrow> bool" where
  "settled h s v \<longleftrightarrow> file_version v = CURRENT_VERSION \<and> (\<exists>s0. from_value v = Inr s0
     \<and> s = s0\<lparr>st_repos := normalize_repos (ch_windows h) (st_repos s0)\<rparr>)"


lemma settled_print:
  assumes "settings_ok s" "st_version s = CURRENT_VERSION" "st_repos s = normalize_repos (ch_windows h) rs"
  shows "settled h s (JObject (settings_fields s))"
proof -
  have "file_version (JObject (settings_fields s)) = CURRENT_VERSION"
    using assms(2) by (simp add: file_version_def settings_fields_def CURRENT_VERSION_def)
  moreover have "s = s\<lparr>st_repos := normalize_repos (ch_windows h) (st_repos s)\<rparr>"
    using assms(3) by (metis (mono_tags, lifting) normalize_repos_idem settings.surjective settings.update_convs(2))
  ultimately show ?thesis using from_value_round [OF assms(1)] by (auto simp: settled_def)
qed

lemma settings_ok_repos [simp]: "settings_ok (s\<lparr>st_repos := rs\<rparr>) = settings_ok s"
  by (simp add: settings_ok_def)

lemma settings_ok_version: "settings_ok s \<Longrightarrow> n < 2 ^ 32 \<Longrightarrow> settings_ok (s\<lparr>st_version := n\<rparr>)"
  by (simp add: settings_ok_def)

lemma from_value_version: "from_value v = Inr s \<Longrightarrow> file_version v = st_version s"
  by (cases v) (auto simp: from_value_def object_of_def bind_eq_Some_conv settings_of_def required_def
    file_version_def dec_uint_def split: option.splits if_splits)

text \<open>After an upgrade the file holds content that reads back to the same settings.\<close>

lemma upgrade_settles:
  assumes "prints_back h" "ch_parse h raw = Some v" "upgrade h v (Some raw) = (Inr s, file')"
  shows "settings_ok s \<and> st_version s = CURRENT_VERSION
    \<and> (\<exists>raw' v'. file' = Some raw' \<and> ch_parse h raw' = Some v' \<and> file_version v' = CURRENT_VERSION \<and> from_value v' = Inr s)"
proof (cases "file_version v = CURRENT_VERSION")
  case True
  then have "from_value v = Inr s" "file' = Some raw"
    using assms(3) by (auto simp: upgrade_def Let_def CURRENT_VERSION_def)
  with True assms(2) from_value_ok from_value_version show ?thesis by metis
next
  case False
  then obtain v' s0 where s0: "from_value v' = Inr s0" "s = s0\<lparr>st_version := CURRENT_VERSION\<rparr>"
      and w: "write_settings_atomic h Migrated s (Some raw) = (None, file')"
    using assms(3) by (auto simp: upgrade_def Let_def split: if_splits sum.splits prod.splits option.splits)
  have ok: "settings_ok s" unfolding s0(2)
    by (rule settings_ok_version [OF from_value_ok [OF s0(1)]]) (simp add: CURRENT_VERSION_def)
  have ver: "st_version s = CURRENT_VERSION" by (simp add: s0)
  have "file' = Some (ch_print h (JObject (settings_fields s)))" using write_outcome [OF w] by auto
  then show ?thesis
    using ok ver assms(1) from_value_round [OF ok] from_value_version [OF from_value_round [OF ok]]
    by (auto simp: prints_back_def)
qed

lemma load_settles:
  assumes "prints_back h" "ensure_dir_and_load h file = (Inr s, file')"
  shows "\<exists>raw v. file' = Some raw \<and> ch_parse h raw = Some v \<and> settled h s v"
proof -
  obtain raw v s0 file2 where up: "ch_parse h raw = Some v" "upgrade h v (Some raw) = (Inr s0, file2)"
      and n: "normalized h s0 file2 = (s, file')"
    using assms(2) by (auto simp: ensure_dir_and_load_def split: option.splits prod.splits sum.splits)
  from upgrade_settles [OF assms(1) up] obtain raw' v' where
    s0: "settings_ok s0" "st_version s0 = CURRENT_VERSION" "file2 = Some raw'" "ch_parse h raw' = Some v'"
      "file_version v' = CURRENT_VERSION" "from_value v' = Inr s0" by blast
  have s: "s = s0\<lparr>st_repos := normalize_repos (ch_windows h) (st_repos s0)\<rparr>"
    using n by (simp add: normalized_def Let_def)
  have old: "settled h s v'" using s0 s by (simp add: settled_def)
  have new: "settled h s (JObject (settings_fields s))" unfolding s by (rule settled_print) (simp_all add: s0)
  have "file' = file2 \<or> file' = Some (ch_print h (JObject (settings_fields s)))"
    using n write_outcome [OF prod.collapse [symmetric], of h Normalized s file2]
    by (auto simp: normalized_def Let_def s split: if_splits)
  then show ?thesis using old new s0(3,4) assms(1) by (auto simp: prints_back_def)
qed

lemma settled_loads:
  assumes "settled h s v" "ch_parse h raw = Some v"
    and "fails Bootstrap Create_Dir = None" "fails Bootstrap Read_File = None"
  shows "fst (ensure_dir_and_load (h\<lparr>ch_fails := fails\<rparr>) (Some raw)) = Inr s"
proof -
  let ?h = "h\<lparr>ch_fails := fails\<rparr>"
  obtain s0 where s0: "file_version v = CURRENT_VERSION" "from_value v = Inr s0"
      "s = s0\<lparr>st_repos := normalize_repos (ch_windows h) (st_repos s0)\<rparr>"
    using assms(1) by (auto simp: settled_def)
  have "upgrade ?h v (Some raw) = (Inr s0, Some raw)" using s0 by (simp add: upgrade_def CURRENT_VERSION_def)
  then show ?thesis
    using assms(2-4) s0(3) by (simp add: ensure_dir_and_load_def first_failure_def normalized_def Let_def)
qed

text \<open>Loading settles. Once a load succeeds, every later load gives the same settings, whichever of its own
  rewrites (first file, migrated file, cleaned repositories) failed before or fail later: only the directory
  and the read must work.\<close>

theorem load_settings_stable:
  assumes "prints_back h" "ensure_dir_and_load h file = (Inr s, file')"
    and "fails Bootstrap Create_Dir = None" "fails Bootstrap Read_File = None"
  shows "fst (ensure_dir_and_load (h\<lparr>ch_fails := fails\<rparr>) file') = Inr s"
  using load_settles [OF assms(1,2)] settled_loads assms(3,4) by blast


text \<open>A printer and a parser for the witness: the number of a JSON value in unary.\<close>

instance char :: countable
  by (rule countable_classI [of of_char]) simp

instance json :: countable
  by countable_datatype

definition unary_host :: config_host where
  "unary_host = \<lparr>ch_parse = (\<lambda>s. Some (from_nat (length s))), ch_print = (\<lambda>v. replicate (to_nat v) CHR ''x''),
     ch_fails = (\<lambda>_ _. None), ch_windows = False\<rparr>"

lemma unary_prints_back: "prints_back unary_host"
  by (simp add: prints_back_def unary_host_def)

lemma load_bootstraps:
  assumes "prints_back h" "ch_fails h = (\<lambda>_ _. None)"
  shows "fst (ensure_dir_and_load h None) = Inr default_settings"
proof -
  have "settled h default_settings (JObject (settings_fields default_settings))"
    by (rule settled_print [OF default_settings_ok, of h "[]"]) (simp_all add: default_settings_def normalize_repos_def)
  then have s: "file_version (JObject (settings_fields default_settings)) = CURRENT_VERSION"
      "from_value (JObject (settings_fields default_settings)) = Inr default_settings"
    using from_value_round [OF default_settings_ok] by (auto simp: settled_def)
  have "st_repos default_settings = []" by (simp add: default_settings_def)
  then show ?thesis
    using assms s by (simp add: ensure_dir_and_load_def first_failure_def write_settings_atomic_def prints_back_def
      upgrade_def CURRENT_VERSION_def normalized_def normalize_repos_def Let_def)
qed

lemma load_settings_stable_witness:
  "fst (ensure_dir_and_load (unary_host\<lparr>ch_fails := \<lambda>_ s. if s = Persist then Some ''disk full'' else None\<rparr>)
      (snd (ensure_dir_and_load unary_host None))) = Inr default_settings"
proof -
  have first: "ensure_dir_and_load unary_host None = (Inr default_settings, snd (ensure_dir_and_load unary_host None))"
    using load_bootstraps [OF unary_prints_back] by (metis prod.collapse unary_host_def config_host.select_convs(3))
  show ?thesis by (rule load_settings_stable [OF unary_prints_back first]) simp_all
qed

section \<open>Versions the loader misreads\<close>

text \<open>A file without a version is migrated as version 1 and then refused: the struct requires the field.\<close>

lemma missing_version_refused:
  assumes "ch_parse h raw = Some (JObject m)" "map_of m ''version'' = None" "ch_fails h = (\<lambda>_ _. None)"
  shows "ensure_dir_and_load h (Some raw) = (Inl Config_Parse, Some raw)"
proof -
  obtain m' where m': "run_migrations [1..<CURRENT_VERSION] (JObject m) = Inr (JObject m')" "preserved m m'"
    using run_migrations_preserves [of "[1..<CURRENT_VERSION]" m] by (auto simp: CURRENT_VERSION_def)
  then have "from_value (JObject m') = Inl Config_Parse"
    using assms(2) by (simp add: from_value_def object_of_def settings_of_def required_def preserved_def)
  moreover have "file_version (JObject m) = 1" using assms(2) by (simp add: file_version_def)
  ultimately show ?thesis
    using assms(1,3) m'(1) by (simp add: ensure_dir_and_load_def first_failure_def upgrade_def CURRENT_VERSION_def Let_def)
qed

text \<open>A version is cut to 32 bits before it is compared, so a newer file may be taken for an old one.\<close>

lemma huge_version_wraps: "file_version (JObject [(''version'', JUInt (2 ^ 32 + 3))]) = 3"
  by (simp add: file_version_def)


section \<open>The docs extensions\<close>

definition plain_extension :: "str \<Rightarrow> bool" where
  "plain_extension e \<longleftrightarrow> e \<noteq> [] \<and> length e \<le> MAX_DOCS_EXTENSION_LEN \<and> normalize_ext e = e
     \<and> (\<forall>c \<in> set e. \<not> char_is_whitespace c \<and> c \<noteq> slash \<and> c \<noteq> backslash)"

lemma lowercase_dot: "char_to_lowercase c = CHR ''.'' \<longleftrightarrow> c = CHR ''.''"
proof
  assume l: "char_to_lowercase c = CHR ''.''"
  have "code (char_to_lowercase c) = code c \<or> (code (char_to_lowercase c) = code c + 32 \<and> 65 \<le> code c)"
    by (auto simp: char_to_lowercase_def Let_def char_is_ascii_uppercase_def code_def)
  moreover have "code CHR ''.'' = 46" by (simp add: code_def)
  ultimately have "code c = code CHR ''.''" using l by auto
  then show "c = CHR ''.''" unfolding code_def by (rule of_char_eq_iff [THEN iffD1])
qed (simp add: str_defs Let_def)

lemma dropWhile_none: "\<forall>c \<in> set s. \<not> P c \<Longrightarrow> dropWhile P s = s"
  by (cases s) simp_all

lemma trim_plain: "\<forall>c \<in> set s. \<not> char_is_whitespace c \<Longrightarrow> trim s = s"
  by (simp add: trim_def trim_end_matches_def trim_start_matches_def dropWhile_none)

lemma normalize_ext_idem:
  assumes "\<forall>c \<in> set (normalize_ext x). \<not> char_is_whitespace c"
  shows "normalize_ext (normalize_ext x) = normalize_ext x"
proof -
  define e where "e = normalize_ext x"
  have "trim_start_matches (\<lambda>c. c = CHR ''.'') e = e"
  proof (cases "trim_start_matches (\<lambda>c. c = CHR ''.'') (trim x)")
    case Nil
    then have "e = []" unfolding e_def normalize_ext_def by (simp add: to_lowercase_def)
    then show ?thesis by (simp add: trim_start_matches_def)
  next
    case (Cons c cs)
    then have "c \<noteq> CHR ''.''"
      unfolding trim_start_matches_def by (metis (mono_tags, lifting) hd_dropWhile list.sel(1) list.distinct(1))
    moreover have "e = to_lowercase (c # cs)" unfolding e_def normalize_ext_def Cons ..
    ultimately show ?thesis by (simp add: to_lowercase_def trim_start_matches_def lowercase_dot)
  qed
  moreover have "trim e = e" using assms trim_plain by (simp add: e_def)
  moreover have "to_lowercase e = e" by (simp add: e_def normalize_ext_def)
  ultimately have "normalize_ext e = e" by (simp add: normalize_ext_def)
  then show ?thesis by (simp add: e_def)
qed

lemma docs_entries_spec:
  assumes "docs_entries out raw = Inr res" "distinct out" "length out \<le> MAX_DOCS_EXTENSIONS" "\<forall>e \<in> set out. plain_extension e"
  shows "distinct res \<and> length res \<le> MAX_DOCS_EXTENSIONS \<and> (\<forall>e \<in> set res. plain_extension e)
    \<and> set res = set out \<union> (normalize_ext ` set raw - {[]})"
  using assms
proof (induction raw arbitrary: out)
  case (Cons x raw)
  let ?e = "normalize_ext x"
  show ?case
  proof (cases "?e = [] \<or> ?e \<in> set out")
    case True
    then have "docs_entries out raw = Inr res" using Cons.prems(1) by simp
    from Cons.IH [OF this Cons.prems(2-4)] True show ?thesis by auto
  next
    case False
    then have step: "docs_entries (out @ [?e]) raw = Inr res" "length (out @ [?e]) \<le> MAX_DOCS_EXTENSIONS"
        "length ?e \<le> MAX_DOCS_EXTENSION_LEN" "\<forall>c \<in> set ?e. \<not> char_is_whitespace c \<and> c \<noteq> slash \<and> c \<noteq> backslash"
      using Cons.prems(1) by (auto simp: Let_def split: if_splits)
    then have "plain_extension ?e" using False normalize_ext_idem [of x] by (auto simp: plain_extension_def)
    with Cons.IH [OF step(1) _ step(2)] Cons.prems False show ?thesis by auto
  qed
qed auto

lemma docs_entries_accepts:
  assumes "distinct (out @ xs)" "length (out @ xs) \<le> MAX_DOCS_EXTENSIONS" "\<forall>e \<in> set xs. plain_extension e"
  shows "docs_entries out xs = Inr (out @ xs)"
  using assms
proof (induction xs arbitrary: out)
  case (Cons x xs)
  then have x: "normalize_ext x = x" "x \<noteq> []" "x \<notin> set out" "length x \<le> MAX_DOCS_EXTENSION_LEN"
      "\<forall>c \<in> set x. \<not> char_is_whitespace c \<and> c \<noteq> slash \<and> c \<noteq> backslash"
    by (auto simp: plain_extension_def)
  have "\<not> MAX_DOCS_EXTENSIONS < length (out @ [x])" using Cons.prems(2) by simp
  moreover have "docs_entries (out @ [x]) xs = Inr ((out @ [x]) @ xs)"
    by (rule Cons.IH) (use Cons.prems in auto)
  ultimately show ?case using x by (auto simp: Let_def)
qed simp

text \<open>C27: An accepted list of docs extensions is canonical: at most 64 distinct plain lower-case extensions, the
  non-empty ones of the request and no others, and saving it again changes nothing.\<close>

theorem docs_extensions_canonical:
  assumes "normalize_docs_extensions raw = Inr docs"
  shows "normalize_docs_extensions docs = Inr docs \<and> distinct docs \<and> length docs \<le> 64
    \<and> set docs = normalize_ext ` set raw - {[]} \<and> (\<forall>e \<in> set docs. plain_extension e)"
proof -
  have spec: "distinct docs \<and> length docs \<le> MAX_DOCS_EXTENSIONS \<and> (\<forall>e \<in> set docs. plain_extension e)
      \<and> set docs = normalize_ext ` set raw - {[]}"
    using docs_entries_spec [of "[]" raw docs] assms by (simp add: normalize_docs_extensions_def)
  moreover have "normalize_docs_extensions docs = Inr docs"
    using docs_entries_accepts [of "[]" docs] spec by (simp add: normalize_docs_extensions_def)
  ultimately show ?thesis by (simp add: MAX_DOCS_EXTENSIONS_def)
qed

lemma docs_extensions_canonical_witness:
  "normalize_docs_extensions [''.MD'', '' md '', ''Rst''] = Inr [''md'', ''rst'']
   \<and> normalize_docs_extensions [''md'', ''rst''] = Inr [''md'', ''rst'']"
proof
  show a: "normalize_docs_extensions [''.MD'', '' md '', ''Rst''] = Inr [''md'', ''rst'']" by code_simp
  show "normalize_docs_extensions [''md'', ''rst''] = Inr [''md'', ''rst'']"
    using docs_extensions_canonical [OF a] by blast
qed

section \<open>Index generations\<close>

text \<open>The requests served one after the other are the steps run without anything in between.\<close>

lemma put_config_steps:
  assumes "\<not> hm_contains t (se_tasks sv)"
  shows "se_mem (fold (settings_step h url_ok) [Put_Begin t body, Advance t (ch_fails h), Advance t (ch_fails h)] sv)
      = fst (snd (put_config h url_ok is_dir body (se_mem sv, se_file sv)))"
    and "se_file (fold (settings_step h url_ok) [Put_Begin t body, Advance t (ch_fails h), Advance t (ch_fails h)] sv)
      = snd (snd (put_config h url_ok is_dir body (se_mem sv, se_file sv)))"
  using assms
  by (auto simp: put_config_def put_commit_def advance_task_def hm_contains_iff Let_def split: sum.split prod.split option.split)

lemma remove_index_steps:
  assumes "\<not> hm_contains t (se_tasks sv)"
  shows "se_mem (fold (settings_step h url_ok)
        [Remove_Begin t repo d, Advance t (ch_fails h), Advance t (ch_fails h), Advance t (ch_fails h)] sv)
      = fst (snd (remove_index h repo d (se_mem sv, se_file sv)))"
    and "se_file (fold (settings_step h url_ok)
        [Remove_Begin t repo d, Advance t (ch_fails h), Advance t (ch_fails h), Advance t (ch_fails h)] sv)
      = snd (snd (remove_index h repo d (se_mem sv, se_file sv)))"
  using assms
  by (auto simp: remove_index_def advance_task_def hm_contains_iff Let_def split: prod.split option.split)

lemma bumped_generation:
  "repo_generation w (bumped key n d s) r = (if normalize_repo_path w r = key then n else repo_generation w s r)"
  by (auto simp: repo_generation_def bumped_def hm.get_ins)

lemma repo_generation_key [simp]: "repo_generation w s (normalize_repo_path w r) = repo_generation w s r"
  by (simp add: repo_generation_def)

lemma checked_generations: "put_checked h url_ok body mem = Inr s \<Longrightarrow> repo_generation w s r = repo_generation w mem r"
  by (auto simp: put_checked_def repo_generation_def Let_def split: option.splits sum.splits if_splits)

text \<open>The generation of a repository that a task holds and may put into the memory.\<close>

definition task_holds :: "bool \<Rightarrow> str \<Rightarrow> settings_task \<Rightarrow> nat option" where
  "task_holds w r task =
     (case task of
        Put_Checked s \<Rightarrow> Some (repo_generation w s r)
      | Put_Written s \<Rightarrow> Some (repo_generation w s r)
      | Remove_Read key current d \<Rightarrow> if key = normalize_repo_path w r then Some (generation_after current) else None
      | Remove_Copied key current d s \<Rightarrow> if key = normalize_repo_path w r then Some (generation_after current) else None
      | Remove_Written key current d \<Rightarrow> if key = normalize_repo_path w r then Some (generation_after current) else None)"

definition is_put :: "settings_task \<Rightarrow> bool" where
  "is_put task \<longleftrightarrow> (case task of Put_Checked s \<Rightarrow> True | Put_Written s \<Rightarrow> True | _ \<Rightarrow> False)"

text \<open>A removal of the repository puts its bump into the memory while no other task holds a generation of it.\<close>

definition bumps_alone :: "bool \<Rightarrow> str \<Rightarrow> settings_event \<Rightarrow> settings_server \<Rightarrow> bool" where
  "bumps_alone w r ev sv \<longleftrightarrow>
     (\<forall>t fails key current d. ev = Advance t fails \<and> hm_get t (se_tasks sv) = Some (Remove_Written key current d)
        \<and> key = normalize_repo_path w r \<longrightarrow>
        (\<forall>u task. u \<noteq> t \<and> hm_get u (se_tasks sv) = Some task \<longrightarrow> task_holds w r task = None))"

fun undisturbed :: "config_host \<Rightarrow> (str \<Rightarrow> bool) \<Rightarrow> str \<Rightarrow> settings_event list \<Rightarrow> settings_server \<Rightarrow> bool" where
  "undisturbed h url_ok r [] sv \<longleftrightarrow> True"
| "undisturbed h url_ok r (ev # evs) sv \<longleftrightarrow>
     bumps_alone (ch_windows h) r ev sv \<and> undisturbed h url_ok r evs (settings_step h url_ok ev sv)"

text \<open>Then updates hold the generation of the memory, and removals one that is not lower.\<close>

definition GENERATIONS :: nat where "GENERATIONS = 2 ^ 32"

definition holds_current :: "bool \<Rightarrow> str \<Rightarrow> nat \<Rightarrow> (nat, settings_task) hmap \<Rightarrow> bool" where
  "holds_current w r n tasks \<longleftrightarrow> n < GENERATIONS
     \<and> (\<forall>t task g. hm_get t tasks = Some task \<and> task_holds w r task = Some g \<longrightarrow>
          (if is_put task then g = n else n \<le> g \<and> g < GENERATIONS))"

lemma generation_after_bounds: "n < GENERATIONS \<Longrightarrow> n \<le> generation_after n \<and> generation_after n < GENERATIONS"
  by (auto simp: generation_after_def GENERATIONS_def)

lemma holds_remove: "holds_current w r n tasks \<Longrightarrow> holds_current w r n (hm_remove t tasks)"
  by (simp add: holds_current_def)

lemma holds_insert:
  "holds_current w r n tasks \<Longrightarrow> (\<And>g. task_holds w r task = Some g \<Longrightarrow> (if is_put task then g = n else n \<le> g \<and> g < GENERATIONS)) \<Longrightarrow>
     holds_current w r n (hm_insert t task tasks)"
  unfolding holds_current_def by (auto simp: hm.get_ins split: if_splits)

lemma holds_task:
  "holds_current w r n tasks \<Longrightarrow> hm_get t tasks = Some task \<Longrightarrow> task_holds w r task = Some g \<Longrightarrow>
     (if is_put task then g = n else n \<le> g \<and> g < GENERATIONS)"
  unfolding holds_current_def by blast

lemma holds_alone:
  "(\<And>u task. u \<noteq> t \<Longrightarrow> hm_get u tasks = Some task \<Longrightarrow> task_holds w r task = None) \<Longrightarrow> n < GENERATIONS \<Longrightarrow>
     holds_current w r n (hm_remove t tasks)"
  unfolding holds_current_def by (auto split: if_splits)

definition server_current :: "bool \<Rightarrow> str \<Rightarrow> settings_server \<Rightarrow> bool" where
  "server_current w r sv \<longleftrightarrow> holds_current w r (repo_generation w (se_mem sv) r) (se_tasks sv)"

lemma advance_current:
  assumes cur: "server_current w r sv" and get: "hm_get t (se_tasks sv) = Some task"
    and alone: "\<And>key n d. task = Remove_Written key n d \<Longrightarrow> key = normalize_repo_path w r \<Longrightarrow>
      (\<And>u task. u \<noteq> t \<Longrightarrow> hm_get u (se_tasks sv) = Some task \<Longrightarrow> task_holds w r task = None)"
  shows "server_current w r (advance_task h t task sv)
    \<and> repo_generation w (se_mem sv) r \<le> repo_generation w (se_mem (advance_task h t task sv)) r"
proof -
  note task = holds_task [OF cur [unfolded server_current_def] get]
  note ins = holds_insert [OF cur [unfolded server_current_def]] and rem = holds_remove [OF cur [unfolded server_current_def]]
  show ?thesis
  proof (cases task)
    case (Put_Checked s)
    then show ?thesis using task rem ins [of "Put_Written s"]
      by (auto simp: advance_task_def server_current_def task_holds_def is_put_def split: option.split prod.split)
  next
    case (Put_Written s)
    then have "repo_generation w s r = repo_generation w (se_mem sv) r" using task by (simp add: task_holds_def is_put_def)
    then show ?thesis using Put_Written rem by (simp add: advance_task_def server_current_def put_commit_def)
  next
    case (Remove_Read key n d)
    then show ?thesis
      using task ins [of "Remove_Copied key n d (bumped key (generation_after n) d (se_mem sv))"]
      by (simp add: advance_task_def server_current_def task_holds_def is_put_def)
  next
    case (Remove_Copied key n d s)
    then show ?thesis using task rem ins [of "Remove_Written key n d"]
      by (auto simp: advance_task_def server_current_def task_holds_def is_put_def split: option.split prod.split)
  next
    case (Remove_Written key n d)
    show ?thesis
    proof (cases "key = normalize_repo_path w r")
      case True
      then have "repo_generation w (se_mem sv) r \<le> generation_after n \<and> generation_after n < GENERATIONS"
        using task Remove_Written by (simp add: task_holds_def is_put_def)
      moreover have "holds_current w r (generation_after n) (hm_remove t (se_tasks sv))"
        using alone [OF Remove_Written True] calculation by (intro holds_alone) auto
      ultimately show ?thesis using Remove_Written True
        by (simp add: advance_task_def server_current_def bumped_generation)
    next
      case False
      then have "repo_generation w (bumped key (generation_after n) d (se_mem sv)) r = repo_generation w (se_mem sv) r"
        by (simp add: bumped_generation)
      then show ?thesis using Remove_Written rem by (simp add: advance_task_def server_current_def)
    qed
  qed
qed

lemma step_current:
  assumes cur: "server_current (ch_windows h) r sv" and alone: "bumps_alone (ch_windows h) r ev sv"
  shows "server_current (ch_windows h) r (settings_step h url_ok ev sv)
    \<and> repo_generation (ch_windows h) (se_mem sv) r \<le> repo_generation (ch_windows h) (se_mem (settings_step h url_ok ev sv)) r"
proof (cases ev)
  case (Put_Begin t body)
  show ?thesis
  proof (cases "put_checked h url_ok body (se_mem sv)")
    case (Inr s)
    then show ?thesis
      using cur Put_Begin holds_insert [OF cur [unfolded server_current_def], of "Put_Checked s" t] checked_generations [OF Inr]
      by (simp add: server_current_def task_holds_def is_put_def)
  qed (use cur Put_Begin in simp)
next
  case (Remove_Begin t repo d)
  let ?w = "ch_windows h"
  let ?n = "repo_generation ?w (se_mem sv) repo"
  have "repo_generation ?w (se_mem sv) r \<le> generation_after ?n \<and> generation_after ?n < GENERATIONS"
    if "normalize_repo_path ?w repo = normalize_repo_path ?w r"
  proof -
    have "?n = repo_generation ?w (se_mem sv) r" using that repo_generation_key by metis
    moreover have "repo_generation ?w (se_mem sv) r < GENERATIONS" using cur by (simp add: server_current_def holds_current_def)
    ultimately show ?thesis using generation_after_bounds by metis
  qed
  then have "holds_current ?w r (repo_generation ?w (se_mem sv) r)
      (hm_insert t (Remove_Read (normalize_repo_path ?w repo) ?n d) (se_tasks sv))"
    by (intro holds_insert [OF cur [unfolded server_current_def]]) (auto simp: task_holds_def is_put_def split: if_splits)
  then show ?thesis using cur Remove_Begin by (simp add: server_current_def Let_def)
next
  case (Advance t fails)
  show ?thesis
  proof (cases "hm_get t (se_tasks sv)")
    case None
    then show ?thesis using Advance cur by simp
  next
    case (Some task)
    have "server_current (ch_windows h) r (advance_task (h\<lparr>ch_fails := fails\<rparr>) t task sv)
      \<and> repo_generation (ch_windows h) (se_mem sv) r
          \<le> repo_generation (ch_windows h) (se_mem (advance_task (h\<lparr>ch_fails := fails\<rparr>) t task sv)) r"
      by (rule advance_current [OF cur Some]) (use alone Advance Some in \<open>auto simp: bumps_alone_def\<close>)
    then show ?thesis using Advance Some by simp
  qed
qed

lemma run_current:
  "server_current (ch_windows h) r sv \<Longrightarrow> undisturbed h url_ok r evs sv \<Longrightarrow>
   server_current (ch_windows h) r (fold (settings_step h url_ok) evs sv)
   \<and> repo_generation (ch_windows h) (se_mem sv) r \<le> repo_generation (ch_windows h) (se_mem (fold (settings_step h url_ok) evs sv)) r"
proof (induction evs arbitrary: sv)
  case (Cons ev evs)
  then show ?case using step_current [of h r sv ev url_ok] by (auto intro: order_trans)
qed simp

lemma undisturbed_append:
  "undisturbed h url_ok r (xs @ ys) sv \<longleftrightarrow> undisturbed h url_ok r xs sv \<and> undisturbed h url_ok r ys (fold (settings_step h url_ok) xs sv)"
  by (induction xs arbitrary: sv) auto


definition idle_server :: settings_server where
  "idle_server = \<lparr>se_mem = default_settings, se_file = None, se_tasks = []\<rparr>"

abbreviation no_failures :: "write_phase \<Rightarrow> io_step \<Rightarrow> str option" where
  "no_failures \<equiv> (\<lambda>_ _. None)"

lemma unary_windows [simp]: "ch_windows unary_host = False"
  by (simp add: unary_host_def)

lemma write_quiet: "write_settings_atomic (h\<lparr>ch_fails := no_failures\<rparr>) phase s fl = (None, Some (ch_print h (JObject (settings_fields s))))"
  by (simp add: write_settings_atomic_def first_failure_def)

lemma default_generation: "repo_generation w default_settings r = 0"
  by (simp add: repo_generation_def default_settings_def)

lemma demo_keys: "normalize_repo_path False ''/a'' = ''/a''" "normalize_repo_path False ''/b'' = ''/b''"
  by (simp_all add: normalize_repo_path_def is_sep_def str_defs Let_def)

lemmas demo_run = idle_server_def advance_task_def write_quiet put_commit_def bumped_generation default_generation
  generation_after_def demo_keys hm_contains_iff


text \<open>The overlap: an update that the server accepts reads the memory, a removal of the repository runs to its
  end, the update writes and swaps the memory, and the generation that was removed is in use again.\<close>

lemma put_takes_bump_back:
  assumes "put_checked unary_host (\<lambda>_. True) body default_settings = Inr s"
  shows "repo_generation False (se_mem (fold (settings_step unary_host (\<lambda>_. True))
      [Put_Begin 1 body, Remove_Begin 2 ''/a'' False, Advance 2 no_failures, Advance 2 no_failures, Advance 2 no_failures] idle_server)) ''/a'' = 1"
    and "repo_generation False (se_mem (fold (settings_step unary_host (\<lambda>_. True))
      [Put_Begin 1 body, Remove_Begin 2 ''/a'' False, Advance 2 no_failures, Advance 2 no_failures, Advance 2 no_failures,
       Advance 1 no_failures, Advance 1 no_failures] idle_server)) ''/a'' = 0"
  using assms checked_generations [OF assms] by (simp_all add: demo_run Let_def)

text \<open>The copy that a removal writes is as old as its reading: a removal of another repository that copied the
  settings before writes the file without the bump, and a server that starts from that file has the old
  generation again.\<close>

lemma copied_settings_drop_bump:
  "map_option (\<lambda>task. case task of Remove_Copied k n d s \<Rightarrow> repo_generation False s ''/a'' | _ \<Rightarrow> 9)
     (hm_get 1 (se_tasks (fold (settings_step unary_host (\<lambda>_. True))
        [Remove_Begin 1 ''/b'' False, Advance 1 no_failures, Remove_Begin 2 ''/a'' False, Advance 2 no_failures, Advance 2 no_failures, Advance 2 no_failures]
        idle_server)))
   = Some 0"
  "repo_generation False (se_mem (fold (settings_step unary_host (\<lambda>_. True))
      [Remove_Begin 1 ''/b'' False, Advance 1 no_failures, Remove_Begin 2 ''/a'' False, Advance 2 no_failures, Advance 2 no_failures, Advance 2 no_failures]
      idle_server)) ''/a'' = 1"
  by (simp_all add: demo_run Let_def)

text \<open>The router's update writes the generations the client sent: one sent from a copy taken before a removal
  takes the removal's bump back.\<close>

lemma router_put_returns_generation:
  assumes "from_value v = Inr s" "normalize_docs_extensions (st_docs_extensions s) = Inr docs" "ch_fails h = (\<lambda>_ _. None)"
  shows "\<exists>s' is. fst (router_put_config h (Some v) fl) = (Saved s', is) \<and> st_repo_generations s' = st_repo_generations s"
  using assms
  by (auto simp: router_put_config_def Let_def write_settings_atomic_def first_failure_def split: prod.split)

text \<open>It also accepts what the server's own update refuses: an embedding dimension of 0.\<close>

lemma router_put_accepts_zero_dimension:
  assumes "from_value v = Inr s" "em_dimensions (st_embedding s) = Some 0" "em_voyage_base_url (st_embedding s) = None"
    and "normalize_docs_extensions (st_docs_extensions s) = Inr docs" "ch_fails h = (\<lambda>_ _. None)"
  shows "\<exists>s' is. fst (router_put_config h (Some v) fl) = (Saved s', is)"
    and "fst (put_config h url_ok is_dir (Some v) st) = (Bad_Request ''embedding.dimensions must be a positive integer'', [])"
  using assms
  by (auto simp: router_put_config_def put_config_def put_checked_def Let_def write_settings_atomic_def first_failure_def split: prod.split)

end
