(* ===== verification/Index_Status.thy ===== *)
theory Index_Status
  imports Hash_Map Paths
begin

text \<open>
  What the index engine tells about a repository (\<open>src/indexing/mod.rs\<close>): the status map with the
  live progress a run writes into it, the registration and the cancellation of runs, and the
  scheduler of the cache recompute that follows a completed run. \<open>win\<close> says whether paths are
  compared the Windows way. Times are readings of one clock, in milliseconds.
\<close>

section \<open>Statuses\<close>

datatype index_state = Idle | Indexing | Error

datatype index_phase = PhaseIdle | Embedding | SymbolIndex | ResolveEdges

record repo_status =
  rp_state :: index_state
  rp_indexed_files :: nat
  rp_total_files :: nat
  rp_last_indexed_at :: "int option"
  rp_error :: "str option"
  rp_phase :: index_phase
  rp_phase_done :: nat
  rp_phase_total :: nat

definition status_default :: repo_status where
  "status_default =
     \<lparr>rp_state = Idle, rp_indexed_files = 0, rp_total_files = 0, rp_last_indexed_at = None, rp_error = None,
      rp_phase = PhaseIdle, rp_phase_done = 0, rp_phase_total = 0\<rparr>"

type_synonym statuses = "(str, repo_status) hmap"

text \<open>\<open>map.entry(repo).or_default()\<close> and an update of what it returns.\<close>

definition upsert_status :: "str \<Rightarrow> (repo_status \<Rightarrow> repo_status) \<Rightarrow> statuses \<Rightarrow> statuses" where
  "upsert_status repo f m =
     hm_update repo f (if hm_contains repo m then m else hm_insert repo status_default m)"

lemma get_upsert_status [simp]:
  "hm_get r (upsert_status repo f m) =
     (if r = repo then Some (f (case hm_get repo m of None \<Rightarrow> status_default | Some s \<Rightarrow> s)) else hm_get r m)"
  by (auto simp: upsert_status_def hm_contains_iff split: option.splits)

lemma hm_ok_upsert_status [simp]: "hm_ok m \<Longrightarrow> hm_ok (upsert_status repo f m)"
  by (simp add: upsert_status_def)

section \<open>Live progress\<close>

text \<open>A run's handle onto its own entry.\<close>

datatype progress_call =
    SetRunTotal nat
  | SetProcessed nat
  | SetPhase index_phase
  | SetPhaseTotal nat
  | SetPhaseDone nat

definition set_run_total :: "nat \<Rightarrow> repo_status \<Rightarrow> repo_status" where
  "set_run_total t s = s\<lparr>rp_total_files := t\<rparr>"

definition set_processed :: "nat \<Rightarrow> repo_status \<Rightarrow> repo_status" where
  "set_processed p s = (if rp_indexed_files s < p then s\<lparr>rp_indexed_files := p\<rparr> else s)"

definition set_phase :: "index_phase \<Rightarrow> repo_status \<Rightarrow> repo_status" where
  "set_phase p s = s\<lparr>rp_phase := p, rp_phase_done := 0, rp_phase_total := 0\<rparr>"

definition set_phase_total :: "nat \<Rightarrow> repo_status \<Rightarrow> repo_status" where
  "set_phase_total t s = s\<lparr>rp_phase_total := t\<rparr>"

definition set_phase_done :: "nat \<Rightarrow> repo_status \<Rightarrow> repo_status" where
  "set_phase_done d s = (if rp_phase_done s < d then s\<lparr>rp_phase_done := d\<rparr> else s)"

fun progress_effect :: "progress_call \<Rightarrow> repo_status \<Rightarrow> repo_status" where
  "progress_effect (SetRunTotal t) = set_run_total t"
| "progress_effect (SetProcessed p) = set_processed p"
| "progress_effect (SetPhase p) = set_phase p"
| "progress_effect (SetPhaseTotal t) = set_phase_total t"
| "progress_effect (SetPhaseDone d) = set_phase_done d"

definition report :: "str \<Rightarrow> progress_call list \<Rightarrow> statuses \<Rightarrow> statuses" where
  "report repo calls m = fold (\<lambda>c. upsert_status repo (progress_effect c)) calls m"

lemma set_processed_files [simp]: "rp_indexed_files (set_processed p s) = max (rp_indexed_files s) p"
  by (simp add: set_processed_def)

lemma set_phase_done_done [simp]: "rp_phase_done (set_phase_done d s) = max (rp_phase_done s) d"
  by (simp add: set_phase_done_def)

lemma progress_keeps_state [simp]:
  "rp_state (progress_effect c s) = rp_state s"
  "rp_error (progress_effect c s) = rp_error s"
  "rp_last_indexed_at (progress_effect c s) = rp_last_indexed_at s"
  by (cases c; simp add: set_run_total_def set_processed_def set_phase_def set_phase_total_def set_phase_done_def)+

lemma progress_files:
  "rp_indexed_files (progress_effect c s) =
     (case c of SetProcessed p \<Rightarrow> max (rp_indexed_files s) p | _ \<Rightarrow> rp_indexed_files s)"
  by (cases c; simp add: set_run_total_def set_phase_def set_phase_total_def set_phase_done_def)

lemma report_other: "r \<noteq> repo \<Longrightarrow> hm_get r (report repo calls m) = hm_get r m"
  by (induction calls arbitrary: m) (simp_all add: report_def)

lemma report_entry:
  "hm_get repo m = Some s \<Longrightarrow> hm_get repo (report repo calls m) = Some (fold progress_effect calls s)"
  by (induction calls arbitrary: m s) (simp_all add: report_def)

lemma fold_progress_keeps [simp]:
  "rp_state (fold progress_effect calls s) = rp_state s"
  "rp_error (fold progress_effect calls s) = rp_error s"
  "rp_last_indexed_at (fold progress_effect calls s) = rp_last_indexed_at s"
  by (induction calls arbitrary: s) simp_all

lemma hm_ok_report: "hm_ok m \<Longrightarrow> hm_ok (report repo calls m)"
  by (induction calls arbitrary: m) (simp_all add: report_def)

text \<open>The file counter of the bar never goes back during a run.\<close>

lemma fold_progress_files: "rp_indexed_files s \<le> rp_indexed_files (fold progress_effect calls s)"
proof (induction calls arbitrary: s)
  case (Cons c cs)
  have "rp_indexed_files s \<le> rp_indexed_files (progress_effect c s)"
    by (simp add: progress_files split: progress_call.split)
  then show ?case using Cons [of "progress_effect c s"] by simp
qed simp

lemma bar_never_goes_back:
  "hm_get repo m = Some s \<Longrightarrow>
     \<exists>s'. hm_get repo (report repo calls m) = Some s' \<and> rp_indexed_files s \<le> rp_indexed_files s'"
  using report_entry fold_progress_files by blast

section \<open>Registration\<close>

text \<open>Both return the repository for which a watcher starts, if one does.\<close>

definition register_repo :: "bool \<Rightarrow> str \<Rightarrow> statuses \<Rightarrow> statuses \<times> str option" where
  "register_repo win repo m =
     (let repo = normalize_repo_path win repo
      in if hm_contains repo m then (m, None) else (hm_insert repo status_default m, Some repo))"

definition register_repo_no_watcher :: "bool \<Rightarrow> str \<Rightarrow> statuses \<Rightarrow> statuses" where
  "register_repo_no_watcher win repo m = upsert_status (normalize_repo_path win repo) id m"

definition get_repo_status :: "bool \<Rightarrow> str \<Rightarrow> statuses \<Rightarrow> repo_status option" where
  "get_repo_status win repo m = hm_get (normalize_repo_path win repo) m"

text \<open>The status part of \<open>clear_repo_index\<close>; the entry stays, so a later registration starts no second
  watcher.\<close>

definition clear_status :: "bool \<Rightarrow> str \<Rightarrow> statuses \<Rightarrow> statuses" where
  "clear_status win repo m = hm_update (normalize_repo_path win repo) (\<lambda>_. status_default) m"

lemma register_once:
  "snd (register_repo win repo (fst (register_repo win repo m))) = None"
  "snd (register_repo win repo (clear_status win repo (fst (register_repo win repo m)))) = None"
  by (auto simp: register_repo_def clear_status_def hm_contains_iff Let_def)

section \<open>Cancellation\<close>

text \<open>Tokens are numbers; a cancelled one is in the second set. A run takes a fresh token when it starts
  and gives it back when it ends.\<close>

record cancel_state =
  cs_tokens :: "(str, nat) hmap"
  cs_cancelled :: "nat set"
  cs_next :: nat

definition new_cancel_token :: "str \<Rightarrow> cancel_state \<Rightarrow> nat \<times> cancel_state" where
  "new_cancel_token repo c =
     (cs_next c, c\<lparr>cs_tokens := hm_insert repo (cs_next c) (cs_tokens c), cs_next := Suc (cs_next c)\<rparr>)"

definition clear_cancel_token :: "str \<Rightarrow> cancel_state \<Rightarrow> cancel_state" where
  "clear_cancel_token repo c = c\<lparr>cs_tokens := hm_remove repo (cs_tokens c)\<rparr>"

definition is_indexing :: "str \<Rightarrow> statuses \<Rightarrow> bool" where
  "is_indexing repo m = (case hm_get repo m of Some s \<Rightarrow> rp_state s = Indexing | None \<Rightarrow> False)"

definition cancel_index :: "bool \<Rightarrow> str \<Rightarrow> statuses \<Rightarrow> cancel_state \<Rightarrow> bool \<times> cancel_state" where
  "cancel_index win repo m c =
     (let repo = normalize_repo_path win repo
      in if \<not> is_indexing repo m then (False, c)
         else (case hm_get repo (cs_tokens c) of
                 Some t \<Rightarrow> (True, c\<lparr>cs_tokens := hm_remove repo (cs_tokens c), cs_cancelled := insert t (cs_cancelled c)\<rparr>)
               | None \<Rightarrow> (False, c)))"

definition tokens_fresh :: "cancel_state \<Rightarrow> bool" where
  "tokens_fresh c \<longleftrightarrow> (\<forall>r t. hm_get r (cs_tokens c) = Some t \<longrightarrow> t < cs_next c)
     \<and> (\<forall>t \<in> cs_cancelled c. t < cs_next c)"

text \<open>A new run never starts out cancelled, whatever was cancelled before, and a cancellation reaches
  the run that owns the repository.\<close>

lemma new_run_not_cancelled:
  "tokens_fresh c \<Longrightarrow> fst (new_cancel_token repo c) \<notin> cs_cancelled (snd (new_cancel_token repo c))"
  by (auto simp: tokens_fresh_def new_cancel_token_def)

lemma tokens_fresh_new: "tokens_fresh c \<Longrightarrow> tokens_fresh (snd (new_cancel_token repo c))"
  by (auto simp: tokens_fresh_def new_cancel_token_def less_Suc_eq split: if_splits)

lemma tokens_fresh_clear: "tokens_fresh c \<Longrightarrow> tokens_fresh (clear_cancel_token repo c)"
  by (auto simp: tokens_fresh_def clear_cancel_token_def split: if_splits)

lemma tokens_fresh_cancel: "tokens_fresh c \<Longrightarrow> tokens_fresh (snd (cancel_index win repo m c))"
  by (auto simp: tokens_fresh_def cancel_index_def Let_def split: option.splits if_splits)

lemma cancel_reaches_run:
  "hm_get (normalize_repo_path win repo) m = Some s \<Longrightarrow> rp_state s = Indexing \<Longrightarrow>
   cancel_index win repo m (snd (new_cancel_token (normalize_repo_path win repo) c)) = (True, c') \<Longrightarrow>
   fst (new_cancel_token (normalize_repo_path win repo) c) \<in> cs_cancelled c'"
  by (auto simp: cancel_index_def new_cancel_token_def is_indexing_def Let_def)

text \<open>\<open>locked\<close>: the run lock is held.\<close>

definition is_index_busy :: "bool \<Rightarrow> bool \<Rightarrow> str \<Rightarrow> statuses \<Rightarrow> bool" where
  "is_index_busy locked win repo m \<longleftrightarrow> locked \<or> is_indexing (normalize_repo_path win repo) m"

end
