(* ===== verification/Readiness.thy ===== *)
theory Readiness
  imports Index_Status Query_Engine Settings Json
begin

text \<open>
  Whether a query may be answered from the stored index (\<open>src/mcp/readiness.rs\<close>), and what the REST
  search endpoint does with the decision (\<open>src/mcp/query_gate.rs\<close>). The date library is the argument
  \<open>parse\<close> (a stamp's instant, if it is one) and \<open>days\<close> (the length of so many days); the readings of
  the clock and what the database, the engine and the trigger channel answer are the fields of an
  observation.
\<close>

section \<open>The decision\<close>

record repo_index_state =
  ix_run_state_is_indexing :: bool
  ix_repo_is_mutating :: bool
  ix_chunk_count :: nat
  ix_last_indexed_ts :: "str option"

datatype query_readiness = ServeExisting bool | WaitForRun | TriggerThenWait | ServeStale bool

definition serves_existing_index :: "query_readiness \<Rightarrow> bool" where
  "serves_existing_index r = (case r of ServeExisting _ \<Rightarrow> True | _ \<Rightarrow> False)"

definition requires_wait :: "query_readiness \<Rightarrow> bool" where
  "requires_wait r = (case r of WaitForRun \<Rightarrow> True | TriggerThenWait \<Rightarrow> True | _ \<Rightarrow> False)"

definition requires_trigger :: "query_readiness \<Rightarrow> bool" where
  "requires_trigger r =
     (case r of TriggerThenWait \<Rightarrow> True | ServeExisting b \<Rightarrow> b | ServeStale b \<Rightarrow> b | WaitForRun \<Rightarrow> False)"

text \<open>The clock is read twice; \<open>now1\<close> and \<open>now2\<close> are the readings.\<close>

definition evaluate :: "(str \<Rightarrow> int option) \<Rightarrow> int \<Rightarrow> int \<Rightarrow> int \<Rightarrow> repo_index_state \<Rightarrow> query_readiness" where
  "evaluate parse now1 now2 stale_threshold st =
     (let parsed_stamp = Option.bind (ix_last_indexed_ts st) parse;
          serves_existing =
            (if ix_repo_is_mutating st \<or> ix_chunk_count st = 0 then False
             else (case parsed_stamp of None \<Rightarrow> True | Some dt \<Rightarrow> now1 - dt \<le> stale_threshold))
      in if serves_existing then ServeExisting (parsed_stamp = None \<and> \<not> ix_run_state_is_indexing st)
         else let last_run_is_recent = (case parsed_stamp of None \<Rightarrow> False | Some dt \<Rightarrow> now2 - dt \<le> stale_threshold)
              in if last_run_is_recent \<and> (ix_repo_is_mutating st \<or> ix_chunk_count st = 0)
                 then ServeStale (\<not> ix_run_state_is_indexing st)
                 else if ix_run_state_is_indexing st then WaitForRun else TriggerThenWait)"

section \<open>Waiting for a run\<close>

text \<open>Durations and clock readings in milliseconds. An error is the text its report shows.\<close>

datatype index_readiness = Ready nat | ReadyVectorOnly nat | ReadyStale nat | Timeout | Failed str

definition INDEX_READY_POLL_INTERVAL :: nat where "INDEX_READY_POLL_INTERVAL = 500"

definition readiness_graph_pending :: "index_readiness \<Rightarrow> bool" where
  "readiness_graph_pending r = (case r of ReadyVectorOnly _ \<Rightarrow> True | ReadyStale _ \<Rightarrow> True | _ \<Rightarrow> False)"

definition readiness_warm_budget :: "index_readiness \<Rightarrow> nat option" where
  "readiness_warm_budget r =
     (case r of Ready b \<Rightarrow> Some b | ReadyVectorOnly b \<Rightarrow> Some b | ReadyStale b \<Rightarrow> Some b | _ \<Rightarrow> None)"

text \<open>\<open>None\<close> where the source panics.\<close>

definition readiness_graph_mode :: "index_readiness \<Rightarrow> graph_mode option" where
  "readiness_graph_mode r =
     (case r of Ready _ \<Rightarrow> Some Full | ReadyVectorOnly _ \<Rightarrow> Some VectorOnly | ReadyStale _ \<Rightarrow> Some VectorOnly | _ \<Rightarrow> None)"

definition is_resolve_edges_status :: "repo_status option \<Rightarrow> bool" where
  "is_resolve_edges_status s =
     (case s of None \<Rightarrow> False | Some s \<Rightarrow> rp_state s = Indexing \<and> rp_phase s = ResolveEdges)"

definition poll_outcome :: "nat \<Rightarrow> repo_status option \<Rightarrow> nat \<Rightarrow> index_readiness option" where
  "poll_outcome deadline status now =
     (if is_resolve_edges_status status then Some (ReadyVectorOnly (deadline - now))
      else let timed = (if deadline \<le> now then Some Timeout else None)
           in case status of
                None \<Rightarrow> timed
              | Some s \<Rightarrow>
                  (case rp_state s of
                     Idle \<Rightarrow> Some (Ready (deadline - now))
                   | Error \<Rightarrow> Some (Failed (''indexing failed: ''
                        @ (case rp_error s of Some e \<Rightarrow> e | None \<Rightarrow> ''unknown indexing error'')))
                   | Indexing \<Rightarrow> timed))"

text \<open>\<open>polls i\<close> is the status that poll \<open>i\<close> reads and the clock after it. The loop has no other bound than
  its deadline: the first argument is fuel.\<close>

fun wait_loop :: "nat \<Rightarrow> nat \<Rightarrow> (nat \<Rightarrow> repo_status option \<times> nat) \<Rightarrow> nat \<Rightarrow> index_readiness option" where
  "wait_loop 0 deadline polls i = None"
| "wait_loop (Suc fuel) deadline polls i =
     (case poll_outcome deadline (fst (polls i)) (snd (polls i)) of
        Some r \<Rightarrow> Some r
      | None \<Rightarrow> wait_loop fuel deadline polls (Suc i))"

definition wait_for_run :: "nat \<Rightarrow> nat \<Rightarrow> (nat \<Rightarrow> repo_status option \<times> nat) \<Rightarrow> nat \<Rightarrow> index_readiness option" where
  "wait_for_run fuel now polls budget = wait_loop fuel (now + budget) polls 0"

text \<open>What a sleep before every poll guarantees of the clock.\<close>

definition polls_sleep :: "nat \<Rightarrow> (nat \<Rightarrow> repo_status option \<times> nat) \<Rightarrow> bool" where
  "polls_sleep now polls \<longleftrightarrow> (\<forall>i. now + INDEX_READY_POLL_INTERVAL * Suc i \<le> snd (polls i))"

lemma poll_outcome_late: "deadline \<le> now \<Longrightarrow> poll_outcome deadline status now \<noteq> None"
  by (auto simp: poll_outcome_def Let_def split: option.splits index_state.splits)

lemma wait_loop_first:
  "n < fuel \<Longrightarrow> poll_outcome deadline (fst (polls (i + n))) (snd (polls (i + n))) \<noteq> None \<Longrightarrow>
   \<exists>k r. k \<le> n \<and> wait_loop fuel deadline polls i = Some r
       \<and> poll_outcome deadline (fst (polls (i + k))) (snd (polls (i + k))) = Some r"
proof (induction fuel arbitrary: n i)
  case (Suc fuel)
  show ?case
  proof (cases "poll_outcome deadline (fst (polls i)) (snd (polls i))")
    case None
    then obtain m where m: "n = Suc m" using Suc.prems by (cases n) auto
    then obtain k r where "k \<le> m" "wait_loop fuel deadline polls (Suc i) = Some r"
      "poll_outcome deadline (fst (polls (Suc i + k))) (snd (polls (Suc i + k))) = Some r"
      using Suc.IH [of m "Suc i"] Suc.prems by auto
    then show ?thesis using None m by (intro exI [of _ "Suc k"] exI [of _ r]) simp
  next
    case (Some r)
    then show ?thesis by (intro exI [of _ 0] exI [of _ r]) simp
  qed
qed simp

text \<open>C33: the wait ends. Every poll sleeps first, so however the run behaves, and whatever the clock
  does beyond that, the loop returns within one poll more than the budget holds of the poll interval;
  its answer is that of a poll it made, and it leaves a query no more time to warm the shard than the
  budget.\<close>

theorem wait_returns:
  assumes "polls_sleep now polls" "budget div INDEX_READY_POLL_INTERVAL < fuel"
  shows "\<exists>k r. k \<le> budget div INDEX_READY_POLL_INTERVAL
      \<and> wait_for_run fuel now polls budget = Some r
      \<and> poll_outcome (now + budget) (fst (polls k)) (snd (polls k)) = Some r
      \<and> (\<forall>b. readiness_warm_budget r = Some b \<longrightarrow> b \<le> budget)"
proof -
  let ?n = "budget div INDEX_READY_POLL_INTERVAL"
  have late: "now + budget \<le> snd (polls ?n)"
  proof -
    have "budget \<le> INDEX_READY_POLL_INTERVAL * Suc ?n"
      using dividend_less_times_div [of INDEX_READY_POLL_INTERVAL budget]
      by (simp add: INDEX_READY_POLL_INTERVAL_def)
    then show ?thesis using assms(1) by (meson add_left_mono le_trans polls_sleep_def)
  qed
  obtain k r where k: "k \<le> ?n" "wait_loop fuel (now + budget) polls 0 = Some r"
    "poll_outcome (now + budget) (fst (polls k)) (snd (polls k)) = Some r"
    using wait_loop_first [OF assms(2), of "now + budget" polls 0] poll_outcome_late [OF late] by auto
  have "now \<le> snd (polls k)" using assms(1) by (metis polls_sleep_def add_leD1)
  then have "readiness_warm_budget r = Some b \<Longrightarrow> b \<le> budget" for b
    using k(3)
    by (auto simp: poll_outcome_def readiness_warm_budget_def Let_def split: option.splits index_state.splits if_splits)
  then show ?thesis using k by (auto simp: wait_for_run_def)
qed

lemma wait_returns_witness:
  "\<exists>r. wait_for_run 3 7 (\<lambda>i. (None, 7 + 500 * Suc i)) 1000 = Some r"
  using wait_returns [of 7 "\<lambda>i. (None, 7 + 500 * Suc i)" 1000 3]
  by (auto simp: polls_sleep_def INDEX_READY_POLL_INTERVAL_def)

section \<open>One query's readiness\<close>

record observation =
  ob_open_error :: "str option"
  ob_chunk_count :: "nat option"
  ob_last_indexed_at :: "str option option"
  ob_status :: "repo_status option"
  ob_mutating :: bool
  ob_trigger_error :: "str option"
  ob_now1 :: int
  ob_now2 :: int

definition index_state_of :: "observation \<Rightarrow> repo_index_state" where
  "index_state_of ob =
     \<lparr>ix_run_state_is_indexing = (case ob_status ob of Some s \<Rightarrow> rp_state s = Indexing | None \<Rightarrow> False),
      ix_repo_is_mutating = ob_mutating ob,
      ix_chunk_count = (case ob_chunk_count ob of Some n \<Rightarrow> n | None \<Rightarrow> 0),
      ix_last_indexed_ts = (case ob_last_indexed_at ob of Some ts \<Rightarrow> ts | None \<Rightarrow> None)\<rparr>"

text \<open>\<open>u64 as i64\<close>.\<close>

definition as_i64 :: "nat \<Rightarrow> int" where
  "as_i64 n = sint (of_nat n :: u64)"

text \<open>Either the decision at once, or the wait (\<open>None\<close>); the second component says whether a run was
  queued.\<close>

definition decide ::
  "(str \<Rightarrow> int option) \<Rightarrow> (int \<Rightarrow> int) \<Rightarrow> nat \<Rightarrow> nat \<Rightarrow> observation \<Rightarrow> index_readiness option \<times> bool" where
  "decide parse days full_budget stale_after_days ob =
     (case ob_open_error ob of
        Some e \<Rightarrow> (Some (Failed (''failed to open repository index: '' @ e)), False)
      | None \<Rightarrow>
          if is_resolve_edges_status (ob_status ob) then (Some (ReadyVectorOnly full_budget), False)
          else let r = evaluate parse (ob_now1 ob) (ob_now2 ob) (days (as_i64 stale_after_days)) (index_state_of ob)
               in if requires_trigger r \<and> ob_trigger_error ob \<noteq> None then (Some (Failed (the (ob_trigger_error ob))), False)
                  else ((case r of
                           ServeStale _ \<Rightarrow> Some (ReadyStale full_budget)
                         | _ \<Rightarrow> if requires_wait r then None else Some (Ready full_budget)),
                        requires_trigger r))"

definition await_index_ready ::
  "nat \<Rightarrow> (str \<Rightarrow> int option) \<Rightarrow> (int \<Rightarrow> int) \<Rightarrow> settings \<Rightarrow> observation
    \<Rightarrow> nat \<Rightarrow> (nat \<Rightarrow> repo_status option \<times> nat) \<Rightarrow> index_readiness option \<times> bool" where
  "await_index_ready fuel parse days settings ob now polls =
     (let full_budget = 1000 * st_mcp_index_wait_secs settings;
          d = decide parse days full_budget (st_mcp_stale_after_days settings) ob
      in case d of
           (Some r, triggered) \<Rightarrow> (Some r, triggered)
         | (None, triggered) \<Rightarrow> (wait_for_run fuel now polls full_budget, triggered))"

lemma evaluate_serves:
  "evaluate parse n1 n2 th st = ServeExisting b \<longleftrightarrow>
     \<not> ix_repo_is_mutating st \<and> ix_chunk_count st \<noteq> 0
     \<and> (case Option.bind (ix_last_indexed_ts st) parse of
          None \<Rightarrow> b = (\<not> ix_run_state_is_indexing st) | Some dt \<Rightarrow> n1 - dt \<le> th \<and> \<not> b)"
  by (auto simp: evaluate_def Let_def split: option.splits)

lemma evaluate_serves_stale:
  "evaluate parse n1 n2 th st = ServeStale b \<longleftrightarrow>
     (ix_repo_is_mutating st \<or> ix_chunk_count st = 0) \<and> b = (\<not> ix_run_state_is_indexing st)
     \<and> (\<exists>dt. Option.bind (ix_last_indexed_ts st) parse = Some dt \<and> n2 - dt \<le> th)"
  by (auto simp: evaluate_def Let_def split: option.splits)

lemma evaluate_triggers:
  "requires_trigger (evaluate parse n1 n2 th st) \<Longrightarrow> \<not> ix_run_state_is_indexing st"
  by (auto simp: evaluate_def requires_trigger_def Let_def split: option.splits if_splits)

text \<open>An index is usable when nothing is rewriting it, it holds chunks, and its completion stamp, if it
  can be read, is recent.\<close>

definition usable :: "(str \<Rightarrow> int option) \<Rightarrow> (int \<Rightarrow> int) \<Rightarrow> nat \<Rightarrow> observation \<Rightarrow> bool" where
  "usable parse days stale_after_days ob \<longleftrightarrow>
     (let st = index_state_of ob
      in \<not> ix_repo_is_mutating st \<and> 0 < ix_chunk_count st
         \<and> (\<forall>dt. Option.bind (ix_last_indexed_ts st) parse = Some dt
              \<longrightarrow> ob_now1 ob - dt \<le> days (as_i64 stale_after_days)))"

definition recently_completed :: "(str \<Rightarrow> int option) \<Rightarrow> (int \<Rightarrow> int) \<Rightarrow> nat \<Rightarrow> observation \<Rightarrow> bool" where
  "recently_completed parse days stale_after_days ob \<longleftrightarrow>
     (\<exists>dt. Option.bind (ix_last_indexed_ts (index_state_of ob)) parse = Some dt
        \<and> ob_now2 ob - dt \<le> days (as_i64 stale_after_days))"

text \<open>C32: what a query may be answered from without waiting. With the whole index (call graph included)
  only when that index is usable: never while a run rewrites it, never an empty one, never one whose
  readable stamp is too old. Vector-only from the live index only while a run resolves call edges.
  From the previous index's snapshot only when the last completed run is recent. And a query queues a
  run only when no run owns the repository.\<close>

theorem readiness_safe:
  "(fst (decide parse days budget stale ob) = Some (Ready b)
      \<longrightarrow> b = budget \<and> usable parse days stale ob \<and> \<not> is_resolve_edges_status (ob_status ob))
    \<and> (fst (decide parse days budget stale ob) = Some (ReadyVectorOnly b)
      \<longrightarrow> b = budget \<and> is_resolve_edges_status (ob_status ob))
    \<and> (fst (decide parse days budget stale ob) = Some (ReadyStale b)
      \<longrightarrow> b = budget \<and> recently_completed parse days stale ob \<and> \<not> usable parse days stale ob)
    \<and> fst (decide parse days budget stale ob) \<noteq> Some Timeout
    \<and> (snd (decide parse days budget stale ob)
      \<longrightarrow> (\<forall>s. ob_status ob = Some s \<longrightarrow> rp_state s \<noteq> Indexing))"
proof -
  let ?st = "index_state_of ob"
  let ?r = "evaluate parse (ob_now1 ob) (ob_now2 ob) (days (as_i64 stale)) ?st"
  have live: "usable parse days stale ob" if "?r = ServeExisting c" for c
    using that by (auto simp: evaluate_serves usable_def Let_def)
  have snapshot: "recently_completed parse days stale ob \<and> \<not> usable parse days stale ob" if "?r = ServeStale c" for c
    using that by (auto simp: evaluate_serves_stale recently_completed_def usable_def Let_def)
  have owner: "ob_status ob = Some s \<Longrightarrow> rp_state s \<noteq> Indexing" if "requires_trigger ?r" for s
    using evaluate_triggers [OF that] by (auto simp: index_state_of_def)
  show ?thesis
  proof (cases "ob_open_error ob")
    case None
    show ?thesis
    proof (cases "is_resolve_edges_status (ob_status ob)")
      case True
      then show ?thesis using None by (simp add: decide_def)
    next
      case False
      show ?thesis
        using None False live snapshot owner
        by (cases ?r) (auto simp: decide_def requires_trigger_def requires_wait_def Let_def split: if_splits)
    qed
  qed (simp add: decide_def)
qed

definition demo_observation :: observation where
  "demo_observation =
     \<lparr>ob_open_error = None, ob_chunk_count = Some 3, ob_last_indexed_at = Some (Some ''t''), ob_status = Some status_default,
      ob_mutating = False, ob_trigger_error = None, ob_now1 = 9, ob_now2 = 9\<rparr>"

lemma readiness_safe_witness:
  "fst (decide (\<lambda>_. Some 4) (\<lambda>d. d) 60 7 demo_observation) = Some (Ready 60)
    \<and> usable (\<lambda>_. Some 4) (\<lambda>d. d) 7 demo_observation"
proof -
  have "as_i64 7 = 7" by (simp add: as_i64_def)
  then have "fst (decide (\<lambda>_. Some 4) (\<lambda>d. d) 60 7 demo_observation) = Some (Ready 60)"
    by (simp add: decide_def demo_observation_def is_resolve_edges_status_def status_default_def index_state_of_def
        evaluate_def requires_trigger_def requires_wait_def)
  then show ?thesis using readiness_safe [of "\<lambda>_. Some 4" "\<lambda>d. d" 60 7 demo_observation 60] by simp
qed

section \<open>The REST endpoint's gate\<close>

datatype rest_action = Query graph_mode nat bool | Warming | GateFailed str

definition WARMING_STATUS :: nat where "WARMING_STATUS = 503"
definition INDEX_FAILED_STATUS :: nat where "INDEX_FAILED_STATUS = 502"

definition query_parts :: "rest_action \<Rightarrow> (graph_mode \<times> nat \<times> bool) option" where
  "query_parts g = (case g of Query m b p \<Rightarrow> Some (m, b, p) | _ \<Rightarrow> None)"

definition degrade_status :: "rest_action \<Rightarrow> nat option" where
  "degrade_status g =
     (case g of Query _ _ _ \<Rightarrow> None | Warming \<Rightarrow> Some WARMING_STATUS | GateFailed _ \<Rightarrow> Some INDEX_FAILED_STATUS)"

definition degrade_body :: "rest_action \<Rightarrow> json option" where
  "degrade_body g =
     (case g of
        Query _ _ _ \<Rightarrow> None
      | Warming \<Rightarrow> Some (JObject [(''status'', JString ''warming''),
          (''error'', JString ''indexing is still in progress; retry shortly''), (''retry'', JBool True)])
      | GateFailed message \<Rightarrow> Some (JObject [(''status'', JString ''error''), (''error'', JString message),
          (''retry'', JBool False)]))"

definition rest_gate :: "index_readiness \<Rightarrow> rest_action" where
  "rest_gate r =
     (case r of
        Ready b \<Rightarrow> Query Full b False
      | ReadyVectorOnly b \<Rightarrow> Query VectorOnly b True
      | ReadyStale b \<Rightarrow> Query VectorOnly b True
      | Timeout \<Rightarrow> Warming
      | Failed error \<Rightarrow> GateFailed error)"

text \<open>The gate and the readiness agree on the graph mode, the budget and the pending flag, and a degrade
  has a body exactly when the query does not run.\<close>

lemma gate_agrees:
  "query_parts (rest_gate r) =
     (case (readiness_graph_mode r, readiness_warm_budget r) of
        (Some m, Some b) \<Rightarrow> Some (m, b, readiness_graph_pending r) | _ \<Rightarrow> None)"
  "degrade_body (rest_gate r) = None \<longleftrightarrow> query_parts (rest_gate r) \<noteq> None"
  "degrade_status (rest_gate r) = None \<longleftrightarrow> query_parts (rest_gate r) \<noteq> None"
  by (cases r; simp add: rest_gate_def query_parts_def degrade_body_def degrade_status_def readiness_graph_mode_def
      readiness_warm_budget_def readiness_graph_pending_def)+

section \<open>What the wait does not see\<close>

text \<open>A status of \<open>Idle\<close> at the first poll means that the queued run has not started yet as well as that
  it is over: for a repository never indexed, whose trigger waits behind another repository's run, the
  answer is \<open>Ready\<close> with the whole graph over an empty index. The same holds after a cancelled run
  that left the repository fenced.\<close>

lemma queued_run_taken_for_done:
  assumes "ob_open_error ob = None" "ob_trigger_error ob = None" "ob_chunk_count ob = Some 0"
    "ob_last_indexed_at ob = Some None" "ob_status ob = Some status_default"
    "fst (polls 0) = Some status_default"
  shows "await_index_ready (Suc fuel) parse days settings ob now polls
     = (Some (Ready (now + 1000 * st_mcp_index_wait_secs settings - snd (polls 0))), True)"
proof -
  have d: "decide parse days budget stale ob = (None, True)" for budget stale
    using assms
    by (simp add: decide_def is_resolve_edges_status_def status_default_def index_state_of_def evaluate_def
        requires_trigger_def requires_wait_def)
  show ?thesis
    using assms(6)
    by (simp add: await_index_ready_def d wait_for_run_def poll_outcome_def is_resolve_edges_status_def status_default_def)
qed

text \<open>An error left by an earlier run answers the query that has just queued a new one.\<close>

lemma old_error_answers:
  assumes "fst (polls 0) = Some s" "rp_state s = Error" "rp_error s = Some e"
  shows "wait_for_run (Suc fuel) now polls budget = Some (Failed (''indexing failed: '' @ e))"
  using assms by (simp add: wait_for_run_def poll_outcome_def is_resolve_edges_status_def)

text \<open>A staleness setting of \<open>2 ^ 63\<close> days or more is a negative one: every stamped index is stale.\<close>

lemma huge_staleness_is_negative:
  assumes "2 ^ 63 \<le> n" "n < 2 ^ 64"
  shows "as_i64 n < 0"
proof -
  obtain d where d: "n = 2 ^ 63 + d" using assms(1) le_Suc_ex by blast
  then have "int d < 2 ^ 63" using assms(2) by simp
  then have "(int n + 2 ^ 63) mod 2 ^ 64 = int d" unfolding d by simp
  then show ?thesis
    using \<open>int d < 2 ^ 63\<close>
    by (simp add: as_i64_def signed_of_nat signed_take_bit_eq_take_bit_shift take_bit_eq_mod)
qed

end
