(* ===== verification/Mcp_Output.thy ===== *)
theory Mcp_Output
  imports Query_Engine Proxy Source_Paths
begin

text \<open>
  The text a retrieval tool answers with (\<open>src/mcp.rs\<close>): the result blocks merged per file, their
  headers, the assembly under the output limit, and the search hint that closes the answer. The
  ellipsis (U+2026) is outside the model's characters: it is the argument \<open>ell\<close>. \<open>win\<close> is
  \<open>cfg!(windows)\<close>; \<open>perm\<close> is the iteration order of the hash map of files and \<open>srt\<close> the unstable sort.
\<close>

definition MAX_TOOL_OUTPUT_CHARS :: nat where "MAX_TOOL_OUTPUT_CHARS = 48000"
definition MAX_FIRST_LINE_CHARS :: nat where "MAX_FIRST_LINE_CHARS = 120"

record output_block =
  bl_header :: str
  bl_content :: str
  bl_file :: str
  bl_line_start :: nat
  bl_line_end :: nat
  bl_callers :: "nat option"
  bl_caller_files :: "nat option"
  bl_caller_names :: "str list"
  bl_callee_names :: "str list"
  bl_callees :: "nat option"
  bl_symbols :: "str list"
  bl_duplicates :: "str list"

section \<open>The symbols worth a search\<close>

definition GREP_HINT_MAX_SYMBOLS :: nat where "GREP_HINT_MAX_SYMBOLS = 5"
definition GREP_HINT_MAX_BLOCKS :: nat where "GREP_HINT_MAX_BLOCKS = 5"
definition GREP_HINT_MIN_NAME_LEN :: nat where "GREP_HINT_MIN_NAME_LEN = 4"
definition GREP_HINT_MAX_NAME_LEN :: nat where "GREP_HINT_MAX_NAME_LEN = 40"
definition GREP_HINT_MAX_PATTERN_CHARS :: nat where "GREP_HINT_MAX_PATTERN_CHARS = 100"
definition GREP_HINT_MAX_CHARS :: nat where "GREP_HINT_MAX_CHARS = 400"
definition GREP_HINT_MAX_DEFINED_PER_BLOCK :: nat where "GREP_HINT_MAX_DEFINED_PER_BLOCK = 3"
definition GREP_HINT_MAX_CALLEES_PER_BLOCK :: nat where "GREP_HINT_MAX_CALLEES_PER_BLOCK = 3"

definition is_ascii_alphabetic :: "char \<Rightarrow> bool" where
  "is_ascii_alphabetic c \<longleftrightarrow> (let n = code c in (65 \<le> n \<and> n \<le> 90) \<or> (97 \<le> n \<and> n \<le> 122))"

definition is_word_char :: "char \<Rightarrow> bool" where
  "is_word_char c \<longleftrightarrow> char_is_ascii_alphanumeric c \<or> c = CHR ''_''"

definition is_greppable_symbol :: "str \<Rightarrow> bool" where
  "is_greppable_symbol name \<longleftrightarrow>
     GREP_HINT_MIN_NAME_LEN \<le> str_len name \<and> str_len name \<le> GREP_HINT_MAX_NAME_LEN
     \<and> (case name of [] \<Rightarrow> False | c # _ \<Rightarrow> is_ascii_alphabetic c \<or> c = CHR ''_'')
     \<and> (\<forall>c \<in> set name. is_word_char c)"

definition hint_symbol :: "str \<Rightarrow> str \<Rightarrow> str option \<Rightarrow> str option \<Rightarrow> str option" where
  "hint_symbol fl repo symbol kind =
     (case symbol of
        None \<Rightarrow> None
      | Some symbol \<Rightarrow>
          if (case kind of Some k \<Rightarrow> eq_ignore_ascii_case k ''module'' | None \<Rightarrow> False) then None
          else
            (case (if (case kind of Some k \<Rightarrow> eq_ignore_ascii_case k ''impl'' | None \<Rightarrow> False)
                   then map_option (\<lambda>ty. hd (split_on (\<lambda>c. c = CHR ''<'') ty)) (strip_prefix symbol ''impl_'')
                   else Some symbol) of
               None \<Rightarrow> None
             | Some symbol \<Rightarrow>
                 if is_generated_file fl \<or> is_test_path (repo_relative fl repo) then None else Some symbol))"

record defined_symbol =
  ds_name :: str
  ds_kind :: "str option"
  ds_line_start :: nat
  ds_line_end :: nat

definition pick_block_symbols :: "defined_symbol list \<Rightarrow> nat \<Rightarrow> nat \<Rightarrow> defined_symbol list" where
  "pick_block_symbols syms s e =
     (let overlapping = filter (\<lambda>r. ds_line_start r \<le> e \<and> s \<le> ds_line_end r) syms;
          inside = filter (\<lambda>r. s \<le> ds_line_start r) overlapping
      in if inside = []
         then (case first_min_by (\<lambda>r. ds_line_end r - ds_line_start r) overlapping of None \<Rightarrow> [] | Some r \<Rightarrow> [r])
         else sort_by (\<lambda>a b. ds_line_start a \<le> ds_line_start b) inside)"

definition has_inline_test_marker :: "str \<Rightarrow> bool" where
  "has_inline_test_marker body \<longleftrightarrow>
     (\<exists>marker \<in> set [''#[test]'', ''#[tokio::test]'', ''#[cfg(test)]'']. contains_str body marker)"

definition is_test_marked :: "str \<Rightarrow> nat \<Rightarrow> bool" where
  "is_test_marked source line_start =
     (let begin_at = max (line_start - 3) 1;
          window = take (line_start - begin_at + 1) (drop (begin_at - 1) (str_lines source))
      in has_inline_test_marker (join [newline] window))"

definition defined_symbols_for :: "db_map \<Rightarrow> str \<Rightarrow> nat \<Rightarrow> nat \<Rightarrow> defined_symbol list" where
  "defined_symbols_for m fl s e =
     (case find_db_for_file m fl of
        None \<Rightarrow> []
      | Some db \<Rightarrow>
          (case query_overlapping_symbols db fl s e of
             None \<Rightarrow> []
           | Some found \<Rightarrow>
               map (\<lambda>r. \<lparr>ds_name = sr_name r, ds_kind = sr_kind r, ds_line_start = u32_of_i64 (max 0 (sr_start r)),
                         ds_line_end = u32_of_i64 (max 0 (sr_end r))\<rparr>) found))"

definition block_hint_symbols :: "file_system \<Rightarrow> db_map \<Rightarrow> str \<Rightarrow> code_result \<Rightarrow> str list" where
  "block_hint_symbols fs m repo r =
     (let fl = cr_result_file r
      in if cr_symbol r \<noteq> None
         then (case hint_symbol fl repo (cr_symbol r) (cr_symbol_kind r) of None \<Rightarrow> [] | Some n \<Rightarrow> [n])
         else if has_inline_test_marker (cr_text r) then []
         else
           (let syms = defined_symbols_for m fl (cr_line_start r) (cr_line_end r);
                source = (if ends_with fl ''.rs'' then (case fs fl of Some t \<Rightarrow> t | None \<Rightarrow> []) else []);
                in_test_scope = (\<exists>s \<in> set syms. ds_line_start s < cr_line_start r \<and> cr_line_end r \<le> ds_line_end s
                                   \<and> is_test_marked source (ds_line_start s))
            in if syms = [] \<or> in_test_scope then []
               else take GREP_HINT_MAX_DEFINED_PER_BLOCK
                      (List.map_filter (\<lambda>s. hint_symbol fl repo (Some (ds_name s)) (ds_kind s))
                        (filter (\<lambda>s. \<not> is_test_marked source (ds_line_start s))
                          (pick_block_symbols syms (cr_line_start r) (cr_line_end r))))))"

section \<open>The hint\<close>

definition MCP_GREP_HINT :: str where
  "MCP_GREP_HINT =
     ''---'' @ [newline]
     @ ''Results above are top-k, not exhaustive. To find every usage of a symbol, search the repo literally:'' @ [newline]
     @ ''rg '' @ [CHR 0x27] @ ''{{pattern}}'' @ [CHR 0x27] @ ''   (or: grep -rE '' @ [CHR 0x27] @ ''{{pattern}}''
     @ [CHR 0x27] @ '')'' @ [newline]"

fun collect_names :: "str list \<Rightarrow> nat \<Rightarrow> str list \<Rightarrow> str list" where
  "collect_names names pattern_len [] = names"
| "collect_names names pattern_len (name # rest) =
     (if GREP_HINT_MAX_SYMBOLS \<le> length names then names
      else if \<not> is_greppable_symbol name \<or> name \<in> set names then collect_names names pattern_len rest
      else
        (let added = str_len name + (if names = [] then 0 else 1)
         in if GREP_HINT_MAX_PATTERN_CHARS < pattern_len + added then collect_names names pattern_len rest
            else collect_names (names @ [name]) (pattern_len + added) rest))"

definition hint_names :: "output_block list \<Rightarrow> str list" where
  "hint_names blocks =
     (let top = take GREP_HINT_MAX_BLOCKS blocks;
          defined = concat (map bl_symbols top);
          callees = concat (map (\<lambda>b. take GREP_HINT_MAX_CALLEES_PER_BLOCK (filter is_greppable_symbol (bl_callee_names b))) top)
      in collect_names [] 0 (defined @ callees))"

definition render_grep_hint :: "str \<Rightarrow> str \<Rightarrow> str" where
  "render_grep_hint template pattern =
     [newline, newline] @ trim_end (replace_str [carriage_return, newline] [newline] (render template [(''pattern'', pattern)]))"

definition build_grep_hint :: "output_block list \<Rightarrow> str option" where
  "build_grep_hint blocks =
     (let names = hint_names blocks
      in if names = [] then None else Some (render_grep_hint MCP_GREP_HINT (join ''|'' names)))"

definition with_grep_hint :: "str \<Rightarrow> output_block list \<Rightarrow> str" where
  "with_grep_hint assembled blocks = assembled @ (case build_grep_hint blocks of Some hint \<Rightarrow> hint | None \<Rightarrow> [])"

section \<open>The assembly\<close>

definition FOOTER_RESERVE :: nat where "FOOTER_RESERVE = 150 + GREP_HINT_MAX_CHARS"

definition effective_budget :: nat where "effective_budget = MAX_TOOL_OUTPUT_CHARS - FOOTER_RESERVE"

text \<open>The longest prefix of at most \<open>n\<close> bytes that ends between characters.\<close>

fun floor_prefix :: "nat \<Rightarrow> str \<Rightarrow> str" where
  "floor_prefix n [] = []"
| "floor_prefix n (c # cs) = (if utf8_width c \<le> n then c # floor_prefix (n - utf8_width c) cs else [])"

definition first_line_display :: "str \<Rightarrow> str \<Rightarrow> str" where
  "first_line_display ell body =
     (let first_line = (case str_lines body of [] \<Rightarrow> [] | l # _ \<Rightarrow> l)
      in if MAX_FIRST_LINE_CHARS < str_len first_line then floor_prefix MAX_FIRST_LINE_CHARS first_line @ ell
         else first_line)"

definition full_text :: "output_block \<Rightarrow> str" where
  "full_text b = bl_header b @ [newline] @ bl_content b"

definition truncated_text :: "str \<Rightarrow> output_block \<Rightarrow> str" where
  "truncated_text ell b =
     bl_header b @ [newline] @ first_line_display ell (bl_content b)
     @ (if bl_line_start b < bl_line_end b
        then [newline] @ ''... (L'' @ show_nat (bl_line_start b + 1) @ ''-'' @ show_nat (bl_line_end b) @ '' elided, use Read)''
        else [])"

record assembly =
  as_out :: str
  as_truncated :: nat
  as_exceeded :: bool
  as_shown :: nat
  as_dropped :: bool

definition assembly_start :: assembly where
  "assembly_start = \<lparr>as_out = [], as_truncated = 0, as_exceeded = False, as_shown = 0, as_dropped = False\<rparr>"

definition with_separator :: "str \<Rightarrow> str \<Rightarrow> str" where
  "with_separator out t = out @ (if out = [] then [] else [newline, newline]) @ t"

definition push_text :: "str \<Rightarrow> assembly \<Rightarrow> assembly" where
  "push_text t a = a\<lparr>as_out := with_separator (as_out a) t, as_shown := as_shown a + (if as_dropped a then 0 else 1)\<rparr>"

definition add_block :: "str \<Rightarrow> output_block \<Rightarrow> assembly \<Rightarrow> assembly" where
  "add_block ell b a =
     (if \<not> as_exceeded a \<and> str_len (with_separator (as_out a) (full_text b)) \<le> effective_budget
      then push_text (full_text b) a
      else
        (let t = truncated_text ell b;
             a' = (if str_len (with_separator (as_out a) t) \<le> effective_budget then push_text t a else a\<lparr>as_dropped := True\<rparr>)
         in a'\<lparr>as_exceeded := True, as_truncated := as_truncated a + 1\<rparr>))"

definition truncation_footer :: "nat \<Rightarrow> nat \<Rightarrow> str" where
  "truncation_footer n total_blocks =
     [newline, newline] @ ''---'' @ [newline] @ show_nat n @ '' of '' @ show_nat total_blocks
     @ '' results truncated to fit output size limit; use the Read tool with the line ranges above.''"

definition assemble_with_budget_counted :: "str \<Rightarrow> output_block list \<Rightarrow> str \<times> nat" where
  "assemble_with_budget_counted ell blocks =
     (let a = fold (add_block ell) blocks assembly_start
      in (as_out a @ (if 0 < as_truncated a then truncation_footer (as_truncated a) (length blocks) else []), as_shown a))"

definition assemble_with_grep_hint :: "str \<Rightarrow> output_block list \<Rightarrow> str" where
  "assemble_with_grep_hint ell blocks =
     (let r = assemble_with_budget_counted ell blocks in with_grep_hint (fst r) (take (snd r) blocks))"

section \<open>The limit holds\<close>

lemma str_len_show_nat: "n < 10 ^ k \<Longrightarrow> 0 < k \<Longrightarrow> str_len (show_nat n) \<le> k"
proof (induction n arbitrary: k rule: show_nat.induct)
  case (1 n)
  have digit: "str_len [char_of (48 + d)] = 1" if "d < 10" for d :: nat
    using that by (simp add: utf8_width_def code_def)
  show ?case
  proof (cases "n < 10")
    case True
    then show ?thesis using 1(3) digit by (subst show_nat.simps) simp
  next
    case False
    then have "k \<noteq> 1" using 1(2) by auto
    then obtain j where j: "k = Suc j" "0 < j" using 1(3) by (cases k) auto
    then have "str_len (show_nat (n div 10)) \<le> j"
      using 1 False by (auto simp: div_less_iff_less_mult mult.commute)
    moreover have "str_len (show_nat n) = str_len (show_nat (n div 10)) + 1"
      using False digit [of "n mod 10"] show_nat.simps [of n] by simp
    ultimately show ?thesis using j by simp
  qed
qed

lemma add_block_budget:
  "str_len (as_out a) \<le> effective_budget \<Longrightarrow> str_len (as_out (add_block ell b a)) \<le> effective_budget"
  by (simp add: add_block_def push_text_def Let_def)

lemma fold_budget:
  "str_len (as_out a) \<le> effective_budget \<Longrightarrow> str_len (as_out (fold (add_block ell) blocks a)) \<le> effective_budget"
  by (induction blocks arbitrary: a) (simp_all add: add_block_budget)

lemma fold_truncated: "as_truncated (fold (add_block ell) blocks a) \<le> as_truncated a + length blocks"
proof (induction blocks arbitrary: a)
  case (Cons b blocks)
  have "as_truncated (add_block ell b a) \<le> as_truncated a + 1"
    by (simp add: add_block_def push_text_def Let_def)
  then show ?case using Cons [of "add_block ell b a"] by simp
qed simp

lemma footer_len:
  assumes "n \<le> t" "t < 10 ^ 20"
  shows "str_len (truncation_footer n t) \<le> 150"
proof -
  have "str_len (show_nat n) \<le> 20" "str_len (show_nat t) \<le> 20"
    using assms by (auto intro!: str_len_show_nat)
  then show ?thesis by (simp add: truncation_footer_def utf8_width_def code_def newline_def)
qed

lemma str_len_replace_str: "str_len r \<le> str_len p \<Longrightarrow> str_len (replace_str p r s) \<le> str_len s"
proof (induction p r s rule: replace_str.induct)
  case (2 p r c cs)
  show ?case
  proof (cases "p \<noteq> [] \<and> starts_with (c # cs) p")
    case True
    then obtain q where q: "c # cs = p @ q" by (auto simp: starts_with_iff)
    then have "drop (length p - 1) cs = q" using True by (cases p) auto
    then have "str_len (replace_str p r (c # cs)) \<le> str_len p + str_len q" using 2 True by auto
    then show ?thesis using q by (metis str_len_append)
  next
    case False
    then show ?thesis using 2 by auto
  qed
qed simp

lemma str_len_takeWhile: "str_len (rev (dropWhile P (rev s))) \<le> str_len s"
proof -
  have "s = rev (dropWhile P (rev s)) @ rev (takeWhile P (rev s))"
    by (metis rev_append rev_rev_ident takeWhile_dropWhile_id)
  then show ?thesis by (metis le_add1 str_len_append)
qed

lemma str_len_trim_end: "str_len (trim_end s) \<le> str_len s"
  by (simp add: trim_end_def trim_end_matches_def str_len_takeWhile)

lemma join_append_one: "join sep (xs @ [x]) = (if xs = [] then x else join sep xs @ sep @ x)"
  by (induction sep xs rule: join.induct) auto

definition names_ok :: "str set \<Rightarrow> str list \<Rightarrow> bool" where
  "names_ok A names \<longleftrightarrow> str_len (join ''|'' names) \<le> GREP_HINT_MAX_PATTERN_CHARS \<and> length names \<le> GREP_HINT_MAX_SYMBOLS
     \<and> distinct names \<and> (\<forall>m \<in> set names. is_greppable_symbol m \<and> m \<in> A)"

lemma names_ok_snoc:
  assumes "names_ok A names" "\<not> GREP_HINT_MAX_SYMBOLS \<le> length names" "is_greppable_symbol m" "m \<notin> set names" "m \<in> A"
    "str_len (join ''|'' (names @ [m])) \<le> GREP_HINT_MAX_PATTERN_CHARS"
  shows "names_ok A (names @ [m])"
  using assms by (auto simp: names_ok_def)

lemma join_bar_snoc:
  "str_len (join ''|'' (names @ [m])) = str_len (join ''|'' names) + (str_len m + (if names = [] then 0 else 1))"
  by (simp add: join_append_one utf8_width_def code_def)

lemma collect_names_ok:
  "str_len (join ''|'' names) = n \<Longrightarrow> names_ok A names \<Longrightarrow> set found \<subseteq> A \<Longrightarrow> names_ok A (collect_names names n found)"
proof (induction names n found rule: collect_names.induct)
  case (2 names n name rest)
  let ?added = "str_len name + (if names = [] then 0 else 1)"
  consider "GREP_HINT_MAX_SYMBOLS \<le> length names"
    | "\<not> GREP_HINT_MAX_SYMBOLS \<le> length names" "\<not> is_greppable_symbol name \<or> name \<in> set names"
    | "\<not> GREP_HINT_MAX_SYMBOLS \<le> length names" "is_greppable_symbol name" "name \<notin> set names"
        "GREP_HINT_MAX_PATTERN_CHARS < n + ?added"
    | "\<not> GREP_HINT_MAX_SYMBOLS \<le> length names" "is_greppable_symbol name" "name \<notin> set names"
        "\<not> GREP_HINT_MAX_PATTERN_CHARS < n + ?added"
    by blast
  then show ?case
  proof cases
    case 4
    have "names_ok A (names @ [name])"
      using 4 2(4-6) join_bar_snoc [of names name] by (intro names_ok_snoc) auto
    moreover have "collect_names names n (name # rest) = collect_names (names @ [name]) (n + ?added) rest"
      using 4 by (simp only: collect_names.simps Let_def) simp
    moreover have "names_ok A (collect_names (names @ [name]) (n + ?added) rest)"
      using 4 2(3)[of ?added] 2(4,6) join_bar_snoc [of names name] calculation(1) by auto
    ultimately show ?thesis by simp
  qed (use 2 in \<open>simp_all add: Let_def\<close>)
qed simp

definition hint_sources :: "output_block list \<Rightarrow> str set" where
  "hint_sources blocks = (\<Union>b \<in> set (take GREP_HINT_MAX_BLOCKS blocks). set (bl_symbols b) \<union> set (bl_callee_names b))"

lemma in_take_filter: "x \<in> set (take k (filter P ys)) \<Longrightarrow> x \<in> set ys"
  by (auto dest: in_set_takeD)

lemma hint_names_ok: "names_ok (hint_sources blocks) (hint_names blocks)"
  unfolding hint_names_def Let_def
  by (rule collect_names_ok) (auto simp: names_ok_def hint_sources_def dest!: in_take_filter)

lemma rendered_template:
  "render MCP_GREP_HINT [(''pattern'', p)] =
     ''---'' @ [newline]
     @ ''Results above are top-k, not exhaustive. To find every usage of a symbol, search the repo literally:'' @ [newline]
     @ ''rg '' @ [CHR 0x27] @ p @ [CHR 0x27] @ ''   (or: grep -rE '' @ [CHR 0x27] @ p @ [CHR 0x27] @ '')'' @ [newline]"
  by (simp add: render_def MCP_GREP_HINT_def newline_def starts_with_def)

lemma render_grep_hint_len:
  assumes "str_len p \<le> GREP_HINT_MAX_PATTERN_CHARS"
  shows "str_len (render_grep_hint MCP_GREP_HINT p) \<le> GREP_HINT_MAX_CHARS"
proof -
  let ?t = "render MCP_GREP_HINT [(''pattern'', p)]"
  have "str_len (trim_end (replace_str [carriage_return, newline] [newline] ?t)) \<le> str_len ?t"
    using str_len_trim_end str_len_replace_str [of "[newline]" "[carriage_return, newline]" ?t]
    by (rule order_trans) simp
  moreover have "str_len ?t \<le> 190 + 2 * str_len p"
    unfolding rendered_template by (simp add: utf8_width_def code_def newline_def)
  ultimately show ?thesis
    using assms
    by (simp add: render_grep_hint_def GREP_HINT_MAX_PATTERN_CHARS_def GREP_HINT_MAX_CHARS_def utf8_width_def code_def newline_def)
qed

lemma with_grep_hint_len: "str_len (with_grep_hint s blocks) \<le> str_len s + GREP_HINT_MAX_CHARS"
  using render_grep_hint_len hint_names_ok [of blocks]
  by (auto simp: with_grep_hint_def build_grep_hint_def names_ok_def Let_def)

text \<open>The answer fits: however many blocks a query returns and however long they are, the text
  assembled from them, with the note on what was truncated and with the search hint, is at most the
  48,000 bytes the tool's clients accept.\<close>

lemma assembled_len:
  assumes "length blocks < 10 ^ 20"
  shows "str_len (assemble_with_grep_hint ell blocks) \<le> MAX_TOOL_OUTPUT_CHARS"
proof -
  let ?a = "fold (add_block ell) blocks assembly_start"
  have "str_len (as_out ?a) \<le> effective_budget"
    by (rule fold_budget) (simp add: assembly_start_def)
  moreover have "str_len (truncation_footer (as_truncated ?a) (length blocks)) \<le> 150"
    using fold_truncated [of ell blocks assembly_start] assms by (intro footer_len) (simp_all add: assembly_start_def)
  ultimately have "str_len (fst (assemble_with_budget_counted ell blocks)) \<le> effective_budget + 150"
    by (simp add: assemble_with_budget_counted_def Let_def)
  then show ?thesis
    using with_grep_hint_len [of "fst (assemble_with_budget_counted ell blocks)"
        "take (snd (assemble_with_budget_counted ell blocks)) blocks"]
    by (simp add: assemble_with_grep_hint_def Let_def effective_budget_def FOOTER_RESERVE_def MAX_TOOL_OUTPUT_CHARS_def
        GREP_HINT_MAX_CHARS_def)
qed

text \<open>The pattern is safe to quote: it is made of identifiers that the shown blocks carry.\<close>

lemma word_chars: "is_greppable_symbol m \<Longrightarrow> c \<in> set m \<Longrightarrow> is_word_char c"
  by (simp add: is_greppable_symbol_def)

lemma set_join: "set (join sep xs) \<subseteq> set sep \<union> \<Union> (set ` set xs)"
  by (induction sep xs rule: join.induct) auto

lemma grep_hint_safe:
  assumes "build_grep_hint blocks = Some hint"
  obtains names where "hint = render_grep_hint MCP_GREP_HINT (join ''|'' names)" "names_ok (hint_sources blocks) names"
    "names \<noteq> []" "\<forall>c \<in> set (join ''|'' names). is_word_char c \<or> c = CHR ''|''"
proof
  show "hint = render_grep_hint MCP_GREP_HINT (join ''|'' (hint_names blocks))" "hint_names blocks \<noteq> []"
    using assms by (auto simp: build_grep_hint_def Let_def split: if_splits)
  show "names_ok (hint_sources blocks) (hint_names blocks)" by (rule hint_names_ok)
  then show "\<forall>c \<in> set (join ''|'' (hint_names blocks)). is_word_char c \<or> c = CHR ''|''"
    using set_join [of "''|''" "hint_names blocks"] word_chars by (fastforce simp: names_ok_def)
qed

end
