(* ===== verification/Block_Merge.thy ===== *)
theory Block_Merge
  imports Mcp_Output
begin

text \<open>
  The result blocks of one answer (\<open>src/mcp.rs\<close>): their headers, and the merge of the blocks of a file
  whose lines overlap or touch. \<open>None\<close> where the read of the merged lines panics.
\<close>

section \<open>Headers\<close>

definition enriched_tag :: "str \<Rightarrow> nat option \<Rightarrow> str list \<Rightarrow> str" where
  "enriched_tag label counted names =
     (case counted of
        None \<Rightarrow> []
      | Some c \<Rightarrow>
          if c = 0 then []
          else if names = [] then '' ['' @ label @ '':'' @ show_nat c @ '']''
          else
            (let display_names = take 30 names; remaining = c - length display_names
             in if 0 < remaining
                then '' ['' @ label @ '': '' @ join '', '' display_names @ '' +'' @ show_nat remaining @ '' more]''
                else '' ['' @ label @ '': '' @ join '', '' display_names @ '']''))"

definition format_enriched_caller_tag :: "nat option \<Rightarrow> str list \<Rightarrow> str" where
  "format_enriched_caller_tag = enriched_tag ''callers''"

definition format_enriched_callee_tag :: "nat option \<Rightarrow> str list \<Rightarrow> str" where
  "format_enriched_callee_tag = enriched_tag ''calls''"

definition SHOWN :: nat where "SHOWN = 3"

definition format_duplicate_tag :: "str \<Rightarrow> str list \<Rightarrow> str" where
  "format_duplicate_tag ell duplicates =
     (if duplicates = [] then []
      else '' (+'' @ show_nat (length duplicates) @ '' identical: '' @ join '', '' (take SHOWN duplicates)
           @ (if SHOWN < length duplicates then '', '' @ ell else []) @ '')'')"

definition output_header :: "str \<Rightarrow> output_block \<Rightarrow> str" where
  "output_header ell b =
     bl_file b @ ''#L'' @ show_nat (bl_line_start b) @ ''-'' @ show_nat (bl_line_end b)
     @ format_duplicate_tag ell (bl_duplicates b)
     @ format_enriched_caller_tag (bl_callers b) (bl_caller_names b)
     @ format_enriched_callee_tag (bl_callees b) (bl_callee_names b)"

section \<open>The merge\<close>

text \<open>The lines of the originals by their numbers; the first line with a number wins.\<close>

definition numbered_line :: "str \<Rightarrow> (nat \<times> str) option" where
  "numbered_line l =
     (case find_str l '':'' of
        None \<Rightarrow> None
      | Some p \<Rightarrow> map_option (\<lambda>n. (n, l)) (parse_uint 32 (trim (take p l))))"

definition merge_content_fallback :: "str list \<Rightarrow> str" where
  "merge_content_fallback originals =
     (let by_lineno = foldl (\<lambda>m (n, l). if hm_contains n m then m else hm_insert n l m) []
            (List.map_filter numbered_line (concat (map str_lines originals)))
      in if by_lineno = [] then join [newline] originals
         else join [newline] (map snd (sort_by (\<lambda>a b. fst a \<le> fst b) by_lineno)))"

definition normalize_key :: "bool \<Rightarrow> str \<Rightarrow> str" where
  "normalize_key win fl = (if win then replace_char slash backslash fl else fl)"

definition or_zero :: "nat option \<Rightarrow> nat" where
  "or_zero n = (case n of Some k \<Rightarrow> k | None \<Rightarrow> 0)"

text \<open>The count and the names travel together.\<close>

definition absorb_block :: "output_block \<Rightarrow> output_block \<Rightarrow> output_block" where
  "absorb_block cur nxt =
     (let a = cur\<lparr>bl_line_end := max (bl_line_end cur) (bl_line_end nxt)\<rparr>;
          b = (if or_zero (bl_callers a) < or_zero (bl_callers nxt)
               then a\<lparr>bl_callers := bl_callers nxt, bl_caller_files := bl_caller_files nxt, bl_caller_names := bl_caller_names nxt\<rparr>
               else a);
          c = (if or_zero (bl_callees b) < or_zero (bl_callees nxt)
               then b\<lparr>bl_callees := bl_callees nxt, bl_callee_names := bl_callee_names nxt\<rparr> else b)
      in c\<lparr>bl_symbols := bl_symbols c @ bl_symbols nxt\<rparr>)"

type_synonym merging = "nat \<times> output_block \<times> str list"

definition joins :: "output_block \<Rightarrow> output_block \<Rightarrow> bool" where
  "joins cur nxt \<longleftrightarrow> bl_line_start nxt \<le> bl_line_end cur + 1 \<and> bl_duplicates nxt = bl_duplicates cur"

text \<open>The entry under construction is the first of the accumulator.\<close>

fun merge_blocks_pass :: "merging list \<Rightarrow> (nat \<times> output_block) list \<Rightarrow> merging list" where
  "merge_blocks_pass acc [] = rev acc"
| "merge_blocks_pass [] ((i, b) # rest) = merge_blocks_pass [(i, b, [bl_content b])] rest"
| "merge_blocks_pass ((m, cur, originals) # acc) ((i, b) # rest) =
     (if joins cur b then merge_blocks_pass ((min m i, absorb_block cur b, originals @ [bl_content b]) # acc) rest
      else merge_blocks_pass ((i, b, [bl_content b]) # (m, cur, originals) # acc) rest)"

definition rebuild :: "str \<Rightarrow> file_system \<Rightarrow> merging \<Rightarrow> (nat \<times> output_block) option" where
  "rebuild ell fs e =
     (case e of (m, b, originals) \<Rightarrow>
        map_option (\<lambda>b. (m, b\<lparr>bl_header := output_header ell b\<rparr>))
          (if 1 < length originals
           then (case read_lines_from_fs fs (bl_file b) (bl_line_start b) (bl_line_end b) of
                   Read t \<Rightarrow> Some (b\<lparr>bl_content := t\<rparr>)
                 | Unreadable \<Rightarrow> Some (b\<lparr>bl_content := merge_content_fallback originals\<rparr>)
                 | Slice_Panics \<Rightarrow> None)
           else Some b))"

definition canonical_block :: "output_block \<Rightarrow> output_block" where
  "canonical_block b = b\<lparr>bl_duplicates := remdups_adj (sort (bl_duplicates b))\<rparr>"

definition by_start :: "nat \<times> output_block \<Rightarrow> nat \<times> output_block \<Rightarrow> bool" where
  "by_start x y \<longleftrightarrow> bl_line_start (snd x) \<le> bl_line_start (snd y)"

definition merge_group ::
  "((nat \<times> output_block \<Rightarrow> nat \<times> output_block \<Rightarrow> bool) \<Rightarrow> (nat \<times> output_block) list \<Rightarrow> (nat \<times> output_block) list)
    \<Rightarrow> str \<Rightarrow> file_system \<Rightarrow> (nat \<times> output_block) list \<Rightarrow> (nat \<times> output_block) list option" where
  "merge_group srt ell fs grp = those (map (rebuild ell fs) (merge_blocks_pass [] (srt by_start grp)))"

definition merge_overlapping_blocks ::
  "bool \<Rightarrow> (str list \<Rightarrow> str list)
    \<Rightarrow> ((nat \<times> output_block \<Rightarrow> nat \<times> output_block \<Rightarrow> bool) \<Rightarrow> (nat \<times> output_block) list \<Rightarrow> (nat \<times> output_block) list)
    \<Rightarrow> str \<Rightarrow> file_system \<Rightarrow> output_block list \<Rightarrow> output_block list option" where
  "merge_overlapping_blocks win perm srt ell fs blocks =
     (let numbered = List.enumerate 0 (map canonical_block blocks);
          key = (\<lambda>e. normalize_key win (bl_file (snd e)));
          files = perm (remdups (map key numbered))
      in map_option (\<lambda>groups. map snd (sort_by (\<lambda>x y. fst x \<le> fst y) (concat groups)))
           (those (map (\<lambda>k. merge_group srt ell fs (filter (\<lambda>e. key e = k) numbered)) files)))"

section \<open>What a merge keeps\<close>

text \<open>The lines a block stands for, with the copies it is known to have.\<close>

definition block_lines :: "bool \<Rightarrow> output_block \<Rightarrow> (str \<times> str list \<times> nat) set" where
  "block_lines win b =
     {(normalize_key win (bl_file b), bl_duplicates b, n) | n. bl_line_start b \<le> n \<and> n \<le> bl_line_end b}"

definition lines_of :: "bool \<Rightarrow> output_block list \<Rightarrow> (str \<times> str list \<times> nat) set" where
  "lines_of win bs = (\<Union>b \<in> set bs. block_lines win b)"

lemma absorb_block_simps [simp]:
  "bl_line_start (absorb_block cur nxt) = bl_line_start cur"
  "bl_line_end (absorb_block cur nxt) = max (bl_line_end cur) (bl_line_end nxt)"
  "bl_file (absorb_block cur nxt) = bl_file cur"
  "bl_duplicates (absorb_block cur nxt) = bl_duplicates cur"
  by (simp_all add: absorb_block_def Let_def)

lemma absorb_block_lines:
  assumes "joins cur nxt" "bl_line_start cur \<le> bl_line_start nxt"
    "normalize_key win (bl_file nxt) = normalize_key win (bl_file cur)"
  shows "block_lines win (absorb_block cur nxt) = block_lines win cur \<union> block_lines win nxt"
proof -
  have "(bl_line_start cur \<le> n \<and> n \<le> max (bl_line_end cur) (bl_line_end nxt)) \<longleftrightarrow>
      (bl_line_start cur \<le> n \<and> n \<le> bl_line_end cur) \<or> (bl_line_start nxt \<le> n \<and> n \<le> bl_line_end nxt)" for n
    using assms(1,2) by (auto simp: joins_def max_def)
  moreover have "bl_duplicates nxt = bl_duplicates cur" using assms(1) by (simp add: joins_def)
  ultimately show ?thesis using assms(3) by (auto simp: block_lines_def)
qed

definition merging_block :: "merging \<Rightarrow> output_block" where
  "merging_block e = fst (snd e)"

definition proper :: "output_block \<Rightarrow> bool" where
  "proper b \<longleftrightarrow> bl_line_start b \<le> bl_line_end b"

lemma lines_of_simps [simp]:
  "lines_of win [] = {}"
  "lines_of win (b # bs) = block_lines win b \<union> lines_of win bs"
  "lines_of win (as @ bs) = lines_of win as \<union> lines_of win bs"
  "lines_of win (rev bs) = lines_of win bs"
  by (auto simp: lines_of_def)

lemma merging_block_simp [simp]: "merging_block (m, b, os) = b"
  by (simp add: merging_block_def)

lemma merge_blocks_pass_keeps:
  assumes "sorted_wrt by_start grp"
    "\<forall>e \<in> set acc. \<forall>g \<in> set grp. bl_line_start (merging_block e) \<le> bl_line_start (snd g)"
    "\<forall>e \<in> set acc. proper (merging_block e) \<and> normalize_key win (bl_file (merging_block e)) = k"
    "\<forall>g \<in> set grp. proper (snd g) \<and> normalize_key win (bl_file (snd g)) = k"
  shows "lines_of win (map merging_block (merge_blocks_pass acc grp))
      = lines_of win (map merging_block acc) \<union> lines_of win (map snd grp)
    \<and> (\<forall>e \<in> set (merge_blocks_pass acc grp). proper (merging_block e))
    \<and> length (merge_blocks_pass acc grp) \<le> length acc + length grp"
  using assms
proof (induction acc grp rule: merge_blocks_pass.induct)
  case (1 acc)
  then show ?case by (auto simp flip: rev_map)
next
  case (2 i b rest)
  then show ?case by (auto simp: by_start_def)
next
  case (3 m cur originals acc i b rest)
  have cur: "proper cur" "normalize_key win (bl_file cur) = k" "bl_line_start cur \<le> bl_line_start b"
    "\<forall>g \<in> set rest. bl_line_start cur \<le> bl_line_start (snd g)"
    and acc: "\<forall>e \<in> set acc. proper (merging_block e) \<and> normalize_key win (bl_file (merging_block e)) = k"
      "\<forall>e \<in> set acc. \<forall>g \<in> set rest. bl_line_start (merging_block e) \<le> bl_line_start (snd g)"
      "\<forall>e \<in> set acc. bl_line_start (merging_block e) \<le> bl_line_start b"
    and rest: "sorted_wrt by_start rest" "\<forall>g \<in> set rest. bl_line_start b \<le> bl_line_start (snd g)"
      "proper b" "normalize_key win (bl_file b) = k"
      "\<forall>g \<in> set rest. proper (snd g) \<and> normalize_key win (bl_file (snd g)) = k"
    using 3(3-6) by (simp_all add: by_start_def [abs_def])
  show ?case
  proof (cases "joins cur b")
    case True
    have "block_lines win (absorb_block cur b) = block_lines win cur \<union> block_lines win b"
      using cur rest True by (intro absorb_block_lines) simp_all
    moreover have "proper (absorb_block cur b)" using cur(1) by (auto simp: proper_def)
    moreover note 3(1) [OF True rest(1)]
    ultimately show ?thesis using True cur acc rest by (simp add: Un_assoc) blast
  next
    case False
    note 3(2) [OF False rest(1)]
    then show ?thesis using False cur acc rest by (simp add: Un_assoc) blast
  qed
qed

text \<open>Rebuilding changes the text and the header only, and a proper block is never read in a way that
  panics.\<close>

lemma rebuild_proper:
  assumes "proper (merging_block e)"
  shows "\<exists>b. rebuild ell fs e = Some (fst e, b) \<and> block_lines win b = block_lines win (merging_block e)"
proof -
  obtain m b os where e: "e = (m, b, os)" by (cases e) auto
  have "read_lines_from_fs fs (bl_file b) (bl_line_start b) (bl_line_end b) \<noteq> Slice_Panics"
    using assms e
    by (auto simp: read_lines_from_fs_def proper_def Let_def min_def split: option.splits)
  then show ?thesis
    using e by (cases "read_lines_from_fs fs (bl_file b) (bl_line_start b) (bl_line_end b)")
      (auto simp: rebuild_def block_lines_def)
qed

lemma those_map_Some:
  "\<forall>x \<in> set xs. \<exists>y. f x = Some y \<and> Q x y \<Longrightarrow> \<exists>ys. those (map f xs) = Some ys \<and> list_all2 Q xs ys"
  by (induction xs) fastforce+

lemma list_all2_lines:
  "list_all2 (\<lambda>e r. block_lines win (snd r) = block_lines win (merging_block e)) es rs \<Longrightarrow>
   lines_of win (map snd rs) = lines_of win (map merging_block es)"
  by (induction rule: list_all2_induct) simp_all

lemma lines_of_mset: "mset as = mset bs \<Longrightarrow> lines_of win as = lines_of win bs"
  unfolding lines_of_def by (metis set_mset_mset)

lemma merge_group_lines:
  assumes "unstable_sort srt"
    "\<forall>g \<in> set grp. proper (snd g) \<and> normalize_key win (bl_file (snd g)) = k"
  shows "\<exists>rs. merge_group srt ell fs grp = Some rs \<and> lines_of win (map snd rs) = lines_of win (map snd grp)
    \<and> length rs \<le> length grp"
proof -
  note srt_mset = unstable_sort.srt_mset [OF assms(1)] and srt_set = unstable_sort.srt_set [OF assms(1)]
    and srt_length = unstable_sort.srt_length [OF assms(1)]
  let ?s = "srt by_start grp"
  have "sorted_wrt by_start ?s"
    by (rule unstable_sort.srt_sorted [OF assms(1)]) (auto simp: total_preorder_on_def by_start_def)
  then have keep: "lines_of win (map merging_block (merge_blocks_pass [] ?s)) = lines_of win (map snd ?s)"
    "\<forall>e \<in> set (merge_blocks_pass [] ?s). proper (merging_block e)" "length (merge_blocks_pass [] ?s) \<le> length ?s"
    using merge_blocks_pass_keeps [of ?s "[]" win k] assms(2) by (auto simp: srt_set)
  obtain rs where rs: "those (map (rebuild ell fs) (merge_blocks_pass [] ?s)) = Some rs"
    "list_all2 (\<lambda>e r. block_lines win (snd r) = block_lines win (merging_block e)) (merge_blocks_pass [] ?s) rs"
    using those_map_Some [of "merge_blocks_pass [] ?s" "rebuild ell fs"
        "\<lambda>e r. block_lines win (snd r) = block_lines win (merging_block e)"] rebuild_proper keep(2) by fastforce
  have "lines_of win (map snd ?s) = lines_of win (map snd grp)"
    by (rule lines_of_mset) (simp add: srt_mset)
  then show ?thesis
    using rs keep(1,3) list_all2_lines [OF rs(2)] list_all2_lengthD [OF rs(2)]
    by (auto simp: merge_group_def srt_length)
qed

lemma lines_of_concat: "lines_of win (concat xss) = (\<Union>xs \<in> set xss. lines_of win xs)"
  by (induction xss) auto

lemma length_classes: "distinct ks \<Longrightarrow> sum_list (map (\<lambda>k. length (filter (\<lambda>e. key e = k) xs)) ks) \<le> length xs"
proof (induction xs)
  case (Cons x xs)
  have "sum_list (map (\<lambda>k. length (filter (\<lambda>e. key e = k) (x # xs))) ks)
      = sum_list (map (\<lambda>k. length (filter (\<lambda>e. key e = k) xs) + (if key x = k then 1 else 0)) ks)"
    by (rule arg_cong [of _ _ sum_list]) simp
  also have "\<dots> = sum_list (map (\<lambda>k. length (filter (\<lambda>e. key e = k) xs)) ks) + length (filter (\<lambda>k. key x = k) ks)"
    by (induction ks) simp_all
  also have "length (filter (\<lambda>k. key x = k) ks) \<le> 1"
    using Cons.prems by (induction ks) (auto simp: filter_empty_conv)
  finally show ?case using Cons by simp
qed simp

lemma proper_numbered: "g \<in> set (List.enumerate n (map canonical_block bs)) \<Longrightarrow> \<forall>b \<in> set bs. proper b \<Longrightarrow> proper (snd g)"
  by (induction bs arbitrary: n) (auto simp: canonical_block_def proper_def)

text \<open>C35: merging neither loses nor invents lines. For blocks whose last line is not before their first,
  and whatever order the hash map of files and the unstable sort put them in, the merge does not panic,
  and the blocks it returns, which are no more than it was given, stand for exactly the lines of the
  blocks it was given: file by file, and with the same list of identical copies.\<close>

theorem merge_keeps_lines:
  assumes "unstable_sort srt" "\<And>fs. mset (perm fs) = mset fs" "\<forall>b \<in> set blocks. proper b"
  shows "\<exists>out. merge_overlapping_blocks win perm srt ell fs blocks = Some out
    \<and> lines_of win out = lines_of win (map canonical_block blocks) \<and> length out \<le> length blocks"
proof -
  define numbered where "numbered = List.enumerate (0 :: nat) (map canonical_block blocks)"
  define key where "key = (\<lambda>e :: nat \<times> output_block. normalize_key win (bl_file (snd e)))"
  define files where "files = perm (remdups (map key numbered))"
  let ?grp = "\<lambda>k. filter (\<lambda>e. key e = k) numbered"
  have snds: "map snd numbered = map canonical_block blocks" by (simp add: numbered_def)
  have proper: "\<forall>g \<in> set numbered. proper (snd g)"
    using assms(3) proper_numbered by (auto simp: numbered_def)
  have "set files = set (remdups (map key numbered))" unfolding files_def by (metis assms(2) set_mset_mset)
  then have files: "set files = key ` set numbered" by simp
  have distinct: "distinct files" unfolding files_def by (metis assms(2) distinct_remdups mset_eq_imp_distinct_iff)
  have "\<forall>k \<in> set files. \<exists>rs. merge_group srt ell fs (?grp k) = Some rs
      \<and> (lines_of win (map snd rs) = lines_of win (map snd (?grp k)) \<and> length rs \<le> length (?grp k))"
    by (intro ballI merge_group_lines [OF assms(1)]) (use proper in \<open>auto simp: key_def\<close>)
  from those_map_Some [OF this]
  obtain gs where gs: "those (map (\<lambda>k. merge_group srt ell fs (?grp k)) files) = Some gs"
    "list_all2 (\<lambda>k rs. lines_of win (map snd rs) = lines_of win (map snd (?grp k)) \<and> length rs \<le> length (?grp k)) files gs"
    by auto
  define out where "out = map snd (sort_by (\<lambda>x y. fst x \<le> fst y) (concat gs))"
  have run: "merge_overlapping_blocks win perm srt ell fs blocks = Some out"
    using gs(1) by (simp add: merge_overlapping_blocks_def out_def Let_def numbered_def key_def files_def)
  have "lines_of win out = lines_of win (map snd (concat gs))"
    unfolding out_def by (rule lines_of_mset) (simp add: mset_sort_by)
  also have "\<dots> = (\<Union>k \<in> set files. lines_of win (map snd (?grp k)))"
    using gs(2) by (induction rule: list_all2_induct) (simp_all add: map_concat)
  also have "\<dots> = lines_of win (map snd numbered)"
    using files by (auto simp: lines_of_def)
  finally have lines: "lines_of win out = lines_of win (map canonical_block blocks)" using snds by simp
  have "length (concat gs) \<le> sum_list (map (\<lambda>k. length (?grp k)) files)"
    using gs(2) by (induction rule: list_all2_induct) simp_all
  also have "\<dots> \<le> length numbered" using length_classes [OF distinct] .
  finally have "length out \<le> length blocks" by (simp add: out_def numbered_def)
  then show ?thesis using run lines by blast
qed

definition demo_block :: "nat \<Rightarrow> nat \<Rightarrow> output_block" where
  "demo_block s e =
     \<lparr>bl_header = [], bl_content = ''x'', bl_file = ''a.rs'', bl_line_start = s, bl_line_end = e, bl_callers = None,
      bl_caller_files = None, bl_caller_names = [], bl_callee_names = [], bl_callees = None, bl_symbols = [],
      bl_duplicates = []\<rparr>"

lemma merge_keeps_lines_witness:
  "\<exists>out. merge_overlapping_blocks False (\<lambda>fs. fs) sort_by ''.'' (\<lambda>_. None) [demo_block 4 6, demo_block 1 3] = Some out
    \<and> (''a.rs'', [], 2) \<in> lines_of False out"
proof -
  have "\<forall>b \<in> set [demo_block 4 6, demo_block 1 3]. proper b" by (simp add: demo_block_def proper_def)
  from merge_keeps_lines [OF unstable_sort_sort_by _ this, of "\<lambda>fs. fs" False "''.''" "\<lambda>_. None"]
  obtain out where "merge_overlapping_blocks False (\<lambda>fs. fs) sort_by ''.'' (\<lambda>_. None) [demo_block 4 6, demo_block 1 3] = Some out"
    "lines_of False out = lines_of False (map canonical_block [demo_block 4 6, demo_block 1 3])" by auto
  moreover have "(''a.rs'', [], 2) \<in> lines_of False (map canonical_block [demo_block 4 6, demo_block 1 3])"
    by (simp add: canonical_block_def demo_block_def block_lines_def normalize_key_def)
  ultimately show ?thesis by auto
qed

text \<open>Overlapping blocks with the same copies stay apart when a block with other copies comes between them.\<close>

lemma separated_overlap:
  assumes "d \<noteq> []"
  shows "map (\<lambda>e. (bl_line_start (merging_block e), bl_line_end (merging_block e)))
     (merge_blocks_pass [] [(0, demo_block 1 10), (1, (demo_block 5 6)\<lparr>bl_duplicates := d\<rparr>), (2, demo_block 8 12)])
   = [(1, 10), (5, 6), (8, 12)]"
  using assms by (simp add: joins_def demo_block_def)

end
