(* ===== verification/Mcp_Retrieval.thy ===== *)
theory Mcp_Retrieval
  imports Readiness Block_Merge Settings_Store
begin

text \<open>
  The \<open>codebase-retrieval\<close> tool (\<open>src/mcp.rs\<close>), the REST search endpoint (\<open>post_query\<close> in
  \<open>src/server.rs\<close>) and the query operation they share (\<open>src/engine_ops.rs\<close>): readiness, query, wait and
  second query, and the text around the results. A text is \<open>None\<close> where the code panics or the wait runs
  out of the model's fuel. \<open>'w\<close> is the state of the services and of the engine; what the code reads from it is
  observed by the functions of the host.
\<close>

section \<open>Linked worktrees\<close>

record disk_host =
  dh_is_file :: "str \<Rightarrow> bool"
  dh_is_dir :: "str \<Rightarrow> bool"
  dh_read :: file_system
  dh_canonicalize :: "str \<Rightarrow> str option"

definition linked_worktree_main_root :: "bool \<Rightarrow> disk_host \<Rightarrow> str \<Rightarrow> str option" where
  "linked_worktree_main_root win d repo =
     (let dot_git = path_join repo ''.git''
      in if \<not> dh_is_file d dot_git then None
         else
           (case Option.bind (dh_read d dot_git) (\<lambda>t. find_map (\<lambda>l. strip_prefix l ''gitdir:'') (str_lines t)) of
              None \<Rightarrow> None
            | Some found \<Rightarrow>
                (let gitdir = trim found
                 in if gitdir = [] then None
                    else
                      (case path_parent (if starts_with gitdir [slash] then gitdir else path_join repo gitdir) of
                         None \<Rightarrow> None
                       | Some worktrees_dir \<Rightarrow>
                           (case path_parent worktrees_dir of
                              None \<Rightarrow> None
                            | Some git_dir \<Rightarrow>
                                if path_file_name worktrees_dir \<noteq> Some ''worktrees'' \<or> path_file_name git_dir \<noteq> Some ''.git'' then None
                                else
                                  (case path_parent git_dir of
                                     None \<Rightarrow> None
                                   | Some main_root \<Rightarrow>
                                       if \<not> dh_is_dir d main_root then None
                                       else
                                         (let main_root = (case dh_canonicalize d main_root of Some c \<Rightarrow> c | None \<Rightarrow> main_root)
                                          in if normalize_repo_path win main_root = normalize_repo_path win repo then None
                                             else Some main_root)))))))"

definition worktree_redirect_note :: "str \<Rightarrow> str \<Rightarrow> str" where
  "worktree_redirect_note worktree main_root =
     ''(note: '' @ [CHR 0x27] @ worktree @ [CHR 0x27] @ '' is a linked git worktree. Results come from the main checkout''
     @ [CHR 0x27] @ ''s index and files at '' @ [CHR 0x27] @ main_root @ [CHR 0x27]
     @ ''. File paths below are under that root. Edits in the worktree that are uncommitted or exist only on its branch are not visible here. Line numbers may differ from your worktree. Before you edit a file, open its worktree copy.)''
     @ [newline, newline]"

section \<open>Texts\<close>

definition scoped_request :: "str \<Rightarrow> scope \<Rightarrow> str" where
  "scoped_request information_request scope = ''scope:'' @ scope_as_str scope @ '' '' @ information_request"

definition MCP_SCOPE_FALLBACK :: str where
  "MCP_SCOPE_FALLBACK =
     ''[scope fallback] The requested scope \"{{requested}}\" returned no relevant results, so the results below come from scope \"{{served}}\" instead. Pass scope: \"{{served}}\" explicitly to search it directly.''
     @ [newline, newline]"

definition scope_fallback_notice :: "scope \<Rightarrow> scope \<Rightarrow> str" where
  "scope_fallback_notice requested served =
     render MCP_SCOPE_FALLBACK [(''requested'', scope_as_str requested), (''served'', scope_as_str served)]"

definition note_both_scopes_searched :: "str \<Rightarrow> bool \<Rightarrow> bool \<Rightarrow> bool \<Rightarrow> str" where
  "note_both_scopes_searched message scoped none_found warming =
     (if scoped \<and> none_found \<and> \<not> warming then message @ '' (searched both code and docs)'' else message)"

definition mcp_query_filters :: "str list option \<Rightarrow> str list option \<Rightarrow> str option \<Rightarrow> query_filters option" where
  "mcp_query_filters filter_kind filter_lang filter_path =
     (let lowercased = (\<lambda>v. case v of Some xs \<Rightarrow> map to_lowercase xs | None \<Rightarrow> []);
          filters = filters_default\<lparr>kinds := lowercased filter_kind, languages := lowercased filter_lang,
            path_filters := (case filter_path of Some p \<Rightarrow> if p = [] then [] else [p] | None \<Rightarrow> [])\<rparr>
      in if filters_is_empty filters then None else Some filters)"

definition MCP_PARTIAL_RESULTS_PREFIX :: str where
  "MCP_PARTIAL_RESULTS_PREFIX =
     ''(index update is still publishing; showing only content-verified partial results)'' @ [newline, newline]"

definition MCP_GRAPH_PENDING :: str where
  "MCP_GRAPH_PENDING =
     ''(index is resolving the call graph; showing vector-only results without callers/callees)'' @ [newline, newline]"

definition MCP_STALE_RESULTS :: str where
  "MCP_STALE_RESULTS =
     ''(index is being updated; showing results from the previous index, which may be slightly out of date)'' @ [newline]"

definition MCP_DEGRADE_INDEXING :: str where
  "MCP_DEGRADE_INDEXING = ''Codebase is indexing, use grep instead.''"

definition MCP_DEGRADE_INDEX_FAILED :: str where
  "MCP_DEGRADE_INDEX_FAILED = ''Error: indexing failed ({{err}}). Use grep to search the codebase directly.''"

text \<open>\<open>dash\<close> is the em dash (U+2014).\<close>

definition select_empty_or_warming_message :: "str \<Rightarrow> bool \<Rightarrow> bool \<Rightarrow> str \<Rightarrow> str" where
  "select_empty_or_warming_message dash warming rerank_rejected information_request =
     (if warming then
        ''The index for this workspace is still warming (loading into memory). It is complete on disk '' @ dash
        @ '' retry the same request in a few seconds.''
      else if rerank_rejected then
        ''No relevant code found. The indexed codebase does not appear to contain information related to this query. Please verify the query is relevant to this project, or try alternative tools such as Grep for exact-match searches.''
      else ''No results found for: '' @ information_request)"

section \<open>The host\<close>

record 'w tool_host =
  th_windows :: bool
  th_ellipsis :: str
  th_dash :: str
  th_file_order :: "str list \<Rightarrow> str list"
  th_block_sort :: "(nat \<times> output_block \<Rightarrow> nat \<times> output_block \<Rightarrow> bool) \<Rightarrow> (nat \<times> output_block) list \<Rightarrow> (nat \<times> output_block) list"
  th_disk :: disk_host
  th_config :: config_host
  th_client_error :: "settings \<Rightarrow> str option"
  th_llm_client :: "llm_config \<Rightarrow> llm_client option"
  th_jev :: "llm_config \<Rightarrow> jev_reranker"
  th_services :: "nat \<Rightarrow> 'w services"
  th_dbs :: "'w \<Rightarrow> db_map"
  th_observe :: "str \<Rightarrow> 'w \<Rightarrow> observation"
  th_polls :: "str \<Rightarrow> 'w \<Rightarrow> nat \<times> (nat \<Rightarrow> repo_status option \<times> nat)"
  th_decided :: "str \<Rightarrow> bool \<Rightarrow> 'w \<Rightarrow> 'w"
  th_waited :: "str \<Rightarrow> 'w \<Rightarrow> 'w"
  th_register :: "str \<Rightarrow> 'w \<Rightarrow> 'w"
  th_settings_file :: "'w \<Rightarrow> str option"
  th_set_settings_file :: "str option \<Rightarrow> 'w \<Rightarrow> 'w"
  th_parse_stamp :: "str \<Rightarrow> int option"
  th_days :: "int \<Rightarrow> int"
  th_fuel :: nat

definition provider_from_settings :: "'w tool_host \<Rightarrow> llm_config \<Rightarrow> rerank_provider" where
  "provider_from_settings h llm =
     (let p = effective_rerank_provider llm
      in if p = ''jev'' then Jev (th_jev h llm) else Llm (th_llm_client h (llm\<lparr>lc_provider := p\<rparr>)))"

definition query_options_of ::
  "settings \<Rightarrow> nat \<Rightarrow> str \<Rightarrow> rerank_provider \<Rightarrow> query_filters \<Rightarrow> graph_mode \<Rightarrow> query_options" where
  "query_options_of s limit repo provider filters mode =
     (let llm = st_llm s
      in \<lparr>qo_top_k = limit, qo_repo_filter = Some repo, qo_min_prune_lines = lc_rerank_min_prune_lines llm,
          qo_provider = provider, qo_agentic = lc_agentic_rag llm, qo_max_turns = lc_agentic_rag_max_turns llm,
          qo_max_chunk_chars = lc_agentic_rag_max_chunk_chars llm, qo_grep_read = lc_agentic_rag_grep_read llm,
          qo_filters = Some (filters\<lparr>docs_extensions := Some (st_docs_extensions s)\<rparr>), qo_graph_mode = mode\<rparr>)"

text \<open>An error is its outermost message, which is what the endpoint shows.\<close>

definition run_query_op ::
  "'w tool_host \<Rightarrow> settings \<Rightarrow> str \<Rightarrow> str \<Rightarrow> nat \<Rightarrow> bool \<Rightarrow> graph_mode \<Rightarrow> nat \<Rightarrow> 'w \<Rightarrow> (str + query_result) \<times> 'w" where
  "run_query_op h s repo query_text limit rerank mode warm_budget w =
     (case th_client_error h s of
        Some e \<Rightarrow> (Inl ''failed to create embedding client'', w)
      | None \<Rightarrow>
          run_query_with_filters_and_mode (th_services h warm_budget)
            (query_options_of s (max limit 1) (normalize_repo_path (th_windows h) repo)
               (if rerank then provider_from_settings h (st_llm s) else Off) filters_default mode) query_text w)"

section \<open>The tool's query\<close>

record query_output =
  qt_text :: str
  qt_warming_empty :: bool

definition plain_output :: "str \<Rightarrow> query_output" where
  "plain_output t = \<lparr>qt_text = t, qt_warming_empty = False\<rparr>"

definition output_block_of :: "str list \<Rightarrow> code_result \<Rightarrow> output_block" where
  "output_block_of symbols r =
     \<lparr>bl_header = [], bl_content = cr_text r, bl_file = cr_result_file r, bl_line_start = cr_line_start r,
      bl_line_end = cr_line_end r, bl_callers = cr_callers r, bl_caller_files = cr_caller_files r,
      bl_caller_names = cr_caller_names r, bl_callee_names = cr_callee_names r, bl_callees = cr_callees r,
      bl_symbols = symbols, bl_duplicates = cr_duplicates r\<rparr>"

definition generated_last :: "output_block list \<Rightarrow> output_block list" where
  "generated_last bs = filter (\<lambda>b. \<not> is_generated_file (bl_file b)) bs @ filter (\<lambda>b. is_generated_file (bl_file b)) bs"

definition empty_answer :: "'w tool_host \<Rightarrow> str \<Rightarrow> query_result \<Rightarrow> query_output" where
  "empty_answer h information_request q =
     \<lparr>qt_text = note_both_scopes_searched
        (select_empty_or_warming_message (th_dash h) (qr_warming q) (rerank_rejected_all q) information_request)
        (qr_scope q \<noteq> None) (qr_rerank q = None) (qr_warming q),
      qt_warming_empty = qr_warming q\<rparr>"

definition fallback_banner :: "query_result \<Rightarrow> str" where
  "fallback_banner q =
     (if qr_scope_fallback q
      then (case Option.bind (qr_scope q) scope_parse of
              Some served \<Rightarrow> scope_fallback_notice (scope_opposite served) served
            | None \<Rightarrow> [])
      else [])"

definition answer_blocks :: "'w tool_host \<Rightarrow> str \<Rightarrow> query_result \<Rightarrow> 'w \<Rightarrow> output_block list option" where
  "answer_blocks h repo q w =
     map_option generated_last
       (merge_overlapping_blocks (th_windows h) (th_file_order h) (th_block_sort h) (th_ellipsis h) (dh_read (th_disk h))
         (map (\<lambda>r. output_block_of (block_hint_symbols (dh_read (th_disk h)) (th_dbs h w) repo r) r) (qr_results q)))"

definition results_text :: "'w tool_host \<Rightarrow> str \<Rightarrow> query_result \<Rightarrow> 'w \<Rightarrow> str option" where
  "results_text h repo q w =
     map_option (\<lambda>bs. (if qr_warming q then MCP_PARTIAL_RESULTS_PREFIX else [])
         @ fallback_banner q @ assemble_with_grep_hint (th_ellipsis h) bs)
       (answer_blocks h repo q w)"

definition do_query ::
  "'w tool_host \<Rightarrow> settings \<Rightarrow> str \<Rightarrow> query_filters option \<Rightarrow> str \<Rightarrow> graph_mode \<Rightarrow> nat \<Rightarrow> 'w \<Rightarrow> query_output option \<times> 'w" where
  "do_query h s information_request filters repo mode warm_wait w =
     (case th_client_error h s of
        Some e \<Rightarrow> (Some (plain_output (''Error: failed to create embedding client: '' @ e)), w)
      | None \<Rightarrow>
          (case run_query_with_filters_and_mode (th_services h warm_wait)
              (query_options_of s 30 repo (provider_from_settings h (st_llm s))
                 (case filters of Some f \<Rightarrow> f | None \<Rightarrow> filters_default) mode) information_request w of
             (Inl e, w1) \<Rightarrow> (Some (plain_output (''Error: query failed: '' @ e)), w1)
           | (Inr q, w1) \<Rightarrow>
               if qr_results q = [] then (Some (empty_answer h information_request q), w1)
               else (map_option plain_output (results_text h repo q w1), w1)))"

definition prefix_output :: "str \<Rightarrow> query_output \<Rightarrow> str" where
  "prefix_output prefix out = (if qt_warming_empty out then qt_text out else prefix @ qt_text out)"

text \<open>A query the readiness allows, or the text of the degrade (\<open>Inl\<close>).\<close>

definition query_plan :: "index_readiness \<Rightarrow> str + graph_mode \<times> nat \<times> str" where
  "query_plan readiness =
     (case readiness of
        index_readiness.Ready b \<Rightarrow> Inr (Full, b, [])
      | ReadyVectorOnly b \<Rightarrow> Inr (VectorOnly, b, MCP_GRAPH_PENDING)
      | ReadyStale b \<Rightarrow> Inr (VectorOnly, b, MCP_STALE_RESULTS)
      | Timeout \<Rightarrow> Inl MCP_DEGRADE_INDEXING
      | index_readiness.Failed e \<Rightarrow> Inl (render MCP_DEGRADE_INDEX_FAILED [(''err'', e)]))"

definition query_with ::
  "'w tool_host \<Rightarrow> settings \<Rightarrow> str \<Rightarrow> query_filters option \<Rightarrow> str \<Rightarrow> index_readiness \<Rightarrow> 'w \<Rightarrow> (str + query_output) option \<times> 'w" where
  "query_with h s request filters repo readiness w =
     (case query_plan readiness of
        Inl degrade \<Rightarrow> (Some (Inl degrade), w)
      | Inr (mode, warm_wait, prefix) \<Rightarrow>
          (case do_query h s request filters repo mode warm_wait w of
             (None, w1) \<Rightarrow> (None, w1)
           | (Some out, w1) \<Rightarrow> (Some (Inr (out\<lparr>qt_text := prefix_output prefix out\<rparr>)), w1)))"

section \<open>The tool\<close>

text \<open>The settings file after the repository is added to it, best effort.\<close>

definition auto_add_repo :: "config_host \<Rightarrow> str \<Rightarrow> str option \<Rightarrow> str option" where
  "auto_add_repo h repo fl =
     (case ensure_dir_and_load h fl of
        (Inl e, fl1) \<Rightarrow> fl1
      | (Inr d, fl1) \<Rightarrow>
          if repo \<in> set (st_repos d) then fl1
          else snd (write_settings_atomic h Saving (d\<lparr>st_repos := st_repos d @ [repo], st_version := CURRENT_VERSION\<rparr>) fl1))"

definition await_ready :: "'w tool_host \<Rightarrow> settings \<Rightarrow> str \<Rightarrow> 'w \<Rightarrow> index_readiness option \<times> 'w" where
  "await_ready h s repo w =
     (case th_polls h repo w of
        (t0, polls) \<Rightarrow>
          (case await_index_ready (th_fuel h) (th_parse_stamp h) (th_days h) s (th_observe h repo w) t0 polls of
             (r, triggered) \<Rightarrow> (r, th_decided h repo triggered w)))"

definition wait_ready :: "'w tool_host \<Rightarrow> settings \<Rightarrow> str \<Rightarrow> 'w \<Rightarrow> index_readiness option \<times> 'w" where
  "wait_ready h s repo w =
     (case th_polls h repo w of
        (t0, polls) \<Rightarrow> (wait_for_run (th_fuel h) t0 polls (1000 * st_mcp_index_wait_secs s), th_waited h repo w))"

definition answer_once ::
  "'w tool_host \<Rightarrow> settings \<Rightarrow> str \<Rightarrow> query_filters option \<Rightarrow> str \<Rightarrow> index_readiness option \<times> 'w \<Rightarrow> (str + query_output) option \<times> 'w" where
  "answer_once h s request filters repo r =
     (case r of (None, w) \<Rightarrow> (None, w) | (Some readiness, w) \<Rightarrow> query_with h s request filters repo readiness w)"

text \<open>The readiness, the query, and, when nothing could be served yet, one wait and one more query.\<close>

definition retrieve ::
  "'w tool_host \<Rightarrow> settings \<Rightarrow> str \<Rightarrow> query_filters option \<Rightarrow> str \<Rightarrow> 'w \<Rightarrow> str option \<times> 'w" where
  "retrieve h s request filters repo w =
     (case answer_once h s request filters repo (await_ready h s repo w) of
        (None, w1) \<Rightarrow> (None, w1)
      | (Some (Inl degrade), w1) \<Rightarrow> (Some degrade, w1)
      | (Some (Inr out), w1) \<Rightarrow>
          if \<not> qt_warming_empty out then (Some (qt_text out), w1)
          else (case answer_once h s request filters repo (wait_ready h s repo w1) of
                  (None, w2) \<Rightarrow> (None, w2)
                | (Some (Inl degrade), w2) \<Rightarrow> (Some degrade, w2)
                | (Some (Inr out), w2) \<Rightarrow> (Some (qt_text out), w2)))"

definition NO_WORKSPACE :: str where
  "NO_WORKSPACE =
     ''Error: workspace_full_path is required. Pass the full path to the workspace (repository) root directory.''"

definition NO_KEYS :: str where
  "NO_KEYS = ''Error: no embedding API keys configured. Add a Voyage AI key in the Context Engine UI first.''"

definition run_codebase_retrieval_resolved ::
  "'w tool_host \<Rightarrow> settings \<Rightarrow> str \<Rightarrow> query_filters option \<Rightarrow> str \<Rightarrow> scope \<Rightarrow> 'w \<Rightarrow> str option \<times> 'w" where
  "run_codebase_retrieval_resolved h s information_request filters workspace_full_path sc w =
     (let given = trim workspace_full_path; repo = normalize_repo_path (th_windows h) given
      in if given = [] then (Some NO_WORKSPACE, w)
         else if repo \<notin> set (st_repos s) \<and> \<not> dh_is_dir (th_disk h) repo
         then (Some (''Error: workspace '' @ [CHR 0x27] @ repo @ [CHR 0x27] @ '' does not exist or is not a directory.''), w)
         else
           (let w1 = (if repo \<in> set (st_repos s) then w
                      else th_register h repo (th_set_settings_file h (auto_add_repo (th_config h) repo (th_settings_file h w)) w))
            in if em_api_keys (st_embedding s) = [] then (Some NO_KEYS, w1)
               else retrieve h s (scoped_request information_request sc) filters repo w1))"

definition run_codebase_retrieval ::
  "'w tool_host \<Rightarrow> settings \<Rightarrow> str \<Rightarrow> query_filters option \<Rightarrow> str \<Rightarrow> scope \<Rightarrow> 'w \<Rightarrow> str option \<times> 'w" where
  "run_codebase_retrieval h s information_request filters workspace_full_path sc w =
     (let requested = trim workspace_full_path
      in case linked_worktree_main_root (th_windows h) (th_disk h) requested of
           Some main_root \<Rightarrow>
             (case run_codebase_retrieval_resolved h s information_request filters main_root sc w of
                (t, w1) \<Rightarrow> (map_option (\<lambda>t. worktree_redirect_note requested main_root @ t) t, w1))
         | None \<Rightarrow> run_codebase_retrieval_resolved h s information_request filters requested sc w)"

section \<open>The REST endpoint\<close>

record query_request =
  rqq_query :: str
  rqq_top_k :: nat
  rqq_repo :: "str option"
  rqq_rerank :: bool

definition default_top_k :: nat where "default_top_k = 30"
definition default_rerank :: bool where "default_rerank = True"

datatype query_response = Refused nat json | Answered query_result

definition error_body :: "str \<Rightarrow> json" where
  "error_body message = JObject [(''error'', JString message)]"

definition post_query :: "'w tool_host \<Rightarrow> settings \<Rightarrow> query_request \<Rightarrow> 'w \<Rightarrow> query_response option \<times> 'w" where
  "post_query h s req w =
     (if st_repos s = [] then
        (Some (Refused 400 (error_body ''No repositories configured. Add repos in Settings first.'')), w)
      else if em_api_keys (st_embedding s) = [] then (Some (Refused 400 (error_body ''No embedding API keys configured.'')), w)
      else
        (case map_option trim (rqq_repo req) of
           None \<Rightarrow> (Some (Refused 400 (error_body ''A repository is required. Pass `repo` with the workspace path to scope the query.'')), w)
         | Some repo \<Rightarrow>
             if repo = [] then
               (Some (Refused 400 (error_body ''A repository is required. Pass `repo` with the workspace path to scope the query.'')), w)
             else
               (case await_ready h s repo w of
                  (None, w1) \<Rightarrow> (None, w1)
                | (Some readiness, w1) \<Rightarrow>
                    (let gate = rest_gate readiness
                     in case query_parts gate of
                          Some (mode, warm_budget, graph_pending) \<Rightarrow>
                            (case run_query_op h s repo (rqq_query req) (rqq_top_k req) (rqq_rerank req) mode warm_budget w1 of
                               (Inr q, w2) \<Rightarrow> (Some (Answered (q\<lparr>qr_graph_pending := graph_pending\<rparr>)), w2)
                             | (Inl e, w2) \<Rightarrow> (Some (Refused 502 (error_body (''query failed: '' @ e))), w2))
                        | None \<Rightarrow>
                            (map_option (Refused (if gate = rest_action.Warming then WARMING_STATUS else INDEX_FAILED_STATUS)) (degrade_body gate), w1)))))"

section \<open>The tool's scope wins\<close>

lemma note_scope_keeps: "qf_scope f = Some s \<Longrightarrow> qf_scope (note_scope s' f) = Some s"
  by (simp add: note_scope_def)

lemma push_filter_scope: "qf_scope (push_filter t v f) = qf_scope f"
  by (cases t) (simp_all add: push_filter_def)

lemma parse_loop_keeps_scope: "qf_scope f = Some s \<Longrightarrow> qf_scope (snd (parse_loop t ps f)) = Some s"
proof (induction "length t" arbitrary: t ps f rule: less_induct)
  case less
  note IH = less(1)
  show ?case
  proof (cases t)
    case Nil
    then show ?thesis using less.prems by simp
  next
    case (Cons c cs)
    show ?thesis
    proof (cases "char_is_whitespace c")
      case True
      then show ?thesis using IH less.prems by (simp add: Cons parse_loop_space)
    next
      case False
      have token: "t \<noteq> []" "\<not> char_is_whitespace (hd t)" using Cons False by simp_all
      show ?thesis
      proof (cases "match_filter_prefix t")
        case None
        have "length (dropWhile (\<lambda>c. \<not> char_is_whitespace c) t) < length t"
          using Cons False length_dropWhile_Suc by simp
        then show ?thesis using IH less.prems None by (simp add: parse_loop_token [OF token])
      next
        case (Some nt)
        then obtain n ft where nt: "match_filter_prefix t = Some (n, ft)" by (cases nt) auto
        note shorter = IH [OF extract_after_shorter [OF nt]]
        show ?thesis
          using shorter less.prems note_scope_keeps push_filter_scope
          by (simp add: parse_loop_token [OF token] nt Let_def split: option.split)
      qed
    qed
  qed
qed

lemma scope_prefix_parses:
  "qf_scope (snd (parse_loop (''scope:'' @ scope_as_str sc @ '' '' @ t) [] filters_default)) = Some sc"
proof -
  have word: "\<forall>c \<in> set (scope_as_str sc). \<not> char_is_whitespace c" "scope_as_str sc \<noteq> []" "\<not> is_quote (hd (scope_as_str sc))"
    by (cases sc; simp add: scope_as_str_def char_is_whitespace_def is_quote_def code_def)+
  define s where "s = ''scope:'' @ scope_as_str sc @ '' '' @ t"
  have lower: "to_lowercase ''scope:'' = ''scope:''" by code_simp
  have pre: "match_filter_prefix s = Some (6, FScope)"
    unfolding match_scope s_def lower_append lower by (simp add: starts_with_def)
  have token: "s \<noteq> []" "\<not> char_is_whitespace (hd s)"
    by (simp_all add: s_def char_is_whitespace_def code_def)
  have "extract_value (scope_as_str sc @ '' '' @ t) = (scope_as_str sc, '' '' @ t)"
    using word space_is_whitespace takeWhile_stop [of "scope_as_str sc" "\<lambda>c. \<not> char_is_whitespace c" "CHR '' ''" t]
    by (cases "scope_as_str sc") (auto simp: extract_value_def)
  then have val: "extract_value (drop 6 s) = (scope_as_str sc, '' '' @ t)" by (simp add: s_def)
  have "parse_loop s [] filters_default = parse_loop ('' '' @ t) [] (note_scope sc filters_default)"
    by (simp add: parse_loop_token [OF token] pre val scope_parse_name)
  then show ?thesis
    using parse_loop_keeps_scope [of "note_scope sc filters_default" sc "'' '' @ t" "[]"]
    by (simp add: note_scope_def filters_default_def s_def)
qed

text \<open>C36: the tool's scope is the scope of the query. Whatever the request says, with filters and
  \<open>scope:\<close> words of its own, and whatever kinds, languages and path the call filters by, the query the
  tool runs is restricted to the scope the call gave.\<close>

theorem tool_scope_wins:
  "qf_scope (pq_filters (parse_query (scoped_request information_request sc) (mcp_query_filters ks ls p))) = Some sc"
proof -
  have "qf_scope f = None" if "mcp_query_filters ks ls p = Some f" for f
    using that by (auto simp: mcp_query_filters_def filters_default_def Let_def split: if_splits)
  then show ?thesis
    using scope_prefix_parses [of sc information_request]
    by (auto simp: parse_query_def parse_query_filters_def scoped_request_def filters_merge_def Let_def split: option.split)
qed

section \<open>Two surfaces, one decision\<close>

text \<open>the tool and the REST endpoint act alike on a readiness: both query with the same graph mode and
  the same time to warm the shard, or neither queries; and the tool warns about missing callers exactly
  when the endpoint reports the graph as pending.\<close>

theorem surfaces_agree:
  "query_parts (rest_gate r) =
     (case query_plan r of Inl degrade \<Rightarrow> None | Inr (mode, b, prefix) \<Rightarrow> Some (mode, b, prefix \<noteq> []))"
  by (cases r) (simp_all add: rest_gate_def query_parts_def query_plan_def MCP_GRAPH_PENDING_def MCP_STALE_RESULTS_def)

text \<open>A degrade leaves the services alone.\<close>

lemma degrade_runs_nothing:
  "query_plan readiness = Inl degrade \<Longrightarrow> query_with h s request filters repo readiness w = (Some (Inl degrade), w)"
  by (simp add: query_with_def)

text \<open>The answer that asks to retry carries no banner.\<close>

lemma retry_answer_is_bare:
  assumes "do_query h s request filters repo mode b w = (Some out, w1)" "query_plan r = Inr (mode, b, prefix)" "qt_warming_empty out"
  shows "query_with h s request filters repo r w = (Some (Inr out), w1)"
  using assms by (simp add: query_with_def prefix_output_def)

section \<open>Banners\<close>

lemma scope_fallback_notice_len: "str_len (scope_fallback_notice a b) \<le> 300"
proof -
  have "str_len (scope_fallback_notice Code Code) \<le> 300" by code_simp
  moreover have "str_len (scope_fallback_notice Code Docs) \<le> 300" by code_simp
  moreover have "str_len (scope_fallback_notice Docs Code) \<le> 300" by code_simp
  moreover have "str_len (scope_fallback_notice Docs Docs) \<le> 300" by code_simp
  ultimately show ?thesis by (cases a; cases b) simp_all
qed

lemma fallback_banner_len: "str_len (fallback_banner q) \<le> 300"
  using scope_fallback_notice_len by (simp add: fallback_banner_def split: option.split)

lemma partial_prefix_len: "str_len MCP_PARTIAL_RESULTS_PREFIX \<le> 100"
  by code_simp

lemma plan_prefix_len: "query_plan r = Inr (mode, b, prefix) \<Longrightarrow> str_len prefix \<le> 120"
proof -
  have "str_len MCP_GRAPH_PENDING \<le> 120" by code_simp
  moreover have "str_len MCP_STALE_RESULTS \<le> 120" by code_simp
  ultimately show "query_plan r = Inr (mode, b, prefix) \<Longrightarrow> ?thesis"
    by (cases r) (auto simp: query_plan_def)
qed

lemma results_text_split:
  assumes "results_text h repo q w = Some t"
  obtains blocks where "answer_blocks h repo q w = Some blocks"
    "t = (if qr_warming q then MCP_PARTIAL_RESULTS_PREFIX else []) @ fallback_banner q @ assemble_with_grep_hint (th_ellipsis h) blocks"
  using assms by (auto simp: results_text_def)

text \<open>C37: with every banner in front, an answer stays under what the clients accept. The banners of the
  readiness, of a partial answer and of a scope fallback are added after the blocks were fitted into
  48,000 bytes; all together they are at most 520 bytes, so that the answer is at most 48,520 bytes.\<close>

theorem decorated_answer_fits:
  assumes "query_plan r = Inr (mode, b, prefix)" "results_text h repo q w = Some t"
    "answer_blocks h repo q w = Some blocks" "length blocks < 10 ^ 20"
  shows "str_len (prefix_output prefix (plain_output t)) \<le> MAX_TOOL_OUTPUT_CHARS + 520"
proof -
  have "str_len (assemble_with_grep_hint (th_ellipsis h) blocks) \<le> MAX_TOOL_OUTPUT_CHARS"
    using assembled_len [OF assms(4)] .
  then show ?thesis
    using assms(2,3) plan_prefix_len [OF assms(1)] partial_prefix_len fallback_banner_len [of q]
    by (auto simp: results_text_def prefix_output_def plain_output_def)
qed

definition demo_tool_host :: "(nat \<times> nat) tool_host" where
  "demo_tool_host =
     \<lparr>th_windows = False, th_ellipsis = ''.'', th_dash = ''-'', th_file_order = (\<lambda>fs. fs), th_block_sort = sort_by,
      th_disk = \<lparr>dh_is_file = (\<lambda>_. False), dh_is_dir = (\<lambda>_. True), dh_read = (\<lambda>_. None), dh_canonicalize = (\<lambda>_. None)\<rparr>,
      th_config = \<lparr>ch_parse = (\<lambda>_. None), ch_print = (\<lambda>_. []), ch_fails = (\<lambda>_ _. None), ch_windows = False\<rparr>,
      th_client_error = (\<lambda>_. None), th_llm_client = (\<lambda>_. None),
      th_jev = (\<lambda>_. demo_jev), th_services = (\<lambda>_. demo_services), th_dbs = (\<lambda>_. []),
      th_observe = (\<lambda>_ _. demo_observation), th_polls = (\<lambda>_ _. (0, \<lambda>i. (None, 500 * Suc i))),
      th_decided = (\<lambda>_ _ w. w), th_waited = (\<lambda>_ w. w), th_register = (\<lambda>_ w. w), th_settings_file = (\<lambda>_. None),
      th_set_settings_file = (\<lambda>_ w. w), th_parse_stamp = (\<lambda>_. Some 4), th_days = (\<lambda>d. d), th_fuel = 10\<rparr>"

definition demo_result :: code_result where
  "demo_result =
     \<lparr>cr_result_file = ''a.rs'', cr_line_start = 1, cr_line_end = 2, cr_score = 0, cr_text = ''x'', cr_symbol = None,
      cr_symbol_kind = None, cr_callers = None, cr_caller_files = None, cr_caller_names = [], cr_callee_names = [],
      cr_callees = None, cr_relevance = None, cr_duplicates = []\<rparr>"

definition demo_answer :: query_result where
  "demo_answer =
     \<lparr>qr_results = [demo_result], qr_pre_rerank = [], qr_search_ms = 0, qr_rerank = None, qr_warming = True,
      qr_graph_pending = False, qr_scope = Some ''docs'', qr_scope_fallback = True\<rparr>"

lemma demo_blocks: "\<exists>b. answer_blocks demo_tool_host ''/r'' demo_answer (0, 0) = Some [b]"
proof -
  have "block_hint_symbols (\<lambda>_. None) [] ''/r'' demo_result = []"
    by (simp add: block_hint_symbols_def demo_result_def has_inline_test_marker_def contains_str_def starts_with_def
        defined_symbols_for_def find_db_for_file_def)
  then have m: "merge_overlapping_blocks False (\<lambda>fs. fs) sort_by ''.'' (\<lambda>_. None)
      (map (\<lambda>r. output_block_of (block_hint_symbols (\<lambda>_. None) [] ''/r'' r) r) [demo_result]) \<noteq> None
    \<and> length (the (merge_overlapping_blocks False (\<lambda>fs. fs) sort_by ''.'' (\<lambda>_. None)
      (map (\<lambda>r. output_block_of (block_hint_symbols (\<lambda>_. None) [] ''/r'' r) r) [demo_result]))) = 1"
    by (simp add: merge_overlapping_blocks_def merge_group_def rebuild_def Let_def)
  then show ?thesis
    by (auto simp: answer_blocks_def demo_tool_host_def demo_answer_def generated_last_def length_Suc_conv)
qed

lemma decorated_answer_fits_witness:
  "\<exists>t. results_text demo_tool_host ''/r'' demo_answer (0, 0) = Some t
    \<and> str_len (prefix_output MCP_STALE_RESULTS (plain_output t)) \<le> 48520"
proof -
  obtain b where b: "answer_blocks demo_tool_host ''/r'' demo_answer (0, 0) = Some [b]" using demo_blocks by blast
  then obtain t where t: "results_text demo_tool_host ''/r'' demo_answer (0, 0) = Some t" by (auto simp: results_text_def)
  have "query_plan (ReadyStale 5) = Inr (VectorOnly, 5, MCP_STALE_RESULTS)" by (simp add: query_plan_def)
  from decorated_answer_fits [OF this t b] t show ?thesis by (simp add: MAX_TOOL_OUTPUT_CHARS_def)
qed

end
