(* ===== verification/Recompute.thy ===== *)
theory Recompute
  imports Hash_Map
begin

text \<open>
  The scheduler of the graph and statistics caches (\<open>RecomputeSlot\<close>, \<open>note_index_completion\<close> and
  \<open>run_debounced_recompute\<close> in \<open>src/indexing/mod.rs\<close>): after a completed run the caches are rebuilt
  once the repository has been quiet for the debounce window, by at most one task per repository.
  The task and the completions take the slot map's lock in turns, so the system is a step relation
  whose steps are the critical sections. Times in milliseconds.
\<close>

section \<open>The critical sections\<close>

definition CACHE_RECOMPUTE_DEBOUNCE :: nat where "CACHE_RECOMPUTE_DEBOUNCE = 4000"

record recompute_slot =
  sl_last_completion :: "nat option"
  sl_scheduled :: bool
  sl_recomputing :: bool
  sl_rearm :: bool

definition slot_default :: recompute_slot where
  "slot_default = \<lparr>sl_last_completion = None, sl_scheduled = False, sl_recomputing = False, sl_rearm = False\<rparr>"

type_synonym slots = "(str, recompute_slot) hmap"

text \<open>The first component says whether a task is spawned. The task keeps the database handle of the
  completion that spawned it; a completion that finds a task has its own handle dropped.\<close>

definition note_completion :: "nat \<Rightarrow> recompute_slot \<Rightarrow> bool \<times> recompute_slot" where
  "note_completion now sl =
     (let sl = sl\<lparr>sl_last_completion := Some now\<rparr>
      in if sl_scheduled sl then (False, if sl_recomputing sl then sl\<lparr>sl_rearm := True\<rparr> else sl)
         else (True, sl\<lparr>sl_scheduled := True\<rparr>))"

definition note_index_completion :: "nat \<Rightarrow> str \<Rightarrow> 'db \<Rightarrow> slots \<Rightarrow> 'db option \<times> slots" where
  "note_index_completion now repo db m =
     (let r = note_completion now (case hm_get repo m of None \<Rightarrow> slot_default | Some sl \<Rightarrow> sl)
      in (if fst r then Some db else None,
          if hm_contains repo m then hm_update repo (\<lambda>_. snd r) m else hm_insert repo (snd r) m))"

text \<open>How long the task still sleeps; \<open>None\<close> when it may go on.\<close>

definition debounce_wait :: "nat \<Rightarrow> str \<Rightarrow> slots \<Rightarrow> nat option" where
  "debounce_wait now repo m =
     (case Option.bind (hm_get repo m) sl_last_completion of
        Some stamp \<Rightarrow>
          (let elapsed = now - stamp
           in if elapsed \<le> CACHE_RECOMPUTE_DEBOUNCE \<and> CACHE_RECOMPUTE_DEBOUNCE - elapsed \<noteq> 0
              then Some (CACHE_RECOMPUTE_DEBOUNCE - elapsed) else None)
      | None \<Rightarrow> None)"

definition mark_recomputing :: "str \<Rightarrow> slots \<Rightarrow> slots" where
  "mark_recomputing repo m = hm_update repo (\<lambda>sl. sl\<lparr>sl_recomputing := True, sl_rearm := False\<rparr>) m"

text \<open>The decision after a pass; the first component says whether the task goes round once more.\<close>

definition retire_or_rearm :: "str \<Rightarrow> slots \<Rightarrow> bool \<times> slots" where
  "retire_or_rearm repo m =
     (case hm_get repo m of
        None \<Rightarrow> (False, m)
      | Some sl \<Rightarrow>
          if sl_rearm sl
          then (True, hm_update repo (\<lambda>sl. sl\<lparr>sl_recomputing := False, sl_rearm := False\<rparr>) m)
          else (False, hm_update repo (\<lambda>sl. sl\<lparr>sl_recomputing := False, sl_scheduled := False\<rparr>) m))"

definition recompute_pending :: "str \<Rightarrow> slots \<Rightarrow> bool" where
  "recompute_pending repo m = (case hm_get repo m of Some sl \<Rightarrow> sl_scheduled sl | None \<Rightarrow> False)"

lemma debounce_wait_quiet:
  "hm_get repo m = Some sl \<Longrightarrow> sl_last_completion sl = Some stamp \<Longrightarrow>
   debounce_wait now repo m = None \<longleftrightarrow> stamp + CACHE_RECOMPUTE_DEBOUNCE \<le> now"
  by (auto simp: debounce_wait_def Let_def CACHE_RECOMPUTE_DEBOUNCE_def)

lemma note_index_completion_get [simp]:
  "hm_get r (snd (note_index_completion now repo db m)) =
     (if r = repo
      then Some (snd (note_completion now (case hm_get repo m of None \<Rightarrow> slot_default | Some sl \<Rightarrow> sl)))
      else hm_get r m)"
  "fst (note_index_completion now repo db m) =
     (if fst (note_completion now (case hm_get repo m of None \<Rightarrow> slot_default | Some sl \<Rightarrow> sl)) then Some db else None)"
  by (auto simp: note_index_completion_def Let_def hm_contains_iff)

text \<open>So a task that waits recomputes on the handle it has, also when the index was removed meanwhile and
  the run that completes wrote the next generation through another handle.\<close>

lemma coalesced_handle_dropped:
  "recompute_pending repo m \<Longrightarrow>
     fst (note_index_completion now repo db m) = None \<and> note_index_completion now repo db m = note_index_completion now repo db' m"
  by (auto simp: recompute_pending_def note_index_completion_def note_completion_def Let_def split: option.splits)

section \<open>The tasks of one repository\<close>

text \<open>\<open>rc_stale\<close> is not in the code: a completion was noted since the last pass started, so the caches
  may miss it. \<open>rc_passes\<close> counts the passes started. When a pass runs does not depend on the handle, which
  is left out here.\<close>

datatype task_phase = Debouncing | Quiet | Recomputing

record recompute =
  rc_now :: nat
  rc_slots :: slots
  rc_tasks :: "task_phase list"
  rc_stale :: bool
  rc_passes :: nat

definition recompute_init :: "slots \<Rightarrow> recompute" where
  "recompute_init m = \<lparr>rc_now = 0, rc_slots = m, rc_tasks = [], rc_stale = False, rc_passes = 0\<rparr>"

definition complete_run :: "str \<Rightarrow> recompute \<Rightarrow> recompute" where
  "complete_run repo s =
     (let r = note_index_completion (rc_now s) repo () (rc_slots s)
      in s\<lparr>rc_slots := snd r, rc_tasks := rc_tasks s @ (case fst r of Some _ \<Rightarrow> [Debouncing] | None \<Rightarrow> []),
           rc_stale := True\<rparr>)"

definition remove_nth :: "nat \<Rightarrow> 'a list \<Rightarrow> 'a list" where
  "remove_nth i xs = take i xs @ drop (Suc i) xs"

inductive task_step :: "str \<Rightarrow> recompute \<Rightarrow> recompute \<Rightarrow> bool" for repo where
  time: "task_step repo s (s\<lparr>rc_now := rc_now s + d\<rparr>)"
| completion: "task_step repo s (complete_run repo s)"
| quiet: "i < length (rc_tasks s) \<Longrightarrow> rc_tasks s ! i = Debouncing \<Longrightarrow>
     debounce_wait (rc_now s) repo (rc_slots s) = None \<Longrightarrow>
     task_step repo s (s\<lparr>rc_tasks := (rc_tasks s)[i := Quiet]\<rparr>)"
| start: "i < length (rc_tasks s) \<Longrightarrow> rc_tasks s ! i = Quiet \<Longrightarrow>
     task_step repo s (s\<lparr>rc_slots := mark_recomputing repo (rc_slots s), rc_tasks := (rc_tasks s)[i := Recomputing],
       rc_stale := False, rc_passes := Suc (rc_passes s)\<rparr>)"
| again: "i < length (rc_tasks s) \<Longrightarrow> rc_tasks s ! i = Recomputing \<Longrightarrow>
     retire_or_rearm repo (rc_slots s) = (True, m) \<Longrightarrow>
     task_step repo s (s\<lparr>rc_slots := m, rc_tasks := (rc_tasks s)[i := Debouncing]\<rparr>)"
| retire: "i < length (rc_tasks s) \<Longrightarrow> rc_tasks s ! i = Recomputing \<Longrightarrow>
     retire_or_rearm repo (rc_slots s) = (False, m) \<Longrightarrow>
     task_step repo s (s\<lparr>rc_slots := m, rc_tasks := remove_nth i (rc_tasks s)\<rparr>)"

inductive task_reachable :: "str \<Rightarrow> recompute \<Rightarrow> bool" for repo where
  init: "hm_get repo m = None \<Longrightarrow> task_reachable repo (recompute_init m)"
| step: "task_reachable repo s \<Longrightarrow> task_step repo s s' \<Longrightarrow> task_reachable repo s'"

definition slot_ok :: "task_phase list \<Rightarrow> bool \<Rightarrow> recompute_slot \<Rightarrow> bool" where
  "slot_ok ts stale sl \<longleftrightarrow> sl_last_completion sl \<noteq> None
     \<and> (case ts of
          [] \<Rightarrow> \<not> sl_scheduled sl \<and> \<not> sl_recomputing sl \<and> \<not> sl_rearm sl \<and> \<not> stale
        | [p] \<Rightarrow> sl_scheduled sl \<and> (sl_recomputing sl \<longleftrightarrow> p = Recomputing)
                 \<and> (sl_rearm sl \<longrightarrow> p = Recomputing) \<and> (stale \<longrightarrow> p = Recomputing \<longrightarrow> sl_rearm sl)
        | _ \<Rightarrow> False)"

definition recompute_ok :: "str \<Rightarrow> recompute \<Rightarrow> bool" where
  "recompute_ok repo s =
     (case hm_get repo (rc_slots s) of
        None \<Rightarrow> rc_tasks s = [] \<and> \<not> rc_stale s
      | Some sl \<Rightarrow> slot_ok (rc_tasks s) (rc_stale s) sl \<and> the (sl_last_completion sl) \<le> rc_now s)"

lemma slot_ok_cases:
  assumes "slot_ok ts stale sl"
  obtains (idle) "ts = []" | (one) p where "ts = [p]"
  using assms by (auto simp: slot_ok_def split: list.splits)

lemma recompute_ok_step:
  assumes "task_step repo s s'" "recompute_ok repo s"
  shows "recompute_ok repo s'"
  using assms
proof (induction rule: task_step.induct)
  case (completion s)
  then show ?case
    by (cases "rc_tasks s")
      (auto simp: recompute_ok_def complete_run_def note_completion_def Let_def slot_ok_def slot_default_def
        split: option.splits list.splits)
qed (auto simp: recompute_ok_def mark_recomputing_def retire_or_rearm_def slot_ok_def remove_nth_def
      split: option.splits list.splits if_splits)

lemma recompute_invariant: "task_reachable repo s \<Longrightarrow> recompute_ok repo s"
  by (induction rule: task_reachable.induct)
    (auto simp: recompute_ok_step, simp add: recompute_ok_def recompute_init_def)

section \<open>Left alone, the task finishes\<close>

text \<open>One move of the task when no further run completes: a sleep lasts until it is due.\<close>

definition advance :: "str \<Rightarrow> recompute \<Rightarrow> recompute" where
  "advance repo s =
     (case rc_tasks s of
        [] \<Rightarrow> s
      | Debouncing # ts \<Rightarrow>
          (case debounce_wait (rc_now s) repo (rc_slots s) of
             Some w \<Rightarrow> s\<lparr>rc_now := rc_now s + w\<rparr>
           | None \<Rightarrow> s\<lparr>rc_tasks := Quiet # ts\<rparr>)
      | Quiet # ts \<Rightarrow>
          s\<lparr>rc_slots := mark_recomputing repo (rc_slots s), rc_tasks := Recomputing # ts, rc_stale := False,
            rc_passes := Suc (rc_passes s)\<rparr>
      | Recomputing # ts \<Rightarrow>
          (case retire_or_rearm repo (rc_slots s) of
             (True, m) \<Rightarrow> s\<lparr>rc_slots := m, rc_tasks := Debouncing # ts\<rparr>
           | (False, m) \<Rightarrow> s\<lparr>rc_slots := m, rc_tasks := ts\<rparr>))"

text \<open>Its moves are steps of the system.\<close>

lemma advance_step: "task_step repo s (advance repo s)"
proof (cases "rc_tasks s")
  case Nil
  then show ?thesis using task_step.time [of repo s 0] by (simp add: advance_def)
next
  case (Cons p ts)
  show ?thesis
  proof (cases p)
    case Debouncing
    then show ?thesis
      using Cons task_step.time [of repo s] task_step.quiet [of 0 s repo]
      by (auto simp: advance_def split: option.splits)
  next
    case Quiet
    then show ?thesis using Cons task_step.start [of 0 s repo] by (simp add: advance_def)
  next
    case Recomputing
    then show ?thesis
      using Cons task_step.again [of 0 s repo] task_step.retire [of 0 s repo]
      by (cases "retire_or_rearm repo (rc_slots s)") (auto simp: advance_def remove_nth_def split: bool.splits)
  qed
qed

lemma advance_ok: "recompute_ok repo s \<Longrightarrow> recompute_ok repo (advance repo s)"
  using recompute_ok_step [OF advance_step] .

definition finished :: "nat \<Rightarrow> recompute \<Rightarrow> bool" where
  "finished n s \<longleftrightarrow> rc_tasks s = [] \<and> \<not> rc_stale s \<and> rc_passes s \<le> n"

lemma finished_advance [simp]: "finished n s \<Longrightarrow> advance repo s = s"
  by (simp add: finished_def advance_def)

lemma ok_idle: "recompute_ok repo s \<Longrightarrow> rc_tasks s = [] \<Longrightarrow> finished (rc_passes s) s"
  by (auto simp: recompute_ok_def finished_def slot_ok_def split: option.splits)

definition rearmed :: "str \<Rightarrow> recompute \<Rightarrow> bool" where
  "rearmed repo s \<longleftrightarrow> (case hm_get repo (rc_slots s) of Some sl \<Rightarrow> sl_rearm sl | None \<Rightarrow> False)"

lemma advance_retires:
  "recompute_ok repo s \<Longrightarrow> rc_tasks s = [Recomputing] \<Longrightarrow> \<not> rearmed repo s \<Longrightarrow> finished (rc_passes s) (advance repo s)"
  by (auto simp: recompute_ok_def slot_ok_def advance_def retire_or_rearm_def rearmed_def finished_def split: option.splits)

lemma advance_rearms:
  "recompute_ok repo s \<Longrightarrow> rc_tasks s = [Recomputing] \<Longrightarrow> rearmed repo s \<Longrightarrow>
   rc_tasks (advance repo s) = [Debouncing] \<and> rc_passes (advance repo s) = rc_passes s"
  by (auto simp: recompute_ok_def slot_ok_def advance_def retire_or_rearm_def rearmed_def split: option.splits)

lemma advance_starts:
  "recompute_ok repo s \<Longrightarrow> rc_tasks s = [Quiet] \<Longrightarrow>
   rc_tasks (advance repo s) = [Recomputing] \<and> \<not> rearmed repo (advance repo s)
   \<and> rc_passes (advance repo s) = Suc (rc_passes s)"
  by (auto simp: recompute_ok_def advance_def mark_recomputing_def rearmed_def split: option.splits)

lemma advance_sleeps:
  "recompute_ok repo s \<Longrightarrow> rc_tasks s = [Debouncing] \<Longrightarrow>
   (let s' = advance repo s in rc_passes s' = rc_passes s \<and>
      (if debounce_wait (rc_now s) repo (rc_slots s) = None then rc_tasks s' = [Quiet]
       else rc_tasks s' = [Debouncing] \<and> debounce_wait (rc_now s') repo (rc_slots s') = None))"
  by (auto simp: recompute_ok_def slot_ok_def advance_def debounce_wait_def Let_def CACHE_RECOMPUTE_DEBOUNCE_def
      split: option.splits)

lemma finish_from_quiet:
  assumes "recompute_ok repo s" "rc_tasks s = [Quiet]"
  shows "finished (Suc (rc_passes s)) (advance repo (advance repo s))"
  using advance_retires [OF advance_ok, of repo s] advance_starts assms by fastforce

lemma finish_from_debouncing:
  assumes "recompute_ok repo s" "rc_tasks s = [Debouncing]"
  shows "finished (Suc (rc_passes s)) ((advance repo ^^ 4) s)"
proof -
  have due: "finished (Suc (rc_passes s)) (advance repo (advance repo (advance repo s)))"
    if "recompute_ok repo s" "rc_tasks s = [Debouncing]" "debounce_wait (rc_now s) repo (rc_slots s) = None" for s
    using finish_from_quiet [OF advance_ok [OF that(1)]] advance_sleeps [OF that(1,2)] that(3) by (simp add: Let_def)
  show ?thesis
  proof (cases "debounce_wait (rc_now s) repo (rc_slots s) = None")
    case True
    then show ?thesis using due [OF assms] by (simp add: eval_nat_numeral)
  next
    case False
    then have "rc_tasks (advance repo s) = [Debouncing]" "rc_passes (advance repo s) = rc_passes s"
      "debounce_wait (rc_now (advance repo s)) repo (rc_slots (advance repo s)) = None"
      using advance_sleeps [OF assms] by (simp_all add: Let_def)
    then show ?thesis using due [OF advance_ok [OF assms(1)]] by (simp add: eval_nat_numeral)
  qed
qed

lemma ok_tasks:
  assumes "recompute_ok repo s"
  shows "rc_tasks s \<in> {[], [Debouncing], [Quiet], [Recomputing]}"
proof (cases "hm_get repo (rc_slots s)")
  case (Some sl)
  then have "slot_ok (rc_tasks s) (rc_stale s) sl" using assms by (simp add: recompute_ok_def)
  then show ?thesis
  proof (cases rule: slot_ok_cases)
    case (one p)
    then show ?thesis by (cases p) simp_all
  qed simp
qed (use assms in \<open>simp add: recompute_ok_def\<close>)

lemma finish_soon:
  assumes "recompute_ok repo s"
  shows "finished (Suc (rc_passes s)) ((advance repo ^^ 5) s)"
proof -
  have five: "(advance repo ^^ 5) s = (advance repo ^^ 4) (advance repo s)" for s
    by (simp add: eval_nat_numeral)
  have more: "finished n s \<Longrightarrow> finished (Suc n) s" for n s by (simp add: finished_def)
  have stop: "finished n (advance repo s) \<Longrightarrow> finished n ((advance repo ^^ 5) s)" for n s
    by (simp add: eval_nat_numeral)
  consider "rc_tasks s = []" | "rc_tasks s = [Debouncing]" | "rc_tasks s = [Quiet]" | "rc_tasks s = [Recomputing]"
    using ok_tasks [OF assms] by blast
  then show ?thesis
  proof cases
    case 1
    then show ?thesis using ok_idle [OF assms] stop more by simp
  next
    case 2
    then show ?thesis using finish_from_debouncing [OF assms] by (simp add: eval_nat_numeral)
  next
    case 3
    then show ?thesis using finish_from_quiet [OF assms] by (simp add: eval_nat_numeral)
  next
    case 4
    show ?thesis
    proof (cases "rearmed repo s")
      case True
      then show ?thesis
        using advance_rearms [OF assms 4] finish_from_debouncing [OF advance_ok [OF assms]] by (simp add: five)
    next
      case False
      then show ?thesis using advance_retires [OF assms 4] stop more by blast
    qed
  qed
qed

text \<open>C34: no completed run is forgotten by the caches. Whatever completions and passes have happened,
  in any interleaving, at most one task exists for the repository; and if no further run completes,
  five moves of that task (a sleep lasting until it is due) end it, with the caches rebuilt by a pass
  that started after the last completion, and with at most one pass more than those already
  started.\<close>

theorem recompute_never_lost:
  assumes "task_reachable repo s"
  shows "length (rc_tasks s) \<le> 1
    \<and> (let s' = (advance repo ^^ 5) s
       in rc_tasks s' = [] \<and> \<not> rc_stale s' \<and> rc_passes s' \<le> Suc (rc_passes s))"
proof -
  have ok: "recompute_ok repo s" using recompute_invariant [OF assms] .
  then have "length (rc_tasks s) \<le> 1"
    using ok_tasks by fastforce
  then show ?thesis using finish_soon [OF ok] by (simp add: Let_def finished_def)
qed

definition busy :: recompute where
  "busy = complete_run ''r'' (advance ''r'' (advance ''r'' (advance ''r'' (complete_run ''r'' (recompute_init [])))))"

lemma busy_reachable: "task_reachable ''r'' busy"
  unfolding busy_def
  by (intro task_reachable.step [OF _ advance_step] task_reachable.step [OF _ task_step.completion]
      task_reachable.init) simp

lemma recompute_never_lost_witness:
  "rc_tasks busy = [Recomputing] \<and> rc_stale busy \<and> \<not> rc_stale ((advance ''r'' ^^ 5) busy)"
proof -
  have "rc_tasks busy = [Recomputing] \<and> rc_stale busy"
    by (simp add: busy_def advance_def complete_run_def recompute_init_def note_completion_def slot_default_def
        debounce_wait_def Let_def CACHE_RECOMPUTE_DEBOUNCE_def mark_recomputing_def)
  then show ?thesis using recompute_never_lost [OF busy_reachable] by (simp add: Let_def)
qed

end
