(* ===== verification/Index_Engine.thy ===== *)
theory Index_Engine
  imports Index_Status Recompute Index_Control
begin

text \<open>
  The indexing engine's one consumer (\<open>run_consumer\<close> in \<open>src/indexing/mod.rs\<close>) with what runs beside it:
  triggers, retry timers, cancellations and the recompute scheduler. What a run meets (the configured
  keys, the client, the database, the pipeline and what it reports) is an observation; everything the
  consumer does about it is here. Wall-clock times are integers, the monotonic clock is in
  milliseconds, retry delays are in seconds.
\<close>

section \<open>The engine\<close>

record index_trigger =
  tr_repo :: str
  tr_changes :: "file_change list option"
  tr_rebuild :: bool

datatype run_event = Completed str nat nat | RunFailed str str | RunCancelled str

fun event_repo :: "run_event \<Rightarrow> str" where
  "event_repo (Completed r _ _) = r"
| "event_repo (RunFailed r _) = r"
| "event_repo (RunCancelled r) = r"

record current_run =
  cu_trigger :: index_trigger
  cu_token :: nat

text \<open>\<open>en_needs_rebuild\<close> and \<open>en_last_indexed\<close> are the marks in the repositories' databases, \<open>en_timers\<close> the sleeping
  retries, \<open>en_recomputes\<close> the spawned recompute tasks.\<close>

record engine =
  en_statuses :: statuses
  en_cancel :: cancel_state
  en_reserved :: "str list"
  en_backoff :: backoff
  en_slots :: slots
  en_queue :: "index_trigger list"
  en_timers :: "(str \<times> nat) list"
  en_recomputes :: "str list"
  en_events :: "run_event list"
  en_needs_rebuild :: "str list"
  en_last_indexed :: "(str, int) hmap"
  en_current :: "current_run option"

text \<open>\<open>start\<close>: one entry per configured repository, nothing queued.\<close>

definition engine_start :: "bool \<Rightarrow> str list \<Rightarrow> str list \<Rightarrow> (str, int) hmap \<Rightarrow> engine" where
  "engine_start win repos needs_rebuild last_indexed =
     \<lparr>en_statuses = fold (\<lambda>r. hm_insert (normalize_repo_path win r) status_default) repos [],
      en_cancel = \<lparr>cs_tokens = [], cs_cancelled = {}, cs_next = 0\<rparr>, en_reserved = [], en_backoff = [], en_slots = [],
      en_queue = [], en_timers = [], en_recomputes = [], en_events = [], en_needs_rebuild = needs_rebuild,
      en_last_indexed = last_indexed, en_current = None\<rparr>"

definition send_trigger :: "index_trigger \<Rightarrow> engine \<Rightarrow> engine" where
  "send_trigger tr en = en\<lparr>en_queue := en_queue en @ [tr]\<rparr>"

definition trigger_index :: "bool \<Rightarrow> str \<Rightarrow> engine \<Rightarrow> engine" where
  "trigger_index win repo = send_trigger \<lparr>tr_repo = normalize_repo_path win repo, tr_changes = None, tr_rebuild = False\<rparr>"

definition trigger_rebuild :: "bool \<Rightarrow> str \<Rightarrow> engine \<Rightarrow> engine" where
  "trigger_rebuild win repo = send_trigger \<lparr>tr_repo = normalize_repo_path win repo, tr_changes = None, tr_rebuild = True\<rparr>"

definition trigger_index_all :: "bool \<Rightarrow> str list \<Rightarrow> engine \<Rightarrow> engine" where
  "trigger_index_all win repos en = fold (trigger_index win) repos en"

text \<open>Both identity requests share one reservation per repository. \<open>open_channel\<close>: the send succeeds.\<close>

definition request_identity_run :: "bool \<Rightarrow> bool \<Rightarrow> str \<Rightarrow> engine \<Rightarrow> engine" where
  "request_identity_run rebuild open_channel repo en =
     (case guard_reserve repo (en_reserved en) of
        (False, _) \<Rightarrow> en
      | (True, reserved) \<Rightarrow>
          if open_channel
          then send_trigger \<lparr>tr_repo = repo, tr_changes = None, tr_rebuild = rebuild\<rparr> (en\<lparr>en_reserved := reserved\<rparr>)
          else en\<lparr>en_reserved := guard_release repo reserved\<rparr>)"

definition request_identity_check :: "bool \<Rightarrow> str \<Rightarrow> engine \<Rightarrow> engine" where
  "request_identity_check = request_identity_run False"

definition request_identity_rebuild :: "bool \<Rightarrow> str \<Rightarrow> engine \<Rightarrow> engine" where
  "request_identity_rebuild = request_identity_run True"

definition schedule_retry :: "str \<Rightarrow> engine \<Rightarrow> engine" where
  "schedule_retry repo en =
     (case retry_schedule repo (en_backoff en) of
        (None, b) \<Rightarrow> en\<lparr>en_backoff := b\<rparr>
      | (Some delay, b) \<Rightarrow> en\<lparr>en_backoff := b, en_timers := en_timers en @ [(repo, delay)]\<rparr>)"

text \<open>A timer is due: the retry is marked as fired, then sent.\<close>

definition timer_fires :: "nat \<Rightarrow> engine \<Rightarrow> engine" where
  "timer_fires i en =
     (let repo = fst (en_timers en ! i)
      in send_trigger \<lparr>tr_repo = repo, tr_changes = None, tr_rebuild = False\<rparr>
           (en\<lparr>en_backoff := retry_fired repo (en_backoff en), en_timers := remove_nth i (en_timers en)\<rparr>))"

section \<open>One run\<close>

definition mark_indexing :: "repo_status \<Rightarrow> repo_status" where
  "mark_indexing s =
     s\<lparr>rp_state := Indexing, rp_error := None, rp_indexed_files := 0, rp_total_files := 0, rp_phase := Embedding,
       rp_phase_done := 0, rp_phase_total := 0\<rparr>"

definition mark_failed :: "str \<Rightarrow> repo_status \<Rightarrow> repo_status" where
  "mark_failed message s =
     s\<lparr>rp_state := Error, rp_error := Some message, rp_phase := PhaseIdle, rp_phase_done := 0, rp_phase_total := 0\<rparr>"

text \<open>The database that does not open leaves the stage as it was.\<close>

definition mark_unopened :: "str \<Rightarrow> repo_status \<Rightarrow> repo_status" where
  "mark_unopened message s = s\<lparr>rp_state := Error, rp_error := Some message\<rparr>"

definition mark_cancelled :: "repo_status \<Rightarrow> repo_status" where
  "mark_cancelled s =
     s\<lparr>rp_state := Idle, rp_error := None, rp_phase := PhaseIdle, rp_phase_done := 0, rp_phase_total := 0\<rparr>"

definition mark_complete :: "nat \<Rightarrow> nat \<Rightarrow> int \<Rightarrow> repo_status \<Rightarrow> repo_status" where
  "mark_complete indexed in_all now s =
     s\<lparr>rp_state := Idle, rp_indexed_files := indexed, rp_total_files := in_all, rp_last_indexed_at := Some now,
       rp_error := None, rp_phase := PhaseIdle, rp_phase_done := 0, rp_phase_total := 0\<rparr>"

text \<open>The next trigger is taken off the queue: a fresh token, and the status.\<close>

definition begin_indexing :: "index_trigger \<Rightarrow> engine \<Rightarrow> engine" where
  "begin_indexing tr en =
     (let repo = tr_repo tr; tc = new_cancel_token repo (en_cancel en)
      in en\<lparr>en_queue := tl (en_queue en), en_cancel := snd tc,
            en_statuses := upsert_status repo mark_indexing (en_statuses en),
            en_current := Some \<lparr>cu_trigger = tr, cu_token = fst tc\<rparr>\<rparr>)"

text \<open>How the run ends. \<open>Ran force outcome\<close>: the pipeline ran; \<open>force\<close> is whether it was asked to rebuild.\<close>

datatype run_outcome = Run_Ok nat nat | Run_Cancelled | Run_Error bool str

datatype run_end = No_Keys | No_Client str | No_Database str | Ran run_outcome

text \<open>What else the end meets: whether the database takes the marks, the list of files to retry (\<open>None\<close> when
  it cannot be read), the clocks, and the em dash (U+2014) of a message.\<close>

record run_env =
  ru_meta_ok :: bool
  ru_mark_read :: bool
  ru_pending_retry :: "str list option"
  ru_wall :: int
  ru_dash :: str
  ru_clock :: nat

definition NO_KEYS_ERROR :: "str \<Rightarrow> str" where
  "NO_KEYS_ERROR dash = ''no embedding API keys configured '' @ dash @ '' cannot index without embeddings''"

definition force_rebuild :: "run_env \<Rightarrow> index_trigger \<Rightarrow> engine \<Rightarrow> bool" where
  "force_rebuild env tr en \<longleftrightarrow> tr_rebuild tr \<or> (ru_mark_read env \<and> tr_repo tr \<in> set (en_needs_rebuild en))"

definition emit :: "run_event \<Rightarrow> engine \<Rightarrow> engine" where
  "emit e en = en\<lparr>en_events := en_events en @ [e]\<rparr>"

definition set_status :: "str \<Rightarrow> (repo_status \<Rightarrow> repo_status) \<Rightarrow> engine \<Rightarrow> engine" where
  "set_status repo f en = en\<lparr>en_statuses := upsert_status repo f (en_statuses en)\<rparr>"

definition release_reservation :: "str \<Rightarrow> engine \<Rightarrow> engine" where
  "release_reservation repo en = en\<lparr>en_reserved := guard_release repo (en_reserved en)\<rparr>"

definition clear_token :: "str \<Rightarrow> engine \<Rightarrow> engine" where
  "clear_token repo en = en\<lparr>en_cancel := clear_cancel_token repo (en_cancel en), en_current := None\<rparr>"

definition stamp_complete :: "run_env \<Rightarrow> str \<Rightarrow> engine \<Rightarrow> engine" where
  "stamp_complete env repo en =
     (if ru_meta_ok env then en\<lparr>en_last_indexed := hm_insert repo (ru_wall env) (en_last_indexed en)\<rparr> else en)"

definition note_retries :: "run_env \<Rightarrow> str \<Rightarrow> engine \<Rightarrow> engine" where
  "note_retries env repo en =
     (case ru_pending_retry env of
        Some (f # fs) \<Rightarrow> schedule_retry repo en
      | _ \<Rightarrow> en\<lparr>en_backoff := retry_reset repo (en_backoff en)\<rparr>)"

definition clear_mark :: "run_env \<Rightarrow> bool \<Rightarrow> str \<Rightarrow> engine \<Rightarrow> engine" where
  "clear_mark env force repo en =
     (if force \<and> ru_meta_ok env then en\<lparr>en_needs_rebuild := filter (\<lambda>r. r \<noteq> repo) (en_needs_rebuild en)\<rparr> else en)"

definition set_mark :: "run_env \<Rightarrow> str \<Rightarrow> engine \<Rightarrow> engine" where
  "set_mark env repo en =
     (if ru_meta_ok env \<and> repo \<notin> set (en_needs_rebuild en) then en\<lparr>en_needs_rebuild := repo # en_needs_rebuild en\<rparr> else en)"

definition note_completion_of :: "run_env \<Rightarrow> str \<Rightarrow> engine \<Rightarrow> engine" where
  "note_completion_of env repo en =
     (let r = note_index_completion (ru_clock env) repo repo (en_slots en)
      in en\<lparr>en_slots := snd r,
            en_recomputes := (case fst r of Some db \<Rightarrow> db # en_recomputes en | None \<Rightarrow> en_recomputes en)\<rparr>)"

definition run_completed :: "run_env \<Rightarrow> bool \<Rightarrow> str \<Rightarrow> nat \<Rightarrow> nat \<Rightarrow> engine \<Rightarrow> engine" where
  "run_completed env force repo indexed in_all en =
     note_completion_of env repo
       (clear_mark env force repo
         (note_retries env repo
           (emit (Completed repo indexed in_all)
             (stamp_complete env repo (set_status repo (mark_complete indexed in_all (ru_wall env)) en)))))"

definition run_failed :: "run_env \<Rightarrow> bool \<Rightarrow> str \<Rightarrow> str \<Rightarrow> engine \<Rightarrow> engine" where
  "run_failed env fatal repo message en =
     (let en = emit (RunFailed repo message) (set_status repo (mark_failed message) (set_mark env repo en))
      in if fatal then en else schedule_retry repo en)"

definition run_finished :: "run_env \<Rightarrow> bool \<Rightarrow> str \<Rightarrow> run_outcome \<Rightarrow> engine \<Rightarrow> engine" where
  "run_finished env force repo outcome en =
     (case outcome of
        Run_Ok indexed in_all \<Rightarrow> run_completed env force repo indexed in_all en
      | Run_Cancelled \<Rightarrow> emit (RunCancelled repo) (set_status repo mark_cancelled en)
      | Run_Error fatal message \<Rightarrow> run_failed env fatal repo message en)"

lemmas run_finished_unfold = run_finished_def run_completed_def run_failed_def

definition end_run :: "run_env \<Rightarrow> run_end \<Rightarrow> index_trigger \<Rightarrow> engine \<Rightarrow> engine" where
  "end_run env e tr en =
     (let repo = tr_repo tr
      in clear_token repo
        (case e of
           No_Keys \<Rightarrow>
             release_reservation repo
               (emit (RunFailed repo (NO_KEYS_ERROR (ru_dash env)))
                 (set_status repo (mark_failed (NO_KEYS_ERROR (ru_dash env))) en))
         | No_Client message \<Rightarrow> emit (RunFailed repo message) (set_status repo (mark_failed message) en)
         | No_Database message \<Rightarrow> emit (RunFailed repo message) (set_status repo (mark_unopened message) en)
         | Ran outcome \<Rightarrow>
             release_reservation repo (run_finished env (force_rebuild env tr en) repo outcome en)))"

definition report_progress :: "progress_call list \<Rightarrow> engine \<Rightarrow> engine" where
  "report_progress calls en =
     (case en_current en of
        Some cu \<Rightarrow> en\<lparr>en_statuses := report (tr_repo (cu_trigger cu)) calls (en_statuses en)\<rparr>
      | None \<Rightarrow> en)"

definition cancel_run :: "bool \<Rightarrow> str \<Rightarrow> engine \<Rightarrow> engine" where
  "cancel_run win repo en = en\<lparr>en_cancel := snd (cancel_index win repo (en_statuses en) (en_cancel en))\<rparr>"

definition clear_index :: "bool \<Rightarrow> str \<Rightarrow> engine \<Rightarrow> engine" where
  "clear_index win repo en = en\<lparr>en_statuses := clear_status win repo (en_statuses en)\<rparr>"

definition register :: "bool \<Rightarrow> str \<Rightarrow> engine \<Rightarrow> engine" where
  "register win repo en = en\<lparr>en_statuses := fst (register_repo win repo (en_statuses en))\<rparr>"

section \<open>The engine at work\<close>

text \<open>One step at a time: the consumer takes the next trigger when it is idle, and what happens beside it may
  come in any order.\<close>

inductive engine_step :: "bool \<Rightarrow> engine \<Rightarrow> engine \<Rightarrow> bool" for win where
  send: "engine_step win en (send_trigger tr en)"
| identity: "engine_step win en (request_identity_run rebuild open_channel repo en)"
| fire: "i < length (en_timers en) \<Longrightarrow> engine_step win en (timer_fires i en)"
| begin_next: "en_current en = None \<Longrightarrow> en_queue en = tr # rest \<Longrightarrow> engine_step win en (begin_indexing tr en)"
| progress: "engine_step win en (report_progress calls en)"
| end_current: "en_current en = Some cu \<Longrightarrow> engine_step win en (end_run env e (cu_trigger cu) en)"
| cancel: "engine_step win en (cancel_run win repo en)"
| clear: "engine_step win en (clear_index win repo en)"
| registration: "engine_step win en (register win repo en)"

inductive engine_reachable :: "bool \<Rightarrow> engine \<Rightarrow> bool" for win where
  init: "engine_reachable win (engine_start win repos marks stamps)"
| step: "engine_reachable win en \<Longrightarrow> engine_step win en en' \<Longrightarrow> engine_reachable win en'"

text \<open>Nothing but the run in progress shows as indexing or holds a token; the token is not spent; and the
  sleeping retries are the ones the backoff knows about.\<close>

definition owner_ok :: "engine \<Rightarrow> bool" where
  "owner_ok en \<longleftrightarrow>
     (\<forall>r. is_indexing r (en_statuses en) \<longrightarrow> (\<exists>cu. en_current en = Some cu \<and> tr_repo (cu_trigger cu) = r))
     \<and> (\<forall>r t. hm_get r (cs_tokens (en_cancel en)) = Some t
         \<longrightarrow> (\<exists>cu. en_current en = Some cu \<and> tr_repo (cu_trigger cu) = r \<and> cu_token cu = t))
     \<and> tokens_fresh (en_cancel en)"

definition sleeping :: "str \<Rightarrow> engine \<Rightarrow> nat" where
  "sleeping repo en = length (filter (\<lambda>t. fst t = repo) (en_timers en))"

definition pending_retry :: "str \<Rightarrow> backoff \<Rightarrow> bool" where
  "pending_retry repo b = (case hm_get repo b of Some st \<Rightarrow> rs_pending st | None \<Rightarrow> False)"

definition timers_ok :: "engine \<Rightarrow> bool" where
  "timers_ok en \<longleftrightarrow> (\<forall>repo. sleeping repo en = (if pending_retry repo (en_backoff en) then 1 else 0))"

lemma is_indexing_upsert:
  "is_indexing r (upsert_status repo f m) =
     (if r = repo then rp_state (f (case hm_get repo m of None \<Rightarrow> status_default | Some s \<Rightarrow> s)) = Indexing else is_indexing r m)"
  by (simp add: is_indexing_def)

lemma is_indexing_report [simp]: "is_indexing r (report repo calls m) \<Longrightarrow> r = repo \<or> is_indexing r m"
  by (cases "r = repo") (simp_all add: is_indexing_def report_other)

lemma marks_settle [simp]:
  "rp_state (mark_failed msg s) = Error" "rp_state (mark_unopened msg s) = Error" "rp_state (mark_cancelled s) = Idle"
  "rp_state (mark_complete i n t s) = Idle"
  by (simp_all add: mark_failed_def mark_unopened_def mark_cancelled_def mark_complete_def)

text \<open>What the parts of a step leave alone.\<close>

lemma retry_frame [simp]:
  "en_statuses (schedule_retry repo en) = en_statuses en" "en_cancel (schedule_retry repo en) = en_cancel en"
  "en_current (schedule_retry repo en) = en_current en" "en_events (schedule_retry repo en) = en_events en"
  "en_queue (schedule_retry repo en) = en_queue en" "en_needs_rebuild (schedule_retry repo en) = en_needs_rebuild en"
  "en_reserved (schedule_retry repo en) = en_reserved en"
  by (simp_all add: schedule_retry_def split: prod.split option.split)

lemma notes_frame [simp]:
  "en_statuses (note_retries env repo en) = en_statuses en" "en_cancel (note_retries env repo en) = en_cancel en"
  "en_current (note_retries env repo en) = en_current en" "en_events (note_retries env repo en) = en_events en"
  "en_needs_rebuild (note_retries env repo en) = en_needs_rebuild en"
  by (simp_all add: note_retries_def split: option.split list.split)

lemma small_frame [simp]:
  "en_statuses (emit e en) = en_statuses en" "en_cancel (emit e en) = en_cancel en" "en_current (emit e en) = en_current en"
  "en_timers (emit e en) = en_timers en" "en_backoff (emit e en) = en_backoff en" "en_events (emit e en) = en_events en @ [e]"
  "en_statuses (set_mark env repo en) = en_statuses en" "en_cancel (set_mark env repo en) = en_cancel en"
  "en_current (set_mark env repo en) = en_current en" "en_timers (set_mark env repo en) = en_timers en"
  "en_backoff (set_mark env repo en) = en_backoff en" "en_events (set_mark env repo en) = en_events en"
  "en_statuses (clear_mark env force repo en) = en_statuses en" "en_cancel (clear_mark env force repo en) = en_cancel en"
  "en_current (clear_mark env force repo en) = en_current en" "en_timers (clear_mark env force repo en) = en_timers en"
  "en_backoff (clear_mark env force repo en) = en_backoff en" "en_events (clear_mark env force repo en) = en_events en"
  "en_statuses (stamp_complete env repo en) = en_statuses en" "en_cancel (stamp_complete env repo en) = en_cancel en"
  "en_current (stamp_complete env repo en) = en_current en" "en_timers (stamp_complete env repo en) = en_timers en"
  "en_backoff (stamp_complete env repo en) = en_backoff en" "en_events (stamp_complete env repo en) = en_events en"
  "en_statuses (note_completion_of env repo en) = en_statuses en" "en_cancel (note_completion_of env repo en) = en_cancel en"
  "en_current (note_completion_of env repo en) = en_current en" "en_timers (note_completion_of env repo en) = en_timers en"
  "en_backoff (note_completion_of env repo en) = en_backoff en" "en_events (note_completion_of env repo en) = en_events en"
  "en_statuses (release_reservation repo en) = en_statuses en" "en_cancel (release_reservation repo en) = en_cancel en"
  "en_current (release_reservation repo en) = en_current en" "en_timers (release_reservation repo en) = en_timers en"
  "en_backoff (release_reservation repo en) = en_backoff en" "en_events (release_reservation repo en) = en_events en"
  by (simp_all add: emit_def set_mark_def clear_mark_def stamp_complete_def note_completion_of_def release_reservation_def Let_def)

lemma status_frame [simp]:
  "en_statuses (set_status repo f en) = upsert_status repo f (en_statuses en)" "en_cancel (set_status repo f en) = en_cancel en"
  "en_current (set_status repo f en) = en_current en" "en_timers (set_status repo f en) = en_timers en"
  "en_backoff (set_status repo f en) = en_backoff en" "en_events (set_status repo f en) = en_events en"
  "en_statuses (clear_token repo en) = en_statuses en" "en_cancel (clear_token repo en) = clear_cancel_token repo (en_cancel en)"
  "en_current (clear_token repo en) = None" "en_timers (clear_token repo en) = en_timers en"
  "en_backoff (clear_token repo en) = en_backoff en" "en_events (clear_token repo en) = en_events en"
  by (simp_all add: set_status_def clear_token_def)

section \<open>How a run ends\<close>

definition ends_well :: "run_end \<Rightarrow> bool" where
  "ends_well e \<longleftrightarrow> (\<exists>i n. e = Ran (Run_Ok i n)) \<or> e = Ran Run_Cancelled"

definition settled_state :: "bool \<Rightarrow> index_state" where
  "settled_state well = (if well then Idle else Error)"

definition settles :: "str \<Rightarrow> bool \<Rightarrow> engine \<Rightarrow> engine \<Rightarrow> bool" where
  "settles repo well en en' \<longleftrightarrow>
     (\<exists>f ev. en_statuses en' = upsert_status repo f (en_statuses en) \<and> en_events en' = en_events en @ [ev]
        \<and> event_repo ev = repo \<and> (\<forall>s. rp_state (f s) = settled_state well)
        \<and> (well \<or> (\<exists>m. ev = RunFailed repo m \<and> (\<forall>s. rp_error (f s) = Some m))))"

lemma settlesI:
  assumes "en_statuses en' = upsert_status repo f (en_statuses en)" "en_events en' = en_events en @ [ev]" "event_repo ev = repo"
    "\<And>s. rp_state (f s) = settled_state well" "well \<or> (\<exists>m. ev = RunFailed repo m \<and> (\<forall>s. rp_error (f s) = Some m))"
  shows "settles repo well en en'"
  unfolding settles_def using assms by blast

lemma finished_settles: "settles repo (ends_well (Ran outcome)) en (run_finished env force repo outcome en)"
proof (cases outcome)
  case (Run_Ok i n)
  show ?thesis
    by (rule settlesI [where f = "mark_complete i n (ru_wall env)" and ev = "Completed repo i n"])
      (simp_all add: Run_Ok run_finished_unfold ends_well_def settled_state_def)
next
  case Run_Cancelled
  show ?thesis
    by (rule settlesI [where f = mark_cancelled and ev = "RunCancelled repo"])
      (simp_all add: Run_Cancelled run_finished_unfold ends_well_def settled_state_def)
next
  case (Run_Error fatal m)
  show ?thesis
    by (rule settlesI [where f = "mark_failed m" and ev = "RunFailed repo m"])
      (simp_all add: Run_Error run_finished_unfold ends_well_def settled_state_def Let_def, simp add: mark_failed_def)
qed

lemma finished_cancel [simp]: "en_cancel (run_finished env force repo outcome en) = en_cancel en"
  by (cases outcome) (simp_all add: run_finished_unfold Let_def)

lemma end_settles: "settles (tr_repo tr) (ends_well e) en (end_run env e tr en)"
proof (cases e)
  case No_Keys
  show ?thesis
    by (rule settlesI [where f = "mark_failed (NO_KEYS_ERROR (ru_dash env))" and ev = "RunFailed (tr_repo tr) (NO_KEYS_ERROR (ru_dash env))"])
      (simp_all add: No_Keys end_run_def ends_well_def settled_state_def Let_def, simp add: mark_failed_def)
next
  case (No_Client m)
  show ?thesis
    by (rule settlesI [where f = "mark_failed m" and ev = "RunFailed (tr_repo tr) m"])
      (simp_all add: No_Client end_run_def ends_well_def settled_state_def Let_def, simp add: mark_failed_def)
next
  case (No_Database m)
  show ?thesis
    by (rule settlesI [where f = "mark_unopened m" and ev = "RunFailed (tr_repo tr) m"])
      (simp_all add: No_Database end_run_def ends_well_def settled_state_def Let_def, simp add: mark_unopened_def)
next
  case (Ran outcome)
  show ?thesis
    using finished_settles [of "tr_repo tr" outcome en env "force_rebuild env tr en"]
    unfolding settles_def Ran by (simp add: end_run_def Let_def)
qed

lemma end_cancel [simp]: "en_cancel (end_run env e tr en) = clear_cancel_token (tr_repo tr) (en_cancel en)"
  by (cases e) (simp_all add: end_run_def Let_def)

lemma end_current [simp]: "en_current (end_run env e tr en) = None"
  by (simp add: end_run_def Let_def)

text \<open>C31: every run settles. However a run ends (no keys, no client, no database, success, cancellation or
  failure), its repository no longer shows as indexing: it is idle exactly after a success or a
  cancellation, and otherwise shows the error that the one event of the run reports; its token is gone,
  the consumer is free again, and no other repository's status has changed.\<close>

theorem run_settles:
  "\<exists>s ev. hm_get (tr_repo tr) (en_statuses (end_run env e tr en)) = Some s
     \<and> rp_state s = (if ends_well e then Idle else Error)
     \<and> en_events (end_run env e tr en) = en_events en @ [ev] \<and> event_repo ev = tr_repo tr
     \<and> (ends_well e \<or> (\<exists>m. ev = RunFailed (tr_repo tr) m \<and> rp_error s = Some m))
     \<and> hm_get (tr_repo tr) (cs_tokens (en_cancel (end_run env e tr en))) = None
     \<and> en_current (end_run env e tr en) = None
     \<and> (\<forall>r. r = tr_repo tr \<or> hm_get r (en_statuses (end_run env e tr en)) = hm_get r (en_statuses en))"
proof -
  obtain f ev where f: "en_statuses (end_run env e tr en) = upsert_status (tr_repo tr) f (en_statuses en)"
    "en_events (end_run env e tr en) = en_events en @ [ev]" "event_repo ev = tr_repo tr"
    "\<And>s. rp_state (f s) = settled_state (ends_well e)"
    "ends_well e \<or> (\<exists>m. ev = RunFailed (tr_repo tr) m \<and> (\<forall>s. rp_error (f s) = Some m))"
    using end_settles [of tr e en env] unfolding settles_def by blast
  let ?s = "f (case hm_get (tr_repo tr) (en_statuses en) of None \<Rightarrow> status_default | Some s \<Rightarrow> s)"
  have "hm_get (tr_repo tr) (en_statuses (end_run env e tr en)) = Some ?s" by (simp add: f(1))
  moreover have "\<forall>r. r = tr_repo tr \<or> hm_get r (en_statuses (end_run env e tr en)) = hm_get r (en_statuses en)"
    by (simp add: f(1))
  moreover have "hm_get (tr_repo tr) (cs_tokens (en_cancel (end_run env e tr en))) = None"
    by (simp add: clear_cancel_token_def)
  moreover have "ends_well e \<or> (\<exists>m. ev = RunFailed (tr_repo tr) m \<and> rp_error ?s = Some m)" using f(5) by blast
  ultimately show ?thesis using f(2-4) unfolding settled_state_def by (intro exI [of _ ?s] exI [of _ ev] conjI) (simp_all add: f(4) settled_state_def)
qed

section \<open>Nobody is left indexing, and one retry sleeps at most\<close>

lemma owner_ok_begin:
  assumes "owner_ok en" "en_current en = None"
  shows "owner_ok (begin_indexing tr en)"
proof -
  have none: "\<not> is_indexing r (en_statuses en)" "hm_get r (cs_tokens (en_cancel en)) = None" for r
    using assms by (auto simp: owner_ok_def)
  have "tokens_fresh (snd (new_cancel_token (tr_repo tr) (en_cancel en)))"
    using assms tokens_fresh_new by (simp add: owner_ok_def)
  then show ?thesis
    using none
    by (auto simp: owner_ok_def begin_indexing_def Let_def is_indexing_upsert new_cancel_token_def split: if_splits)
qed

lemma owner_ok_end:
  assumes "owner_ok en" "en_current en = Some cu"
  shows "owner_ok (end_run env e (cu_trigger cu) en)"
proof -
  obtain f where f: "en_statuses (end_run env e (cu_trigger cu) en) = upsert_status (tr_repo (cu_trigger cu)) f (en_statuses en)"
    "\<And>s. rp_state (f s) = settled_state (ends_well e)"
    using end_settles [of "cu_trigger cu" e en env] unfolding settles_def by blast
  have "\<not> is_indexing r (upsert_status (tr_repo (cu_trigger cu)) f (en_statuses en))" for r
    using assms f(2) by (auto simp: owner_ok_def is_indexing_upsert settled_state_def)
  moreover have "hm_get r (cs_tokens (clear_cancel_token (tr_repo (cu_trigger cu)) (en_cancel en))) = None" for r
  proof -
    have "hm_get r (cs_tokens (en_cancel en)) \<noteq> None \<Longrightarrow> r = tr_repo (cu_trigger cu)"
      using assms by (auto simp: owner_ok_def)
    then show ?thesis by (cases "r = tr_repo (cu_trigger cu)") (auto simp: clear_cancel_token_def simp del: not_None_eq)
  qed
  ultimately show ?thesis
    using assms tokens_fresh_clear by (simp add: owner_ok_def f(1))
qed

lemma is_indexing_clear: "is_indexing r (clear_status win repo m) \<Longrightarrow> is_indexing r m"
  by (auto simp: is_indexing_def clear_status_def status_default_def split: option.splits if_splits)

lemma is_indexing_register: "is_indexing r (fst (register_repo win repo m)) \<Longrightarrow> is_indexing r m"
  by (auto simp: is_indexing_def register_repo_def status_default_def Let_def hm_contains_iff split: if_splits)

lemma cancel_tokens:
  "hm_get r (cs_tokens (snd (cancel_index win repo m c))) = Some t \<Longrightarrow> hm_get r (cs_tokens c) = Some t"
  by (auto simp: cancel_index_def Let_def split: option.splits if_splits)

lemma send_frame [simp]:
  "en_statuses (send_trigger tr en) = en_statuses en" "en_cancel (send_trigger tr en) = en_cancel en"
  "en_current (send_trigger tr en) = en_current en" "en_timers (send_trigger tr en) = en_timers en"
  "en_backoff (send_trigger tr en) = en_backoff en" "en_needs_rebuild (send_trigger tr en) = en_needs_rebuild en"
  by (simp_all add: send_trigger_def)

lemma identity_frame [simp]:
  "en_statuses (request_identity_run b oc repo en) = en_statuses en" "en_cancel (request_identity_run b oc repo en) = en_cancel en"
  "en_current (request_identity_run b oc repo en) = en_current en" "en_timers (request_identity_run b oc repo en) = en_timers en"
  "en_backoff (request_identity_run b oc repo en) = en_backoff en"
  "en_needs_rebuild (request_identity_run b oc repo en) = en_needs_rebuild en"
  by (simp_all add: request_identity_run_def split: prod.split bool.split)

lemma owner_ok_step:
  assumes "engine_step win en en'" "owner_ok en"
  shows "owner_ok en'"
  using assms
proof (induction rule: engine_step.induct)
  case (progress en calls)
  then show ?case
    by (cases "en_current en") (auto simp: report_progress_def owner_ok_def dest: is_indexing_report)
next
  case (cancel en repo)
  then show ?case
    by (auto simp: owner_ok_def cancel_run_def intro: tokens_fresh_cancel dest: cancel_tokens)
next
  case (clear en repo)
  then show ?case by (auto simp: owner_ok_def clear_index_def dest: is_indexing_clear)
next
  case (registration en repo)
  then show ?case by (auto simp: owner_ok_def register_def dest: is_indexing_register)
qed (auto simp: owner_ok_begin owner_ok_end, auto simp: owner_ok_def timer_fires_def Let_def)

lemma timers_ok_same:
  "en_timers en' = en_timers en \<Longrightarrow> en_backoff en' = en_backoff en \<Longrightarrow> timers_ok en' = timers_ok en"
  by (simp add: timers_ok_def sleeping_def)

lemma pending_schedule:
  "pending_retry r (snd (retry_schedule repo b)) = (r = repo \<or> pending_retry r b)"
  "fst (retry_schedule repo b) = None \<longleftrightarrow> pending_retry repo b"
  by (auto simp: retry_schedule_def pending_retry_def Let_def hm_contains_iff retry_default_def split: option.splits)

lemma pending_reset: "pending_retry r (retry_reset repo b) = pending_retry r b"
  by (auto simp: retry_reset_def pending_retry_def split: option.splits)

lemma pending_fired: "pending_retry r (retry_fired repo b) = (r \<noteq> repo \<and> pending_retry r b)"
  by (auto simp: retry_fired_def pending_retry_def split: option.splits)

lemma timers_ok_schedule:
  assumes "timers_ok en"
  shows "timers_ok (schedule_retry repo en)"
proof (cases "retry_schedule repo (en_backoff en)")
  case (Pair d b)
  have p: "pending_retry r b = (r = repo \<or> pending_retry r (en_backoff en))" for r
    using pending_schedule(1) [of r repo "en_backoff en"] Pair by simp
  have d: "d = None \<longleftrightarrow> pending_retry repo (en_backoff en)"
    using pending_schedule(2) [of repo "en_backoff en"] Pair by simp
  show ?thesis
  proof (cases d)
    case None
    then show ?thesis using assms p d by (auto simp: timers_ok_def sleeping_def schedule_retry_def Pair)
  next
    case (Some delay)
    then show ?thesis using assms p d by (auto simp: timers_ok_def sleeping_def schedule_retry_def Pair)
  qed
qed

lemma timers_ok_reset: "timers_ok en \<Longrightarrow> timers_ok (en\<lparr>en_backoff := retry_reset repo (en_backoff en)\<rparr>)"
  by (simp add: timers_ok_def sleeping_def pending_reset)

lemma timers_ok_notes: "timers_ok en \<Longrightarrow> timers_ok (note_retries env repo en)"
  by (simp add: note_retries_def timers_ok_schedule timers_ok_reset split: option.split list.split)

lemma timers_ok_end:
  assumes "timers_ok en"
  shows "timers_ok (end_run env e tr en)"
proof (cases e)
  case (Ran outcome)
  have "timers_ok (run_finished env force repo outcome en)" for force repo
  proof (cases outcome)
    case (Run_Ok i n)
    have "timers_ok (note_retries env repo (emit (Completed repo i n) (stamp_complete env repo (set_status repo (mark_complete i n (ru_wall env)) en))))"
      using assms by (intro timers_ok_notes) (simp add: timers_ok_def sleeping_def)
    then show ?thesis by (simp add: Run_Ok run_finished_unfold timers_ok_def sleeping_def)
  next
    case Run_Cancelled
    then show ?thesis using assms by (simp add: run_finished_unfold timers_ok_def sleeping_def)
  next
    case (Run_Error fatal m)
    have "timers_ok (emit (RunFailed repo m) (set_status repo (mark_failed m) (set_mark env repo en)))"
      using assms by (simp add: timers_ok_def sleeping_def)
    then show ?thesis using timers_ok_schedule by (simp add: Run_Error run_finished_unfold Let_def)
  qed
  then show ?thesis by (simp add: Ran end_run_def Let_def timers_ok_def sleeping_def)
qed (use assms in \<open>simp_all add: end_run_def Let_def timers_ok_def sleeping_def\<close>)

lemma filter_remove_nth:
  assumes "i < length xs"
  shows "length (filter P (remove_nth i xs)) + (if P (xs ! i) then 1 else 0) = length (filter P xs)"
proof -
  have "xs = take i xs @ xs ! i # drop (Suc i) xs" using assms by (rule id_take_nth_drop)
  then have "length (filter P xs) = length (filter P (take i xs @ xs ! i # drop (Suc i) xs))" by simp
  then show ?thesis by (simp add: remove_nth_def)
qed

lemma timers_ok_fire:
  assumes "timers_ok en" "i < length (en_timers en)"
  shows "timers_ok (timer_fires i en)"
  unfolding timers_ok_def
proof
  fix repo
  have "sleeping repo (timer_fires i en) + (if fst (en_timers en ! i) = repo then 1 else 0) = sleeping repo en"
    using filter_remove_nth [OF assms(2), of "\<lambda>t. fst t = repo"] by (simp add: sleeping_def timer_fires_def Let_def)
  then show "sleeping repo (timer_fires i en) = (if pending_retry repo (en_backoff (timer_fires i en)) then 1 else 0)"
    using assms(1) by (auto simp: timers_ok_def timer_fires_def Let_def pending_fired split: if_splits)
qed

lemma timers_ok_step:
  assumes "engine_step win en en'" "timers_ok en"
  shows "timers_ok en'"
  using assms
proof (induction rule: engine_step.induct)
  case (progress en calls)
  then show ?case by (cases "en_current en") (simp_all add: report_progress_def timers_ok_def sleeping_def)
qed (auto simp: timers_ok_end timers_ok_fire,
     auto simp: timers_ok_def sleeping_def begin_indexing_def cancel_run_def clear_index_def register_def Let_def)

lemma start_ok: "owner_ok (engine_start win repos marks stamps)" "timers_ok (engine_start win repos marks stamps)"
proof -
  have fresh: "\<not> is_indexing r (fold (\<lambda>r. hm_insert (normalize_repo_path win r) status_default) repos m)"
    if "\<And>r. \<not> is_indexing r m" for r m
    using that by (induction repos arbitrary: m) (auto simp: is_indexing_def status_default_def split: if_splits)
  have "\<not> is_indexing r []" for r by (simp add: is_indexing_def)
  then show "owner_ok (engine_start win repos marks stamps)"
    using fresh [of "[]"] by (simp add: owner_ok_def engine_start_def tokens_fresh_def)
  show "timers_ok (engine_start win repos marks stamps)"
    by (simp add: timers_ok_def engine_start_def sleeping_def pending_retry_def)
qed

lemma engine_invariant: "engine_reachable win en \<Longrightarrow> owner_ok en \<and> timers_ok en"
  by (induction rule: engine_reachable.induct) (simp_all add: start_ok owner_ok_step timers_ok_step)

text \<open>C30: no repository is left indexing, and retries do not pile up. Whatever triggers, timers, queries,
  cancellations, removals and registrations come in between, a repository shows as indexing only while
  the consumer's current run is its own, and a cancellation can reach only that run; and for each
  repository at most one retry sleeps.\<close>

theorem indexing_has_owner:
  assumes "engine_reachable win en"
  shows "(\<forall>r. is_indexing r (en_statuses en) \<longrightarrow> (\<exists>cu. en_current en = Some cu \<and> tr_repo (cu_trigger cu) = r))
    \<and> (\<forall>r t. hm_get r (cs_tokens (en_cancel en)) = Some t
         \<longrightarrow> (\<exists>cu. en_current en = Some cu \<and> tr_repo (cu_trigger cu) = r \<and> cu_token cu = t))
    \<and> (\<forall>repo. sleeping repo en \<le> 1)"
  using engine_invariant [OF assms] unfolding owner_ok_def timers_ok_def by auto

section \<open>A failed run is done over\<close>

lemma marks_frame [simp]:
  "en_needs_rebuild (emit e en) = en_needs_rebuild en" "en_needs_rebuild (set_status repo f en) = en_needs_rebuild en"
  "en_needs_rebuild (stamp_complete env repo en) = en_needs_rebuild en"
  "en_needs_rebuild (note_completion_of env repo en) = en_needs_rebuild en"
  "en_needs_rebuild (release_reservation repo en) = en_needs_rebuild en"
  "en_needs_rebuild (clear_token repo en) = en_needs_rebuild en"
  "en_needs_rebuild (begin_indexing tr en) = en_needs_rebuild en" "en_needs_rebuild (timer_fires i en) = en_needs_rebuild en"
  "en_needs_rebuild (report_progress calls en) = en_needs_rebuild en" "en_needs_rebuild (cancel_run win repo en) = en_needs_rebuild en"
  "en_needs_rebuild (clear_index win repo en) = en_needs_rebuild en" "en_needs_rebuild (register win repo en) = en_needs_rebuild en"
  by (simp_all add: emit_def set_status_def stamp_complete_def note_completion_of_def release_reservation_def clear_token_def
      begin_indexing_def timer_fires_def report_progress_def cancel_run_def clear_index_def register_def Let_def split: option.split)

lemma marks_finished:
  "set (en_needs_rebuild (run_finished env force repo outcome en)) =
     (case outcome of
        Run_Ok _ _ \<Rightarrow> set (en_needs_rebuild en) - (if force \<and> ru_meta_ok env then {repo} else {})
      | Run_Cancelled \<Rightarrow> set (en_needs_rebuild en)
      | Run_Error _ _ \<Rightarrow> set (en_needs_rebuild en) \<union> (if ru_meta_ok env then {repo} else {}))"
  by (cases outcome) (auto simp: run_finished_unfold clear_mark_def set_mark_def Let_def)

lemma marks_end:
  "set (en_needs_rebuild (end_run env e tr en)) =
     (case e of Ran outcome \<Rightarrow> set (en_needs_rebuild (run_finished env (force_rebuild env tr en) (tr_repo tr) outcome en))
      | _ \<Rightarrow> set (en_needs_rebuild en))"
  by (cases e) (simp_all add: end_run_def Let_def)

text \<open>a failed run is done over. When a run fails and the database takes the mark, the repository is
  marked; every later run that reads the mark is asked for a full rebuild, whatever its trigger says;
  and no step of the engine takes the mark away but the end of such a full rebuild that succeeded.\<close>

theorem failed_run_done_over:
  "(ru_meta_ok env \<longrightarrow> tr_repo tr \<in> set (en_needs_rebuild (end_run env (Ran (Run_Error fatal m)) tr en)))
   \<and> (tr_repo tr \<in> set (en_needs_rebuild en) \<and> ru_mark_read env \<longrightarrow> force_rebuild env tr en)
   \<and> (engine_step win en en' \<and> repo \<in> set (en_needs_rebuild en) \<and> repo \<notin> set (en_needs_rebuild en')
        \<longrightarrow> (\<exists>cu env i n. en_current en = Some cu \<and> tr_repo (cu_trigger cu) = repo \<and> force_rebuild env (cu_trigger cu) en
              \<and> en' = end_run env (Ran (Run_Ok i n)) (cu_trigger cu) en))"
proof (intro conjI impI)
  assume step: "engine_step win en en' \<and> repo \<in> set (en_needs_rebuild en) \<and> repo \<notin> set (en_needs_rebuild en')"
  then have "engine_step win en en'" by simp
  then show "\<exists>cu env i n. en_current en = Some cu \<and> tr_repo (cu_trigger cu) = repo \<and> force_rebuild env (cu_trigger cu) en
      \<and> en' = end_run env (Ran (Run_Ok i n)) (cu_trigger cu) en"
    using step
  proof cases
    case (end_current cu env e)
    then show ?thesis
      using step by (cases e) (auto simp: marks_end marks_finished split: run_outcome.splits if_splits)
  qed simp_all
qed (simp_all add: marks_end marks_finished force_rebuild_def)

definition demo_trigger :: index_trigger where
  "demo_trigger = \<lparr>tr_repo = ''/r'', tr_changes = None, tr_rebuild = False\<rparr>"

definition demo_run_env :: run_env where
  "demo_run_env = \<lparr>ru_meta_ok = True, ru_mark_read = True, ru_pending_retry = None, ru_wall = 0, ru_dash = [], ru_clock = 0\<rparr>"

definition demo_engine :: engine where
  "demo_engine = begin_indexing demo_trigger (send_trigger demo_trigger (engine_start False [''/r''] [] []))"

lemma demo_engine_reachable: "engine_reachable False demo_engine"
proof -
  have "engine_reachable False (send_trigger demo_trigger (engine_start False [''/r''] [] []))"
    by (rule engine_reachable.step [OF engine_reachable.init engine_step.send])
  then show ?thesis
    unfolding demo_engine_def
    by (rule engine_reachable.step, intro engine_step.begin_next) (simp_all add: send_trigger_def engine_start_def)
qed

lemma indexing_has_owner_witness:
  "is_indexing ''/r'' (en_statuses demo_engine)
    \<and> (\<exists>cu. en_current demo_engine = Some cu \<and> tr_repo (cu_trigger cu) = ''/r'') \<and> sleeping ''/r'' demo_engine \<le> 1"
proof -
  have "is_indexing ''/r'' (en_statuses demo_engine)"
    by (simp add: demo_engine_def begin_indexing_def demo_trigger_def is_indexing_upsert mark_indexing_def Let_def)
  then show ?thesis using indexing_has_owner [OF demo_engine_reachable] by blast
qed

lemma failed_run_done_over_witness:
  "''/r'' \<in> set (en_needs_rebuild (end_run demo_run_env (Ran (Run_Error True ''x'')) demo_trigger demo_engine))"
proof -
  have "ru_meta_ok demo_run_env" "tr_repo demo_trigger = ''/r''" by (simp_all add: demo_run_env_def demo_trigger_def)
  then show ?thesis using failed_run_done_over [of demo_run_env demo_trigger True "''x''" demo_engine] by simp
qed

section \<open>Reservations of an automatic rebuild\<close>

text \<open>A run that cannot make its client or open its database keeps the reservation, so no query can queue
  another automatic rebuild; the stage of the failed opening stays the embedding one.\<close>

lemma finished_reserved: "en_reserved (run_finished env force repo outcome en) = en_reserved en"
  by (cases outcome)
    (simp_all add: run_finished_unfold emit_def set_status_def stamp_complete_def clear_mark_def set_mark_def note_completion_of_def
      note_retries_def Let_def split: option.split list.split)

lemma failed_start_keeps_reservation:
  assumes "tr_repo tr \<in> set (en_reserved en)"
  shows "request_identity_run b oc (tr_repo tr) (end_run env (No_Client m) tr en) = end_run env (No_Client m) tr en"
    "request_identity_run b oc (tr_repo tr) (end_run env (No_Database m) tr en) = end_run env (No_Database m) tr en"
  using assms
  by (simp_all add: end_run_def request_identity_run_def guard_reserve_def emit_def set_status_def clear_token_def Let_def)

lemma unopened_stays_embedding:
  "\<exists>s. hm_get (tr_repo tr) (en_statuses (end_run env (No_Database m) tr (begin_indexing tr en))) = Some s
    \<and> rp_state s = Error \<and> rp_phase s = Embedding"
  by (simp add: end_run_def begin_indexing_def mark_unopened_def mark_indexing_def Let_def)

text \<open>Any run of the repository releases the reservation when it ends, also one that was queued before the
  reserved rebuild: the rebuild is then queued a second time.\<close>

lemma earlier_run_releases:
  assumes "en_reserved en = []" "en_queue en = [demo_trigger]"
  shows "map tr_rebuild (en_queue (request_identity_rebuild True ''/r''
      (end_run env (Ran Run_Cancelled) demo_trigger (begin_indexing demo_trigger (request_identity_rebuild True ''/r'' en))))) = [True, True]"
  using assms
  by (simp add: request_identity_rebuild_def request_identity_run_def guard_reserve_def send_trigger_def begin_indexing_def end_run_def
      run_finished_unfold emit_def set_status_def clear_token_def release_reservation_def guard_release_def demo_trigger_def Let_def)

end
