(* ===== verification/Embedding_Identity.thy ===== *)
theory Embedding_Identity
  imports Encoding
begin

text \<open>
  The identity of an embedding space (\<open>src/embedding/identity.rs\<close>) and the providers
  (\<open>src/embedding/voyage.rs\<close>). SHA-256 is the argument \<open>sha\<close>.
\<close>

section \<open>Embedding identity\<close>

datatype provider = Voyage | OpenAI

definition provider_parse :: "str \<Rightarrow> provider" where
  "provider_parse v = (if to_ascii_lowercase (trim v) = ''openai'' then OpenAI else Voyage)"

definition provider_as_str :: "provider \<Rightarrow> str" where
  "provider_as_str p = (case p of Voyage \<Rightarrow> ''voyage'' | OpenAI \<Rightarrow> ''openai'')"

record embedding_identity =
  ei_provider :: provider
  ei_model :: str
  ei_dimensions :: "nat option"

definition as_key_string :: "embedding_identity \<Rightarrow> str" where
  "as_key_string i =
     provider_as_str (ei_provider i) @ ''|'' @ ei_model i @ ''|''
     @ (case ei_dimensions i of Some d \<Rightarrow> show_nat d | None \<Rightarrow> ''native'')"

definition content_stamp :: "(u8 list \<Rightarrow> u8 list) \<Rightarrow> embedding_identity \<Rightarrow> nat \<Rightarrow> nat \<Rightarrow> nat" where
  "content_stamp sha i chunk_count index_epoch =
     from_le (take 8 (sha (as_bytes (as_key_string i) @ le_bytes 8 chunk_count @ le_bytes 8 index_epoch)))"

text \<open>Two spaces never share a key, whatever a model is called.\<close>

lemma show_nat_inj: "show_nat a = show_nat b \<Longrightarrow> a = b"
  by (metis digits_value_show_nat option.inject)

lemma dimension_text_inj:
  "(case a of Some d \<Rightarrow> show_nat d | None \<Rightarrow> ''native'') = (case b of Some d \<Rightarrow> show_nat d | None \<Rightarrow> ''native'') \<Longrightarrow> a = b"
proof -
  have native: "show_nat d \<noteq> ''native''" for d
    using show_nat_digits [of "CHR ''n''" d] by (auto simp: code_def)
  show "(case a of Some d \<Rightarrow> show_nat d | None \<Rightarrow> ''native'') = (case b of Some d \<Rightarrow> show_nat d | None \<Rightarrow> ''native'') \<Longrightarrow> a = b"
    using native [THEN not_sym] native by (auto dest: show_nat_inj split: option.splits)
qed

lemma first_mark: "xs @ c # a = ys @ c # b \<Longrightarrow> c \<notin> set xs \<Longrightarrow> c \<notin> set ys \<Longrightarrow> xs = ys \<and> a = b"
proof (induction xs arbitrary: ys)
  case Nil
  then show ?case by (cases ys) auto
next
  case (Cons x xs)
  then show ?case by (cases ys) auto
qed

lemma last_bar:
  assumes "a @ ''|'' @ x = b @ ''|'' @ y" "CHR ''|'' \<notin> set x" "CHR ''|'' \<notin> set y"
  shows "a = b \<and> x = y"
proof -
  have "rev x @ CHR ''|'' # rev a = rev y @ CHR ''|'' # rev b"
    using arg_cong [OF assms(1), of rev] by simp
  then have "rev x = rev y \<and> rev a = rev b"
    by (rule first_mark) (use assms(2,3) in simp_all)
  then show ?thesis by simp
qed

lemma identity_key_injective:
  assumes "as_key_string i = as_key_string j"
  shows "i = j"
proof -
  let ?d = "\<lambda>i. case ei_dimensions i of Some d \<Rightarrow> show_nat d | None \<Rightarrow> ''native''"
  have bar: "CHR ''|'' \<notin> set (?d i)" for i
    using show_nat_digits [of "CHR ''|''"] by (auto simp: code_def split: option.split)
  have split: "provider_as_str (ei_provider i) @ ''|'' @ ei_model i = provider_as_str (ei_provider j) @ ''|'' @ ei_model j
      \<and> ?d i = ?d j"
    by (rule last_bar) (use assms bar in \<open>simp_all add: as_key_string_def\<close>)
  have "ei_provider i = ei_provider j \<and> ei_model i = ei_model j"
    using split by (cases "ei_provider i"; cases "ei_provider j") (simp_all add: provider_as_str_def)
  moreover have "ei_dimensions i = ei_dimensions j" using split dimension_text_inj by blast
  ultimately show ?thesis by (simp add: embedding_identity.equality)
qed

end
