(* ===== verification/Vector_Service.thy ===== *)
theory Vector_Service
  imports Sharded Shard_File Index_Engine Embedding_Identity
begin

text \<open>
  How a query reaches a repository's vectors: the warm of a cold repository, the search with its fallback to the snapshot
  of the previous index (\<open>warm_repo_shard\<close>, \<open>warm_repo_blocking\<close>, \<open>vector_search_with\<close>, \<open>search_stale\<close> and
  \<open>load_incremental_stale\<close> in \<open>src/indexing/mod.rs\<close>). Locks are not held across the reads of the database
  and of files, nor between two steps of a search, so other tasks may change the
  sharded index there: \<open>between\<close> gives what they do at each such point. What the database answers is an observation.
\<close>

section \<open>Warming\<close>

datatype warm_result = Installed nat | WarmMismatch | WarmUnknown | MutationInProgress

text \<open>What the warm reads: \<open>Inl\<close> is an error. \<open>wd_mark\<close>: the write of the rebuild marker succeeds.
  \<open>wd_write\<close>: after how many of its effects the write of the new generation fails, if it does.\<close>

record warm_db =
  wd_open_error :: "str option"
  wd_chunk_count :: "str + nat"
  wd_stored_key :: "str + str option"
  wd_mark :: bool
  wd_index_epoch :: "str + nat"
  wd_vectors :: "str + vindex"
  wd_write :: "nat option"

record warmed =
  wm_result :: "str + warm_result"
  wm_index :: sharded
  wm_root :: shard_root
  wm_marked :: bool

definition warmed_as :: "str + warm_result \<Rightarrow> sharded \<Rightarrow> shard_root \<Rightarrow> warmed" where
  "warmed_as r s root = \<lparr>wm_result = r, wm_index = s, wm_root = root, wm_marked = False\<rparr>"

text \<open>The install of a shard, and the file system after it.\<close>

definition install_warm ::
  "bool \<Rightarrow> str \<Rightarrow> str \<Rightarrow> str list \<Rightarrow> nat \<Rightarrow> vindex \<Rightarrow> nat \<Rightarrow> shard_root \<Rightarrow> shard_root \<Rightarrow> sharded \<Rightarrow> warmed" where
  "install_warm win repo key active scan_epoch shard count_loaded refused_root installed_root s =
     (case install_shard_if_not_mutating win repo shard key active scan_epoch s of
        (s', True) \<Rightarrow> warmed_as (Inr (Installed count_loaded)) s' installed_root
      | (s', False) \<Rightarrow> warmed_as (Inr MutationInProgress) s' refused_root)"

definition warm_from_db ::
  "bool \<Rightarrow> (nat \<Rightarrow> sharded \<Rightarrow> sharded) \<Rightarrow> str \<Rightarrow> str \<Rightarrow> str list \<Rightarrow> nat \<Rightarrow> nat \<Rightarrow> warm_db \<Rightarrow> shard_root \<Rightarrow> sharded \<Rightarrow> warmed" where
  "warm_from_db win between repo key active scan_epoch stamp db root s =
     (case wd_vectors db of
        Inl e \<Rightarrow> warmed_as (Inl e) s root
      | Inr shard \<Rightarrow>
          (let n = vindex_len shard; s1 = between 1 s
           in if n = 0 then warmed_as (Inr (Installed 0)) s root
              else if is_mutating win s1 repo \<or> mutation_epoch win s1 repo \<noteq> scan_epoch
              then warmed_as (Inr MutationInProgress) s1 root
              else
                (case wd_write db of
                   Some k \<Rightarrow>
                     (let root1 = write_prefix k root shard stamp key
                      in install_warm win repo key active scan_epoch shard n root1 root1 (between 2 s1))
                 | None \<Rightarrow>
                     (let (root1, g) = write_new_generation root shard stamp key
                      in case open_current root1 (dim shard) stamp of
                           Some (mapped, _) \<Rightarrow>
                             install_warm win repo key active scan_epoch mapped n
                               (fst (invalidate_current_if_generation root1 (Some g))) (reap_stale_generations root1 [g])
                               (between 2 s1)
                         | None \<Rightarrow> install_warm win repo key active scan_epoch shard n root1 root1 (between 2 s1)))))"

definition warm_repo_shard ::
  "(u8 list \<Rightarrow> u8 list) \<Rightarrow> bool \<Rightarrow> (nat \<Rightarrow> sharded \<Rightarrow> sharded) \<Rightarrow> str \<Rightarrow> embedding_identity \<Rightarrow> str list
     \<Rightarrow> warm_db \<Rightarrow> shard_root \<Rightarrow> sharded \<Rightarrow> warmed" where
  "warm_repo_shard sha win between repo current active db root s0 =
     (let scan_epoch = mutation_epoch win s0 repo; key = as_key_string current; s = between 0 s0
      in if is_mutating win s0 repo then warmed_as (Inr MutationInProgress) s0 root
         else case wd_open_error db of
           Some e \<Rightarrow> warmed_as (Inl e) s root
         | None \<Rightarrow>
             (case wd_chunk_count db of
                Inl e \<Rightarrow> warmed_as (Inl e) s root
              | Inr chunk_count \<Rightarrow>
                  if chunk_count = 0 then warmed_as (Inr (Installed 0)) s root
                  else
                    (case wd_stored_key db of
                       Inl e \<Rightarrow> warmed_as (Inl e) s root
                     | Inr None \<Rightarrow> warmed_as (Inr WarmUnknown) s root
                     | Inr (Some stored) \<Rightarrow>
                         if stored \<noteq> key then (warmed_as (Inr WarmMismatch) s root)\<lparr>wm_marked := wd_mark db\<rparr>
                         else
                           (case wd_index_epoch db of
                              Inl e \<Rightarrow> warmed_as (Inl e) s root
                            | Inr index_epoch \<Rightarrow>
                                (let stamp = content_stamp sha current chunk_count index_epoch
                                 in case open_current root 0 stamp of
                                      Some (shard, g) \<Rightarrow>
                                        if 0 < vindex_len shard
                                        then install_warm win repo key active scan_epoch shard (vindex_len shard) root
                                               (reap_stale_generations root [g]) s
                                        else warm_from_db win between repo key active scan_epoch stamp db root s
                                    | None \<Rightarrow> warm_from_db win between repo key active scan_epoch stamp db root s)))))"

text \<open>Under the warm lock; the second component is the run the warm asks the engine for: \<open>Some True\<close> a rebuild,
  \<open>Some False\<close> a check.\<close>

definition warm_repo_blocking ::
  "(u8 list \<Rightarrow> u8 list) \<Rightarrow> bool \<Rightarrow> (nat \<Rightarrow> sharded \<Rightarrow> sharded) \<Rightarrow> str \<Rightarrow> embedding_identity \<Rightarrow> warm_db \<Rightarrow> shard_root \<Rightarrow> sharded
     \<Rightarrow> (sharded \<times> shard_root) \<times> bool option" where
  "warm_repo_blocking sha win between repo current db root s =
     (if resident_identity win s repo = Some (as_key_string current) then ((s, root), None)
      else
        (let r = warm_repo_shard sha win between repo current [] db root (between 3 s)
         in ((wm_index r, wm_root r),
             (case wm_result r of Inr WarmMismatch \<Rightarrow> Some True | Inr WarmUnknown \<Rightarrow> Some False | _ \<Rightarrow> None))))"

section \<open>Searching\<close>

record vector_search_outcome =
  vo_results :: "search_result list"
  vo_warming :: bool

definition served_by :: "sharded_search \<Rightarrow> vector_search_outcome" where
  "served_by found = \<lparr>vo_results = ss_results found, vo_warming = False\<rparr>"

definition still_warming :: vector_search_outcome where
  "still_warming = \<lparr>vo_results = [], vo_warming = True\<rparr>"

text \<open>\<open>sv_load\<close>: the repository opened and loaded from its database.\<close>

record search_env =
  sx_sel :: sel_fn
  sx_srt :: row_sort_fn
  sx_rsrt :: result_sort_fn
  sx_win :: bool
  sx_between :: "nat \<Rightarrow> sharded \<Rightarrow> sharded"
  sx_root :: shard_root
  sx_load :: "str + vindex"

definition load_incremental_stale :: "search_env \<Rightarrow> str \<Rightarrow> str \<Rightarrow> sharded \<Rightarrow> bool \<times> sharded" where
  "load_incremental_stale env repo key s =
     (if has_stale (sx_win env) s repo then (True, s)
      else if get_incremental_identity (sx_win env) s repo \<noteq> Some key then (False, s)
      else (case sx_load env of
              Inl e \<Rightarrow> (False, sx_between env 7 s)
            | Inr index \<Rightarrow>
                (case install_stale (sx_win env) repo index key (sx_between env 7 s) of (s', ok) \<Rightarrow> (ok, s'))))"

text \<open>Each search of the snapshots takes the read lock anew; so do the two installs the write lock.\<close>

definition search_stale ::
  "search_env \<Rightarrow> f32 list \<Rightarrow> nat \<Rightarrow> str \<Rightarrow> str \<Rightarrow> scope_filter option \<Rightarrow> sharded \<Rightarrow> vector_search_outcome \<times> sharded" where
  "search_stale env query topk repo key class s =
     (let search = search_stale_with (sx_sel env) (sx_srt env) (sx_win env) query topk repo key class;
          last_resort = (\<lambda>s.
            case load_incremental_stale env repo key (sx_between env 6 s) of
              (False, s1) \<Rightarrow> (still_warming, s1)
            | (True, s1) \<Rightarrow>
                (let s2 = sx_between env 8 s1
                 in case search s2 of Hit found \<Rightarrow> (served_by found, s2) | _ \<Rightarrow> (still_warming, s2)));
          s0 = sx_between env 3 s
      in case search s0 of
           Hit found \<Rightarrow> (served_by found, s0)
         | _ \<Rightarrow>
             (case open_current_stale (sx_root env) key of
                None \<Rightarrow> last_resort (sx_between env 4 s0)
              | Some index \<Rightarrow>
                  (let s1 = fst (install_stale (sx_win env) repo index key (sx_between env 4 s0));
                       s2 = sx_between env 5 s1
                   in case search s2 of Hit found \<Rightarrow> (served_by found, s2) | _ \<Rightarrow> last_resort s2)))"

definition search_repo ::
  "search_env \<Rightarrow> f32 list \<Rightarrow> nat \<Rightarrow> str \<Rightarrow> str \<Rightarrow> scope_filter option \<Rightarrow> sharded \<Rightarrow> vector_search_outcome \<times> sharded" where
  "search_repo env query topk repo key class s =
     (let live = search_scoped_with (sx_sel env) (sx_srt env) (sx_win env) query topk repo key class
      in case live s of
           (Hit found, s1) \<Rightarrow> (served_by found, s1)
         | (first, s1) \<Rightarrow>
             (let s2 = (case first of
                    IdentityMismatch old \<Rightarrow> fst (evict_if_identity (sx_win env) repo old (sx_between env 0 s1))
                  | _ \<Rightarrow> s1);
                  s3 = sx_between env 1 s2
              in if is_mutating (sx_win env) s3 repo then search_stale env query topk repo key class s3
                 else
                   (case live (sx_between env 2 s3) of
                      (Hit found, s4) \<Rightarrow> (served_by found, s4)
                    | (again, s4) \<Rightarrow>
                        if again = Cold \<and> is_mutating (sx_win env) s4 repo then search_stale env query topk repo key class s4
                        else (still_warming, s4))))"

text \<open>One write lock per mismatched repository, other tasks in between.\<close>

fun evict_mismatched :: "search_env \<Rightarrow> nat \<Rightarrow> (str \<times> str) list \<Rightarrow> sharded \<Rightarrow> sharded" where
  "evict_mismatched env n [] s = s"
| "evict_mismatched env n ((repo, old) # rest) s =
     evict_mismatched env (Suc n) rest (fst (evict_if_identity (sx_win env) repo old (sx_between env n s)))"

definition search_everywhere ::
  "search_env \<Rightarrow> f32 list \<Rightarrow> nat \<Rightarrow> str list \<Rightarrow> str \<Rightarrow> scope_filter option \<Rightarrow> sharded
     \<Rightarrow> (vector_search_outcome \<times> str list) \<times> sharded" where
  "search_everywhere env query topk repos key class s =
     (let (found, s1) = search_all_scoped_with (sx_sel env) (sx_srt env) (sx_rsrt env) (sx_win env) query topk repos key class s;
          s2 = evict_mismatched env 0 (sa_mismatch_repos found) s1
      in ((\<lparr>vo_results = sa_results found, vo_warming = (sa_cold_repos found \<noteq> [] \<or> sa_mismatch_repos found \<noteq> [])\<rparr>,
           sa_cold_repos found @ map fst (sa_mismatch_repos found)), s2))"

section \<open>An answer comes from the repository's own space\<close>

text \<open>The shards of a repository that may answer in a state of the index: the live one unless an update
  fences it, else the snapshot the update retired (the one it copies, before the older one).\<close>

definition answering_shards :: "bool \<Rightarrow> sharded \<Rightarrow> str \<Rightarrow> shard set" where
  "answering_shards win s repo =
     {sh. repo_key win repo \<notin> mutating_repos s \<and> hm_get (repo_key win repo) (shards s) = Some sh}
     \<union> {sh. or_else (hm_get (repo_key win repo) (pending_incremental s)) (hm_get (repo_key win repo) (stale s)) = Some sh}"

definition sound_outcome ::
  "search_env \<Rightarrow> f32 list \<Rightarrow> nat \<Rightarrow> str \<Rightarrow> str \<Rightarrow> scope_filter option \<Rightarrow> sharded \<Rightarrow> vector_search_outcome \<Rightarrow> bool" where
  "sound_outcome env query topk repo key class s out \<longleftrightarrow>
     (if vo_warming out then vo_results out = []
      else \<exists>sh \<in> answering_shards (sx_win env) s repo. sh_identity sh = key
        \<and> vo_results out = search_filtered (sx_sel env) (sx_srt env) (sh_index sh) query topk class)"

lemma scoped_hit:
  assumes "search_scoped_with (sx_sel env) (sx_srt env) (sx_win env) query topk repo key class s = (Hit found, s')"
  shows "sound_outcome env query topk repo key class s' (served_by found)"
  using assms
  by (auto simp: search_scoped_with_def shard_match_def Let_def sound_outcome_def served_by_def answering_shards_def
      touch_def tick_def split: shard_match.splits option.splits if_splits)

lemma stale_hit:
  assumes "search_stale_with (sx_sel env) (sx_srt env) (sx_win env) query topk repo key class s = Hit found"
  shows "sound_outcome env query topk repo key class s (served_by found)"
  using assms
  by (auto simp: search_stale_with_def Let_def sound_outcome_def served_by_def answering_shards_def
      split: option.splits if_splits)

lemma warming_sound [simp]: "sound_outcome env query topk repo key class s still_warming"
  by (simp add: sound_outcome_def still_warming_def)

lemma search_stale_sound:
  "search_stale env query topk repo key class s = (out, s') \<Longrightarrow> sound_outcome env query topk repo key class s' out"
  unfolding search_stale_def Let_def
  by (auto dest: stale_hit split: scoped_search.splits option.splits prod.splits bool.splits)

text \<open>C28: A query is answered from its own repository's vectors of its own embedding space, or asked to
  retry. Whatever other tasks do to the index between the steps of the search (runs beginning, failing
  or publishing, evictions, warms of any space), an answer that does not ask to retry is the search of
  one shard held for that repository, in the state of the index in which it was scanned, and the
  identity of that shard is the query's: the live shard, if no update fences the repository then, else
  the snapshot an update retired. An answer that asks to retry shows nothing.\<close>

theorem search_answers_one_space:
  "case search_repo env query topk repo key class s of (out, s') \<Rightarrow>
     (if vo_warming out then vo_results out = []
      else \<exists>sh \<in> answering_shards (sx_win env) s' repo. sh_identity sh = key
        \<and> vo_results out = search_filtered (sx_sel env) (sx_srt env) (sh_index sh) query topk class)"
proof -
  have "sound_outcome env query topk repo key class s' out"
    if "search_repo env query topk repo key class s = (out, s')" for out s'
    using that unfolding search_repo_def Let_def
    by (auto dest: scoped_hit search_stale_sound split: scoped_search.splits prod.splits if_splits)
  then show ?thesis unfolding sound_outcome_def by blast
qed

section \<open>A warm fails closed\<close>

text \<open>The shards a warm may install under the identity it checked: the current shard file of the content
  the database describes, the rows of the database, or the file just written from them.\<close>

definition warm_sources ::
  "(u8 list \<Rightarrow> u8 list) \<Rightarrow> embedding_identity \<Rightarrow> warm_db \<Rightarrow> shard_root \<Rightarrow> vindex set" where
  "warm_sources sha current db root =
     {shard. \<exists>count epoch stamp g rows.
        wd_chunk_count db = Inr count \<and> wd_index_epoch db = Inr epoch \<and> stamp = content_stamp sha current count epoch
        \<and> (open_current root 0 stamp = Some (shard, g)
           \<or> wd_vectors db = Inr rows
              \<and> (shard = rows
                 \<or> open_current (fst (write_new_generation root rows stamp (as_key_string current))) (dim rows) stamp
                     = Some (shard, g)))}"

definition warm_sound ::
  "bool \<Rightarrow> str \<Rightarrow> str \<Rightarrow> str list \<Rightarrow> nat \<Rightarrow> vindex set \<Rightarrow> (sharded \<Rightarrow> bool) \<Rightarrow> warmed \<Rightarrow> bool" where
  "warm_sound win repo key active scan_epoch sources others r \<longleftrightarrow>
     (case wm_result r of
        Inr (Installed (Suc n)) \<Rightarrow>
          \<exists>shard \<in> sources. \<exists>s. others s \<and> \<not> is_mutating win s repo \<and> mutation_epoch win s repo = scan_epoch
            \<and> wm_index r = install_shard win (repo_key win repo) shard key active s
      | _ \<Rightarrow> others (wm_index r))"

lemma install_warm_sound:
  assumes "others s" "0 < n" "shard \<in> sources"
  shows "warm_sound win repo key active scan_epoch sources others
    (install_warm win repo key active scan_epoch shard n r1 r2 s)"
proof -
  obtain k where n: "n = Suc k" using assms(2) by (cases n) auto
  show ?thesis
    using assms(1,3)
    by (auto simp: install_warm_def warm_sound_def install_shard_if_not_mutating_def warmed_as_def is_mutating_def
        mutation_epoch_def n Let_def intro!: bexI [of _ shard])
qed

lemma warmed_as_sound [simp]:
  "warm_sound win repo key active e sources others (warmed_as (Inl x) s root) = others s"
  "warm_sound win repo key active e sources others (warmed_as (Inr (Installed 0)) s root) = others s"
  "warm_sound win repo key active e sources others (warmed_as (Inr WarmUnknown) s root) = others s"
  "warm_sound win repo key active e sources others (warmed_as (Inr MutationInProgress) s root) = others s"
  "warm_sound win repo key active e sources others (warmed_as (Inr WarmMismatch) s root) = others s"
  by (simp_all add: warm_sound_def warmed_as_def)

lemma marked_sound [simp]:
  "warm_sound win repo key active e sources others (r\<lparr>wm_marked := b\<rparr>) = warm_sound win repo key active e sources others r"
  by (simp add: warm_sound_def split: sum.split warm_result.split nat.split)

lemma warm_from_db_sound:
  assumes "others s" "others (between 1 s)" "others (between 2 (between 1 s))"
    and rows: "\<And>rows. wd_vectors db = Inr rows \<Longrightarrow> rows \<in> sources"
    and written: "\<And>rows shard g. wd_vectors db = Inr rows \<Longrightarrow>
      open_current (fst (write_new_generation root rows stamp key)) (dim rows) stamp = Some (shard, g) \<Longrightarrow> shard \<in> sources"
  shows "warm_sound win repo key active e sources others (warm_from_db win between repo key active e stamp db root s)"
proof (cases "wd_vectors db")
  case (Inl x)
  then show ?thesis using assms by (simp add: warm_from_db_def)
next
  case (Inr shard)
  show ?thesis
  proof (cases "vindex_len shard = 0")
    case True
    then show ?thesis using assms(1-3) Inr by (simp add: warm_from_db_def Let_def)
  next
    case False
    then have "0 < vindex_len shard" by simp
    note install = install_warm_sound [of others, OF assms(3) this]
    then show ?thesis
      using assms(1-3) Inr False rows [OF Inr] written [OF Inr]
      by (auto simp: warm_from_db_def Let_def split: option.split prod.split)
  qed
qed

lemma install_warm_report [simp]:
  "\<not> wm_marked (install_warm win repo key active e shard n r1 r2 s)"
  "wm_result (install_warm win repo key active e shard n r1 r2 s) \<noteq> Inr WarmMismatch"
  "wm_result (install_warm win repo key active e shard n r1 r2 s) \<noteq> Inr WarmUnknown"
  by (simp_all add: install_warm_def warmed_as_def split: prod.split bool.split)

lemma from_db_report [simp]:
  "\<not> wm_marked (warm_from_db win between repo key active e stamp db root s)"
  "wm_result (warm_from_db win between repo key active e stamp db root s) \<noteq> Inr WarmMismatch"
  "wm_result (warm_from_db win between repo key active e stamp db root s) \<noteq> Inr WarmUnknown"
  by (simp_all add: warm_from_db_def Let_def split: sum.split option.split prod.split) (simp_all add: warmed_as_def)

lemma warmed_as_report [simp]: "wm_result (warmed_as r s root) = r" "\<not> wm_marked (warmed_as r s root)"
  by (simp_all add: warmed_as_def)

text \<open>What the other tasks may have made of the index by the time the warm is done.\<close>

definition left_by_others :: "(nat \<Rightarrow> sharded \<Rightarrow> sharded) \<Rightarrow> sharded \<Rightarrow> sharded \<Rightarrow> bool" where
  "left_by_others between s0 s \<longleftrightarrow>
     s = s0 \<or> s = between 0 s0 \<or> s = between 1 (between 0 s0) \<or> s = between 2 (between 1 (between 0 s0))"

text \<open>The warm came as far as comparing identities: no update under way, the database open, chunks in it.\<close>

definition identity_read :: "bool \<Rightarrow> str \<Rightarrow> sharded \<Rightarrow> warm_db \<Rightarrow> bool" where
  "identity_read win repo s0 db \<longleftrightarrow>
     \<not> is_mutating win s0 repo \<and> wd_open_error db = None \<and> (\<exists>n. wd_chunk_count db = Inr (Suc n))"

lemma warm_compares:
  "wm_result (warm_repo_shard sha win between repo current active db root s0) = Inr WarmMismatch
     \<longleftrightarrow> identity_read win repo s0 db \<and> (\<exists>k. wd_stored_key db = Inr (Some k) \<and> k \<noteq> as_key_string current)"
  "wm_result (warm_repo_shard sha win between repo current active db root s0) = Inr WarmUnknown
     \<longleftrightarrow> identity_read win repo s0 db \<and> wd_stored_key db = Inr None"
  "wm_marked (warm_repo_shard sha win between repo current active db root s0)
     \<longleftrightarrow> wm_result (warm_repo_shard sha win between repo current active db root s0) = Inr WarmMismatch \<and> wd_mark db"
  by (auto simp: warm_repo_shard_def identity_read_def gr0_conv_Suc Let_def split: sum.split option.split)

lemma warm_sound_shard:
  "warm_sound win repo (as_key_string current) active (mutation_epoch win s0 repo) (warm_sources sha current db root)
     (left_by_others between s0) (warm_repo_shard sha win between repo current active db root s0)"
proof -
  let ?key = "as_key_string current" and ?e = "mutation_epoch win s0 repo" and ?o = "left_by_others between s0"
  let ?src = "warm_sources sha current db root"
  have o: "?o s0" "?o (between 0 s0)" "?o (between 1 (between 0 s0))" "?o (between 2 (between 1 (between 0 s0)))"
    by (simp_all add: left_by_others_def)
  have db_sound: "warm_sound win repo ?key active ?e ?src ?o
      (warm_from_db win between repo ?key active ?e (content_stamp sha current c ep) db root (between 0 s0))"
    if "wd_chunk_count db = Inr c" "wd_index_epoch db = Inr ep" for c ep
    by (rule warm_from_db_sound) (use o that in \<open>auto simp: warm_sources_def\<close>)
  have file_sound: "warm_sound win repo ?key active ?e ?src ?o
      (install_warm win repo ?key active ?e shard n r1 r2 (between 0 s0))"
    if "wd_chunk_count db = Inr c" "wd_index_epoch db = Inr ep" "0 < n"
      "open_current root 0 (content_stamp sha current c ep) = Some (shard, g)"
    for shard n r1 r2 c ep g
    by (rule install_warm_sound) (use o that in \<open>auto simp: warm_sources_def\<close>)
  show ?thesis
    using o db_sound file_sound by (simp add: warm_repo_shard_def Let_def split: sum.split option.split)
qed

text \<open>C29: A warm installs only what it verified, and asks for repair exactly when it saw another space.
  A warm that reports vectors read a stored identity equal to the query's and found no update under way
  when it started; it installed, under that identity, the shard file of the content the database
  describes or the rows of the database, at a moment when no update was under way and the index's epoch
  was still the one read before the scan. Whatever else it reports, the index is as the other tasks left
  it. It reports a mismatch exactly when no update was under way, the database opened, its chunks were
  counted and are not none, and the identity stored is another one; an unknown identity exactly when,
  under the same conditions, none is stored. The durable rebuild marker is written exactly on a mismatch
  whose marker write does not fail; the blocking warm asks the engine for a rebuild exactly on a mismatch, the write failing or not, and for a
  check exactly on an unknown identity.\<close>

theorem warm_fails_closed:
  "warm_sound win repo (as_key_string current) active (mutation_epoch win s0 repo) (warm_sources sha current db root)
      (left_by_others between s0) (warm_repo_shard sha win between repo current active db root s0)
    \<and> (\<forall>n. wm_result (warm_repo_shard sha win between repo current active db root s0) = Inr (Installed (Suc n))
        \<longrightarrow> wd_stored_key db = Inr (Some (as_key_string current)) \<and> \<not> is_mutating win s0 repo)
    \<and> (wm_result (warm_repo_shard sha win between repo current active db root s0) = Inr WarmMismatch
        \<longleftrightarrow> identity_read win repo s0 db \<and> (\<exists>k. wd_stored_key db = Inr (Some k) \<and> k \<noteq> as_key_string current))
    \<and> (wm_result (warm_repo_shard sha win between repo current active db root s0) = Inr WarmUnknown
        \<longleftrightarrow> identity_read win repo s0 db \<and> wd_stored_key db = Inr None)
    \<and> (wm_marked (warm_repo_shard sha win between repo current active db root s0)
        \<longleftrightarrow> identity_read win repo s0 db \<and> (\<exists>k. wd_stored_key db = Inr (Some k) \<and> k \<noteq> as_key_string current)
          \<and> wd_mark db)
    \<and> snd (warm_repo_blocking sha win between repo current db root s)
        = (if resident_identity win s repo = Some (as_key_string current) \<or> \<not> identity_read win repo (between 3 s) db then None
           else case wd_stored_key db of
             Inr None \<Rightarrow> Some False
           | Inr (Some k) \<Rightarrow> if k = as_key_string current then None else Some True
           | Inl e \<Rightarrow> None)"
proof (intro conjI)
  show "\<forall>n. wm_result (warm_repo_shard sha win between repo current active db root s0) = Inr (Installed (Suc n))
      \<longrightarrow> wd_stored_key db = Inr (Some (as_key_string current)) \<and> \<not> is_mutating win s0 repo"
    by (auto simp: warm_repo_shard_def Let_def split: sum.splits option.splits if_splits)
  show "snd (warm_repo_blocking sha win between repo current db root s)
      = (if resident_identity win s repo = Some (as_key_string current) \<or> \<not> identity_read win repo (between 3 s) db then None
         else case wd_stored_key db of
           Inr None \<Rightarrow> Some False
         | Inr (Some k) \<Rightarrow> if k = as_key_string current then None else Some True
         | Inl e \<Rightarrow> None)"
  proof -
    let ?w = "warm_repo_shard sha win between repo current [] db root (between 3 s)"
    have "(case wm_result ?w of Inr WarmMismatch \<Rightarrow> Some True | Inr WarmUnknown \<Rightarrow> Some False | _ \<Rightarrow> None)
        = (if wm_result ?w = Inr WarmMismatch then Some True else if wm_result ?w = Inr WarmUnknown then Some False else None)"
      by (simp split: sum.split warm_result.split)
    then show ?thesis
      by (auto simp: warm_repo_blocking_def warm_compares Let_def split: sum.split option.split)
  qed
qed (simp_all add: warm_sound_shard warm_compares)

definition demo_identity :: embedding_identity where
  "demo_identity = \<lparr>ei_provider = Voyage, ei_model = ''m'', ei_dimensions = None\<rparr>"

definition demo_vectors :: vindex where
  "demo_vectors =
     vindex_new\<lparr>store := Ram [0], chunk_ids := [\<lparr>ci_file = ''/r/a.rs'', ci_line_start = 1, ci_line_end = 3\<rparr>], ext_ids := [0], dim := 1\<rparr>"

definition demo_warm_db :: warm_db where
  "demo_warm_db =
     \<lparr>wd_open_error = None, wd_chunk_count = Inr 1, wd_stored_key = Inr (Some (as_key_string demo_identity)),
      wd_mark = True, wd_index_epoch = Inr 0, wd_vectors = Inr demo_vectors, wd_write = Some 0\<rparr>"

lemma warm_fails_closed_witness:
  "wm_result (warm_repo_shard (\<lambda>_. []) False (\<lambda>_ s. s) ''/r'' demo_identity [] demo_warm_db empty_root (sharded_new 0))
     = Inr (Installed (Suc 0))
   \<and> wd_stored_key demo_warm_db = Inr (Some (as_key_string demo_identity)) \<and> \<not> is_mutating False (sharded_new 0) ''/r''"
proof -
  have idle: "\<not> is_mutating False (sharded_new 0) ''/r''" "mutation_epoch False (sharded_new 0) r = 0" for r
    by (simp_all add: is_mutating_def sharded_new_def mutation_epoch_def)
  have no_file: "open_current empty_root 0 stamp = None" for stamp
    by (simp add: open_current_def open_current_checked_def read_current_gen_def empty_root_def)
  have "wm_result (warm_repo_shard (\<lambda>_. []) False (\<lambda>_ s. s) ''/r'' demo_identity [] demo_warm_db empty_root (sharded_new 0))
      = Inr (Installed (Suc 0))"
    using idle
    by (simp add: warm_repo_shard_def demo_warm_db_def no_file warm_from_db_def demo_vectors_def vindex_len_def
        install_warm_def install_shard_if_not_mutating_def is_mutating_def warmed_as_def Let_def)
  then show ?thesis
    using warm_fails_closed [THEN conjunct2, THEN conjunct1, of "\<lambda>_. []" False "\<lambda>_ s. s" "''/r''" demo_identity "[]"
        demo_warm_db empty_root "sharded_new 0"]
    by blast
qed

end
