(* ===== verification/Key_Ring.thy ===== *)
theory Key_Ring
  imports Hash_Map
begin

text \<open>
  Requests spread over the keys of a provider (\<open>src/llm/keys.rs\<close>): each request starts on the next
  key, a failure moves it to the next one, and a second pass after a pause asks again the keys that
  did not report a rate limit.

  An attempt is an argument: it turns a key and a world into a failure or an answer. An error is its
  text. The cursor is a machine word that wraps, as an \<open>AtomicUsize\<close> does.
\<close>

section \<open>Failures\<close>

definition RETRY_PAUSE :: nat where "RETRY_PAUSE = 2000"

datatype failure = Retry str | Stop str

datatype send_error = No_Key | Plain str | Rate_Limited nat nat str | Not_Tried

definition is_rate_limited :: "str \<Rightarrow> bool" where
  "is_rate_limited msg \<longleftrightarrow>
     contains_str msg ''429''
     \<and> (contains_str msg ''Too Many Requests'' \<or> contains_str msg ''RESOURCE_EXHAUSTED''
        \<or> contains_str msg ''rate'' \<or> contains_str msg ''quota'')"

section \<open>The ring\<close>

record key_ring =
  kr_keys :: "str list"
  kr_cursor :: u64
  kr_pause :: nat

definition key_ring_new :: "str list \<Rightarrow> key_ring" where
  "key_ring_new keys = \<lparr>kr_keys = keys, kr_cursor = 0, kr_pause = RETRY_PAUSE\<rparr>"

definition with_pause :: "nat \<Rightarrow> key_ring \<Rightarrow> key_ring" where
  "with_pause pause ring = ring\<lparr>kr_pause := pause\<rparr>"

text \<open>The cursors of the process, one for each list of keys, and a ring that borrows one. After a
  request the cursor of the ring is the cursor of every ring built from the same keys.\<close>

definition key_ring_shared :: "str list \<Rightarrow> (str list, u64) hmap \<Rightarrow> key_ring" where
  "key_ring_shared keys cursors =
     \<lparr>kr_keys = keys, kr_cursor = (case hm_get keys cursors of Some c \<Rightarrow> c | None \<Rightarrow> 0), kr_pause = RETRY_PAUSE\<rparr>"

definition share_cursor :: "key_ring \<Rightarrow> (str list, u64) hmap \<Rightarrow> (str list, u64) hmap" where
  "share_cursor ring cursors = hm_insert (kr_keys ring) (kr_cursor ring) cursors"

section \<open>Sending\<close>

type_synonym ('a, 'w) attempt = "str \<Rightarrow> 'w \<Rightarrow> (failure + 'a) \<times> 'w"

datatype 'a pass = Answered 'a | Halted str | Spent "bool list" "str option"

definition key_order :: "nat \<Rightarrow> nat \<Rightarrow> nat list" where
  "key_order n start = map (\<lambda>offset. (start + offset) mod n) [0..<n]"

fun first_pass ::
  "('a, 'w) attempt \<Rightarrow> str list \<Rightarrow> nat list \<Rightarrow> bool list \<Rightarrow> str option \<Rightarrow> 'w \<Rightarrow> 'a pass \<times> 'w" where
  "first_pass attempt keys [] limited last_err w = (Spent limited last_err, w)"
| "first_pass attempt keys (i # order) limited last_err w =
     (case attempt (keys ! i) w of
        (Inr v, w') \<Rightarrow> (Answered v, w')
      | (Inl (Stop e), w') \<Rightarrow> (Halted e, w')
      | (Inl (Retry e), w') \<Rightarrow> first_pass attempt keys order (limited[i := is_rate_limited e]) (Some e) w')"

fun retry_pass ::
  "('a, 'w) attempt \<Rightarrow> str list \<Rightarrow> nat list \<Rightarrow> bool list \<Rightarrow> str option \<Rightarrow> 'w \<Rightarrow> 'a pass \<times> 'w" where
  "retry_pass attempt keys [] limited last_err w = (Spent limited last_err, w)"
| "retry_pass attempt keys (i # order) limited last_err w =
     (case attempt (keys ! i) w of
        (Inr v, w') \<Rightarrow> (Answered v, w')
      | (Inl (Stop e), w') \<Rightarrow> (Halted e, w')
      | (Inl (Retry e), w') \<Rightarrow> retry_pass attempt keys order limited (Some e) w')"

definition both_passes ::
  "('a, 'w) attempt \<Rightarrow> ('w \<Rightarrow> 'w) \<Rightarrow> str list \<Rightarrow> nat list \<Rightarrow> 'w \<Rightarrow> 'a pass \<times> 'w" where
  "both_passes attempt pause keys order w =
     (case first_pass attempt keys order (replicate (length keys) False) None w of
        (Spent limited last_err, w1) \<Rightarrow>
          if list_all id limited then (Spent limited last_err, w1)
          else retry_pass attempt keys (filter (\<lambda>i. \<not> limited ! i) order) limited last_err (pause w1)
      | done \<Rightarrow> done)"

definition spent_error :: "bool list \<Rightarrow> str option \<Rightarrow> send_error" where
  "spent_error limited last_err =
     (case last_err of
        None \<Rightarrow> Not_Tried
      | Some e \<Rightarrow>
          (let n = length (filter id limited)
           in if n = 0 then Plain e else Rate_Limited n (length limited) e))"

definition ring_send ::
  "('a, 'w) attempt \<Rightarrow> (nat \<Rightarrow> 'w \<Rightarrow> 'w) \<Rightarrow> key_ring \<Rightarrow> 'w \<Rightarrow> (send_error + 'a) \<times> key_ring \<times> 'w" where
  "ring_send attempt sleep ring w =
     (let keys = kr_keys ring; n = length keys
      in if n = 0 then (Inl No_Key, ring, w)
         else
           (let start = unat (kr_cursor ring) mod n; ring = ring\<lparr>kr_cursor := kr_cursor ring + 1\<rparr>
            in case both_passes attempt (sleep (kr_pause ring)) keys (key_order n start) w of
                 (Answered v, w') \<Rightarrow> (Inr v, ring, w')
               | (Halted e, w') \<Rightarrow> (Inl (Plain e), ring, w')
               | (Spent limited last_err, w') \<Rightarrow> (Inl (spent_error limited last_err), ring, w')))"

section \<open>The keys a request tries\<close>

lemma key_order_rotate: "n \<le> length keys \<Longrightarrow> map ((!) keys) (key_order (length keys) n) = rotate n keys"
  by (rule nth_equalityI) (simp_all add: key_order_def nth_rotate)

lemma set_key_order: "0 < n \<Longrightarrow> set (key_order n start) = {0..<n}"
proof -
  assume n: "0 < n"
  have "\<exists>j<n. (start + j) mod n = i" if "i < n" for i
  proof (intro exI conjI)
    let ?j = "(n - start mod n + i) mod n"
    show "?j < n" using n by simp
    have "(start + ?j) mod n = (start mod n + (n - start mod n + i)) mod n" by (simp add: mod_simps)
    also have "start mod n + (n - start mod n + i) = n + i"
      using mod_less_divisor [OF n, of start] by linarith
    finally show "(start + ?j) mod n = i" using that by simp
  qed
  then show ?thesis using n by (fastforce simp: key_order_def image_iff)
qed

lemma length_key_order [simp]: "length (key_order n start) = n"
  by (simp add: key_order_def)

lemma distinct_key_order: "distinct (key_order n start)"
proof (cases "n = 0")
  case False
  then have "card (set (key_order n start)) = length (key_order n start)" by (simp add: set_key_order)
  then show ?thesis by (rule card_distinct)
qed (simp add: key_order_def)

text \<open>A service whose replies are written down by the number of the request, and the list of the keys
  it was asked with.\<close>

fun scripted :: "(nat \<Rightarrow> str \<Rightarrow> failure + 'a) \<Rightarrow> ('a, str list) attempt" where
  "scripted reply key asked = (reply (length asked) key, asked @ [key])"

fun is_retry :: "failure + 'a \<Rightarrow> bool" where
  "is_retry (Inl (Retry e)) = True"
| "is_retry _ = False"

fun retry_text :: "failure + 'a \<Rightarrow> str" where
  "retry_text (Inl (Retry e)) = e"
| "retry_text _ = []"

fun pass_of :: "failure + 'a \<Rightarrow> 'a pass" where
  "pass_of (Inr v) = Answered v"
| "pass_of (Inl (Stop e)) = Halted e"
| "pass_of (Inl (Retry e)) = Spent [] (Some e)"

text \<open>The first reply that ends a request along a list of keys, counted from the request \<open>k\<close>.\<close>

definition first_end :: "(nat \<Rightarrow> str \<Rightarrow> failure + 'a) \<Rightarrow> nat \<Rightarrow> str list \<Rightarrow> nat option" where
  "first_end reply k ks = find (\<lambda>j. \<not> is_retry (reply (k + j) (ks ! j))) [0..<length ks]"

lemma first_end_Nil [simp]: "first_end reply k [] = None"
  by (simp add: first_end_def)

lemma find_map_index: "find P (map f xs) = map_option f (find (P \<circ> f) xs)"
  by (induction xs) auto

lemma first_end_Cons:
  "first_end reply k (x # ks) =
     (if is_retry (reply k x) then map_option Suc (first_end reply (Suc k) ks) else Some 0)"
proof -
  have "[0..<length (x # ks)] = 0 # map Suc [0..<length ks]"
    using upt_conv_Cons [of 0 "Suc (length ks)"] by (simp only: list.size map_Suc_upt) simp
  then have "first_end reply k (x # ks) =
      (if is_retry (reply k x) then find (\<lambda>j. \<not> is_retry (reply (k + j) ((x # ks) ! j))) (map Suc [0..<length ks]) else Some 0)"
    unfolding first_end_def by (simp only: find.simps nth_Cons_0 add_0_right if_not_P) auto
  also have "find (\<lambda>j. \<not> is_retry (reply (k + j) ((x # ks) ! j))) (map Suc [0..<length ks]) =
      map_option Suc (first_end reply (Suc k) ks)"
    unfolding first_end_def find_map_index comp_def nth_Cons_Suc by simp
  finally show ?thesis .
qed

lemma first_end_append:
  "first_end reply k (a @ b) =
     (case first_end reply k a of
        Some j \<Rightarrow> Some j
      | None \<Rightarrow> map_option ((+) (length a)) (first_end reply (k + length a) b))"
proof (induction a arbitrary: k)
  case Nil
  have "(+) (length ([] :: str list)) = (\<lambda>x. x)" by (rule ext) simp
  then show ?case by (simp only: append_Nil first_end_Nil option.simps list.size add_0_right option.map_ident)
next
  case (Cons x a)
  have "map_option Suc (map_option ((+) (length a)) r) = map_option ((+) (length (x # a))) r" for r
    by (cases r) simp_all
  then show ?case by (auto simp: first_end_Cons Cons split: option.splits)
qed

lemma first_end_less: "first_end reply k ks = Some j \<Longrightarrow> j < length ks"
  by (auto simp: first_end_def find_Some_iff)

text \<open>The marks a first pass leaves: the rate limits among its replies.\<close>

fun marked :: "(nat \<Rightarrow> str \<Rightarrow> failure + 'a) \<Rightarrow> nat \<Rightarrow> str list \<Rightarrow> nat list \<Rightarrow> bool list \<Rightarrow> bool list" where
  "marked reply k keys [] limited = limited"
| "marked reply k keys (i # order) limited =
     marked reply (Suc k) keys order (limited[i := is_rate_limited (retry_text (reply k (keys ! i)))])"

lemma length_marked [simp]: "length (marked reply k keys order limited) = length limited"
  by (induction reply k keys order limited rule: marked.induct) simp_all

lemma marked_other: "i \<notin> set order \<Longrightarrow> marked reply k keys order limited ! i = limited ! i"
  by (induction reply k keys order limited rule: marked.induct) auto

lemma marked_nth:
  assumes "distinct order" "set order \<subseteq> {0..<length limited}" "j < length order"
  shows "marked reply k keys order limited ! (order ! j) = is_rate_limited (retry_text (reply (k + j) (keys ! (order ! j))))"
  using assms
proof (induction reply k keys order limited arbitrary: j rule: marked.induct)
  case (2 reply k keys i order limited)
  then show ?case by (cases j) (auto simp: marked_other)
qed simp

definition last_text :: "(nat \<Rightarrow> str \<Rightarrow> failure + 'a) \<Rightarrow> nat \<Rightarrow> str list \<Rightarrow> str option \<Rightarrow> str option" where
  "last_text reply k ks e = (if ks = [] then e else Some (retry_text (reply (k + length ks - 1) (last ks))))"

lemma last_text_Cons: "last_text reply k (x # ks) e = last_text reply (Suc k) ks (Some (retry_text (reply k x)))"
  by (simp add: last_text_def)

lemma first_pass_scripted:
  "first_pass (scripted reply) keys order limited e asked =
     (case first_end reply (length asked) (map ((!) keys) order) of
        Some j \<Rightarrow> (pass_of (reply (length asked + j) (keys ! (order ! j))), asked @ take (Suc j) (map ((!) keys) order))
      | None \<Rightarrow> (Spent (marked reply (length asked) keys order limited)
            (last_text reply (length asked) (map ((!) keys) order) e), asked @ map ((!) keys) order))"
proof (induction order arbitrary: limited e asked)
  case Nil
  show ?case by (simp add: last_text_def)
next
  case (Cons i order)
  show ?case
  proof (cases "reply (length asked) (keys ! i)")
    case (Inl f)
    then have s: "scripted reply (keys ! i) asked = (Inl f, asked @ [keys ! i])" by simp
    show ?thesis
      by (cases f) (auto simp: s Inl Cons first_end_Cons last_text_Cons simp del: scripted.simps split: option.splits)
  qed (simp add: first_end_Cons)
qed

lemma retry_pass_scripted:
  "retry_pass (scripted reply) keys order limited e asked =
     (case first_end reply (length asked) (map ((!) keys) order) of
        Some j \<Rightarrow> (pass_of (reply (length asked + j) (keys ! (order ! j))), asked @ take (Suc j) (map ((!) keys) order))
      | None \<Rightarrow> (Spent limited (last_text reply (length asked) (map ((!) keys) order) e), asked @ map ((!) keys) order))"
proof (induction order arbitrary: e asked)
  case Nil
  show ?case by (simp add: last_text_def)
next
  case (Cons i order)
  show ?case
  proof (cases "reply (length asked) (keys ! i)")
    case (Inl f)
    then have s: "scripted reply (keys ! i) asked = (Inl f, asked @ [keys ! i])" by simp
    show ?thesis
      by (cases f) (auto simp: s Inl Cons first_end_Cons last_text_Cons simp del: scripted.simps split: option.splits)
  qed (simp add: first_end_Cons)
qed

text \<open>The keys to ask again, and all the requests one request may make.\<close>

definition asked_again :: "(nat \<Rightarrow> str \<Rightarrow> failure + 'a) \<Rightarrow> str list \<Rightarrow> str list" where
  "asked_again reply order =
     map ((!) order) (filter (\<lambda>j. \<not> is_rate_limited (retry_text (reply j (order ! j)))) [0..<length order])"

definition request_plan :: "(nat \<Rightarrow> str \<Rightarrow> failure + 'a) \<Rightarrow> str list \<Rightarrow> str list" where
  "request_plan reply order = order @ asked_again reply order"

lemma retry_order:
  assumes "length limited = length keys" "keys \<noteq> []"
  shows "map ((!) keys) (filter (\<lambda>i. \<not> marked reply 0 keys (key_order (length keys) s) limited ! i) (key_order (length keys) s)) =
    asked_again reply (map ((!) keys) (key_order (length keys) s))"
proof -
  let ?o = "key_order (length keys) s"
  have o: "set ?o = {0..<length keys}" using assms by (simp add: set_key_order)
  have "?o = map ((!) ?o) [0..<length ?o]" by (rule nth_equalityI) simp_all
  then have "filter (\<lambda>i. \<not> marked reply 0 keys ?o limited ! i) ?o =
      map ((!) ?o) (filter (\<lambda>j. \<not> marked reply 0 keys ?o limited ! (?o ! j)) [0..<length keys])"
    by (metis (no_types, lifting) filter_map comp_def length_key_order filter_cong)
  also have "filter (\<lambda>j. \<not> marked reply 0 keys ?o limited ! (?o ! j)) [0..<length keys] =
      filter (\<lambda>j. \<not> is_rate_limited (retry_text (reply j (keys ! (?o ! j))))) [0..<length keys]"
    by (rule filter_cong) (simp_all add: marked_nth distinct_key_order o assms)
  finally show ?thesis by (auto simp: asked_again_def intro!: map_cong filter_cong)
qed

text \<open>The number of marks is the number of keys that are not asked again.\<close>

lemma count_marked:
  assumes "length limited = length keys" "keys \<noteq> []"
  shows "length (filter id (marked reply 0 keys (key_order (length keys) s) limited)) =
    length keys - length (asked_again reply (map ((!) keys) (key_order (length keys) s)))"
proof -
  let ?o = "key_order (length keys) s"
  let ?m = "marked reply 0 keys ?o limited"
  have "mset ?o = mset [0..<length keys]"
    using assms set_key_order [of "length keys" s]
    by (intro iffD1 [OF set_eq_iff_mset_eq_distinct]) (auto simp: distinct_key_order)
  then have "length (filter (\<lambda>i. \<not> ?m ! i) ?o) = length (filter (\<lambda>i. \<not> ?m ! i) [0..<length keys])"
    by (metis mset_filter size_mset)
  also have "\<dots> = length (filter (\<lambda>b. \<not> id b) (map ((!) ?m) [0..<length keys]))" by (simp add: filter_map comp_def)
  also have "map ((!) ?m) [0..<length keys] = ?m"
    by (rule nth_equalityI) (simp_all add: assms)
  finally have "length (asked_again reply (map ((!) keys) ?o)) = length (filter (\<lambda>b. \<not> id b) ?m)"
    by (simp flip: retry_order [OF assms])
  moreover have "length (filter id ?m) + length (filter (\<lambda>b. \<not> id b) ?m) = length keys"
    using sum_length_filter_compl [of id ?m] assms by simp
  ultimately show ?thesis by linarith
qed

lemma all_marked: "list_all id m \<longleftrightarrow> length (filter id m) = length m"
proof (induction m)
  case (Cons b m)
  have "length (filter id m) \<noteq> Suc (length m)" by (metis Suc_n_not_le_n length_filter_le)
  with Cons show ?case by (auto simp: id_def)
qed simp

lemma length_asked_again: "length (asked_again reply order) \<le> length order"
  unfolding asked_again_def length_map by (metis length_filter_le diff_zero length_upt)

definition outcome_of :: "failure + 'a \<Rightarrow> send_error + 'a" where
  "outcome_of r = (case r of Inr v \<Rightarrow> Inr v | Inl (Stop e) \<Rightarrow> Inl (Plain e) | Inl (Retry e) \<Rightarrow> Inl (Plain e))"

definition exhausted :: "nat \<Rightarrow> nat \<Rightarrow> str \<Rightarrow> send_error" where
  "exhausted n again e = (if again = n then Plain e else Rate_Limited (n - again) n e)"

lemma both_passes_scripted:
  assumes "keys \<noteq> []" "order = map ((!) keys) (key_order (length keys) s)"
  shows "both_passes (scripted reply) (\<lambda>w. w) keys (key_order (length keys) s) [] =
    (case first_end reply 0 (request_plan reply order) of
       Some j \<Rightarrow> (pass_of (reply j (request_plan reply order ! j)), take (Suc j) (request_plan reply order))
     | None \<Rightarrow> (Spent (marked reply 0 keys (key_order (length keys) s) (replicate (length keys) False))
          (last_text reply 0 (request_plan reply order) None), request_plan reply order))"
proof -
  let ?o = "key_order (length keys) s"
  let ?m = "marked reply 0 keys ?o (replicate (length keys) False)"
  have again: "map ((!) keys) (filter (\<lambda>i. \<not> ?m ! i) ?o) = asked_again reply order"
    unfolding assms(2) by (rule retry_order) (simp_all add: assms)
  have n: "length order = length keys" by (simp add: assms(2))
  show ?thesis
  proof (cases "first_end reply 0 order")
    case (Some j)
    then have "j < length keys" using first_end_less n by metis
    moreover have "pass_of (reply j k) = Spent a b \<Longrightarrow> is_retry (reply j k)" for k a b
      by (cases "reply j k" rule: pass_of.cases) simp_all
    moreover have "\<not> is_retry (reply j (order ! j))"
      using Some by (auto simp: first_end_def find_Some_iff)
    ultimately show ?thesis using Some n
      by (auto simp: both_passes_def first_pass_scripted request_plan_def first_end_append nth_append assms(2) split: pass.splits)
  next
    case None
    have all: "list_all id ?m \<longleftrightarrow> asked_again reply order = []"
    proof -
      have "list_all id ?m \<longleftrightarrow> length (filter id ?m) = length keys"
        by (simp add: all_marked)
      also have "\<dots> \<longleftrightarrow> length keys - length (asked_again reply order) = length keys"
        using count_marked [of "replicate (length keys) False" keys reply s] assms by simp
      finally show ?thesis using assms(1) by (cases "asked_again reply order"; cases keys) auto
    qed
    have last: "asked_again reply order \<noteq> [] \<Longrightarrow>
        last_text reply (length order) (asked_again reply order) e = last_text reply 0 (request_plan reply order) None" for e
      by (simp add: last_text_def request_plan_def)
    have f: "first_pass (scripted reply) keys ?o (replicate (length keys) False) None [] =
        (Spent ?m (last_text reply 0 order None), order)"
      using None by (simp add: first_pass_scripted assms(2))
    show ?thesis
    proof (cases "asked_again reply order = []")
      case True
      then show ?thesis using all None by (simp add: both_passes_def f request_plan_def)
    next
      case False
      have "both_passes (scripted reply) (\<lambda>w. w) keys ?o [] =
          retry_pass (scripted reply) keys (filter (\<lambda>i. \<not> ?m ! i) ?o) ?m (last_text reply 0 order None) order"
        using all False by (simp add: both_passes_def f)
      also have "\<dots> = (case first_end reply (length order) (asked_again reply order) of
          Some j \<Rightarrow> (pass_of (reply (length order + j) (asked_again reply order ! j)), order @ take (Suc j) (asked_again reply order))
        | None \<Rightarrow> (Spent ?m (last_text reply 0 (request_plan reply order) None), order @ asked_again reply order))"
      proof -
        have "keys ! (filter (\<lambda>i. \<not> ?m ! i) ?o ! j) = asked_again reply order ! j" if "j < length (asked_again reply order)" for j
          using that by (simp flip: again)
        then show ?thesis
          by (auto simp: retry_pass_scripted again last [OF False] dest: first_end_less split: option.splits)
      qed
      finally show ?thesis using None n
        by (auto simp: request_plan_def first_end_append nth_append split: option.splits)
    qed
  qed
qed

text \<open>C40: A request with keys makes the requests of its plan, in order, until one answers or stops it: first
  every key once, beginning at the cursor, then, once all of them failed, again the keys without a rate
  limit. The answer or the stop is returned at once. When the plan is spent, the last error is
  returned, with the number of the keys under a rate limit when there is one. The cursor moves by one,
  so that requests begin on successive keys.\<close>

theorem send_follows_plan:
  assumes "kr_keys ring = keys" "keys \<noteq> []"
    and "plan = request_plan reply (rotate (unat (kr_cursor ring) mod length keys) keys)"
  shows "ring_send (scripted reply) (\<lambda>_ w. w) ring [] =
    (case first_end reply 0 plan of
       Some j \<Rightarrow> (outcome_of (reply j (plan ! j)), ring\<lparr>kr_cursor := kr_cursor ring + 1\<rparr>, take (Suc j) plan)
     | None \<Rightarrow>
         (Inl (exhausted (length keys) (length plan - length keys) (retry_text (reply (length plan - 1) (last plan)))),
          ring\<lparr>kr_cursor := kr_cursor ring + 1\<rparr>, plan))"
proof -
  let ?s = "unat (kr_cursor ring) mod length keys"
  let ?order = "map ((!) keys) (key_order (length keys) ?s)"
  have order: "rotate ?s keys = ?order" by (simp add: key_order_rotate less_imp_le assms(2))
  have plan: "request_plan reply ?order = plan" by (simp add: assms(3) order)
  have n: "length plan = length keys + length (asked_again reply ?order)"
    by (simp flip: plan add: request_plan_def)
  have ne: "plan \<noteq> []" using n assms(2) by auto
  have le: "length (asked_again reply ?order) \<le> length keys"
    using length_asked_again [of reply ?order] by simp
  show ?thesis
  proof (cases "first_end reply 0 plan")
    case (Some j)
    have "\<not> is_retry (reply j (plan ! j))" using Some by (auto simp: first_end_def find_Some_iff)
    then show ?thesis using assms(1,2) Some
      by (cases "reply j (plan ! j)" rule: pass_of.cases)
        (simp_all add: ring_send_def Let_def both_passes_scripted [OF assms(2) refl] plan outcome_of_def)
  next
    case None
    have c: "length (filter id (marked reply 0 keys (key_order (length keys) ?s) (replicate (length keys) False))) =
        length keys - length (asked_again reply ?order)"
      using count_marked [of "replicate (length keys) False" keys reply ?s] assms(2) by simp
    show ?thesis using assms(1,2) None n ne le
      by (simp add: ring_send_def Let_def both_passes_scripted [OF assms(2) refl] plan spent_error_def exhausted_def
          last_text_def c [unfolded id_def] id_def)
  qed
qed

text \<open>Two keys: the first reports a rate limit, the second fails once and answers on the retry pass.\<close>

definition demo_ring :: key_ring where
  "demo_ring = key_ring_new [''a'', ''b'']"

definition demo_reply :: "nat \<Rightarrow> str \<Rightarrow> failure + nat" where
  "demo_reply i key =
     (if key = ''a'' then Inl (Retry ''429 Too Many Requests'') else if i = 1 then Inl (Retry ''502'') else Inr i)"

theorem send_follows_plan_witness:
  "ring_send (scripted demo_reply) (\<lambda>_ w. w) demo_ring [] =
    (Inr 2, demo_ring\<lparr>kr_cursor := 1\<rparr>, [''a'', ''b'', ''b''])"
proof -
  have u: "[0..<2] = [0, 1 :: nat]" by (simp add: upt_rec)
  have plan: "request_plan demo_reply (rotate (unat (kr_cursor demo_ring) mod length [''a'', ''b'']) [''a'', ''b'']) = [''a'', ''b'', ''b'']"
    by (simp add: demo_ring_def key_ring_new_def request_plan_def asked_again_def demo_reply_def is_rate_limited_def
        contains_str_def starts_with_def u numeral_2_eq_2)
  have e: "first_end demo_reply 0 [''a'', ''b'', ''b''] = Some 2"
    by (simp add: first_end_Cons demo_reply_def numeral_2_eq_2)
  have k: "kr_keys demo_ring = [''a'', ''b'']" "kr_cursor demo_ring + 1 = 1"
    by (simp_all add: demo_ring_def key_ring_new_def)
  show ?thesis
    using send_follows_plan [OF k(1) _ plan [unfolded k, symmetric]]
    by (simp add: e k) (simp add: outcome_of_def demo_reply_def numeral_2_eq_2)
qed

text \<open>Rings built from the same keys continue one rotation; other keys keep theirs.\<close>

lemma shared_rotation:
  assumes "ring_send attempt sleep (key_ring_shared keys cursors) w = (r, ring, w')" "keys \<noteq> []"
  shows "kr_cursor (key_ring_shared keys (share_cursor ring cursors)) = kr_cursor (key_ring_shared keys cursors) + 1"
    and "other \<noteq> keys \<Longrightarrow> key_ring_shared other (share_cursor ring cursors) = key_ring_shared other cursors"
proof -
  have "ring = (key_ring_shared keys cursors)\<lparr>kr_cursor := kr_cursor (key_ring_shared keys cursors) + 1\<rparr>"
    using assms by (auto simp: ring_send_def Let_def key_ring_shared_def split: prod.splits pass.splits)
  then show "kr_cursor (key_ring_shared keys (share_cursor ring cursors)) = kr_cursor (key_ring_shared keys cursors) + 1"
    and "other \<noteq> keys \<Longrightarrow> key_ring_shared other (share_cursor ring cursors) = key_ring_shared other cursors"
    by (simp_all add: share_cursor_def key_ring_shared_def)
qed

end
