(* ===== verification/Embed_Client.thy ===== *)
theory Embed_Client
  imports Embedding_Identity Key_Ring
begin

text \<open>
  The client of the embedding service (\<open>src/embedding/voyage.rs\<close> and \<open>src/embedding/voyage/\<close>): the address,
  the batches, one request with the check of its reply, and the retry loops of documents and of
  queries.

  The service, the pauses and the clock are the host, which turns worlds into worlds. The cursor over
  the keys is shared by the tasks of a process: \<open>eh_others\<close> is how often other tasks have moved it since
  this one last read it. An error is the text of its chain. The batch loop waits for as long as every
  key is rate limited, so it is a partial function: \<open>None\<close> is a loop without end.
\<close>

section \<open>Address and batches\<close>

definition VOYAGE_ENDPOINT :: str where "VOYAGE_ENDPOINT = ''https://api.voyageai.com/v1/embeddings''"
definition OPENAI_ENDPOINT :: str where "OPENAI_ENDPOINT = ''https://api.openai.com/v1/embeddings''"
definition MAX_BATCH_SIZE :: nat where "MAX_BATCH_SIZE = 128"
definition MAX_BATCH_BYTES :: nat where "MAX_BATCH_BYTES = 1500000"

definition default_endpoint :: "provider \<Rightarrow> str" where
  "default_endpoint p = (case p of Voyage \<Rightarrow> VOYAGE_ENDPOINT | OpenAI \<Rightarrow> OPENAI_ENDPOINT)"

definition embedding_url :: "provider \<Rightarrow> str option \<Rightarrow> str" where
  "embedding_url p base =
     (let raw = trim (case base of Some b \<Rightarrow> b | None \<Rightarrow> [])
      in if raw = [] then default_endpoint p
         else (let trimmed = trim_end_matches (\<lambda>c. c = slash) raw
               in if ends_with trimmed ''/embeddings'' then trimmed else trimmed @ ''/embeddings''))"

text \<open>The inner loop: how many texts the batch takes, after \<open>k\<close> texts of \<open>bytes\<close> bytes.\<close>

fun batch_end :: "str list \<Rightarrow> nat \<Rightarrow> nat \<Rightarrow> nat" where
  "batch_end [] k bytes = k"
| "batch_end (t # texts) k bytes =
     (if k < MAX_BATCH_SIZE \<and> (bytes + str_len t \<le> MAX_BATCH_BYTES \<or> k = 0)
      then batch_end texts (Suc k) (bytes + str_len t)
      else k)"

lemma batch_end_ge: "k \<le> batch_end texts k bytes"
  by (induction texts k bytes rule: batch_end.induct) (auto intro: Suc_leD)

lemma batch_end_pos: "texts \<noteq> [] \<Longrightarrow> 0 < batch_end texts 0 0"
  using batch_end_ge [of "Suc 0"] by (cases texts) (auto simp: MAX_BATCH_SIZE_def Suc_le_eq)

function byte_aware_batches :: "str list \<Rightarrow> str list list" where
  "byte_aware_batches texts =
     (if texts = [] then []
      else take (batch_end texts 0 0) texts # byte_aware_batches (drop (batch_end texts 0 0) texts))"
  by pat_completeness auto
termination
  by (relation "measure length") (simp_all add: batch_end_pos)

declare byte_aware_batches.simps [simp del]

section \<open>One request\<close>

datatype input_type = Document_Input | Query_Input

definition input_type_as_str :: "input_type \<Rightarrow> str" where
  "input_type_as_str t = (case t of Document_Input \<Rightarrow> ''document'' | Query_Input \<Rightarrow> ''query'')"

record embed_request =
  er_model :: str
  er_input :: "str list"
  er_input_type :: "str option"
  er_dimensions :: "nat option"

record embed_data =
  ed_embedding :: "u32 list"
  ed_index :: "nat option"

datatype embed_error = RateLimited | Transient str | Other str

text \<open>\<open>Exhausted attempts e\<close> carries the marker \<open>TransientEmbedExhausted\<close>.\<close>

datatype embed_failure = Exhausted nat str | Failed str

text \<open>The two clients of the process, one with the long and one with the short time limit.\<close>

datatype http_client = Http | Query_Http

definition timeout_secs :: "http_client \<Rightarrow> nat" where
  "timeout_secs c = (case c of Http \<Rightarrow> 120 | Query_Http \<Rightarrow> 30)"

text \<open>\<open>Send_Error\<close> tells whether the request could not be built; a response has a status code, its text,
  and the body read as text or as JSON.\<close>

datatype http_result = Send_Error bool str | Response nat str str "str + embed_data list"

record 'w embed_host =
  eh_post :: "nat \<Rightarrow> str \<Rightarrow> str \<Rightarrow> embed_request \<Rightarrow> 'w \<Rightarrow> http_result \<times> 'w"
  eh_sleep :: "nat \<Rightarrow> 'w \<Rightarrow> 'w"
  eh_nanos :: "'w \<Rightarrow> u64"
  eh_others :: "'w \<Rightarrow> u64"

record embed_client =
  cl_provider :: provider
  cl_model :: str
  cl_api_keys :: "str list"
  cl_endpoint :: str
  cl_dimensions :: "nat option"

definition is_send_error_transient :: "bool \<Rightarrow> bool" where
  "is_send_error_transient is_builder \<longleftrightarrow> \<not> is_builder"

definition order_embeddings :: "embed_data list \<Rightarrow> nat \<Rightarrow> embed_error + u32 list list" where
  "order_embeddings data n_inputs =
     (if length data \<noteq> n_inputs then
        Inl (Transient (''embedding response has '' @ show_nat (length data) @ '' vectors for '' @ show_nat n_inputs @ '' inputs''))
      else
        (let indexed = list_all (\<lambda>d. ed_index d \<noteq> None) data;
             data = (if indexed then sort_by (\<lambda>a b. the (ed_index a) \<le> the (ed_index b)) data else data)
         in if indexed \<and> list_ex (\<lambda>(i, d). ed_index d \<noteq> Some i) (enumerate 0 data) then
              Inl (Transient (''embedding response indexes are not a permutation of 0..'' @ show_nat n_inputs))
            else if list_ex (\<lambda>d. ed_embedding d = []) data then
              Inl (Transient ''embedding response contains an empty vector'')
            else Inr (map ed_embedding data)))"

definition request_of :: "embed_client \<Rightarrow> str list \<Rightarrow> input_type \<Rightarrow> embed_request" where
  "request_of cl texts t =
     \<lparr>er_model = cl_model cl, er_input = texts,
      er_input_type = (case cl_provider cl of Voyage \<Rightarrow> Some (input_type_as_str t) | OpenAI \<Rightarrow> None),
      er_dimensions = (case cl_provider cl of Voyage \<Rightarrow> None | OpenAI \<Rightarrow> cl_dimensions cl)\<rparr>"

definition read_response :: "http_result \<Rightarrow> nat \<Rightarrow> embed_error + u32 list list" where
  "read_response r n_inputs =
     (case r of
        Send_Error is_builder e \<Rightarrow> Inl (if is_send_error_transient is_builder then Transient e else Other e)
      | Response status shown text json \<Rightarrow>
          if status = 429 then Inl RateLimited
          else if \<not> (200 \<le> status \<and> status < 300) then Inl (Other (''VoyageAI error '' @ shown @ '': '' @ text))
          else (case json of Inl e \<Rightarrow> Inl (Transient e) | Inr data \<Rightarrow> order_embeddings data n_inputs))"

definition try_embed_with_key_using ::
  "'w embed_host \<Rightarrow> embed_client \<Rightarrow> http_client \<Rightarrow> str \<Rightarrow> str list \<Rightarrow> input_type \<Rightarrow> 'w \<Rightarrow> (embed_error + u32 list list) \<times> 'w" where
  "try_embed_with_key_using h cl client key texts t w =
     (case eh_post h (timeout_secs client) (cl_endpoint cl) key (request_of cl texts t) w of
        (r, w') \<Rightarrow> (read_response r (length texts), w'))"

definition try_embed_with_key ::
  "'w embed_host \<Rightarrow> embed_client \<Rightarrow> str \<Rightarrow> str list \<Rightarrow> input_type \<Rightarrow> 'w \<Rightarrow> (embed_error + u32 list list) \<times> 'w" where
  "try_embed_with_key h cl = try_embed_with_key_using h cl Http"

definition try_embed_query_with_key ::
  "'w embed_host \<Rightarrow> embed_client \<Rightarrow> str \<Rightarrow> str list \<Rightarrow> input_type \<Rightarrow> 'w \<Rightarrow> (embed_error + u32 list list) \<times> 'w" where
  "try_embed_query_with_key h cl = try_embed_with_key_using h cl Query_Http"

section \<open>The client\<close>

text \<open>\<open>built\<close> is the error of building the HTTP client with a time limit, if there is one.\<close>

definition new_for_provider ::
  "(nat \<Rightarrow> str option) \<Rightarrow> provider \<Rightarrow> str \<Rightarrow> str list \<Rightarrow> str option \<Rightarrow> nat option \<Rightarrow> str + embed_client" where
  "new_for_provider built p model api_keys base_url dimensions =
     (if api_keys = [] then Inl ''embedding client requires at least one API key''
      else case built (timeout_secs Http) of
        Some e \<Rightarrow> Inl (''build reqwest client: '' @ e)
      | None \<Rightarrow>
          (case built (timeout_secs Query_Http) of
             Some e \<Rightarrow> Inl (''build query reqwest client: '' @ e)
           | None \<Rightarrow>
               Inr \<lparr>cl_provider = p, cl_model = model, cl_api_keys = api_keys, cl_endpoint = embedding_url p base_url,
                 cl_dimensions = dimensions\<rparr>))"

type_synonym client_key = "provider \<times> str \<times> str list \<times> str option \<times> nat option"

definition MAX_SHARED :: nat where "MAX_SHARED = 4"

text \<open>The clients of the process, oldest first. A shared client keeps its cursor.\<close>

definition shared_for_provider ::
  "(nat \<Rightarrow> str option) \<Rightarrow> client_key \<Rightarrow> (client_key \<times> embed_client) list \<Rightarrow>
     (str + embed_client) \<times> (client_key \<times> embed_client) list" where
  "shared_for_provider built key shared =
     (case find (\<lambda>(cached, _). cached = key) shared of
        Some (_, client) \<Rightarrow> (Inr client, shared)
      | None \<Rightarrow>
          (case key of (p, model, api_keys, base_url, dimensions) \<Rightarrow>
             (case new_for_provider built p model api_keys base_url dimensions of
                Inl e \<Rightarrow> (Inl e, shared)
              | Inr client \<Rightarrow>
                  (Inr client, (if MAX_SHARED \<le> length shared then tl shared else shared) @ [(key, client)]))))"

section \<open>Pauses and the cursor\<close>

definition TRANSIENT_RETRY_LIMIT :: nat where "TRANSIENT_RETRY_LIMIT = 6"
definition QUERY_TRANSIENT_RETRY_MS :: "nat list" where "QUERY_TRANSIENT_RETRY_MS = [200, 500]"

text \<open>In milliseconds. The sum of the cursor and the nanoseconds wraps.\<close>

definition backoff_with_jitter :: "nat \<Rightarrow> u64 \<Rightarrow> u64 \<Rightarrow> nat" where
  "backoff_with_jitter base_secs cursor_val nanos =
     base_secs * 1000 + unat (cursor_val + nanos) mod max (base_secs * 250) 100"

type_synonym 'w net = "u64 \<times> 'w"

definition cursor_load :: "'w embed_host \<Rightarrow> 'w net \<Rightarrow> u64" where
  "cursor_load h st = fst st + eh_others h (snd st)"

definition cursor_fetch_add :: "'w embed_host \<Rightarrow> 'w net \<Rightarrow> u64 \<times> 'w net" where
  "cursor_fetch_add h st = (cursor_load h st, cursor_load h st + 1, snd st)"

definition pause :: "'w embed_host \<Rightarrow> nat \<Rightarrow> 'w net \<Rightarrow> 'w net" where
  "pause h base_secs st =
     (fst st, eh_sleep h (backoff_with_jitter base_secs (cursor_load h st) (eh_nanos h (snd st))) (snd st))"

definition sleep_for_transient :: "'w embed_host \<Rightarrow> nat \<Rightarrow> 'w net \<Rightarrow> 'w net" where
  "sleep_for_transient h attempt = pause h (min (2 ^ attempt) 16)"

definition sleep_for_rate_limit :: "'w embed_host \<Rightarrow> nat \<Rightarrow> 'w net \<Rightarrow> 'w net" where
  "sleep_for_rate_limit h delay_secs = pause h delay_secs"

section \<open>Documents\<close>

text \<open>A pass over the keys: rate limits move on to the next key, every other reply ends it.\<close>

datatype pass_end = Embedded "u32 list list" | Transient_Hit str | Refused str | All_Limited

fun try_keys ::
  "'w embed_host \<Rightarrow> embed_client \<Rightarrow> str list \<Rightarrow> input_type \<Rightarrow> nat list \<Rightarrow> 'w \<Rightarrow> pass_end \<times> 'w" where
  "try_keys h cl texts t [] w = (All_Limited, w)"
| "try_keys h cl texts t (key_index # order) w =
     (case try_embed_with_key h cl (cl_api_keys cl ! key_index) texts t w of
        (Inr embeddings, w') \<Rightarrow> (Embedded embeddings, w')
      | (Inl RateLimited, w') \<Rightarrow> try_keys h cl texts t order w'
      | (Inl (Transient e), w') \<Rightarrow> (Transient_Hit e, w')
      | (Inl (Other e), w') \<Rightarrow> (Refused e, w'))"

definition key_pass ::
  "'w embed_host \<Rightarrow> embed_client \<Rightarrow> str list \<Rightarrow> input_type \<Rightarrow> 'w net \<Rightarrow> pass_end \<times> 'w net" where
  "key_pass h cl texts t st =
     (case cursor_fetch_add h st of
        (start, cursor, w) \<Rightarrow>
          (case try_keys h cl texts t (key_order (length (cl_api_keys cl)) (unat start mod length (cl_api_keys cl))) w of
             (e, w') \<Rightarrow> (e, cursor, w')))"

text \<open>Where a batch is: in the outer loop, or in the inner loop before a pause of so many seconds.\<close>

datatype batch_phase = Outer | Backing_Off nat

definition next_delay :: "batch_phase \<Rightarrow> nat \<Rightarrow> batch_phase" where
  "next_delay phase attempts =
     (case phase of
        Outer \<Rightarrow> if attempts = 0 then Backing_Off 2 else Outer
      | Backing_Off delay_secs \<Rightarrow> Backing_Off (min (delay_secs * 2) 60))"

partial_function (option) batch_loop ::
  "'w embed_host \<Rightarrow> embed_client \<Rightarrow> str list \<Rightarrow> input_type \<Rightarrow> batch_phase \<Rightarrow> nat \<Rightarrow> 'w net \<Rightarrow>
     ((embed_failure + u32 list list) \<times> 'w net) option" where
  "batch_loop h cl texts t phase attempts st =
     (case key_pass h cl texts t (case phase of Outer \<Rightarrow> st | Backing_Off delay_secs \<Rightarrow> sleep_for_rate_limit h delay_secs st) of
        (Embedded embeddings, st') \<Rightarrow> Some (Inr embeddings, st')
      | (Refused e, st') \<Rightarrow> Some (Inl (Failed e), st')
      | (Transient_Hit e, st') \<Rightarrow>
          if TRANSIENT_RETRY_LIMIT \<le> attempts + 1 then Some (Inl (Exhausted (attempts + 1) e), st')
          else batch_loop h cl texts t Outer (attempts + 1)
            (if phase = Outer then sleep_for_transient h (attempts + 1) st' else st')
      | (All_Limited, st') \<Rightarrow> batch_loop h cl texts t (next_delay phase attempts) attempts st')"

definition embed_batch ::
  "'w embed_host \<Rightarrow> embed_client \<Rightarrow> str list \<Rightarrow> input_type \<Rightarrow> 'w net \<Rightarrow>
     ((embed_failure + u32 list list) \<times> 'w net) option" where
  "embed_batch h cl texts t = batch_loop h cl texts t Outer 0"

fun embed_batches ::
  "'w embed_host \<Rightarrow> embed_client \<Rightarrow> str list list \<Rightarrow> input_type \<Rightarrow> u32 list list \<Rightarrow> 'w net \<Rightarrow>
     ((embed_failure + u32 list list) \<times> 'w net) option" where
  "embed_batches h cl [] t vectors st = Some (Inr vectors, st)"
| "embed_batches h cl (batch # batches) t vectors st =
     (case embed_batch h cl batch t st of
        None \<Rightarrow> None
      | Some (Inl e, st') \<Rightarrow> Some (Inl e, st')
      | Some (Inr vs, st') \<Rightarrow> embed_batches h cl batches t (vectors @ vs) st')"

definition embed ::
  "'w embed_host \<Rightarrow> embed_client \<Rightarrow> str list \<Rightarrow> input_type \<Rightarrow> 'w net \<Rightarrow>
     ((embed_failure + u32 list list) \<times> 'w net) option" where
  "embed h cl texts t = embed_batches h cl (byte_aware_batches texts) t []"

section \<open>Queries\<close>

fun try_query_key_retrying ::
  "'w embed_host \<Rightarrow> embed_client \<Rightarrow> str \<Rightarrow> str list \<Rightarrow> nat list \<Rightarrow> 'w \<Rightarrow> (embed_error + u32 list list) \<times> 'w" where
  "try_query_key_retrying h cl key texts [] w = try_embed_query_with_key h cl key texts Query_Input w"
| "try_query_key_retrying h cl key texts (delay # delays) w =
     (case try_embed_query_with_key h cl key texts Query_Input w of
        (Inl (Transient e), w') \<Rightarrow> try_query_key_retrying h cl key texts delays (eh_sleep h delay w')
      | other \<Rightarrow> other)"

definition pop_query_embedding :: "u32 list list \<Rightarrow> embed_failure + u32 list" where
  "pop_query_embedding embeddings =
     (if embeddings = [] then Inl (Failed ''VoyageAI returned empty embeddings'') else Inr (last embeddings))"

text \<open>The first pass ends with an answer, or with the last transient error.\<close>

fun query_first_pass ::
  "'w embed_host \<Rightarrow> embed_client \<Rightarrow> str list \<Rightarrow> nat list \<Rightarrow> str option \<Rightarrow> 'w \<Rightarrow>
     ((embed_failure + u32 list) + str option) \<times> 'w" where
  "query_first_pass h cl texts [] last_transient w = (Inr last_transient, w)"
| "query_first_pass h cl texts (key_index # order) last_transient w =
     (case try_query_key_retrying h cl (cl_api_keys cl ! key_index) texts QUERY_TRANSIENT_RETRY_MS w of
        (Inr embeddings, w') \<Rightarrow> (Inl (pop_query_embedding embeddings), w')
      | (Inl RateLimited, w') \<Rightarrow> query_first_pass h cl texts order last_transient w'
      | (Inl (Transient e), w') \<Rightarrow> query_first_pass h cl texts order (Some e) w'
      | (Inl (Other e), w') \<Rightarrow> (Inl (Inl (Failed e)), w'))"

fun query_second_pass ::
  "'w embed_host \<Rightarrow> embed_client \<Rightarrow> str list \<Rightarrow> nat list \<Rightarrow> 'w \<Rightarrow> (embed_failure + u32 list) \<times> 'w" where
  "query_second_pass h cl texts [] w = (Inl (Failed ''VoyageAI query embed still rate-limited after backoff''), w)"
| "query_second_pass h cl texts (key_index # order) w =
     (case try_embed_query_with_key h cl (cl_api_keys cl ! key_index) texts Query_Input w of
        (Inr embeddings, w') \<Rightarrow> (pop_query_embedding embeddings, w')
      | (Inl RateLimited, w') \<Rightarrow> query_second_pass h cl texts order w'
      | (Inl (Transient e), w') \<Rightarrow> (Inl (Failed (''VoyageAI transient error on query embed: '' @ e)), w')
      | (Inl (Other e), w') \<Rightarrow> (Inl (Failed e), w'))"

definition embed_query :: "'w embed_host \<Rightarrow> embed_client \<Rightarrow> str \<Rightarrow> 'w net \<Rightarrow> (embed_failure + u32 list) \<times> 'w net" where
  "embed_query h cl text st =
     (case cursor_fetch_add h st of
        (start, cursor, w) \<Rightarrow>
          (let order = key_order (length (cl_api_keys cl)) (unat start mod length (cl_api_keys cl))
           in case query_first_pass h cl [text] order None w of
                (Inl r, w1) \<Rightarrow> (r, cursor, w1)
              | (Inr (Some e), w1) \<Rightarrow> (Inl (Failed (''VoyageAI transient error on query embed: '' @ e)), cursor, w1)
              | (Inr None, w1) \<Rightarrow>
                  (case pause h 2 (cursor, w1) of
                     (cursor', w2) \<Rightarrow>
                       (case query_second_pass h cl [text] order w2 of (r, w3) \<Rightarrow> (r, cursor', w3)))))"

section \<open>Batches cover the texts\<close>

lemma batch_end_le: "batch_end texts k bytes \<le> k + length texts"
  by (induction texts k bytes rule: batch_end.induct) auto

lemma batch_end_size: "k \<le> MAX_BATCH_SIZE \<Longrightarrow> batch_end texts k bytes \<le> MAX_BATCH_SIZE"
  by (induction texts k bytes rule: batch_end.induct) auto

lemma batch_end_bytes:
  "k = 0 \<or> bytes \<le> MAX_BATCH_BYTES \<or> k = 1 \<Longrightarrow>
     batch_end texts k bytes \<le> 1 \<or> bytes + sum_list (map str_len (take (batch_end texts k bytes - k) texts)) \<le> MAX_BATCH_BYTES
     \<or> batch_end texts k bytes = k"
proof (induction texts k bytes rule: batch_end.induct)
  case (2 t texts k bytes)
  show ?case
  proof (cases "k < MAX_BATCH_SIZE \<and> (bytes + str_len t \<le> MAX_BATCH_BYTES \<or> k = 0)")
    case True
    let ?e = "batch_end texts (Suc k) (bytes + str_len t)"
    have ge: "Suc k \<le> ?e" by (rule batch_end_ge)
    then have "take (?e - k) (t # texts) = t # take (?e - Suc k) texts" by (simp add: take_Cons')
    moreover have "?e \<le> 1 \<or> bytes + str_len t + sum_list (map str_len (take (?e - Suc k) texts)) \<le> MAX_BATCH_BYTES \<or> ?e = Suc k"
      by (rule 2) (use True in auto)
    ultimately show ?thesis using True by (auto simp: add.assoc)
  qed auto
qed simp

definition fits :: "str list \<Rightarrow> bool" where
  "fits b \<longleftrightarrow> b \<noteq> [] \<and> length b \<le> MAX_BATCH_SIZE \<and> (length b = 1 \<or> sum_list (map str_len b) \<le> MAX_BATCH_BYTES)"

lemma batches_cover: "concat (byte_aware_batches texts) = texts"
proof (induction texts rule: byte_aware_batches.induct)
  case (1 texts)
  then show ?case by (subst byte_aware_batches.simps) simp
qed

lemma batches_fit: "b \<in> set (byte_aware_batches texts) \<Longrightarrow> fits b"
proof (induction texts rule: byte_aware_batches.induct)
  case (1 texts)
  show ?case
  proof (cases "texts = []")
    case False
    let ?e = "batch_end texts 0 0"
    have "0 < ?e" "?e \<le> length texts" "?e \<le> MAX_BATCH_SIZE"
      using batch_end_pos [OF False] batch_end_le [of texts 0 0] batch_end_size [of 0 texts 0] by simp_all
    moreover from this have "?e = 1 \<or> sum_list (map str_len (take ?e texts)) \<le> MAX_BATCH_BYTES"
      using batch_end_bytes [of 0 0 texts] by auto
    ultimately have "fits (take ?e texts)" using False by (auto simp: fits_def)
    then show ?thesis using 1 False byte_aware_batches.simps [of texts] by auto
  qed (use 1 in \<open>simp add: byte_aware_batches.simps\<close>)
qed

section \<open>A reply and its inputs\<close>

text \<open>What the services document: the vector of an item belongs to the input its index names; without
  indexes the vectors come in the order of the inputs. Nothing is assumed on how many there are.\<close>

definition honest :: "(str \<Rightarrow> u32 list) \<Rightarrow> str list \<Rightarrow> embed_data list \<Rightarrow> bool" where
  "honest v inputs data \<longleftrightarrow>
     (if list_all (\<lambda>d. ed_index d \<noteq> None) data
      then list_all (\<lambda>d. \<forall>i<length inputs. ed_index d = Some i \<longrightarrow> ed_embedding d = v (inputs ! i)) data
      else list_all2 (\<lambda>d t. ed_embedding d = v t) (take (length inputs) data) (take (length data) inputs))"

lemma order_embeddings_honest:
  assumes "order_embeddings data (length inputs) = Inr vs" "honest v inputs data"
  shows "vs = map v inputs \<and> [] \<notin> set vs"
proof -
  have len: "length data = length inputs"
    using assms(1) by (auto simp: order_embeddings_def split: if_splits)
  have filled: "[] \<notin> set vs"
    using assms(1) by (auto simp: order_embeddings_def Let_def list_ex_iff eq_commute [of "[]"] split: if_splits)
  show ?thesis
  proof (cases "list_all (\<lambda>d. ed_index d \<noteq> None) data")
    case True
    let ?s = "sort_by (\<lambda>a b. the (ed_index a) \<le> the (ed_index b)) data"
    have vs: "vs = map ed_embedding ?s"
      and idx: "\<not> list_ex (\<lambda>(i, d). ed_index d \<noteq> Some i) (enumerate 0 ?s)"
      using assms(1) True len by (auto simp: order_embeddings_def Let_def split: if_splits)
    have "ed_index (?s ! i) = Some i" if "i < length inputs" for i
    proof -
      have "(i, ?s ! i) \<in> set (enumerate 0 ?s)" using that len by (simp add: in_set_enumerate_eq)
      then show ?thesis using idx by (auto simp: list_ex_iff)
    qed
    moreover have "?s ! i \<in> set data" if "i < length inputs" for i
      using that len nth_mem [of i ?s] by simp
    ultimately have "ed_embedding (?s ! i) = v (inputs ! i)" if "i < length inputs" for i
      using assms(2) True that by (simp add: honest_def list_all_iff)
    then have "vs = map v inputs" using len by (simp add: vs list_eq_iff_nth_eq)
    then show ?thesis using filled by simp
  next
    case False
    then have "vs = map ed_embedding data"
      using assms(1) len by (auto simp: order_embeddings_def Let_def split: if_splits)
    moreover have "list_all2 (\<lambda>d t. ed_embedding d = v t) data inputs"
      using assms(2) False len by (simp add: honest_def)
    ultimately have "vs = map v inputs" by (simp add: list_all2_conv_all_nth list_eq_iff_nth_eq)
    then show ?thesis using filled by simp
  qed
qed

section \<open>What a client returns\<close>

text \<open>A host whose service answers every request honestly, by the vectors \<open>v\<close> of a model.\<close>

definition honest_host :: "(str \<Rightarrow> str option \<Rightarrow> nat option \<Rightarrow> str \<Rightarrow> u32 list) \<Rightarrow> 'w embed_host \<Rightarrow> bool" where
  "honest_host v h \<longleftrightarrow>
     (\<forall>secs endpoint key req w status shown text data.
        fst (eh_post h secs endpoint key req w) = Response status shown text (Inr data)
        \<longrightarrow> honest (v (er_model req) (er_input_type req) (er_dimensions req)) (er_input req) data)"

text \<open>The vectors of a client: what the model gives a text under its settings.\<close>

definition client_vector ::
  "(str \<Rightarrow> str option \<Rightarrow> nat option \<Rightarrow> str \<Rightarrow> u32 list) \<Rightarrow> embed_client \<Rightarrow> input_type \<Rightarrow> str \<Rightarrow> u32 list" where
  "client_vector v cl t = v (cl_model cl) (er_input_type (request_of cl [] t)) (er_dimensions (request_of cl [] t))"

definition exact_vectors ::
  "(str \<Rightarrow> str option \<Rightarrow> nat option \<Rightarrow> str \<Rightarrow> u32 list) \<Rightarrow> embed_client \<Rightarrow> input_type \<Rightarrow> str list \<Rightarrow> u32 list list \<Rightarrow> bool" where
  "exact_vectors v cl t texts vs \<longleftrightarrow> vs = map (client_vector v cl t) texts \<and> [] \<notin> set vs"

lemma try_embed_honest:
  assumes "honest_host v h" "try_embed_with_key_using h cl client key texts t w = (Inr vs, w')"
  shows "exact_vectors v cl t texts vs"
proof -
  obtain r where post: "eh_post h (timeout_secs client) (cl_endpoint cl) key (request_of cl texts t) w = (r, w')"
    and r: "read_response r (length texts) = Inr vs"
    using assms(2) by (auto simp: try_embed_with_key_using_def split: prod.splits)
  then obtain status shown body data where data: "r = Response status shown body (Inr data)"
    and vs: "order_embeddings data (length texts) = Inr vs"
    by (auto simp: read_response_def split: http_result.splits if_splits sum.splits)
  have "honest (v (er_model (request_of cl texts t)) (er_input_type (request_of cl texts t)) (er_dimensions (request_of cl texts t)))
      (er_input (request_of cl texts t)) data"
    using assms(1) post data unfolding honest_host_def by (metis fst_conv)
  then have "honest (client_vector v cl t) texts data" by (simp add: client_vector_def request_of_def)
  then show ?thesis unfolding exact_vectors_def using order_embeddings_honest vs by blast
qed

lemma try_keys_honest:
  "honest_host v h \<Longrightarrow> try_keys h cl texts t order w = (Embedded vs, w') \<Longrightarrow>
     exact_vectors v cl t texts vs"
proof (induction h cl texts t order w rule: try_keys.induct)
  case (2 h cl texts t key_index order w)
  obtain r w1 where one: "try_embed_with_key h cl (cl_api_keys cl ! key_index) texts t w = (r, w1)" by fastforce
  show ?case
  proof (cases r)
    case (Inr us)
    then show ?thesis
      using 2 one try_embed_honest [OF 2(2) one [unfolded try_embed_with_key_def Inr]] by auto
  next
    case (Inl e)
    then show ?thesis using 2 one by (cases e) auto
  qed
qed simp

lemma key_pass_honest:
  "honest_host v h \<Longrightarrow> key_pass h cl texts t st = (Embedded vs, st') \<Longrightarrow>
     exact_vectors v cl t texts vs"
  by (auto simp: key_pass_def dest: try_keys_honest split: prod.splits)

lemmas batch_loop_induct = batch_loop.raw_induct [rotated 1, consumes 1, case_names step]

lemma batch_loop_honest:
  assumes "batch_loop h cl texts t phase attempts st = Some r" "honest_host v h" "fst r = Inr vs"
  shows "exact_vectors v cl t texts vs"
  using assms
proof (induction h cl texts t phase attempts st r rule: batch_loop_induct)
  case (step loop h cl texts t phase attempts st r)
  then show ?case
    by (auto dest: key_pass_honest split: prod.splits pass_end.splits if_splits)
qed

lemma embed_batches_honest:
  assumes "honest_host v h" "embed_batches h cl batches t vectors st = Some (Inr vs, st')"
  shows "\<exists>us. vs = vectors @ us \<and> exact_vectors v cl t (concat batches) us"
  using assms
proof (induction h cl batches t vectors st rule: embed_batches.induct)
  case (1 h cl t vectors st)
  then show ?case by (simp add: exact_vectors_def)
next
  case (2 h cl batch batches t vectors st)
  then obtain us st1 where b: "embed_batch h cl batch t st = Some (Inr us, st1)"
    and rest: "embed_batches h cl batches t (vectors @ us) st1 = Some (Inr vs, st')"
    by (auto split: option.splits prod.splits sum.splits)
  have us: "exact_vectors v cl t batch us"
    using batch_loop_honest [of h cl batch t Outer 0 st "(Inr us, st1)" v us] b 2(2) by (simp add: embed_batch_def)
  obtain ws where vs: "vs = (vectors @ us) @ ws" and ws: "exact_vectors v cl t (concat batches) ws"
    using 2(1) [OF b refl refl 2(2) rest] by blast
  have "exact_vectors v cl t (concat (batch # batches)) (us @ ws)"
    using us ws unfolding exact_vectors_def by (metis Un_iff concat.simps(2) map_append set_append)
  with vs have "vs = vectors @ (us @ ws)" "exact_vectors v cl t (concat (batch # batches)) (us @ ws)" by simp_all
  then show ?case by blast
qed

text \<open>C38: Whatever the order of the items in the replies, and however many requests were limited or
  failed, the vectors that \<open>embed\<close> returns are those of its texts, one for each and in their order, none
  of them empty, when the service labels its items as documented.\<close>

theorem embed_exact:
  assumes "honest_host v h" "embed h cl texts t st = Some (Inr vs, st')"
  shows "exact_vectors v cl t texts vs"
  using embed_batches_honest [of v h cl "byte_aware_batches texts" t "[]" st vs st'] assms
  by (simp add: embed_def batches_cover)

lemma retrying_honest:
  assumes "honest_host v h" "try_query_key_retrying h cl key texts delays w = (Inr vs, w')"
  shows "exact_vectors v cl Query_Input texts vs"
  using assms
proof (induction delays arbitrary: w)
  case Nil
  then show ?case by (simp add: try_embed_query_with_key_def try_embed_honest)
next
  case (Cons d delays)
  obtain r w1 where one: "try_embed_query_with_key h cl key texts Query_Input w = (r, w1)" by fastforce
  show ?case
  proof (cases r)
    case (Inl e)
    then show ?thesis using Cons one by (cases e) auto
  next
    case (Inr us)
    then show ?thesis
      using Cons(2,3) one try_embed_honest [OF Cons(2) one [unfolded try_embed_query_with_key_def Inr]] by simp
  qed
qed

lemma pop_honest:
  "exact_vectors v cl t [text] vs \<Longrightarrow> pop_query_embedding vs = Inr x \<Longrightarrow> x = client_vector v cl t text \<and> x \<noteq> []"
  by (auto simp: exact_vectors_def pop_query_embedding_def)

lemma query_first_pass_honest:
  assumes "honest_host v h" "query_first_pass h cl [text] order e w = (Inl (Inr x), w')"
  shows "x = client_vector v cl Query_Input text \<and> x \<noteq> []"
  using assms
proof (induction order arbitrary: e w)
  case (Cons i order)
  obtain r w1 where one: "try_query_key_retrying h cl (cl_api_keys cl ! i) [text] QUERY_TRANSIENT_RETRY_MS w = (r, w1)"
    by fastforce
  show ?case
  proof (cases r)
    case (Inl f)
    then show ?thesis using Cons one by (cases f) auto
  next
    case (Inr us)
    then show ?thesis
      using Cons(2,3) one pop_honest [OF retrying_honest [OF Cons(2) one [unfolded Inr]]] by auto
  qed
qed simp

lemma query_second_pass_honest:
  assumes "honest_host v h" "query_second_pass h cl [text] order w = (Inr x, w')"
  shows "x = client_vector v cl Query_Input text \<and> x \<noteq> []"
  using assms
proof (induction order arbitrary: w)
  case (Cons i order)
  obtain r w1 where one: "try_embed_query_with_key h cl (cl_api_keys cl ! i) [text] Query_Input w = (r, w1)"
    by fastforce
  show ?case
  proof (cases r)
    case (Inl f)
    then show ?thesis using Cons one by (cases f) auto
  next
    case (Inr us)
    then show ?thesis
      using Cons(2,3) one pop_honest [OF try_embed_honest [OF Cons(2) one [unfolded try_embed_query_with_key_def Inr]]]
      by auto
  qed
qed simp

lemma embed_query_exact:
  assumes "honest_host v h" "embed_query h cl text st = (Inr x, st')"
  shows "x = client_vector v cl Query_Input text \<and> x \<noteq> []"
  using assms(2) query_first_pass_honest [OF assms(1)] query_second_pass_honest [OF assms(1)]
  by (auto simp: embed_query_def Let_def split: prod.splits sum.splits option.splits)

section \<open>The batch loop returns\<close>

text \<open>A service whose replies are written down by the number of the request; the world counts the requests
  and keeps the pauses.\<close>

definition written_host ::
  "(nat \<Rightarrow> str \<Rightarrow> embed_request \<Rightarrow> http_result) \<Rightarrow> u64 \<Rightarrow> u64 \<Rightarrow> (nat \<times> nat list) embed_host" where
  "written_host reply others nanos =
     \<lparr>eh_post = (\<lambda>secs endpoint key req (sent, paused). (reply sent key req, (Suc sent, paused))),
      eh_sleep = (\<lambda>ms (sent, paused). (sent, paused @ [ms])), eh_nanos = (\<lambda>_. nanos), eh_others = (\<lambda>_. others)\<rparr>"

fun is_limited :: "http_result \<Rightarrow> bool" where
  "is_limited (Response status shown text json) \<longleftrightarrow> status = 429"
| "is_limited (Send_Error b e) \<longleftrightarrow> False"

lemma read_limited: "read_response r n = Inl RateLimited \<longleftrightarrow> is_limited r"
  by (cases r) (auto simp: read_response_def order_embeddings_def Let_def split: sum.splits)

text \<open>The requests that are answered with something other than a rate limit.\<close>

definition unlimited :: "(nat \<Rightarrow> str \<Rightarrow> embed_request \<Rightarrow> http_result) \<Rightarrow> nat set" where
  "unlimited reply = {i. \<forall>key req. \<not> is_limited (reply i key req)}"

lemma try_written:
  "try_embed_with_key (written_host reply others nanos) cl key texts t (n, paused) =
    (read_response (reply n key (request_of cl texts t)) (length texts), Suc n, paused)"
  by (simp add: try_embed_with_key_def try_embed_with_key_using_def written_host_def)

lemma try_keys_written:
  assumes "try_keys (written_host reply others nanos) cl texts t order (n, paused) = (e, n', paused')"
  shows "paused' = paused" "n \<le> n'" "order \<noteq> [] \<Longrightarrow> n < n'" "n' \<le> n + length order"
    "{n..<n' - 1} \<inter> unlimited reply = {}" "e = All_Limited \<Longrightarrow> {n..<n'} \<inter> unlimited reply = {}"
proof -
  have "paused' = paused \<and> n \<le> n' \<and> (order \<noteq> [] \<longrightarrow> n < n') \<and> n' \<le> n + length order
    \<and> {n..<n' - 1} \<inter> unlimited reply = {} \<and> (e = All_Limited \<longrightarrow> {n..<n'} \<inter> unlimited reply = {})"
    using assms
  proof (induction order arbitrary: n)
    case (Cons i order)
    let ?r = "reply n (cl_api_keys cl ! i) (request_of cl texts t)"
    show ?case
    proof (cases "is_limited ?r")
      case True
      then have "try_keys (written_host reply others nanos) cl texts t order (Suc n, paused) = (e, n', paused')"
        using Cons(2) read_limited [of ?r "length texts"] by (simp add: try_written)
      from Cons(1) [OF this] have ih: "paused' = paused" "Suc n \<le> n'" "n' \<le> Suc n + length order"
        "{Suc n..<n' - 1} \<inter> unlimited reply = {}" "e = All_Limited \<longrightarrow> {Suc n..<n'} \<inter> unlimited reply = {}" by auto
      have "n \<notin> unlimited reply" using True by (auto simp: unlimited_def)
      moreover have "{n..<m} \<subseteq> insert n {Suc n..<m}" for m by auto
      ultimately show ?thesis using ih by fastforce
    next
      case False
      then have "n' = Suc n \<and> paused' = paused \<and> e \<noteq> All_Limited"
        using Cons(2) read_limited [of ?r "length texts"]
        by (cases "read_response ?r (length texts)"; cases "projl (read_response ?r (length texts))")
          (auto simp: try_written)
      then show ?thesis by simp
    qed
  qed simp
  then show "paused' = paused" "n \<le> n'" "order \<noteq> [] \<Longrightarrow> n < n'" "n' \<le> n + length order"
    "{n..<n' - 1} \<inter> unlimited reply = {}" "e = All_Limited \<Longrightarrow> {n..<n'} \<inter> unlimited reply = {}" by auto
qed

lemma key_pass_written:
  assumes "key_pass (written_host reply others nanos) cl texts t (c, n, paused) = (e, c', n', paused')" "cl_api_keys cl \<noteq> []"
  shows "paused' = paused" "n < n'" "{n..<n' - 1} \<inter> unlimited reply = {}"
    "e = All_Limited \<Longrightarrow> {n..<n'} \<inter> unlimited reply = {}"
proof -
  have "key_order (length (cl_api_keys cl)) s \<noteq> []" for s
    using assms(2) length_key_order [of "length (cl_api_keys cl)" s] by (metis length_0_conv)
  then obtain order where o: "order \<noteq> []"
    "try_keys (written_host reply others nanos) cl texts t order (n, paused) = (e, n', paused')"
    using assms by (auto simp: key_pass_def cursor_fetch_add_def split: prod.splits)
  show "paused' = paused" "n < n'" "{n..<n' - 1} \<inter> unlimited reply = {}"
    "e = All_Limited \<Longrightarrow> {n..<n'} \<inter> unlimited reply = {}"
    using try_keys_written [OF o(2)] o(1) by simp_all
qed

lemma pause_written: "pause (written_host reply others nanos) d (c, n, paused) = (c, n, paused @ [backoff_with_jitter d (c + others) nanos])"
  by (simp add: pause_def written_host_def cursor_load_def)

lemma unlimited_drop:
  fixes n :: nat
  assumes "{n..<m} \<inter> A = {}" "n \<le> m"
  shows "card ({n..<N} \<inter> A) \<le> card ({m..<N} \<inter> A)"
proof -
  have "{n..<N} \<inter> A \<subseteq> {m..<N} \<inter> A"
  proof
    fix x assume x: "x \<in> {n..<N} \<inter> A"
    then have "\<not> x < m" using assms(1) by auto
    then show "x \<in> {m..<N} \<inter> A" using x by simp
  qed
  then show ?thesis by (intro card_mono) simp_all
qed

lemma unlimited_pass:
  fixes n :: nat
  assumes "{n..<n' - 1} \<inter> A = {}" "n < n'"
  shows "card ({n..<N} \<inter> A) \<le> Suc (card ({n'..<N} \<inter> A))"
proof -
  have "card ({n..<N} \<inter> A) \<le> card ({n' - 1..<N} \<inter> A)" by (rule unlimited_drop) (use assms in auto)
  also have "{n' - 1..<N} \<inter> A \<subseteq> insert (n' - 1) ({n'..<N} \<inter> A)" using assms(2) by auto
  then have "card ({n' - 1..<N} \<inter> A) \<le> card (insert (n' - 1) ({n'..<N} \<inter> A))" by (intro card_mono) simp_all
  also have "\<dots> \<le> Suc (card ({n'..<N} \<inter> A))" by (rule card_insert_le_m1) simp_all
  finally show ?thesis .
qed

lemma unlimited_left:
  fixes n :: nat
  assumes "{n..<n' - 1} \<inter> A = {}" "n < n'" "0 < card ({n..<N} \<inter> A)"
  shows "n' \<le> N"
proof -
  obtain x where "x \<in> {n..<N} \<inter> A" using assms(3) by (metis all_not_in_conv card.empty less_irrefl)
  moreover from this have "\<not> x < n' - 1" using assms(1) by auto
  ultimately show ?thesis using assms(2) by auto
qed

lemma batch_loop_returns:
  assumes "cl_api_keys cl \<noteq> []" "attempts < TRANSIENT_RETRY_LIMIT"
    and "TRANSIENT_RETRY_LIMIT - attempts \<le> card ({n..<N} \<inter> unlimited reply)"
  shows "\<exists>r c' n' paused'. batch_loop (written_host reply others nanos) cl texts t phase attempts (c, n, paused) = Some (r, c', n', paused')
    \<and> n < n' \<and> n' \<le> N"
  using assms(2,3)
proof (induction "N - n" arbitrary: n c paused phase attempts rule: less_induct)
  case less
  let ?h = "written_host reply others nanos"
  let ?A = "unlimited reply"
  obtain paused1 where start: "(case phase of Outer \<Rightarrow> (c, n, paused) | Backing_Off d \<Rightarrow> sleep_for_rate_limit ?h d (c, n, paused)) = (c, n, paused1)"
    by (cases phase) (auto simp: sleep_for_rate_limit_def pause_written)
  obtain e c1 n1 paused2 where p0: "key_pass ?h cl texts t (c, n, paused1) = (e, c1, n1, paused2)" by (rule prod_cases4)
  then have p: "key_pass ?h cl texts t (c, n, paused1) = (e, c1, n1, paused1)"
    using key_pass_written(1) [OF p0 assms(1)] by simp
  note pass = key_pass_written [OF p assms(1)]
  have left: "n1 \<le> N" by (rule unlimited_left [OF pass(3) pass(2)]) (use less(2,3) in linarith)
  have unfold: "batch_loop ?h cl texts t phase attempts (c, n, paused) =
     (case (e, c1, n1, paused1) of
        (Embedded embeddings, st') \<Rightarrow> Some (Inr embeddings, st')
      | (Refused e, st') \<Rightarrow> Some (Inl (Failed e), st')
      | (Transient_Hit e, st') \<Rightarrow>
          if TRANSIENT_RETRY_LIMIT \<le> attempts + 1 then Some (Inl (Exhausted (attempts + 1) e), st')
          else batch_loop ?h cl texts t Outer (attempts + 1)
            (if phase = Outer then sleep_for_transient ?h (attempts + 1) st' else st')
      | (All_Limited, st') \<Rightarrow> batch_loop ?h cl texts t (next_delay phase attempts) attempts st')"
    by (subst batch_loop.simps) (simp only: start p)
  have smaller: "N - n1 < N - n" using left pass(2) by linarith
  show ?case
  proof (cases e)
    case (Transient_Hit m)
    show ?thesis
    proof (cases "TRANSIENT_RETRY_LIMIT \<le> attempts + 1")
      case False
      have "TRANSIENT_RETRY_LIMIT - (attempts + 1) \<le> card ({n1..<N} \<inter> ?A)"
        using unlimited_pass [OF pass(3) pass(2), of N] less(3) by linarith
      moreover obtain paused2 where "(if phase = Outer then sleep_for_transient ?h (attempts + 1) (c1, n1, paused1) else (c1, n1, paused1)) = (c1, n1, paused2)"
        by (cases "phase = Outer") (auto simp: sleep_for_transient_def pause_written)
      ultimately obtain r c' n' paused' where "batch_loop ?h cl texts t phase attempts (c, n, paused) = Some (r, c', n', paused')" "n1 < n'" "n' \<le> N"
        using less(1) [OF smaller, of "attempts + 1" Outer c1 paused2] False unfold Transient_Hit by auto
      then show ?thesis using pass(2) by (meson less_trans)
    qed (use unfold Transient_Hit pass(2) left in auto)
  next
    case All_Limited
    have "TRANSIENT_RETRY_LIMIT - attempts \<le> card ({n1..<N} \<inter> ?A)"
      using unlimited_drop [OF pass(4) [OF All_Limited], of N] pass(2) less(3) by linarith
    then obtain r c' n' paused' where "batch_loop ?h cl texts t phase attempts (c, n, paused) = Some (r, c', n', paused')" "n1 < n'" "n' \<le> N"
      using less(1) [OF smaller less(2)] unfold All_Limited by fastforce
    then show ?thesis using pass(2) by (meson less_trans)
  qed (use unfold pass(2) left in auto)
qed

text \<open>C39: However long the rate limits last, a batch ends once six requests have been answered with anything
  else, and it makes no request after the sixth of them: when six of the requests from the \<open>n\<close>th to the
  \<open>N\<close>th are not limited, whatever their keys, the batch returns vectors or an error within these requests.\<close>

theorem embed_batch_returns:
  assumes "cl_api_keys cl \<noteq> []" "TRANSIENT_RETRY_LIMIT \<le> card ({n..<N} \<inter> unlimited reply)"
  shows "\<exists>r c' n' paused'. embed_batch (written_host reply others nanos) cl texts t (c, n, paused) = Some (r, c', n', paused')
    \<and> n < n' \<and> n' \<le> N"
  unfolding embed_batch_def
  by (rule batch_loop_returns) (use assms in \<open>simp_all add: TRANSIENT_RETRY_LIMIT_def\<close>)

text \<open>A service that limits its first request and then answers.\<close>

definition demo_client :: embed_client where
  "demo_client = \<lparr>cl_provider = Voyage, cl_model = ''m'', cl_api_keys = [''k''], cl_endpoint = VOYAGE_ENDPOINT, cl_dimensions = None\<rparr>"

definition demo_service :: "nat \<Rightarrow> str \<Rightarrow> embed_request \<Rightarrow> http_result" where
  "demo_service i key req =
     (if i = 0 then Response 429 ''429 Too Many Requests'' [] (Inl ''no JSON'')
      else Response 200 ''200 OK'' [] (Inr (map (\<lambda>_. \<lparr>ed_embedding = [0x3F800000], ed_index = None\<rparr>) (er_input req))))"

lemma demo_unlimited: "{0..<7} \<inter> unlimited demo_service = {1..<7}"
  by (auto simp: unlimited_def demo_service_def)

theorem embed_batch_returns_witness:
  "\<exists>r c' n' paused'. embed_batch (written_host demo_service 0 0) demo_client [''t''] Document_Input (0, 0, []) = Some (r, c', n', paused')
    \<and> 0 < n' \<and> n' \<le> 7"
  by (rule embed_batch_returns) (simp_all add: demo_unlimited demo_client_def TRANSIENT_RETRY_LIMIT_def)

lemma demo_honest: "honest_host (\<lambda>_ _ _ _. [0x3F800000]) (written_host demo_service 0 0)"
  by (auto simp: honest_host_def written_host_def demo_service_def honest_def list_all_iff list_all2_conv_all_nth
      split: if_splits)

lemma demo_key_order: "key_order (length (cl_api_keys demo_client)) s = [s mod 1]"
  by (simp add: key_order_def demo_client_def)

lemma demo_embed:
  "embed (written_host demo_service 0 0) demo_client [''t''] Document_Input (0, 0, []) = Some (Inr [[0x3F800000]], 2, 2, [2001])"
proof -
  have b: "byte_aware_batches [''t''] = [[''t'']]"
    by (simp add: byte_aware_batches.simps MAX_BATCH_SIZE_def MAX_BATCH_BYTES_def utf8_width_def code_def str_len_def)
  have p1: "key_pass (written_host demo_service 0 0) demo_client [''t''] Document_Input (0, 0, []) = (All_Limited, 1, Suc 0, [])"
    by (simp add: key_pass_def cursor_fetch_add_def cursor_load_def demo_key_order try_written)
      (simp add: demo_service_def read_response_def written_host_def)
  have p2: "key_pass (written_host demo_service 0 0) demo_client [''t''] Document_Input (1, Suc 0, [2001]) = (Embedded [[0x3F800000]], 2, 2, [2001])"
    by (simp add: key_pass_def cursor_fetch_add_def cursor_load_def demo_key_order try_written)
      (simp add: demo_service_def read_response_def written_host_def order_embeddings_def request_of_def)
  have s: "sleep_for_rate_limit (written_host demo_service 0 0) 2 (1, Suc 0, []) = (1, Suc 0, [2001])"
    by (simp add: sleep_for_rate_limit_def pause_written backoff_with_jitter_def)
  show ?thesis
    by (simp add: embed_def b embed_batch_def)
      (subst batch_loop.simps, simp add: p1 next_delay_def, subst batch_loop.simps, simp add: s p2)
qed

theorem embed_exact_witness: "exact_vectors (\<lambda>_ _ _ _. [0x3F800000]) demo_client Document_Input [''t''] [[0x3F800000]]"
  by (rule embed_exact [OF demo_honest demo_embed])

section \<open>Limits after a transient failure\<close>

text \<open>Once a batch has seen a transient failure, the outer loop has no pause left for rate limits: it asks
  again at once, for as long as every key is limited.\<close>

lemma limited_without_pause:
  assumes "0 < attempts" "key_pass h cl texts t st = (All_Limited, st')"
  shows "batch_loop h cl texts t Outer attempts st = batch_loop h cl texts t Outer attempts st'"
  using assms by (subst batch_loop.simps) (simp add: next_delay_def)

text \<open>So one transient failure and any number of rate limits after it cost one pause in all.\<close>

definition spin_service :: "nat \<Rightarrow> nat \<Rightarrow> str \<Rightarrow> embed_request \<Rightarrow> http_result" where
  "spin_service limits i key req =
     (if i = 0 then Send_Error False ''connection reset''
      else if i \<le> limits then Response 429 ''429 Too Many Requests'' [] (Inl ''no JSON'')
      else Response 400 ''400 Bad Request'' [] (Inl ''no JSON''))"

lemma spin_pass:
  "key_pass (written_host (spin_service limits) 0 0) demo_client texts t (c, n, paused) =
    ((if n = 0 then Transient_Hit ''connection reset'' else if n \<le> limits then All_Limited
      else Refused ''VoyageAI error 400 Bad Request: ''), c + 1, Suc n, paused)"
  by (simp add: key_pass_def cursor_fetch_add_def cursor_load_def demo_key_order try_written)
    (simp add: spin_service_def read_response_def written_host_def is_send_error_transient_def)

lemma spin_loop:
  assumes "0 < n" "n \<le> Suc limits" "0 < attempts"
  shows "\<exists>c'. batch_loop (written_host (spin_service limits) 0 0) demo_client texts t Outer attempts (c, n, paused) =
    Some (Inl (Failed ''VoyageAI error 400 Bad Request: ''), c', limits + 2, paused)"
  using assms
proof (induction "Suc limits - n" arbitrary: n c)
  case 0
  then have "n = Suc limits" by simp
  then show ?case by (subst batch_loop.simps) (simp add: spin_pass)
next
  case (Suc d)
  then have "n \<le> limits" "d = Suc limits - Suc n" by simp_all
  then show ?case
    using Suc limited_without_pause [OF Suc.prems(3), of "written_host (spin_service limits) 0 0" demo_client texts t "(c, n, paused)"]
    by (simp add: spin_pass)
qed

lemma limits_after_transient_spin:
  "\<exists>c' d. embed_batch (written_host (spin_service limits) 0 0) demo_client texts t (c, 0, []) =
    Some (Inl (Failed ''VoyageAI error 400 Bad Request: ''), c', limits + 2, [d])"
proof -
  obtain d where d: "sleep_for_transient (written_host (spin_service limits) 0 0) 1 (c + 1, 1, []) = (c + 1, 1, [d])"
    by (simp add: sleep_for_transient_def pause_written)
  show ?thesis
    unfolding embed_batch_def
    by (subst batch_loop.simps) (use spin_loop [of 1 limits 1 texts t "c + 1" "[d]"] d in
        \<open>auto simp: spin_pass TRANSIENT_RETRY_LIMIT_def\<close>)
qed

section \<open>Smaller facts\<close>

text \<open>A status of the 500s is no transient failure: it ends a query and a batch at once.\<close>

lemma server_error_not_retried:
  "500 \<le> status \<Longrightarrow> read_response (Response status shown body json) n = Inl (Other (''VoyageAI error '' @ shown @ '': '' @ body))"
  by (simp add: read_response_def)

lemma backoff_bounds:
  "base_secs * 1000 \<le> backoff_with_jitter base_secs cursor nanos"
  "backoff_with_jitter base_secs cursor nanos < base_secs * 1000 + max (base_secs * 250) 100"
  by (simp_all add: backoff_with_jitter_def)

text \<open>An address that has been completed stays as it is.\<close>

lemma embedding_url_idem: "embedding_url p (Some (embedding_url p base)) = embedding_url p base"
proof -
  have fix_point: "embedding_url p (Some u) = u"
    if "trim u = u" "u \<noteq> []" "trim_end_matches (\<lambda>c. c = slash) u = u" "ends_with u ''/embeddings''" for u
    using that by (simp add: embedding_url_def)
  have shape: "trim (x @ ''/embeddings'') = x @ ''/embeddings''" if "x = [] \<or> \<not> char_is_whitespace (hd x)" for x
    using that by (cases x) (simp_all add: trim_def trim_start_matches_def trim_end_matches_def char_is_whitespace_def code_def)
  have ends: "trim_end_matches (\<lambda>c. c = slash) (x @ ''/embeddings'') = x @ ''/embeddings''" for x
    by (simp add: trim_end_matches_def slash_def)
  have e: "ends_with (x @ ''/embeddings'') ''/embeddings''" for x by (simp add: ends_with_iff)
  let ?raw = "trim (case base of Some b \<Rightarrow> b | None \<Rightarrow> [])"
  let ?t = "trim_end_matches (\<lambda>c. c = slash) ?raw"
  show ?thesis
  proof (cases "?raw = []")
    case True
    then have "embedding_url p base = default_endpoint p" by (simp add: embedding_url_def)
    moreover have "\<exists>x. default_endpoint p = x @ ''/embeddings'' \<and> (x = [] \<or> \<not> char_is_whitespace (hd x))"
      by (rule exI [of _ "take (length (default_endpoint p) - 11) (default_endpoint p)"])
        (cases p; simp add: default_endpoint_def VOYAGE_ENDPOINT_def OPENAI_ENDPOINT_def char_is_whitespace_def code_def)
    ultimately show ?thesis using fix_point shape ends e by (metis append_is_Nil_conv list.distinct(1))
  next
    case False
    have hd_raw: "\<not> char_is_whitespace (hd ?raw)"
    proof -
      obtain z where z: "dropWhile char_is_whitespace (case base of Some b \<Rightarrow> b | None \<Rightarrow> []) = ?raw @ z"
        using trim_end_matches_decomp [of "dropWhile char_is_whitespace (case base of Some b \<Rightarrow> b | None \<Rightarrow> [])" char_is_whitespace]
        by (auto simp: trim_def trim_start_matches_def)
      then have "hd (dropWhile char_is_whitespace (case base of Some b \<Rightarrow> b | None \<Rightarrow> [])) = hd ?raw" using False by simp
      then show ?thesis using hd_dropWhile z False by (metis append_is_Nil_conv)
    qed
    obtain z where "?raw = ?t @ z" using trim_end_matches_decomp by metis
    then have t: "?t = [] \<or> \<not> char_is_whitespace (hd ?t)" using hd_raw by (cases "?t") auto
    obtain x where "embedding_url p base = x @ ''/embeddings''" "x = [] \<or> \<not> char_is_whitespace (hd x)"
    proof (cases "ends_with ?t ''/embeddings''")
      case True
      then obtain x where x: "?t = x @ ''/embeddings''" by (auto simp: ends_with_iff)
      moreover have "x = [] \<or> \<not> char_is_whitespace (hd x)" using t x by (cases x) auto
      ultimately show ?thesis using that False True by (auto simp: embedding_url_def Let_def)
    qed (use that False t in \<open>auto simp: embedding_url_def Let_def\<close>)
    then show ?thesis using fix_point shape ends e by (metis append_is_Nil_conv list.distinct(1))
  qed
qed

text \<open>At most four clients are kept, one for each set of settings, and a request with the settings of a
  kept client gets that client.\<close>

definition shared_ok :: "(client_key \<times> embed_client) list \<Rightarrow> bool" where
  "shared_ok shared \<longleftrightarrow> length shared \<le> MAX_SHARED \<and> distinct (map fst shared)"

lemma cached_key: "(\<lambda>(cached, _). cached = key) = (\<lambda>e. fst e = key)"
  by auto

lemma shared_ok_step:
  assumes "shared_ok shared"
  shows "shared_ok (snd (shared_for_provider built key shared))"
    and "(key, client) \<in> set shared \<Longrightarrow> shared_for_provider built key shared = (Inr client, shared)"
proof -
  show "shared_ok (snd (shared_for_provider built key shared))"
  proof (cases "find (\<lambda>(cached, _). cached = key) shared")
    case None
    then have "\<not> (\<exists>e. e \<in> set shared \<and> fst e = key)" unfolding cached_key find_None_iff .
    then have "key \<notin> fst ` set shared" by (metis (no_types) imageE)
    then have new: "key \<notin> set (map fst shared)" by (simp only: set_map not_False_eq_True)
    obtain p model api_keys base_url dimensions where key: "key = (p, model, api_keys, base_url, dimensions)" by (rule prod_cases5)
    have "distinct (map fst (tl shared))" "key \<notin> set (map fst (tl shared))"
      using assms new by (cases shared; auto simp: shared_ok_def)+
    then show ?thesis using assms new None
      by (auto simp: shared_for_provider_def key shared_ok_def MAX_SHARED_def split: sum.split)
  qed (use assms in \<open>auto simp: shared_for_provider_def\<close>)
  show "shared_for_provider built key shared = (Inr client, shared)" if "(key, client) \<in> set shared"
  proof -
    have "\<exists>e. e \<in> set shared \<and> fst e = key" by (rule exI [of _ "(key, client)"]) (simp add: that)
    then have "find (\<lambda>(cached, _). cached = key) shared \<noteq> None" unfolding cached_key find_None_iff by blast
    then obtain k c where f: "find (\<lambda>(cached, _). cached = key) shared = Some (k, c)" by auto
    then have "(k, c) \<in> set shared" "k = key" by (auto simp: find_Some_iff) (metis nth_mem)
    then have "c = client" using assms that by (auto simp: shared_ok_def dest: eq_key_imp_eq_value)
    then show ?thesis using f \<open>k = key\<close> by (simp add: shared_for_provider_def)
  qed
qed

end
