(* ===== verification/Spec2Isabelle.thy ===== *)
theory Spec2Isabelle
  imports Chunker Shard_File Sharded Proxy Chunk_Weight Session_Store Incremental_Graph
    Query_Engine Settings_Store Mcp_Retrieval Vector_Service Embed_Client
begin

text \<open>
  A verification library for agent-context-engine, a code search service written in Rust. A router
  process keeps one worker process per repository; a worker cuts the repository's files into chunks,
  embeds them with an external service, keeps the vectors in a resident index backed by shard files,
  and answers queries by vector search, filtering, merging and reranking.

  \<^bold>\<open>Theories, in the order of the data.\<close>
  \<^item> \<open>Prelude\<close>, \<open>Hash_Map\<close>, \<open>F32\<close>, \<open>Topk\<close>, \<open>Encoding\<close>, \<open>Lang\<close>: what the source takes from the standard
    library. Strings are lists of characters of the Latin-1 range, with byte lengths and byte slices
    written out; hash maps are association lists with distinct keys behind the interface \<open>hash_map\<close>
    with its laws; \<open>f32\<close> values are 32-bit words with IEEE rounding of sum, product, quotient and root;
    unspecified sorts and selections are arguments under the contracts \<open>unstable_sort\<close> and
    \<open>unstable_select\<close>; little-endian records meet the contract \<open>codec\<close>; \<open>Path::file_name\<close> and
    \<open>Path::extension\<close> as on a Unix host.
  \<^item> \<open>Symbols\<close>, \<open>Chunker\<close>, \<open>Source_Paths\<close>, \<open>Paths\<close> (\<open>src/parsing\<close>, \<open>src/lib.rs\<close>, \<open>src/store/mod.rs\<close>):
    symbols, line windows and syntax-tree spans, repository-relative paths, test and generated files,
    repository keys and database names. The syntax tree is an argument, any tree whose children are
    ordered and nested. Proved: windows cover the source, spans do not overlap, the deepest symbol
    wins, repository keys are canonical.
  \<^item> \<open>Scope\<close>, \<open>Vector_Index\<close>, \<open>Shard_File\<close>, \<open>Sharded\<close> (\<open>src/vector\<close>): the interned extension table, the
    flat index of a shard (removal by compaction and by swap, merge, filtered search), the generation
    directories on disk as a sequence of effects that a crash cuts short, and the resident shards with
    the mutation fence, the epochs, the stale copies and the cap. Proved: removals and merges are exact
    on the abstract list of rows, search returns best rows, a written generation reads back, a crash
    shows the old or the new generation, no search during a run sees a mutating shard, a search over
    several repositories ranks as one index of their live, unfenced shards of the asked space would.
  \<^item> \<open>Registry\<close>, \<open>Proxy\<close> (\<open>src/router\<close>): the table of workers, single-flight election with
    identity tokens, publication, abandonment, reaping, and the step relation of requests, drivers,
    processes and sweeps; the handshake line, the spawn of a child with the kill of one whose handshake
    fails or times out, and the bounded loops that obtain a worker and resend a request. Proved by an
    invariant over all reachable worlds: every running worker has an owner, elections are single-flight,
    sweeps spare live spawns, running workers stay routed; every child that \<open>obtain_worker\<close> starts is
    killed or is the worker it returns.
  \<^item> \<open>Filters\<close>, \<open>Merger\<close>, \<open>Chunk_Weight\<close> (\<open>src/query\<close>): filters in the query text, the bounded edit
    distance against edit scripts, the application of filters, the merge pipeline, the class weights
    with the import scanner, the content fence.

  \<^item> \<open>Session_Store\<close> (\<open>src/mcp_session_store.rs\<close>): the LRU of sessions in memory and its directory of
    files. Reads, writes and removals may fail, each request meets an operating system of its own, other
    processes may change the directory, and a deletion is two requests, since it removes the file without
    the lock. Proved: it refines two maps, what memory holds and what a restart would find, with the
    failures that let them differ spelled out; it is bounded, and no id leaves the directory.
  \<^item> \<open>Index_Control\<close> (\<open>src/indexing/tracker.rs\<close>, \<open>retry_backoff.rs\<close>, \<open>rebuild_guard.rs\<close>): change
    detection, retry delays, rebuild reservations.
  \<^item> \<open>Json\<close>, \<open>Path_Parts\<close>, \<open>Import_Resolver\<close> (\<open>src/indexing/import_resolver.rs\<close>): JSON values, paths by
    components, and the resolution of import paths. Proved: a resolution is a known file, and taking
    other files away does not change it.
  \<^item> \<open>Call_Graph\<close>, \<open>Edge_Resolution\<close>, \<open>Incremental_Graph\<close> (\<open>src/indexing/pipeline.rs\<close>,
    \<open>src/store/ops.rs\<close>): the tables of symbols, raw edges and calls, the choice of a candidate, the full
    pass over pages, the pass in memory, the edge heal, the surface delta and the incremental pass, with
    cancellation as an argument. The full rebuild has the cancel and the embedding probe before it
    deletes anything, each delete and each marker, and any of these statements may fail (\<open>rebuild_env\<close>).
    Proved: the scan reads each row once, the memory and database passes agree, and an incremental run
    leaves the graph of a full pass and marks a graph only when it is complete; a full rebuild leaves
    the old graph intact, or the complete new one, or no pair of markers, but for the one deletion whose
    failure the source ignores (\<open>ignored_delete_keeps_markers\<close>).

  \<^item> \<open>Source_Lines\<close>, \<open>Graph_Expand\<close>, \<open>Fs_Tools\<close> (\<open>src/query\<close>, \<open>src/fs_tools.rs\<close>): numbered reads
    of a file, the walk over callers and callees within its limits, and the agents' \<open>grep\<close> and \<open>read\<close>
    behind the guard of the repository root. Proved: expansion returns chunks of the graph it was asked
    for, and no tool reads outside the root.
  \<^item> \<open>Rerank\<close>, \<open>Agentic_Rerank\<close>, \<open>Jev\<close> (\<open>src/query/reranker.rs\<close>, \<open>src/query/jev.rs\<close>): the prompt and the
    reading of a model's answer, the tool loop of the agentic reranker with its budgets, and the
    ranking by probabilities. Proved: whatever the model answers, the output names candidates, each
    within its lines.
  \<^item> \<open>Query_Engine\<close> (\<open>src/query/engine.rs\<close>, \<open>src/query/scope_fallback.rs\<close>): the pipeline of a query, from
    the filters in its text over search, merge, expansion and reranking to results with their lines,
    and the two retries in the other scope. Proved: the candidates of an answer are those of one scan in
    the scope that is reported, and a query does a bounded amount of searches.
  \<^item> \<open>Settings\<close>, \<open>Settings_Store\<close> (\<open>src/config.rs\<close>, \<open>put_config\<close> of \<open>src/server.rs\<close>,
    \<open>remove_index\<close> of \<open>src/engine_ops.rs\<close>): the structs with their JSON form, the migrations, loading,
    the atomic write, the reload gate and the generations of repositories; a settings update and an
    index removal also as tasks that interleave where they wait (\<open>settings_step\<close>). Proved: settings
    round-trip, and a generation in memory comes back only when a request that read the old one overlaps
    the removal, which \<open>put_takes_bump_back\<close> and \<open>copied_settings_drop_bump\<close> show to happen.
  \<^item> \<open>Index_Status\<close>, \<open>Recompute\<close>, \<open>Index_Engine\<close> (\<open>src/indexing/mod.rs\<close>): the status map and the
    cancellation tokens, the debounced recompute of the caches, and the consumer of index triggers with
    retries, reservations and the marks for a rebuild; what a run does is its outcome. Proved: a
    repository is \<open>Indexing\<close> only while the consumer works on it, every run ends in a settled status
    with one event, and a completion is always followed by a recompute.
  \<^item> \<open>Embedding_Identity\<close>, \<open>Vector_Service\<close> (\<open>src/embedding/identity.rs\<close>, \<open>src/indexing/mod.rs\<close>):
    the key of an embedding space, the warm of a cold repository and the search with its snapshot of the
    previous index, with what other tasks do to the index wherever these release its lock. Proved: an
    answer comes from a shard held for the repository under the query's identity, a warm that cannot
    verify its data installs none.
  \<^item> \<open>Key_Ring\<close>, \<open>Embed_Client\<close> (\<open>src/llm/keys.rs\<close>, \<open>src/embedding/voyage\<close>): requests over the keys of a
    provider, batches, the check of a reply and the retry loops. Proved: the requests follow their
    plan, vectors belong to their texts, a batch ends with the sixth reply that is no rate limit.
  \<^item> \<open>Readiness\<close>, \<open>Mcp_Output\<close>, \<open>Block_Merge\<close>, \<open>Mcp_Retrieval\<close> (\<open>src/mcp/readiness.rs\<close>,
    \<open>src/mcp/query_gate.rs\<close>, \<open>src/mcp.rs\<close>, \<open>post_query\<close> of \<open>src/server.rs\<close>): whether the stored index
    may answer, the wait for a run, the text of an answer within its budget, the merge of result blocks,
    and the retrieval tool and the REST endpoint over the query engine. Proved: a live index is never
    served during its destructive window, the wait returns, merging keeps every line, the scope of a
    call wins over its text, the decorated answer is bounded.

  \<^bold>\<open>How the parts meet.\<close> \<open>Mcp_Retrieval\<close> calls \<open>Readiness\<close>, then \<open>Query_Engine\<close>, then \<open>Block_Merge\<close> and
  \<open>Mcp_Output\<close>, and adds repositories through \<open>Settings_Store\<close>. \<open>Vector_Service\<close> reads and installs shards of
  \<open>Sharded\<close> from the generations of \<open>Shard_File\<close> and asks \<open>Index_Engine\<close> for runs. \<open>Index_Engine\<close> keeps the
  statuses of \<open>Index_Status\<close>, the slots of \<open>Recompute\<close> and the delays of \<open>Index_Control\<close>.

  \<^bold>\<open>Interfaces.\<close> \<open>hash_map\<close> (in \<open>Hash_Map\<close>), \<open>unstable_sort\<close> (in \<open>Prelude\<close>), \<open>unstable_select\<close>
  (in \<open>Topk\<close>), \<open>codec\<close> (in \<open>Encoding\<close>, interpreted for shard ids in \<open>Shard_File\<close>) and \<open>json_codec\<close> (in
  \<open>Settings\<close>, interpreted for each struct of the settings) hold the laws the clients rely on; each is
  interpreted on the definitions that provide it.

  \<^bold>\<open>Bounds.\<close> Loops recur on lists or on a measure, so every definition but one is total. The
  three rounds of \<open>obtain_worker\<close>, the single retry of the proxy and the rounds of the agentic reranker
  are the bounds of the source. The wait for a run polls every 500 ms: a fuel above the budget in
  milliseconds divided by 500 is enough, and \<open>wait_returns\<close> shows it. \<open>batch_loop\<close> of \<open>Embed_Client\<close>
  waits for as long as every key is limited, so it is a partial function; \<open>embed_batch_returns\<close> says
  when it has a result.

  \<^bold>\<open>Concurrency.\<close> An operation that holds a lock is one function on the locked state. Where the source
  releases the lock between a read and a write, the model has the intermediate change as an argument
  (\<open>unlocked\<close>, \<open>meanwhile\<close>, \<open>between\<close>) or as a step of its own (\<open>settings_step\<close>, the \<open>Forget\<close> and \<open>Unlink\<close>
  of a session).

  \<^bold>\<open>Not modelled.\<close> The database, the embedding, reranking and chat services, the syntax-tree
  grammars, HTTP and process creation are third-party code or system calls; they are arguments where the
  source uses their results. The language and framework extractors walk trees of third-party grammars
  and match third-party regular expressions. The streaming stage of the index pipeline (walking,
  parsing, embedding and writing of files) is the outcome of a run in \<open>Index_Engine\<close>; of the pipeline
  the call graph is modelled. The files of the embedding cache, the file-retrieval tool, the LLM clients
  below their key ring, the chat agent, the remaining HTTP routes, the watcher and the sidecar files are
  left out: transport, files and serialization around the parts above. A run ends in \<open>Index_Engine\<close> in
  the ways its code returns; the panic that the mask of the keys raises at a character boundary ends no
  run there and is a finding of its own. A recompute pass stands for the attempt, which the source makes
  as best it can, whether it succeeds or not; its database handle is the one of the completion that
  spawned the task (\<open>coalesced_handle_dropped\<close>). Statements inside Phase 2 of a run do not fail.
  Characters beyond Latin-1 are outside the model of text.
\<close>

end
